(* ===== verification/Perf_Prelude.thy ===== *)
theory Perf_Prelude
  imports Main "HOL-Library.Word" "HOL-Library.Monad_Syntax" "HOL-Library.Multiset"
begin

text \<open>
  Shared vocabulary of the development: the C integer types, memory that is read
  and written with a bounds check, little-endian loads, the text of the integer
  conversions of \<open>printf\<close>, and \<open>snprintf\<close> into a bounded array.

  A value of type \<open>'a option\<close> returned by a model of a C function is \<^const>\<open>None\<close>
  exactly where the C code would have undefined behaviour (a read or write outside the
  object, a shift by at least the width of the type, a loop that never ends); an error that the C code reports by
  a return value is a value under \<^const>\<open>Some\<close>. A theorem that a call returns
  \<^const>\<open>Some\<close> is therefore a memory-safety theorem.
\<close>

unbundle bit_operations_syntax

section \<open>Integer types\<close>

type_synonym u8 = "8 word"
type_synonym u16 = "16 word"
type_synonym u32 = "32 word"
type_synonym u64 = "64 word"

text \<open>
  \<open>size_t\<close> values are natural numbers below \<open>2 ^ 64\<close>. Sums and comparisons of the
  sizes of objects stay in that range; the one operation that can leave it, subtraction,
  is written with its wrap-around.
\<close>

definition SIZE_RANGE :: nat where
  "SIZE_RANGE = 2 ^ 64"

definition size_sub :: "nat \<Rightarrow> nat \<Rightarrow> nat" where
  "size_sub a b = (a + SIZE_RANGE - b) mod SIZE_RANGE"

named_theorems checked_simps \<open>unfolding of checked memory operations\<close>

lemma size_sub_le [simp]:
  assumes "b \<le> a" and "a < SIZE_RANGE"
  shows "size_sub a b = a - b"
proof -
  have "a + SIZE_RANGE - b = (a - b) + SIZE_RANGE" using assms by linarith
  moreover have "a - b < SIZE_RANGE" using assms by linarith
  ultimately show ?thesis unfolding size_sub_def by (simp only: mod_add_self2 mod_less)
qed

section \<open>Checked memory\<close>

definition rd :: "'a list \<Rightarrow> nat \<Rightarrow> 'a option" where
  "rd buf i = (if i < length buf then Some (buf ! i) else None)"

definition wr :: "'a list \<Rightarrow> nat \<Rightarrow> 'a \<Rightarrow> 'a list option" where
  "wr buf i x = (if i < length buf then Some (buf[i := x]) else None)"

lemma rd_in [simp]: "i < length buf \<Longrightarrow> rd buf i = Some (buf ! i)"
  by (simp add: rd_def)

lemma rd_out [simp]: "length buf \<le> i \<Longrightarrow> rd buf i = None"
  by (simp add: rd_def)

lemma rd_eq_Some: "rd buf i = Some x \<longleftrightarrow> i < length buf \<and> buf ! i = x"
  by (simp add: rd_def)

lemma wr_in [simp]: "i < length buf \<Longrightarrow> wr buf i x = Some (buf[i := x])"
  by (simp add: wr_def)

lemma wr_eq_Some: "wr buf i x = Some buf' \<longleftrightarrow> i < length buf \<and> buf' = buf[i := x]"
  by (auto simp: wr_def)

lemma rd_drop [simp]: "rd (drop k buf) i = rd buf (k + i)"
proof (cases "k + i < length buf")
  case True
  then show ?thesis by (simp add: rd_def)
next
  case False
  then show ?thesis by (simp add: rd_def)
qed

text \<open>
  \<open>realloc\<close> to \<open>n\<close> elements: the old contents up to the new size, then memory whose
  contents \<open>fresh\<close> are not determined; or failure, when the environment \<open>oom\<close> refuses the
  size. Allocation of new memory is the case of an empty old array.
\<close>

definition realloc :: "(nat \<Rightarrow> 'a) \<Rightarrow> (nat \<Rightarrow> bool) \<Rightarrow> 'a list \<Rightarrow> nat \<Rightarrow> 'a list option" where
  "realloc fresh oom old n =
     (if oom n then None else Some (take n old @ map fresh [length old..<n]))"

lemma realloc_eq_Some:
  "length old \<le> n \<Longrightarrow> realloc fresh oom old n = Some new \<Longrightarrow>
     length new = n \<and> take (length old) new = old"
  by (auto simp: realloc_def split: if_splits)

abbreviation (input) ENOMEM :: int where "ENOMEM \<equiv> 12"
abbreviation (input) EINVAL :: int where "EINVAL \<equiv> 22"

text \<open>
  The result of signed arithmetic, if it is an \<open>int\<close>: overflow is undefined behaviour.  The
  conversion of a size to \<open>int\<close> wraps around.
\<close>

definition c_int :: "int \<Rightarrow> int option" where
  "c_int x = (if - (2 ^ 31) \<le> x \<and> x < 2 ^ 31 then Some x else None)"

lemma c_int_in [simp]: "0 \<le> x \<Longrightarrow> x < 2 ^ 31 \<Longrightarrow> c_int x = Some x"
  by (simp add: c_int_def)

definition int_of_size :: "nat \<Rightarrow> int" where
  "int_of_size n = sint (of_nat n :: u32)"

lemma int_of_size_le: "n < 2 ^ 31 \<Longrightarrow> int_of_size n = int n"
proof -
  assume "n < 2 ^ 31"
  then have "int n < 2 ^ 31" by (metis of_nat_less_iff of_nat_numeral of_nat_power)
  then have "signed_take_bit 31 (int n) = int n" by (intro signed_take_bit_int_eq_self) auto
  then show ?thesis using sint_sbintrunc' [of "int n", where 'a = 32] by (simp add: int_of_size_def)
qed

text \<open>A little-endian number, and a load of \<open>n\<close> bytes at an offset.\<close>

primrec le_word :: "u8 list \<Rightarrow> u64" where
  "le_word [] = 0"
| "le_word (b # bs) = ucast b OR push_bit 8 (le_word bs)"

definition rd_le :: "u8 list \<Rightarrow> nat \<Rightarrow> nat \<Rightarrow> u64 option" where
  "rd_le buf off n =
     (if off + n \<le> length buf then Some (le_word (take n (drop off buf))) else None)"

lemma rd_le_in [simp]:
  "off + n \<le> length buf \<Longrightarrow> rd_le buf off n = Some (le_word (take n (drop off buf)))"
  by (simp add: rd_le_def)

subsection \<open>Bits of words\<close>

lemma bit_le_word:
  "bit (le_word bs) i \<longleftrightarrow> i < 64 \<and> i div 8 < length bs \<and> bit (bs ! (i div 8)) (i mod 8)"
proof (induction bs arbitrary: i)
  case Nil
  then show ?case by simp
next
  case (Cons b bs)
  show ?case
  proof (cases "i < 8")
    case True
    then show ?thesis by (auto simp: bit_simps)
  next
    case False
    then obtain j where j: "i = j + 8" by (metis le_add_diff_inverse2 not_less)
    have "bit b (j + 8) = False" using bit_imp_le_length [of b "j + 8"] by auto
    moreover have "(j + 8) div 8 = Suc (j div 8)" by simp
    ultimately show ?thesis unfolding j using Cons.IH [of j] by (auto simp: bit_simps)
  qed
qed

primrec le_bytes :: "nat \<Rightarrow> u64 \<Rightarrow> u8 list" where
  "le_bytes 0 w = []"
| "le_bytes (Suc n) w = ucast w # le_bytes n (drop_bit 8 w)"

lemma length_le_bytes [simp]: "length (le_bytes n w) = n"
  by (induction n arbitrary: w) auto

lemma nth_le_bytes: "i < n \<Longrightarrow> le_bytes n w ! i = ucast (drop_bit (8 * i) w)"
  by (induction n arbitrary: w i) (auto simp: nth_Cons less_Suc_eq_0_disj add.commute split: nat.splits)

lemma bit_word_out: "LENGTH('a) \<le> i \<Longrightarrow> bit (w :: 'a::len word) i = False"
  using bit_imp_le_length [of w i] by auto

lemma le_word_le_bytes: "le_word (le_bytes n w) = take_bit (8 * n) w"
proof (rule bit_eqI)
  fix i assume "possible_bit TYPE(u64) i"
  then have "i < 64" by (simp add: possible_bit_def)
  have "8 * (i div 8) + i mod 8 = i" by simp
  then show "bit (le_word (le_bytes n w)) i = bit (take_bit (8 * n) w) i"
    using \<open>i < 64\<close> by (auto simp: bit_le_word nth_le_bytes bit_simps)
qed

lemma bit_shl1: "bit (push_bit 1 w) i \<longleftrightarrow> 0 < i \<and> i < LENGTH('a) \<and> bit w (i - 1)"
  for w :: "'a::len word"
  by (subst bit_push_bit_iff) (auto simp: possible_bit_def)

lemma bit_single: "bit (push_bit n 1 :: 'a::len word) i \<longleftrightarrow> i = n \<and> n < LENGTH('a)"
  unfolding bit_push_bit_iff possible_bit_def bit_1_iff by auto

lemma and_single_bit: "w AND push_bit n 1 \<noteq> 0 \<longleftrightarrow> bit w n" for w :: "'a::len word"
proof
  assume "w AND push_bit n 1 \<noteq> 0"
  then obtain i where "bit (w AND push_bit n 1) i" using bit_eqI [of "w AND push_bit n 1" 0] by auto
  then show "bit w n" unfolding bit_and_iff bit_single by auto
next
  assume "bit w n"
  then have "bit (w AND push_bit n 1) n"
    using bit_imp_le_length [of w n] unfolding bit_and_iff bit_single by auto
  then show "w AND push_bit n 1 \<noteq> 0" by auto
qed

lemma and_one_zero: "w AND 1 = 0 \<longleftrightarrow> \<not> bit w 0" for w :: "'a::len word"
  using and_single_bit [of w 0] by auto

lemma and_two_zero: "w AND 2 = 0 \<longleftrightarrow> \<not> bit w 1" for w :: "'a::len word"
  using and_single_bit [of w 1] by auto

lemma nth_eq_mapI: "length xs = n \<Longrightarrow> (\<And>i. i < n \<Longrightarrow> f i = xs ! i) \<Longrightarrow> map f [0..<n] = xs"
  by (rule nth_equalityI) auto

lemma unat_of_nat_small: "n < 2 ^ LENGTH('a) \<Longrightarrow> unat (of_nat n :: 'a::len word) = n"
  by (simp only: unsigned_of_nat take_bit_nat_eq_self of_nat_id)

lemma push_bit_overflow: "LENGTH('a) \<le> n \<Longrightarrow> push_bit n w = (0 :: 'a::len word)"
  by (rule bit_word_eqI) (auto simp: bit_push_bit_iff)

lemma unat_plus_one: "w \<noteq> - 1 \<Longrightarrow> unat (w + 1) = Suc (unat w)"
  using unatSuc [of w] by (metis add.commute add_eq_0_iff2 minus_equation_iff)

lemma less_plus_one: "w \<noteq> - 1 \<Longrightarrow> w < w + (1 :: 'a::len word)"
  by (simp add: word_less_nat_alt unat_plus_one)

subsection \<open>Copies into a 64-bit variable\<close>

text \<open>
  \<open>memcpy (d, s, n)\<close> onto the low \<open>n\<close> bytes of a 64-bit variable, on a little-endian
  host: the other bytes keep their value.
\<close>

definition memcpy_le64 :: "u64 \<Rightarrow> u8 list \<Rightarrow> nat \<Rightarrow> nat \<Rightarrow> u64 option" where
  "memcpy_le64 old buf off n =
     (case rd_le buf off n of
        None \<Rightarrow> None
      | Some v \<Rightarrow> Some (push_bit (8 * n) (drop_bit (8 * n) old) OR v))"

lemma memcpy_le64_zero [simp]: "memcpy_le64 0 buf off n = rd_le buf off n"
  by (cases "rd_le buf off n") (auto simp: memcpy_le64_def)

lemma memcpy_le64_in [simp]:
  "off + n \<le> length buf \<Longrightarrow> memcpy_le64 old buf off n =
     Some (push_bit (8 * n) (drop_bit (8 * n) old) OR le_word (take n (drop off buf)))"
  by (simp add: memcpy_le64_def)

section \<open>Text of integers and bounded printing\<close>

definition digit_char :: "nat \<Rightarrow> char" where
  "digit_char d = ''0123456789abcdef'' ! d"

fun digits_base :: "nat \<Rightarrow> nat \<Rightarrow> string" where
  "digits_base b n =
     (if n < b \<or> b < 2 then [digit_char n] else digits_base b (n div b) @ [digit_char (n mod b)])"

declare digits_base.simps [simp del]

definition fmt_x :: "nat \<Rightarrow> string" where
  "fmt_x n = digits_base 16 n"

definition fmt_u :: "nat \<Rightarrow> string" where
  "fmt_u n = digits_base 10 n"

definition fmt_d :: "int \<Rightarrow> string" where
  "fmt_d i = (if i < 0 then ''-'' @ fmt_u (nat (- i)) else fmt_u (nat i))"

text \<open>
  \<open>snprintf (buf + pos, size, ...)\<close> for the text \<open>s\<close>: at most \<open>size - 1\<close> characters
  and a terminator are stored, and the result is the length of the whole text.
\<close>

definition snprintf :: "char list \<Rightarrow> nat \<Rightarrow> nat \<Rightarrow> string \<Rightarrow> (int \<times> char list) option" where
  "snprintf mem pos sz s =
     (if sz = 0 then Some (int (length s), mem)
      else let n = min (length s) (sz - 1) in
        if pos + n < length mem
        then Some (int (length s), take pos mem @ take n s @ [CHR 0x00] @ drop (pos + n + 1) mem)
        else None)"

text \<open>The C string that starts at a position of an array.\<close>

definition c_str :: "char list \<Rightarrow> nat \<Rightarrow> string" where
  "c_str mem pos = takeWhile (\<lambda>c. c \<noteq> CHR 0x00) (drop pos mem)"

lemma snprintf_fits:
  assumes "pos + length s < length mem" and "length s < sz"
  shows "snprintf mem pos sz s =
    Some (int (length s), take pos mem @ s @ [CHR 0x00] @ drop (pos + length s + 1) mem)"
proof -
  from assms have "min (length s) (sz - 1) = length s" by simp
  with assms show ?thesis by (simp add: snprintf_def Let_def)
qed

lemma snprintf_length: "snprintf mem pos sz s = Some (r, mem') \<Longrightarrow> length mem' = length mem"
  by (auto simp: snprintf_def Let_def split: if_splits)

lemma digits_base_length:
  assumes "2 \<le> b" and "n < b ^ k" and "0 < k"
  shows "length (digits_base b n) \<le> k"
  using assms(2,3)
proof (induction k arbitrary: n)
  case 0
  then show ?case by simp
next
  case (Suc k)
  show ?case
  proof (cases "n < b")
    case True
    then show ?thesis by (subst digits_base.simps) simp
  next
    case False
    from Suc.prems have "n < b ^ k * b" by (simp add: mult.commute)
    then have "n div b < b ^ k" by (rule less_mult_imp_div_less)
    moreover from False Suc.prems have "0 < k" by (cases k) auto
    ultimately have "length (digits_base b (n div b)) \<le> k" by (rule Suc.IH)
    with False assms(1) show ?thesis by (subst digits_base.simps) simp
  qed
qed

lemma digit_char_no_nul: "d < 16 \<Longrightarrow> digit_char d \<noteq> CHR 0x00"
proof -
  assume "d < 16"
  then have "digit_char d \<in> set ''0123456789abcdef''"
    unfolding digit_char_def by (intro nth_mem) simp
  then show ?thesis by auto
qed

lemma digits_base_no_nul: "2 \<le> b \<Longrightarrow> b \<le> 16 \<Longrightarrow> CHR 0x00 \<notin> set (digits_base b n)"
proof (induction b n rule: digits_base.induct)
  case (1 b n)
  then have "n mod b < 16" using mod_less_divisor [of b n] by linarith
  with 1 show ?case
    using digit_char_no_nul [of n] digit_char_no_nul [of "n mod b"]
    by (subst digits_base.simps) auto
qed

lemma fmt_no_nul [simp]:
  "CHR 0x00 \<notin> set (fmt_x n)" "CHR 0x00 \<notin> set (fmt_u n)" "CHR 0x00 \<notin> set (fmt_d i)"
  by (simp_all add: fmt_x_def fmt_u_def fmt_d_def digits_base_no_nul)

lemma fmt_x_word: "LENGTH('a) \<le> 64 \<Longrightarrow> length (fmt_x (unat (w :: 'a::len word))) \<le> 16"
proof -
  assume l: "LENGTH('a) \<le> 64"
  have "unat w < 2 ^ LENGTH('a)" by (rule unsigned_less)
  also have "\<dots> \<le> 2 ^ 64" using l by (intro power_increasing) auto
  finally have "unat w < 16 ^ 16" by simp
  then show ?thesis unfolding fmt_x_def by (intro digits_base_length) auto
qed

lemma fmt_u_word: "LENGTH('a) \<le> 64 \<Longrightarrow> length (fmt_u (unat (w :: 'a::len word))) \<le> 20"
proof -
  assume l: "LENGTH('a) \<le> 64"
  have "unat w < 2 ^ LENGTH('a)" by (rule unsigned_less)
  also have "\<dots> \<le> 2 ^ 64" using l by (intro power_increasing) auto
  finally have "unat w < 10 ^ 20" by simp
  then show ?thesis unfolding fmt_u_def by (intro digits_base_length) auto
qed

lemma fmt_d_length: "\<bar>i\<bar> < 10 ^ 20 \<Longrightarrow> length (fmt_d i) \<le> 21"
proof -
  assume "\<bar>i\<bar> < 10 ^ 20"
  then have "length (fmt_u (nat i)) \<le> 20" "length (fmt_u (nat (- i))) \<le> 20"
    unfolding fmt_u_def by (intro digits_base_length; simp)+
  then show ?thesis by (simp add: fmt_d_def)
qed

lemma snprintf_at:
  assumes "length s < length rest" and "length s < sz"
  shows "snprintf (pre @ rest) (length pre) sz s =
    Some (int (length s), pre @ s @ CHR 0x00 # drop (Suc (length s)) rest)"
  using assms by (subst snprintf_fits) auto

lemma c_str_append: "CHR 0x00 \<notin> set s \<Longrightarrow> c_str (s @ CHR 0x00 # rest) 0 = s"
  by (induction s) (auto simp: c_str_def)

lemma fmt_bool_length:
  "length (fmt_d 0) \<le> 1" "length (fmt_d 1) \<le> 1" "length (fmt_u 0) \<le> 1" "length (fmt_u 1) \<le> 1"
  by (auto simp: fmt_d_def fmt_u_def digits_base.simps)

lemma fmt_sint_length: "length (fmt_d (sint (w :: u64))) \<le> 21"
proof (rule fmt_d_length)
  show "\<bar>sint w\<bar> < 10 ^ 20" using sint_ge [of w] sint_lt [of w] by simp
qed

lemma append_length_le: "length xs \<le> a \<Longrightarrow> length ys \<le> b \<Longrightarrow> length (xs @ ys) \<le> a + b"
  by simp

section \<open>Buffers with a common prefix\<close>

definition same_prefix :: "nat \<Rightarrow> 'a list \<Rightarrow> 'a list \<Rightarrow> bool" where
  "same_prefix n xs ys \<longleftrightarrow> n \<le> length xs \<and> n \<le> length ys \<and> take n xs = take n ys"

lemma same_prefix_nth: "same_prefix n xs ys \<Longrightarrow> i < n \<Longrightarrow> ys ! i = xs ! i"
  unfolding same_prefix_def by (metis nth_take)

lemma rd_same: "same_prefix n xs ys \<Longrightarrow> i < n \<Longrightarrow> rd ys i = rd xs i"
  using same_prefix_nth by (fastforce simp: rd_def same_prefix_def)

lemma rd_le_same: "same_prefix n xs ys \<Longrightarrow> off + k \<le> n \<Longrightarrow> rd_le ys off k = rd_le xs off k"
proof -
  assume a: "same_prefix n xs ys" "off + k \<le> n"
  have "take k (drop off zs) = take k (drop off (take n zs))" for zs :: "u8 list"
    using a(2) by (simp add: take_drop min_def)
  with a(1) have "take k (drop off ys) = take k (drop off xs)" unfolding same_prefix_def by metis
  with a show ?thesis by (auto simp: rd_le_def same_prefix_def)
qed

lemma memcpy_le64_same:
  "same_prefix n xs ys \<Longrightarrow> off + k \<le> n \<Longrightarrow> memcpy_le64 old ys off k = memcpy_le64 old xs off k"
  by (simp add: memcpy_le64_def rd_le_same)

lemmas same_reads = rd_same rd_le_same memcpy_le64_same

end
