(* ===== verification/Packet_Decoder.thy ===== *)
theory Packet_Decoder
  imports Perf_Prelude
begin

text \<open>
  What the users of a trace packet decoder rely on. Both AUX area decoders (Intel PT, Arm
  SPE) export a \<open>get_packet (buf, len, &packet)\<close> that returns a packet size or a negative
  error code, and both are driven by the same dump loop (\<open>intel_pt_dump\<close> of
  \<open>util/intel-pt.c\<close>, \<open>arm_spe_dump\<close> of \<open>util/arm-spe.c\<close>). The loop is defined here once,
  and the locale \<open>packet_decoder\<close> states the contract under which it visits every byte of
  the buffer exactly once and stops.
\<close>

section \<open>Absorbing padding\<close>

text \<open>\<open>while (ret < limit && len > ret && !buf[ret]) ret += 1;\<close>\<close>

function absorb_zeros :: "nat \<Rightarrow> u8 list \<Rightarrow> nat \<Rightarrow> nat \<Rightarrow> nat option" where
  "absorb_zeros limit buf len ret =
     (if ret < limit \<and> len > ret then do {
        b \<leftarrow> rd buf ret;
        if b = 0 then absorb_zeros limit buf len (ret + 1) else Some ret
      } else Some ret)"
  by pat_completeness auto
termination
  by (relation "measure (\<lambda>(limit, buf, len, ret). limit - ret)") auto

declare absorb_zeros.simps [simp del]

text \<open>
  The loop stays inside the announced buffer, never moves back, stops at the limit, and
  skips zero bytes only.
\<close>

lemma absorb_zeros_spec:
  assumes "len \<le> length buf" and "ret \<le> len"
  shows "\<exists>n. absorb_zeros limit buf len ret = Some n \<and> ret \<le> n \<and> n \<le> len \<and> n \<le> max ret limit \<and>
    (\<forall>i. ret \<le> i \<longrightarrow> i < n \<longrightarrow> buf ! i = 0)"
  using assms
proof (induction limit buf len ret rule: absorb_zeros.induct)
  case (1 limit buf len ret)
  show ?case
  proof (cases "ret < limit \<and> ret < len \<and> buf ! ret = 0")
    case True
    with "1.prems" have "\<exists>n. absorb_zeros limit buf len (ret + 1) = Some n \<and> ret + 1 \<le> n \<and> n \<le> len \<and>
        n \<le> max (ret + 1) limit \<and> (\<forall>i. ret + 1 \<le> i \<longrightarrow> i < n \<longrightarrow> buf ! i = 0)"
      by (intro "1.IH") auto
    then obtain n where n: "absorb_zeros limit buf len (ret + 1) = Some n" "ret + 1 \<le> n" "n \<le> len"
        "n \<le> max (ret + 1) limit" "\<forall>i. ret + 1 \<le> i \<longrightarrow> i < n \<longrightarrow> buf ! i = 0"
      by blast
    have "\<forall>i. ret \<le> i \<longrightarrow> i < n \<longrightarrow> buf ! i = 0"
      using n(5) True by (metis Suc_eq_plus1 le_antisym not_less_eq_eq)
    with n True "1.prems" show ?thesis by (subst absorb_zeros.simps) auto
  next
    case False
    with "1.prems" show ?thesis by (subst absorb_zeros.simps) auto
  qed
qed

lemma absorb_zeros_full [simp]: "absorb_zeros limit buf len len = Some len"
  by (subst absorb_zeros.simps) simp

section \<open>The dump loop\<close>

text \<open>
  One line of output: its position, the raw bytes, and the text after them (nothing when the
  printer returned no text).
\<close>

record dump_line =
  dl_pos :: nat
  dl_bytes :: "u8 list"
  dl_text :: "string option"

text \<open>The loop \<open>for (i = 0; i < pkt_len; i++)\<close> that prints \<open>buf[i]\<close>.\<close>

definition rd_bytes :: "u8 list \<Rightarrow> nat \<Rightarrow> u8 list option" where
  "rd_bytes buf n = (if n \<le> length buf then Some (take n buf) else None)"

text \<open>
  \<open>desc\<close> is the local array the packets are printed to; it keeps its contents from one
  iteration to the next. The loop advances \<open>buf\<close> and \<open>pos\<close> and takes the packet length off
  \<open>len\<close>, which is unsigned.
\<close>

type_synonym 'p get_packet_fn = "u8 list \<Rightarrow> nat \<Rightarrow> (int \<times> 'p) option"
type_synonym 'p pkt_desc_fn = "'p \<Rightarrow> char list \<Rightarrow> nat \<Rightarrow> (int \<times> char list) option"

partial_function (option) dump_loop ::
  "'p get_packet_fn \<Rightarrow> 'p pkt_desc_fn \<Rightarrow> nat \<Rightarrow> char list \<Rightarrow> u8 list \<Rightarrow> nat \<Rightarrow> nat \<Rightarrow> dump_line list option"
where
  "dump_loop get_packet pkt_desc desc_max desc buf pos len =
     (if len = 0 then Some []
      else do {
        (ret, packet) \<leftarrow> get_packet buf len;
        let pkt_len = (if ret > 0 then nat ret else 1);
        bytes \<leftarrow> rd_bytes buf pkt_len;
        (line, desc) \<leftarrow>
          (if ret > 0 then do {
             (ret, desc) \<leftarrow> pkt_desc packet desc desc_max;
             Some (if ret > 0 then Some (c_str desc 0) else None, desc)
           } else Some (Some ''Bad packet!'', desc));
        rest \<leftarrow> dump_loop get_packet pkt_desc desc_max desc (drop pkt_len buf) (pos + pkt_len)
          (size_sub len pkt_len);
        Some (\<lparr>dl_pos = pos, dl_bytes = bytes, dl_text = line\<rparr> # rest)
      })"

text \<open>What a line shows of the packet at its position of a buffer of \<open>len\<close> bytes.\<close>

definition line_ok :: "'p get_packet_fn \<Rightarrow> ('p \<Rightarrow> string) \<Rightarrow> u8 list \<Rightarrow> nat \<Rightarrow> dump_line \<Rightarrow> bool" where
  "line_ok get_packet pkt_text buf len l \<longleftrightarrow> dl_pos l < len \<and>
     (case get_packet (drop (dl_pos l) buf) (len - dl_pos l) of
        None \<Rightarrow> False
      | Some (ret, p) \<Rightarrow> dl_text l = Some (if ret > 0 then pkt_text p else ''Bad packet!''))"

section \<open>The contract of a decoder\<close>

locale packet_decoder =
  fixes get_packet :: "'p get_packet_fn"
  assumes decode_total:
      "len \<le> length buf \<Longrightarrow> len < SIZE_RANGE \<Longrightarrow> \<exists>ret p. get_packet buf len = Some (ret, p)"
    and decode_bounded:
      "len \<le> length buf \<Longrightarrow> len < SIZE_RANGE \<Longrightarrow> get_packet buf len = Some (ret, p) \<Longrightarrow> ret \<le> int len"
begin

lemma decode_step:
  assumes "len \<le> length buf" and "len < SIZE_RANGE" and "len \<noteq> 0"
  obtains ret p n where "get_packet buf len = Some (ret, p)"
    and "n = (if ret > 0 then nat ret else 1)" and "0 < n" and "n \<le> len"
proof -
  from assms obtain ret p where g: "get_packet buf len = Some (ret, p)"
    using decode_total by blast
  then have "ret \<le> int len" using assms decode_bounded by blast
  with assms(3) have "0 < (if ret > 0 then nat ret else 1)" "(if ret > 0 then nat ret else 1) \<le> len"
    by auto
  with g show ?thesis using that by blast
qed

end

text \<open>
  A decoder with a printer: every packet the decoder returns has a text, which the printer
  leaves, terminated, in an array of \<open>desc_max\<close> characters.
\<close>

locale packet_printer = packet_decoder get_packet
  for get_packet :: "'p get_packet_fn" +
  fixes pkt_desc :: "'p pkt_desc_fn" and desc_max :: nat and pkt_text :: "'p \<Rightarrow> string"
  assumes text_not_empty: "pkt_text p \<noteq> []"
    and print_total:
      "len \<le> length buf \<Longrightarrow> len < SIZE_RANGE \<Longrightarrow> get_packet buf len = Some (ret, p) \<Longrightarrow> 0 < ret \<Longrightarrow>
       length desc = desc_max \<Longrightarrow>
       \<exists>desc'. pkt_desc p desc desc_max = Some (int (length (pkt_text p)), desc') \<and>
         length desc' = desc_max \<and> c_str desc' 0 = pkt_text p"
begin

lemma print_step:
  assumes "len \<le> length buf" and "len < SIZE_RANGE" and "get_packet buf len = Some (ret, p)"
    and "length desc = desc_max"
  obtains desc' where "length desc' = desc_max"
    and "(if ret > 0 then do {
            (ret, desc) \<leftarrow> pkt_desc p desc desc_max;
            Some (if ret > 0 then Some (c_str desc 0) else None, desc)
          } else Some (Some ''Bad packet!'', desc)) =
         Some (Some (if ret > 0 then pkt_text p else ''Bad packet!''), desc')"
proof (cases "ret > 0")
  case True
  then show ?thesis using print_total [OF assms(1-3) True assms(4)] text_not_empty that by fastforce
next
  case False
  then show ?thesis using assms that by simp
qed

text \<open>
  The loop ends; the bytes it prints are the buffer, in order, nothing left out; every line
  shows the text of the packet at its position.
\<close>

lemma dump_covers:
  assumes "pos + len \<le> length buf" and "pos + len < SIZE_RANGE" and "length desc = desc_max"
  shows "\<exists>lines. dump_loop get_packet pkt_desc desc_max desc (drop pos buf) pos len = Some lines \<and>
    concat (map dl_bytes lines) = take len (drop pos buf) \<and> list_all (line_ok get_packet pkt_text buf (pos + len)) lines"
  using assms
proof (induction len arbitrary: pos desc rule: less_induct)
  case (less len)
  show ?case
  proof (cases "len = 0")
    case True
    then show ?thesis by (simp add: dump_loop.simps)
  next
    case False
    let ?b = "drop pos buf"
    have len: "len \<le> length ?b" "len < SIZE_RANGE" using less.prems by auto
    with False obtain ret p n where step: "get_packet ?b len = Some (ret, p)"
      "n = (if ret > 0 then nat ret else 1)" "0 < n" "n \<le> len"
      using decode_step by blast
    obtain desc' where d: "length desc' = desc_max"
      "(if ret > 0 then do {
            (ret, desc) \<leftarrow> pkt_desc p desc desc_max;
            Some (if ret > 0 then Some (c_str desc 0) else None, desc)
          } else Some (Some ''Bad packet!'', desc)) =
         Some (Some (if ret > 0 then pkt_text p else ''Bad packet!''), desc')"
      using print_step [OF len step(1) less.prems(3)] .
    have "\<exists>lines. dump_loop get_packet pkt_desc desc_max desc' (drop (pos + n) buf) (pos + n) (len - n) = Some lines \<and>
        concat (map dl_bytes lines) = take (len - n) (drop (pos + n) buf) \<and>
        list_all (line_ok get_packet pkt_text buf (pos + n + (len - n))) lines"
      using step(3,4) less.prems d(1) by (intro less.IH) auto
    then obtain rest where rest:
      "dump_loop get_packet pkt_desc desc_max desc' (drop (pos + n) buf) (pos + n) (len - n) = Some rest"
      "concat (map dl_bytes rest) = take (len - n) (drop (pos + n) buf)"
      "list_all (line_ok get_packet pkt_text buf (pos + len)) rest"
      using step(4) by auto
    have "take len ?b = take n ?b @ take (len - n) (drop n ?b)"
      using step(4) by (metis le_add_diff_inverse take_add)
    moreover have "line_ok get_packet pkt_text buf (pos + len) \<lparr>dl_pos = pos, dl_bytes = take n ?b,
        dl_text = Some (if ret > 0 then pkt_text p else ''Bad packet!'')\<rparr>"
      using False step(1) by (simp add: line_ok_def)
    moreover have "dump_loop get_packet pkt_desc desc_max desc ?b pos len =
        Some (\<lparr>dl_pos = pos, dl_bytes = take n ?b,
          dl_text = Some (if ret > 0 then pkt_text p else ''Bad packet!'')\<rparr> # rest)"
      using False step(4) len rest(1)
      by (subst dump_loop.simps)
        (simp add: step(1) step(2) [symmetric] d(2) rd_bytes_def Let_def add.commute)
    ultimately show ?thesis using rest by (simp add: add.commute)
  qed
qed

end

end
