(* ===== verification/Intel_PT_Pkt.thy ===== *)
theory Intel_PT_Pkt
  imports Packet_Decoder
begin

text \<open>
  The packet layer of the Intel Processor Trace decoder
  (\<open>util/intel-pt-decoder/intel-pt-pkt-decoder.c\<close>): one definition per function, from the
  per-packet readers up to \<open>intel_pt_get_packet\<close>, and the printer \<open>intel_pt_pkt_desc\<close>.

  The buffer is the list of bytes the caller owns and \<open>len\<close> the number of them the caller
  announces; every access goes through \<^const>\<open>rd\<close> or \<^const>\<open>rd_le\<close>, so a result
  \<^const>\<open>None\<close> is an access outside the buffer. The out-parameter \<open>packet\<close> is passed in
  and returned. The little-endian variant of the \<open>le*_to_cpu\<close> macros is modelled.
\<close>

section \<open>Packets\<close>

datatype intel_pt_pkt_type =
    INTEL_PT_BAD | INTEL_PT_PAD | INTEL_PT_TNT | INTEL_PT_TIP_PGD | INTEL_PT_TIP_PGE
  | INTEL_PT_TSC | INTEL_PT_TMA | INTEL_PT_MODE_EXEC | INTEL_PT_MODE_TSX | INTEL_PT_MTC
  | INTEL_PT_TIP | INTEL_PT_FUP | INTEL_PT_CYC | INTEL_PT_VMCS | INTEL_PT_PSB
  | INTEL_PT_PSBEND | INTEL_PT_CBR | INTEL_PT_TRACESTOP | INTEL_PT_PIP | INTEL_PT_OVF
  | INTEL_PT_MNT | INTEL_PT_PTWRITE | INTEL_PT_PTWRITE_IP | INTEL_PT_EXSTOP
  | INTEL_PT_EXSTOP_IP | INTEL_PT_MWAIT | INTEL_PT_PWRE | INTEL_PT_PWRX

record intel_pt_pkt =
  pt_type :: intel_pt_pkt_type
  pt_count :: int
  pt_payload :: u64

abbreviation INTEL_PT_NEED_MORE_BYTES :: int where
  "INTEL_PT_NEED_MORE_BYTES \<equiv> - 1"

abbreviation INTEL_PT_BAD_PACKET :: int where
  "INTEL_PT_BAD_PACKET \<equiv> - 2"

definition BIT63 :: u64 where
  "BIT63 = push_bit 63 1"

definition NR_FLAG :: u64 where
  "NR_FLAG = BIT63"

text \<open>A reader returns the code's \<open>int\<close> and the packet as it left it.\<close>

type_synonym pt_result = "(int \<times> intel_pt_pkt) option"

definition intel_pt_pkt_name :: "intel_pt_pkt_type \<Rightarrow> string" where
  "intel_pt_pkt_name t = (case t of
      INTEL_PT_BAD \<Rightarrow> ''Bad Packet!'' | INTEL_PT_PAD \<Rightarrow> ''PAD'' | INTEL_PT_TNT \<Rightarrow> ''TNT''
    | INTEL_PT_TIP_PGD \<Rightarrow> ''TIP.PGD'' | INTEL_PT_TIP_PGE \<Rightarrow> ''TIP.PGE''
    | INTEL_PT_TSC \<Rightarrow> ''TSC'' | INTEL_PT_TMA \<Rightarrow> ''TMA'' | INTEL_PT_MODE_EXEC \<Rightarrow> ''MODE.Exec''
    | INTEL_PT_MODE_TSX \<Rightarrow> ''MODE.TSX'' | INTEL_PT_MTC \<Rightarrow> ''MTC'' | INTEL_PT_TIP \<Rightarrow> ''TIP''
    | INTEL_PT_FUP \<Rightarrow> ''FUP'' | INTEL_PT_CYC \<Rightarrow> ''CYC'' | INTEL_PT_VMCS \<Rightarrow> ''VMCS''
    | INTEL_PT_PSB \<Rightarrow> ''PSB'' | INTEL_PT_PSBEND \<Rightarrow> ''PSBEND'' | INTEL_PT_CBR \<Rightarrow> ''CBR''
    | INTEL_PT_TRACESTOP \<Rightarrow> ''TraceSTOP'' | INTEL_PT_PIP \<Rightarrow> ''PIP'' | INTEL_PT_OVF \<Rightarrow> ''OVF''
    | INTEL_PT_MNT \<Rightarrow> ''MNT'' | INTEL_PT_PTWRITE \<Rightarrow> ''PTWRITE''
    | INTEL_PT_PTWRITE_IP \<Rightarrow> ''PTWRITE'' | INTEL_PT_EXSTOP \<Rightarrow> ''EXSTOP''
    | INTEL_PT_EXSTOP_IP \<Rightarrow> ''EXSTOP'' | INTEL_PT_MWAIT \<Rightarrow> ''MWAIT''
    | INTEL_PT_PWRE \<Rightarrow> ''PWRE'' | INTEL_PT_PWRX \<Rightarrow> ''PWRX'')"

section \<open>Packets with the extended opcode 0x02\<close>

text \<open>
  The loop \<open>for (count = n; count; count--) { if (w & mask) break; w <<= 1; }\<close> of the two
  TNT readers.
\<close>

primrec tnt_loop :: "'a::len word \<Rightarrow> nat \<Rightarrow> 'a word \<Rightarrow> nat \<times> 'a word" where
  "tnt_loop msk 0 w = (0, w)"
| "tnt_loop msk (Suc n) w =
     (if w AND msk \<noteq> 0 then (Suc n, w) else tnt_loop msk n (push_bit 1 w))"

definition intel_pt_get_long_tnt :: "u8 list \<Rightarrow> nat \<Rightarrow> intel_pt_pkt \<Rightarrow> pt_result" where
  "intel_pt_get_long_tnt buf len packet =
     (if len < 8 then Some (INTEL_PT_NEED_MORE_BYTES, packet)
      else do {
        payload \<leftarrow> rd_le buf 0 8;
        let (count, payload) = tnt_loop BIT63 47 payload;
        Some (8, packet\<lparr>pt_type := INTEL_PT_TNT, pt_count := int count,
                        pt_payload := push_bit 1 payload\<rparr>)
      })"

definition intel_pt_get_pip :: "u8 list \<Rightarrow> nat \<Rightarrow> intel_pt_pkt \<Rightarrow> pt_result" where
  "intel_pt_get_pip buf len packet =
     (if len < 8 then Some (INTEL_PT_NEED_MORE_BYTES, packet)
      else do {
        payload \<leftarrow> memcpy_le64 0 buf 2 6;
        Some (8, packet\<lparr>pt_type := INTEL_PT_PIP,
          pt_payload := (if payload AND 1 \<noteq> 0 then drop_bit 1 payload OR NR_FLAG
                         else drop_bit 1 payload)\<rparr>)
      })"

definition intel_pt_get_tracestop :: "intel_pt_pkt \<Rightarrow> pt_result" where
  "intel_pt_get_tracestop packet = Some (2, packet\<lparr>pt_type := INTEL_PT_TRACESTOP\<rparr>)"

definition intel_pt_get_cbr :: "u8 list \<Rightarrow> nat \<Rightarrow> intel_pt_pkt \<Rightarrow> pt_result" where
  "intel_pt_get_cbr buf len packet =
     (if len < 4 then Some (INTEL_PT_NEED_MORE_BYTES, packet)
      else do {
        v \<leftarrow> rd_le buf 2 2;
        Some (4, packet\<lparr>pt_type := INTEL_PT_CBR, pt_payload := v\<rparr>)
      })"

definition intel_pt_get_vmcs :: "u8 list \<Rightarrow> nat \<Rightarrow> intel_pt_pkt \<Rightarrow> pt_result" where
  "intel_pt_get_vmcs buf len packet =
     (let count = (52 - 5) div 8 in
      if count < 1 \<or> count > 7 then Some (INTEL_PT_BAD_PACKET, packet)
      else if len < count + 2 then Some (INTEL_PT_NEED_MORE_BYTES, packet)
      else do {
        v \<leftarrow> memcpy_le64 (pt_payload packet) buf 2 count;
        Some (int count + 2,
          packet\<lparr>pt_type := INTEL_PT_VMCS, pt_count := int count, pt_payload := v\<rparr>)
      })"

definition intel_pt_get_ovf :: "intel_pt_pkt \<Rightarrow> pt_result" where
  "intel_pt_get_ovf packet = Some (2, packet\<lparr>pt_type := INTEL_PT_OVF\<rparr>)"

text \<open>
  The loop \<open>for (i = 2; i < 16; i += 2)\<close> over the pairs of bytes, as a recursion over its
  remaining rounds; the result says whether every pair is \<open>02 82\<close>.
\<close>

primrec psb_loop :: "u8 list \<Rightarrow> nat \<Rightarrow> nat \<Rightarrow> bool option" where
  "psb_loop buf i 0 = Some True"
| "psb_loop buf i (Suc n) = do {
     b0 \<leftarrow> rd buf i;
     if b0 \<noteq> 2 then Some False
     else do {
       b1 \<leftarrow> rd buf (i + 1);
       if b1 \<noteq> 0x82 then Some False else psb_loop buf (i + 2) n
     }
   }"

definition intel_pt_get_psb :: "u8 list \<Rightarrow> nat \<Rightarrow> intel_pt_pkt \<Rightarrow> pt_result" where
  "intel_pt_get_psb buf len packet =
     (if len < 16 then Some (INTEL_PT_NEED_MORE_BYTES, packet)
      else do {
        good \<leftarrow> psb_loop buf 2 7;
        if \<not> good then Some (INTEL_PT_BAD_PACKET, packet)
        else Some (16, packet\<lparr>pt_type := INTEL_PT_PSB\<rparr>)
      })"

definition intel_pt_get_psbend :: "intel_pt_pkt \<Rightarrow> pt_result" where
  "intel_pt_get_psbend packet = Some (2, packet\<lparr>pt_type := INTEL_PT_PSBEND\<rparr>)"

definition intel_pt_get_tma :: "u8 list \<Rightarrow> nat \<Rightarrow> intel_pt_pkt \<Rightarrow> pt_result" where
  "intel_pt_get_tma buf len packet =
     (if len < 7 then Some (INTEL_PT_NEED_MORE_BYTES, packet)
      else do {
        b2 \<leftarrow> rd buf 2;
        b3 \<leftarrow> rd buf 3;
        b5 \<leftarrow> rd buf 5;
        b6 \<leftarrow> rd buf 6;
        Some (7, packet\<lparr>pt_type := INTEL_PT_TMA,
          pt_payload := ucast b2 OR push_bit 8 (ucast b3),
          pt_count := uint b5 OR push_bit 8 (uint (b6 AND 1))\<rparr>)
      })"

definition intel_pt_get_pad :: "intel_pt_pkt \<Rightarrow> pt_result" where
  "intel_pt_get_pad packet = Some (1, packet\<lparr>pt_type := INTEL_PT_PAD\<rparr>)"

definition intel_pt_get_mnt :: "u8 list \<Rightarrow> nat \<Rightarrow> intel_pt_pkt \<Rightarrow> pt_result" where
  "intel_pt_get_mnt buf len packet =
     (if len < 11 then Some (INTEL_PT_NEED_MORE_BYTES, packet)
      else do {
        v \<leftarrow> memcpy_le64 (pt_payload packet) buf 3 8;
        Some (11, packet\<lparr>pt_type := INTEL_PT_MNT, pt_payload := v\<rparr>)
      })"

definition intel_pt_get_3byte :: "u8 list \<Rightarrow> nat \<Rightarrow> intel_pt_pkt \<Rightarrow> pt_result" where
  "intel_pt_get_3byte buf len packet =
     (if len < 3 then Some (INTEL_PT_NEED_MORE_BYTES, packet)
      else do {
        b2 \<leftarrow> rd buf 2;
        if b2 = 0x88 then intel_pt_get_mnt buf len packet
        else Some (INTEL_PT_BAD_PACKET, packet)
      })"

definition intel_pt_get_ptwrite :: "u8 list \<Rightarrow> nat \<Rightarrow> intel_pt_pkt \<Rightarrow> pt_result" where
  "intel_pt_get_ptwrite buf len packet = do {
     b1 \<leftarrow> rd buf 1;
     let count = uint (drop_bit 5 b1 AND 3);
     let packet = packet\<lparr>pt_count := count,
           pt_type := (if b1 AND 0x80 \<noteq> 0 then INTEL_PT_PTWRITE_IP else INTEL_PT_PTWRITE)\<rparr>;
     if count = 0 then
       (if len < 6 then Some (INTEL_PT_NEED_MORE_BYTES, packet)
        else do { v \<leftarrow> rd_le buf 2 4; Some (6, packet\<lparr>pt_payload := v\<rparr>) })
     else if count = 1 then
       (if len < 10 then Some (INTEL_PT_NEED_MORE_BYTES, packet)
        else do { v \<leftarrow> rd_le buf 2 8; Some (10, packet\<lparr>pt_payload := v\<rparr>) })
     else Some (INTEL_PT_BAD_PACKET, packet)
   }"

definition intel_pt_get_exstop :: "intel_pt_pkt \<Rightarrow> pt_result" where
  "intel_pt_get_exstop packet = Some (2, packet\<lparr>pt_type := INTEL_PT_EXSTOP\<rparr>)"

definition intel_pt_get_exstop_ip :: "intel_pt_pkt \<Rightarrow> pt_result" where
  "intel_pt_get_exstop_ip packet = Some (2, packet\<lparr>pt_type := INTEL_PT_EXSTOP_IP\<rparr>)"

definition intel_pt_get_mwait :: "u8 list \<Rightarrow> nat \<Rightarrow> intel_pt_pkt \<Rightarrow> pt_result" where
  "intel_pt_get_mwait buf len packet =
     (if len < 10 then Some (INTEL_PT_NEED_MORE_BYTES, packet)
      else do {
        v \<leftarrow> rd_le buf 2 8;
        Some (10, packet\<lparr>pt_type := INTEL_PT_MWAIT, pt_payload := v\<rparr>)
      })"

definition intel_pt_get_pwre :: "u8 list \<Rightarrow> nat \<Rightarrow> intel_pt_pkt \<Rightarrow> pt_result" where
  "intel_pt_get_pwre buf len packet =
     (if len < 4 then Some (INTEL_PT_NEED_MORE_BYTES, packet)
      else do {
        v \<leftarrow> memcpy_le64 (pt_payload packet) buf 2 2;
        Some (4, packet\<lparr>pt_type := INTEL_PT_PWRE, pt_payload := v\<rparr>)
      })"

definition intel_pt_get_pwrx :: "u8 list \<Rightarrow> nat \<Rightarrow> intel_pt_pkt \<Rightarrow> pt_result" where
  "intel_pt_get_pwrx buf len packet =
     (if len < 7 then Some (INTEL_PT_NEED_MORE_BYTES, packet)
      else do {
        v \<leftarrow> memcpy_le64 (pt_payload packet) buf 2 5;
        Some (7, packet\<lparr>pt_type := INTEL_PT_PWRX, pt_payload := v\<rparr>)
      })"

definition intel_pt_get_ext :: "u8 list \<Rightarrow> nat \<Rightarrow> intel_pt_pkt \<Rightarrow> pt_result" where
  "intel_pt_get_ext buf len packet =
     (if len < 2 then Some (INTEL_PT_NEED_MORE_BYTES, packet)
      else do {
        b1 \<leftarrow> rd buf 1;
        if b1 AND 0x1f = 0x12 then intel_pt_get_ptwrite buf len packet
        else if b1 = 0xa3 then intel_pt_get_long_tnt buf len packet
        else if b1 = 0x43 then intel_pt_get_pip buf len packet
        else if b1 = 0x83 then intel_pt_get_tracestop packet
        else if b1 = 0x03 then intel_pt_get_cbr buf len packet
        else if b1 = 0xc8 then intel_pt_get_vmcs buf len packet
        else if b1 = 0xf3 then intel_pt_get_ovf packet
        else if b1 = 0x82 then intel_pt_get_psb buf len packet
        else if b1 = 0x23 then intel_pt_get_psbend packet
        else if b1 = 0x73 then intel_pt_get_tma buf len packet
        else if b1 = 0xc3 then intel_pt_get_3byte buf len packet
        else if b1 = 0x62 then intel_pt_get_exstop packet
        else if b1 = 0xe2 then intel_pt_get_exstop_ip packet
        else if b1 = 0xc2 then intel_pt_get_mwait buf len packet
        else if b1 = 0x22 then intel_pt_get_pwre buf len packet
        else if b1 = 0xa2 then intel_pt_get_pwrx buf len packet
        else Some (INTEL_PT_BAD_PACKET, packet)
      })"

section \<open>One-byte opcodes\<close>

text \<open>In this file \<open>byte\<close> is an \<open>unsigned int\<close>.\<close>

definition intel_pt_get_short_tnt :: "u32 \<Rightarrow> intel_pt_pkt \<Rightarrow> pt_result" where
  "intel_pt_get_short_tnt byte packet =
     (let (count, byte) = tnt_loop 0x80 6 byte in
      Some (1, packet\<lparr>pt_type := INTEL_PT_TNT, pt_count := int count,
                      pt_payload := push_bit 57 (ucast byte)\<rparr>))"

text \<open>
  The loop of \<open>intel_pt_get_cyc\<close>. \<open>Inl\<close> is an early return of an error code; \<open>Inr\<close> the
  final \<open>offs\<close> and \<open>payload\<close>. A shift by 64 or more would be undefined in C.
\<close>

function cyc_loop :: "u8 list \<Rightarrow> nat \<Rightarrow> u32 \<Rightarrow> nat \<Rightarrow> nat \<Rightarrow> u64 \<Rightarrow> (int + nat \<times> u64) option" where
  "cyc_loop buf len byte offs shift payload =
     (if byte AND 1 = 0 then Some (Inr (offs, payload))
      else if offs > 9 then Some (Inl INTEL_PT_BAD_PACKET)
      else if len < offs then Some (Inl INTEL_PT_NEED_MORE_BYTES)
      else do {
        b \<leftarrow> rd buf offs;
        if shift \<ge> 64 then None
        else cyc_loop buf len (ucast b) (offs + 1) (shift + 7)
               (payload OR push_bit shift (drop_bit 1 (ucast b)))
      })"
  by pat_completeness auto
termination
  by (relation "measure (\<lambda>(buf, len, byte, offs, shift, payload). 10 - offs)") auto

declare cyc_loop.simps [simp del]

definition intel_pt_get_cyc :: "u32 \<Rightarrow> u8 list \<Rightarrow> nat \<Rightarrow> intel_pt_pkt \<Rightarrow> pt_result" where
  "intel_pt_get_cyc byte buf len packet = do {
     r \<leftarrow> cyc_loop buf (size_sub len 1) (drop_bit 2 byte) 1 5 (ucast (drop_bit 3 byte));
     case r of
       Inl err \<Rightarrow> Some (err, packet)
     | Inr (offs, payload) \<Rightarrow>
         Some (int offs, packet\<lparr>pt_type := INTEL_PT_CYC, pt_payload := payload\<rparr>)
   }"

definition intel_pt_get_ip ::
  "intel_pt_pkt_type \<Rightarrow> u32 \<Rightarrow> u8 list \<Rightarrow> nat \<Rightarrow> intel_pt_pkt \<Rightarrow> pt_result" where
  "intel_pt_get_ip type byte buf len packet =
     (let count = uint (drop_bit 5 byte); packet = packet\<lparr>pt_count := count\<rparr> in
      if count = 0 then Some (1, packet\<lparr>pt_type := type\<rparr>)
      else if count = 1 then
        (if len < 3 then Some (INTEL_PT_NEED_MORE_BYTES, packet)
         else do {
           v \<leftarrow> rd_le buf 1 2;
           Some (3, packet\<lparr>pt_payload := v, pt_type := type\<rparr>) })
      else if count = 2 then
        (if len < 5 then Some (INTEL_PT_NEED_MORE_BYTES, packet)
         else do {
           v \<leftarrow> rd_le buf 1 4;
           Some (5, packet\<lparr>pt_payload := v, pt_type := type\<rparr>) })
      else if count = 3 \<or> count = 4 then
        (if len < 7 then Some (INTEL_PT_NEED_MORE_BYTES, packet)
         else do {
           v \<leftarrow> memcpy_le64 (pt_payload packet) buf 1 6;
           Some (7, packet\<lparr>pt_payload := v, pt_type := type\<rparr>) })
      else if count = 6 then
        (if len < 9 then Some (INTEL_PT_NEED_MORE_BYTES, packet)
         else do {
           v \<leftarrow> rd_le buf 1 8;
           Some (9, packet\<lparr>pt_payload := v, pt_type := type\<rparr>) })
      else Some (INTEL_PT_BAD_PACKET, packet))"

definition intel_pt_get_mode :: "u8 list \<Rightarrow> nat \<Rightarrow> intel_pt_pkt \<Rightarrow> pt_result" where
  "intel_pt_get_mode buf len packet =
     (if len < 2 then Some (INTEL_PT_NEED_MORE_BYTES, packet)
      else do {
        b1 \<leftarrow> rd buf 1;
        if drop_bit 5 b1 = 0 then
          (let packet = packet\<lparr>pt_type := INTEL_PT_MODE_EXEC\<rparr> in
           if b1 AND 3 = 0 then Some (2, packet\<lparr>pt_payload := 16\<rparr>)
           else if b1 AND 3 = 1 then Some (2, packet\<lparr>pt_payload := 64\<rparr>)
           else if b1 AND 3 = 2 then Some (2, packet\<lparr>pt_payload := 32\<rparr>)
           else Some (INTEL_PT_BAD_PACKET, packet))
        else if drop_bit 5 b1 = 1 then
          (let packet = packet\<lparr>pt_type := INTEL_PT_MODE_TSX\<rparr> in
           if b1 AND 3 = 3 then Some (INTEL_PT_BAD_PACKET, packet)
           else Some (2, packet\<lparr>pt_payload := ucast (b1 AND 3)\<rparr>))
        else Some (INTEL_PT_BAD_PACKET, packet)
      })"

definition intel_pt_get_tsc :: "u8 list \<Rightarrow> nat \<Rightarrow> intel_pt_pkt \<Rightarrow> pt_result" where
  "intel_pt_get_tsc buf len packet =
     (if len < 8 then Some (INTEL_PT_NEED_MORE_BYTES, packet)
      else do {
        v \<leftarrow> memcpy_le64 (pt_payload packet) buf 1 7;
        Some (8, packet\<lparr>pt_type := INTEL_PT_TSC, pt_payload := v\<rparr>)
      })"

definition intel_pt_get_mtc :: "u8 list \<Rightarrow> nat \<Rightarrow> intel_pt_pkt \<Rightarrow> pt_result" where
  "intel_pt_get_mtc buf len packet =
     (if len < 2 then Some (INTEL_PT_NEED_MORE_BYTES, packet)
      else do {
        b1 \<leftarrow> rd buf 1;
        Some (2, packet\<lparr>pt_type := INTEL_PT_MTC, pt_payload := ucast b1\<rparr>)
      })"

section \<open>The packet decoder\<close>

definition intel_pt_do_get_packet :: "u8 list \<Rightarrow> nat \<Rightarrow> pt_result" where
  "intel_pt_do_get_packet buf len =
     (let packet = \<lparr>pt_type = INTEL_PT_BAD, pt_count = 0, pt_payload = 0\<rparr> in
      if len = 0 then Some (INTEL_PT_NEED_MORE_BYTES, packet)
      else do {
        b0 \<leftarrow> rd buf 0;
        let byte = (ucast b0 :: u32);
        if byte AND 1 = 0 then
          (if byte = 0 then intel_pt_get_pad packet
           else if byte = 2 then intel_pt_get_ext buf len packet
           else intel_pt_get_short_tnt byte packet)
        else if byte AND 2 \<noteq> 0 then intel_pt_get_cyc byte buf len packet
        else if byte AND 0x1f = 0x0d then intel_pt_get_ip INTEL_PT_TIP byte buf len packet
        else if byte AND 0x1f = 0x11 then intel_pt_get_ip INTEL_PT_TIP_PGE byte buf len packet
        else if byte AND 0x1f = 0x01 then intel_pt_get_ip INTEL_PT_TIP_PGD byte buf len packet
        else if byte AND 0x1f = 0x1d then intel_pt_get_ip INTEL_PT_FUP byte buf len packet
        else if byte AND 0x1f = 0x19 then
          (if byte = 0x99 then intel_pt_get_mode buf len packet
           else if byte = 0x19 then intel_pt_get_tsc buf len packet
           else if byte = 0x59 then intel_pt_get_mtc buf len packet
           else Some (INTEL_PT_BAD_PACKET, packet))
        else Some (INTEL_PT_BAD_PACKET, packet)
      })"

definition intel_pt_get_packet :: "u8 list \<Rightarrow> nat \<Rightarrow> pt_result" where
  "intel_pt_get_packet buf len = do {
     (ret, packet) \<leftarrow> intel_pt_do_get_packet buf len;
     if ret > 0 then do {
       n \<leftarrow> absorb_zeros 8 buf len (nat ret);
       Some (int n, packet)
     } else Some (ret, packet)
   }"

section \<open>Well-formed results\<close>

definition wf_pkt :: "intel_pt_pkt \<Rightarrow> bool" where
  "wf_pkt p \<longleftrightarrow> pt_type p \<noteq> INTEL_PT_BAD \<and> 0 \<le> pt_count p \<and> pt_count p < 512 \<and>
     (pt_type p = INTEL_PT_TNT \<longrightarrow> pt_count p \<le> 47)"

definition pt_ok :: "nat \<Rightarrow> pt_result \<Rightarrow> bool" where
  "pt_ok len r \<longleftrightarrow> (\<exists>ret p. r = Some (ret, p) \<and>
     (ret = INTEL_PT_NEED_MORE_BYTES \<and> len < 16 \<or> ret = INTEL_PT_BAD_PACKET \<or>
      0 < ret \<and> ret \<le> int len \<and> ret \<le> 16 \<and> wf_pkt p))"

named_theorems pt_ok_intros

lemma tnt_loop_le: "fst (tnt_loop msk n w) \<le> n"
  by (induction n arbitrary: w) (auto intro: le_SucI)

lemma psb_loop_total: "i + 2 * n \<le> length buf \<Longrightarrow> \<exists>b. psb_loop buf i n = Some b"
  by (induction n arbitrary: i) auto

lemma tma_count_bound: "uint (b5 :: u8) OR push_bit 8 (uint (b6 AND 1 :: u8)) < 512"
proof -
  have a: "uint b5 < 2 ^ 9" using uint_lt2p [of b5] by simp
  have "b6 AND 1 \<le> 1" by (rule word_and_le1)
  then have "uint (b6 AND 1) < 2" by (simp add: word_le_def)
  then have b: "push_bit 8 (uint (b6 AND 1)) < 2 ^ 9" by (simp add: push_bit_eq_mult)
  have "uint b5 OR push_bit 8 (uint (b6 AND 1)) < 2 ^ 9"
    by (rule OR_upper) (use a b in simp_all)
  then show ?thesis by simp
qed

lemma ptwrite_count_bound: "uint (drop_bit 5 (b :: u8) AND 3) \<le> 3"
proof -
  have "drop_bit 5 b AND 3 \<le> 3" by (rule word_and_le1)
  then show ?thesis by (simp add: word_le_def)
qed
lemma ip_count_bound: "uint (drop_bit 5 (ucast (b :: u8) :: u32)) < 8"
proof -
  have "uint (ucast b :: u32) < 256" using uint_lt2p [of b]
    by (simp add: unsigned_ucast_eq take_bit_int_eq_self)
  then show ?thesis
    unfolding unsigned_drop_bit_eq by (simp add: drop_bit_eq_div take_bit_int_eq_self)
qed

lemma cyc_loop_ok:
  assumes "len < length buf" and "shift = 7 * offs - 2" and "0 < offs" and "offs \<le> Suc len" and "offs \<le> 10"
  shows "\<exists>r. cyc_loop buf len byte offs shift payload = Some r \<and>
    (case r of Inl e \<Rightarrow> e = INTEL_PT_BAD_PACKET \<or> e = INTEL_PT_NEED_MORE_BYTES \<and> len < 9
      | Inr (n, _) \<Rightarrow> offs \<le> n \<and> n \<le> Suc len \<and> n \<le> 10)"
  using assms
proof (induction buf len byte offs shift payload rule: cyc_loop.induct)
  case (1 buf len byte offs shift payload)
  show ?case
  proof (cases "byte AND 1 = 0 \<or> offs > 9 \<or> len < offs")
    case True
    with "1.prems" show ?thesis by (subst cyc_loop.simps) auto
  next
    case False
    let ?p = "payload OR push_bit shift (drop_bit 1 (ucast (buf ! offs)))"
    from False "1.prems" have rd: "rd buf offs = Some (buf ! offs)" and sh: "\<not> shift \<ge> 64" by auto
    have "\<exists>r. cyc_loop buf len (ucast (buf ! offs)) (offs + 1) (shift + 7) ?p = Some r \<and>
        (case r of Inl e \<Rightarrow> e = INTEL_PT_BAD_PACKET \<or> e = INTEL_PT_NEED_MORE_BYTES \<and> len < 9
         | Inr (n, _) \<Rightarrow> offs + 1 \<le> n \<and> n \<le> Suc len \<and> n \<le> 10)"
      using False sh "1.prems" by (intro "1.IH" [OF _ _ _ rd]) auto
    then show ?thesis using False rd sh
      by (subst cyc_loop.simps) (auto split: sum.splits)
  qed
qed

lemmas pt_simps = pt_ok_def wf_pkt_def Let_def

lemma intel_pt_get_long_tnt_ok [pt_ok_intros]:
  "len \<le> length buf \<Longrightarrow> pt_count p = 0 \<Longrightarrow> pt_ok len (intel_pt_get_long_tnt buf len p)"
  using tnt_loop_le [of BIT63 47 "le_word (take 8 buf)"]
  by (auto simp: intel_pt_get_long_tnt_def pt_simps split: prod.splits)

lemma intel_pt_get_pip_ok [pt_ok_intros]:
  "len \<le> length buf \<Longrightarrow> pt_count p = 0 \<Longrightarrow> pt_ok len (intel_pt_get_pip buf len p)"
  by (auto simp: intel_pt_get_pip_def pt_simps)

lemma intel_pt_get_cbr_ok [pt_ok_intros]:
  "len \<le> length buf \<Longrightarrow> pt_count p = 0 \<Longrightarrow> pt_ok len (intel_pt_get_cbr buf len p)"
  by (auto simp: intel_pt_get_cbr_def pt_simps)

lemma intel_pt_get_vmcs_ok [pt_ok_intros]:
  "len \<le> length buf \<Longrightarrow> pt_count p = 0 \<Longrightarrow> pt_ok len (intel_pt_get_vmcs buf len p)"
  by (auto simp: intel_pt_get_vmcs_def pt_simps)

lemma intel_pt_get_mnt_ok [pt_ok_intros]:
  "len \<le> length buf \<Longrightarrow> pt_count p = 0 \<Longrightarrow> pt_ok len (intel_pt_get_mnt buf len p)"
  by (auto simp: intel_pt_get_mnt_def pt_simps)

lemma intel_pt_get_mwait_ok [pt_ok_intros]:
  "len \<le> length buf \<Longrightarrow> pt_count p = 0 \<Longrightarrow> pt_ok len (intel_pt_get_mwait buf len p)"
  by (auto simp: intel_pt_get_mwait_def pt_simps)

lemma intel_pt_get_pwre_ok [pt_ok_intros]:
  "len \<le> length buf \<Longrightarrow> pt_count p = 0 \<Longrightarrow> pt_ok len (intel_pt_get_pwre buf len p)"
  by (auto simp: intel_pt_get_pwre_def pt_simps)

lemma intel_pt_get_pwrx_ok [pt_ok_intros]:
  "len \<le> length buf \<Longrightarrow> pt_count p = 0 \<Longrightarrow> pt_ok len (intel_pt_get_pwrx buf len p)"
  by (auto simp: intel_pt_get_pwrx_def pt_simps)

lemma intel_pt_get_tsc_ok [pt_ok_intros]:
  "len \<le> length buf \<Longrightarrow> pt_count p = 0 \<Longrightarrow> pt_ok len (intel_pt_get_tsc buf len p)"
  by (auto simp: intel_pt_get_tsc_def pt_simps)

lemma intel_pt_get_mtc_ok [pt_ok_intros]:
  "len \<le> length buf \<Longrightarrow> pt_count p = 0 \<Longrightarrow> pt_ok len (intel_pt_get_mtc buf len p)"
  by (auto simp: intel_pt_get_mtc_def pt_simps)

lemma intel_pt_get_mode_ok [pt_ok_intros]:
  "len \<le> length buf \<Longrightarrow> pt_count p = 0 \<Longrightarrow> pt_ok len (intel_pt_get_mode buf len p)"
  by (auto simp: intel_pt_get_mode_def pt_simps)

lemma intel_pt_get_3byte_ok [pt_ok_intros]:
  "len \<le> length buf \<Longrightarrow> pt_count p = 0 \<Longrightarrow> pt_ok len (intel_pt_get_3byte buf len p)"
  by (auto simp: intel_pt_get_3byte_def intel_pt_get_mnt_def pt_simps)

lemma intel_pt_get_psb_ok [pt_ok_intros]:
  assumes "len \<le> length buf" and "pt_count p = 0"
  shows "pt_ok len (intel_pt_get_psb buf len p)"
proof (cases "len < 16")
  case False
  with assms obtain b where "psb_loop buf 2 7 = Some b" using psb_loop_total [of 2 7 buf] by auto
  with assms False show ?thesis by (auto simp: intel_pt_get_psb_def pt_simps)
qed (simp add: intel_pt_get_psb_def pt_simps)

lemma intel_pt_get_tma_ok [pt_ok_intros]:
  "len \<le> length buf \<Longrightarrow> pt_count p = 0 \<Longrightarrow> pt_ok len (intel_pt_get_tma buf len p)"
  using tma_count_bound [of "buf ! 5" "buf ! 6"]
  by (auto simp: intel_pt_get_tma_def pt_simps)

lemma intel_pt_get_ptwrite_ok [pt_ok_intros]:
  "len \<le> length buf \<Longrightarrow> 2 \<le> len \<Longrightarrow> pt_ok len (intel_pt_get_ptwrite buf len p)"
  by (auto simp: intel_pt_get_ptwrite_def pt_simps)

lemma intel_pt_get_fixed_ok [pt_ok_intros]:
  assumes "pt_count p = 0"
  shows "1 \<le> len \<Longrightarrow> pt_ok len (intel_pt_get_pad p)"
    and "2 \<le> len \<Longrightarrow> pt_ok len (intel_pt_get_tracestop p)"
    and "2 \<le> len \<Longrightarrow> pt_ok len (intel_pt_get_ovf p)"
    and "2 \<le> len \<Longrightarrow> pt_ok len (intel_pt_get_psbend p)"
    and "2 \<le> len \<Longrightarrow> pt_ok len (intel_pt_get_exstop p)"
    and "2 \<le> len \<Longrightarrow> pt_ok len (intel_pt_get_exstop_ip p)"
  using assms
  by (simp_all add: pt_simps intel_pt_get_pad_def intel_pt_get_tracestop_def intel_pt_get_ovf_def
      intel_pt_get_psbend_def intel_pt_get_exstop_def intel_pt_get_exstop_ip_def)

lemma pt_ok_bad [pt_ok_intros]: "pt_ok len (Some (INTEL_PT_BAD_PACKET, p))"
  by (simp add: pt_simps)

lemma intel_pt_get_ext_ok [pt_ok_intros]:
  assumes "len \<le> length buf" and "pt_count p = 0"
  shows "pt_ok len (intel_pt_get_ext buf len p)"
proof (cases "len < 2")
  case False
  with assms have "rd buf 1 = Some (buf ! 1)" by simp
  with False assms show ?thesis
    unfolding intel_pt_get_ext_def by (simp add: pt_ok_intros)
qed (simp add: intel_pt_get_ext_def pt_simps)

lemma intel_pt_get_short_tnt_ok [pt_ok_intros]:
  "1 \<le> len \<Longrightarrow> pt_ok len (intel_pt_get_short_tnt byte p)"
  using tnt_loop_le [of "0x80" 6 byte]
  by (auto simp: intel_pt_get_short_tnt_def pt_simps split: prod.splits)

lemma intel_pt_get_cyc_ok [pt_ok_intros]:
  assumes "len \<le> length buf" and "len < SIZE_RANGE" and "1 \<le> len" and "pt_count p = 0"
  shows "pt_ok len (intel_pt_get_cyc byte buf len p)"
proof -
  from assms have sub: "size_sub len 1 = len - 1" by simp
  have "len - 1 < length buf" using assms by linarith
  then obtain r where
    r: "cyc_loop buf (len - 1) (drop_bit 2 byte) 1 5 (ucast (drop_bit 3 byte)) = Some r"
       "case r of Inl e \<Rightarrow> e = INTEL_PT_BAD_PACKET \<or> e = INTEL_PT_NEED_MORE_BYTES \<and> len - 1 < 9
        | Inr (n, _) \<Rightarrow> 1 \<le> n \<and> n \<le> Suc (len - 1) \<and> n \<le> 10"
    using cyc_loop_ok [of "len - 1" buf 5 1 "drop_bit 2 byte" "ucast (drop_bit 3 byte)"] assms(3)
    by (auto simp del: One_nat_def)
  then show ?thesis using assms
    by (cases r) (auto simp: intel_pt_get_cyc_def sub pt_simps)
qed

lemma intel_pt_get_ip_ok [pt_ok_intros]:
  assumes "len \<le> length buf" and "1 \<le> len" and "t \<noteq> INTEL_PT_BAD" and "t \<noteq> INTEL_PT_TNT"
  shows "pt_ok len (intel_pt_get_ip t (ucast (b :: u8)) buf len p)"
  using assms ip_count_bound [of b]
  by (auto simp: intel_pt_get_ip_def pt_simps)

lemma intel_pt_do_get_packet_ok:
  assumes "len \<le> length buf" and "len < SIZE_RANGE"
  shows "pt_ok len (intel_pt_do_get_packet buf len)"
proof (cases "len = 0")
  case False
  with assms have "rd buf 0 = Some (buf ! 0)" by (intro rd_in) linarith
  with False assms show ?thesis
    unfolding intel_pt_do_get_packet_def Let_def by (simp add: pt_ok_intros)
qed (simp add: intel_pt_do_get_packet_def pt_simps)

lemma pt_okE:
  assumes "pt_ok len r"
  obtains (more) p where "r = Some (INTEL_PT_NEED_MORE_BYTES, p)" and "len < 16"
    | (bad) p where "r = Some (INTEL_PT_BAD_PACKET, p)"
    | (good) n p where "r = Some (int n, p)" and "0 < n" and "n \<le> len" and "n \<le> 16" and "wf_pkt p"
proof -
  from assms obtain ret p where rp: "r = Some (ret, p)" and
    "ret = INTEL_PT_NEED_MORE_BYTES \<and> len < 16 \<or> ret = INTEL_PT_BAD_PACKET \<or>
     0 < ret \<and> ret \<le> int len \<and> ret \<le> 16 \<and> wf_pkt p"
    unfolding pt_ok_def by blast
  then consider "ret = INTEL_PT_NEED_MORE_BYTES" "len < 16" | "ret = INTEL_PT_BAD_PACKET"
    | "0 < ret" "ret \<le> int len" "ret \<le> 16" "wf_pkt p"
    by blast
  then show ?thesis
  proof cases
    case 3
    then show ?thesis using rp by (intro good [of "nat ret" p]) auto
  qed (use rp more bad in blast)+
qed

lemma intel_pt_get_packet_ok:
  assumes "len \<le> length buf" and "len < SIZE_RANGE"
  shows "pt_ok len (intel_pt_get_packet buf len)"
  using intel_pt_do_get_packet_ok [OF assms]
proof (cases rule: pt_okE)
  case (good n p)
  then obtain m where "absorb_zeros 8 buf len n = Some m" "n \<le> m" "m \<le> len" "m \<le> max n 8"
    using absorb_zeros_spec [OF assms(1) good(3)] by blast
  with good show ?thesis by (auto simp: intel_pt_get_packet_def pt_ok_def)
qed (auto simp: intel_pt_get_packet_def pt_ok_def)

interpretation intel_pt: packet_decoder intel_pt_get_packet
proof unfold_locales
  fix len :: nat and buf :: "u8 list"
  assume "len \<le> length buf" "len < SIZE_RANGE"
  then have ok: "pt_ok len (intel_pt_get_packet buf len)" by (rule intel_pt_get_packet_ok)
  then show "\<exists>ret p. intel_pt_get_packet buf len = Some (ret, p)" by (auto simp: pt_ok_def)
  show "ret \<le> int len" if "intel_pt_get_packet buf len = Some (ret, p)" for ret p
    using ok that by (auto simp: pt_ok_def)
qed

text \<open>
  C3. For a caller that announces at most the bytes it owns, \<open>intel_pt_get_packet\<close> never
  reads outside the buffer and always returns: \<open>INTEL_PT_NEED_MORE_BYTES\<close>, and then fewer
  than 16 bytes were announced; \<open>INTEL_PT_BAD_PACKET\<close>; or the size of a packet of 1 to 16
  bytes that lies in the buffer, with a packet type other than \<open>INTEL_PT_BAD\<close>, a count that
  is not negative and, for TNT packets, at most 47 branches.
\<close>

theorem intel_pt_get_packet_safe:
  assumes "len \<le> length buf" and "len < SIZE_RANGE"
  shows "\<exists>ret p. intel_pt_get_packet buf len = Some (ret, p) \<and>
    (ret = INTEL_PT_NEED_MORE_BYTES \<and> len < 16 \<or> ret = INTEL_PT_BAD_PACKET \<or>
     1 \<le> ret \<and> ret \<le> int len \<and> ret \<le> 16 \<and> wf_pkt p)"
  using intel_pt_get_packet_ok [OF assms] by (fastforce simp: pt_ok_def)

theorem intel_pt_get_packet_safe_witness:
  "\<exists>ret p. intel_pt_get_packet [0x19, 0x01, 0x02] 3 = Some (ret, p) \<and>
    (ret = INTEL_PT_NEED_MORE_BYTES \<or> ret = INTEL_PT_BAD_PACKET \<or> 1 \<le> ret \<and> ret \<le> 3 \<and> wf_pkt p)"
  using intel_pt_get_packet_safe [of 3 "[0x19, 0x01, 0x02]"] by (auto simp: SIZE_RANGE_def)

end
