(* ===== verification/Intel_PT_Roundtrip.thy ===== *)
theory Intel_PT_Roundtrip
  imports Intel_PT_Pkt
begin

text \<open>
  The packet formats as an encoder writes them, and that \<open>intel_pt_get_packet\<close> inverts the
  encoder: taken/not-taken packets (short and long form) and cycle-count packets, whose
  payloads the decoder rebuilds bit by bit.
\<close>

section \<open>Taken/not-taken packets\<close>

text \<open>The top set bit of a word is bit \<open>k\<close>.\<close>

definition top_bit :: "'a::len word \<Rightarrow> nat \<Rightarrow> bool" where
  "top_bit w k \<longleftrightarrow> bit w k \<and> (\<forall>i. k < i \<longrightarrow> \<not> bit w i)"

lemma tnt_loop_top:
  fixes w :: "'a::len word"
  assumes "top_bit w k" and "k \<le> m" and "m < LENGTH('a)" and "m - k < n"
  shows "tnt_loop (push_bit m 1) n w = (n - (m - k), push_bit (m - k) w)"
  using assms
proof (induction n arbitrary: w k)
  case 0
  then show ?case by simp
next
  case (Suc n)
  show ?case
  proof (cases "k = m")
    case True
    with Suc.prems have "w AND push_bit m 1 \<noteq> 0" unfolding and_single_bit by (simp add: top_bit_def)
    with True show ?thesis by simp
  next
    case False
    with Suc.prems have "\<not> bit w m" by (auto simp: top_bit_def)
    then have nb: "w AND push_bit m 1 = 0" using and_single_bit by blast
    have "top_bit (push_bit 1 w) (Suc k)"
      using Suc.prems False unfolding top_bit_def bit_shl1 by auto
    then have "tnt_loop (push_bit m 1) n (push_bit 1 w) =
        (n - (m - Suc k), push_bit (m - Suc k) (push_bit 1 w))"
      using Suc.prems False by (intro Suc.IH) auto
    moreover have "m - Suc k + 1 = m - k" using False Suc.prems by simp
    then have "push_bit (m - Suc k) (push_bit 1 w) = push_bit (m - k) w"
      by (simp only: push_bit_push_bit)
    ultimately show ?thesis using nb False Suc.prems by simp
  qed
qed

text \<open>
  The branch outcomes a TNT packet carries, oldest first, as \<open>intel_pt_pkt_desc\<close> prints them
  and \<open>intel_pt_walk_tnt\<close> consumes them: from bit 63 of the payload down.
\<close>

definition tnt_bits :: "intel_pt_pkt \<Rightarrow> bool list" where
  "tnt_bits p = map (\<lambda>i. bit (pt_payload p) (63 - i)) [0..<nat (pt_count p)]"

text \<open>A stop bit followed by the outcomes, most significant first.\<close>

definition tnt_word :: "bool list \<Rightarrow> u64" where
  "tnt_word bs = foldl (\<lambda>w b. push_bit 1 w OR of_bool b) 1 bs"

lemma tnt_word_snoc: "tnt_word (bs @ [b]) = push_bit 1 (tnt_word bs) OR of_bool b"
  by (simp add: tnt_word_def)

lemma bit_tnt_word:
  assumes "length bs < 64"
  shows "bit (tnt_word bs) i \<longleftrightarrow> i = length bs \<or> i < length bs \<and> bs ! (length bs - 1 - i)"
  using assms
proof (induction bs arbitrary: i rule: rev_induct)
  case Nil
  then show ?case by (auto simp: tnt_word_def bit_simps)
next
  case (snoc b bs)
  then show ?case
    unfolding tnt_word_snoc bit_or_iff bit_shl1
    by (cases i) (auto simp: bit_simps nth_append)
qed

definition encode_long_tnt :: "bool list \<Rightarrow> u8 list" where
  "encode_long_tnt bs = [0x02, 0xa3] @ le_bytes 6 (tnt_word bs)"

lemma top_bit_long_tnt:
  assumes "length bs \<le> 47"
  shows "top_bit (le_word (encode_long_tnt bs)) (16 + length bs)"
    and "j < length bs \<Longrightarrow> bit (le_word (encode_long_tnt bs)) (16 + j) = bs ! (length bs - 1 - j)"
proof -
  have b: "bit (le_word (encode_long_tnt bs)) (16 + j) \<longleftrightarrow> j < 48 \<and> bit (tnt_word bs) j" for j
  proof -
    have "8 * (j div 8) + (16 + j) mod 8 = j" by presburger
    moreover have "(16 + j) div 8 = Suc (Suc (j div 8))" by simp
    ultimately show ?thesis
      unfolding bit_le_word encode_long_tnt_def by (auto simp: nth_le_bytes bit_simps)
  qed
  have len: "length bs < 64" using assms by simp
  show "j < length bs \<Longrightarrow> bit (le_word (encode_long_tnt bs)) (16 + j) = bs ! (length bs - 1 - j)"
    using assms by (auto simp: b bit_tnt_word [OF len])
  have "\<not> bit (le_word (encode_long_tnt bs)) i" if "16 + length bs < i" for i
    using that b [of "i - 16"] by (auto simp: bit_tnt_word [OF len])
  moreover have "bit (le_word (encode_long_tnt bs)) (16 + length bs)"
    using assms by (auto simp: b bit_tnt_word [OF len])
  ultimately show "top_bit (le_word (encode_long_tnt bs)) (16 + length bs)"
    by (auto simp: top_bit_def)
qed

lemma encode_long_tnt_bytes:
  "length (encode_long_tnt bs) = 8" "encode_long_tnt bs ! 0 = 0x02" "encode_long_tnt bs ! Suc 0 = 0xa3"
  by (simp_all add: encode_long_tnt_def)

lemma long_tnt_roundtrip:
  assumes "1 \<le> length bs" and "length bs \<le> 47"
  shows "\<exists>p. intel_pt_get_packet (encode_long_tnt bs) 8 = Some (8, p) \<and>
    pt_type p = INTEL_PT_TNT \<and> tnt_bits p = bs"
proof -
  let ?w = "le_word (encode_long_tnt bs)"
  let ?p = "\<lparr>pt_type = INTEL_PT_TNT, pt_count = int (length bs), pt_payload = push_bit 1 (push_bit (47 - length bs) ?w)\<rparr>"
  have loop: "tnt_loop BIT63 47 ?w = (length bs, push_bit (47 - length bs) ?w)"
    using tnt_loop_top [OF top_bit_long_tnt(1) [OF assms(2)], of 63 47] assms
    by (simp add: BIT63_def)
  have "intel_pt_do_get_packet (encode_long_tnt bs) 8 = Some (8, ?p)"
    using loop encode_long_tnt_bytes [of bs]
    by (simp add: intel_pt_do_get_packet_def intel_pt_get_ext_def intel_pt_get_long_tnt_def
        push_bit_double)
  then have "intel_pt_get_packet (encode_long_tnt bs) 8 = Some (8, ?p)"
    by (simp add: intel_pt_get_packet_def absorb_zeros.simps)
  moreover have "bit (push_bit 1 (push_bit (47 - length bs) ?w)) (63 - i) = bs ! i" if "i < length bs" for i
  proof -
    have "63 - i - 1 - (47 - length bs) = 16 + (length bs - 1 - i)" using that assms by simp
    then show ?thesis
      using that assms top_bit_long_tnt(2) [OF assms(2), of "length bs - 1 - i"]
      unfolding bit_shl1 bit_push_bit_iff possible_bit_def by auto
  qed
  then have "tnt_bits ?p = bs" unfolding tnt_bits_def by (intro nth_eq_mapI) auto
  ultimately show ?thesis by auto
qed

definition encode_short_tnt :: "bool list \<Rightarrow> u8" where
  "encode_short_tnt bs = ucast (push_bit 1 (tnt_word bs))"

lemma bit_short_tnt:
  assumes "length bs \<le> 6"
  shows "bit (encode_short_tnt bs) i \<longleftrightarrow> 0 < i \<and> i < 8 \<and> bit (tnt_word bs) (i - 1)"
proof -
  have "bit (encode_short_tnt bs) i \<longleftrightarrow> i < 8 \<and> bit (push_bit 1 (tnt_word bs)) i"
    unfolding encode_short_tnt_def by (simp add: bit_unsigned_iff)
  then show ?thesis unfolding bit_shl1 by auto
qed

lemma short_tnt_roundtrip:
  assumes "1 \<le> length bs" and "length bs \<le> 6"
  shows "\<exists>p. intel_pt_get_packet [encode_short_tnt bs] 1 = Some (1, p) \<and>
    pt_type p = INTEL_PT_TNT \<and> tnt_bits p = bs"
proof -
  let ?b = "encode_short_tnt bs" and ?n = "length bs"
  let ?w = "push_bit (6 - ?n) (ucast ?b :: u32)"
  let ?p = "\<lparr>pt_type = INTEL_PT_TNT, pt_count = int ?n, pt_payload = push_bit 57 (ucast ?w)\<rparr>"
  have len: "length bs < 64" using assms by simp
  have b: "bit (ucast ?b :: u32) i \<longleftrightarrow> bit ?b i" for i
    using bit_short_tnt [OF assms(2), of i] by (auto simp: bit_unsigned_iff)
  have bit_b: "bit ?b i \<longleftrightarrow> 0 < i \<and> i < 8 \<and> bit (tnt_word bs) (i - 1)" for i
    by (rule bit_short_tnt [OF assms(2)])
  have "top_bit (ucast ?b :: u32) (Suc ?n)"
    using assms unfolding top_bit_def b bit_b bit_tnt_word [OF len] by auto
  then have "tnt_loop (push_bit 7 1) 6 (ucast ?b :: u32) = (6 - (7 - Suc ?n), push_bit (7 - Suc ?n) (ucast ?b))"
    using assms by (intro tnt_loop_top) auto
  then have loop: "tnt_loop 0x80 6 (ucast ?b :: u32) = (?n, ?w)" using assms by simp
  have stop: "bit (ucast ?b :: u32) (Suc ?n)" and "\<not> bit (ucast ?b :: u32) 0"
    using assms unfolding b bit_b bit_tnt_word [OF len] by auto
  then have even: "ucast ?b AND (1 :: u32) = 0" by (simp add: bit_0 and_one_eq even_iff_mod_2_eq_zero)
  have "\<not> bit (2 :: u32) (Suc ?n)" "\<not> bit (0 :: u32) (Suc ?n)"
    using bit_single [of 1 "Suc ?n", where 'a = 32] assms by auto
  with stop have "ucast ?b \<noteq> (0 :: u32)" "ucast ?b \<noteq> (2 :: u32)" by metis+
  with even loop have "intel_pt_do_get_packet [?b] 1 = Some (1, ?p)"
    by (simp add: intel_pt_do_get_packet_def intel_pt_get_short_tnt_def)
  then have "intel_pt_get_packet [?b] 1 = Some (1, ?p)"
    by (simp add: intel_pt_get_packet_def absorb_zeros.simps)
  moreover have "bit (push_bit 57 (ucast ?w) :: u64) (63 - i) = bs ! i" if "i < ?n" for i
  proof -
    have "63 - i - 57 - (6 - ?n) = ?n - i" using that assms by simp
    then show ?thesis using that assms
      unfolding bit_push_bit_iff possible_bit_def bit_unsigned_iff b bit_b bit_tnt_word [OF len] by auto
  qed
  then have "tnt_bits ?p = bs" unfolding tnt_bits_def by (intro nth_eq_mapI) auto
  ultimately show ?thesis by auto
qed

section \<open>Cycle count packets\<close>

text \<open>
  Five payload bits in the first byte, seven in each further byte; the flag says that
  another byte follows.
\<close>

definition cyc_byte :: "u64 \<Rightarrow> u8" where
  "cyc_byte r = push_bit 1 (ucast (take_bit 7 r)) OR of_bool (drop_bit 7 r \<noteq> 0)"

primrec cyc_ext :: "nat \<Rightarrow> u64 \<Rightarrow> u8 list" where
  "cyc_ext 0 r = []"
| "cyc_ext (Suc n) r = (if r = 0 then [] else cyc_byte r # cyc_ext n (drop_bit 7 r))"

definition encode_cyc :: "u64 \<Rightarrow> u8 list" where
  "encode_cyc v =
     (mask 2 OR push_bit 2 (of_bool (drop_bit 5 v \<noteq> 0)) OR push_bit 3 (ucast (take_bit 5 v))) # cyc_ext 9 (drop_bit 5 v)"

lemma bit_cyc_byte: "bit (cyc_byte r) i \<longleftrightarrow> i = 0 \<and> drop_bit 7 r \<noteq> 0 \<or> 0 < i \<and> i < 8 \<and> bit r (i - 1)"
  unfolding cyc_byte_def bit_or_iff bit_shl1 by (auto simp: bit_simps)

lemma cyc_byte_flag: "(ucast (cyc_byte r) :: u32) AND 1 = 0 \<longleftrightarrow> drop_bit 7 r = 0"
proof -
  have "bit (ucast (cyc_byte r) :: u32) 0 \<longleftrightarrow> bit (cyc_byte r) 0" by (simp only: bit_unsigned_iff) simp
  then show ?thesis unfolding and_one_zero by (simp only: bit_cyc_byte) simp
qed

lemma cyc_byte_payload: "drop_bit 1 (ucast (cyc_byte r) :: u64) = take_bit 7 r"
  by (rule bit_word_eqI) (auto simp: bit_drop_bit_eq bit_unsigned_iff bit_cyc_byte bit_take_bit_iff)

lemma take_bit_step: "take_bit s v OR push_bit s (take_bit 7 (drop_bit s v)) = take_bit (s + 7) v" for v :: u64
  by (rule bit_word_eqI) (auto simp: bit_simps)

lemma take_bit_of_drop_bit_0: "drop_bit s v = 0 \<Longrightarrow> take_bit s v = v" for v :: u64
  by (metis bits_ident or.right_neutral push_bit_of_0 add_0)

lemma cyc_loop_ext:
  assumes "n + length pre = 10" and "pre \<noteq> []" and "byte AND 1 = 0 \<longleftrightarrow> drop_bit (7 * length pre - 2) v = 0"
    and "length pre + length (cyc_ext n (drop_bit (7 * length pre - 2) v)) \<le> Suc len"
  shows "cyc_loop (pre @ cyc_ext n (drop_bit (7 * length pre - 2) v) @ post) len byte (length pre) (7 * length pre - 2)
      (take_bit (7 * length pre - 2) v) =
    Some (Inr (length pre + length (cyc_ext n (drop_bit (7 * length pre - 2) v)), v))"
  using assms
proof (induction n arbitrary: pre byte)
  case 0
  then show ?case by (subst cyc_loop.simps) (simp add: take_bit_of_drop_bit_0)
next
  case (Suc n)
  let ?s = "7 * length pre - 2"
  let ?r = "drop_bit ?s v"
  show ?case
  proof (cases "?r = 0")
    case True
    with Suc.prems show ?thesis by (subst cyc_loop.simps) (simp add: take_bit_of_drop_bit_0)
  next
    case False
    let ?pre = "pre @ [cyc_byte ?r]"
    from Suc.prems have s: "7 * length ?pre - 2 = ?s + 7" "?s < 64" by (cases pre; simp)+
    have r: "drop_bit (?s + 7) v = drop_bit 7 ?r" by (simp add: drop_bit_drop_bit add.commute)
    have "cyc_loop (?pre @ cyc_ext n (drop_bit 7 ?r) @ post) len (ucast (cyc_byte ?r)) (length ?pre) (?s + 7)
        (take_bit (?s + 7) v) = Some (Inr (length ?pre + length (cyc_ext n (drop_bit 7 ?r)), v))"
      using Suc.IH [of ?pre "ucast (cyc_byte ?r)"] Suc.prems False
      by (simp only: s r cyc_byte_flag) simp
    moreover have "take_bit ?s v OR push_bit ?s (drop_bit 1 (ucast (cyc_byte ?r))) = take_bit (?s + 7) v"
      by (simp only: cyc_byte_payload take_bit_step)
    ultimately show ?thesis using False Suc.prems s
      by (subst cyc_loop.simps) (simp add: nth_append)
  qed
qed

lemma length_cyc_ext: "length (cyc_ext n r) \<le> n"
  by (induction n arbitrary: r) auto

lemma bit_encode_cyc_0:
  "bit (encode_cyc v ! 0) i \<longleftrightarrow> i < 2 \<or> i = 2 \<and> drop_bit 5 v \<noteq> 0 \<or> 3 \<le> i \<and> i < 8 \<and> bit v (i - 3)"
  unfolding encode_cyc_def nth_Cons_0 bit_or_iff bit_mask_iff bit_push_bit_iff possible_bit_def bit_unsigned_iff
    bit_take_bit_iff by (auto simp: bit_simps)

lemma cyc_roundtrip_get:
  "intel_pt_get_packet (encode_cyc v) (length (encode_cyc v)) =
     Some (int (length (encode_cyc v)), \<lparr>pt_type = INTEL_PT_CYC, pt_count = 0, pt_payload = v\<rparr>)"
proof -
  let ?e = "encode_cyc v" and ?byte = "ucast (encode_cyc v ! 0) :: u32"
  let ?ext = "cyc_ext 9 (drop_bit 5 v)"
  have len: "length ?e = Suc (length ?ext)" "length ?e < SIZE_RANGE" "0 < length ?e"
    using length_cyc_ext [of 9 "drop_bit 5 v"] by (auto simp: encode_cyc_def SIZE_RANGE_def)
  have byte: "bit ?byte i \<longleftrightarrow> bit (encode_cyc v ! 0) i" for i
    by (simp only: bit_unsigned_iff) (use bit_imp_le_length [of "encode_cyc v ! 0" i] in auto)
  have op: "?byte AND 1 \<noteq> 0" "?byte AND 2 \<noteq> 0"
    unfolding and_one_zero and_two_zero byte bit_encode_cyc_0 by auto
  have flag: "drop_bit 2 ?byte AND 1 = 0 \<longleftrightarrow> drop_bit 5 v = 0"
    unfolding and_one_zero bit_drop_bit_eq comp_def byte bit_encode_cyc_0 by auto
  have low: "ucast (drop_bit 3 ?byte) = take_bit 5 v"
    by (rule bit_word_eqI) (auto simp: bit_unsigned_iff bit_drop_bit_eq byte bit_encode_cyc_0 bit_take_bit_iff)
  have "cyc_loop ?e (length ?e - 1) (drop_bit 2 ?byte) 1 5 (ucast (drop_bit 3 ?byte)) = Some (Inr (length ?e, v))"
    using cyc_loop_ext [of 9 "[encode_cyc v ! 0]" "drop_bit 2 ?byte" v "length ?e - 1" "[]"] flag len
    unfolding low by (simp add: encode_cyc_def)
  then have "intel_pt_do_get_packet ?e (length ?e) =
      Some (int (length ?e), \<lparr>pt_type = INTEL_PT_CYC, pt_count = 0, pt_payload = v\<rparr>)"
    using op len by (simp add: intel_pt_do_get_packet_def intel_pt_get_cyc_def)
  then show ?thesis using len(3) by (simp add: intel_pt_get_packet_def absorb_zeros.simps)
qed

section \<open>Round trips\<close>

text \<open>
  C5. The branch outcomes of a TNT packet are decoded as they were encoded: one to six of
  them from the short form, one to forty-seven from the long form, each time in a packet of
  exactly the encoded size.
\<close>

theorem tnt_roundtrip:
  assumes "1 \<le> length bs"
  shows "(length bs \<le> 6 \<longrightarrow> (\<exists>p. intel_pt_get_packet [encode_short_tnt bs] 1 = Some (1, p) \<and>
      pt_type p = INTEL_PT_TNT \<and> tnt_bits p = bs)) \<and>
    (length bs \<le> 47 \<longrightarrow> (\<exists>p. intel_pt_get_packet (encode_long_tnt bs) 8 = Some (8, p) \<and>
      pt_type p = INTEL_PT_TNT \<and> tnt_bits p = bs))"
  using long_tnt_roundtrip short_tnt_roundtrip assms by blast

theorem tnt_roundtrip_witness:
  "(\<exists>p. intel_pt_get_packet [encode_short_tnt [True, False, True]] 1 = Some (1, p) \<and>
      tnt_bits p = [True, False, True]) \<and>
   (\<exists>p. intel_pt_get_packet (encode_long_tnt [True, False, True]) 8 = Some (8, p) \<and>
      tnt_bits p = [True, False, True])"
  using tnt_roundtrip [of "[True, False, True]"] by auto

text \<open>
  C6. Every 64-bit cycle count survives the variable-length encoding of CYC packets, which
  takes up to ten bytes of seven payload bits each.
\<close>

theorem cyc_roundtrip:
  "intel_pt_get_packet (encode_cyc v) (length (encode_cyc v)) =
     Some (int (length (encode_cyc v)), \<lparr>pt_type = INTEL_PT_CYC, pt_count = 0, pt_payload = v\<rparr>)"
  by (rule cyc_roundtrip_get)

end
