(* ===== verification/Intel_PT_Desc.thy ===== *)
theory Intel_PT_Desc
  imports Intel_PT_Roundtrip
begin

text \<open>
  The printer \<open>intel_pt_pkt_desc\<close> of \<open>util/intel-pt-decoder/intel-pt-pkt-decoder.c\<close>, and that
  the description of every packet the decoder returns fits the buffer of
  \<open>INTEL_PT_PKT_DESC_MAX\<close> (256) bytes its callers provide.
\<close>

section \<open>Printing packets\<close>

text \<open>The text of the \<open>printf\<close> formats, for every packet type but TNT.\<close>

definition intel_pt_desc_text :: "intel_pt_pkt \<Rightarrow> string" where
  "intel_pt_desc_text p =
     (let payload = pt_payload p; name = intel_pt_pkt_name (pt_type p);
          hex = '' 0x'' @ fmt_x (unat payload);
          uns = (\<lambda>w. unat (ucast (w :: u64) :: u32)) in
      case pt_type p of
        INTEL_PT_BAD \<Rightarrow> name | INTEL_PT_PAD \<Rightarrow> name | INTEL_PT_PSB \<Rightarrow> name
      | INTEL_PT_PSBEND \<Rightarrow> name | INTEL_PT_TRACESTOP \<Rightarrow> name | INTEL_PT_OVF \<Rightarrow> name
      | INTEL_PT_TIP_PGD \<Rightarrow> if pt_count p = 0 then name @ '' no ip'' else name @ hex
      | INTEL_PT_TIP_PGE \<Rightarrow> if pt_count p = 0 then name @ '' no ip'' else name @ hex
      | INTEL_PT_TIP \<Rightarrow> if pt_count p = 0 then name @ '' no ip'' else name @ hex
      | INTEL_PT_FUP \<Rightarrow> if pt_count p = 0 then name @ '' no ip'' else name @ hex
      | INTEL_PT_CYC \<Rightarrow> name @ hex | INTEL_PT_VMCS \<Rightarrow> name @ hex | INTEL_PT_MTC \<Rightarrow> name @ hex
      | INTEL_PT_MNT \<Rightarrow> name @ hex | INTEL_PT_CBR \<Rightarrow> name @ hex | INTEL_PT_TSC \<Rightarrow> name @ hex
      | INTEL_PT_TMA \<Rightarrow> name @ '' CTC 0x'' @ fmt_x (uns payload) @ '' FC 0x'' @
          fmt_x (unat (word_of_int (pt_count p) :: u32))
      | INTEL_PT_MODE_EXEC \<Rightarrow> name @ '' '' @ fmt_d (sint payload)
      | INTEL_PT_MODE_TSX \<Rightarrow> name @ '' TXAbort:'' @ fmt_u (uns (drop_bit 1 payload AND 1)) @
          '' InTX:'' @ fmt_u (uns (payload AND 1))
      | INTEL_PT_PIP \<Rightarrow> name @ '' 0x'' @ fmt_x (unat (payload AND NOT NR_FLAG)) @ '' (NR='' @
          fmt_d (if payload AND NR_FLAG \<noteq> 0 then 1 else 0) @ '')''
      | INTEL_PT_PTWRITE \<Rightarrow> name @ hex @ '' IP:0'' | INTEL_PT_PTWRITE_IP \<Rightarrow> name @ hex @ '' IP:1''
      | INTEL_PT_EXSTOP \<Rightarrow> name @ '' IP:0'' | INTEL_PT_EXSTOP_IP \<Rightarrow> name @ '' IP:1''
      | INTEL_PT_MWAIT \<Rightarrow> name @ hex @ '' Hints 0x'' @ fmt_x (uns (payload AND 0xff)) @
          '' Extensions 0x'' @ fmt_x (uns (drop_bit 32 payload AND 3))
      | INTEL_PT_PWRE \<Rightarrow> name @ hex @ '' HW:'' @ fmt_u (if payload AND 0x80 \<noteq> 0 then 1 else 0) @
          '' CState:'' @ fmt_u (uns (drop_bit 12 payload AND 0xf)) @
          '' Sub-CState:'' @ fmt_u (uns (drop_bit 8 payload AND 0xf))
      | INTEL_PT_PWRX \<Rightarrow> name @ hex @ '' Last CState:'' @ fmt_u (uns (drop_bit 4 payload AND 0xf)) @
          '' Deepest CState:'' @ fmt_u (uns (payload AND 0xf)) @
          '' Wake Reason 0x'' @ fmt_x (uns (drop_bit 8 payload AND 0xf))
      | INTEL_PT_TNT \<Rightarrow> name @ hex @ '' ('' @ fmt_d (pt_count p) @ '')'')"

text \<open>The loop that prints one letter per branch; \<open>buf\<close> and \<open>blen\<close> move with every letter.\<close>

primrec tnt_desc_loop :: "nat \<Rightarrow> u64 \<Rightarrow> char list \<Rightarrow> nat \<Rightarrow> nat \<Rightarrow> (char list \<times> nat \<times> nat) option" where
  "tnt_desc_loop 0 payload mem pos blen = Some (mem, pos, blen)"
| "tnt_desc_loop (Suc n) payload mem pos blen = do {
     (ret, mem) \<leftarrow> snprintf mem pos blen (if payload AND BIT63 \<noteq> 0 then ''T'' else ''N'');
     tnt_desc_loop n (push_bit 1 payload) mem (pos + nat ret) (size_sub blen (nat ret))
   }"

definition intel_pt_pkt_desc :: "intel_pt_pkt \<Rightarrow> char list \<Rightarrow> nat \<Rightarrow> (int \<times> char list) option" where
  "intel_pt_pkt_desc p mem buf_len =
     (if pt_type p = INTEL_PT_TNT then do {
        (ret, mem) \<leftarrow> snprintf mem 0 buf_len (intel_pt_pkt_name (pt_type p) @ '' '');
        (mem, pos, blen) \<leftarrow>
          tnt_desc_loop (nat (pt_count p)) (pt_payload p) mem (nat ret) (size_sub buf_len (nat ret));
        (ret, mem) \<leftarrow> snprintf mem pos blen ('' ('' @ fmt_d (pt_count p) @ '')'');
        let blen = size_sub blen (nat ret);
        Some (int (size_sub buf_len blen), mem)
      } else snprintf mem 0 buf_len (intel_pt_desc_text p))"

definition tnt_letter :: "bool \<Rightarrow> char" where
  "tnt_letter b = (if b then CHR ''T'' else CHR ''N'')"

lemma top_bits_Suc:
  "n \<le> 63 \<Longrightarrow> map (\<lambda>i. bit p (63 - i)) [0..<Suc n] = bit p 63 # map (\<lambda>i. bit (push_bit 1 p) (63 - i)) [0..<n]"
  for p :: u64
proof -
  assume "n \<le> 63"
  have "map (\<lambda>i. bit p (63 - i)) [0..<Suc n] = bit p 63 # map (\<lambda>i. bit p (63 - Suc i)) [0..<n]"
    by (simp add: upt_conv_Cons map_Suc_upt [symmetric] comp_def del: upt_Suc)
  moreover have "bit (push_bit 1 p) (63 - i) = bit p (63 - Suc i)" if "i < n" for i
    using that \<open>n \<le> 63\<close> unfolding bit_shl1 by auto
  ultimately show ?thesis by simp
qed

lemma tnt_desc_loop_text:
  assumes "n < length rest" and "n < blen" and "blen < SIZE_RANGE" and "n \<le> 64"
  shows "\<exists>rest'. length rest' = length rest - n \<and>
    tnt_desc_loop n payload (pre @ rest) (length pre) blen =
      Some (pre @ map (\<lambda>i. tnt_letter (bit payload (63 - i))) [0..<n] @ rest', length pre + n, blen - n)"
  using assms
proof (induction n arbitrary: payload pre rest blen)
  case 0
  then show ?case by simp
next
  case (Suc n)
  let ?c = "tnt_letter (bit payload 63)" and ?r = "CHR 0x00 # drop 2 rest"
  have s: "snprintf (pre @ rest) (length pre) blen (if payload AND BIT63 \<noteq> 0 then ''T'' else ''N'') =
      Some (1, pre @ [?c] @ ?r)"
    using snprintf_at [of "[?c]" rest blen pre] Suc.prems and_single_bit [of payload 63]
    by (auto simp: tnt_letter_def BIT63_def numeral_2_eq_2)
  have "\<exists>rest'. length rest' = length ?r - n \<and>
      tnt_desc_loop n (push_bit 1 payload) ((pre @ [?c]) @ ?r) (length (pre @ [?c])) (blen - 1) =
        Some ((pre @ [?c]) @ map (\<lambda>i. tnt_letter (bit (push_bit 1 payload) (63 - i))) [0..<n] @ rest',
          length (pre @ [?c]) + n, blen - 1 - n)"
    using Suc.prems by (intro Suc.IH) auto
  then obtain rest' where ih: "length rest' = length ?r - n"
      "tnt_desc_loop n (push_bit 1 payload) ((pre @ [?c]) @ ?r) (length (pre @ [?c])) (blen - 1) =
        Some ((pre @ [?c]) @ map (\<lambda>i. tnt_letter (bit (push_bit 1 payload) (63 - i))) [0..<n] @ rest',
          length (pre @ [?c]) + n, blen - 1 - n)"
    by blast
  have letters: "map (\<lambda>i. tnt_letter (bit payload (63 - i))) [0..<Suc n] =
      ?c # map (\<lambda>i. tnt_letter (bit (push_bit 1 payload) (63 - i))) [0..<n]"
    using arg_cong [OF top_bits_Suc [of n payload], of "map tnt_letter"] Suc.prems by (simp add: comp_def)
  from s ih Suc.prems show ?case unfolding letters
    by (intro exI [of _ rest']) simp
qed

lemma length_name: "length (intel_pt_pkt_name t) \<le> 11" and name_no_nul: "CHR 0x00 \<notin> set (intel_pt_pkt_name t)"
  by (cases t; simp add: intel_pt_pkt_name_def)+

lemmas text_length_intros = append_length_le length_name fmt_bool_length fmt_sint_length
  fmt_x_word [where 'a = 64, simplified] fmt_x_word [where 'a = 32, simplified]
  fmt_u_word [where 'a = 32, simplified]

lemma desc_text_length:
  assumes "pt_type p \<noteq> INTEL_PT_TNT"
  shows "length (intel_pt_desc_text p) \<le> 150"
proof -
  have le: "length xs \<le> n \<Longrightarrow> n \<le> 150 \<Longrightarrow> length xs \<le> 150" for xs :: string and n by simp
  show ?thesis unfolding intel_pt_desc_text_def Let_def using assms
    by (cases "pt_type p")
      (simp_all only: intel_pt_pkt_type.case simp_thms split: if_split,
       ((intro impI conjI)?; rule le, (rule text_length_intros | rule order_refl)+, simp)+)
qed

lemma desc_text_no_nul: "CHR 0x00 \<notin> set (intel_pt_desc_text p)"
  unfolding intel_pt_desc_text_def Let_def
  by (cases "pt_type p") (auto simp: name_no_nul)

text \<open>The text that describes a packet, whatever its type.\<close>

definition intel_pt_full_text :: "intel_pt_pkt \<Rightarrow> string" where
  "intel_pt_full_text p =
     (if pt_type p = INTEL_PT_TNT
      then ''TNT '' @ map tnt_letter (tnt_bits p) @ '' ('' @ fmt_d (pt_count p) @ '')''
      else intel_pt_desc_text p)"

lemma intel_pt_pkt_desc_fits:
  assumes "wf_pkt p" and "length mem = 256"
  shows "\<exists>mem'. intel_pt_pkt_desc p mem 256 = Some (int (length (intel_pt_full_text p)), mem') \<and>
    c_str mem' 0 = intel_pt_full_text p \<and> length mem' = 256 \<and> length (intel_pt_full_text p) < 256"
proof (cases "pt_type p = INTEL_PT_TNT")
  case False
  then have l: "length (intel_pt_desc_text p) < 256" using desc_text_length [of p] by simp
  have "snprintf mem 0 256 (intel_pt_desc_text p) =
      Some (int (length (intel_pt_desc_text p)),
        intel_pt_desc_text p @ CHR 0x00 # drop (Suc (length (intel_pt_desc_text p))) mem)"
    using snprintf_at [of "intel_pt_desc_text p" mem 256 "[]"] l assms by simp
  with False l assms desc_text_no_nul [of p] show ?thesis
    by (simp add: intel_pt_pkt_desc_def intel_pt_full_text_def c_str_append)
next
  case True
  let ?n = "nat (pt_count p)"
  have n: "?n \<le> 47" "0 \<le> pt_count p" using assms True by (auto simp: wf_pkt_def)
  define pre where "pre = ''TNT ''"
  have pre: "length pre = 4" "CHR 0x00 \<notin> set pre" by (auto simp: pre_def)
  define tail where "tail = '' ('' @ fmt_d (pt_count p) @ '')''"
  let ?letters = "map (\<lambda>i. tnt_letter (bit (pt_payload p) (63 - i))) [0..<?n]"
  have tail: "length tail \<le> 24" "CHR 0x00 \<notin> set tail"
    using fmt_d_length [of "pt_count p"] assms(1) by (auto simp: wf_pkt_def tail_def)
  have s1: "snprintf mem 0 256 pre = Some (4, pre @ CHR 0x00 # drop 5 mem)"
    using snprintf_at [of pre mem 256 "[]"] assms pre by simp
  obtain rest' where r: "length rest' = 252 - ?n"
      "tnt_desc_loop ?n (pt_payload p) (pre @ CHR 0x00 # drop 5 mem) 4 252 =
        Some (pre @ ?letters @ rest', 4 + ?n, 252 - ?n)"
    using tnt_desc_loop_text [of ?n "CHR 0x00 # drop 5 mem" 252 "pt_payload p" pre] n assms pre
    by (auto simp: SIZE_RANGE_def)
  have s2: "snprintf (pre @ ?letters @ rest') (4 + ?n) (252 - ?n) tail =
      Some (int (length tail), (pre @ ?letters) @ tail @ CHR 0x00 # drop (Suc (length tail)) rest')"
    using snprintf_at [of tail rest' "252 - ?n" "pre @ ?letters"] tail n r(1) pre by simp
  have sub: "size_sub 256 4 = 252" "size_sub (252 - ?n) (length tail) = 252 - ?n - length tail"
     "size_sub 256 (252 - ?n - length tail) = 4 + ?n + length tail"
    using tail n by (simp_all add: SIZE_RANGE_def)
  have full: "intel_pt_full_text p = (pre @ ?letters) @ tail"
    using True by (simp add: intel_pt_full_text_def tnt_bits_def comp_def pre_def tail_def)
  have "CHR 0x00 \<notin> set ((pre @ ?letters) @ tail)" using pre tail by (auto simp: tnt_letter_def)
  then have c: "c_str ((pre @ ?letters) @ tail @ CHR 0x00 # drop (Suc (length tail)) rest') 0 = intel_pt_full_text p"
    unfolding full using c_str_append [of "(pre @ ?letters) @ tail"] by simp
  have "intel_pt_pkt_desc p mem 256 = Some (int (4 + ?n + length tail),
      (pre @ ?letters) @ tail @ CHR 0x00 # drop (Suc (length tail)) rest')"
    using s1 r(2) s2 sub True n(2) unfolding intel_pt_pkt_desc_def tail_def [symmetric]
    by (simp add: intel_pt_pkt_name_def pre_def [symmetric] Let_def del: append_assoc)
  with c tail n pre r(1) show ?thesis by (simp add: full)
qed

section \<open>The dump of a trace buffer\<close>

definition INTEL_PT_PKT_DESC_MAX :: nat where
  "INTEL_PT_PKT_DESC_MAX = 256"

text \<open>\<open>intel_pt_dump\<close>; \<open>desc\<close> is the initial contents of its local array.\<close>

definition intel_pt_dump :: "char list \<Rightarrow> u8 list \<Rightarrow> nat \<Rightarrow> dump_line list option" where
  "intel_pt_dump desc buf len =
     dump_loop intel_pt_get_packet intel_pt_pkt_desc INTEL_PT_PKT_DESC_MAX desc buf 0 len"

lemma intel_pt_full_text_not_empty: "intel_pt_full_text p \<noteq> []"
  by (cases "pt_type p")
    (auto simp: intel_pt_full_text_def intel_pt_desc_text_def Let_def intel_pt_pkt_name_def)

interpretation intel_pt_text: packet_printer intel_pt_get_packet intel_pt_pkt_desc
  INTEL_PT_PKT_DESC_MAX intel_pt_full_text
proof unfold_locales
  fix len :: nat and buf :: "u8 list" and ret p and desc :: "char list"
  assume "len \<le> length buf" "len < SIZE_RANGE" "intel_pt_get_packet buf len = Some (ret, p)" "0 < ret"
    and d: "length desc = INTEL_PT_PKT_DESC_MAX"
  then have "wf_pkt p" using intel_pt_get_packet_ok [of len buf] by (auto simp: pt_ok_def)
  then show "\<exists>desc'. intel_pt_pkt_desc p desc INTEL_PT_PKT_DESC_MAX =
      Some (int (length (intel_pt_full_text p)), desc') \<and>
      length desc' = INTEL_PT_PKT_DESC_MAX \<and> c_str desc' 0 = intel_pt_full_text p"
    using intel_pt_pkt_desc_fits [of p desc] d unfolding INTEL_PT_PKT_DESC_MAX_def by auto
qed (rule intel_pt_full_text_not_empty)

text \<open>
  C8. Every packet that \<open>intel_pt_get_packet\<close> returns has a description shorter than
  \<open>INTEL_PT_PKT_DESC_MAX\<close>: \<open>intel_pt_pkt_desc\<close> never writes outside a buffer of that size,
  returns the length of the text and leaves the whole text, terminated, in the buffer.
\<close>

theorem intel_pt_pkt_desc_complete:
  assumes "len \<le> length buf" and "len < SIZE_RANGE"
    and "intel_pt_get_packet buf len = Some (ret, p)" and "0 < ret"
    and "length desc = INTEL_PT_PKT_DESC_MAX"
  shows "\<exists>desc'. intel_pt_pkt_desc p desc INTEL_PT_PKT_DESC_MAX =
      Some (int (length (intel_pt_full_text p)), desc') \<and>
    c_str desc' 0 = intel_pt_full_text p \<and> length (intel_pt_full_text p) < INTEL_PT_PKT_DESC_MAX"
proof -
  have "wf_pkt p" using assms intel_pt_get_packet_ok [of len buf] by (auto simp: pt_ok_def)
  then show ?thesis
    using intel_pt_pkt_desc_fits [of p desc] assms(5) unfolding INTEL_PT_PKT_DESC_MAX_def by auto
qed

theorem intel_pt_pkt_desc_complete_witness:
  "\<exists>desc'. intel_pt_pkt_desc \<lparr>pt_type = INTEL_PT_PAD, pt_count = 0, pt_payload = 0\<rparr>
      (replicate INTEL_PT_PKT_DESC_MAX CHR ''x'') INTEL_PT_PKT_DESC_MAX = Some (3, desc') \<and>
    c_str desc' 0 = ''PAD''"
proof -
  have "intel_pt_get_packet [0x00] 1 = Some (1, \<lparr>pt_type = INTEL_PT_PAD, pt_count = 0, pt_payload = 0\<rparr>)"
    by (simp add: intel_pt_get_packet_def intel_pt_do_get_packet_def intel_pt_get_pad_def absorb_zeros.simps)
  then show ?thesis
    using intel_pt_pkt_desc_complete [of 1 "[0x00]" 1 _ "replicate INTEL_PT_PKT_DESC_MAX CHR ''x''"]
    by (auto simp: SIZE_RANGE_def intel_pt_full_text_def intel_pt_desc_text_def intel_pt_pkt_name_def)
qed

text \<open>
  C4. \<open>intel_pt_dump\<close> returns for every buffer, without reading outside it: the bytes it
  prints are the whole buffer in order, and every line shows the description of the packet
  found at the line's position, or \<open>Bad packet!\<close> where the decoder rejects it.
\<close>

theorem intel_pt_dump_complete:
  assumes "len \<le> length buf" and "len < SIZE_RANGE" and "length desc = INTEL_PT_PKT_DESC_MAX"
  shows "\<exists>lines. intel_pt_dump desc buf len = Some lines \<and>
    concat (map dl_bytes lines) = take len buf \<and>
    list_all (line_ok intel_pt_get_packet intel_pt_full_text buf len) lines"
  using intel_pt_text.dump_covers [of 0 len buf desc] assms by (simp add: intel_pt_dump_def)

theorem intel_pt_dump_complete_witness:
  "\<exists>lines. intel_pt_dump (replicate INTEL_PT_PKT_DESC_MAX CHR ''x'') [0x02, 0x23, 0x99] 3 = Some lines \<and>
    concat (map dl_bytes lines) = [0x02, 0x23, 0x99]"
  using intel_pt_dump_complete [of 3 "[0x02, 0x23, 0x99]" "replicate INTEL_PT_PKT_DESC_MAX CHR ''x''"]
  by (auto simp: SIZE_RANGE_def)

end
