(* ===== verification/Intel_PT_Prefix.thy ===== *)
theory Intel_PT_Prefix
  imports Intel_PT_Pkt
begin

text \<open>
  A packet is determined by its own bytes: whatever \<open>intel_pt_do_get_packet\<close> decodes from a
  buffer, it decodes from any other buffer that starts with the same packet, however long.
  The decoder relies on this when it copies a packet that is split over two trace buffers
  into \<open>temp_buf\<close> and decodes it again (\<open>intel_pt_get_split_packet\<close> of
  \<open>util/intel-pt-decoder/intel-pt-decoder.c\<close>).
\<close>

named_theorems pt_stable \<open>a reader's result depends on the packet's own bytes only\<close>

lemma intel_pt_readers_stable:
  assumes "0 < n" and sp: "same_prefix n buf buf'" and "n \<le> len'"
  shows "intel_pt_get_long_tnt buf len p = Some (int n, q) \<Longrightarrow> intel_pt_get_long_tnt buf' len' p = Some (int n, q)"
    and "intel_pt_get_pip buf len p = Some (int n, q) \<Longrightarrow> intel_pt_get_pip buf' len' p = Some (int n, q)"
    and "intel_pt_get_cbr buf len p = Some (int n, q) \<Longrightarrow> intel_pt_get_cbr buf' len' p = Some (int n, q)"
    and "intel_pt_get_vmcs buf len p = Some (int n, q) \<Longrightarrow> intel_pt_get_vmcs buf' len' p = Some (int n, q)"
    and "intel_pt_get_tma buf len p = Some (int n, q) \<Longrightarrow> intel_pt_get_tma buf' len' p = Some (int n, q)"
    and "intel_pt_get_mnt buf len p = Some (int n, q) \<Longrightarrow> intel_pt_get_mnt buf' len' p = Some (int n, q)"
    and "intel_pt_get_mwait buf len p = Some (int n, q) \<Longrightarrow> intel_pt_get_mwait buf' len' p = Some (int n, q)"
    and "intel_pt_get_pwre buf len p = Some (int n, q) \<Longrightarrow> intel_pt_get_pwre buf' len' p = Some (int n, q)"
    and "intel_pt_get_pwrx buf len p = Some (int n, q) \<Longrightarrow> intel_pt_get_pwrx buf' len' p = Some (int n, q)"
    and "intel_pt_get_mode buf len p = Some (int n, q) \<Longrightarrow> intel_pt_get_mode buf' len' p = Some (int n, q)"
    and "intel_pt_get_tsc buf len p = Some (int n, q) \<Longrightarrow> intel_pt_get_tsc buf' len' p = Some (int n, q)"
    and "intel_pt_get_mtc buf len p = Some (int n, q) \<Longrightarrow> intel_pt_get_mtc buf' len' p = Some (int n, q)"
    and "intel_pt_get_3byte buf len p = Some (int n, q) \<Longrightarrow> intel_pt_get_3byte buf' len' p = Some (int n, q)"
  using assms same_reads [OF sp]
  by (auto simp: intel_pt_get_long_tnt_def intel_pt_get_pip_def intel_pt_get_cbr_def intel_pt_get_vmcs_def
      intel_pt_get_tma_def intel_pt_get_mnt_def intel_pt_get_mwait_def intel_pt_get_pwre_def
      intel_pt_get_pwrx_def intel_pt_get_mode_def intel_pt_get_tsc_def intel_pt_get_mtc_def
      intel_pt_get_3byte_def Let_def
      split: if_splits bind_splits prod.splits)

lemma intel_pt_get_ptwrite_stable [pt_stable]:
  assumes "intel_pt_get_ptwrite buf len p = Some (int n, q)" and "0 < n"
    and sp: "same_prefix n buf buf'" and "n \<le> len'" and "2 \<le> len"
  shows "intel_pt_get_ptwrite buf' len' p = Some (int n, q)"
proof -
  from assms(1,2) have "6 \<le> n"
    by (auto simp: intel_pt_get_ptwrite_def Let_def split: if_splits bind_splits)
  with assms same_reads [OF sp] show ?thesis
    by (auto simp: intel_pt_get_ptwrite_def Let_def split: if_splits bind_splits)
qed

lemma psb_loop_same: "same_prefix m xs ys \<Longrightarrow> i + 2 * n \<le> m \<Longrightarrow> psb_loop ys i n = psb_loop xs i n"
  by (induction n arbitrary: i) (auto simp: rd_same cong: if_cong)

lemma intel_pt_get_psb_stable [pt_stable]:
  assumes "intel_pt_get_psb buf len p = Some (int n, q)" and "0 < n"
    and sp: "same_prefix n buf buf'" and "n \<le> len'"
  shows "intel_pt_get_psb buf' len' p = Some (int n, q)"
  using assms psb_loop_same [OF sp, of 2 7]
  by (auto simp: intel_pt_get_psb_def split: if_splits bind_splits)

lemma cyc_loop_same:
  assumes "cyc_loop buf len byte offs shift payload = Some (Inr (n, v))"
    and "same_prefix n buf buf'" and "n \<le> Suc len'"
  shows "cyc_loop buf' len' byte offs shift payload = Some (Inr (n, v)) \<and> offs \<le> n"
  using assms
proof (induction buf len byte offs shift payload rule: cyc_loop.induct)
  case (1 buf len byte offs shift payload)
  show ?case
  proof (cases "byte AND 1 = 0")
    case True
    with "1.prems"(1) have "Some (Inr (n, v)) = Some (Inr (offs, payload))" by (subst (asm) cyc_loop.simps) simp
    with True show ?thesis by (subst cyc_loop.simps) auto
  next
    case False
    with "1.prems"(1) obtain b where b: "\<not> offs > 9" "\<not> len < offs" "rd buf offs = Some b" "\<not> shift \<ge> 64"
      "cyc_loop buf len (ucast b) (offs + 1) (shift + 7) (payload OR push_bit shift (drop_bit 1 (ucast b)))
        = Some (Inr (n, v))"
      by (subst (asm) cyc_loop.simps) (auto split: if_splits bind_splits)
    with False "1.IH" [OF False b(1,2,3) b(4)] "1.prems"(2,3)
    have ih: "cyc_loop buf' len' (ucast b) (offs + 1) (shift + 7) (payload OR push_bit shift (drop_bit 1 (ucast b)))
        = Some (Inr (n, v))" "offs + 1 \<le> n"
      by auto
    then have "rd buf' offs = Some b" using rd_same [OF "1.prems"(2), of offs] b(3) by simp
    with ih b False "1.prems"(3) show ?thesis by (subst cyc_loop.simps) auto
  qed
qed

lemma cyc_loop_error: "cyc_loop buf len byte offs shift payload = Some (Inl e) \<Longrightarrow> e < 0"
proof (induction buf len byte offs shift payload rule: cyc_loop.induct)
  case (1 buf len byte offs shift payload)
  then show ?case by (subst (asm) (2) cyc_loop.simps) (auto split: if_splits bind_splits)
qed

lemma intel_pt_get_cyc_stable [pt_stable]:
  assumes "intel_pt_get_cyc byte buf len p = Some (int n, q)" and "0 < n"
    and sp: "same_prefix n buf buf'" and "n \<le> len'" and "len' < SIZE_RANGE"
  shows "intel_pt_get_cyc byte buf' len' p = Some (int n, q)"
proof -
  have sub: "size_sub len' (Suc 0) = len' - Suc 0" using assms by simp
  from assms(1,2) obtain v where v: "q = p\<lparr>pt_type := INTEL_PT_CYC, pt_payload := v\<rparr>"
    "cyc_loop buf (size_sub len 1) (drop_bit 2 byte) 1 5 (ucast (drop_bit 3 byte)) = Some (Inr (n, v))"
    by (auto simp: intel_pt_get_cyc_def split: bind_splits sum.splits dest: cyc_loop_error)
  with cyc_loop_same [OF v(2) sp, of "len' - 1"] assms(2,4) show ?thesis
    by (auto simp: intel_pt_get_cyc_def sub)
qed

lemma intel_pt_get_ip_stable [pt_stable]:
  assumes "intel_pt_get_ip t byte buf len p = Some (int n, q)" and "0 < n"
    and sp: "same_prefix n buf buf'" and "n \<le> len'"
  shows "intel_pt_get_ip t byte buf' len' p = Some (int n, q)"
  using assms same_reads [OF sp]
  by (auto simp: intel_pt_get_ip_def Let_def split: if_splits bind_splits)

lemmas pt_ext_defs = intel_pt_get_ptwrite_def intel_pt_get_long_tnt_def intel_pt_get_pip_def
  intel_pt_get_tracestop_def intel_pt_get_cbr_def intel_pt_get_vmcs_def intel_pt_get_ovf_def
  intel_pt_get_psb_def intel_pt_get_psbend_def intel_pt_get_tma_def intel_pt_get_3byte_def
  intel_pt_get_mnt_def intel_pt_get_exstop_def intel_pt_get_exstop_ip_def intel_pt_get_mwait_def
  intel_pt_get_pwre_def intel_pt_get_pwrx_def

lemma intel_pt_get_ext_ge2:
  "intel_pt_get_ext buf len p = Some (int n, q) \<Longrightarrow> 0 < n \<Longrightarrow> 2 \<le> n"
  by (auto simp: intel_pt_get_ext_def pt_ext_defs Let_def split: if_splits bind_splits prod.splits)

lemma intel_pt_get_ext_stable [pt_stable]:
  assumes r: "intel_pt_get_ext buf len p = Some (int n, q)" and n: "0 < n"
    and sp: "same_prefix n buf buf'" and len: "n \<le> len'"
  shows "intel_pt_get_ext buf' len' p = Some (int n, q)"
proof -
  have n2: "2 \<le> n" using r n by (rule intel_pt_get_ext_ge2)
  have rd: "rd buf' 1 = rd buf 1" using rd_same [OF sp] n2 by simp
  have l: "\<not> len < 2" using r n by (auto simp: intel_pt_get_ext_def)
  from r l obtain b where b: "rd buf 1 = Some b" by (auto simp: intel_pt_get_ext_def split: bind_splits)
  show ?thesis
    using r l rd b n2 len
    unfolding intel_pt_get_ext_def
    by (auto split: if_splits intro: pt_stable [OF _ n sp len]
        intel_pt_readers_stable [OF n sp len]
        simp: intel_pt_get_ptwrite_stable [OF _ n sp len])
qed

lemma intel_pt_do_get_packet_stable:
  assumes r: "intel_pt_do_get_packet buf len = Some (int n, q)" and n: "0 < n"
    and sp: "same_prefix n buf buf'" and len: "n \<le> len'" "len' < SIZE_RANGE"
  shows "intel_pt_do_get_packet buf' len' = Some (int n, q)"
proof -
  have rd: "rd buf' 0 = rd buf 0" using rd_same [OF sp] n by simp
  have l: "len \<noteq> 0" using r n by (cases len) (auto simp: intel_pt_do_get_packet_def)
  from r l obtain b where b: "rd buf 0 = Some b"
    by (cases "rd buf 0") (auto simp: intel_pt_do_get_packet_def)
  show ?thesis
    using r l rd b n len
    unfolding intel_pt_do_get_packet_def
    by (auto simp: Let_def split: if_splits intro: pt_stable [OF _ n sp len(1)]
        intel_pt_readers_stable [OF n sp len(1)]
        intel_pt_get_cyc_stable [OF _ n sp len])
qed

text \<open>
  C7. A packet is determined by its own bytes: if \<open>intel_pt_do_get_packet\<close> decodes a packet
  of \<open>n\<close> bytes from one buffer, it decodes the same packet from every buffer that starts with
  the same \<open>n\<close> bytes, whatever follows them and however many bytes are announced.
\<close>

theorem intel_pt_packet_self_contained:
  assumes "intel_pt_do_get_packet buf len = Some (int n, p)" and "0 < n"
    and "take n buf = take n buf'" and "n \<le> length buf" and "n \<le> length buf'"
    and "n \<le> len'" and "len' < SIZE_RANGE"
  shows "intel_pt_do_get_packet buf' len' = Some (int n, p)"
  by (rule intel_pt_do_get_packet_stable [OF assms(1,2) _ assms(6,7)])
    (use assms in \<open>simp add: same_prefix_def\<close>)

theorem intel_pt_packet_self_contained_witness:
  "\<exists>p. intel_pt_do_get_packet [0x59, 0x07] 2 = Some (2, p) \<and>
    intel_pt_do_get_packet [0x59, 0x07, 0xff, 0xff] 4 = Some (2, p)"
proof -
  let ?p = "\<lparr>pt_type = INTEL_PT_MTC, pt_count = 0, pt_payload = 7\<rparr>"
  have d: "intel_pt_do_get_packet [0x59, 0x07] 2 = Some (int 2, ?p)"
    by code_simp
  have "intel_pt_do_get_packet [0x59, 0x07, 0xff, 0xff] 4 = Some (int 2, ?p)"
    by (rule intel_pt_packet_self_contained [OF d]) (simp_all add: SIZE_RANGE_def)
  with d show ?thesis by (intro exI [of _ ?p]) simp
qed

end
