(* ===== verification/Auxtrace_Heap.thy ===== *)
theory Auxtrace_Heap
  imports Perf_Prelude
begin

text \<open>
  The binary heap that orders AUX area trace queues by time stamp (\<open>auxtrace_heapify\<close>,
  \<open>auxtrace_heap__add\<close>, \<open>auxtrace_heap__free\<close> and \<open>auxtrace_heap__pop\<close> of
  \<open>util/auxtrace.c\<close>), proved to be a priority queue: the locale \<open>min_heap\<close> states what the
  trace decoders rely on, and its interpretation discharges that for the C code.

  Positions are natural numbers; the only sum that can leave the range of
  \<open>unsigned int\<close>, \<open>(pos << 1) + 1\<close>, is reduced modulo \<open>2 ^ 32\<close>. The loop that doubles
  \<open>heap_sz\<close> works on 32-bit words.
\<close>

section \<open>State\<close>

record auxtrace_heap_item =
  queue_nr :: u32
  ordinal :: u64

record auxtrace_heap =
  heap_array :: "auxtrace_heap_item list"
  heap_cnt :: nat
  heap_sz :: nat

abbreviation (input) AUXTRACE_INIT_NR_QUEUES :: nat where
  "AUXTRACE_INIT_NR_QUEUES \<equiv> 32"

section \<open>Operations\<close>

function auxtrace_heapify ::
  "auxtrace_heap_item list \<Rightarrow> nat \<Rightarrow> u32 \<Rightarrow> u64 \<Rightarrow> auxtrace_heap_item list option"
where
  "auxtrace_heapify arr pos q ord =
     (if pos \<noteq> 0 then do {
        let parent = (pos - 1) div 2;
        it \<leftarrow> rd arr parent;
        if ordinal it \<le> ord then wr arr pos \<lparr>queue_nr = q, ordinal = ord\<rparr>
        else do {
          arr \<leftarrow> wr arr pos it;
          auxtrace_heapify arr parent q ord
        }
      } else wr arr pos \<lparr>queue_nr = q, ordinal = ord\<rparr>)"
  by pat_completeness auto
termination
  by (relation "measure (\<lambda>(arr, pos, q, ord). pos)") auto

declare auxtrace_heapify.simps [simp del]

text \<open>\<open>while (heap_sz <= queue_nr) heap_sz <<= 1;\<close>\<close>

partial_function (option) heap_sz_loop :: "u32 \<Rightarrow> u32 \<Rightarrow> u32 option" where
  "heap_sz_loop sz q = (if sz \<le> q then heap_sz_loop (push_bit 1 sz) q else Some sz)"

text \<open>
  The result is the return code and the heap; \<open>fresh\<close> and \<open>oom\<close> are the contents of
  memory from \<open>realloc\<close> and whether it fails.
\<close>

definition auxtrace_heap__add ::
  "(nat \<Rightarrow> auxtrace_heap_item) \<Rightarrow> (nat \<Rightarrow> bool) \<Rightarrow> auxtrace_heap \<Rightarrow> u32 \<Rightarrow> u64 \<Rightarrow> (int \<times> auxtrace_heap) option"
where
  "auxtrace_heap__add fresh oom heap q ord = do {
     grown \<leftarrow>
       (if unat q \<ge> heap_sz heap then do {
          sz \<leftarrow> heap_sz_loop (of_nat AUXTRACE_INIT_NR_QUEUES) q;
          case realloc fresh oom (heap_array heap) (unat sz) of
            None \<Rightarrow> Some (Inl (- ENOMEM))
          | Some arr \<Rightarrow> Some (Inr (heap\<lparr>heap_array := arr, heap_sz := unat sz\<rparr>))
        } else Some (Inr heap));
     case grown of
       Inl err \<Rightarrow> Some (err, heap)
     | Inr heap \<Rightarrow> do {
         arr \<leftarrow> auxtrace_heapify (heap_array heap) (heap_cnt heap) q ord;
         Some (0, heap\<lparr>heap_array := arr, heap_cnt := heap_cnt heap + 1\<rparr>)
       }
   }"

definition auxtrace_heap__free :: "auxtrace_heap \<Rightarrow> auxtrace_heap" where
  "auxtrace_heap__free heap = heap\<lparr>heap_array := [], heap_cnt := 0, heap_sz := 0\<rparr>"

text \<open>
  The loop of \<open>auxtrace_heap__pop\<close> moves the smaller child up until it reaches a leaf. It
  ends with the position of the hole, or, when the last item was moved, without one.
\<close>

partial_function (option) heap_pop_loop ::
  "auxtrace_heap_item list \<Rightarrow> nat \<Rightarrow> nat \<Rightarrow> (auxtrace_heap_item list \<times> nat option) option"
where
  "heap_pop_loop arr cnt pos =
     (let left = (pos * 2 + 1) mod 2 ^ 32; right = (left + 1) mod 2 ^ 32 in
      if left \<ge> cnt then Some (arr, Some pos)
      else if right \<ge> cnt then do {
        it \<leftarrow> rd arr left;
        arr \<leftarrow> wr arr pos it;
        Some (arr, None)
      } else do {
        l \<leftarrow> rd arr left;
        r \<leftarrow> rd arr right;
        if ordinal l < ordinal r then do {
          arr \<leftarrow> wr arr pos l;
          heap_pop_loop arr cnt left
        } else do {
          arr \<leftarrow> wr arr pos r;
          heap_pop_loop arr cnt right
        }
      })"

definition auxtrace_heap__pop :: "auxtrace_heap \<Rightarrow> auxtrace_heap option" where
  "auxtrace_heap__pop heap =
     (let cnt = heap_cnt heap in
      if cnt = 0 then Some heap
      else do {
        (arr, hole) \<leftarrow> heap_pop_loop (heap_array heap) cnt 0;
        case hole of
          None \<Rightarrow> Some (heap\<lparr>heap_array := arr, heap_cnt := cnt - 1\<rparr>)
        | Some pos \<Rightarrow> do {
            it \<leftarrow> rd arr (cnt - 1);
            arr \<leftarrow> auxtrace_heapify arr pos (queue_nr it) (ordinal it);
            Some (heap\<lparr>heap_array := arr, heap_cnt := cnt - 1\<rparr>)
          }
      })"

section \<open>Heap order\<close>

abbreviation parent :: "nat \<Rightarrow> nat" where
  "parent i \<equiv> (i - 1) div 2"

definition heap_order :: "auxtrace_heap_item list \<Rightarrow> nat \<Rightarrow> bool" where
  "heap_order arr n \<longleftrightarrow> (\<forall>i. 0 < i \<longrightarrow> i < n \<longrightarrow> ordinal (arr ! parent i) \<le> ordinal (arr ! i))"

text \<open>
  The array with a hole at \<open>pos\<close> into which an item with time stamp \<open>ord\<close> is to be put:
  the order holds around the hole, and whatever is below it may stay below the item.
\<close>

definition hole_order :: "auxtrace_heap_item list \<Rightarrow> nat \<Rightarrow> nat \<Rightarrow> u64 \<Rightarrow> bool" where
  "hole_order arr n pos ord \<longleftrightarrow>
     (\<forall>i. 0 < i \<longrightarrow> i < n \<longrightarrow> i \<noteq> pos \<longrightarrow> parent i \<noteq> pos \<longrightarrow> ordinal (arr ! parent i) \<le> ordinal (arr ! i)) \<and>
     (\<forall>i. 0 < i \<longrightarrow> i < n \<longrightarrow> parent i = pos \<longrightarrow>
        ord \<le> ordinal (arr ! i) \<and> (0 < pos \<longrightarrow> ordinal (arr ! parent pos) \<le> ordinal (arr ! i)))"

lemma parent_less: "0 < i \<Longrightarrow> parent i < i"
  by auto

lemma hole_order_up:
  assumes "hole_order arr n pos ord" and "0 < pos" and "pos < n" and "n \<le> length arr"
    and "ord \<le> ordinal (arr ! parent pos)"
  shows "hole_order (arr[pos := arr ! parent pos]) n (parent pos) ord"
proof -
  let ?p = "parent pos" and ?a = "arr[pos := arr ! parent pos]"
  have p: "?p < pos" "?p \<noteq> pos" using assms(2) by auto
  have nth: "?a ! i = (if i = pos then arr ! ?p else arr ! i)" for i
    using assms by (cases "i = pos") auto
  have out: "ordinal (?a ! parent i) \<le> ordinal (?a ! i)" if "0 < i" "i < n" "i \<noteq> ?p" "parent i \<noteq> ?p" for i
    using assms(1) that assms(2) p unfolding nth hole_order_def by (cases "parent i = pos") auto
  have inn: "ord \<le> ordinal (?a ! i)" "0 < ?p \<Longrightarrow> ordinal (?a ! parent ?p) \<le> ordinal (?a ! i)"
    if "0 < i" "i < n" "parent i = ?p" for i
  proof -
    have i: "i \<noteq> ?p" using parent_less [OF that(1)] unfolding that(3) by (rule less_imp_neq [symmetric])
    have pp: "0 < ?p \<Longrightarrow> parent ?p \<noteq> pos \<and> parent ?p \<noteq> ?p" using parent_less [of ?p] p by linarith
    have c: "ordinal (arr ! ?p) \<le> ordinal (arr ! i)" if "i \<noteq> pos"
      using assms(1) that \<open>0 < i\<close> \<open>i < n\<close> \<open>parent i = ?p\<close> p unfolding hole_order_def by metis
    show "ord \<le> ordinal (?a ! i)" using c assms(5) unfolding nth by (cases "i = pos") auto
    assume "0 < ?p"
    then have "ordinal (arr ! parent ?p) \<le> ordinal (arr ! ?p)"
      using assms(1,3) pp p unfolding hole_order_def by (metis less_trans)
    then show "ordinal (?a ! parent ?p) \<le> ordinal (?a ! i)"
      using c pp \<open>0 < ?p\<close> unfolding nth by (cases "i = pos") auto
  qed
  from out inn show ?thesis unfolding hole_order_def by blast
qed

lemma hole_order_fill:
  assumes "hole_order arr n pos (ordinal x)" and "pos < n" and "n \<le> length arr"
    and "0 < pos \<Longrightarrow> ordinal (arr ! parent pos) \<le> ordinal x"
  shows "heap_order (arr[pos := x]) n"
proof -
  have nth: "arr[pos := x] ! i = (if i = pos then x else arr ! i)" for i
    using assms by (cases "i = pos") auto
  have "ordinal (arr[pos := x] ! parent i) \<le> ordinal (arr[pos := x] ! i)" if "0 < i" "i < n" for i
  proof (cases "i = pos")
    case True
    then show ?thesis using assms(4) that parent_less [of i] unfolding nth by auto
  next
    case False
    then show ?thesis
      using assms(1) that unfolding nth hole_order_def by (cases "parent i = pos") auto
  qed
  then show ?thesis by (simp add: heap_order_def)
qed

lemma mset_take_update:
  assumes "i < n" and "n \<le> length xs"
  shows "add_mset (xs ! i) (mset (take n (xs[i := x]))) = add_mset x (mset (take n xs))"
proof -
  have "take n (xs[i := x]) = (take n xs)[i := x]" by (rule take_update_swap)
  moreover have "take n xs ! i = xs ! i" "i < length (take n xs)" using assms by auto
  moreover from this have "xs ! i \<in># mset (take n xs)" by (metis nth_mem_mset)
  ultimately show ?thesis by (simp add: mset_update)
qed

lemma mset_exchange:
  assumes "add_mset p m1 = add_mset x m2" and "add_mset a m2 = add_mset p m"
  shows "add_mset a m1 = add_mset x m"
proof -
  have "add_mset p (add_mset a m1) = add_mset p (add_mset x m)"
    using assms by (metis add_mset_commute)
  then show ?thesis by simp
qed

text \<open>
  \<open>auxtrace_heapify\<close> puts the item somewhere between the hole and the root, so that the
  order holds everywhere; the items are those around the hole and the new one.
\<close>

lemma auxtrace_heapify_spec:
  assumes "hole_order arr n pos ord" and "pos < n" and "n \<le> length arr"
  shows "\<exists>arr'. auxtrace_heapify arr pos q ord = Some arr' \<and> length arr' = length arr \<and> heap_order arr' n \<and>
    (add_mset (arr ! pos) (mset (take n arr')) = add_mset \<lparr>queue_nr = q, ordinal = ord\<rparr> (mset (take n arr)))"
  using assms
proof (induction arr pos q ord rule: auxtrace_heapify.induct)
  case (1 arr pos q ord)
  let ?x = "\<lparr>queue_nr = q, ordinal = ord\<rparr>"
  note le = \<open>n \<le> length arr\<close> and pos = \<open>pos < n\<close>
  show ?case
  proof (cases "0 < pos \<and> \<not> ordinal (arr ! parent pos) \<le> ord")
    case True
    let ?a = "arr[pos := arr ! parent pos]"
    have rd: "rd arr (parent pos) = Some (arr ! parent pos)" "wr arr pos (arr ! parent pos) = Some ?a"
      using le pos by auto
    have h: "hole_order ?a n (parent pos) ord"
      using hole_order_up [OF "1.prems"(1)] True pos le by auto
    have "\<exists>arr'. auxtrace_heapify ?a (parent pos) q ord = Some arr' \<and> length arr' = length ?a \<and> heap_order arr' n \<and>
        add_mset (?a ! parent pos) (mset (take n arr')) = add_mset ?x (mset (take n ?a))"
      using True by (intro "1.IH" [OF _ refl rd(1) _ rd(2) h]) (use pos le in auto)
    then obtain arr' where a: "auxtrace_heapify ?a (parent pos) q ord = Some arr'" "length arr' = length arr"
      "heap_order arr' n" "add_mset (?a ! parent pos) (mset (take n arr')) = add_mset ?x (mset (take n ?a))"
      by auto
    have "?a ! parent pos = arr ! parent pos" using True parent_less [of pos] by auto
    with a(4) have "add_mset (arr ! parent pos) (mset (take n arr')) = add_mset ?x (mset (take n ?a))"
      by simp
    then have "add_mset (arr ! pos) (mset (take n arr')) = add_mset ?x (mset (take n arr))"
      by (rule mset_exchange) (rule mset_take_update [OF pos le])
    with a True rd show ?thesis by (subst auxtrace_heapify.simps) simp
  next
    case False
    have "auxtrace_heapify arr pos q ord = Some (arr[pos := ?x])"
      using False pos le by (subst auxtrace_heapify.simps) (auto simp: wr_def)
    moreover have "heap_order (arr[pos := ?x]) n"
      using hole_order_fill [of arr n pos ?x] 1 False by auto
    ultimately show ?thesis using mset_take_update [OF pos le] by simp
  qed
qed

lemma parent_eq: "0 < i \<Longrightarrow> parent i = p \<longleftrightarrow> i = 2 * p + 1 \<or> i = 2 * p + 2"
  by presburger

lemma mset_cancel: "add_mset a (add_mset l x) = add_mset l m \<Longrightarrow> add_mset a x = m"
  by (metis add_mset_commute add_mset_add_mset_same_iff)

lemma heap_order_down:
  assumes "heap_order arr n" and "pos < n" and "n \<le> length arr" and "0 < c" "c < n" "parent c = pos"
    and "\<And>i. 0 < i \<Longrightarrow> i < n \<Longrightarrow> parent i = pos \<Longrightarrow> ordinal (arr ! c) \<le> ordinal (arr ! i)"
  shows "heap_order (arr[pos := arr ! c]) n"
proof -
  have nth: "arr[pos := arr ! c] ! i = (if i = pos then arr ! c else arr ! i)" for i
    using assms(2,3) by (cases "i = pos") auto
  have step: "ordinal (arr ! parent i) \<le> ordinal (arr ! i)" if "0 < i" "i < n" for i
    using assms(1) that by (simp add: heap_order_def)
  have "ordinal (arr[pos := arr ! c] ! parent i) \<le> ordinal (arr[pos := arr ! c] ! i)" if "0 < i" "i < n" for i
  proof (cases "i = pos")
    case True
    then have "ordinal (arr ! parent i) \<le> ordinal (arr ! c)"
      using step [OF that] step [OF assms(4,5)] assms(6) by (metis order_trans)
    then show ?thesis using True parent_less [OF that(1)] unfolding nth by auto
  next
    case False
    then show ?thesis using step [OF that] assms(7) [OF that] unfolding nth by auto
  qed
  then show ?thesis by (simp add: heap_order_def)
qed

text \<open>What the loop of \<open>auxtrace_heap__pop\<close> leaves, from any position on.\<close>

definition popped :: "auxtrace_heap_item list \<Rightarrow> nat \<Rightarrow> nat \<Rightarrow> auxtrace_heap_item list \<times> nat option \<Rightarrow> bool" where
  "popped arr n pos r \<longleftrightarrow> (case r of
       (arr', None) \<Rightarrow> length arr' = length arr \<and> heap_order arr' (n - 1) \<and>
         add_mset (arr ! pos) (mset (take (n - 1) arr')) = mset (take n arr)
     | (arr', Some h) \<Rightarrow> length arr' = length arr \<and> heap_order arr' n \<and> h < n \<and> n \<le> 2 * h + 1 \<and>
         add_mset (arr ! pos) (mset (take n arr')) = add_mset (arr' ! h) (mset (take n arr)))"

lemma popped_down:
  assumes "popped (arr[pos := arr ! c]) n c r" and "pos < n" and "n \<le> length arr" and "c \<noteq> pos"
  shows "popped arr n pos r"
proof -
  let ?a = "arr[pos := arr ! c]"
  note u = mset_take_update [OF assms(2,3), of "arr ! c"]
  have c: "?a ! c = arr ! c" using assms(4) by simp
  obtain arr' hole where r: "r = (arr', hole)" by (cases r)
  show ?thesis
  proof (cases hole)
    case None
    then have "add_mset (arr ! c) (mset (take (n - 1) arr')) = mset (take n ?a)"
      using assms(1) unfolding r popped_def c by simp
    then have "add_mset (arr ! pos) (add_mset (arr ! c) (mset (take (n - 1) arr'))) =
        add_mset (arr ! c) (mset (take n arr))" using u by simp
    then have "add_mset (arr ! pos) (mset (take (n - 1) arr')) = mset (take n arr)"
      by (rule mset_cancel)
    then show ?thesis using assms(1) None unfolding r popped_def by simp
  next
    case (Some h)
    then have "add_mset (arr ! c) (mset (take n arr')) = add_mset (arr' ! h) (mset (take n ?a))"
      using assms(1) unfolding r popped_def c by simp
    from mset_exchange [OF this u] show ?thesis using assms(1) Some unfolding r popped_def by simp
  qed
qed

lemma heap_pop_loop_spec:
  assumes "heap_order arr n" and "pos < n" and "n \<le> length arr" and "n \<le> 2 ^ 31"
  shows "\<exists>r. heap_pop_loop arr n pos = Some r \<and> popped arr n pos r"
  using assms
proof (induction "n - pos" arbitrary: arr pos rule: less_induct)
  case less
  let ?l = "2 * pos + 1" and ?r = "2 * pos + 2"
  have "?l < 2 ^ 32" using less.prems(2,4) by simp
  then have m: "(pos * 2 + 1) mod 2 ^ 32 = ?l" by simp
  note down = heap_order_down [OF less.prems(1,2,3)]
  note unfold = heap_pop_loop.simps [of arr n pos] m Let_def
  show ?case
  proof (cases "n \<le> ?l")
    case True
    then show ?thesis using less.prems unfolding unfold by (auto simp: popped_def)
  next
    case l: False
    then have "?r < 2 ^ 32" using less.prems(4) by simp
    then have m2: "(?l + 1) mod 2 ^ 32 = ?r" by simp
    have child: "i = ?l \<or> i = ?r" if "0 < i" "parent i = pos" for i using parent_eq that by blast
    show ?thesis
    proof (cases "n \<le> ?r")
      case True
      with l have n: "n = Suc ?l" by simp
      let ?a = "arr[pos := arr ! ?l]"
      have lc: "0 < ?l" "?l < n" "parent ?l = pos" using n by simp_all
      have "ordinal (arr ! ?l) \<le> ordinal (arr ! i)" if "0 < i" "i < n" "parent i = pos" for i
        using child [OF that(1,3)] that(2) n by (elim disjE) simp_all
      then have "heap_order ?a n" by (rule down [OF lc])
      then have h: "heap_order ?a (n - 1)" by (auto simp: heap_order_def)
      have "take n ?a = take ?l ?a @ [?a ! ?l]" using less.prems(3) n by (simp add: take_Suc_conv_app_nth)
      then have split: "mset (take n ?a) = add_mset (arr ! ?l) (mset (take ?l ?a))" by simp
      have "add_mset (arr ! pos) (mset (take ?l ?a)) = mset (take n arr)"
        using mset_take_update [OF less.prems(2,3), of "arr ! ?l"] unfolding split by (rule mset_cancel)
      then have "popped arr n pos (?a, None)" using h n by (simp add: popped_def)
      moreover have "heap_pop_loop arr n pos = Some (?a, None)"
        using l True less.prems(2,3) unfolding unfold m2 by simp
      ultimately show ?thesis by blast
    next
      case False
      define c where "c = (if ordinal (arr ! ?l) < ordinal (arr ! ?r) then ?l else ?r)"
      let ?a = "arr[pos := arr ! c]"
      have c: "0 < c" "c < n" "parent c = pos" "pos < c" using False by (auto simp: c_def)
      have "ordinal (arr ! c) \<le> ordinal (arr ! i)" if "0 < i" "i < n" "parent i = pos" for i
        using child [OF that(1,3)] unfolding c_def by (elim disjE) (simp_all add: not_less less_imp_le)
      then have h: "heap_order ?a n" by (rule down [OF c(1-3)])
      have "\<exists>r. heap_pop_loop ?a n c = Some r \<and> popped ?a n c r"
        by (rule less.hyps [OF _ h c(2)]) (use less.prems c(2,4) in simp_all)
      then obtain r where r: "heap_pop_loop ?a n c = Some r" "popped ?a n c r" by blast
      from r(2) have "popped arr n pos r"
        by (rule popped_down) (use less.prems c(4) in simp_all)
      moreover have "heap_pop_loop arr n pos = heap_pop_loop ?a n c"
        using False l less.prems unfolding unfold m2 by (auto simp: c_def)
      ultimately show ?thesis using r(1) by auto
    qed
  qed
qed

section \<open>The heap as a priority queue\<close>

definition heap_items :: "auxtrace_heap \<Rightarrow> auxtrace_heap_item multiset" where
  "heap_items h = mset (take (heap_cnt h) (heap_array h))"

text \<open>
  A queue is in the heap at most once, and its number is below the capacity: the capacity
  is chosen by queue number, so this is what keeps the count within it.
\<close>

definition heap_wf :: "auxtrace_heap \<Rightarrow> bool" where
  "heap_wf h \<longleftrightarrow> length (heap_array h) = heap_sz h \<and> heap_cnt h \<le> heap_sz h \<and> heap_sz h \<le> 2 ^ 31 \<and>
     heap_order (heap_array h) (heap_cnt h) \<and>
     distinct (map queue_nr (take (heap_cnt h) (heap_array h))) \<and>
     (\<forall>it \<in> set (take (heap_cnt h) (heap_array h)). unat (queue_nr it) < heap_sz h)"

definition heap_empty :: auxtrace_heap where
  "heap_empty = \<lparr>heap_array = [], heap_cnt = 0, heap_sz = 0\<rparr>"

lemma heap_wf_empty: "heap_wf heap_empty" "heap_items heap_empty = {#}"
  by (simp_all add: heap_wf_def heap_empty_def heap_order_def heap_items_def)

lemma heap_order_min:
  assumes "heap_order arr n" and "i < n"
  shows "ordinal (arr ! 0) \<le> ordinal (arr ! i)"
  using assms(2)
proof (induction i rule: less_induct)
  case (less i)
  show ?case
  proof (cases "i = 0")
    case False
    then have "ordinal (arr ! parent i) \<le> ordinal (arr ! i)"
      using assms(1) less.prems by (simp add: heap_order_def)
    moreover have "ordinal (arr ! 0) \<le> ordinal (arr ! parent i)"
      using False less parent_less [of i] by (meson less_trans not_gr_zero)
    ultimately show ?thesis by (rule order_trans [rotated])
  qed simp
qed

lemma heap_top_min:
  assumes "heap_wf h" and "x \<in># heap_items h"
  shows "ordinal (heap_array h ! 0) \<le> ordinal x"
proof -
  from assms obtain i where "i < heap_cnt h" "x = heap_array h ! i"
    by (auto simp: heap_items_def heap_wf_def in_set_conv_nth)
  with assms(1) show ?thesis using heap_order_min by (auto simp: heap_wf_def)
qed

text \<open>The invariant depends on the items, not on where they are.\<close>

lemma heap_wfI:
  assumes "length arr = sz" and "cnt \<le> sz" and "sz \<le> 2 ^ 31" and "heap_order arr cnt"
    and "mset (take cnt arr) = mset its" and "distinct (map queue_nr its)"
    and "\<And>it. it \<in> set its \<Longrightarrow> unat (queue_nr it) < sz"
  shows "heap_wf \<lparr>heap_array = arr, heap_cnt = cnt, heap_sz = sz\<rparr>"
proof -
  have "mset (map queue_nr (take cnt arr)) = mset (map queue_nr its)"
    using assms(5) by (simp only: mset_map)
  then have "distinct (map queue_nr (take cnt arr))" using assms(6) mset_eq_imp_distinct_iff by blast
  moreover have "set (take cnt arr) = set its" using assms(5) by (rule mset_eq_setD)
  ultimately show ?thesis using assms by (simp add: heap_wf_def)
qed

lemma auxtrace_heapify_above:
  "auxtrace_heapify arr pos q ord = Some arr' \<Longrightarrow> pos < i \<Longrightarrow> arr' ! i = arr ! i"
proof (induction arr pos q ord rule: auxtrace_heapify.induct)
  case (1 arr pos q ord)
  from "1.prems"(1) consider "arr' = arr[pos := \<lparr>queue_nr = q, ordinal = ord\<rparr>]"
    | it where "pos \<noteq> 0" "rd arr (parent pos) = Some it" "\<not> ordinal it \<le> ord"
      "wr arr pos it = Some (arr[pos := it])" "auxtrace_heapify (arr[pos := it]) (parent pos) q ord = Some arr'"
    by (subst (asm) auxtrace_heapify.simps) (auto simp: wr_eq_Some Let_def split: if_splits bind_splits)
  then show ?case
  proof cases
    case 2
    then have "arr' ! i = arr[pos := it] ! i"
      using "1.IH" [OF 2(1) refl 2(2,3,4,5)] "1.prems"(2) parent_less [of pos] by linarith
    then show ?thesis using "1.prems"(2) by simp
  qed (use "1.prems"(2) in simp)
qed

lemma auxtrace_heapify_same:
  assumes "heap_order arr n" and "pos < n" and "n \<le> length arr"
  shows "auxtrace_heapify arr pos (queue_nr (arr ! pos)) (ordinal (arr ! pos)) = Some arr"
proof -
  have "ordinal (arr ! parent pos) \<le> ordinal (arr ! pos)" if "pos \<noteq> 0"
    using assms that by (simp add: heap_order_def)
  moreover have "pos < length arr" "parent pos < length arr" using assms by auto
  ultimately show ?thesis by (subst auxtrace_heapify.simps) (auto simp: wr_def list_update_same_conv)
qed

lemma auxtrace_heap__pop_spec:
  assumes "heap_wf h" and "heap_cnt h \<noteq> 0"
  shows "\<exists>h'. auxtrace_heap__pop h = Some h' \<and> heap_wf h' \<and> heap_sz h' = heap_sz h \<and>
    heap_cnt h' = heap_cnt h - 1 \<and> heap_items h = add_mset (heap_array h ! 0) (heap_items h')"
proof -
  let ?n = "heap_cnt h" and ?arr = "heap_array h"
  have le: "?n \<le> length ?arr" and n: "?n \<le> 2 ^ 31" and ord: "heap_order ?arr ?n"
    using assms(1) by (auto simp: heap_wf_def)
  obtain r where r: "heap_pop_loop ?arr ?n 0 = Some r" "popped ?arr ?n 0 r"
    using heap_pop_loop_spec [OF ord _ le n, of 0] assms(2) by auto
  have "\<exists>arr'. auxtrace_heap__pop h = Some (h\<lparr>heap_array := arr', heap_cnt := ?n - 1\<rparr>) \<and>
      length arr' = length ?arr \<and> heap_order arr' (?n - 1) \<and>
      add_mset (?arr ! 0) (mset (take (?n - 1) arr')) = mset (take ?n ?arr)"
  proof (cases r)
    case (Pair arr' hole)
    show ?thesis
    proof (cases hole)
      case None
      with r Pair assms(2) show ?thesis by (auto simp: auxtrace_heap__pop_def popped_def)
    next
      case (Some pos)
      let ?it = "arr' ! (?n - 1)"
      have p: "length arr' = length ?arr" "heap_order arr' ?n" "pos < ?n" "?n \<le> 2 * pos + 1"
        "add_mset (?arr ! 0) (mset (take ?n arr')) = add_mset (arr' ! pos) (mset (take ?n ?arr))"
        using r(2) Some Pair by (auto simp: popped_def)
      have "parent i \<noteq> pos" if "0 < i" "i < ?n" for i
        using that p(4) by (metis parent_eq leD less_imp_le_nat add_2_eq_Suc' le_Suc_eq Suc_eq_plus1)
      then have hole: "hole_order arr' ?n pos (ordinal ?it)"
        using p(2) by (auto simp: hole_order_def heap_order_def)
      obtain arr'' where a: "auxtrace_heapify arr' pos (queue_nr ?it) (ordinal ?it) = Some arr''"
        "length arr'' = length arr'" "heap_order arr'' ?n"
        "add_mset (arr' ! pos) (mset (take ?n arr'')) = add_mset ?it (mset (take ?n arr'))"
        using auxtrace_heapify_spec [OF hole p(3), of "queue_nr ?it"] p(1) le by auto
      have last: "arr'' ! (?n - 1) = ?it"
      proof (cases "pos = ?n - 1")
        case True
        then show ?thesis using auxtrace_heapify_same [OF p(2,3)] a(1) p(1) le by simp
      next
        case False
        then show ?thesis using auxtrace_heapify_above [OF a(1)] p(3) by simp
      qed
      have "mset (take ?n arr'') = add_mset ?it (mset (take (?n - 1) arr''))"
        using take_Suc_conv_app_nth [of "?n - 1" arr''] last assms(2) a(2) p(1) le by simp
      with a(4) have split: "mset (take ?n arr') = add_mset (arr' ! pos) (mset (take (?n - 1) arr''))"
        by (simp add: add_mset_commute)
      have "add_mset (?arr ! 0) (mset (take (?n - 1) arr'')) = mset (take ?n ?arr)"
        using p(5) unfolding split by (rule mset_cancel)
      moreover have "rd arr' (?n - 1) = Some ?it" using assms(2) p(1) le by simp
      moreover have "heap_order arr'' (?n - 1)" using a(3) by (simp add: heap_order_def)
      ultimately show ?thesis using r(1) a(1,2) p(1) Some Pair assms(2)
        by (auto simp: auxtrace_heap__pop_def)
    qed
  qed
  then obtain arr' where a: "auxtrace_heap__pop h = Some (h\<lparr>heap_array := arr', heap_cnt := ?n - 1\<rparr>)"
      "length arr' = length ?arr" "heap_order arr' (?n - 1)"
      "mset (take ?n ?arr) = mset (?arr ! 0 # take (?n - 1) arr')"
    by auto
  have "mset (map queue_nr (take ?n ?arr)) = mset (map queue_nr (?arr ! 0 # take (?n - 1) arr'))"
    using a(4) by (simp only: mset_map)
  then have "distinct (map queue_nr (take (?n - 1) arr'))"
    using assms(1) mset_eq_imp_distinct_iff unfolding heap_wf_def by (metis distinct.simps(2) list.simps(9))
  moreover have "set (take (?n - 1) arr') \<subseteq> set (take ?n ?arr)"
    using mset_eq_setD [OF a(4)] by auto
  ultimately have "heap_wf (h\<lparr>heap_array := arr', heap_cnt := ?n - 1\<rparr>)"
    using assms(1) a(2,3) by (auto simp: heap_wf_def)
  then show ?thesis using a(1,4) by (auto simp: heap_items_def)
qed


subsection \<open>Growing the array\<close>

text \<open>Doubling from 32 passes every queue number below \<open>2 ^ 31\<close> and stops there.\<close>

lemma heap_sz_loop_step: "2 ^ k \<le> unat q \<Longrightarrow> k < 31 \<Longrightarrow>
    heap_sz_loop (of_nat (2 ^ k)) q = heap_sz_loop (of_nat (2 ^ Suc k)) q"
proof -
  assume k: "2 ^ k \<le> unat q" "k < 31"
  have "(2 :: nat) ^ k < 2 ^ 32" using k(2) by (intro power_strict_increasing) auto
  then have "unat (of_nat (2 ^ k) :: u32) = 2 ^ k" by (intro unat_of_nat_small) simp
  then have "of_nat (2 ^ k) \<le> q" using k(1) unfolding word_le_nat_alt by (simp only:)
  moreover have "push_bit 1 (of_nat (2 ^ k) :: u32) = of_nat (2 ^ Suc k)" by (simp add: push_bit_eq_mult mult.commute)
  ultimately show ?thesis by (subst heap_sz_loop.simps) (simp only: if_True)
qed

lemma heap_sz_loop_total:
  assumes "unat q < 2 ^ 31" and "k \<le> 31"
  shows "\<exists>sz. heap_sz_loop (of_nat (2 ^ k)) q = Some sz \<and> unat q < unat sz \<and> unat sz \<le> 2 ^ 31"
  using assms(2)
proof (induction "31 - k" arbitrary: k)
  case 0
  then have "k = 31" by simp
  then show ?case using assms(1) by (subst heap_sz_loop.simps) (simp add: word_le_nat_alt)
next
  case (Suc j)
  show ?case
  proof (cases "2 ^ k \<le> unat q")
    case True
    have "\<exists>sz. heap_sz_loop (of_nat (2 ^ Suc k)) q = Some sz \<and> unat q < unat sz \<and> unat sz \<le> 2 ^ 31"
      using Suc by (intro Suc.hyps) auto
    then show ?thesis using heap_sz_loop_step [OF True] Suc by simp
  next
    case False
    have "(2 :: nat) ^ k \<le> 2 ^ 31" using Suc.prems by (intro power_increasing) auto
    moreover from this have u: "unat (of_nat (2 ^ k) :: u32) = 2 ^ k" by (intro unat_of_nat_small) simp
    moreover have "\<not> of_nat (2 ^ k) \<le> q" using False unfolding word_le_nat_alt u .
    ultimately show ?thesis using False by (subst heap_sz_loop.simps) (simp only: if_False, auto)
  qed
qed

lemma heap_fits:
  assumes "heap_wf h" and "q \<notin> queue_nr ` set (take (heap_cnt h) (heap_array h))"
    and "unat q < sz" and "heap_sz h \<le> sz"
  shows "heap_cnt h < sz"
proof -
  let ?qs = "q # map queue_nr (take (heap_cnt h) (heap_array h))"
  have "distinct (map unat ?qs)"
    using assms(1,2) unfolding distinct_map by (auto simp: heap_wf_def inj_on_def word_unat_eq_iff)
  moreover have "set (map unat ?qs) \<subseteq> {..<sz}" using assms by (auto simp: heap_wf_def)
  ultimately have "length ?qs \<le> card {..<sz}"
    by (metis card_mono distinct_card finite_lessThan length_map)
  then show ?thesis using assms(1) by (simp add: heap_wf_def)
qed

lemma auxtrace_heapify_add:
  assumes "heap_order arr n" and "n < length arr"
  shows "\<exists>arr'. auxtrace_heapify arr n q ord = Some arr' \<and> length arr' = length arr \<and> heap_order arr' (Suc n) \<and>
    mset (take (Suc n) arr') = add_mset \<lparr>queue_nr = q, ordinal = ord\<rparr> (mset (take n arr))"
proof -
  have "parent i \<noteq> n" if "0 < i" "i < Suc n" for i using parent_less [OF that(1)] that(2) by linarith
  then have "hole_order arr (Suc n) n ord"
    using assms(1) by (auto simp: hole_order_def heap_order_def less_Suc_eq)
  from auxtrace_heapify_spec [OF this _, of q] assms(2) obtain arr' where a:
    "auxtrace_heapify arr n q ord = Some arr'" "length arr' = length arr" "heap_order arr' (Suc n)"
    "add_mset (arr ! n) (mset (take (Suc n) arr')) = add_mset \<lparr>queue_nr = q, ordinal = ord\<rparr> (mset (take (Suc n) arr))"
    by auto
  have split: "mset (take (Suc n) arr) = add_mset (arr ! n) (mset (take n arr))"
    using assms(2) by (simp add: take_Suc_conv_app_nth)
  have "mset (take (Suc n) arr') = add_mset \<lparr>queue_nr = q, ordinal = ord\<rparr> (mset (take n arr))"
    using a(4) unfolding split by (metis add_mset_add_mset_same_iff add_mset_commute)
  with a show ?thesis by blast
qed

lemma auxtrace_heap__add_spec:
  assumes "heap_wf h" and "q \<notin># image_mset queue_nr (heap_items h)" and "unat q < 2 ^ 31"
  shows "\<exists>ret h'. auxtrace_heap__add fresh oom h q ord = Some (ret, h') \<and> heap_wf h' \<and>
    (ret = - ENOMEM \<and> h' = h \<and> heap_sz h \<le> unat q \<or>
     ret = 0 \<and> unat q < heap_sz h' \<and> heap_sz h \<le> heap_sz h' \<and>
       heap_items h' = add_mset \<lparr>queue_nr = q, ordinal = ord\<rparr> (heap_items h))"
proof -
  let ?n = "heap_cnt h" and ?x = "\<lparr>queue_nr = q, ordinal = ord\<rparr>"
  have q: "q \<notin> queue_nr ` set (take ?n (heap_array h))" using assms(2) by (simp add: heap_items_def)
  have put: "\<exists>arr'. auxtrace_heapify arr ?n q ord = Some arr' \<and>
      heap_wf \<lparr>heap_array = arr', heap_cnt = Suc ?n, heap_sz = sz\<rparr> \<and>
      mset (take (Suc ?n) arr') = add_mset ?x (heap_items h)"
    if arr: "length arr = sz" "unat q < sz" "sz \<le> 2 ^ 31" "heap_sz h \<le> sz" "take ?n arr = take ?n (heap_array h)"
    for arr sz
  proof -
    have n: "?n < sz" using heap_fits [OF assms(1) q arr(2,4)] .
    have "arr ! i = heap_array h ! i" if "i < ?n" for i using arr(5) that by (metis nth_take)
    moreover have "parent i < ?n" if "i < ?n" for i using that by auto
    ultimately have "heap_order arr ?n" using assms(1) by (simp add: heap_wf_def heap_order_def)
    from auxtrace_heapify_add [OF this, of q ord] n arr(1) obtain arr' where
      a: "auxtrace_heapify arr ?n q ord = Some arr'" "length arr' = sz" "heap_order arr' (Suc ?n)"
        "mset (take (Suc ?n) arr') = add_mset ?x (mset (take ?n arr))" by auto
    have "heap_wf \<lparr>heap_array = arr', heap_cnt = Suc ?n, heap_sz = sz\<rparr>"
      using assms(1) q arr a n
      by (intro heap_wfI [where its = "?x # take ?n arr"]) (auto simp: heap_wf_def)
    with a arr(5) show ?thesis by (auto simp: heap_items_def)
  qed
  show ?thesis
  proof (cases "unat q < heap_sz h")
    case True
    have "length (heap_array h) = heap_sz h" "heap_sz h \<le> 2 ^ 31" using assms(1) by (auto simp: heap_wf_def)
    from put [OF this(1) True this(2)] True show ?thesis
      by (auto simp: auxtrace_heap__add_def heap_items_def heap_wf_def)
  next
    case False
    obtain sz where sz: "heap_sz_loop 32 q = Some sz" "unat q < unat sz" "unat sz \<le> 2 ^ 31"
      using heap_sz_loop_total [OF assms(3), of 5] by auto
    show ?thesis
    proof (cases "realloc fresh oom (heap_array h) (unat sz)")
      case None
      with False sz assms(1) show ?thesis by (auto simp: auxtrace_heap__add_def)
    next
      case (Some arr)
      have len: "length (heap_array h) = heap_sz h" "heap_sz h \<le> unat sz" "?n \<le> heap_sz h"
        using assms(1) False sz(2) by (auto simp: heap_wf_def)
      from realloc_eq_Some [OF _ Some] len have arr: "length arr = unat sz" "take (heap_sz h) arr = heap_array h"
        by auto
      then have "take ?n arr = take ?n (heap_array h)" using len(3) by (metis min.absorb1 take_take)
      from put [OF arr(1) sz(2,3) len(2) this] Some sz False len show ?thesis
        by (auto simp: auxtrace_heap__add_def heap_items_def heap_wf_def)
    qed
  qed
qed

lemma heap_sz_loop_result:
  assumes "heap_sz_loop sz q = Some r"
  shows "q < r \<and> (\<exists>k. r = push_bit k sz)"
proof (rule heap_sz_loop.raw_induct [rotated, OF assms])
  fix loop :: "u32 \<Rightarrow> u32 \<Rightarrow> u32 option" and sz q r :: u32
  assume ih: "\<And>sz q r. loop sz q = Some r \<Longrightarrow> q < r \<and> (\<exists>k. r = push_bit k sz)"
    and step: "(if sz \<le> q then loop (push_bit 1 sz) q else Some sz) = Some r"
  show "q < r \<and> (\<exists>k. r = push_bit k sz)"
  proof (cases "sz \<le> q")
    case True
    then have "loop (push_bit 1 sz) q = Some r" using step by simp
    from ih [OF this] obtain k where "q < r" "r = push_bit (k + 1) sz" unfolding push_bit_push_bit by blast
    then show ?thesis by blast
  next
    case False
    then have "r = push_bit 0 sz" using step by simp
    moreover from this have "q < r" using False by (simp add: not_le)
    ultimately show ?thesis by blast
  qed
qed

lemma unat_single_bit_le: "unat (push_bit k 1 :: u32) \<le> 2 ^ 31"
proof (cases "k < 32")
  case True
  then have le: "(2 :: nat) ^ k \<le> 2 ^ 31" by (intro power_increasing) auto
  then have "unat (of_nat (2 ^ k) :: u32) = 2 ^ k" by (intro unat_of_nat_small) simp
  then show ?thesis using le unfolding push_bit_of_1 of_nat_power by simp
next
  case False
  then have "push_bit k 1 = (0 :: u32)" by (intro bit_word_eqI) (auto simp: bit_simps)
  then show ?thesis by (simp only:) simp
qed

text \<open>For larger numbers the size wraps to zero and the loop never ends.\<close>

lemma heap_sz_loop_diverges:
  assumes "2 ^ 31 \<le> unat q"
  shows "heap_sz_loop 32 q = None"
proof (cases "heap_sz_loop 32 q")
  case (Some r)
  then obtain k where "q < r" "r = push_bit k (push_bit 5 1)" using heap_sz_loop_result by fastforce
  then have "unat q < unat (push_bit (k + 5) 1 :: u32)" by (simp only: push_bit_push_bit word_less_nat_alt)
  with assms unat_single_bit_le [of "k + 5"] show ?thesis by linarith
qed

section \<open>What the decoders rely on\<close>

text \<open>
  A queue of items that are served by least time stamp. \<open>room\<close> says that the storage for an
  item of that queue exists already.
\<close>

locale min_heap =
  fixes inv :: "'h \<Rightarrow> bool" and items :: "'h \<Rightarrow> auxtrace_heap_item multiset"
    and top :: "'h \<Rightarrow> auxtrace_heap_item" and room :: "'h \<Rightarrow> u32 \<Rightarrow> bool"
    and add :: "'h \<Rightarrow> u32 \<Rightarrow> u64 \<Rightarrow> (int \<times> 'h) option" and pop :: "'h \<Rightarrow> 'h option"
  assumes once: "inv h \<Longrightarrow> items h = add_mset x m \<Longrightarrow> queue_nr x \<notin># image_mset queue_nr m"
    and has_room: "inv h \<Longrightarrow> x \<in># items h \<Longrightarrow> room h (queue_nr x)"
    and top_min: "inv h \<Longrightarrow> x \<in># items h \<Longrightarrow> ordinal (top h) \<le> ordinal x"
    and pop_top: "inv h \<Longrightarrow> items h \<noteq> {#} \<Longrightarrow>
      \<exists>h'. pop h = Some h' \<and> inv h' \<and> items h = add_mset (top h) (items h') \<and> (\<forall>q. room h q \<longrightarrow> room h' q)"
    and add_room: "inv h \<Longrightarrow> q \<notin># image_mset queue_nr (items h) \<Longrightarrow> room h q \<Longrightarrow>
      \<exists>h'. add h q ord = Some (0, h') \<and> inv h' \<and> items h' = add_mset \<lparr>queue_nr = q, ordinal = ord\<rparr> (items h) \<and>
        (\<forall>q. room h q \<longrightarrow> room h' q)"
begin

text \<open>
  Serving the top item: it is removed, and putting its queue back under a later time stamp
  cannot fail and leaves nothing in the queue that is earlier than the item served.
\<close>

lemma serve:
  assumes "inv h" and "items h \<noteq> {#}"
  shows "\<exists>h'. pop h = Some h' \<and> inv h' \<and> items h = add_mset (top h) (items h') \<and>
    (\<forall>x \<in># items h'. ordinal (top h) \<le> ordinal x) \<and>
    (\<forall>ts. \<exists>h''. add h' (queue_nr (top h)) ts = Some (0, h'') \<and> inv h'' \<and>
        items h'' = add_mset \<lparr>queue_nr = queue_nr (top h), ordinal = ts\<rparr> (items h'))"
proof -
  from pop_top [OF assms] obtain h' where h': "pop h = Some h'" "inv h'"
    "items h = add_mset (top h) (items h')" "\<forall>q. room h q \<longrightarrow> room h' q" by blast
  have min: "\<forall>x \<in># items h'. ordinal (top h) \<le> ordinal x"
    using top_min [OF assms(1)] h'(3) by auto
  have "queue_nr (top h) \<notin># image_mset queue_nr (items h')" using once [OF assms(1) h'(3)] .
  moreover have "room h' (queue_nr (top h))" using has_room [OF assms(1)] h'(3,4) by auto
  ultimately have "\<exists>h''. add h' (queue_nr (top h)) ts = Some (0, h'') \<and> inv h'' \<and>
      items h'' = add_mset \<lparr>queue_nr = queue_nr (top h), ordinal = ts\<rparr> (items h')" for ts
    using add_room [OF h'(2)] by blast
  with h' min show ?thesis by blast
qed

end

definition heap_top :: "auxtrace_heap \<Rightarrow> auxtrace_heap_item" where
  "heap_top h = heap_array h ! 0"

definition heap_room :: "auxtrace_heap \<Rightarrow> u32 \<Rightarrow> bool" where
  "heap_room h q \<longleftrightarrow> unat q < heap_sz h"

lemma heap_items_empty: "heap_wf h \<Longrightarrow> heap_items h = {#} \<longleftrightarrow> heap_cnt h = 0"
  by (auto simp: heap_items_def heap_wf_def)

interpretation aux_heap: min_heap heap_wf heap_items heap_top heap_room
  "auxtrace_heap__add fresh oom" auxtrace_heap__pop
  for fresh oom
proof unfold_locales
  fix h x m assume h: "heap_wf h" and m: "heap_items h = add_mset x m"
  obtain xs where "mset xs = m" using ex_mset by blast
  then have "mset (map queue_nr (take (heap_cnt h) (heap_array h))) = mset (map queue_nr (x # xs))"
    using m by (simp only: mset_map heap_items_def mset.simps)
  with h have "distinct (map queue_nr (x # xs))"
    unfolding heap_wf_def using mset_eq_imp_distinct_iff by blast
  with \<open>mset xs = m\<close> show "queue_nr x \<notin># image_mset queue_nr m" by auto
next
  fix h x assume "heap_wf h" "x \<in># heap_items h"
  then show "heap_room h (queue_nr x)" by (auto simp: heap_wf_def heap_items_def heap_room_def)
next
  fix h x assume "heap_wf h" "x \<in># heap_items h"
  then show "ordinal (heap_top h) \<le> ordinal x" using heap_top_min by (simp add: heap_top_def)
next
  fix h assume h: "heap_wf h" "heap_items h \<noteq> {#}"
  then have "heap_cnt h \<noteq> 0" using heap_items_empty by blast
  from auxtrace_heap__pop_spec [OF h(1) this]
  show "\<exists>h'. auxtrace_heap__pop h = Some h' \<and> heap_wf h' \<and> heap_items h = add_mset (heap_top h) (heap_items h') \<and>
      (\<forall>q. heap_room h q \<longrightarrow> heap_room h' q)"
    by (auto simp: heap_top_def heap_room_def)
next
  fix h q ord assume h: "heap_wf h" "q \<notin># image_mset queue_nr (heap_items h)" "heap_room h q"
  then have "unat q < 2 ^ 31" "\<not> heap_sz h \<le> unat q" by (auto simp: heap_room_def heap_wf_def)
  with auxtrace_heap__add_spec [OF h(1,2), of fresh oom ord]
  show "\<exists>h'. auxtrace_heap__add fresh oom h q ord = Some (0, h') \<and> heap_wf h' \<and>
      heap_items h' = add_mset \<lparr>queue_nr = q, ordinal = ord\<rparr> (heap_items h) \<and> (\<forall>q. heap_room h q \<longrightarrow> heap_room h' q)"
    by (auto simp: heap_room_def)
qed

section \<open>Properties\<close>

text \<open>
  C17. \<open>auxtrace_heap__pop\<close> removes the item with the least time stamp. On a well-formed heap
  it never accesses memory outside the array; the items left are those there were without the
  top item, which no other item precedes; the heap stays well formed.
\<close>

theorem auxtrace_heap_pop_refines:
  assumes "heap_wf h" and "heap_cnt h \<noteq> 0"
  shows "\<exists>h'. auxtrace_heap__pop h = Some h' \<and> heap_wf h' \<and>
    heap_items h = add_mset (heap_top h) (heap_items h') \<and>
    (\<forall>x \<in># heap_items h'. ordinal (heap_top h) \<le> ordinal x)"
proof -
  have "heap_items h \<noteq> {#}" using assms by (simp add: heap_items_empty)
  from aux_heap.serve [OF assms(1) this] show ?thesis by blast
qed

theorem auxtrace_heap_pop_refines_witness:
  "\<exists>h'. auxtrace_heap__pop \<lparr>heap_array = [\<lparr>queue_nr = 1, ordinal = 5\<rparr>, \<lparr>queue_nr = 0, ordinal = 9\<rparr>],
      heap_cnt = 2, heap_sz = 2\<rparr> = Some h' \<and> heap_wf h' \<and> heap_items h' = {#\<lparr>queue_nr = 0, ordinal = 9\<rparr>#}"
proof -
  let ?h = "\<lparr>heap_array = [\<lparr>queue_nr = 1, ordinal = 5\<rparr>, \<lparr>queue_nr = 0, ordinal = 9\<rparr>], heap_cnt = 2, heap_sz = 2\<rparr>"
  have "heap_order (heap_array ?h) 2" by (auto simp: heap_order_def less_2_cases_iff)
  then have "heap_wf ?h" by (simp add: heap_wf_def)
  from auxtrace_heap_pop_refines [OF this] show ?thesis by (auto simp: heap_items_def heap_top_def)
qed

text \<open>
  C18. \<open>auxtrace_heap__add\<close> for a queue that is not in the heap and whose number is below
  \<open>2 ^ 31\<close>: it returns \<open>-ENOMEM\<close> with the heap unchanged, which can only happen when the queue
  number is past the capacity, or 0 with the new item added. The heap stays well formed and
  no access leaves the array, although the array is sized by queue number, not by count.
\<close>

theorem auxtrace_heap_add_refines:
  assumes "heap_wf h" and "q \<notin># image_mset queue_nr (heap_items h)" and "unat q < 2 ^ 31"
  shows "\<exists>ret h'. auxtrace_heap__add fresh oom h q ord = Some (ret, h') \<and> heap_wf h' \<and>
    (ret = - ENOMEM \<and> h' = h \<and> heap_sz h \<le> unat q \<or>
     ret = 0 \<and> heap_items h' = add_mset \<lparr>queue_nr = q, ordinal = ord\<rparr> (heap_items h))"
  using auxtrace_heap__add_spec [OF assms, of fresh oom ord] by blast

theorem auxtrace_heap_add_refines_witness:
  "\<exists>ret h'. auxtrace_heap__add (\<lambda>_. \<lparr>queue_nr = 0, ordinal = 0\<rparr>) (\<lambda>_. False) heap_empty 3 7 = Some (ret, h') \<and>
    heap_wf h' \<and> (ret = - ENOMEM \<or> heap_items h' = {#\<lparr>queue_nr = 3, ordinal = 7\<rparr>#})"
  using auxtrace_heap_add_refines [OF heap_wf_empty(1), of 3 "\<lambda>_. \<lparr>queue_nr = 0, ordinal = 0\<rparr>" "\<lambda>_. False" 7]
  by (auto simp: heap_wf_empty)

text \<open>
  For a queue number of \<open>2 ^ 31\<close> or more that is past the capacity,
  \<open>auxtrace_heap__add\<close> does not return: doubling the 32-bit size never exceeds the number
  and stays at zero after it has wrapped around.
\<close>

theorem auxtrace_heap_add_diverges:
  assumes "heap_sz h \<le> unat q" and "2 ^ 31 \<le> unat q"
  shows "auxtrace_heap__add fresh oom h q ord = None"
  using assms by (simp add: auxtrace_heap__add_def heap_sz_loop_diverges)

theorem auxtrace_heap_add_diverges_witness:
  "auxtrace_heap__add (\<lambda>_. \<lparr>queue_nr = 0, ordinal = 0\<rparr>) (\<lambda>_. False) heap_empty 0x80000000 7 = None"
  by (rule auxtrace_heap_add_diverges) (simp_all add: heap_empty_def)

end
