(* ===== verification/Process_Queues.thy ===== *)
theory Process_Queues
  imports Auxtrace_Heap
begin

text \<open>
  The loops that run the trace decoders in time order, \<open>intel_pt_process_queues\<close> of
  \<open>util/intel-pt.c\<close> and \<open>intel_bts_process_queues\<close> of \<open>util/intel-bts.c\<close>. Both take the
  earliest queue off the heap, let its decoder run, and put the queue back under the time the
  decoder reached. The decoder is a parameter: \<open>run d ts\<close> is the return code, the time stamp
  left in \<open>ts\<close>, and the new decoder state.
\<close>

section \<open>Queues and their decoders\<close>

record 'd decoder_queue =
  on_heap :: bool
  decoder :: 'd

record 'd decoder_queues =
  dq_heap :: auxtrace_heap
  dq_queues :: "'d decoder_queue list"

type_synonym 'd run_fn = "'d \<Rightarrow> u64 \<Rightarrow> int \<times> u64 \<times> 'd"

text \<open>
  The two loops differ in the test that ends them (\<open>stop\<close>: with or without equality) and in
  the time up to which a decoder may run (\<open>until\<close>); everything else is the same code.
\<close>

partial_function (option) process_queues ::
  "(u64 \<Rightarrow> u64 \<Rightarrow> bool) \<Rightarrow> (auxtrace_heap \<Rightarrow> u64 \<Rightarrow> u64 option) \<Rightarrow>
   (nat \<Rightarrow> auxtrace_heap_item) \<Rightarrow> (nat \<Rightarrow> bool) \<Rightarrow> 'd run_fn \<Rightarrow> 'd decoder_queues \<Rightarrow> u64 \<Rightarrow>
   (int \<times> 'd decoder_queues) option"
where
  "process_queues stop until fresh oom run pt timestamp =
     (let heap = dq_heap pt in
      if heap_cnt heap = 0 then Some (0, pt)
      else do {
        it \<leftarrow> rd (heap_array heap) 0;
        if stop (ordinal it) timestamp then Some (0, pt)
        else do {
          let q = queue_nr it;
          ptq \<leftarrow> rd (dq_queues pt) (unat q);
          heap \<leftarrow> auxtrace_heap__pop heap;
          ts \<leftarrow> until heap timestamp;
          let (ret, ts, d) = run (decoder ptq) ts;
          let ptq = ptq\<lparr>decoder := d\<rparr>;
          if ret < 0 then do {
            (_, heap) \<leftarrow> auxtrace_heap__add fresh oom heap q ts;
            Some (ret, pt\<lparr>dq_heap := heap, dq_queues := (dq_queues pt)[unat q := ptq]\<rparr>)
          } else if ret = 0 then do {
            (ret, heap) \<leftarrow> auxtrace_heap__add fresh oom heap q ts;
            let pt = pt\<lparr>dq_heap := heap, dq_queues := (dq_queues pt)[unat q := ptq]\<rparr>;
            if ret < 0 then Some (ret, pt) else process_queues stop until fresh oom run pt timestamp
          } else
            process_queues stop until fresh oom run
              (pt\<lparr>dq_heap := heap, dq_queues := (dq_queues pt)[unat q := ptq\<lparr>on_heap := False\<rparr>]\<rparr>) timestamp
        }
      })"

text \<open>How far a decoder may run: just past the next queue's time, and not past the target.\<close>

definition run_until :: "auxtrace_heap \<Rightarrow> u64 \<Rightarrow> u64 option" where
  "run_until heap timestamp =
     (if heap_cnt heap \<noteq> 0 then do {
        it \<leftarrow> rd (heap_array heap) 0;
        let ts = ordinal it + 1;
        Some (if ts > timestamp then timestamp else ts)
      } else Some timestamp)"

definition intel_pt_process_queues ::
  "(nat \<Rightarrow> auxtrace_heap_item) \<Rightarrow> (nat \<Rightarrow> bool) \<Rightarrow> 'd run_fn \<Rightarrow> 'd decoder_queues \<Rightarrow> u64 \<Rightarrow>
   (int \<times> 'd decoder_queues) option"
where
  "intel_pt_process_queues = process_queues (\<lambda>ord timestamp. ord \<ge> timestamp) run_until"

definition intel_bts_process_queues ::
  "(nat \<Rightarrow> auxtrace_heap_item) \<Rightarrow> (nat \<Rightarrow> bool) \<Rightarrow> 'd run_fn \<Rightarrow> 'd decoder_queues \<Rightarrow> u64 \<Rightarrow>
   (int \<times> 'd decoder_queues) option"
where
  "intel_bts_process_queues = process_queues (\<lambda>ord timestamp. ord > timestamp) (\<lambda>heap timestamp. Some 0)"

section \<open>Invariant\<close>

text \<open>
  The heap is well formed, refers to existing queues, and contains exactly the queues marked
  \<open>on_heap\<close>.
\<close>

definition dq_wf :: "'d decoder_queues \<Rightarrow> bool" where
  "dq_wf pt \<longleftrightarrow> heap_wf (dq_heap pt) \<and>
     (\<forall>it \<in># heap_items (dq_heap pt). unat (queue_nr it) < length (dq_queues pt)) \<and>
     (\<forall>i < length (dq_queues pt). on_heap (dq_queues pt ! i) \<longleftrightarrow>
        (\<exists>it \<in># heap_items (dq_heap pt). unat (queue_nr it) = i))"

text \<open>Every run that does not finish the queue leaves its decoder with less to do.\<close>

definition progress :: "('d \<Rightarrow> nat) \<Rightarrow> 'd run_fn \<Rightarrow> bool" where
  "progress work run \<longleftrightarrow> (\<forall>d ts ret ts' d'. run d ts = (ret, ts', d') \<longrightarrow> ret = 0 \<longrightarrow> work d' < work d)"

definition total_work :: "('d \<Rightarrow> nat) \<Rightarrow> 'd decoder_queues \<Rightarrow> nat" where
  "total_work work pt = sum_list (map (\<lambda>q. if on_heap q then Suc (work (decoder q)) else 0) (dq_queues pt))"

lemma sum_list_update_less:
  fixes f :: "'a \<Rightarrow> nat"
  assumes "i < length xs" and "f x < f (xs ! i)"
  shows "sum_list (map f (xs[i := x])) < sum_list (map f xs)"
proof -
  have "sum_list (map f xs) = f (xs ! i) + (sum_list (map f xs) - f (xs ! i))"
    using assms(1) by (metis elem_le_sum_list le_add_diff_inverse length_map nth_map)
  moreover have "sum_list (map f (xs[i := x])) = sum_list (map f xs) + f x - f (xs ! i)"
    using assms(1) by (simp add: map_update sum_list_update)
  ultimately show ?thesis using assms(2) by linarith
qed

text \<open>
  One round, whatever the decoder: the queue at the top exists, and after its decoder has run
  the invariant holds again, with the queue put back or marked as finished.
\<close>

lemma dq_round:
  assumes "dq_wf pt" and "heap_cnt (dq_heap pt) \<noteq> 0"
  obtains it ptq heap where "rd (heap_array (dq_heap pt)) 0 = Some it" and "it = heap_top (dq_heap pt)"
    and "rd (dq_queues pt) (unat (queue_nr it)) = Some ptq" and "on_heap ptq"
    and "auxtrace_heap__pop (dq_heap pt) = Some heap" and "heap_wf heap"
    and "\<forall>d. dq_wf (pt\<lparr>dq_heap := heap, dq_queues := (dq_queues pt)[unat (queue_nr it) := ptq\<lparr>decoder := d, on_heap := False\<rparr>]\<rparr>)"
    and "\<forall>ts. \<exists>heap'. auxtrace_heap__add fresh oom heap (queue_nr it) ts = Some (0, heap') \<and>
      (\<forall>d. dq_wf (pt\<lparr>dq_heap := heap', dq_queues := (dq_queues pt)[unat (queue_nr it) := ptq\<lparr>decoder := d\<rparr>]\<rparr>))"
proof -
  let ?h = "dq_heap pt" and ?it = "heap_top (dq_heap pt)" and ?qs = "dq_queues pt"
  have wf: "heap_wf ?h" using assms(1) by (simp add: dq_wf_def)
  with assms(2) have ne: "heap_items ?h \<noteq> {#}" by (simp add: heap_items_empty [OF wf])
  obtain heap where h: "auxtrace_heap__pop ?h = Some heap" "heap_wf heap"
      "heap_items ?h = add_mset ?it (heap_items heap)"
      "\<forall>ts. \<exists>h''. auxtrace_heap__add fresh oom heap (queue_nr ?it) ts = Some (0, h'') \<and> heap_wf h'' \<and>
        heap_items h'' = add_mset \<lparr>queue_nr = queue_nr ?it, ordinal = ts\<rparr> (heap_items heap)"
    using aux_heap.serve [OF wf ne, of fresh oom] by blast
  have once: "queue_nr ?it \<notin># image_mset queue_nr (heap_items heap)" using aux_heap.once [OF wf h(3)] .
  have q: "unat (queue_nr ?it) < length ?qs" "on_heap (?qs ! unat (queue_nr ?it))"
    using assms(1) h(3) by (auto simp: dq_wf_def)
  have rd: "rd (heap_array ?h) 0 = Some ?it" using wf assms(2) by (cases "heap_array ?h") (auto simp: heap_top_def heap_wf_def)
  have other: "unat (queue_nr x) \<noteq> unat (queue_nr ?it)" if "x \<in># heap_items heap" for x
    using once that by (auto simp: image_iff dest!: word_unat_eq_iff [THEN iffD2])
  have put: "dq_wf (pt\<lparr>dq_heap := h', dq_queues := ?qs[unat (queue_nr ?it) := q']\<rparr>)"
    if "heap_wf h'" "on_heap q'" "heap_items h' = add_mset \<lparr>queue_nr = queue_nr ?it, ordinal = ts\<rparr> (heap_items heap)"
    for h' q' ts
    using assms(1) that q h(3) by (auto simp: dq_wf_def nth_list_update)
  have gone: "dq_wf (pt\<lparr>dq_heap := heap, dq_queues := ?qs[unat (queue_nr ?it) := q']\<rparr>)" if "\<not> on_heap q'" for q'
    using assms(1) that h(2,3) other q by (auto simp: dq_wf_def nth_list_update)
  have all_put: "\<exists>heap'. auxtrace_heap__add fresh oom heap (queue_nr ?it) ts = Some (0, heap') \<and>
      (\<forall>d. dq_wf (pt\<lparr>dq_heap := heap', dq_queues := ?qs[unat (queue_nr ?it) := (?qs ! unat (queue_nr ?it))\<lparr>decoder := d\<rparr>]\<rparr>))"
    for ts
  proof -
    from h(4) obtain h' where h': "auxtrace_heap__add fresh oom heap (queue_nr ?it) ts = Some (0, h')" "heap_wf h'"
      "heap_items h' = add_mset \<lparr>queue_nr = queue_nr ?it, ordinal = ts\<rparr> (heap_items heap)" by blast
    then show ?thesis using put [OF h'(2) _ h'(3)] q(2) by simp
  qed
  show ?thesis
    by (rule that [OF rd refl rd_in [OF q(1)] q(2) h(1,2)]) (use gone all_put in auto)
qed

lemma total_work_less:
  assumes "rd (dq_queues pt) k = Some ptq" and "on_heap ptq" and "on_heap q' \<Longrightarrow> work (decoder q') < work (decoder ptq)"
  shows "total_work work (pt\<lparr>dq_heap := h, dq_queues := (dq_queues pt)[k := q']\<rparr>) < total_work work pt"
  using assms unfolding total_work_def by (auto simp: rd_eq_Some intro!: sum_list_update_less)

lemma process_queues_top:
  assumes "heap_wf h" and "heap_cnt h \<noteq> 0" and "rd (heap_array h) 0 = Some it" and "x \<in># heap_items h"
  shows "ordinal it \<le> ordinal x"
  using heap_top_min [OF assms(1,4)] assms(3) by (simp add: rd_eq_Some)

lemma run_until_total: "heap_wf heap \<Longrightarrow> \<exists>ts. run_until heap timestamp = Some ts"
  by (cases "heap_array heap") (auto simp: run_until_def heap_wf_def Let_def)

lemma process_queues_total:
  assumes "dq_wf pt" and "progress work run"
    and until: "\<And>heap. heap_wf heap \<Longrightarrow> \<exists>ts. until heap timestamp = Some ts"
    and stop: "\<And>a b. stop a timestamp \<Longrightarrow> a \<le> b \<Longrightarrow> stop b timestamp"
  shows "\<exists>ret pt'. process_queues stop until fresh oom run pt timestamp = Some (ret, pt') \<and> dq_wf pt' \<and>
    ret \<le> 0 \<and> (ret = 0 \<longrightarrow> (\<forall>it \<in># heap_items (dq_heap pt'). stop (ordinal it) timestamp))"
  using assms(1)
proof (induction "total_work work pt" arbitrary: pt rule: less_induct)
  case less
  note unfold = process_queues.simps [of stop until fresh oom run pt timestamp]
  have wf: "heap_wf (dq_heap pt)" using less.prems by (simp add: dq_wf_def)
  show ?case
  proof (cases "heap_cnt (dq_heap pt) = 0")
    case True
    then show ?thesis using less.prems heap_items_empty [OF wf] unfolding unfold by simp
  next
    case False
    obtain it ptq heap where r: "rd (heap_array (dq_heap pt)) 0 = Some it" "it = heap_top (dq_heap pt)"
      "rd (dq_queues pt) (unat (queue_nr it)) = Some ptq" "on_heap ptq"
      "auxtrace_heap__pop (dq_heap pt) = Some heap" "heap_wf heap"
      and gone: "\<forall>d. dq_wf (pt\<lparr>dq_heap := heap, dq_queues := (dq_queues pt)[unat (queue_nr it) := ptq\<lparr>decoder := d, on_heap := False\<rparr>]\<rparr>)"
      and put: "\<forall>ts. \<exists>heap'. auxtrace_heap__add fresh oom heap (queue_nr it) ts = Some (0, heap') \<and>
        (\<forall>d. dq_wf (pt\<lparr>dq_heap := heap', dq_queues := (dq_queues pt)[unat (queue_nr it) := ptq\<lparr>decoder := d\<rparr>]\<rparr>))"
      using dq_round [OF less.prems False, of fresh oom] by blast
    show ?thesis
    proof (cases "stop (ordinal it) timestamp")
      case True
      then have "\<forall>x \<in># heap_items (dq_heap pt). stop (ordinal x) timestamp"
        using process_queues_top [OF wf False r(1)] stop by blast
      then show ?thesis using False True r(1) less.prems unfolding unfold by simp
    next
      case earlier: False
      obtain ts where ts: "until heap timestamp = Some ts" using until [OF r(6)] by blast
      obtain ret ts' d where run: "run (decoder ptq) ts = (ret, ts', d)" by (metis prod_cases3)
      obtain heap' where h': "auxtrace_heap__add fresh oom heap (queue_nr it) ts' = Some (0, heap')"
        "\<And>d. dq_wf (pt\<lparr>dq_heap := heap', dq_queues := (dq_queues pt)[unat (queue_nr it) := ptq\<lparr>decoder := d\<rparr>]\<rparr>)"
        using put by blast
      note go = r(1,3,5) ts run h'(1) Let_def
      consider "ret < 0" | "ret = 0" | "ret > 0" by linarith
      then show ?thesis
      proof cases
        case 1
        then show ?thesis using False earlier h'(2) unfolding unfold by (simp add: go)
      next
        case 2
        let ?pt = "pt\<lparr>dq_heap := heap', dq_queues := (dq_queues pt)[unat (queue_nr it) := ptq\<lparr>decoder := d\<rparr>]\<rparr>"
        have "total_work work ?pt < total_work work pt"
          using assms(2) run 2 r(3,4) by (intro total_work_less) (auto simp: progress_def)
        from less.hyps [OF this h'(2)] show ?thesis
          using 2 False earlier unfolding unfold by (simp add: go)
      next
        case 3
        let ?pt = "pt\<lparr>dq_heap := heap, dq_queues := (dq_queues pt)[unat (queue_nr it) := ptq\<lparr>decoder := d, on_heap := False\<rparr>]\<rparr>"
        have "total_work work ?pt < total_work work pt" using r(3,4) by (intro total_work_less) auto
        from less.hyps [OF this gone [rule_format]] show ?thesis
          using 3 False earlier unfolding unfold by (simp add: go)
      qed
    qed
  qed
qed


section \<open>Properties\<close>

text \<open>
  C19. With decoders that have less left to do after every unfinished run,
  \<open>intel_pt_process_queues\<close> and \<open>intel_bts_process_queues\<close> return, without accessing the heap
  or the queue array out of bounds and without a heap operation that fails. The heap is well
  formed again and holds exactly the queues marked \<open>on_heap\<close>; when the result is 0, no queue
  on the heap has a time stamp before (for BTS: at or before) the target.
\<close>

theorem process_queues_complete:
  assumes "dq_wf pt" and "progress work run"
  shows "(\<exists>ret pt'. intel_pt_process_queues fresh oom run pt timestamp = Some (ret, pt') \<and> dq_wf pt' \<and> ret \<le> 0 \<and>
      (ret = 0 \<longrightarrow> (\<forall>it \<in># heap_items (dq_heap pt'). timestamp \<le> ordinal it))) \<and>
    (\<exists>ret pt'. intel_bts_process_queues fresh oom run pt timestamp = Some (ret, pt') \<and> dq_wf pt' \<and> ret \<le> 0 \<and>
      (ret = 0 \<longrightarrow> (\<forall>it \<in># heap_items (dq_heap pt'). timestamp < ordinal it)))"
proof
  show "\<exists>ret pt'. intel_pt_process_queues fresh oom run pt timestamp = Some (ret, pt') \<and> dq_wf pt' \<and> ret \<le> 0 \<and>
      (ret = 0 \<longrightarrow> (\<forall>it \<in># heap_items (dq_heap pt'). timestamp \<le> ordinal it))"
    unfolding intel_pt_process_queues_def
    by (rule process_queues_total [OF assms]) (auto intro: run_until_total)
  show "\<exists>ret pt'. intel_bts_process_queues fresh oom run pt timestamp = Some (ret, pt') \<and> dq_wf pt' \<and> ret \<le> 0 \<and>
      (ret = 0 \<longrightarrow> (\<forall>it \<in># heap_items (dq_heap pt'). timestamp < ordinal it))"
    unfolding intel_bts_process_queues_def
    by (rule process_queues_total [OF assms]) auto
qed

text \<open>A decoder that steps ten time units at a time until nothing is left.\<close>

definition countdown :: "nat run_fn" where
  "countdown n ts = (if n = 0 then (1, ts, 0) else (0, ts + 10, n - 1))"

theorem process_queues_complete_witness:
  "\<exists>ret pt'. intel_pt_process_queues (\<lambda>_. \<lparr>queue_nr = 0, ordinal = 0\<rparr>) (\<lambda>_. False) countdown
      \<lparr>dq_heap = \<lparr>heap_array = [\<lparr>queue_nr = 0, ordinal = 5\<rparr>], heap_cnt = 1, heap_sz = 1\<rparr>,
       dq_queues = [\<lparr>on_heap = True, decoder = 4\<rparr>]\<rparr> 100 = Some (ret, pt') \<and> dq_wf pt' \<and> ret \<le> 0"
proof -
  let ?pt = "\<lparr>dq_heap = \<lparr>heap_array = [\<lparr>queue_nr = 0, ordinal = 5\<rparr>], heap_cnt = 1, heap_sz = 1\<rparr>,
       dq_queues = [\<lparr>on_heap = True, decoder = (4 :: nat)\<rparr>]\<rparr>"
  have "progress id countdown" by (auto simp: progress_def countdown_def split: if_splits)
  moreover have "dq_wf ?pt"
    by (auto simp: dq_wf_def heap_wf_def heap_items_def heap_order_def)
  ultimately show ?thesis
    using process_queues_complete [of ?pt id countdown] by blast
qed

end
