(* ===== verification/Auxtrace_Queues.thy ===== *)
theory Auxtrace_Queues
  imports Auxtrace_Heap
begin

text \<open>
  The queues of AUX area trace buffers (\<open>auxtrace_queues__*\<close> and \<open>auxtrace_buffer__*\<close> of
  \<open>util/auxtrace.c\<close>): an array of queues indexed by the \<open>idx\<close> of the trace events, which grows
  by doubling, and for each queue the list of its buffers. Pointers are 64-bit words, 0 for
  \<open>NULL\<close>; the array pointed to by \<open>queue_array\<close> is the list of its elements.
\<close>

section \<open>State\<close>

record auxtrace_buffer =
  ab_size :: u64
  ab_pid :: int
  ab_tid :: int
  ab_cpu :: int
  ab_data :: u64
  ab_data_offset :: u64
  ab_mmap_addr :: u64
  ab_mmap_size :: u64
  ab_data_needs_freeing :: bool
  ab_consecutive :: bool
  ab_offset :: u64
  ab_reference :: u64
  ab_buffer_nr :: u64
  ab_use_size :: u64
  ab_use_data :: u64

record auxtrace_queue =
  aq_head :: "auxtrace_buffer list"
  aq_tid :: int
  aq_cpu :: int
  aq_set :: bool
  aq_priv :: u64

record auxtrace_queues =
  queue_array :: "auxtrace_queue list"
  nr_queues :: u32
  new_data :: bool
  populated :: bool
  next_buffer_nr :: u64

text \<open>Which allocations fail: of an array of that many queues, of a copy of that buffer.\<close>

record aux_env =
  oom_queues :: "nat \<Rightarrow> bool"
  oom_buffer :: "u64 \<Rightarrow> bool"

text \<open>What the queues use of the session: the CPU filter, how trace data is accessed, and for a
  pipe the address \<open>malloc\<close> gives for a size (0 when it fails) and the result of \<open>readn\<close>.\<close>

record aux_session =
  cpu_bitmap :: "bool list option"
  one_mmap :: bool
  one_mmap_offset :: u64
  one_mmap_addr :: u64
  is_pipe :: bool
  pipe_malloc :: "u64 \<Rightarrow> u64"
  pipe_readn :: "u64 \<Rightarrow> int"

section \<open>Operations on the array of queues\<close>

abbreviation (input) SIZEOF_AUXTRACE_QUEUE :: nat where
  "SIZEOF_AUXTRACE_QUEUE \<equiv> 40"

definition empty_queue :: auxtrace_queue where
  "empty_queue = \<lparr>aq_head = [], aq_tid = 0, aq_cpu = 0, aq_set = False, aq_priv = 0\<rparr>"

definition auxtrace_alloc_queue_array :: "aux_env \<Rightarrow> u32 \<Rightarrow> auxtrace_queue list option" where
  "auxtrace_alloc_queue_array env nr =
     (let max_nr_queues = (2 ^ 32 - 1) div SIZEOF_AUXTRACE_QUEUE in
      if unat nr > max_nr_queues then None
      else if oom_queues env (unat nr) then None
      else Some (replicate (unat nr) empty_queue))"

definition auxtrace_queues__init :: "aux_env \<Rightarrow> auxtrace_queues \<Rightarrow> int \<times> auxtrace_queues" where
  "auxtrace_queues__init env queues =
     (let queues = queues\<lparr>nr_queues := of_nat AUXTRACE_INIT_NR_QUEUES\<rparr> in
      case auxtrace_alloc_queue_array env (nr_queues queues) of
        None \<Rightarrow> (- ENOMEM, queues\<lparr>queue_array := []\<rparr>)
      | Some arr \<Rightarrow> (0, queues\<lparr>queue_array := arr\<rparr>))"

text \<open>\<open>while (nr_queues && nr_queues < new_nr_queues) nr_queues <<= 1;\<close>\<close>

partial_function (option) nr_queues_loop :: "u32 \<Rightarrow> u32 \<Rightarrow> u32 option" where
  "nr_queues_loop nr new_nr =
     (if nr \<noteq> 0 \<and> nr < new_nr then nr_queues_loop (push_bit 1 nr) new_nr else Some nr)"

text \<open>The loop that moves the first \<open>n\<close> queues to the new array.\<close>

primrec move_queues :: "nat \<Rightarrow> auxtrace_queue list \<Rightarrow> auxtrace_queue list \<Rightarrow> auxtrace_queue list option" where
  "move_queues 0 old new = Some new"
| "move_queues (Suc i) old new = do {
     new \<leftarrow> move_queues i old new;
     o_q \<leftarrow> rd old i;
     n_q \<leftarrow> rd new i;
     wr new i (n_q\<lparr>aq_head := aq_head n_q @ aq_head o_q, aq_tid := aq_tid o_q, aq_cpu := aq_cpu o_q,
                   aq_set := aq_set o_q, aq_priv := aq_priv o_q\<rparr>)
   }"

definition auxtrace_queues__grow :: "aux_env \<Rightarrow> auxtrace_queues \<Rightarrow> u32 \<Rightarrow> (int \<times> auxtrace_queues) option" where
  "auxtrace_queues__grow env queues new_nr_queues = do {
     let nr = (if nr_queues queues = 0 then of_nat AUXTRACE_INIT_NR_QUEUES else nr_queues queues);
     nr \<leftarrow> nr_queues_loop nr new_nr_queues;
     if nr < nr_queues queues \<or> nr < new_nr_queues then Some (- EINVAL, queues)
     else case auxtrace_alloc_queue_array env nr of
       None \<Rightarrow> Some (- ENOMEM, queues)
     | Some arr \<Rightarrow> do {
         arr \<leftarrow> move_queues (unat (nr_queues queues)) (queue_array queues) arr;
         Some (0, queues\<lparr>nr_queues := nr, queue_array := arr\<rparr>)
       }
   }"

section \<open>Operations on buffers\<close>

abbreviation (input) SSIZE_MAX :: u64 where
  "SSIZE_MAX \<equiv> 0x7fffffffffffffff"

definition auxtrace_copy_data :: "aux_session \<Rightarrow> u64 \<Rightarrow> u64" where
  "auxtrace_copy_data session sz =
     (if sz > SSIZE_MAX then 0
      else
        let p = pipe_malloc session sz in
        if p = 0 then 0 else if pipe_readn session sz \<noteq> sint sz then 0 else p)"

definition auxtrace_queues__queue_buffer ::
  "aux_env \<Rightarrow> auxtrace_queues \<Rightarrow> u32 \<Rightarrow> auxtrace_buffer \<Rightarrow> (int \<times> auxtrace_queues) option"
where
  "auxtrace_queues__queue_buffer env queues idx buffer = do {
     (err, queues) \<leftarrow>
       (if idx \<ge> nr_queues queues then auxtrace_queues__grow env queues (idx + 1) else Some (0, queues));
     if err \<noteq> 0 then Some (err, queues)
     else do {
       queue \<leftarrow> rd (queue_array queues) (unat idx);
       if aq_set queue \<and> (ab_cpu buffer \<noteq> aq_cpu queue \<or> ab_tid buffer \<noteq> aq_tid queue)
       then Some (- EINVAL, queues)
       else do {
         let queue = (if aq_set queue then queue
           else queue\<lparr>aq_set := True, aq_tid := ab_tid buffer, aq_cpu := ab_cpu buffer\<rparr>);
         let buffer = buffer\<lparr>ab_buffer_nr := next_buffer_nr queues\<rparr>;
         let queue = queue\<lparr>aq_head := aq_head queue @ [buffer]\<rparr>;
         arr \<leftarrow> wr (queue_array queues) (unat idx) queue;
         Some (0, queues\<lparr>queue_array := arr, next_buffer_nr := next_buffer_nr queues + 1,
                         new_data := True, populated := True\<rparr>)
       }
     }
   }"

abbreviation (input) BUFFER_LIMIT_FOR_32_BIT :: u64 where
  "BUFFER_LIMIT_FOR_32_BIT \<equiv> 33554432"

text \<open>The loop of \<open>auxtrace_queues__split_buffer\<close>; the buffer the caller keeps is returned.\<close>

function split_loop ::
  "aux_env \<Rightarrow> auxtrace_queues \<Rightarrow> u32 \<Rightarrow> auxtrace_buffer \<Rightarrow> u64 \<Rightarrow> bool \<Rightarrow>
   (int \<times> auxtrace_queues \<times> auxtrace_buffer) option"
where
  "split_loop env queues idx buffer sz consecutive =
     (if sz > BUFFER_LIMIT_FOR_32_BIT then
        if oom_buffer env (next_buffer_nr queues) then Some (- ENOMEM, queues, buffer)
        else do {
          let b = buffer\<lparr>ab_size := BUFFER_LIMIT_FOR_32_BIT, ab_consecutive := consecutive\<rparr>;
          (err, queues) \<leftarrow> auxtrace_queues__queue_buffer env queues idx b;
          if err \<noteq> 0 then Some (err, queues, buffer)
          else split_loop env queues idx
            (buffer\<lparr>ab_data_offset := ab_data_offset buffer + BUFFER_LIMIT_FOR_32_BIT\<rparr>)
            (sz - BUFFER_LIMIT_FOR_32_BIT) True
        }
      else Some (0, queues, buffer\<lparr>ab_size := sz, ab_consecutive := consecutive\<rparr>))"
  by pat_completeness auto
termination
proof (relation "measure (\<lambda>(env, queues, idx, buffer, sz, consecutive). unat sz)")
  fix sz :: u64 assume "33554432 < sz"
  then have "sz - 33554432 < sz" by (simp add: word_less_nat_alt unat_sub_if' word_le_nat_alt)
  then show "((env, q', idx, b', sz - 33554432, True), env, queues, idx, buffer, sz, consecutive)
      \<in> measure (\<lambda>(env, queues, idx, buffer, sz, consecutive). unat sz)"
    for env :: aux_env and q' queues :: auxtrace_queues and idx :: u32 and b' buffer :: auxtrace_buffer and consecutive
    by (simp add: word_less_nat_alt)
qed simp

definition auxtrace_queues__split_buffer ::
  "aux_env \<Rightarrow> auxtrace_queues \<Rightarrow> u32 \<Rightarrow> auxtrace_buffer \<Rightarrow> (int \<times> auxtrace_queues \<times> auxtrace_buffer) option"
where
  "auxtrace_queues__split_buffer env queues idx buffer =
     split_loop env queues idx buffer (ab_size buffer) False"

text \<open>\<open>test_bit\<close> reads the bitmap at the CPU number as an unsigned long.\<close>

definition filter_cpu :: "aux_session \<Rightarrow> int \<Rightarrow> bool option" where
  "filter_cpu session cpu =
     (case cpu_bitmap session of
        None \<Rightarrow> Some False
      | Some bitmap \<Rightarrow>
          if cpu = - 1 then Some False
          else do {
            b \<leftarrow> rd bitmap (nat (cpu mod 2 ^ 64));
            Some (\<not> b)
          })"

definition auxtrace_queues__add_buffer ::
  "nat \<Rightarrow> aux_env \<Rightarrow> aux_session \<Rightarrow> auxtrace_queues \<Rightarrow> u32 \<Rightarrow> auxtrace_buffer \<Rightarrow> (int \<times> auxtrace_queues) option"
where
  "auxtrace_queues__add_buffer bits_per_long env session queues idx buffer = do {
     filtered \<leftarrow> filter_cpu session (ab_cpu buffer);
     if filtered then Some (0, queues)
     else if oom_buffer env (next_buffer_nr queues) then Some (- ENOMEM, queues)
     else do {
       (err, queues, buffer) \<leftarrow>
         (if one_mmap session then
            Some (0, queues,
              buffer\<lparr>ab_data := ab_data_offset buffer - one_mmap_offset session + one_mmap_addr session\<rparr>)
          else if is_pipe session then
            (if auxtrace_copy_data session (ab_size buffer) = 0 then Some (- ENOMEM, queues, buffer)
             else Some (0, queues, buffer\<lparr>ab_data := auxtrace_copy_data session (ab_size buffer),
                                          ab_data_needs_freeing := True\<rparr>))
          else if bits_per_long = 32 \<and> ab_size buffer > BUFFER_LIMIT_FOR_32_BIT then
            auxtrace_queues__split_buffer env queues idx buffer
          else Some (0, queues, buffer));
       if err \<noteq> 0 then Some (err, queues)
       else auxtrace_queues__queue_buffer env queues idx buffer
     }
   }"

text \<open>The fields of \<open>struct auxtrace_event\<close> the queues use.\<close>

record auxtrace_event =
  ev_size :: u64
  ev_offset :: u64
  ev_reference :: u64
  ev_idx :: u32
  ev_tid :: int
  ev_cpu :: int

definition auxtrace_queues__add_event ::
  "nat \<Rightarrow> aux_env \<Rightarrow> aux_session \<Rightarrow> auxtrace_queues \<Rightarrow> auxtrace_event \<Rightarrow> u64 \<Rightarrow> (int \<times> auxtrace_queues) option"
where
  "auxtrace_queues__add_event bits_per_long env session queues event data_offset =
     auxtrace_queues__add_buffer bits_per_long env session queues (ev_idx event)
       \<lparr>ab_size = ev_size event, ab_pid = - 1, ab_tid = ev_tid event, ab_cpu = ev_cpu event, ab_data = 0,
        ab_data_offset = data_offset, ab_mmap_addr = 0, ab_mmap_size = 0, ab_data_needs_freeing = False,
        ab_consecutive = False, ab_offset = ev_offset event, ab_reference = ev_reference event,
        ab_buffer_nr = 0, ab_use_size = 0, ab_use_data = 0\<rparr>"

text \<open>\<open>auxtrace_queues__free\<close> reads every queue of the array before it frees it.\<close>

primrec free_loop :: "nat \<Rightarrow> auxtrace_queue list \<Rightarrow> unit option" where
  "free_loop 0 arr = Some ()"
| "free_loop (Suc i) arr = do { _ \<leftarrow> free_loop i arr; _ \<leftarrow> rd arr i; Some () }"

definition auxtrace_queues__free :: "auxtrace_queues \<Rightarrow> auxtrace_queues option" where
  "auxtrace_queues__free queues = do {
     _ \<leftarrow> free_loop (unat (nr_queues queues)) (queue_array queues);
     Some (queues\<lparr>queue_array := [], nr_queues := 0\<rparr>)
   }"

text \<open>The buffer after the given position of a queue's list, or the first.\<close>

definition auxtrace_buffer__next :: "auxtrace_queue \<Rightarrow> nat option \<Rightarrow> nat option" where
  "auxtrace_buffer__next queue buffer =
     (case buffer of
        Some i \<Rightarrow> if i + 1 = length (aq_head queue) then None else Some (i + 1)
      | None \<Rightarrow> if aq_head queue = [] then None else Some 0)"

text \<open>\<open>mmap\<close> is a parameter: the address of the mapping of that many bytes at that offset, or \<open>None\<close> for \<open>MAP_FAILED\<close>.\<close>

definition auxtrace_buffer__get_data ::
  "u64 \<Rightarrow> (u64 \<Rightarrow> u64 \<Rightarrow> u64 option) \<Rightarrow> auxtrace_buffer \<Rightarrow> u64 \<times> auxtrace_buffer"
where
  "auxtrace_buffer__get_data page_size mmap buffer =
     (let adj = ab_data_offset buffer AND (page_size - 1);
          sz = ab_size buffer + adj;
          file_offset = ab_data_offset buffer - adj in
      if ab_data buffer \<noteq> 0 then (ab_data buffer, buffer)
      else case mmap sz file_offset of
        None \<Rightarrow> (0, buffer)
      | Some addr \<Rightarrow>
          (addr + adj, buffer\<lparr>ab_mmap_addr := addr, ab_mmap_size := sz, ab_data := addr + adj\<rparr>))"

definition auxtrace_buffer__put_data :: "auxtrace_buffer \<Rightarrow> auxtrace_buffer" where
  "auxtrace_buffer__put_data buffer =
     (if ab_data buffer = 0 \<or> ab_mmap_addr buffer = 0 then buffer
      else buffer\<lparr>ab_mmap_addr := 0, ab_mmap_size := 0, ab_data := 0, ab_use_data := 0\<rparr>)"

definition auxtrace_buffer__drop_data :: "auxtrace_buffer \<Rightarrow> auxtrace_buffer" where
  "auxtrace_buffer__drop_data buffer =
     (let buffer = auxtrace_buffer__put_data buffer in
      if ab_data_needs_freeing buffer
      then buffer\<lparr>ab_data_needs_freeing := False, ab_data := 0, ab_use_data := 0, ab_size := 0\<rparr>
      else buffer)"

section \<open>Invariant\<close>

text \<open>The buffers of a queue belong to its thread and CPU, and are numbered in order.\<close>

definition queue_ok :: "u64 \<Rightarrow> auxtrace_queue \<Rightarrow> bool" where
  "queue_ok next Q \<longleftrightarrow>
     (\<forall>b \<in> set (aq_head Q). aq_set Q \<and> ab_tid b = aq_tid Q \<and> ab_cpu b = aq_cpu Q \<and> ab_buffer_nr b < next) \<and>
     sorted_wrt (<) (map ab_buffer_nr (aq_head Q))"

definition queues_wf :: "auxtrace_queues \<Rightarrow> bool" where
  "queues_wf q \<longleftrightarrow> length (queue_array q) = unat (nr_queues q) \<and>
     (nr_queues q = 0 \<or> (\<exists>k \<le> 31. unat (nr_queues q) = 2 ^ k)) \<and>
     list_all (queue_ok (next_buffer_nr q)) (queue_array q)"

text \<open>The queue of an index; queues past the end of the array are empty ones.\<close>

definition queue_at :: "auxtrace_queues \<Rightarrow> nat \<Rightarrow> auxtrace_queue" where
  "queue_at q i = (if i < length (queue_array q) then queue_array q ! i else empty_queue)"

lemma queue_ok_empty: "queue_ok n empty_queue"
  by (simp add: queue_ok_def empty_queue_def)

lemma nr_queues_loop_pow2:
  assumes "k \<le> 31"
  shows "\<exists>nr'. nr_queues_loop (of_nat (2 ^ k)) new = Some nr' \<and>
    (nr' = 0 \<and> 2 ^ 31 < unat new \<or> (\<exists>j \<le> 31. k \<le> j \<and> unat nr' = 2 ^ j \<and> unat new \<le> 2 ^ j))"
  using assms
proof (induction "31 - k" arbitrary: k)
  case 0
  then have k: "k = 31" by simp
  have u: "unat (of_nat (2 ^ 31) :: u32) = 2 ^ 31" by (rule unat_of_nat_small) simp
  show ?case
  proof (cases "2 ^ 31 < unat new")
    case True
    have "nr_queues_loop 0 new = Some 0" by (subst nr_queues_loop.simps) simp
    moreover have "push_bit 1 (push_bit 31 1 :: u32) = 0"
      unfolding push_bit_push_bit by (rule push_bit_overflow) simp
    then have "push_bit 1 (of_nat (2 ^ 31) :: u32) = 0" unfolding push_bit_of_1 of_nat_power of_nat_numeral .
    moreover have "(of_nat (2 ^ 31) :: u32) \<noteq> 0 \<and> of_nat (2 ^ 31) < new"
      using True unfolding word_less_nat_alt u by simp
    ultimately have "nr_queues_loop (of_nat (2 ^ 31)) new = Some 0"
      by (subst nr_queues_loop.simps) (simp only: if_True simp_thms)
    then show ?thesis using True unfolding k by simp
  next
    case False
    then have "nr_queues_loop (of_nat (2 ^ 31)) new = Some (of_nat (2 ^ 31))"
      using u by (subst nr_queues_loop.simps) (simp add: word_less_nat_alt)
    then show ?thesis using False u unfolding k by auto
  qed
next
  case (Suc n)
  have le: "(2 :: nat) ^ k \<le> 2 ^ 31" using Suc.prems by (intro power_increasing) auto
  then have u: "unat (of_nat (2 ^ k) :: u32) = 2 ^ k" by (intro unat_of_nat_small) simp
  then have nz: "of_nat (2 ^ k) \<noteq> (0 :: u32)" by (metis power_eq_0_iff unsigned_0 zero_neq_numeral)
  show ?case
  proof (cases "2 ^ k < unat new")
    case True
    have "push_bit 1 (of_nat (2 ^ k) :: u32) = of_nat (2 ^ Suc k)" by (simp add: push_bit_eq_mult mult.commute)
    moreover have "(of_nat (2 ^ k) :: u32) < new" using True unfolding word_less_nat_alt u .
    ultimately have "nr_queues_loop (of_nat (2 ^ k)) new = nr_queues_loop (of_nat (2 ^ Suc k)) new"
      using nz by (subst nr_queues_loop.simps) (simp only: if_True simp_thms)
    moreover have "\<exists>nr'. nr_queues_loop (of_nat (2 ^ Suc k)) new = Some nr' \<and>
        (nr' = 0 \<and> 2 ^ 31 < unat new \<or> (\<exists>j \<le> 31. Suc k \<le> j \<and> unat nr' = 2 ^ j \<and> unat new \<le> 2 ^ j))"
      using Suc by (intro Suc.hyps) auto
    ultimately show ?thesis by (metis Suc_leD)
  next
    case False
    then have "\<not> (of_nat (2 ^ k) :: u32) < new" unfolding word_less_nat_alt u .
    then have "nr_queues_loop (of_nat (2 ^ k)) new = Some (of_nat (2 ^ k))"
      by (subst nr_queues_loop.simps) (simp only: if_False simp_thms)
    then show ?thesis using False u Suc.prems by auto
  qed
qed

lemma move_to_empty:
  "empty_queue\<lparr>aq_head := aq_head empty_queue @ aq_head Q, aq_tid := aq_tid Q, aq_cpu := aq_cpu Q,
     aq_set := aq_set Q, aq_priv := aq_priv Q\<rparr> = Q"
  by (cases Q) (simp add: empty_queue_def)

lemma move_queues_all:
  "n \<le> length old \<Longrightarrow> n \<le> m \<Longrightarrow>
     move_queues n old (replicate m empty_queue) = Some (take n old @ replicate (m - n) empty_queue)"
proof (induction n)
  case (Suc n)
  have r: "replicate (m - n) empty_queue = empty_queue # replicate (m - Suc n) empty_queue"
    using Suc.prems by (simp flip: replicate_Suc add: Suc_diff_Suc)
  then have n: "(take n old @ replicate (m - n) empty_queue) ! n = empty_queue"
    using Suc.prems by (simp add: nth_append)
  have "(take n old @ replicate (m - n) empty_queue)[n := old ! n] =
      take (Suc n) old @ replicate (m - Suc n) empty_queue"
    using Suc.prems r by (simp add: list_update_append take_Suc_conv_app_nth)
  then show ?case using Suc n by (simp add: move_to_empty)
qed simp

lemma auxtrace_queues__grow_spec:
  assumes "queues_wf q" and "unat (nr_queues q) < unat new"
  shows "\<exists>err q'. auxtrace_queues__grow env q new = Some (err, q') \<and> queues_wf q' \<and>
    next_buffer_nr q' = next_buffer_nr q \<and>
    (q' = q \<and> (err = - EINVAL \<or> err = - ENOMEM) \<or>
     err = 0 \<and> unat new \<le> length (queue_array q') \<and> (\<forall>i. queue_at q' i = queue_at q i))"
proof -
  define nr where "nr = (if nr_queues q = 0 then 32 else nr_queues q)"
  have wf: "length (queue_array q) = unat (nr_queues q)" "list_all (queue_ok (next_buffer_nr q)) (queue_array q)"
    using assms(1) by (auto simp: queues_wf_def)
  obtain k where k: "k \<le> 31" "unat nr = 2 ^ k"
  proof (cases "nr_queues q = 0")
    case True
    then show ?thesis using that [of 5] by (simp add: nr_def)
  qed (use assms(1) that in \<open>auto simp: queues_wf_def nr_def\<close>)
  then have nr: "nr = of_nat (2 ^ k)" unfolding word_unat_eq_iff
    using unat_of_nat_small [of "2 ^ k", where 'a = 32] power_increasing [of k 31 "2 :: nat"] by simp
  obtain nr' where l: "nr_queues_loop nr new = Some nr'"
    "nr' = 0 \<and> 2 ^ 31 < unat new \<or> (\<exists>j \<le> 31. k \<le> j \<and> unat nr' = 2 ^ j \<and> unat new \<le> 2 ^ j)"
    using nr_queues_loop_pow2 [OF k(1), of new] unfolding nr by blast
  note grow = auxtrace_queues__grow_def Let_def of_nat_numeral nr_def [symmetric] l(1) bind.bind_lunit
  show ?thesis
  proof (cases "nr' < nr_queues q \<or> nr' < new")
    case True
    then show ?thesis using l(1) assms(1) unfolding grow by simp
  next
    case False
    then obtain j where j: "j \<le> 31" "unat nr' = 2 ^ j" "unat new \<le> unat nr'"
      using l(2) assms(2) by (auto simp: word_less_nat_alt)
    show ?thesis
    proof (cases "auxtrace_alloc_queue_array env nr'")
      case None
      then show ?thesis using False l(1) assms(1) unfolding grow by simp
    next
      case (Some arr)
      then have arr: "arr = replicate (unat nr') empty_queue"
        by (auto simp: auxtrace_alloc_queue_array_def Let_def split: if_splits)
      let ?arr = "queue_array q @ replicate (unat nr' - unat (nr_queues q)) empty_queue"
      have "move_queues (unat (nr_queues q)) (queue_array q) arr = Some ?arr"
        using move_queues_all [of "unat (nr_queues q)" "queue_array q" "unat nr'"] assms(2) j(3) wf(1) arr by simp
      then have g: "auxtrace_queues__grow env q new = Some (0, q\<lparr>nr_queues := nr', queue_array := ?arr\<rparr>)"
        using False l(1) Some unfolding grow by simp
      have "queues_wf (q\<lparr>nr_queues := nr', queue_array := ?arr\<rparr>)"
        using wf j assms(2) queue_ok_empty by (auto simp: queues_wf_def list_all_iff)
      moreover have "queue_at (q\<lparr>nr_queues := nr', queue_array := ?arr\<rparr>) i = queue_at q i" for i
        by (auto simp: queue_at_def nth_append)
      ultimately show ?thesis using g j(3) wf(1) assms(2) by simp
    qed
  qed
qed


lemma queue_ok_mono: "queue_ok n Q \<Longrightarrow> n \<le> m \<Longrightarrow> queue_ok m Q"
  by (auto simp: queue_ok_def)

lemma aq_set_same: "aq_set Q \<Longrightarrow> Q\<lparr>aq_set := True, aq_head := h\<rparr> = Q\<lparr>aq_head := h\<rparr>"
  by (cases Q) auto

lemma queue_ok_snoc:
  assumes "queue_ok n Q" and "n \<noteq> - 1" and "aq_set Q \<Longrightarrow> ab_cpu b = aq_cpu Q \<and> ab_tid b = aq_tid Q"
  shows "queue_ok (n + 1) (Q\<lparr>aq_set := True, aq_tid := ab_tid b, aq_cpu := ab_cpu b,
    aq_head := aq_head Q @ [b\<lparr>ab_buffer_nr := n\<rparr>]\<rparr>)"
  using assms less_plus_one [OF assms(2)] by (auto simp: queue_ok_def sorted_wrt_append)

text \<open>
  Queueing a buffer, for every index but the largest: the buffer is appended, numbered, to
  the queue of its index, or the queues keep their contents and an error is returned.
\<close>

lemma auxtrace_queues__queue_buffer_spec:
  assumes "queues_wf q" and "idx \<noteq> - 1" and "next_buffer_nr q \<noteq> - 1"
  shows "\<exists>err q'. auxtrace_queues__queue_buffer env q idx b = Some (err, q') \<and> queues_wf q' \<and>
    ((err = - EINVAL \<or> err = - ENOMEM) \<and> next_buffer_nr q' = next_buffer_nr q \<and> (\<forall>i. queue_at q' i = queue_at q i) \<or>
     err = 0 \<and> next_buffer_nr q' = next_buffer_nr q + 1 \<and>
       aq_head (queue_at q' (unat idx)) = aq_head (queue_at q (unat idx)) @ [b\<lparr>ab_buffer_nr := next_buffer_nr q\<rparr>] \<and>
       (\<forall>i. i \<noteq> unat idx \<longrightarrow> queue_at q' i = queue_at q i))"
proof -
  define first where "first = (if idx \<ge> nr_queues q then auxtrace_queues__grow env q (idx + 1) else Some (0, q))"
  have idx1: "unat (idx + 1) = unat idx + 1" using unat_plus_one [OF assms(2)] by simp
  have "\<exists>err q'. first = Some (err, q') \<and> queues_wf q' \<and> next_buffer_nr q' = next_buffer_nr q \<and>
      (\<forall>i. queue_at q' i = queue_at q i) \<and>
      (err = - EINVAL \<or> err = - ENOMEM \<or> err = 0 \<and> unat idx < length (queue_array q'))"
  proof (cases "idx \<ge> nr_queues q")
    case True
    then have "unat (nr_queues q) < unat (idx + 1)" using idx1 by (simp add: word_le_nat_alt)
    from auxtrace_queues__grow_spec [OF assms(1) this, of env] True idx1 show ?thesis
      by (auto simp: first_def)
  next
    case False
    then show ?thesis using assms(1) by (auto simp: first_def queues_wf_def word_le_nat_alt)
  qed
  then obtain err q1 where f: "first = Some (err, q1)" "queues_wf q1" "next_buffer_nr q1 = next_buffer_nr q"
      "\<forall>i. queue_at q1 i = queue_at q i"
      "err = - EINVAL \<or> err = - ENOMEM \<or> err = 0 \<and> unat idx < length (queue_array q1)" by blast
  show ?thesis
  proof (cases "err = 0")
    case False
    then show ?thesis using f by (auto simp: auxtrace_queues__queue_buffer_def first_def [symmetric])
  next
    case True
    then have i: "unat idx < length (queue_array q1)" using f(5) by auto
    let ?Q = "queue_array q1 ! unat idx" and ?n = "next_buffer_nr q"
    have Q: "?Q = queue_at q (unat idx)" using f(4) i by (metis queue_at_def)
    have ok: "queue_ok ?n ?Q" using f(2,3) i by (simp add: queues_wf_def list_all_length)
    show ?thesis
    proof (cases "aq_set ?Q \<and> (ab_cpu b \<noteq> aq_cpu ?Q \<or> ab_tid b \<noteq> aq_tid ?Q)")
      case conflict: True
      then have "auxtrace_queues__queue_buffer env q idx b = Some (- EINVAL, q1)"
        using f(1) True i by (simp add: auxtrace_queues__queue_buffer_def first_def [symmetric])
      then show ?thesis using f by simp
    next
      case False
      let ?Q' = "?Q\<lparr>aq_set := True, aq_tid := ab_tid b, aq_cpu := ab_cpu b,
        aq_head := aq_head ?Q @ [b\<lparr>ab_buffer_nr := ?n\<rparr>]\<rparr>"
      let ?q = "q1\<lparr>queue_array := (queue_array q1)[unat idx := ?Q'], next_buffer_nr := ?n + 1,
        new_data := True, populated := True\<rparr>"
      have "auxtrace_queues__queue_buffer env q idx b = Some (0, ?q)"
        using f(1,3) True i False
        by (auto simp: auxtrace_queues__queue_buffer_def first_def [symmetric] Let_def aq_set_same)
      moreover have "queue_ok (?n + 1) ?Q'" using False ok assms(3) by (intro queue_ok_snoc) auto
      then have "queues_wf ?q"
        using f(2,3) queue_ok_mono less_plus_one [OF assms(3)]
        by (auto simp: queues_wf_def list_all_iff dest!: set_update_subset_insert [THEN subsetD])
      moreover have "queue_at ?q j = (if j = unat idx then ?Q' else queue_at q j)" for j
        using f(4) i by (auto simp: queue_at_def nth_list_update split: if_splits)
      ultimately show ?thesis using Q by auto
    qed
  qed
qed


subsection \<open>Split buffers\<close>

text \<open>
  Buffers that follow one another in the file from an offset on, none of them over the
  limit; all but the first are marked as continuing their predecessor.
\<close>

fun pieces_ok :: "u64 \<Rightarrow> bool \<Rightarrow> auxtrace_buffer list \<Rightarrow> bool" where
  "pieces_ok off c [] \<longleftrightarrow> True"
| "pieces_ok off c (b # bs) \<longleftrightarrow> ab_data_offset b = off \<and> ab_consecutive b = c \<and>
     ab_size b \<le> BUFFER_LIMIT_FOR_32_BIT \<and> pieces_ok (off + ab_size b) True bs"

definition total_size :: "auxtrace_buffer list \<Rightarrow> nat" where
  "total_size bs = sum_list (map (\<lambda>b. unat (ab_size b)) bs)"

declare split_loop.simps [simp del]

lemma split_loop_spec:
  assumes "queues_wf q" and "idx \<noteq> - 1" and "unat (next_buffer_nr q) + unat sz div 33554432 < 2 ^ 64 - 1"
  shows "\<exists>err q' b'. split_loop env q idx b sz c = Some (err, q', b') \<and> queues_wf q' \<and>
    (err = - EINVAL \<or> err = - ENOMEM \<or> err = 0) \<and>
    (err = 0 \<longrightarrow> next_buffer_nr q' \<noteq> - 1 \<and> (\<forall>i. i \<noteq> unat idx \<longrightarrow> queue_at q' i = queue_at q i) \<and>
      (\<exists>bs. aq_head (queue_at q' (unat idx)) = aq_head (queue_at q (unat idx)) @ bs \<and>
        pieces_ok (ab_data_offset b) c (bs @ [b']) \<and> total_size (bs @ [b']) = unat sz))"
  using assms
proof (induction env q idx b sz c rule: split_loop.induct)
  case (1 env q idx b sz c)
  let ?L = "33554432 :: u64"
  have "unat (- 1 :: u64) = 2 ^ 64 - 1" by (simp add: unsigned_minus_1_eq_mask mask_eq_exp_minus_1)
  then have next1: "next_buffer_nr q \<noteq> - 1" using "1.prems"(3) by auto
  show ?case
  proof (cases "sz > ?L")
    case False
    then have "split_loop env q idx b sz c = Some (0, q, b\<lparr>ab_size := sz, ab_consecutive := c\<rparr>)"
      by (subst split_loop.simps) simp
    then show ?thesis using "1.prems"(1) False next1
      by (auto simp: total_size_def intro!: exI [of _ "[]"])
  next
    case big: True
    show ?thesis
    proof (cases "oom_buffer env (next_buffer_nr q)")
      case True
      then show ?thesis using big "1.prems"(1) by (subst split_loop.simps) simp
    next
      case alloc: False
      let ?p = "b\<lparr>ab_size := ?L, ab_consecutive := c\<rparr>" and ?b = "b\<lparr>ab_data_offset := ab_data_offset b + ?L\<rparr>"
      obtain err q1 where q1: "auxtrace_queues__queue_buffer env q idx ?p = Some (err, q1)" "queues_wf q1"
        "(err = - EINVAL \<or> err = - ENOMEM) \<or>
         err = 0 \<and> next_buffer_nr q1 = next_buffer_nr q + 1 \<and>
           aq_head (queue_at q1 (unat idx)) = aq_head (queue_at q (unat idx)) @ [?p\<lparr>ab_buffer_nr := next_buffer_nr q\<rparr>] \<and>
           (\<forall>i. i \<noteq> unat idx \<longrightarrow> queue_at q1 i = queue_at q i)"
        using auxtrace_queues__queue_buffer_spec [OF "1.prems"(1,2) next1, of env ?p] by blast
      have unfold: "split_loop env q idx b sz c =
          (if err \<noteq> 0 then Some (err, q1, b) else split_loop env q1 idx ?b (sz - ?L) True)"
        using big alloc q1(1) by (subst split_loop.simps) simp
      show ?thesis
      proof (cases "err = 0")
        case False
        then show ?thesis using unfold q1(2,3) by auto
      next
        case True
        then have n1: "next_buffer_nr q1 = next_buffer_nr q + 1"
          "aq_head (queue_at q1 (unat idx)) = aq_head (queue_at q (unat idx)) @ [?p\<lparr>ab_buffer_nr := next_buffer_nr q\<rparr>]"
          "\<forall>i. i \<noteq> unat idx \<longrightarrow> queue_at q1 i = queue_at q i" using q1(3) by auto
        have sz: "unat (sz - ?L) = unat sz - 33554432" "33554432 < unat sz"
          using big by (simp_all add: word_less_nat_alt unat_sub_if' word_le_nat_alt)
        have "unat (next_buffer_nr q1) + unat (sz - ?L) div 33554432 < 2 ^ 64 - 1"
          using "1.prems"(3) sz unat_plus_one [OF next1] unfolding n1(1) by (simp add: div_if)
        from "1.IH" [OF big alloc refl q1(1) refl _ q1(2) "1.prems"(2) this] True obtain err' q' b' where r:
          "split_loop env q1 idx ?b (sz - ?L) True = Some (err', q', b')" "queues_wf q'"
          "err' = - EINVAL \<or> err' = - ENOMEM \<or> err' = 0"
          "err' = 0 \<longrightarrow> next_buffer_nr q' \<noteq> - 1 \<and> (\<forall>i. i \<noteq> unat idx \<longrightarrow> queue_at q' i = queue_at q1 i) \<and>
            (\<exists>bs. aq_head (queue_at q' (unat idx)) = aq_head (queue_at q1 (unat idx)) @ bs \<and>
              pieces_ok (ab_data_offset ?b) True (bs @ [b']) \<and> total_size (bs @ [b']) = unat (sz - ?L))"
          by auto
        show ?thesis
        proof (cases "err' = 0")
          case False
          then show ?thesis using r unfold True by auto
        next
          case ok: True
          with r(4) obtain bs where bs: "aq_head (queue_at q' (unat idx)) = aq_head (queue_at q1 (unat idx)) @ bs"
            "pieces_ok (ab_data_offset ?b) True (bs @ [b'])" "total_size (bs @ [b']) = unat (sz - ?L)" by blast
          let ?bs = "?p\<lparr>ab_buffer_nr := next_buffer_nr q\<rparr> # bs"
          have "pieces_ok (ab_data_offset b) c (?bs @ [b'])" using bs(2) by simp
          moreover have "total_size (?bs @ [b']) = unat sz" using bs(3) sz by (simp add: total_size_def)
          ultimately show ?thesis using r ok unfold True n1 bs(1)
            by (auto intro!: exI [of _ ?bs])
        qed
      qed
    qed
  qed
qed

lemma auxtrace_queues__add_buffer_split:
  assumes "queues_wf q" and "idx \<noteq> - 1" and "unat (next_buffer_nr q) + unat (ab_size b) div 33554432 < 2 ^ 64 - 1"
    and "filter_cpu session (ab_cpu b) = Some False" and "\<not> one_mmap session" and "\<not> is_pipe session"
    and "ab_size b > BUFFER_LIMIT_FOR_32_BIT"
  shows "\<exists>err q'. auxtrace_queues__add_buffer 32 env session q idx b = Some (err, q') \<and> queues_wf q' \<and>
    (err = 0 \<longrightarrow> (\<forall>i. i \<noteq> unat idx \<longrightarrow> queue_at q' i = queue_at q i) \<and>
      (\<exists>bs. aq_head (queue_at q' (unat idx)) = aq_head (queue_at q (unat idx)) @ bs \<and>
        pieces_ok (ab_data_offset b) False bs \<and> total_size bs = unat (ab_size b)))"
proof (cases "oom_buffer env (next_buffer_nr q)")
  case True
  then show ?thesis using assms by (simp add: auxtrace_queues__add_buffer_def)
next
  case False
  obtain err q1 b1 where s: "split_loop env q idx b (ab_size b) False = Some (err, q1, b1)" "queues_wf q1"
    "err = 0 \<longrightarrow> next_buffer_nr q1 \<noteq> - 1 \<and> (\<forall>i. i \<noteq> unat idx \<longrightarrow> queue_at q1 i = queue_at q i) \<and>
      (\<exists>bs. aq_head (queue_at q1 (unat idx)) = aq_head (queue_at q (unat idx)) @ bs \<and>
        pieces_ok (ab_data_offset b) False (bs @ [b1]) \<and> total_size (bs @ [b1]) = unat (ab_size b))"
    using split_loop_spec [OF assms(1-3), of env b False] by blast
  have unfold: "auxtrace_queues__add_buffer 32 env session q idx b =
      (if err \<noteq> 0 then Some (err, q1) else auxtrace_queues__queue_buffer env q1 idx b1)"
    using False assms(4-7) s(1) by (simp add: auxtrace_queues__add_buffer_def auxtrace_queues__split_buffer_def)
  show ?thesis
  proof (cases "err = 0")
    case True
    with s(3) obtain bs where bs: "next_buffer_nr q1 \<noteq> - 1" "\<forall>i. i \<noteq> unat idx \<longrightarrow> queue_at q1 i = queue_at q i"
      "aq_head (queue_at q1 (unat idx)) = aq_head (queue_at q (unat idx)) @ bs"
      "pieces_ok (ab_data_offset b) False (bs @ [b1])" "total_size (bs @ [b1]) = unat (ab_size b)" by blast
    let ?b1 = "b1\<lparr>ab_buffer_nr := next_buffer_nr q1\<rparr>"
    have "pieces_ok off c (xs @ [?b1]) = pieces_ok off c (xs @ [b1])" for off c xs
      by (induction xs arbitrary: off c) auto
    then have "pieces_ok (ab_data_offset b) False (bs @ [?b1])" "total_size (bs @ [?b1]) = unat (ab_size b)"
      using bs(4,5) by (simp_all add: total_size_def)
    then show ?thesis
      using auxtrace_queues__queue_buffer_spec [OF s(2) assms(2) bs(1), of env b1] True bs(2,3)
      unfolding unfold by fastforce
  next
    case False
    then show ?thesis using unfold s(2) by simp
  qed
qed

section \<open>Properties\<close>

text \<open>
  C20. \<open>auxtrace_queues__queue_buffer\<close> on well-formed queues, for every index but the largest
  32-bit number: no access leaves the queue array, even when it has to grow; on success the
  buffer is numbered and appended to the queue of its index and no other queue changes; on an
  error (a queue of another thread or CPU, an array that would be too large, no memory) every
  queue keeps its buffers. Well-formedness (one thread and CPU per queue, buffers in the order
  of their numbers, a power of two of queues) is kept.
\<close>

theorem auxtrace_queue_buffer_appends:
  assumes "queues_wf q" and "idx \<noteq> - 1" and "next_buffer_nr q \<noteq> - 1"
  shows "\<exists>err q'. auxtrace_queues__queue_buffer env q idx b = Some (err, q') \<and> queues_wf q' \<and>
    ((err = - EINVAL \<or> err = - ENOMEM) \<and> (\<forall>i. queue_at q' i = queue_at q i) \<or>
     err = 0 \<and> next_buffer_nr q' = next_buffer_nr q + 1 \<and>
       aq_head (queue_at q' (unat idx)) = aq_head (queue_at q (unat idx)) @ [b\<lparr>ab_buffer_nr := next_buffer_nr q\<rparr>] \<and>
       (\<forall>i. i \<noteq> unat idx \<longrightarrow> queue_at q' i = queue_at q i))"
  using auxtrace_queues__queue_buffer_spec [OF assms, of env b] by blast

text \<open>Freshly initialised queues and a buffer, for concrete runs.\<close>

definition queues0 :: auxtrace_queues where
  "queues0 = snd (auxtrace_queues__init \<lparr>oom_queues = (\<lambda>_. False), oom_buffer = (\<lambda>_. False)\<rparr>
     \<lparr>queue_array = [], nr_queues = 0, new_data = False, populated = False, next_buffer_nr = 0\<rparr>)"

definition buffer0 :: "u64 \<Rightarrow> auxtrace_buffer" where
  "buffer0 sz = \<lparr>ab_size = sz, ab_pid = - 1, ab_tid = 7, ab_cpu = - 1, ab_data = 0, ab_data_offset = 4096,
     ab_mmap_addr = 0, ab_mmap_size = 0, ab_data_needs_freeing = False, ab_consecutive = False,
     ab_offset = 0, ab_reference = 0, ab_buffer_nr = 0, ab_use_size = 0, ab_use_data = 0\<rparr>"

lemma queues0_eq:
  "queues0 = \<lparr>queue_array = replicate 32 empty_queue, nr_queues = 32, new_data = False, populated = False, next_buffer_nr = 0\<rparr>"
  by (simp add: queues0_def auxtrace_queues__init_def auxtrace_alloc_queue_array_def)

lemma queues0_wf: "queues_wf queues0"
proof -
  have "unat (32 :: u32) = 2 ^ 5" by simp
  then show ?thesis using queue_ok_empty unfolding queues_wf_def queues0_eq
    by (auto simp: list_all_iff intro!: exI [of _ 5] simp del: power_numeral)
qed

theorem auxtrace_queue_buffer_appends_witness:
  "\<exists>err q'. auxtrace_queues__queue_buffer \<lparr>oom_queues = (\<lambda>_. False), oom_buffer = (\<lambda>_. False)\<rparr> queues0 40 (buffer0 100) =
      Some (err, q') \<and> queues_wf q'"
  using auxtrace_queue_buffer_appends [OF queues0_wf, of 40 "\<lparr>oom_queues = (\<lambda>_. False), oom_buffer = (\<lambda>_. False)\<rparr>" "buffer0 100"]
  by (auto simp: queues0_eq)

text \<open>
  For the largest 32-bit index, \<open>idx + 1\<close> is 0, so growing the array "succeeds" without
  growing it, and \<open>auxtrace_queues__queue_buffer\<close> accesses the queue array far outside its
  bounds. The index comes from the trace file.
\<close>

theorem auxtrace_queue_buffer_out_of_bounds:
  assumes "queues_wf q" and "nr_queues q \<noteq> 0" and "auxtrace_alloc_queue_array env (nr_queues q) = Some arr"
  shows "auxtrace_queues__queue_buffer env q (- 1) b = None"
proof -
  have len: "length (queue_array q) = unat (nr_queues q)" using assms(1) by (simp add: queues_wf_def)
  have loop: "nr_queues_loop (nr_queues q) 0 = Some (nr_queues q)" by (subst nr_queues_loop.simps) simp
  have arr: "arr = replicate (unat (nr_queues q)) empty_queue" "unat (nr_queues q) < 2 ^ 31"
    using assms(3) by (auto simp: auxtrace_alloc_queue_array_def Let_def split: if_splits)
  have "move_queues (unat (nr_queues q)) (queue_array q) arr = Some (queue_array q)"
    using move_queues_all [of "unat (nr_queues q)" "queue_array q" "unat (nr_queues q)"] len arr by simp
  then have "auxtrace_queues__grow env q 0 = Some (0, q\<lparr>nr_queues := nr_queues q, queue_array := queue_array q\<rparr>)"
    using assms(2,3) loop by (simp add: auxtrace_queues__grow_def)
  moreover have "unat (- 1 :: u32) = 2 ^ 32 - 1" by (simp add: unsigned_minus_1_eq_mask mask_eq_exp_minus_1)
  then have "nr_queues q \<le> - 1" "rd (queue_array q) (unat (- 1 :: u32)) = None"
    using arr(2) len by (auto simp: word_le_nat_alt)
  ultimately show ?thesis by (simp add: auxtrace_queues__queue_buffer_def)
qed

theorem auxtrace_queue_buffer_out_of_bounds_witness:
  "auxtrace_queues__queue_buffer \<lparr>oom_queues = (\<lambda>_. False), oom_buffer = (\<lambda>_. False)\<rparr> queues0 (- 1) (buffer0 100) = None"
  using auxtrace_queue_buffer_out_of_bounds [OF queues0_wf, of "\<lparr>oom_queues = (\<lambda>_. False), oom_buffer = (\<lambda>_. False)\<rparr>" _ "buffer0 100"]
  by (simp add: queues0_eq auxtrace_alloc_queue_array_def)



end
