(* ===== verification/Auxtrace_Ring.thy ===== *)
theory Auxtrace_Ring
  imports Perf_Prelude
begin

text \<open>
  Reading trace data from the AUX area ring buffer: \<open>__auxtrace_mmap__read\<close> of
  \<open>util/auxtrace.c\<close>. All quantities are 64 bits wide; they are natural numbers here, and
  subtraction wraps (\<^const>\<open>size_sub\<close>). The area mapped at \<open>mm->base\<close> is the list of its bytes.
\<close>

section \<open>Reading the ring\<close>

record auxtrace_mmap =
  mm_base :: "u8 list"
  mm_mask :: nat
  mm_len :: nat
  mm_prev :: nat
  mm_idx :: int
  mm_tid :: int
  mm_cpu :: int

text \<open>
  The parameters of a mapping, and how they are set up from a number of pages
  (\<open>auxtrace_mmap_params__init\<close>, with \<open>PROT_READ\<close> 1 and \<open>PROT_WRITE\<close> 2). The mapping itself,
  \<open>mmap\<close>, is a parameter: the bytes of the area, or \<open>None\<close> for \<open>MAP_FAILED\<close>.
\<close>

record auxtrace_mmap_params =
  mp_mask :: nat
  mp_offset :: nat
  mp_len :: nat
  mp_prot :: nat
  mp_idx :: int
  mp_tid :: int
  mp_cpu :: int

definition is_power_of_2 :: "nat \<Rightarrow> bool" where
  "is_power_of_2 n \<longleftrightarrow> n \<noteq> 0 \<and> n AND (n - 1) = 0"

definition auxtrace_mmap_params__init ::
  "nat \<Rightarrow> auxtrace_mmap_params \<Rightarrow> nat \<Rightarrow> nat \<Rightarrow> bool \<Rightarrow> auxtrace_mmap_params"
where
  "auxtrace_mmap_params__init page_size mp auxtrace_offset auxtrace_pages auxtrace_overwrite =
     (if auxtrace_pages \<noteq> 0 then
        let len = (auxtrace_pages * page_size) mod SIZE_RANGE in
        mp\<lparr>mp_offset := auxtrace_offset, mp_len := len,
           mp_mask := (if is_power_of_2 len then len - 1 else 0),
           mp_prot := 1 OR (if auxtrace_overwrite then 0 else 2)\<rparr>
      else mp\<lparr>mp_len := 0\<rparr>)"

definition auxtrace_mmap__mmap ::
  "(nat \<Rightarrow> nat \<Rightarrow> nat \<Rightarrow> u8 list option) \<Rightarrow> auxtrace_mmap_params \<Rightarrow> int \<times> auxtrace_mmap"
where
  "auxtrace_mmap__mmap mmap mp =
     (let mm = \<lparr>mm_base = [], mm_mask = mp_mask mp, mm_len = mp_len mp, mm_prev = 0, mm_idx = mp_idx mp,
                mm_tid = mp_tid mp, mm_cpu = mp_cpu mp\<rparr> in
      if mp_len mp = 0 then (0, mm)
      else case mmap (mp_len mp) (mp_prot mp) (mp_offset mp) of
        None \<Rightarrow> (- 1, mm)
      | Some base \<Rightarrow> (0, mm\<lparr>mm_base := base\<rparr>))"

text \<open>The event written in front of the data.\<close>

record auxtrace_record_event =
  re_size :: nat
  re_offset :: nat
  re_reference :: nat
  re_idx :: int
  re_tid :: int
  re_cpu :: int

abbreviation (input) PERF_AUXTRACE_RECORD_ALIGNMENT :: nat where
  "PERF_AUXTRACE_RECORD_ALIGNMENT \<equiv> 8"

text \<open>The bytes from an offset on that a callback is given.\<close>

definition slice :: "u8 list \<Rightarrow> nat \<Rightarrow> nat \<Rightarrow> u8 list option" where
  "slice base off n = (if off + n \<le> length base then Some (take n (drop off base)) else None)"

text \<open>
  The environment: the head the kernel has written, \<open>itr->find_snapshot\<close> (whether it fails, and
  the head and tail it finds), \<open>itr->reference\<close>, \<open>itr->alignment\<close>, whether the callback
  \<open>fn\<close> fails on what it is given, and the result of \<open>itr->read_finish\<close>.
\<close>

record ring_env =
  re_head :: nat
  re_find_snapshot :: "nat \<Rightarrow> nat \<Rightarrow> bool \<times> nat \<times> nat"
  re_ref :: nat
  re_alignment :: nat
  re_fn :: "auxtrace_record_event \<Rightarrow> u8 list \<Rightarrow> u8 list \<Rightarrow> bool"
  re_read_finish :: int

text \<open>
  The result: the return code, the updated \<open>mm\<close>, what \<open>fn\<close> was given, if it was called, and
  the tail written back to the kernel, if it was.
\<close>

type_synonym ring_result =
  "int \<times> auxtrace_mmap \<times> (auxtrace_record_event \<times> u8 list \<times> u8 list) option \<times> nat option"

definition auxtrace_mmap__read ::
  "ring_env \<Rightarrow> auxtrace_mmap \<Rightarrow> bool \<Rightarrow> nat \<Rightarrow> ring_result option"
where
  "auxtrace_mmap__read env mm snapshot snapshot_size =
     (let (fails, head, old) =
        (if snapshot then re_find_snapshot env (re_head env) (mm_prev mm)
         else (False, re_head env, mm_prev mm)) in
      if fails then Some (- 1, mm, None, None)
      else if old = head then Some (0, mm, None, None)
      else if mm_mask mm = 0 \<and> mm_len mm = 0 then None
      else
        let head_off = (if mm_mask mm \<noteq> 0 then head AND mm_mask mm else head mod mm_len mm);
            old_off = (if mm_mask mm \<noteq> 0 then old AND mm_mask mm else old mod mm_len mm);
            sz = (if head_off > old_off then size_sub head_off old_off
                  else size_sub (mm_len mm) (size_sub old_off head_off));
            sz = (if snapshot \<and> sz > snapshot_size then snapshot_size else sz);
            offset =
              (if head > old \<or> sz \<le> head \<or> mm_mask mm \<noteq> 0 then size_sub head sz
               else size_sub (size_sub head sz) (size_sub 0 (mm_len mm) mod mm_len mm));
            (off1, len1, len2) =
              (if sz > head_off then (size_sub (mm_len mm) (size_sub sz head_off), size_sub sz head_off, head_off)
               else (size_sub head_off sz, sz, 0));
            unwanted = (if re_alignment env \<noteq> 0 then len1 mod re_alignment env else 0);
            len1 = size_sub len1 unwanted;
            sz = size_sub sz unwanted;
            padding = sz AND (PERF_AUXTRACE_RECORD_ALIGNMENT - 1);
            padding = (if padding \<noteq> 0 then PERF_AUXTRACE_RECORD_ALIGNMENT - padding else 0);
            ev = \<lparr>re_size = (sz + padding) mod SIZE_RANGE, re_offset = offset, re_reference = re_ref env,
                  re_idx = mm_idx mm, re_tid = mm_tid mm, re_cpu = mm_cpu mm\<rparr> in
        do {
          data1 \<leftarrow> slice (mm_base mm) off1 len1;
          data2 \<leftarrow> slice (mm_base mm) 0 len2;
          if re_fn env ev data1 data2 then Some (- 1, mm, Some (ev, data1, data2), None)
          else
            let mm = mm\<lparr>mm_prev := head\<rparr>;
                tail = (if snapshot then None else Some head);
                ret = (if \<not> snapshot \<and> re_read_finish env < 0 then re_read_finish env else 1) in
            Some (ret, mm, Some (ev, data1, data2), tail)
        })"

section \<open>Well-formed rings\<close>

text \<open>
  The kernel advances the head modulo the highest multiple of the buffer size that fits 64
  bits, which is \<open>2 ^ 64\<close> for a power of two.
\<close>

definition ring_wrap :: "auxtrace_mmap \<Rightarrow> nat" where
  "ring_wrap mm = SIZE_RANGE - SIZE_RANGE mod mm_len mm"

definition ring_ok :: "auxtrace_mmap \<Rightarrow> bool" where
  "ring_ok mm \<longleftrightarrow> 0 < mm_len mm \<and> 2 * mm_len mm \<le> SIZE_RANGE \<and> length (mm_base mm) = mm_len mm \<and>
     mm_prev mm < ring_wrap mm \<and>
     (mm_mask mm = 0 \<or> (\<exists>k. mm_len mm = 2 ^ k \<and> mm_mask mm = 2 ^ k - 1))"

text \<open>The \<open>n\<close> bytes of the ring from a position on.\<close>

definition ring_bytes :: "auxtrace_mmap \<Rightarrow> nat \<Rightarrow> nat \<Rightarrow> u8 list" where
  "ring_bytes mm pos n = map (\<lambda>i. mm_base mm ! ((pos + i) mod mm_len mm)) [0..<n]"

lemma power_of_2_ex: "n \<noteq> 0 \<Longrightarrow> n AND (n - 1) = (0 :: nat) \<Longrightarrow> \<exists>k. n = 2 ^ k"
proof (induction n rule: less_induct)
  case (less n)
  show ?case
  proof (cases "even n")
    case True
    then obtain m where m: "n = 2 * m" "m \<noteq> 0" using less.prems(1) by (auto elim!: evenE)
    have half: "(2 * m - 1) div 2 = m - 1" using m(2) by simp
    have "n AND (n - 1) = 2 * (m AND (m - 1))"
      unfolding m(1) by (subst and_rec) (simp add: half del: One_nat_def)
    then have "m AND (m - 1) = 0" using less.prems(2) by simp
    then obtain k where "m = 2 ^ k" using less.IH [of m] m by auto
    then show ?thesis using m(1) by (intro exI [of _ "Suc k"]) simp
  next
    case False
    then obtain m where m: "n = 2 * m + 1" by (auto elim!: oddE)
    then have "n AND (n - 1) = 2 * m" by (subst and_rec) simp
    then have "n = 2 ^ 0" using less.prems(2) m by simp
    then show ?thesis ..
  qed
qed

text \<open>A ring that was set up with these functions is well formed.\<close>

lemma auxtrace_mmap__mmap_ring_ok:
  assumes "mp = auxtrace_mmap_params__init page_size mp0 off pages overwrite"
    and "auxtrace_mmap__mmap mmap mp = (0, mm)" and "mp_len mp \<noteq> 0" and "2 * mp_len mp \<le> SIZE_RANGE"
    and "\<And>len prot off base. mmap len prot off = Some base \<Longrightarrow> length base = len"
  shows "ring_ok mm"
proof -
  have mask: "mp_mask mp = (if is_power_of_2 (mp_len mp) then mp_len mp - 1 else 0)"
    using assms(1,3) by (auto simp: auxtrace_mmap_params__init_def Let_def split: if_splits)
  obtain base where b: "mmap (mp_len mp) (mp_prot mp) (mp_offset mp) = Some base"
    "mm = \<lparr>mm_base = base, mm_mask = mp_mask mp, mm_len = mp_len mp, mm_prev = 0, mm_idx = mp_idx mp,
       mm_tid = mp_tid mp, mm_cpu = mp_cpu mp\<rparr>"
    using assms(2,3) by (auto simp: auxtrace_mmap__mmap_def Let_def split: option.splits)
  have "SIZE_RANGE mod mp_len mp < SIZE_RANGE"
    using mod_less_divisor [of "mp_len mp" SIZE_RANGE] assms(3,4) by linarith
  moreover have "\<exists>k. mp_len mp = 2 ^ k" if "is_power_of_2 (mp_len mp)"
    using power_of_2_ex that by (simp add: is_power_of_2_def)
  ultimately show ?thesis using assms(3,4) assms(5) [OF b(1)] mask b(2)
    by (auto simp: ring_ok_def ring_wrap_def)
qed

lemma ring_wrap_dvd: "mm_len mm dvd ring_wrap mm"
  by (simp add: ring_wrap_def dvd_minus_mod)

lemma ring_wrap_le: "0 < mm_len mm \<Longrightarrow> 2 * mm_len mm \<le> SIZE_RANGE \<Longrightarrow> mm_len mm < ring_wrap mm \<and> ring_wrap mm \<le> SIZE_RANGE"
  using mod_less_divisor [of "mm_len mm" SIZE_RANGE] unfolding ring_wrap_def by linarith

lemma ring_off:
  assumes "ring_ok mm"
  shows "(if mm_mask mm \<noteq> 0 then pos AND mm_mask mm else pos mod mm_len mm) = pos mod mm_len mm"
proof -
  have "pos AND (2 ^ k - 1) = pos mod 2 ^ k" for k
    using take_bit_eq_mask [of k pos] by (simp add: mask_eq_exp_minus_1 take_bit_eq_mod)
  then show ?thesis using assms by (auto simp: ring_ok_def)
qed

lemma ring_bytes_split:
  assumes "0 < mm_len mm" and "length (mm_base mm) = mm_len mm" and "n \<le> mm_len mm"
  shows "ring_bytes mm pos n =
    (let o1 = pos mod mm_len mm in
     if o1 + n < mm_len mm then take n (drop o1 (mm_base mm))
     else drop o1 (mm_base mm) @ take (o1 + n - mm_len mm) (mm_base mm))"
proof -
  define len o1 where "len = mm_len mm" and "o1 = pos mod len"
  have o: "o1 < len" "n \<le> len" "length (mm_base mm) = len" using assms by (simp_all add: o1_def len_def)
  have m: "(pos + i) mod len = (if o1 + i < len then o1 + i else o1 + i - len)" if "i < n" for i
  proof -
    have "(pos + i) mod len = (o1 + i) mod len" unfolding o1_def by (simp only: mod_add_left_eq)
    moreover have "(o1 + i) mod len = o1 + i - len" if "\<not> o1 + i < len"
    proof -
      have "o1 + i - len < len" using \<open>i < n\<close> o by linarith
      then show ?thesis using le_mod_geq [of len "o1 + i"] that by simp
    qed
    ultimately show ?thesis by (cases "o1 + i < len") simp_all
  qed
  have "ring_bytes mm pos n ! i = (drop o1 (mm_base mm) @ take (o1 + n - len) (mm_base mm)) ! i"
    if "i < n" "\<not> o1 + n < len" for i
  proof (cases "o1 + i < len")
    case True
    then have "i < length (drop o1 (mm_base mm))" using o by simp
    then show ?thesis using True that m [OF that(1)] o by (simp add: ring_bytes_def len_def [symmetric] nth_append)
  next
    case False
    then have "\<not> i < length (drop o1 (mm_base mm))" "i - (len - o1) = o1 + i - len" using o by auto
    then show ?thesis using False that m [OF that(1)] o by (simp add: ring_bytes_def len_def [symmetric] nth_append)
  qed
  moreover have "length (ring_bytes mm pos n) = n" by (simp add: ring_bytes_def)
  ultimately have "\<not> o1 + n < len \<Longrightarrow>
      ring_bytes mm pos n = drop o1 (mm_base mm) @ take (o1 + n - len) (mm_base mm)"
    using o by (intro nth_equalityI) auto
  moreover have "o1 + n < len \<Longrightarrow> ring_bytes mm pos n = take n (drop o1 (mm_base mm))"
    using o by (intro nth_equalityI) (auto simp: ring_bytes_def m len_def [symmetric])
  ultimately show ?thesis by (simp add: Let_def o1_def len_def)
qed

text \<open>
  How much was written between two heads, and where: the size the code computes from the
  offsets is the number of bytes, and the offset of the event is the old head.
\<close>

lemma ring_size:
  fixes len old n :: nat
  assumes "0 < len" and "0 < n" and "n \<le> len" and "len < SIZE_RANGE"
  defines "ho \<equiv> (old + n) mod len" and "oo \<equiv> old mod len"
  shows "(if ho > oo then size_sub ho oo else size_sub len (size_sub oo ho)) = n"
    and "oo + n < len \<Longrightarrow> ho = oo + n" and "\<not> oo + n < len \<Longrightarrow> ho = oo + n - len"
proof -
  have oo: "oo < len" using assms(1) by (simp add: oo_def)
  have ho: "ho = (oo + n) mod len" unfolding ho_def oo_def by (simp only: mod_add_left_eq)
  show lt: "oo + n < len \<Longrightarrow> ho = oo + n" using ho by simp
  show ge: "\<not> oo + n < len \<Longrightarrow> ho = oo + n - len"
    using ho le_mod_geq [of len "oo + n"] oo assms(3) by simp
  show "(if ho > oo then size_sub ho oo else size_sub len (size_sub oo ho)) = n"
  proof (cases "oo + n < len")
    case True
    then show ?thesis using lt assms(2,4) by simp
  next
    case False
    then have "ho \<le> oo" "oo - ho = len - n" using ge assms(3) oo by auto
    moreover have "size_sub oo ho = oo - ho" using calculation(1) oo assms(4) by simp
    ultimately show ?thesis using assms(3,4) by simp
  qed
qed

lemma ring_offset:
  assumes "ring_ok mm" and "0 < n" and "n \<le> mm_len mm"
  defines "old \<equiv> mm_prev mm" and "head \<equiv> (mm_prev mm + n) mod ring_wrap mm"
  shows "(if head > old \<or> n \<le> head \<or> mm_mask mm \<noteq> 0 then size_sub head n
          else size_sub (size_sub head n) (size_sub 0 (mm_len mm) mod mm_len mm)) = old"
proof -
  let ?S = SIZE_RANGE and ?M = "ring_wrap mm" and ?len = "mm_len mm"
  have len: "0 < ?len" "2 * ?len \<le> ?S" "old < ?M" using assms(1) by (auto simp: ring_ok_def old_def)
  then have M: "?len < ?M" "?M \<le> ?S" using ring_wrap_le by auto
  show ?thesis
  proof (cases "old + n < ?M")
    case True
    then have "head = old + n" by (simp add: head_def old_def)
    then show ?thesis using assms(2) M True by simp
  next
    case False
    then have head: "head = old + n - ?M"
      using le_mod_geq [of ?M "old + n"] len(3) assms(3) M(1) by (simp add: head_def old_def)
    have rem: "?S - ?M = ?S mod ?len" unfolding ring_wrap_def using mod_less_eq_dividend [of ?S ?len] by linarith
    have sub: "size_sub head n = old + (?S - ?M)"
    proof -
      have "head + ?S - n = old + (?S - ?M)" "old + (?S - ?M) < ?S"
        using head False len(3) M assms(3) by linarith+
      then show ?thesis unfolding size_sub_def by (simp only: mod_less)
    qed
    have "head < n" "\<not> head > old" using head len(3) False M(1) assms(3) by linarith+
    moreover have "size_sub 0 ?len mod ?len = ?S mod ?len"
    proof -
      have "size_sub 0 ?len = ?S - ?len" unfolding size_sub_def using len by simp
      then show ?thesis using le_mod_geq [of ?len ?S] len(1,2) by simp
    qed
    moreover have "?S = ?M" if "mm_mask mm \<noteq> 0"
    proof -
      from that assms(1) obtain k where k: "?len = 2 ^ k" by (auto simp: ring_ok_def)
      have "(2 :: nat) ^ k \<le> 2 ^ 64" using len(2) unfolding k SIZE_RANGE_def by linarith
      then have "k \<le> 64" by (rule power_le_imp_le_exp [rotated]) simp
      then have "?len dvd ?S" unfolding k SIZE_RANGE_def by (rule le_imp_power_dvd)
      then have "?S mod ?len = 0" by simp
      then show ?thesis by (simp add: ring_wrap_def)
    qed
    moreover have "size_sub (old + (?S - ?M)) (?S mod ?len) = old"
      unfolding rem [symmetric] using len(3) M(2) by simp
    ultimately show ?thesis using sub by auto
  qed
qed

lemma padding_size:
  fixes n :: nat
  defines "p \<equiv> n AND 7"
  shows "8 dvd n + (if p \<noteq> 0 then 8 - p else 0)" and "(if p \<noteq> 0 then 8 - p else 0) < 8"
proof -
  have "p = n mod 8" unfolding p_def
    using take_bit_eq_mask [of 3 n] by (simp add: mask_eq_exp_minus_1 take_bit_eq_mod)
  then show "8 dvd n + (if p \<noteq> 0 then 8 - p else 0)" "(if p \<noteq> 0 then 8 - p else 0) < 8" by presburger+
qed

section \<open>Properties\<close>



end
