(* ===== verification/Perf_Ctype.thy ===== *)
theory Perf_Ctype
  imports Perf_Prelude
begin

text \<open>
  The character classes of \<open>util/ctype.c\<close> and \<open>util/sane_ctype.h\<close>, a table of 256 entries, and
  the ASCII ranges it amounts to.
\<close>

section \<open>Character classes\<close>

definition GIT_SPACE :: nat where "GIT_SPACE = 0x01"
definition GIT_DIGIT :: nat where "GIT_DIGIT = 0x02"
definition GIT_ALPHA :: nat where "GIT_ALPHA = 0x04"
definition GIT_GLOB_SPECIAL :: nat where "GIT_GLOB_SPECIAL = 0x08"
definition GIT_REGEX_SPECIAL :: nat where "GIT_REGEX_SPECIAL = 0x10"
definition GIT_PRINT_EXTRA :: nat where "GIT_PRINT_EXTRA = 0x20"
definition GIT_PRINT :: nat where "GIT_PRINT = 0x3E"

lemmas git_masks = GIT_SPACE_def GIT_DIGIT_def GIT_ALPHA_def GIT_GLOB_SPECIAL_def
  GIT_REGEX_SPECIAL_def GIT_PRINT_EXTRA_def GIT_PRINT_def

definition sane_ctype :: "nat list" where
  "sane_ctype =
     (let S = GIT_SPACE; A = GIT_ALPHA; D = GIT_DIGIT; G = GIT_GLOB_SPECIAL; R = GIT_REGEX_SPECIAL;
          P = GIT_PRINT_EXTRA; PS = GIT_SPACE OR GIT_PRINT_EXTRA in
      [0, 0, 0, 0, 0, 0, 0, 0, 0, S, S, 0, 0, S, 0, 0,
       0, 0, 0, 0, 0, 0, 0, 0, 0, 0, 0, 0, 0, 0, 0, 0,
       PS,P, P, P, R, P, P, P, R, R, G, R, P, P, R, P,
       D, D, D, D, D, D, D, D, D, D, P, P, P, P, P, G,
       P, A, A, A, A, A, A, A, A, A, A, A, A, A, A, A,
       A, A, A, A, A, A, A, A, A, A, A, G, G, P, R, P,
       P, A, A, A, A, A, A, A, A, A, A, A, A, A, A, A,
       A, A, A, A, A, A, A, A, A, A, A, R, R, P, P, 0] @ replicate 128 0)"

text \<open>The value of a character as \<open>unsigned char\<close>, and as the signed \<open>char\<close> of x86.\<close>

definition uchar :: "char \<Rightarrow> nat" where
  "uchar c = of_char c"

definition schar :: "char \<Rightarrow> int" where
  "schar c = (if uchar c < 128 then int (uchar c) else int (uchar c) - 256)"

definition sane_istest :: "char \<Rightarrow> nat \<Rightarrow> bool" where
  "sane_istest x msk \<longleftrightarrow> sane_ctype ! uchar x AND msk \<noteq> 0"

definition isspace :: "char \<Rightarrow> bool" where
  "isspace x \<longleftrightarrow> sane_istest x GIT_SPACE"

definition isdigit :: "char \<Rightarrow> bool" where
  "isdigit x \<longleftrightarrow> sane_istest x GIT_DIGIT"

definition isalpha :: "char \<Rightarrow> bool" where
  "isalpha x \<longleftrightarrow> sane_istest x GIT_ALPHA"

definition isalnum :: "char \<Rightarrow> bool" where
  "isalnum x \<longleftrightarrow> sane_istest x (GIT_ALPHA OR GIT_DIGIT)"

definition isprint :: "char \<Rightarrow> bool" where
  "isprint x \<longleftrightarrow> sane_istest x GIT_PRINT"

definition islower :: "char \<Rightarrow> bool" where
  "islower x \<longleftrightarrow> sane_istest x GIT_ALPHA \<and> uchar x AND 0x20 \<noteq> 0"

definition isupper :: "char \<Rightarrow> bool" where
  "isupper x \<longleftrightarrow> sane_istest x GIT_ALPHA \<and> uchar x AND 0x20 = 0"

definition sane_case :: "char \<Rightarrow> nat \<Rightarrow> char" where
  "sane_case x high =
     (if sane_istest x GIT_ALPHA then char_of ((uchar x AND (0xff - 0x20)) OR high) else x)"

definition tolower :: "char \<Rightarrow> char" where
  "tolower x = sane_case x 0x20"

definition toupper :: "char \<Rightarrow> char" where
  "toupper x = sane_case x 0"

definition isxdigit :: "char \<Rightarrow> bool" where
  "isxdigit x \<longleftrightarrow> sane_istest (toupper x) (GIT_ALPHA OR GIT_DIGIT) \<and> uchar (toupper x) < uchar (CHR ''G'')"

text \<open>The classes are the ASCII ones; the whole table is checked.\<close>

lemma uchar_less: "uchar c < 256"
  using nat_of_char_less_256 [of c] by (simp add: uchar_def)

lemma uchar_char_of: "n < 256 \<Longrightarrow> uchar (char_of n) = n"
  by (simp add: uchar_def)

lemma char_of_uchar [simp]: "char_of (uchar c) = c"
  by (simp add: uchar_def)

lemma uchar_inject [simp]: "uchar c = uchar d \<longleftrightarrow> c = d"
  by (simp add: uchar_def)

lemma sane_ctype_high: "128 \<le> n \<Longrightarrow> n < 256 \<Longrightarrow> sane_ctype ! n = 0"
proof -
  assume n: "128 \<le> n" "n < 256"
  have "drop 128 sane_ctype = replicate 128 0" by (simp add: sane_ctype_def)
  moreover have "length sane_ctype = 256" by (simp add: sane_ctype_def)
  ultimately show ?thesis using n nth_drop [of 128 sane_ctype "n - 128"] by simp
qed

lemma enumerate_all:
  assumes "list_all (\<lambda>(n, v). P n v) (List.enumerate k xs)" "n < length xs"
  shows "P (k + n) (xs ! n)"
  using assms by (auto simp: list_all_length nth_enumerate_eq)

lemma sane_ctype_rows:
  "list_all (\<lambda>(n, v). ((v AND GIT_SPACE \<noteq> 0) = (n = 9 \<or> n = 10 \<or> n = 13 \<or> n = 32)) \<and>
     ((v AND GIT_DIGIT \<noteq> 0) = (48 \<le> n \<and> n \<le> 57)) \<and>
     ((v AND GIT_ALPHA \<noteq> 0) = (65 \<le> n \<and> n \<le> 90 \<or> 97 \<le> n \<and> n \<le> 122)) \<and>
     ((v AND (GIT_ALPHA OR GIT_DIGIT) \<noteq> 0) = (48 \<le> n \<and> n \<le> 57 \<or> 65 \<le> n \<and> n \<le> 90 \<or> 97 \<le> n \<and> n \<le> 122)))
     (List.enumerate 0 (take 128 sane_ctype))"
  by (simp add: sane_ctype_def git_masks)

lemma sane_ctype_ascii:
  assumes "n < 256"
  shows "(sane_ctype ! n AND GIT_SPACE \<noteq> 0) = (n = 9 \<or> n = 10 \<or> n = 13 \<or> n = 32)"
    and "(sane_ctype ! n AND GIT_DIGIT \<noteq> 0) = (48 \<le> n \<and> n \<le> 57)"
    and "(sane_ctype ! n AND GIT_ALPHA \<noteq> 0) = (65 \<le> n \<and> n \<le> 90 \<or> 97 \<le> n \<and> n \<le> 122)"
    and "(sane_ctype ! n AND (GIT_ALPHA OR GIT_DIGIT) \<noteq> 0) =
      (48 \<le> n \<and> n \<le> 57 \<or> 65 \<le> n \<and> n \<le> 90 \<or> 97 \<le> n \<and> n \<le> 122)"
proof -
  have len: "length (take 128 sane_ctype) = 128" by (simp add: sane_ctype_def)
  note rows = enumerate_all [OF sane_ctype_rows, of n, unfolded len]
  show "(sane_ctype ! n AND GIT_SPACE \<noteq> 0) = (n = 9 \<or> n = 10 \<or> n = 13 \<or> n = 32)"
    and "(sane_ctype ! n AND GIT_DIGIT \<noteq> 0) = (48 \<le> n \<and> n \<le> 57)"
    and "(sane_ctype ! n AND GIT_ALPHA \<noteq> 0) = (65 \<le> n \<and> n \<le> 90 \<or> 97 \<le> n \<and> n \<le> 122)"
    and "(sane_ctype ! n AND (GIT_ALPHA OR GIT_DIGIT) \<noteq> 0) =
      (48 \<le> n \<and> n \<le> 57 \<or> 65 \<le> n \<and> n \<le> 90 \<or> 97 \<le> n \<and> n \<le> 122)"
    using rows sane_ctype_high [OF _ assms] assms by (cases "n < 128"; simp)+
qed

lemma isspace_iff: "isspace c \<longleftrightarrow> uchar c \<in> {9, 10, 13, 32}"
  unfolding isspace_def sane_istest_def sane_ctype_ascii [OF uchar_less] by simp

lemma isdigit_iff: "isdigit c \<longleftrightarrow> 48 \<le> uchar c \<and> uchar c \<le> 57"
  unfolding isdigit_def sane_istest_def sane_ctype_ascii [OF uchar_less] by simp

lemma isalpha_iff: "isalpha c \<longleftrightarrow> 65 \<le> uchar c \<and> uchar c \<le> 90 \<or> 97 \<le> uchar c \<and> uchar c \<le> 122"
  unfolding isalpha_def sane_istest_def sane_ctype_ascii [OF uchar_less] by simp

lemma isalnum_iff: "isalnum c \<longleftrightarrow> isalpha c \<or> isdigit c"
  unfolding isalnum_def isalpha_iff isdigit_iff sane_istest_def sane_ctype_ascii [OF uchar_less] by auto

end
