(* ===== verification/C_Library.thy ===== *)
theory C_Library
  imports Perf_Ctype
begin

text \<open>
  What the string code uses of the C library. A C string is an array of characters with a
  terminator in it, \<open>s @ NUL # rest\<close> in the lemmas; a \<open>char *\<close> is an index into its array,
  and every access is checked.
\<close>

abbreviation (input) NUL :: char where
  "NUL \<equiv> CHR 0x00"

section \<open>Scanning\<close>

text \<open>\<open>while (P (*p)) p++;\<close>\<close>

function scan :: "(char \<Rightarrow> bool) \<Rightarrow> char list \<Rightarrow> nat \<Rightarrow> nat option" where
  "scan P buf p = do {
     c \<leftarrow> rd buf p;
     if P c then scan P buf (p + 1) else Some p
   }"
  by pat_completeness auto
termination
  by (relation "measure (\<lambda>(P, buf, p). length buf - p)") (auto simp: rd_eq_Some)

declare scan.simps [simp del]

lemma scan_run:
  "list_all P s \<Longrightarrow> \<not> P c \<Longrightarrow> scan P (pre @ s @ c # rest) (length pre) = Some (length pre + length s)"
proof (induction s arbitrary: pre)
  case Nil
  then show ?case by (simp add: scan.simps nth_append)
next
  case (Cons x s)
  from Cons.IH [of "pre @ [x]"] Cons.prems show ?case
    by (subst scan.simps) (simp add: nth_append)
qed

lemma scan_spec:
  assumes "\<not> P NUL" and "p \<le> length s"
  shows "scan P (s @ NUL # rest) p = Some (p + length (takeWhile P (drop p s)))"
proof -
  let ?t = "takeWhile P (drop p s)" and ?d = "dropWhile P (drop p s)"
  have split: "s = take p s @ ?t @ ?d" by simp
  have len: "length (take p s) = p" using assms(2) by simp
  have all: "list_all P ?t" by (simp add: list_all_iff) (metis set_takeWhileD)
  show ?thesis
  proof (cases ?d)
    case Nil
    then show ?thesis
      using scan_run [OF all assms(1), of "take p s" rest] len split by (metis append.assoc append_Nil2)
  next
    case (Cons c d)
    then have "\<not> P c" by (metis dropWhile_eq_Cons_conv)
    from scan_run [OF all this, of "take p s" "d @ NUL # rest"] Cons len split show ?thesis
      by (metis append.assoc append_Cons)
  qed
qed

definition strlen :: "char list \<Rightarrow> nat \<Rightarrow> nat option" where
  "strlen buf p = do { e \<leftarrow> scan (\<lambda>c. c \<noteq> NUL) buf p; Some (e - p) }"

lemma takeWhile_not_nul: "NUL \<notin> set s \<Longrightarrow> takeWhile (\<lambda>c. c \<noteq> NUL) s = s"
  by (induction s) auto

lemma strlen_spec: "NUL \<notin> set s \<Longrightarrow> p \<le> length s \<Longrightarrow> strlen (s @ NUL # rest) p = Some (length s - p)"
proof -
  assume "NUL \<notin> set s" "p \<le> length s"
  moreover from this have "takeWhile (\<lambda>c. c \<noteq> NUL) (drop p s) = drop p s"
    using set_drop_subset [of p s] by (intro takeWhile_not_nul) auto
  ultimately show ?thesis unfolding strlen_def using scan_spec [of "\<lambda>c. c \<noteq> NUL" p s rest] by (simp del: takeWhile_eq_all_conv)
qed

text \<open>\<open>strchr (p, c)\<close>: the position of the character, \<open>None\<close> for \<open>NULL\<close>.\<close>

definition strchr :: "char list \<Rightarrow> nat \<Rightarrow> char \<Rightarrow> nat option option" where
  "strchr buf p c = do {
     q \<leftarrow> scan (\<lambda>x. x \<noteq> c \<and> x \<noteq> NUL) buf p;
     x \<leftarrow> rd buf q;
     Some (if x = c then Some q else None)
   }"

text \<open>\<open>strpbrk (p, set)\<close>.\<close>

definition strpbrk :: "char list \<Rightarrow> nat \<Rightarrow> char set \<Rightarrow> nat option option" where
  "strpbrk buf p stop = do {
     q \<leftarrow> scan (\<lambda>x. x \<notin> stop \<and> x \<noteq> NUL) buf p;
     x \<leftarrow> rd buf q;
     Some (if x = NUL then None else Some q)
   }"

text \<open>\<open>strcmp (p, s) == 0\<close>; the comparison stops at the first difference.\<close>

fun streq :: "char list \<Rightarrow> nat \<Rightarrow> string \<Rightarrow> bool option" where
  "streq buf p [] = do { c \<leftarrow> rd buf p; Some (c = NUL) }"
| "streq buf p (x # s) = do {
     c \<leftarrow> rd buf p;
     if c = x then streq buf (p + 1) s else Some False
   }"

lemma streq_spec:
  "NUL \<notin> set s \<Longrightarrow> NUL \<notin> set t \<Longrightarrow>
    streq (pre @ s @ NUL # rest) (length pre) t = Some (s = t)"
proof (induction t arbitrary: pre s)
  case Nil
  then show ?case by (cases s) (auto simp: nth_append)
next
  case (Cons x t)
  show ?case
  proof (cases s)
    case Nil
    then show ?thesis using Cons.prems by (auto simp: nth_append)
  next
    case s: (Cons y s')
    from Cons.IH [of s' "pre @ [y]"] Cons.prems s show ?thesis by (auto simp: nth_append)
  qed
qed

section \<open>Numbers\<close>

text \<open>
  \<open>strtol\<close> and its relatives for base 10: leading white space of the C locale, a sign, digits.
  The value is that of the digits, however many; the callers clamp it to their type. Without a
  digit the result is 0 and the end pointer is the start.
\<close>

definition c_isspace :: "char \<Rightarrow> bool" where
  "c_isspace c \<longleftrightarrow> 9 \<le> uchar c \<and> uchar c \<le> 13 \<or> uchar c = 32"

definition digit_val :: "char \<Rightarrow> nat" where
  "digit_val c = uchar c - 48"

function digits_loop :: "char list \<Rightarrow> nat \<Rightarrow> nat \<Rightarrow> (nat \<times> nat) option" where
  "digits_loop buf p acc = do {
     c \<leftarrow> rd buf p;
     if isdigit c then digits_loop buf (p + 1) (10 * acc + digit_val c) else Some (acc, p)
   }"
  by pat_completeness auto
termination
  by (relation "measure (\<lambda>(buf, p, acc). length buf - p)") (auto simp: rd_eq_Some)

declare digits_loop.simps [simp del]

text \<open>Whether there is a minus sign, the value of the digits, and the end.\<close>

definition strtol10 :: "char list \<Rightarrow> nat \<Rightarrow> (bool \<times> nat \<times> nat) option" where
  "strtol10 buf p = do {
     q \<leftarrow> scan c_isspace buf p;
     s \<leftarrow> rd buf q;
     let q' = (if s = CHR ''-'' \<or> s = CHR ''+'' then q + 1 else q);
     (v, e) \<leftarrow> digits_loop buf q' 0;
     Some (s = CHR ''-'', v, if e = q' then p else e)
   }"

definition strtoll :: "char list \<Rightarrow> nat \<Rightarrow> (int \<times> nat) option" where
  "strtoll buf p = do {
     (neg, v, e) \<leftarrow> strtol10 buf p;
     Some (max (- (2 ^ 63)) (min (2 ^ 63 - 1) (if neg then - int v else int v)), e)
   }"

definition strtoull :: "char list \<Rightarrow> nat \<Rightarrow> (u64 \<times> nat) option" where
  "strtoull buf p = do {
     (neg, v, e) \<leftarrow> strtol10 buf p;
     Some (if v \<ge> 2 ^ 64 then - 1 else if neg then - of_nat v else of_nat v, e)
   }"

lemma digits_loop_run:
  "list_all isdigit s \<Longrightarrow> \<not> isdigit c \<Longrightarrow>
    digits_loop (pre @ s @ c # rest) (length pre) acc =
      Some (foldl (\<lambda>a x. 10 * a + digit_val x) acc s, length pre + length s)"
proof (induction s arbitrary: pre acc)
  case Nil
  then show ?case by (simp add: digits_loop.simps nth_append)
next
  case (Cons x s)
  from Cons.IH [of "pre @ [x]"] Cons.prems show ?case
    by (subst digits_loop.simps) (simp add: nth_append)
qed

lemma digit_char_digit: "d < 10 \<Longrightarrow> isdigit (digit_char d) \<and> digit_val (digit_char d) = d"
proof -
  assume d: "d < 10"
  have "list_all (\<lambda>d. uchar (digit_char d) = 48 + d) [0..<10]"
    by (simp add: upt_rec digit_char_def uchar_def of_char_def)
  then have "uchar (digit_char d) = 48 + d" using d by (simp add: list_all_iff)
  then show ?thesis using d by (simp add: isdigit_iff digit_val_def)
qed

lemma digits_base_10:
  "list_all isdigit (digits_base 10 n) \<and> foldl (\<lambda>a x. 10 * a + digit_val x) 0 (digits_base 10 n) = n \<and>
    digits_base 10 n \<noteq> []"
proof (induction "10 :: nat" n rule: digits_base.induct)
  case (1 n)
  show ?case
  proof (cases "n < 10")
    case True
    then show ?thesis using digit_char_digit by (subst (1 2 3) digits_base.simps) simp
  next
    case False
    then show ?thesis using 1 digit_char_digit [of "n mod 10"]
      by (subst (1 2 3) digits_base.simps) simp
  qed
qed

lemma fmt_u_digits: "list_all isdigit (fmt_u n)" "fmt_u n \<noteq> []"
  by (simp_all add: fmt_u_def digits_base_10)

lemma digits_loop_fmt_u:
  "\<not> isdigit c \<Longrightarrow> digits_loop (pre @ fmt_u n @ c # rest) (length pre) 0 = Some (n, length pre + length (fmt_u n))"
  using digits_loop_run [of "fmt_u n" c pre rest 0] digits_base_10 [of n] by (simp add: fmt_u_def)

lemma digit_not: "isdigit c \<Longrightarrow> \<not> c_isspace c \<and> c \<noteq> CHR ''-'' \<and> c \<noteq> CHR ''+'' \<and> c \<noteq> NUL"
  by (auto simp: isdigit_iff c_isspace_def uchar_def)

lemma strtol10_digits:
  assumes "list_all isdigit s" "s \<noteq> []" "\<not> isdigit c"
  shows "strtol10 (pre @ s @ c # rest) (length pre) =
    Some (False, foldl (\<lambda>a x. 10 * a + digit_val x) 0 s, length pre + length s)"
proof -
  obtain d t where s: "s = d # t" using assms(2) by (cases s) auto
  then have d: "\<not> c_isspace d" "d \<noteq> CHR ''-''" "d \<noteq> CHR ''+''" using assms(1) digit_not by auto
  have "scan c_isspace (pre @ s @ c # rest) (length pre) = Some (length pre)"
    using s d by (subst scan.simps) (simp add: nth_append)
  then show ?thesis
    using digits_loop_run [OF assms(1,3), of pre rest 0] s d assms(2)
    by (simp add: strtol10_def nth_append)
qed

lemma strtol10_fmt_u:
  "\<not> isdigit c \<Longrightarrow> strtol10 (pre @ fmt_u n @ c # rest) (length pre) = Some (False, n, length pre + length (fmt_u n))"
  using strtol10_digits [OF fmt_u_digits, of c pre n rest] digits_base_10 [of n] by (simp add: fmt_u_def)

section \<open>Bounded printing\<close>

text \<open>
  \<open>scnprintf (mem + pos, size, ...)\<close> for a text is a helper outside the tool: like \<open>snprintf\<close>,
  but it returns how many characters it stored.
\<close>

type_synonym scnprintf = "char list \<Rightarrow> nat \<Rightarrow> nat \<Rightarrow> string \<Rightarrow> (nat \<times> char list) option"

definition scnprintf_law :: "scnprintf \<Rightarrow> bool" where
  "scnprintf_law f \<longleftrightarrow> (\<forall>mem pos sz s. 0 < sz \<longrightarrow>
     f mem pos sz s = map_option (\<lambda>(r, mem). (min (length s) (sz - 1), mem)) (snprintf mem pos sz s))"

definition scnprintf_ref :: scnprintf where
  "scnprintf_ref mem pos sz s = map_option (\<lambda>(r, mem). (min (length s) (sz - 1), mem)) (snprintf mem pos sz s)"

lemma scnprintf_ref_law: "scnprintf_law scnprintf_ref"
  by (simp add: scnprintf_law_def scnprintf_ref_def)

text \<open>
  Printing at the end of a text in a buffer of \<open>sz\<close> characters: the buffer holds the text,
  cut off to leave room for the terminator.
\<close>

lemma scnprintf_append:
  assumes "scnprintf_law f" "t = take (sz - 1) txt" "length t + length y = sz" "0 < sz" "sz < SIZE_RANGE"
  shows "\<exists>n y'. f (t @ y) (length t) (size_sub sz (length t)) s = Some (n, take (sz - 1) (txt @ s) @ NUL # y') \<and>
    length t + n = length (take (sz - 1) (txt @ s)) \<and> length (take (sz - 1) (txt @ s)) + Suc (length y') = sz"
proof -
  define k where "k = sz - length t"
  have k: "0 < k" "size_sub sz (length t) = k" "k = length y" using assms by (auto simp: k_def)
  define u where "u = take (k - 1) s"
  have tu: "t @ u = take (sz - 1) (txt @ s)"
  proof (cases "length txt \<le> sz - 1")
    case True
    then show ?thesis using assms(2) by (simp add: u_def k_def)
  next
    case False
    then have "length t = sz - 1" using assms(2) by simp
    then show ?thesis using False assms(2,4) by (simp add: u_def k_def)
  qed
  have lt: "length u < length y" using k by (cases y) (auto simp: u_def)
  have "min (length s) (k - 1) = length u" "take (length u) s = u" by (auto simp: u_def min_def)
  then have "snprintf (t @ y) (length t) k s = Some (int (length s), t @ u @ NUL # drop (length u + 1) y)"
    using k lt by (simp add: snprintf_def Let_def)
  then have "f (t @ y) (length t) k s = Some (length u, t @ u @ NUL # drop (length u + 1) y)"
    using assms(1) k(1) \<open>min (length s) (k - 1) = length u\<close> by (simp add: scnprintf_law_def)
  then show ?thesis unfolding k(2) tu [symmetric] using assms(3) lt
    by (intro exI [of _ "length u"] exI [of _ "drop (length u + 1) y"]) simp
qed

end
