(* ===== verification/Perf_String.thy ===== *)
theory Perf_String
  imports C_Library "HOL-Library.Sublist"
begin

text \<open>
  The string utilities of \<open>util/string.c\<close>: sizes with units, splitting into words, glob
  patterns, trimming, escapes, and filter expressions over integers.
\<close>

section \<open>Definitions\<close>

subsection \<open>Sizes with a unit\<close>

text \<open>A shift of a 64-bit signed number, which wraps around.\<close>

definition shl64 :: "int \<Rightarrow> nat \<Rightarrow> int" where
  "shl64 i n = sint (push_bit n (word_of_int i :: u64))"

definition unit_shift :: "char \<Rightarrow> nat option" where
  "unit_shift c =
     (if c = CHR ''k'' \<or> c = CHR ''K'' then Some 10
      else if c = CHR ''m'' \<or> c = CHR ''M'' then Some 20
      else if c = CHR ''g'' \<or> c = CHR ''G'' then Some 30
      else if c = CHR ''t'' \<or> c = CHR ''T'' then Some 40
      else None)"

definition perf_atoll :: "char list \<Rightarrow> nat \<Rightarrow> int option" where
  "perf_atoll buf str = do {
     c0 \<leftarrow> rd buf str;
     if \<not> isdigit c0 then Some (- 1)
     else do {
       (len, p) \<leftarrow> strtoll buf str;
       c \<leftarrow> rd buf p;
       let p = p + 1;
       if c = CHR ''b'' \<or> c = CHR ''B'' then do {
         d \<leftarrow> rd buf p;
         Some (if d \<noteq> NUL then - 1 else len)
       } else if c = NUL then Some len
       else case unit_shift c of
           None \<Rightarrow> Some (- 1)
         | Some k \<Rightarrow> do {
             let len = shl64 len k;
             eq \<leftarrow> streq buf p (if islower c then ''b'' else ''B'');
             Some (if eq then len else - 1)
           }
     }
   }"

subsection \<open>Splitting into words\<close>

definition skip_sep :: "char list \<Rightarrow> nat \<Rightarrow> nat option" where
  "skip_sep buf cp = scan (\<lambda>c. c \<noteq> NUL \<and> isspace c) buf cp"

definition skip_arg :: "char list \<Rightarrow> nat \<Rightarrow> nat option" where
  "skip_arg buf cp = scan (\<lambda>c. c \<noteq> NUL \<and> \<not> isspace c) buf cp"

partial_function (option) count_argc :: "char list \<Rightarrow> nat \<Rightarrow> nat \<Rightarrow> nat option" where
  "count_argc buf str cnt = do {
     c \<leftarrow> rd buf str;
     if c = NUL then Some cnt
     else do {
       str \<leftarrow> skip_sep buf str;
       c \<leftarrow> rd buf str;
       if c \<noteq> NUL then do {
         str \<leftarrow> skip_arg buf str;
         count_argc buf str (cnt + 1)
       } else count_argc buf str cnt
     }
   }"

text \<open>
  The loop of \<open>argv_split\<close>. The \<open>argv\<close> array holds pointers, \<open>None\<close> for \<open>NULL\<close>; \<open>oom\<close> tells
  for each string whether \<open>strndup\<close> fails. The inner \<open>None\<close> is the jump to \<open>fail\<close>.
\<close>

partial_function (option) argv_loop ::
  "(string \<Rightarrow> bool) \<Rightarrow> char list \<Rightarrow> nat \<Rightarrow> string option list \<Rightarrow> nat \<Rightarrow> (string option list \<times> nat) option option"
where
  "argv_loop oom buf str argv argvp = do {
     c \<leftarrow> rd buf str;
     if c = NUL then Some (Some (argv, argvp))
     else do {
       str \<leftarrow> skip_sep buf str;
       c \<leftarrow> rd buf str;
       if c \<noteq> NUL then do {
         let p = str;
         str \<leftarrow> skip_arg buf str;
         let t = take (str - p) (drop p buf);
         if oom t then Some None
         else do {
           argv \<leftarrow> wr argv argvp (Some t);
           argv_loop oom buf str argv (argvp + 1)
         }
       } else argv_loop oom buf str argv argvp
     }
   }"

text \<open>The result is the array and the count, or \<open>None\<close> for \<open>NULL\<close>.\<close>

definition argv_split ::
  "bool \<Rightarrow> (string \<Rightarrow> bool) \<Rightarrow> char list \<Rightarrow> nat \<Rightarrow> (string option list \<times> nat) option option"
where
  "argv_split oom_argv oom buf str = do {
     argc \<leftarrow> count_argc buf str 0;
     let argv = replicate (argc + 1) None;
     if oom_argv then Some None
     else do {
       r \<leftarrow> argv_loop oom buf str argv 0;
       case r of
         None \<Rightarrow> Some None
       | Some (argv, argvp) \<Rightarrow> do {
           argv \<leftarrow> wr argv argvp None;
           Some (Some (argv, argc))
         }
     }
   }"

subsection \<open>Glob patterns\<close>

text \<open>
  The matching loop of a character class. The first component of the result is the value of
  \<open>ret\<close> at the label \<open>end\<close>, or \<open>None\<close> at the label \<open>error\<close>.
\<close>

function class_loop :: "char list \<Rightarrow> nat \<Rightarrow> char \<Rightarrow> (bool option \<times> nat) option" where
  "class_loop buf pat c = do {
     x \<leftarrow> rd buf pat;
     if x \<noteq> NUL \<and> x \<noteq> CHR '']'' then do {
       y \<leftarrow> (if x = CHR ''-'' then rd buf (pat + 1) else Some (CHR '']''));
       if x = CHR ''-'' \<and> y \<noteq> CHR '']'' then do {
         z \<leftarrow> (if pat = 0 then None else rd buf (pat - 1));
         if schar z \<le> schar c \<and> schar c \<le> schar y then Some (Some True, pat)
         else if schar z > schar y then Some (None, pat)
         else class_loop buf (pat + 2) c
       } else if x = c then Some (Some True, pat + 1)
       else class_loop buf (pat + 1) c
     } else Some (if x = NUL then None else Some False, pat)
   }"
  by pat_completeness auto
termination
  by (relation "measure (\<lambda>(buf, pat, c). length buf - pat)") (auto simp: rd_eq_Some)

declare class_loop.simps [simp del]

text \<open>The result of the match, and the pattern position stored through \<open>npat\<close>, if it was.\<close>

definition match_charclass :: "char list \<Rightarrow> nat \<Rightarrow> char \<Rightarrow> (bool \<times> nat option) option" where
  "match_charclass buf pat c = do {
     x \<leftarrow> rd buf pat;
     let complement = (x = CHR ''!'');
     let pat = (if complement then pat + 1 else pat);
     x \<leftarrow> rd buf pat;
     (ret, pat) \<leftarrow> (if x = c then Some (Some True, pat + 1) else class_loop buf (pat + 1) c);
     case ret of
       None \<Rightarrow> Some (False, None)
     | Some ret \<Rightarrow> do {
         pat \<leftarrow> scan (\<lambda>x. x \<noteq> NUL \<and> x \<noteq> CHR '']'') buf pat;
         x \<leftarrow> rd buf pat;
         if x = NUL then Some (False, None)
         else Some (if complement then \<not> ret else ret, Some (pat + 1))
       }
   }"

text \<open>
  \<open>__match_glob\<close> and the loop that tries the rest of a pattern after a star on every suffix.
  \<open>sb\<close> and \<open>pb\<close> are the arrays of the string and of the pattern.
\<close>

partial_function (option) match_glob ::
  "char list \<Rightarrow> char list \<Rightarrow> bool \<Rightarrow> bool \<Rightarrow> bool \<Rightarrow> nat \<Rightarrow> nat \<Rightarrow> bool option"
where
  "match_glob sb pb ignore_space case_ins star str pat =
     (if star then do {
        c \<leftarrow> rd sb str;
        if c = NUL then Some False
        else do {
          m \<leftarrow> match_glob sb pb ignore_space case_ins False str pat;
          if m then Some True else match_glob sb pb ignore_space case_ins True (str + 1) pat
        }
      } else do {
        c \<leftarrow> rd sb str;
        x \<leftarrow> rd pb pat;
        if c \<noteq> NUL \<and> x \<noteq> NUL \<and> x \<noteq> CHR ''*'' then
          if ignore_space \<and> isspace c then match_glob sb pb ignore_space case_ins False (str + 1) pat
          else if ignore_space \<and> isspace x then match_glob sb pb ignore_space case_ins False str (pat + 1)
          else if x = CHR ''?'' then match_glob sb pb ignore_space case_ins False (str + 1) (pat + 1)
          else if x = CHR ''['' then do {
            (m, npat) \<leftarrow> match_charclass pb (pat + 1) c;
            if m then match_glob sb pb ignore_space case_ins False (str + 1)
                        (case npat of None \<Rightarrow> pat | Some n \<Rightarrow> n)
            else Some False
          } else do {
            let pat = (if x = CHR 0x5c then pat + 1 else pat);
            x \<leftarrow> rd pb pat;
            if (if case_ins then tolower c \<noteq> tolower x else c \<noteq> x) then Some False
            else match_glob sb pb ignore_space case_ins False (str + 1) (pat + 1)
          }
        else if x = CHR ''*'' then do {
          pat \<leftarrow> scan (\<lambda>x. x = CHR ''*'') pb pat;
          x \<leftarrow> rd pb pat;
          if x = NUL then Some True
          else match_glob sb pb ignore_space case_ins True str pat
        } else Some (c = NUL \<and> x = NUL)
      })"

definition strglobmatch :: "char list \<Rightarrow> char list \<Rightarrow> bool option" where
  "strglobmatch str pat = match_glob str pat False False False 0 0"

definition strglobmatch_nocase :: "char list \<Rightarrow> char list \<Rightarrow> bool option" where
  "strglobmatch_nocase str pat = match_glob str pat False True False 0 0"

definition strlazymatch :: "char list \<Rightarrow> char list \<Rightarrow> bool option" where
  "strlazymatch str pat = match_glob str pat True False False 0 0"

subsection \<open>Comparing, replacing, trimming\<close>

function tailcmp_loop :: "char list \<Rightarrow> char list \<Rightarrow> int \<Rightarrow> int \<Rightarrow> int option" where
  "tailcmp_loop s1 s2 i1 i2 =
     (let i1 = i1 - 1 in
      if i1 \<ge> 0 then
        let i2 = i2 - 1 in
        if i2 \<ge> 0 then do {
          a \<leftarrow> rd s1 (nat i1);
          b \<leftarrow> rd s2 (nat i2);
          if a \<noteq> b then Some (schar a - schar b) else tailcmp_loop s1 s2 i1 i2
        } else Some 0
      else Some 0)"
  by pat_completeness auto
termination
  by (relation "measure (\<lambda>(s1, s2, i1, i2). nat i1)") auto

definition strtailcmp :: "char list \<Rightarrow> char list \<Rightarrow> int option" where
  "strtailcmp s1 s2 = do {
     i1 \<leftarrow> strlen s1 0;
     i2 \<leftarrow> strlen s2 0;
     tailcmp_loop s1 s2 (int i1) (int i2)
   }"

partial_function (option) xfr_loop :: "char list \<Rightarrow> nat \<Rightarrow> char \<Rightarrow> char \<Rightarrow> char list option" where
  "xfr_loop buf p from to = do {
     q \<leftarrow> strchr buf p from;
     case q of
       None \<Rightarrow> Some buf
     | Some p \<Rightarrow> do {
         buf \<leftarrow> wr buf p to;
         xfr_loop buf (p + 1) from to
       }
   }"

definition strxfrchar :: "char list \<Rightarrow> char \<Rightarrow> char \<Rightarrow> char list option" where
  "strxfrchar s from to = xfr_loop s 0 from to"

definition ltrim :: "char list \<Rightarrow> nat \<Rightarrow> nat option" where
  "ltrim buf s = scan isspace buf s"

text \<open>The position \<open>end\<close> is one before the string when every character was white space.\<close>

function rtrim_loop :: "char list \<Rightarrow> int \<Rightarrow> int option" where
  "rtrim_loop buf e =
     (if e \<ge> 0 then do {
        c \<leftarrow> rd buf (nat e);
        if isspace c then rtrim_loop buf (e - 1) else Some e
      } else Some e)"
  by pat_completeness auto
termination
  by (relation "measure (\<lambda>(buf, e). nat (e + 1))") auto

definition rtrim :: "char list \<Rightarrow> char list option" where
  "rtrim s = do {
     n \<leftarrow> strlen s 0;
     if n = 0 then Some s
     else do {
       e \<leftarrow> rtrim_loop s (int n - 1);
       wr s (nat (e + 1)) NUL
     }
   }"

subsection \<open>Escapes\<close>

definition memmove :: "'a list \<Rightarrow> nat \<Rightarrow> nat \<Rightarrow> nat \<Rightarrow> 'a list option" where
  "memmove buf d s n =
     (if d + n \<le> length buf \<and> s + n \<le> length buf
      then Some (take d buf @ take n (drop s buf) @ drop (d + n) buf) else None)"

text \<open>The first component of the result is \<open>None\<close> for \<open>NULL\<close>.\<close>

partial_function (option) strpbrk_esc :: "char list \<Rightarrow> nat \<Rightarrow> char set \<Rightarrow> nat option option" where
  "strpbrk_esc buf str stopset = do {
     ptr \<leftarrow> strpbrk buf str stopset;
     case ptr of
       None \<Rightarrow> Some None
     | Some ptr \<Rightarrow>
         if ptr = str then Some (Some ptr)
         else do {
           x \<leftarrow> rd buf (ptr - 1);
           if ptr = str + 1 \<and> x \<noteq> CHR 0x5c then Some (Some ptr)
           else if x = CHR 0x5c then do {
             y \<leftarrow> (if ptr < 2 then None else rd buf (ptr - 2));
             if y \<noteq> CHR 0x5c then strpbrk_esc buf (ptr + 1) stopset else Some (Some ptr)
           } else Some (Some ptr)
         }
   }"

partial_function (option) esc_loop :: "char list \<Rightarrow> nat \<Rightarrow> nat \<Rightarrow> char list option" where
  "esc_loop buf d s = do {
     c \<leftarrow> rd buf s;
     if c = NUL then wr buf d NUL
     else do {
       p \<leftarrow> strchr buf (s + 1) (CHR 0x5c);
       case p of
         Some p \<Rightarrow> do {
           buf \<leftarrow> memmove buf d s (p - s);
           esc_loop buf (d + (p - s)) (p + 1)
         }
       | None \<Rightarrow> do {
           n \<leftarrow> strlen buf s;
           memmove buf d s (n + 1)
         }
     }
   }"

text \<open>\<open>oom\<close> tells whether \<open>strdup\<close> fails; the result is \<open>None\<close> for \<open>NULL\<close>.\<close>

definition strdup_esc :: "bool \<Rightarrow> char list \<Rightarrow> char list option option" where
  "strdup_esc oom str = do {
     n \<leftarrow> strlen str 0;
     let ret = take (n + 1) str;
     if oom then Some None
     else do {
       d \<leftarrow> strchr ret 0 (CHR 0x5c);
       case d of
         None \<Rightarrow> Some (Some ret)
       | Some d \<Rightarrow> do {
           ret \<leftarrow> esc_loop ret d (d + 1);
           Some (Some ret)
         }
     }
   }"

subsection \<open>Filter expressions\<close>

fun expr_loop ::
  "scnprintf \<Rightarrow> string \<Rightarrow> string \<Rightarrow> string \<Rightarrow> nat \<Rightarrow> int list \<Rightarrow> nat \<Rightarrow> char list \<Rightarrow> nat \<Rightarrow> char list option option"
where
  "expr_loop scnprintf var or_and eq_neq sz [] i e printed = Some (Some e)"
| "expr_loop scnprintf var or_and eq_neq sz (x # ints) i e printed =
     (if printed = sz then Some None
      else do {
        (n, e) \<leftarrow>
          (if i > 0 then scnprintf e printed (size_sub sz printed) ('' '' @ or_and @ '' '') else Some (0, e));
        let printed = printed + n;
        (n, e) \<leftarrow> scnprintf e printed (size_sub sz printed) (var @ '' '' @ eq_neq @ '' '' @ fmt_d x);
        expr_loop scnprintf var or_and eq_neq sz ints (i + 1) e (printed + n)
      })"

text \<open>\<open>fresh\<close> is what \<open>malloc\<close> finds in the new memory; the result is \<open>None\<close> for \<open>NULL\<close>.\<close>

definition asprintf_expr_inout_ints ::
  "scnprintf \<Rightarrow> (nat \<Rightarrow> char) \<Rightarrow> bool \<Rightarrow> string \<Rightarrow> bool \<Rightarrow> int list \<Rightarrow> char list option option"
where
  "asprintf_expr_inout_ints scnprintf fresh oom var is_in ints =
     (let sz = (length ints * 28 + 1) mod SIZE_RANGE in
      if oom then Some None
      else
        let or_and = (if is_in then ''||'' else ''&&''); eq_neq = (if is_in then ''=='' else ''!='') in
        expr_loop scnprintf var or_and eq_neq sz ints 0 (map fresh [0..<sz]) 0)"

section \<open>Sizes with a unit\<close>

lemma nul_ctype [simp]: "\<not> isdigit NUL" "\<not> isspace NUL" "\<not> isalpha NUL"
  by (simp_all add: isdigit_iff isspace_iff isalpha_iff uchar_def)

definition atoll_units :: "(string \<times> nat) list" where
  "atoll_units = [('''', 0), (''b'', 0), (''B'', 0), (''kb'', 10), (''KB'', 10), (''mb'', 20), (''MB'', 20),
     (''gb'', 30), (''GB'', 30), (''tb'', 40), (''TB'', 40)]"

lemma strtoll_fmt_u:
  assumes "\<not> isdigit c" "n < 2 ^ 63"
  shows "strtoll (pre @ fmt_u n @ c # rest) (length pre) = Some (int n, length pre + length (fmt_u n))"
proof -
  have "int n < 2 ^ 63" using assms(2) by (metis of_nat_less_iff of_nat_numeral of_nat_power)
  then show ?thesis using strtol10_fmt_u [OF assms(1), of pre n rest] by (simp add: strtoll_def)
qed

lemma shl64_small: "n * 2 ^ k < 2 ^ 63 \<Longrightarrow> shl64 (int n) k = int (n * 2 ^ k)"
proof -
  assume a: "n * 2 ^ k < 2 ^ 63"
  have "push_bit k (word_of_int (int n) :: u64) = word_of_int (int (n * 2 ^ k))"
    by (simp add: push_bit_eq_mult)
  moreover have "sint (word_of_int (int (n * 2 ^ k)) :: u64) = int (n * 2 ^ k)"
  proof -
    have "int (n * 2 ^ k) < 2 ^ 63" using a by (metis of_nat_less_iff of_nat_numeral of_nat_power)
    then have "signed_take_bit 63 (int (n * 2 ^ k)) = int (n * 2 ^ k)"
      using of_nat_0_le_iff [of "n * 2 ^ k", where 'a = int] by (intro signed_take_bit_int_eq_self) linarith+
    then show ?thesis unfolding sint_sbintrunc' by simp
  qed
  ultimately show ?thesis by (simp add: shl64_def)
qed

lemma islower_units:
  "islower (CHR ''k'')" "islower (CHR ''m'')" "islower (CHR ''g'')" "islower (CHR ''t'')"
  "\<not> islower (CHR ''K'')" "\<not> islower (CHR ''M'')" "\<not> islower (CHR ''G'')" "\<not> islower (CHR ''T'')"
  using isalpha_iff [unfolded isalpha_def] by (simp_all add: islower_def uchar_def)

lemma fmt_u_Cons: "\<exists>d t. fmt_u n = d # t \<and> isdigit d"
  using fmt_u_digits [of n] by (cases "fmt_u n") auto

lemma perf_atoll_digits:
  assumes "\<not> isdigit c" "n < 2 ^ 63"
  shows "perf_atoll (fmt_u n @ c # rest) 0 =
    (if c = CHR ''b'' \<or> c = CHR ''B'' then do {
       d \<leftarrow> rd rest 0;
       Some (if d \<noteq> NUL then - 1 else int n)
     } else if c = NUL then Some (int n)
     else case unit_shift c of
       None \<Rightarrow> Some (- 1)
     | Some k \<Rightarrow> do {
         eq \<leftarrow> streq (fmt_u n @ c # rest) (length (fmt_u n) + 1) (if islower c then ''b'' else ''B'');
         Some (if eq then shl64 (int n) k else - 1)
       })"
proof -
  obtain d t where d: "fmt_u n = d # t" "isdigit d" using fmt_u_Cons by blast
  have "rd (fmt_u n @ c # rest) (length (fmt_u n) + 1) = rd rest 0" by (simp add: rd_def nth_append)
  moreover have "rd (fmt_u n @ c # rest) (length (fmt_u n)) = Some c" by simp
  moreover have "rd (fmt_u n @ c # rest) 0 = Some d" using d by simp
  ultimately show ?thesis
    using strtoll_fmt_u [OF assms, of "[]" rest] d(2) unfolding perf_atoll_def
    by (simp only: append_Nil list.size(3) add_0 bind.bind_lunit simp_thms if_False Let_def prod.case cong: if_cong option.case_cong)
qed

lemma unit_shift_chars:
  assumes "unit_shift c = Some k"
  shows "\<not> isdigit c" "c \<noteq> NUL" "c \<noteq> CHR ''b''" "c \<noteq> CHR ''B''"
proof -
  have "c \<in> set ''kKmMgGtT''" using assms unfolding unit_shift_def by (simp split: if_split_asm; blast)
  moreover have "list_all (\<lambda>c. \<not> isdigit c \<and> c \<noteq> NUL \<and> c \<noteq> CHR ''b'' \<and> c \<noteq> CHR ''B'') ''kKmMgGtT''"
    by (simp add: isdigit_iff uchar_def)
  ultimately show "\<not> isdigit c" "c \<noteq> NUL" "c \<noteq> CHR ''b''" "c \<noteq> CHR ''B''"
    unfolding list_all_iff by blast+
qed

lemma perf_atoll_two:
  assumes "unit_shift c = Some k" "n < 2 ^ 63"
  shows "perf_atoll (fmt_u n @ [c, if islower c then CHR ''b'' else CHR ''B''] @ NUL # rest) 0 = Some (shl64 (int n) k)"
proof -
  note c = unit_shift_chars [OF assms(1)]
  define b where "b = (if islower c then CHR ''b'' else CHR ''B'')"
  have b: "b \<noteq> NUL" "(if islower c then ''b'' else ''B'') = [b]" by (simp_all add: b_def)
  have "streq (fmt_u n @ c # b # NUL # rest) (length (fmt_u n) + 1) [b] = Some True"
    using streq_spec [of "[b]" "[b]" "fmt_u n @ [c]" rest] b(1) by simp
  then show ?thesis
    by (simp add: b_def [symmetric] b(2) perf_atoll_digits [OF c(1) assms(2)] c assms(1) del: streq.simps)
qed

lemma perf_atoll_one:
  "n < 2 ^ 63 \<Longrightarrow> perf_atoll (fmt_u n @ NUL # rest) 0 = Some (int n)"
  "n < 2 ^ 63 \<Longrightarrow> perf_atoll (fmt_u n @ [CHR ''b''] @ NUL # rest) 0 = Some (int n)"
  "n < 2 ^ 63 \<Longrightarrow> perf_atoll (fmt_u n @ [CHR ''B''] @ NUL # rest) 0 = Some (int n)"
  using perf_atoll_digits [of _ n] by (simp_all add: isdigit_iff uchar_def)

lemma perf_atoll_unit:
  assumes "(u, k) \<in> set atoll_units" and "n * 2 ^ k < 2 ^ 63"
  shows "perf_atoll (fmt_u n @ u @ NUL # rest) 0 = Some (int (n * 2 ^ k))"
proof -
  have "n * 1 \<le> n * 2 ^ k" by (intro mult_le_mono) auto
  then have n: "n < 2 ^ 63" using assms(2) by linarith
  have "k = 0 \<and> (u = [] \<or> u = [CHR ''b''] \<or> u = [CHR ''B'']) \<or>
      (\<exists>c. unit_shift c = Some k \<and> u = [c, if islower c then CHR ''b'' else CHR ''B''])"
  proof -
    have two: "unit_shift c = Some k \<Longrightarrow> (if islower c then CHR ''b'' else CHR ''B'') = b \<Longrightarrow>
        \<exists>c'. unit_shift c' = Some k \<and> [c, b] = [c', if islower c' then CHR ''b'' else CHR ''B'']" for c b k
      by auto
    from assms(1) show ?thesis unfolding atoll_units_def
      by (elim set_ConsD [elim_format] disjE) (auto intro!: two simp: unit_shift_def islower_units)
  qed
  then show ?thesis
  proof
    assume "k = 0 \<and> (u = [] \<or> u = [CHR ''b''] \<or> u = [CHR ''B''])"
    then show ?thesis using perf_atoll_one [OF n, of rest] by auto
  next
    assume "\<exists>c. unit_shift c = Some k \<and> u = [c, if islower c then CHR ''b'' else CHR ''B'']"
    then show ?thesis using perf_atoll_two [OF _ n, of _ k rest] shl64_small [OF assms(2)] by auto
  qed
qed

section \<open>Splitting into words\<close>

function words :: "string \<Rightarrow> string list" where
  "words s =
     (let t = dropWhile isspace s in
      if t = [] then [] else takeWhile (\<lambda>c. \<not> isspace c) t # words (dropWhile (\<lambda>c. \<not> isspace c) t))"
  by pat_completeness auto
termination
proof (relation "measure length")
  fix s t :: string
  assume t: "t = dropWhile isspace s" "t \<noteq> []"
  then obtain c r where "t = c # r" "\<not> isspace c" by (metis dropWhile_eq_Cons_conv neq_Nil_conv)
  then have "length (dropWhile (\<lambda>c. \<not> isspace c) t) < length t"
    using length_dropWhile_le [of "\<lambda>c. \<not> isspace c" r] by simp
  also have "\<dots> \<le> length s" using t(1) length_dropWhile_le [of isspace s] by simp
  finally show "(dropWhile (\<lambda>c. \<not> isspace c) t, s) \<in> measure length" by simp
qed simp

declare words.simps [simp del]

lemma takeWhile_nul:
  "NUL \<notin> set s \<Longrightarrow> takeWhile (\<lambda>c. c \<noteq> NUL \<and> P c) s = takeWhile P s"
  by (induction s) auto

lemma nth_not_nul: "NUL \<notin> set s \<Longrightarrow> p < length s \<Longrightarrow> s ! p \<noteq> NUL"
  by (metis nth_mem)

lemma not_nul_drop: "NUL \<notin> set s \<Longrightarrow> NUL \<notin> set (drop p s)"
  using set_drop_subset [of p s] by auto

lemma drop_takeWhile: "drop (p + length (takeWhile P (drop p s))) s = dropWhile P (drop p s)"
  by (metis add.commute drop_drop dropWhile_eq_drop)

lemma scan_nul_spec:
  assumes "NUL \<notin> set s" "p \<le> length s"
  shows "scan (\<lambda>c. c \<noteq> NUL \<and> P c) (s @ NUL # rest) p = Some (p + length (takeWhile P (drop p s)))"
  using scan_spec [of "\<lambda>c. c \<noteq> NUL \<and> P c" p s rest] assms takeWhile_nul [OF not_nul_drop [OF assms(1)], of P p]
  by simp

lemma span_le: "p \<le> length s \<Longrightarrow> p + length (takeWhile P (drop p s)) \<le> length s"
  using length_takeWhile_le [of P "drop p s"] by simp

lemma rd_str: "p \<le> length s \<Longrightarrow> rd (s @ NUL # rest) p = Some (case drop p s of [] \<Rightarrow> NUL | c # _ \<Rightarrow> c)"
  by (cases "p < length s") (auto simp: nth_append Cons_nth_drop_Suc [symmetric])

lemma skip_sep_spec: "NUL \<notin> set s \<Longrightarrow> p \<le> length s \<Longrightarrow>
    skip_sep (s @ NUL # rest) p = Some (p + length (takeWhile isspace (drop p s)))"
  unfolding skip_sep_def by (rule scan_nul_spec)

lemma skip_arg_spec: "NUL \<notin> set s \<Longrightarrow> p \<le> length s \<Longrightarrow>
    skip_arg (s @ NUL # rest) p = Some (p + length (takeWhile (\<lambda>c. \<not> isspace c) (drop p s)))"
  unfolding skip_arg_def by (rule scan_nul_spec)

text \<open>One turn of the loops over the words from position \<open>p\<close>: \<open>q\<close> after the separators, \<open>r\<close> after the word.\<close>

lemma word_step:
  assumes "NUL \<notin> set s" "p \<le> length s" "drop p s \<noteq> []"
  obtains q where "skip_sep (s @ NUL # rest) p = Some q" "q \<le> length s" "drop q s = []" "words (drop p s) = []"
  | q r where "skip_sep (s @ NUL # rest) p = Some q" "q < length s" "rd (s @ NUL # rest) q = Some (s ! q)" "s ! q \<noteq> NUL"
      "skip_arg (s @ NUL # rest) q = Some r" "p < r" "r \<le> length s"
      "words (drop p s) = take (r - q) (drop q s) # words (drop r s)"
proof -
  define q where "q = p + length (takeWhile isspace (drop p s))"
  have q: "q \<le> length s" "drop q s = dropWhile isspace (drop p s)"
    unfolding q_def using span_le [OF assms(2)] drop_takeWhile by auto
  have sep: "skip_sep (s @ NUL # rest) p = Some q" unfolding q_def by (rule skip_sep_spec [OF assms(1,2)])
  show thesis
  proof (cases "drop q s = []")
    case True
    then have "words (drop p s) = []" unfolding q(2) by (subst words.simps) (simp add: Let_def)
    then show thesis by (rule that(1) [OF sep q(1) True])
  next
    case False
    define r where "r = q + length (takeWhile (\<lambda>c. \<not> isspace c) (drop q s))"
    have r: "r \<le> length s" "drop r s = dropWhile (\<lambda>c. \<not> isspace c) (drop q s)"
      unfolding r_def using span_le [OF q(1)] drop_takeWhile by auto
    have lt: "q < length s" using False by simp
    have "\<not> isspace (s ! q)"
      using False q(2) lt by (metis Cons_nth_drop_Suc dropWhile_eq_Cons_conv)
    then have "takeWhile (\<lambda>c. \<not> isspace c) (drop q s) \<noteq> []"
      unfolding Cons_nth_drop_Suc [OF lt, symmetric] by simp
    then have "p < r" unfolding r_def q_def by (simp del: takeWhile_eq_Nil_iff)
    have "take (r - q) (drop q s) = takeWhile (\<lambda>c. \<not> isspace c) (drop q s)"
      unfolding r_def by (simp add: takeWhile_eq_take [symmetric])
    then have w: "words (drop p s) = take (r - q) (drop q s) # words (drop r s)"
      unfolding r(2) q(2) using False [unfolded q(2)] by (subst words.simps) (simp only: Let_def if_False)
    have "rd (s @ NUL # rest) q = Some (s ! q)" "s ! q \<noteq> NUL"
      using lt nth_not_nul [OF assms(1) lt] by (auto simp: nth_append)
    from that(2) [OF sep lt this skip_arg_spec [OF assms(1) q(1), folded r_def] \<open>p < r\<close> r(1) w] show thesis .
  qed
qed

lemma count_argc_spec:
  "NUL \<notin> set s \<Longrightarrow> p \<le> length s \<Longrightarrow>
    count_argc (s @ NUL # rest) p cnt = Some (cnt + length (words (drop p s)))"
proof (induction "length s - p" arbitrary: p cnt rule: less_induct)
  case less
  note prems = less.prems
  show ?case
  proof (cases "drop p s = []")
    case True
    then show ?thesis using prems by (subst count_argc.simps) (simp add: nth_append words.simps)
  next
    case False
    then have c: "rd (s @ NUL # rest) p = Some (s ! p)" "s ! p \<noteq> NUL"
      using prems nth_not_nul [OF prems(1), of p] by (auto simp: nth_append)
    show ?thesis
    proof (rule word_step [OF prems False, of rest])
      fix q assume "skip_sep (s @ NUL # rest) p = Some q" "q \<le> length s" "drop q s = []" "words (drop p s) = []"
      then show ?thesis using c
        by (subst count_argc.simps, subst count_argc.simps) (simp add: nth_append)
    next
      fix q r assume a: "skip_sep (s @ NUL # rest) p = Some q" "q < length s" "rd (s @ NUL # rest) q = Some (s ! q)" "s ! q \<noteq> NUL"
        "skip_arg (s @ NUL # rest) q = Some r" "p < r" "r \<le> length s"
        "words (drop p s) = take (r - q) (drop q s) # words (drop r s)"
      then have "count_argc (s @ NUL # rest) r (cnt + 1) = Some (cnt + 1 + length (words (drop r s)))"
        using less.hyps [of r] prems by simp
      then show ?thesis using a c by (subst count_argc.simps) simp
    qed
  qed
qed

lemma argv_loop_spec:
  "NUL \<notin> set s \<Longrightarrow> p \<le> length s \<Longrightarrow> k + length (words (drop p s)) \<le> length argv \<Longrightarrow>
    argv_loop oom (s @ NUL # rest) p argv k =
      Some (if list_ex oom (words (drop p s)) then None
        else Some (take k argv @ map Some (words (drop p s)) @ drop (k + length (words (drop p s))) argv,
          k + length (words (drop p s))))"
proof (induction "length s - p" arbitrary: p k argv rule: less_induct)
  case less
  note prems = less.prems
  show ?case
  proof (cases "drop p s = []")
    case True
    then show ?thesis using prems by (subst argv_loop.simps) (simp add: nth_append words.simps)
  next
    case False
    then have c: "rd (s @ NUL # rest) p = Some (s ! p)" "s ! p \<noteq> NUL"
      using prems nth_not_nul [OF prems(1), of p] by (auto simp: nth_append)
    show ?thesis
    proof (rule word_step [OF prems(1,2) False, of rest])
      fix q assume "skip_sep (s @ NUL # rest) p = Some q" "q \<le> length s" "drop q s = []" "words (drop p s) = []"
      then show ?thesis using c
        by (subst argv_loop.simps, subst argv_loop.simps) (simp add: nth_append)
    next
      fix q r assume a: "skip_sep (s @ NUL # rest) p = Some q" "q < length s" "rd (s @ NUL # rest) q = Some (s ! q)" "s ! q \<noteq> NUL"
        "skip_arg (s @ NUL # rest) q = Some r" "p < r" "r \<le> length s"
        "words (drop p s) = take (r - q) (drop q s) # words (drop r s)"
      define w where "w = take (r - q) (drop q s)"
      have w: "take (r - q) (drop q (s @ NUL # rest)) = w" using a(2,7) by (simp add: w_def)
      have k: "k < length argv" "Suc k + length (words (drop r s)) \<le> length argv" using prems(3) a(8) by auto
      have ih: "argv_loop oom (s @ NUL # rest) r (argv[k := Some w]) (k + 1) =
          Some (if list_ex oom (words (drop r s)) then None
            else Some (take (k + 1) (argv[k := Some w]) @ map Some (words (drop r s)) @
                drop (k + 1 + length (words (drop r s))) (argv[k := Some w]), k + 1 + length (words (drop r s))))"
        using less.hyps [of r] prems a(6,7) k by simp
      have "take (Suc k) (argv[k := Some w]) = take k argv @ [Some w]"
        using k by (simp add: take_Suc_conv_app_nth)
      then show ?thesis using a c w ih k unfolding w_def [symmetric]
        by (subst argv_loop.simps) (simp add: Let_def del: take_append drop_append)
    qed
  qed
qed

lemma argv_split_spec:
  assumes "NUL \<notin> set s"
  shows "argv_split False oom (s @ NUL # rest) 0 =
    Some (if list_ex oom (words s) then None else Some (map Some (words s) @ [None], length (words s)))"
  using count_argc_spec [OF assms, of 0 rest 0] argv_loop_spec [OF assms, of 0 0 "replicate (length (words s) + 1) None" oom rest]
  by (auto simp: argv_split_def list_update_append replicate_append_same [symmetric] replicate_Suc [of 0] simp del: replicate_Suc)

section \<open>Glob patterns\<close>

text \<open>
  What a pattern without character classes matches, for a relation \<open>eq\<close> on characters: \<open>?\<close>
  any character, \<open>*\<close> any string, a backslash the character after it, another character itself.
\<close>

inductive glob :: "(char \<Rightarrow> char \<Rightarrow> bool) \<Rightarrow> string \<Rightarrow> string \<Rightarrow> bool" for eq where
  glob_end: "glob eq [] []"
| glob_any: "glob eq s p \<Longrightarrow> glob eq (c # s) (CHR ''?'' # p)"
| glob_esc: "eq c d \<Longrightarrow> glob eq s p \<Longrightarrow> glob eq (c # s) (CHR 0x5c # d # p)"
| glob_chr: "eq c d \<Longrightarrow> d \<noteq> CHR ''?'' \<Longrightarrow> d \<noteq> CHR 0x5c \<Longrightarrow> d \<noteq> CHR ''*'' \<Longrightarrow> glob eq s p \<Longrightarrow> glob eq (c # s) (d # p)"
| glob_star: "glob eq s p \<Longrightarrow> glob eq (u @ s) (CHR ''*'' # p)"

inductive_cases glob_ConsE: "glob eq s (x # p)"
inductive_cases glob_NilE: "glob eq s []"

lemma glob_Nil [simp]: "glob eq s [] \<longleftrightarrow> s = []"
  by (auto intro: glob.intros elim: glob_NilE)

lemma glob_Nil_Cons: "x \<noteq> CHR ''*'' \<Longrightarrow> \<not> glob eq [] (x # p)"
  by (auto elim: glob_ConsE)

lemma glob_any_iff: "glob eq (c # s) (CHR ''?'' # p) \<longleftrightarrow> glob eq s p"
  by (auto intro: glob.intros elim: glob_ConsE)

lemma glob_esc_iff: "glob eq (c # s) (CHR 0x5c # p) \<longleftrightarrow> (\<exists>d p'. p = d # p' \<and> eq c d \<and> glob eq s p')"
  by (auto intro: glob.intros elim: glob_ConsE)

lemma glob_chr_iff:
  "d \<noteq> CHR ''?'' \<Longrightarrow> d \<noteq> CHR 0x5c \<Longrightarrow> d \<noteq> CHR ''*'' \<Longrightarrow> glob eq (c # s) (d # p) \<longleftrightarrow> eq c d \<and> glob eq s p"
  by (auto intro: glob.intros elim: glob_ConsE)

lemma glob_star_iff: "glob eq s (CHR ''*'' # p) \<longleftrightarrow> (\<exists>k \<le> length s. glob eq (drop k s) p)"
proof
  assume "glob eq s (CHR ''*'' # p)"
  then obtain u v where "s = u @ v" "glob eq v p" by (auto elim: glob_ConsE)
  then have "length u \<le> length s \<and> glob eq (drop (length u) s) p" by simp
  then show "\<exists>k \<le> length s. glob eq (drop k s) p" by blast
next
  assume "\<exists>k \<le> length s. glob eq (drop k s) p"
  then obtain k where "glob eq (drop k s) p" by blast
  then have "glob eq (take k s @ drop k s) (CHR ''*'' # p)" by (rule glob_star)
  then show "glob eq s (CHR ''*'' # p)" by simp
qed

lemma glob_stars: "glob eq s (replicate (Suc n) (CHR ''*'') @ p) \<longleftrightarrow> (\<exists>k \<le> length s. glob eq (drop k s) p)"
proof (induction n arbitrary: s)
  case 0
  then show ?case by (simp add: glob_star_iff)
next
  case (Suc n)
  have "glob eq s (replicate (Suc (Suc n)) (CHR ''*'') @ p) \<longleftrightarrow>
      (\<exists>k \<le> length s. \<exists>j \<le> length (drop k s). glob eq (drop j (drop k s)) p)"
    by (simp only: replicate_Suc [of "Suc n"] append_Cons glob_star_iff Suc.IH)
  also have "\<dots> \<longleftrightarrow> (\<exists>k \<le> length s. glob eq (drop k s) p)"
    by (auto simp: le_diff_conv2 add.commute) (metis diff_zero drop0 drop_drop add.right_neutral le0)
  finally show ?case .
qed

text \<open>The two modes of \<open>match_glob\<close> as separate equations.\<close>

lemmas match_glob_star = match_glob.simps [where star = True, simplified]
lemmas match_glob_plain = match_glob.simps [where star = False, simplified]

definition char_eq :: "bool \<Rightarrow> char \<Rightarrow> char \<Rightarrow> bool" where
  "char_eq case_ins c x \<longleftrightarrow> (if case_ins then tolower c = tolower x else c = x)"

lemma char_eq_nul: "c \<noteq> NUL \<Longrightarrow> \<not> char_eq ci c NUL"
proof -
  assume "c \<noteq> NUL"
  have "tolower c \<noteq> NUL"
  proof (cases "sane_istest c GIT_ALPHA")
    case True
    have "bit (uchar c AND 223 OR 32) 5" by (simp add: bit_or_iff bit_and_iff) (simp add: bit_iff_odd)
    then have "uchar c AND 223 OR 32 \<noteq> 0" by (intro notI) (simp only: bit_0_eq bot_apply bot_bool_def)
    moreover have "uchar c AND 223 OR 32 < 256"
    proof -
      have "uchar c AND 223 OR 32 = take_bit 8 (uchar c AND 223 OR 32)"
        using uchar_less [of c] by (simp add: take_bit_nat_eq_self take_bit_and take_bit_or)
      then show ?thesis using take_bit_nat_less_exp [of 8 "uchar c AND 223 OR 32"] by simp
    qed
    ultimately have "uchar (tolower c) \<noteq> 0" using True
      by (auto simp: tolower_def sane_case_def uchar_char_of)
    then show ?thesis by (auto simp: uchar_def)
  next
    case False
    then show ?thesis using \<open>c \<noteq> NUL\<close> by (simp add: tolower_def sane_case_def)
  qed
  moreover have "tolower NUL = NUL"
    using isalpha_iff [of NUL] by (simp add: tolower_def sane_case_def isalpha_def uchar_def)
  ultimately show ?thesis using \<open>c \<noteq> NUL\<close> by (simp add: char_eq_def)
qed

lemma stars_split:
  assumes "NUL \<notin> set p" "j < length p" "p ! j = CHR ''*''"
  obtains j' n where "scan (\<lambda>x. x = CHR ''*'') (p @ NUL # rest) j = Some j'" "j < j'" "j' \<le> length p"
    "drop j p = replicate (Suc n) (CHR ''*'') @ drop j' p" "j' < length p \<longrightarrow> p ! j' \<noteq> CHR ''*''"
proof -
  define t where "t = takeWhile (\<lambda>x. x = CHR ''*'') (drop j p)"
  have le: "j + length t \<le> length p" unfolding t_def using span_le [of j p] assms(2) by simp
  have scan: "scan (\<lambda>x. x = CHR ''*'') (p @ NUL # rest) j = Some (j + length t)"
    unfolding t_def using assms(2) by (intro scan_spec) auto
  have rep: "t = replicate (length t) (CHR ''*'')"
    unfolding t_def by (rule replicate_length_same [symmetric]) (metis set_takeWhileD)
  have dw: "drop (j + length t) p = dropWhile (\<lambda>x. x = CHR ''*'') (drop j p)"
    unfolding t_def by (rule drop_takeWhile)
  have "t \<noteq> []" unfolding t_def Cons_nth_drop_Suc [OF assms(2), symmetric] using assms(3) by simp
  then obtain n where n: "length t = Suc n" by (cases t) auto
  have "drop j p = t @ drop (j + length t) p" unfolding dw by (simp add: t_def)
  then have d: "drop j p = replicate (Suc n) (CHR ''*'') @ drop (j + length t) p" using rep n by metis
  have "p ! (j + length t) \<noteq> CHR ''*''" if "j + length t < length p"
  proof -
    have "dropWhile (\<lambda>x. x = CHR ''*'') (drop j p) = p ! (j + length t) # drop (Suc (j + length t)) p"
      unfolding dw [symmetric] using that by (simp only: Cons_nth_drop_Suc)
    then show ?thesis unfolding dropWhile_eq_Cons_conv by blast
  qed
  then show thesis using that [OF scan _ le d] n by simp
qed

lemma match_glob_spec:
  assumes "NUL \<notin> set s" "NUL \<notin> set p" "CHR ''['' \<notin> set p"
  shows "i \<le> length s \<Longrightarrow> j \<le> length p \<Longrightarrow>
    (\<not> star \<longrightarrow> match_glob (s @ NUL # r1) (p @ NUL # r2) False ci False i j =
      Some (glob (char_eq ci) (drop i s) (drop j p))) \<and>
    (star \<longrightarrow> j < length p \<longrightarrow> p ! j \<noteq> CHR ''*'' \<longrightarrow> match_glob (s @ NUL # r1) (p @ NUL # r2) False ci True i j =
      Some (\<exists>k \<le> length (drop i s). glob (char_eq ci) (drop k (drop i s)) (drop j p)))"
proof (induction "2 * ((length s - i) + (length p - j)) + of_bool star" arbitrary: i j star rule: less_induct)
  case less
  note prems = less.prems
  let ?m = "match_glob (s @ NUL # r1) (p @ NUL # r2) False ci"
  let ?g = "glob (char_eq ci)"
  have plain: "?m False i' j' = Some (?g (drop i' s) (drop j' p))"
    if "2 * ((length s - i') + (length p - j')) < 2 * ((length s - i) + (length p - j)) + of_bool star"
      "i' \<le> length s" "j' \<le> length p" for i' j'
    using less.hyps [of i' j' False] that by simp
  have stars: "?m True i' j' = Some (\<exists>k \<le> length (drop i' s). ?g (drop k (drop i' s)) (drop j' p))"
    if "2 * ((length s - i') + (length p - j')) + 1 < 2 * ((length s - i) + (length p - j)) + of_bool star"
      "i' \<le> length s" "j' < length p" "p ! j' \<noteq> CHR ''*''" for i' j'
    using less.hyps [of i' j' True] that by simp
  show ?case
  proof (intro conjI impI)
    assume star: star and j: "j < length p" "p ! j \<noteq> CHR ''*''"
    have x: "drop j p = p ! j # drop (Suc j) p" using j by (simp add: Cons_nth_drop_Suc)
    show "?m True i j = Some (\<exists>k \<le> length (drop i s). ?g (drop k (drop i s)) (drop j p))"
    proof (cases "i < length s")
      case False
      then show ?thesis using prems j(2) by (subst match_glob_star) (simp add: x glob_Nil_Cons)
    next
      case True
      have c: "rd (s @ NUL # r1) i = Some (s ! i)" "s ! i \<noteq> NUL"
        using True nth_not_nul [OF assms(1)] by (auto simp: nth_append)
      have "?m True i j = Some (?g (drop i s) (drop j p) \<or> (\<exists>k \<le> length (drop (i + 1) s). ?g (drop k (drop (i + 1) s)) (drop j p)))"
        using plain [of i j] stars [of "i + 1" j] True star j prems c by (subst match_glob_star) simp
      also have "\<dots> = Some (\<exists>k \<le> length (drop i s). ?g (drop k (drop i s)) (drop j p))"
      proof -
        have "(\<exists>k \<le> Suc n. P k) \<longleftrightarrow> P 0 \<or> (\<exists>k \<le> n. P (Suc k))" for n and P :: "nat \<Rightarrow> bool"
          by (metis Suc_le_mono le0 not0_implies_Suc)
        from this [of "length (drop (i + 1) s)"] True show ?thesis
          by (simp add: Suc_diff_Suc del: drop_drop) (simp add: add.commute)
      qed
      finally show ?thesis .
    qed
  next
    assume "\<not> star"
    show "?m False i j = Some (?g (drop i s) (drop j p))"
    proof (cases "j < length p")
      case False
      then have "rd (p @ NUL # r2) j = Some NUL" "drop j p = []" using prems by simp_all
      moreover have "rd (s @ NUL # r1) i = Some (if i < length s then s ! i else NUL)" using prems by (simp add: nth_append)
      ultimately show ?thesis using prems nth_not_nul [OF assms(1), of i]
        by (subst match_glob_plain) auto
    next
      case j: True
      have x: "drop j p = p ! j # drop (Suc j) p" "rd (p @ NUL # r2) j = Some (p ! j)" "p ! j \<noteq> NUL" "p ! j \<noteq> CHR ''[''"
        using j nth_not_nul [OF assms(2) j] assms(3) by (auto simp: Cons_nth_drop_Suc nth_append intro: nth_mem [OF j] dest: sym)
      show ?thesis
      proof (cases "p ! j = CHR ''*''")
        case True
        obtain j' n where j': "scan (\<lambda>x. x = CHR ''*'') (p @ NUL # r2) j = Some j'" "j < j'" "j' \<le> length p"
          "drop j p = replicate (Suc n) (CHR ''*'') @ drop j' p" "j' < length p \<longrightarrow> p ! j' \<noteq> CHR ''*''"
          using stars_split [OF assms(2) j True, of r2] by blast
        have c: "\<exists>c. rd (s @ NUL # r1) i = Some c" using rd_str [of i s r1] prems by auto
        have eq: "?m False i j = (if j' < length p then ?m True i j' else Some True)"
          using c x True j'(1,3) nth_not_nul [OF assms(2), of j']
          by (subst match_glob_plain) (auto simp: nth_append)
        show ?thesis
        proof (cases "j' < length p")
          case True
          with stars [of i j'] prems j'(2,3,5) have "?m True i j' = Some (\<exists>k \<le> length (drop i s). ?g (drop k (drop i s)) (drop j' p))"
            by simp
          then show ?thesis using True unfolding eq j'(4) by (simp only: glob_stars if_True)
        next
          case False
          then show ?thesis unfolding eq j'(4) by (simp only: glob_stars if_False) (use j'(3) in auto)
        qed
      next
        case nstar: False
        show ?thesis
        proof (cases "i < length s")
          case False
          then show ?thesis using prems x nstar
            by (subst match_glob_plain) (simp add: glob_Nil_Cons)
        next
          case i: True
          have c: "drop i s = s ! i # drop (Suc i) s" "rd (s @ NUL # r1) i = Some (s ! i)" "s ! i \<noteq> NUL"
            using i nth_not_nul [OF assms(1) i] by (auto simp: Cons_nth_drop_Suc nth_append)
          have ce: "(if ci then tolower c \<noteq> tolower y else c \<noteq> y) \<longleftrightarrow> \<not> char_eq ci c y" for c y
            by (simp add: char_eq_def)
          have next1: "?m False (i + 1) (j + 1) = Some (?g (drop (Suc i) s) (drop (Suc j) p))"
            using plain [of "i + 1" "j + 1"] i j by simp
          consider "p ! j = CHR ''?''" | "p ! j = CHR 0x5c" | "p ! j \<noteq> CHR ''?''" "p ! j \<noteq> CHR 0x5c" by blast
          then show ?thesis
          proof cases
            case 1
            then show ?thesis using c x nstar next1 unfolding c(1) x(1)
              by (subst match_glob_plain) (simp add: glob_any_iff)
          next
            case 2
            show ?thesis
            proof (cases "Suc j < length p")
              case True
              then have y: "rd (p @ NUL # r2) (Suc j) = Some (p ! Suc j)" "drop (Suc j) p = p ! Suc j # drop (Suc (Suc j)) p"
                by (simp_all add: Cons_nth_drop_Suc nth_append)
              have "?m False (Suc i) (Suc (Suc j)) = Some (?g (drop (Suc i) s) (drop (Suc (Suc j)) p))"
                using plain [of "Suc i" "Suc (Suc j)"] i True by simp
              then show ?thesis using 2 c x y unfolding c(1) x(1)
                by (subst match_glob_plain) (simp add: glob_esc_iff ce)
            next
              case False
              then have "rd (p @ NUL # r2) (Suc j) = Some NUL" "drop (Suc j) p = []"
                using j by (simp_all add: nth_append)
              then show ?thesis using 2 c x char_eq_nul [OF c(3), of ci] unfolding c(1) x(1)
                by (subst match_glob_plain) (simp add: glob_esc_iff ce)
            qed
          next
            case 3
            then show ?thesis using c x nstar next1 unfolding c(1) x(1)
              by (subst match_glob_plain) (simp add: glob_chr_iff ce)
          qed
        qed
      qed
    qed
  qed
qed

subsection \<open>Patterns with character classes\<close>

text \<open>
  Patterns that \<open>__match_glob\<close> reads without leaving them: ASCII, and after every opening
  bracket, and an exclamation mark after it, there is another character.
\<close>

definition glob_pattern_ok :: "string \<Rightarrow> bool" where
  "glob_pattern_ok p \<longleftrightarrow> (\<forall>x \<in> set p. 0 < uchar x \<and> uchar x < 128) \<and>
     (\<forall>j < length p. p ! j = CHR ''['' \<longrightarrow>
        Suc j < length p \<and> (p ! Suc j = CHR ''!'' \<longrightarrow> Suc (Suc j) < length p))"

lemma glob_pattern_no_nul: "glob_pattern_ok p \<Longrightarrow> NUL \<notin> set p"
  by (auto simp: glob_pattern_ok_def uchar_def)

lemma class_loop_total:
  assumes "\<forall>x \<in> set p. 0 < uchar x \<and> uchar x < 128"
  shows "0 < j \<Longrightarrow> j \<le> length p \<Longrightarrow>
    \<exists>ret k. class_loop (p @ NUL # rest) j c = Some (ret, k) \<and> j \<le> k \<and> k \<le> length p"
proof (induction "length p - j" arbitrary: j rule: less_induct)
  case less
  show ?case
  proof (cases "j < length p")
    case False
    then show ?thesis using less.prems by (subst class_loop.simps) simp
  next
    case True
    let ?b = "p @ NUL # rest"
    have x: "rd ?b j = Some (p ! j)" "rd ?b (j - 1) = Some (p ! (j - 1))"
      using True less.prems by (simp_all add: nth_append less_imp_diff_less)
    obtain y where y: "rd ?b (Suc j) = Some y" "Suc j < length p \<or> y = NUL"
      using True by (cases "Suc j < length p") (auto simp: nth_append not_less_eq)
    have z: "schar (p ! (j - 1)) > 0" using assms True less.prems by (simp add: schar_def)
    have ih: "j < j' \<Longrightarrow> j' \<le> length p \<Longrightarrow> \<exists>ret k. class_loop ?b j' c = Some (ret, k) \<and> j \<le> k \<and> k \<le> length p" for j'
      using less.hyps [of j'] less.prems True by fastforce
    have "y = NUL \<Longrightarrow> schar y = 0" by (simp add: schar_def uchar_def)
    with z y(2) have "schar (p ! (j - 1)) \<le> schar y \<Longrightarrow> Suc (Suc j) \<le> length p" by auto
    with ih [of "Suc j"] ih [of "Suc (Suc j)"] True less.prems x y(1) show ?thesis
      by (subst class_loop.simps) (auto simp: Let_def)
  qed
qed

lemma match_charclass_total:
  assumes "\<forall>x \<in> set p. 0 < uchar x \<and> uchar x < 128" "j < length p" "p ! j = CHR ''!'' \<longrightarrow> Suc j < length p"
  shows "\<exists>m npat. match_charclass (p @ NUL # rest) j c = Some (m, npat) \<and>
    (m \<longrightarrow> npat \<noteq> None) \<and> (\<forall>n. npat = Some n \<longrightarrow> j < n \<and> n \<le> length p)"
proof -
  let ?b = "p @ NUL # rest"
  define j' where "j' = (if p ! j = CHR ''!'' then j + 1 else j)"
  have j': "j \<le> j'" "j' < length p" "rd ?b j = Some (p ! j)" "rd ?b j' = Some (p ! j')"
    using assms(2,3) by (auto simp: j'_def nth_append)
  obtain ret k where r: "(if p ! j' = c then Some (Some True, j' + 1) else class_loop ?b (j' + 1) c) = Some (ret, k)"
      "j' < k" "k \<le> length p"
  proof (cases "p ! j' = c")
    case True
    then show thesis using that [of "Some True" "j' + 1"] j'(2) by simp
  next
    case False
    obtain ret k where "class_loop ?b (j' + 1) c = Some (ret, k)" "j' + 1 \<le> k" "k \<le> length p"
      using class_loop_total [OF assms(1), of "j' + 1" rest c] j'(2) by auto
    then show thesis using that [of ret k] False by simp
  qed
  define e where "e = k + length (takeWhile (\<lambda>x. x \<noteq> NUL \<and> x \<noteq> CHR '']'') (drop k p))"
  have e: "k \<le> e" "e \<le> length p" unfolding e_def using span_le [OF r(3)] by auto
  have "scan (\<lambda>x. x \<noteq> NUL \<and> x \<noteq> CHR '']'') ?b k = Some e" unfolding e_def by (rule scan_spec) (use r in auto)
  moreover have "rd ?b e = Some (if e < length p then p ! e else NUL)" using e by (auto simp: nth_append)
  ultimately show ?thesis using r j' e
    unfolding match_charclass_def j'(3) bind.bind_lunit Let_def j'_def [symmetric]
    by (cases ret) (auto split: if_splits)
qed

lemma bs_not_space: "\<not> isspace (CHR 0x5c)"
  by (simp add: isspace_iff uchar_def)

lemma match_glob_total:
  assumes "NUL \<notin> set s" "glob_pattern_ok p"
  shows "i \<le> length s \<Longrightarrow> j \<le> length p \<Longrightarrow> \<exists>b. match_glob (s @ NUL # r1) (p @ NUL # r2) isp ci star i j = Some b"
proof (induction "2 * ((length s - i) + (length p - j)) + of_bool star" arbitrary: i j star rule: less_induct)
  case less
  note prems = less.prems
  let ?m = "match_glob (s @ NUL # r1) (p @ NUL # r2) isp ci"
  have ih: "\<exists>b. ?m st i' j' = Some b"
    if "i + j < i' + j'" "i \<le> i'" "j \<le> j'" "i' \<le> length s" "j' \<le> length p" for i' j' st
    using that by (intro less.hyps) auto
  have ih0: "\<exists>b. ?m False i j = Some b" if star using that prems by (intro less.hyps) auto
  have rs: "rd (s @ NUL # r1) i = Some (if i < length s then s ! i else NUL)" using prems by (simp add: nth_append)
  have rp: "rd (p @ NUL # r2) k = Some (if k < length p then p ! k else NUL)" if "k \<le> length p" for k
    using that by (auto simp: nth_append)
  have nn: "NUL \<notin> set p" by (rule glob_pattern_no_nul [OF assms(2)])
  show ?case
  proof (cases star)
    case True
    show ?thesis
    proof (cases "i < length s")
      case i: True
      obtain b1 b2 where "?m False i j = Some b1" "?m True (Suc i) j = Some b2"
        using ih0 [OF True] ih [of "Suc i" j True] i prems by auto
      then show ?thesis using rs i True by (subst match_glob.simps) auto
    next
      case False
      then show ?thesis using rs True by (subst match_glob.simps) auto
    qed
  next
    case False
    show ?thesis
    proof (cases "j < length p")
      case j: False
      then show ?thesis using rs rp [of j] prems False by (subst match_glob.simps) simp
    next
      case j: True
      have pj: "p ! j \<noteq> NUL" by (rule nth_not_nul [OF nn j])
      show ?thesis
      proof (cases "p ! j = CHR ''*''")
        case star: True
        obtain j' n where j': "scan (\<lambda>x. x = CHR ''*'') (p @ NUL # r2) j = Some j'" "j < j'" "j' \<le> length p"
          using stars_split [OF nn j star, of r2] by blast
        with ih [of i j' True] prems obtain b where "?m True i j' = Some b" by auto
        then show ?thesis using rs rp [of j] rp [of j'] j j' star False by (subst match_glob.simps) auto
      next
        case nstar: False
        show ?thesis
        proof (cases "i < length s")
          case i: False
          then show ?thesis using rs rp [of j] j nstar False by (subst match_glob.simps) simp
        next
          case i: True
          obtain b1 b2 b3 where b: "?m False (Suc i) j = Some b1" "?m False i (Suc j) = Some b2" "?m False (Suc i) (Suc j) = Some b3"
            using ih [of "Suc i" j False] ih [of i "Suc j" False] ih [of "Suc i" "Suc j" False] i j by auto
          have "Suc j < length p \<Longrightarrow> \<exists>b. ?m False (Suc i) (Suc (Suc j)) = Some b"
            using ih [of "Suc i" "Suc (Suc j)" False] i by simp
          then have esc: "\<exists>b. (if (if ci then tolower c \<noteq> tolower x else c \<noteq> x) then Some False
              else ?m False (Suc i) (Suc (Suc j))) = Some b"
            if "c \<noteq> NUL" "x = (if Suc j < length p then p ! Suc j else NUL)" for c x
            using char_eq_nul [OF that(1), of ci] that(2) by (auto simp: char_eq_def)
          have cls: "\<exists>m npat. match_charclass (p @ NUL # r2) (Suc j) (s ! i) = Some (m, npat) \<and>
              (m \<longrightarrow> (\<exists>n b. npat = Some n \<and> ?m False (Suc i) n = Some b))" if "p ! j = CHR ''[''"
          proof -
            obtain m npat where m: "match_charclass (p @ NUL # r2) (Suc j) (s ! i) = Some (m, npat)"
                "m \<longrightarrow> npat \<noteq> None" "\<forall>n. npat = Some n \<longrightarrow> Suc j < n \<and> n \<le> length p"
            proof -
              have "\<forall>x \<in> set p. 0 < uchar x \<and> uchar x < 128" "Suc j < length p" "p ! Suc j = CHR ''!'' \<longrightarrow> Suc (Suc j) < length p"
                using assms(2) j \<open>p ! j = CHR ''[''\<close> by (auto simp: glob_pattern_ok_def)
              from match_charclass_total [OF this, of r2 "s ! i"] that show thesis by blast
            qed
            then show ?thesis using ih [of "Suc i" _ False] i by fastforce
          qed
          have c: "rd (s @ NUL # r1) i = Some (s ! i)" "s ! i \<noteq> NUL" using rs i nth_not_nul [OF assms(1) i] by simp_all
          have x: "rd (p @ NUL # r2) j = Some (p ! j)" using rp [of j] j by simp
          note eq = match_glob.simps [of "s @ NUL # r1" "p @ NUL # r2" isp ci False i j]
          consider "isp" "isspace (s ! i)" | "\<not> (isp \<and> isspace (s ! i))" "isp" "isspace (p ! j)"
            | "\<not> (isp \<and> isspace (s ! i))" "\<not> (isp \<and> isspace (p ! j))" "p ! j = CHR ''?''"
            | "\<not> (isp \<and> isspace (s ! i))" "\<not> (isp \<and> isspace (p ! j))" "p ! j = CHR ''[''"
            | "\<not> (isp \<and> isspace (s ! i))" "\<not> (isp \<and> isspace (p ! j))" "p ! j = CHR 0x5c"
            | "\<not> (isp \<and> isspace (s ! i))" "\<not> (isp \<and> isspace (p ! j))" "p ! j \<noteq> CHR ''?''" "p ! j \<noteq> CHR ''[''" "p ! j \<noteq> CHR 0x5c"
            by blast
          then show ?thesis
          proof cases
            case 4
            with cls obtain m npat where "match_charclass (p @ NUL # r2) (Suc j) (s ! i) = Some (m, npat)"
                "m \<longrightarrow> (\<exists>n b. npat = Some n \<and> ?m False (Suc i) n = Some b)" by blast
            then show ?thesis using eq c x 4 False pj by (cases m) auto
          next
            case 5
            obtain y where y: "rd (p @ NUL # r2) (Suc j) = Some y" "y = (if Suc j < length p then p ! Suc j else NUL)"
              using rp [of "Suc j"] j by simp
            have "?m False i j = (if (if ci then tolower (s ! i) \<noteq> tolower y else s ! i \<noteq> y) then Some False
                else ?m False (Suc i) (Suc (Suc j)))"
              by (subst eq) (simp add: c x 5 bs_not_space y(1) Let_def)
            with esc [OF c(2) y(2)] show ?thesis using False by presburger
          qed (use eq c x False pj nstar b in auto)
        qed
      qed
    qed
  qed
qed

section \<open>Comparing, replacing, trimming\<close>

lemma schar_inject: "schar a - schar b = 0 \<longleftrightarrow> a = b"
proof -
  have "schar a = schar b \<Longrightarrow> uchar a = uchar b"
    using uchar_less [of a] uchar_less [of b] by (auto simp: schar_def split: if_splits)
  then show ?thesis by auto
qed

lemma tailcmp_loop_spec:
  "i \<le> length s \<Longrightarrow> j \<le> length t \<Longrightarrow>
    \<exists>r. tailcmp_loop (s @ x) (t @ y) (int i) (int j) = Some r \<and>
      (r = 0 \<longleftrightarrow> suffix (take i s) (take j t) \<or> suffix (take j t) (take i s))"
proof (induction i arbitrary: j)
  case 0
  then show ?case by (subst tailcmp_loop.simps) simp
next
  case (Suc i)
  show ?case
  proof (cases j)
    case 0
    then show ?thesis by (subst tailcmp_loop.simps) simp
  next
    case j: (Suc j')
    have r: "(s @ x) ! i = s ! i" "(t @ y) ! j' = t ! j'" using Suc.prems j by (simp_all add: nth_append)
    have t: "take (Suc i) s = take i s @ [s ! i]" "take (Suc j') t = take j' t @ [t ! j']"
      using Suc.prems j by (simp_all add: take_Suc_conv_app_nth)
    obtain r where ih: "tailcmp_loop (s @ x) (t @ y) (int i) (int j') = Some r"
        "r = 0 \<longleftrightarrow> suffix (take i s) (take j' t) \<or> suffix (take j' t) (take i s)"
      using Suc.IH [of j'] Suc.prems j by auto
    show ?thesis
    proof (cases "s ! i = t ! j'")
      case True
      then show ?thesis using ih j Suc.prems r t by (subst tailcmp_loop.simps) (auto simp: Let_def)
    next
      case False
      then show ?thesis using j Suc.prems r t schar_inject [of "s ! i" "t ! j'"]
        by (subst tailcmp_loop.simps) (auto simp: Let_def)
    qed
  qed
qed

lemma strtailcmp_spec:
  assumes "NUL \<notin> set s" "NUL \<notin> set t"
  shows "\<exists>r. strtailcmp (s @ NUL # x) (t @ NUL # y) = Some r \<and> (r = 0 \<longleftrightarrow> suffix s t \<or> suffix t s)"
  using tailcmp_loop_spec [of "length s" s "length t" t "NUL # x" "NUL # y"] strlen_spec [OF assms(1), of 0 x] strlen_spec [OF assms(2), of 0 y]
  by (simp add: strtailcmp_def)

lemma scan_to:
  assumes "c \<notin> set u" "NUL \<notin> set u" "x = c \<or> x = NUL"
  shows "scan (\<lambda>x. x \<noteq> c \<and> x \<noteq> NUL) (pre @ u @ x # rest) (length pre) = Some (length pre + length u)"
proof -
  have "list_all (\<lambda>x. x \<noteq> c \<and> x \<noteq> NUL) u" using assms(1,2) by (auto simp: list_all_iff)
  then show ?thesis using assms(3) by (intro scan_run) auto
qed

lemma strchr_found: "c \<notin> set u \<Longrightarrow> NUL \<notin> set u \<Longrightarrow> strchr (pre @ u @ c # rest) (length pre) c = Some (Some (length pre + length u))"
  using scan_to [of c u c pre rest] by (simp add: strchr_def nth_append)

lemma strchr_none: "c \<noteq> NUL \<Longrightarrow> c \<notin> set u \<Longrightarrow> NUL \<notin> set u \<Longrightarrow> strchr (pre @ u @ NUL # rest) (length pre) c = Some None"
  using scan_to [of c u NUL pre rest] by (simp add: strchr_def nth_append)

lemma xfr_loop_spec:
  assumes "from \<noteq> NUL"
  shows "NUL \<notin> set s \<Longrightarrow> xfr_loop (pre @ s @ NUL # rest) (length pre) from to =
    Some (pre @ map (\<lambda>x. if x = from then to else x) s @ NUL # rest)"
proof (induction "length s" arbitrary: pre s rule: less_induct)
  case less
  show ?case
  proof (cases "from \<in> set s")
    case False
    have "map (\<lambda>x. if x = from then to else x) s = s" using False by (intro map_idI) auto
    then show ?thesis using strchr_none [OF assms False less.prems, of pre rest] by (subst xfr_loop.simps) simp
  next
    case True
    then obtain u v where s: "s = u @ from # v" "from \<notin> set u" by (meson split_list_first)
    have "map (\<lambda>x. if x = from then to else x) u = u" using s(2) by (intro map_idI) auto
    moreover have "xfr_loop ((pre @ u @ [to]) @ v @ NUL # rest) (length (pre @ u @ [to])) from to =
        Some ((pre @ u @ [to]) @ map (\<lambda>x. if x = from then to else x) v @ NUL # rest)"
      using less.prems s(1) by (intro less.hyps) auto
    ultimately show ?thesis using strchr_found [OF s(2), of pre "v @ NUL # rest"] less.prems s(1)
      by (subst xfr_loop.simps) (simp add: list_update_append)
  qed
qed

lemma strxfrchar_spec:
  "from \<noteq> NUL \<Longrightarrow> NUL \<notin> set s \<Longrightarrow>
    strxfrchar (s @ NUL # rest) from to = Some (map (\<lambda>x. if x = from then to else x) s @ NUL # rest)"
  using xfr_loop_spec [of "from" s "[]" rest to] by (simp add: strxfrchar_def)

lemma ltrim_spec:
  "NUL \<notin> set s \<Longrightarrow> p \<le> length s \<Longrightarrow>
    \<exists>q. ltrim (s @ NUL # rest) p = Some q \<and> q \<le> length s \<and> drop q s = dropWhile isspace (drop p s)"
  using scan_spec [of isspace p s rest] span_le [of p s isspace] drop_takeWhile [of p isspace s]
  by (auto simp: ltrim_def)

lemma rtrim_loop_spec:
  "i \<le> length s \<Longrightarrow> rtrim_loop (s @ x) (int i - 1) = Some (int (length (rev (dropWhile isspace (rev (take i s))))) - 1)"
proof (induction i)
  case 0
  then show ?case by (subst rtrim_loop.simps) simp
next
  case (Suc i)
  then have "take (Suc i) s = take i s @ [s ! i]" "(s @ x) ! i = s ! i"
    by (simp_all add: take_Suc_conv_app_nth nth_append)
  then show ?case using Suc by (subst rtrim_loop.simps) auto
qed

lemma c_str_update:
  "NUL \<notin> set s \<Longrightarrow> i \<le> length s \<Longrightarrow> c_str ((s @ NUL # rest)[i := NUL]) 0 = take i s"
proof -
  assume a: "NUL \<notin> set s" "i \<le> length s"
  have "(s @ NUL # rest)[i := NUL] = take i s @ NUL # drop (Suc i) (s @ NUL # rest)"
    using a(2) by (simp add: upd_conv_take_nth_drop)
  moreover have "NUL \<notin> set (take i s)" using a(1) set_take_subset [of i s] by auto
  ultimately show ?thesis by (simp add: c_str_append)
qed

lemma rtrim_spec:
  assumes "NUL \<notin> set s"
  shows "\<exists>buf. rtrim (s @ NUL # rest) = Some buf \<and> c_str buf 0 = rev (dropWhile isspace (rev s))"
proof (cases "s = []")
  case True
  then show ?thesis using strlen_spec [OF assms, of 0 rest] by (simp add: rtrim_def c_str_def)
next
  case False
  define t where "t = rev (dropWhile isspace (rev s))"
  have t: "length t \<le> length s" "t = take (length t) s"
    unfolding t_def using length_dropWhile_le [of isspace "rev s"]
    by (auto simp: dropWhile_eq_drop rev_drop)
  have "rtrim_loop (s @ NUL # rest) (int (length s) - 1) = Some (int (length t) - 1)"
    using rtrim_loop_spec [of "length s" s "NUL # rest"] by (simp add: t_def)
  then show ?thesis
    using strlen_spec [OF assms, of 0 rest] False t c_str_update [OF assms t(1), of rest] unfolding t_def [symmetric]
    by (auto simp: rtrim_def)
qed

section \<open>Escapes\<close>

text \<open>What \<open>strdup_esc\<close> computes: a backslash is dropped and the character after it kept.\<close>

fun unescape :: "string \<Rightarrow> string" where
  "unescape [] = []"
| "unescape [c] = (if c = CHR 0x5c then [] else [c])"
| "unescape (c # d # s) = (if c = CHR 0x5c then d # unescape s else c # unescape (d # s))"

lemma unescape_plain: "CHR 0x5c \<notin> set u \<Longrightarrow> unescape (u @ s) = u @ unescape s"
proof (induction u)
  case (Cons x u)
  then show ?case by (cases "u @ s") auto
qed simp

lemma unescape_id: "CHR 0x5c \<notin> set u \<Longrightarrow> unescape u = u"
  using unescape_plain [of u "[]"] by simp

lemma memmove_down:
  assumes "n = length m"
  shows "memmove (a @ junk @ m @ r) (length a) (length a + length junk) n = Some (a @ m @ drop n (junk @ m @ r))"
  using assms by (simp add: memmove_def)

lemma esc_loop_spec:
  "NUL \<notin> set dn \<Longrightarrow> NUL \<notin> set s \<Longrightarrow> junk \<noteq> [] \<Longrightarrow>
    \<exists>buf. esc_loop (dn @ junk @ s @ NUL # rest) (length dn) (length dn + length junk) = Some buf \<and>
      c_str buf 0 = dn @ unescape (CHR 0x5c # s)"
proof (induction "length s" arbitrary: dn junk s rule: less_induct)
  case less
  show ?case
  proof (cases s)
    case Nil
    have "(dn @ junk @ NUL # rest)[length dn := NUL] = dn @ NUL # tl junk @ NUL # rest"
      using less.prems(3) by (cases junk) (auto simp: list_update_append)
    moreover have "rd (dn @ junk @ NUL # rest) (length dn + length junk) = Some NUL" by (simp add: nth_append)
    ultimately show ?thesis using Nil less.prems
      by (subst esc_loop.simps) (simp add: c_str_append)
  next
    case (Cons c t)
    have c: "rd (dn @ junk @ s @ NUL # rest) (length dn + length junk) = Some c" "c \<noteq> NUL"
      using Cons less.prems by (auto simp: nth_append)
    show ?thesis
    proof (cases "CHR 0x5c \<in> set t")
      case False
      have nul: "NUL \<notin> set t" using less.prems Cons by auto
      have "strchr (dn @ junk @ s @ NUL # rest) (length dn + length junk + 1) (CHR 0x5c) = Some None"
        using strchr_none [OF _ False nul, of "dn @ junk @ [c]" rest] Cons by simp
      moreover have "strlen (dn @ junk @ s @ NUL # rest) (length dn + length junk) = Some (length s)"
      proof -
        have "list_all (\<lambda>c. c \<noteq> NUL) s" using less.prems by (auto simp: list_all_iff)
        from scan_run [OF this, of NUL "dn @ junk" rest] show ?thesis by (simp add: strlen_def)
      qed
      moreover have "memmove (dn @ junk @ s @ NUL # rest) (length dn) (length dn + length junk) (length s + 1) =
          Some (dn @ s @ NUL # drop (length s + 1) (junk @ s @ NUL # rest))"
        using memmove_down [of "length s + 1" "s @ [NUL]" dn junk rest] by simp
      moreover have "c_str ((dn @ s) @ NUL # drop (length s + 1) (junk @ s @ NUL # rest)) 0 = dn @ s"
        using less.prems by (intro c_str_append) auto
      moreover have "unescape (CHR 0x5c # s) = s" using Cons False by (simp add: unescape_id)
      ultimately show ?thesis using c by (subst esc_loop.simps) simp
    next
      case True
      then obtain u v where t: "t = u @ CHR 0x5c # v" "CHR 0x5c \<notin> set u" by (meson split_list_first)
      let ?buf = "dn @ junk @ s @ NUL # rest"
      have "strchr ?buf (length dn + length junk + 1) (CHR 0x5c) = Some (Some (length dn + length junk + 1 + length u))"
        using strchr_found [OF t(2), of "dn @ junk @ [c]" "v @ NUL # rest"] less.prems Cons t by simp
      moreover have "memmove ?buf (length dn) (length dn + length junk) (length u + 1) =
          Some (dn @ (c # u) @ drop (length u + 1) (junk @ (c # u) @ CHR 0x5c # v @ NUL # rest))"
        using memmove_down [of "length u + 1" "c # u" dn junk "CHR 0x5c # v @ NUL # rest"] Cons t by simp
      moreover define junk' where "junk' = drop (length u + 1) (junk @ (c # u) @ [CHR 0x5c])"
      have j: "drop (length u + 1) (junk @ (c # u) @ CHR 0x5c # v @ NUL # rest) = junk' @ v @ NUL # rest"
        "length junk' = length junk + 1" "junk' \<noteq> []"
      proof -
        let ?m = "junk @ (c # u) @ [CHR 0x5c]"
        have le: "length u + 1 - length ?m = 0" by simp
        have "junk @ (c # u) @ CHR 0x5c # v @ NUL # rest = ?m @ (v @ NUL # rest)" by simp
        then show "drop (length u + 1) (junk @ (c # u) @ CHR 0x5c # v @ NUL # rest) = junk' @ v @ NUL # rest"
          unfolding junk'_def using le by (simp only: drop_append drop_0 diff_0_eq_0)
        have "length junk' = length ?m - (length u + 1)" unfolding junk'_def by (rule length_drop)
        then show "length junk' = length junk + 1" by simp
        then show "junk' \<noteq> []" by auto
      qed
      have pos: "length dn + length junk + 1 + length u + 1 = length (dn @ c # u) + length junk'" using j(2) by simp
      obtain buf where ih: "esc_loop ((dn @ c # u) @ junk' @ v @ NUL # rest) (length (dn @ c # u)) (length (dn @ c # u) + length junk') = Some buf"
          "c_str buf 0 = (dn @ c # u) @ unescape (CHR 0x5c # v)"
        using less.hyps [of v "dn @ c # u" junk'] less.prems Cons t j(3) by auto
      have "unescape (CHR 0x5c # s) = c # u @ unescape (CHR 0x5c # v)"
        using Cons t by (simp add: unescape_plain)
      with calculation ih show ?thesis using c j(1) j(2) pos
        by (subst esc_loop.simps) (simp add: ac_simps)
    qed
  qed
qed

lemma strdup_esc_spec:
  assumes "NUL \<notin> set s"
  shows "\<exists>buf. strdup_esc False (s @ NUL # rest) = Some (Some buf) \<and> c_str buf 0 = unescape s"
proof (cases "CHR 0x5c \<in> set s")
  case False
  then show ?thesis
    using strlen_spec [OF assms, of 0 rest] strchr_none [OF _ False assms, of "[]" "[]"] c_str_append [OF assms, of "[]"]
    by (simp add: strdup_esc_def unescape_id)
next
  case True
  then obtain u v where s: "s = u @ CHR 0x5c # v" "CHR 0x5c \<notin> set u" by (meson split_list_first)
  have "\<exists>buf. esc_loop (u @ [CHR 0x5c] @ v @ NUL # []) (length u) (length u + length [CHR 0x5c]) = Some buf \<and>
      c_str buf 0 = u @ unescape (CHR 0x5c # v)"
    using assms s by (intro esc_loop_spec) auto
  moreover have "strchr (s @ [NUL]) 0 (CHR 0x5c) = Some (Some (length u))"
    using strchr_found [OF s(2), of "[]" "v @ [NUL]"] assms s by simp
  ultimately show ?thesis using strlen_spec [OF assms, of 0 rest] s unescape_plain [OF s(2)]
    by (auto simp: strdup_esc_def)
qed

section \<open>Filter expressions\<close>

text \<open>The expression the function is meant to build.\<close>

fun expr_terms :: "string \<Rightarrow> string \<Rightarrow> string \<Rightarrow> nat \<Rightarrow> int list \<Rightarrow> string" where
  "expr_terms var or_and eq_neq i [] = []"
| "expr_terms var or_and eq_neq i (x # ints) =
     (if i > 0 then '' '' @ or_and @ '' '' else []) @ (var @ '' '' @ eq_neq @ '' '' @ fmt_d x) @
     expr_terms var or_and eq_neq (i + 1) ints"

definition inout_expr :: "string \<Rightarrow> bool \<Rightarrow> int list \<Rightarrow> string" where
  "inout_expr var is_in ints =
     expr_terms var (if is_in then ''||'' else ''&&'') (if is_in then ''=='' else ''!='') 0 ints"

lemma expr_loop_spec:
  assumes "scnprintf_law f" "0 < sz" "sz < SIZE_RANGE"
  shows "t = take (sz - 1) full \<Longrightarrow> length t + length y = sz \<Longrightarrow> ints \<noteq> [] \<or> (\<exists>y'. y = NUL # y') \<Longrightarrow>
    \<exists>y'. expr_loop f var or_and eq_neq sz ints i (t @ y) (length t) =
      Some (Some (take (sz - 1) (full @ expr_terms var or_and eq_neq i ints) @ NUL # y'))"
proof (induction ints arbitrary: i t full y)
  case Nil
  then show ?case by auto
next
  case (Cons x ints)
  have lt: "length t \<noteq> sz" using Cons.prems(1) assms(2) by simp
  define sep where "sep = (if i > 0 then '' '' @ or_and @ '' '' else [])"
  define trm where "trm = var @ '' '' @ eq_neq @ '' '' @ fmt_d x"
  obtain n1 t1 y1 where 1: "(if i > 0 then f (t @ y) (length t) (size_sub sz (length t)) ('' '' @ or_and @ '' '') else Some (0, t @ y)) =
      Some (n1, t1 @ y1)" "t1 = take (sz - 1) (full @ sep)" "length t1 + length y1 = sz" "length t + n1 = length t1"
  proof (cases "i > 0")
    case True
    then show ?thesis
      using that scnprintf_append [OF assms(1) Cons.prems(1,2) assms(2,3), of "'' '' @ or_and @ '' ''"]
      unfolding sep_def by auto
  next
    case False
    then show ?thesis using that [of 0 t y] Cons.prems by (simp add: sep_def)
  qed
  obtain n2 y2 where 2: "f (t1 @ y1) (length t1) (size_sub sz (length t1)) trm = Some (n2, take (sz - 1) ((full @ sep) @ trm) @ NUL # y2)"
      "length t1 + n2 = length (take (sz - 1) ((full @ sep) @ trm))" "length (take (sz - 1) ((full @ sep) @ trm)) + Suc (length y2) = sz"
    using scnprintf_append [OF assms(1) 1(2,3) assms(2,3), of trm] by blast
  define t2 where "t2 = take (sz - 1) ((full @ sep) @ trm)"
  obtain y' where "expr_loop f var or_and eq_neq sz ints (i + 1) (t2 @ NUL # y2) (length t2) =
      Some (Some (take (sz - 1) (((full @ sep) @ trm) @ expr_terms var or_and eq_neq (i + 1) ints) @ NUL # y'))"
    using Cons.IH [OF t2_def, of "NUL # y2" "i + 1"] 2(3) [folded t2_def] by auto
  moreover have "full @ expr_terms var or_and eq_neq i (x # ints) = ((full @ sep) @ trm) @ expr_terms var or_and eq_neq (i + 1) ints"
    by (simp add: sep_def trm_def)
  moreover have "expr_loop f var or_and eq_neq sz (x # ints) i (t @ y) (length t) =
      expr_loop f var or_and eq_neq sz ints (i + 1) (t2 @ NUL # y2) (length t2)"
    using lt 1 2 unfolding t2_def [symmetric] expr_loop.simps trm_def [symmetric]
    by (simp del: append.simps append_assoc)
  ultimately show ?case by metis
qed

lemma asprintf_expr_spec:
  assumes "scnprintf_law f" "ints \<noteq> []" "length ints * 28 + 1 < SIZE_RANGE" "NUL \<notin> set var"
  shows "\<exists>buf. asprintf_expr_inout_ints f fresh False var is_in ints = Some (Some buf) \<and>
    c_str buf 0 = take (length ints * 28) (inout_expr var is_in ints)"
proof -
  let ?sz = "length ints * 28 + 1" and ?oa = "if is_in then ''||'' else ''&&''" and ?en = "if is_in then ''=='' else ''!=''"
  have "\<exists>y'. expr_loop f var ?oa ?en ?sz ints 0 ([] @ map fresh [0..<?sz]) (length ([] :: string)) =
      Some (Some (take (?sz - 1) ([] @ expr_terms var ?oa ?en 0 ints) @ NUL # y'))"
    using assms by (intro expr_loop_spec) auto
  then obtain y' where "asprintf_expr_inout_ints f fresh False var is_in ints =
      Some (Some (take (length ints * 28) (inout_expr var is_in ints) @ NUL # y'))"
    using assms(3) by (auto simp: asprintf_expr_inout_ints_def inout_expr_def Let_def)
  moreover have "NUL \<notin> set (expr_terms var ?oa ?en i xs)" for i xs
    using assms(4) by (induction xs arbitrary: i) auto
  then have "NUL \<notin> set (take (length ints * 28) (inout_expr var is_in ints))"
    unfolding inout_expr_def by (meson in_set_takeD)
  ultimately show ?thesis using c_str_append by blast
qed

section \<open>Properties\<close>

text \<open>
  C23. \<open>strglobmatch\<close> and \<open>strglobmatch_nocase\<close> on a pattern without character classes: both return,
  without reading outside the string or the pattern, and the result is true exactly when the
  string matches the pattern by the documented meaning of \<open>*\<close>, \<open>?\<close> and the backslash.
\<close>

theorem strglobmatch_correct:
  assumes "NUL \<notin> set s" and "NUL \<notin> set p" and "CHR ''['' \<notin> set p"
  shows "strglobmatch (s @ NUL # r1) (p @ NUL # r2) = Some (glob (\<lambda>c x. c = x) s p) \<and>
    strglobmatch_nocase (s @ NUL # r1) (p @ NUL # r2) = Some (glob (\<lambda>c x. tolower c = tolower x) s p)"
proof -
  have "char_eq False = (\<lambda>c x. c = x)" "char_eq True = (\<lambda>c x. tolower c = tolower x)"
    by (auto simp: char_eq_def fun_eq_iff)
  then show ?thesis
    using match_glob_spec [OF assms, of 0 0 False r1 r2 False] match_glob_spec [OF assms, of 0 0 False r1 r2 True]
    by (simp add: strglobmatch_def strglobmatch_nocase_def)
qed

theorem strglobmatch_correct_witness:
  "strglobmatch (''cpu-cycles'' @ [NUL]) (''c?u*es'' @ [NUL]) = Some (glob (\<lambda>c x. c = x) ''cpu-cycles'' ''c?u*es'')"
  using strglobmatch_correct [of "''cpu-cycles''" "''c?u*es''" "[]" "[]"] by simp

text \<open>
  C24. The matching functions, with and without ignored spaces and case, return for every string
  and every ASCII pattern in which a character follows each opening bracket (and an exclamation
  mark after it), and never read outside the string or the pattern.
\<close>

theorem strglobmatch_safe:
  assumes "NUL \<notin> set s" and "glob_pattern_ok p"
  shows "(\<exists>b. strglobmatch (s @ NUL # r1) (p @ NUL # r2) = Some b) \<and>
    (\<exists>b. strglobmatch_nocase (s @ NUL # r1) (p @ NUL # r2) = Some b) \<and>
    (\<exists>b. strlazymatch (s @ NUL # r1) (p @ NUL # r2) = Some b)"
  using match_glob_total [OF assms, of 0 0]
  by (simp add: strglobmatch_def strglobmatch_nocase_def strlazymatch_def)

theorem strglobmatch_safe_witness:
  "\<exists>b. strglobmatch (''sys_enter'' @ [NUL]) (''sys_[!a-d]*'' @ [NUL]) = Some b"
proof -
  have "glob_pattern_ok ''sys_[!a-d]*''"
    by code_simp
  from strglobmatch_safe [OF _ this, of "''sys_enter''" "[]" "[]"] show ?thesis by simp
qed

text \<open>
  For a pattern that ends in an opening bracket, \<open>strglobmatch\<close> reads past the end of the
  pattern: \<open>__match_charclass\<close> steps over the terminator. With memory after the terminator the
  result depends on it.
\<close>

theorem strglobmatch_overrun:
  assumes "c \<noteq> NUL" and "c \<noteq> CHR '']''"
  shows "strglobmatch (c # s @ [NUL]) (CHR ''['' # [NUL]) = None \<and>
    strglobmatch (c # [NUL]) ([CHR ''['', NUL] @ [c, CHR '']'', NUL]) = Some True"
proof
  show "strglobmatch (c # s @ [NUL]) (CHR ''['' # [NUL]) = None"
    using assms by (simp add: strglobmatch_def match_glob_plain match_charclass_def class_loop.simps)
  have "scan (\<lambda>x. x \<noteq> NUL \<and> x \<noteq> CHR '']'') [CHR ''['', NUL, c, CHR '']'', NUL] 3 = Some 3"
    by (subst scan.simps) simp
  then show "strglobmatch (c # [NUL]) ([CHR ''['', NUL] @ [c, CHR '']'', NUL]) = Some True"
    using assms
    by (simp add: strglobmatch_def match_glob_plain match_charclass_def class_loop.simps scan.simps)
qed

theorem strglobmatch_overrun_witness:
  "strglobmatch (''ab'' @ [NUL]) (''['' @ [NUL]) = None"
  using strglobmatch_overrun [of "CHR ''a''" "''b''"] by simp



text \<open>
  C26. \<open>perf_atoll\<close> reads back every number that is printed in decimal and followed by one of the
  documented units, when the size in bytes fits the 64-bit result.
\<close>

theorem perf_atoll_roundtrip:
  assumes "(u, k) \<in> set atoll_units" and "n * 2 ^ k < 2 ^ 63"
  shows "perf_atoll (fmt_u n @ u @ NUL # rest) 0 = Some (int (n * 2 ^ k))"
  using assms by (rule perf_atoll_unit)

theorem perf_atoll_roundtrip_witness:
  "perf_atoll (fmt_u 256 @ ''MB'' @ [NUL]) 0 = Some (int (256 * 2 ^ 20))"
  by (rule perf_atoll_roundtrip) (simp_all add: atoll_units_def)

text \<open>
  \<open>strdup_esc\<close>, which moves pieces of its copy over one another, returns the string in which
  each backslash is dropped and the character after it is kept.
\<close>

theorem strdup_esc_correct:
  assumes "NUL \<notin> set s"
  shows "\<exists>buf. strdup_esc False (s @ NUL # rest) = Some (Some buf) \<and> c_str buf 0 = unescape s"
  using assms by (rule strdup_esc_spec)

theorem strdup_esc_correct_witness:
  "\<exists>buf. strdup_esc False ([CHR ''a'', CHR 0x5c, CHR '';'', CHR 0x5c, CHR 0x5c, CHR ''b''] @ [NUL]) = Some (Some buf) \<and>
    c_str buf 0 = [CHR ''a'', CHR '';'', CHR 0x5c, CHR ''b'']"
  using strdup_esc_correct [of "[CHR ''a'', CHR 0x5c, CHR '';'', CHR 0x5c, CHR 0x5c, CHR ''b'']" "[]"] by simp

text \<open>
  The expression that \<open>asprintf_expr_inout_ints\<close> returns is the intended one cut off after 28
  characters per integer: complete when that is enough room, truncated otherwise, and never
  reported as an error, since the test for an overflow cannot succeed.
\<close>

theorem asprintf_expr_truncates:
  assumes "scnprintf_law f" and "ints \<noteq> []" and "length ints * 28 + 1 < SIZE_RANGE" and "NUL \<notin> set var"
  shows "\<exists>buf. asprintf_expr_inout_ints f fresh False var is_in ints = Some (Some buf) \<and>
    c_str buf 0 = take (length ints * 28) (inout_expr var is_in ints)"
  using assms by (rule asprintf_expr_spec)

theorem asprintf_expr_truncates_witness:
  "\<exists>buf. asprintf_expr_inout_ints scnprintf_ref (\<lambda>_. NUL) False ''id'' True [3, 4] = Some (Some buf) \<and>
    c_str buf 0 = ''id == 3 || id == 4''"
  using asprintf_expr_truncates [OF scnprintf_ref_law, of "[3, 4]" "''id''" "\<lambda>_. NUL" True]
  by (simp add: inout_expr_def SIZE_RANGE_def fmt_d_def fmt_u_def digits_base.simps digit_char_def)

text \<open>
  \<open>strpbrk_esc\<close> reads the character before the string when the string starts with an escaped stop
  character.
\<close>

lemma strpbrk_esc_underrun:
  "c \<in> stop \<Longrightarrow> c \<noteq> NUL \<Longrightarrow> CHR 0x5c \<notin> stop \<Longrightarrow> strpbrk_esc (CHR 0x5c # c # s @ [NUL]) 0 stop = None"
  by (subst strpbrk_esc.simps) (simp add: strpbrk_def scan.simps)

end
