(* ===== verification/X86_Insn.thy ===== *)
theory X86_Insn
  imports Perf_Prelude
begin

text \<open>
  The x86 instruction length decoder (\<open>inat.h\<close>, \<open>inat.c\<close>, \<open>insn.h\<close> and \<open>insn.c\<close> of
  \<open>util/intel-pt-decoder\<close>). The instruction is a list of bytes; the pointers \<open>next_byte\<close> and
  \<open>end_kaddr\<close> are offsets from \<open>kaddr\<close>. The attribute tables, which the build generates from the
  opcode map, are a parameter.
\<close>

section \<open>Attributes\<close>

type_synonym insn_attr_t = u32
type_synonym insn_byte_t = u8

subsection \<open>Bit layout\<close>

abbreviation (input) INAT_OPCODE_TABLE_SIZE :: nat where "INAT_OPCODE_TABLE_SIZE \<equiv> 256"
abbreviation (input) INAT_GROUP_TABLE_SIZE :: nat where "INAT_GROUP_TABLE_SIZE \<equiv> 8"

definition INAT_PFX_MASK :: insn_attr_t where "INAT_PFX_MASK = 0xf"
definition INAT_ESC_MASK :: insn_attr_t where "INAT_ESC_MASK = 0x30"
definition INAT_GRP_MASK :: insn_attr_t where "INAT_GRP_MASK = 0x7c0"
definition INAT_IMM_MASK :: insn_attr_t where "INAT_IMM_MASK = 0x3800"
definition INAT_MODRM :: insn_attr_t where "INAT_MODRM = 0x4000"
definition INAT_FORCE64 :: insn_attr_t where "INAT_FORCE64 = 0x8000"
definition INAT_SCNDIMM :: insn_attr_t where "INAT_SCNDIMM = 0x10000"
definition INAT_MOFFSET :: insn_attr_t where "INAT_MOFFSET = 0x20000"
definition INAT_VARIANT :: insn_attr_t where "INAT_VARIANT = 0x40000"
definition INAT_VEXOK :: insn_attr_t where "INAT_VEXOK = 0x80000"
definition INAT_VEXONLY :: insn_attr_t where "INAT_VEXONLY = 0x100000"
definition INAT_EVEXONLY :: insn_attr_t where "INAT_EVEXONLY = 0x200000"

lemmas inat_masks = INAT_PFX_MASK_def INAT_ESC_MASK_def INAT_GRP_MASK_def INAT_IMM_MASK_def INAT_MODRM_def
  INAT_FORCE64_def INAT_SCNDIMM_def INAT_MOFFSET_def INAT_VARIANT_def INAT_VEXOK_def INAT_VEXONLY_def INAT_EVEXONLY_def

subsection \<open>Attribute checking functions\<close>

definition inat_is_legacy_prefix :: "insn_attr_t \<Rightarrow> bool" where
  "inat_is_legacy_prefix attr \<longleftrightarrow> attr AND INAT_PFX_MASK \<noteq> 0 \<and> attr AND INAT_PFX_MASK \<le> 11"

definition inat_is_address_size_prefix :: "insn_attr_t \<Rightarrow> bool" where
  "inat_is_address_size_prefix attr \<longleftrightarrow> attr AND INAT_PFX_MASK = 11"

definition inat_is_operand_size_prefix :: "insn_attr_t \<Rightarrow> bool" where
  "inat_is_operand_size_prefix attr \<longleftrightarrow> attr AND INAT_PFX_MASK = 1"

definition inat_is_rex_prefix :: "insn_attr_t \<Rightarrow> bool" where
  "inat_is_rex_prefix attr \<longleftrightarrow> attr AND INAT_PFX_MASK = 12"

definition inat_last_prefix_id :: "insn_attr_t \<Rightarrow> nat" where
  "inat_last_prefix_id attr =
     (if attr AND INAT_PFX_MASK > 3 then 0 else unat (attr AND INAT_PFX_MASK))"

definition inat_is_vex_prefix :: "insn_attr_t \<Rightarrow> bool" where
  "inat_is_vex_prefix attr \<longleftrightarrow>
     attr AND INAT_PFX_MASK = 13 \<or> attr AND INAT_PFX_MASK = 14 \<or> attr AND INAT_PFX_MASK = 15"

definition inat_is_evex_prefix :: "insn_attr_t \<Rightarrow> bool" where
  "inat_is_evex_prefix attr \<longleftrightarrow> attr AND INAT_PFX_MASK = 15"

definition inat_is_vex3_prefix :: "insn_attr_t \<Rightarrow> bool" where
  "inat_is_vex3_prefix attr \<longleftrightarrow> attr AND INAT_PFX_MASK = 14"

definition inat_is_escape :: "insn_attr_t \<Rightarrow> bool" where
  "inat_is_escape attr \<longleftrightarrow> attr AND INAT_ESC_MASK \<noteq> 0"

definition inat_escape_id :: "insn_attr_t \<Rightarrow> nat" where
  "inat_escape_id attr = unat (drop_bit 4 (attr AND INAT_ESC_MASK))"

definition inat_is_group :: "insn_attr_t \<Rightarrow> bool" where
  "inat_is_group attr \<longleftrightarrow> attr AND INAT_GRP_MASK \<noteq> 0"

definition inat_group_id :: "insn_attr_t \<Rightarrow> nat" where
  "inat_group_id attr = unat (drop_bit 6 (attr AND INAT_GRP_MASK))"

definition inat_group_common_attribute :: "insn_attr_t \<Rightarrow> insn_attr_t" where
  "inat_group_common_attribute attr = attr AND NOT INAT_GRP_MASK"

definition inat_has_immediate :: "insn_attr_t \<Rightarrow> bool" where
  "inat_has_immediate attr \<longleftrightarrow> attr AND INAT_IMM_MASK \<noteq> 0"

definition inat_immediate_size :: "insn_attr_t \<Rightarrow> nat" where
  "inat_immediate_size attr = unat (drop_bit 11 (attr AND INAT_IMM_MASK))"

definition inat_has_modrm :: "insn_attr_t \<Rightarrow> bool" where
  "inat_has_modrm attr \<longleftrightarrow> attr AND INAT_MODRM \<noteq> 0"

definition inat_is_force64 :: "insn_attr_t \<Rightarrow> bool" where
  "inat_is_force64 attr \<longleftrightarrow> attr AND INAT_FORCE64 \<noteq> 0"

definition inat_has_second_immediate :: "insn_attr_t \<Rightarrow> bool" where
  "inat_has_second_immediate attr \<longleftrightarrow> attr AND INAT_SCNDIMM \<noteq> 0"

definition inat_has_moffset :: "insn_attr_t \<Rightarrow> bool" where
  "inat_has_moffset attr \<longleftrightarrow> attr AND INAT_MOFFSET \<noteq> 0"

definition inat_has_variant :: "insn_attr_t \<Rightarrow> bool" where
  "inat_has_variant attr \<longleftrightarrow> attr AND INAT_VARIANT \<noteq> 0"

definition inat_accept_vex :: "insn_attr_t \<Rightarrow> bool" where
  "inat_accept_vex attr \<longleftrightarrow> attr AND INAT_VEXOK \<noteq> 0"

definition inat_must_vex :: "insn_attr_t \<Rightarrow> bool" where
  "inat_must_vex attr \<longleftrightarrow> attr AND (INAT_VEXONLY OR INAT_EVEXONLY) \<noteq> 0"

definition inat_must_evex :: "insn_attr_t \<Rightarrow> bool" where
  "inat_must_evex attr \<longleftrightarrow> attr AND INAT_EVEXONLY \<noteq> 0"

subsection \<open>Attribute tables\<close>

text \<open>The generated tables; a row of pointers has \<open>None\<close> for \<open>NULL\<close>.\<close>

record inat_tables =
  inat_primary_table :: "insn_attr_t list"
  inat_escape_tables :: "insn_attr_t list option list list"
  inat_group_tables :: "insn_attr_t list option list list"
  inat_avx_tables :: "insn_attr_t list option list list"

definition X86_MODRM_MOD :: "insn_byte_t \<Rightarrow> insn_byte_t" where
  "X86_MODRM_MOD m = drop_bit 6 (m AND 0xc0)"

definition X86_MODRM_REG :: "insn_byte_t \<Rightarrow> insn_byte_t" where
  "X86_MODRM_REG m = drop_bit 3 (m AND 0x38)"

definition X86_MODRM_RM :: "insn_byte_t \<Rightarrow> insn_byte_t" where
  "X86_MODRM_RM m = m AND 0x07"

definition X86_SIB_BASE :: "insn_byte_t \<Rightarrow> insn_byte_t" where
  "X86_SIB_BASE sib = sib AND 0x07"

definition inat_get_opcode_attribute :: "inat_tables \<Rightarrow> insn_byte_t \<Rightarrow> insn_attr_t option" where
  "inat_get_opcode_attribute T opcode = rd (inat_primary_table T) (unat opcode)"

definition inat_get_last_prefix_id :: "inat_tables \<Rightarrow> insn_byte_t \<Rightarrow> nat option" where
  "inat_get_last_prefix_id T last_pfx = do {
     lpfx_attr \<leftarrow> inat_get_opcode_attribute T last_pfx;
     Some (inat_last_prefix_id lpfx_attr)
   }"

text \<open>\<open>tables[n][j]\<close>.\<close>

definition rd2 :: "'a list list \<Rightarrow> nat \<Rightarrow> nat \<Rightarrow> 'a option" where
  "rd2 tables n j = do { row \<leftarrow> rd tables n; rd row j }"

definition inat_get_escape_attribute :: "inat_tables \<Rightarrow> insn_byte_t \<Rightarrow> nat \<Rightarrow> insn_attr_t \<Rightarrow> insn_attr_t option" where
  "inat_get_escape_attribute T opcode lpfx_id esc_attr = do {
     let n = inat_escape_id esc_attr;
     table \<leftarrow> rd2 (inat_escape_tables T) n 0;
     case table of
       None \<Rightarrow> Some 0
     | Some t \<Rightarrow> do {
         a \<leftarrow> rd t (unat opcode);
         if inat_has_variant a \<and> lpfx_id \<noteq> 0 then do {
           table \<leftarrow> rd2 (inat_escape_tables T) n lpfx_id;
           case table of None \<Rightarrow> Some 0 | Some t \<Rightarrow> rd t (unat opcode)
         } else Some a
       }
   }"

definition inat_get_group_attribute :: "inat_tables \<Rightarrow> insn_byte_t \<Rightarrow> nat \<Rightarrow> insn_attr_t \<Rightarrow> insn_attr_t option" where
  "inat_get_group_attribute T modrm lpfx_id grp_attr = do {
     let n = inat_group_id grp_attr;
     table \<leftarrow> rd2 (inat_group_tables T) n 0;
     case table of
       None \<Rightarrow> Some (inat_group_common_attribute grp_attr)
     | Some t \<Rightarrow> do {
         a \<leftarrow> rd t (unat (X86_MODRM_REG modrm));
         if inat_has_variant a \<and> lpfx_id \<noteq> 0 then do {
           table \<leftarrow> rd2 (inat_group_tables T) n lpfx_id;
           case table of
             None \<Rightarrow> Some (inat_group_common_attribute grp_attr)
           | Some t \<Rightarrow> do {
               a \<leftarrow> rd t (unat (X86_MODRM_REG modrm));
               Some (a OR inat_group_common_attribute grp_attr)
             }
         } else Some (a OR inat_group_common_attribute grp_attr)
       }
   }"

definition inat_get_avx_attribute :: "inat_tables \<Rightarrow> insn_byte_t \<Rightarrow> insn_byte_t \<Rightarrow> insn_byte_t \<Rightarrow> insn_attr_t option" where
  "inat_get_avx_attribute T opcode vex_m vex_p =
     (if vex_m > 0x1f \<or> vex_p > 3 then Some 0
      else do {
        table \<leftarrow> rd2 (inat_avx_tables T) (unat vex_m) 0;
        case table of
          None \<Rightarrow> Some 0
        | Some t \<Rightarrow> do {
            a \<leftarrow> rd t (unat opcode);
            if \<not> inat_is_group a \<and> vex_p \<noteq> 0 then do {
              table \<leftarrow> rd2 (inat_avx_tables T) (unat vex_m) (unat vex_p);
              case table of None \<Rightarrow> Some 0 | Some t \<Rightarrow> rd t (unat opcode)
            } else Some a
          }
      })"

section \<open>Instructions\<close>

text \<open>The union of a value and its four bytes is the value; \<open>fbyte\<close> and \<open>fset\<close> access the bytes.\<close>

record insn_field =
  fval :: u32
  got :: bool
  nbytes :: nat

definition fbyte :: "insn_field \<Rightarrow> nat \<Rightarrow> insn_byte_t" where
  "fbyte f i = ucast (drop_bit (8 * i) (fval f))"

definition fset :: "insn_field \<Rightarrow> nat \<Rightarrow> insn_byte_t \<Rightarrow> insn_field" where
  "fset f i b = f\<lparr>fval := (fval f AND NOT (push_bit (8 * i) 0xff)) OR push_bit (8 * i) (ucast b)\<rparr>"

text \<open>\<open>moffset1\<close> and \<open>immediate1\<close> share their place with \<open>immediate\<close>, \<open>moffset2\<close> with \<open>immediate2\<close>.\<close>

record insn =
  prefixes :: insn_field
  rex_prefix :: insn_field
  vex_prefix :: insn_field
  opcode :: insn_field
  modrm :: insn_field
  sib :: insn_field
  displacement :: insn_field
  immediate :: insn_field
  immediate2 :: insn_field
  attr :: insn_attr_t
  opnd_bytes :: nat
  addr_bytes :: nat
  insn_length :: nat
  x86_64 :: bool
  end_kaddr :: int
  next_byte :: nat

abbreviation (input) MAX_INSN_SIZE :: int where "MAX_INSN_SIZE \<equiv> 15"

definition no_field :: insn_field where
  "no_field = \<lparr>fval = 0, got = False, nbytes = 0\<rparr>"

definition insn_init :: "int \<Rightarrow> bool \<Rightarrow> insn" where
  "insn_init buf_len is64 =
     \<lparr>prefixes = no_field, rex_prefix = no_field, vex_prefix = no_field, opcode = no_field, modrm = no_field,
      sib = no_field, displacement = no_field, immediate = no_field, immediate2 = no_field, attr = 0,
      opnd_bytes = 4, addr_bytes = (if is64 then 8 else 4), insn_length = 0, x86_64 = is64,
      end_kaddr = (if buf_len > MAX_INSN_SIZE then MAX_INSN_SIZE else buf_len), next_byte = 0\<rparr>"

subsection \<open>Reading bytes\<close>

definition validate_next :: "nat \<Rightarrow> insn \<Rightarrow> nat \<Rightarrow> bool" where
  "validate_next k insn n \<longleftrightarrow> int (next_byte insn + k + n) \<le> end_kaddr insn"

text \<open>The inner \<open>None\<close> is the jump to \<open>err_out\<close>; a number of \<open>k\<close> bytes is little-endian.\<close>

definition peek_nbyte_next :: "u8 list \<Rightarrow> insn \<Rightarrow> nat \<Rightarrow> insn_byte_t option option" where
  "peek_nbyte_next buf insn n =
     (if \<not> validate_next 1 insn n then Some None
      else do { b \<leftarrow> rd buf (next_byte insn + n); Some (Some b) })"

definition get_next :: "nat \<Rightarrow> u8 list \<Rightarrow> insn \<Rightarrow> (u64 \<times> insn) option option" where
  "get_next k buf insn =
     (if \<not> validate_next k insn 0 then Some None
      else do {
        v \<leftarrow> rd_le buf (next_byte insn) k;
        Some (Some (v, insn\<lparr>next_byte := next_byte insn + k\<rparr>))
      })"

text \<open>Continue with a value, or leave at \<open>err_out\<close> with the given result.\<close>

definition or_out :: "'a option \<Rightarrow> 'r \<Rightarrow> ('a \<Rightarrow> 'r option) \<Rightarrow> 'r option" where
  "or_out v r k = (case v of None \<Rightarrow> Some r | Some x \<Rightarrow> k x)"

lemma or_out_simps [simp]: "or_out None r k = Some r" "or_out (Some x) r k = k x"
  by (simp_all add: or_out_def)

text \<open>A signed number of 8 or 16 bits, or one of 32 bits, as the value of a field.\<close>

definition sext8 :: "u64 \<Rightarrow> u32" where "sext8 v = scast (ucast v :: u8)"
definition sext16 :: "u64 \<Rightarrow> u32" where "sext16 v = scast (ucast v :: u16)"
definition val32 :: "u64 \<Rightarrow> u32" where "val32 v = ucast v"

subsection \<open>Prefixes\<close>

text \<open>Recording a prefix that has not been seen before.\<close>

definition add_prefix :: "insn \<Rightarrow> nat \<Rightarrow> insn_byte_t \<Rightarrow> insn_attr_t \<Rightarrow> insn" where
  "add_prefix insn nb b a =
     (let insn = insn\<lparr>prefixes := fset (prefixes insn) nb b\<rparr> in
      if inat_is_address_size_prefix a
      then insn\<lparr>addr_bytes := addr_bytes insn XOR (if x86_64 insn then 12 else 6)\<rparr>
      else if inat_is_operand_size_prefix a
      then insn\<lparr>opnd_bytes := opnd_bytes insn XOR 6\<rparr>
      else insn)"

text \<open>The loop over legacy prefixes; \<open>Inl\<close> is the jump to \<open>err_out\<close>.\<close>

function prefix_loop ::
  "inat_tables \<Rightarrow> u8 list \<Rightarrow> insn \<Rightarrow> nat \<Rightarrow> insn_byte_t \<Rightarrow> insn_byte_t \<Rightarrow> insn_attr_t \<Rightarrow> (insn + insn \<times> nat \<times> insn_byte_t) option"
where
  "prefix_loop T buf insn nb lb b a =
     (if inat_is_legacy_prefix a then
        let found = list_ex (\<lambda>i. fbyte (prefixes insn) i = b) [0..<nb] in
        if \<not> found \<and> nb = 4 then Some (Inr (insn, nb, lb))
        else
          let (insn, nb) = (if found then (insn, nb) else (add_prefix insn nb b a, nb + 1));
              insn = insn\<lparr>prefixes := (prefixes insn)\<lparr>nbytes := nbytes (prefixes insn) + 1\<rparr>,
                          next_byte := next_byte insn + 1\<rparr> in
          if \<not> validate_next 1 insn 0 then Some (Inl insn)
          else do {
            b' \<leftarrow> rd buf (next_byte insn);
            a \<leftarrow> inat_get_opcode_attribute T b';
            prefix_loop T buf insn nb b b' a
          }
      else Some (Inr (insn, nb, lb)))"
  by pat_completeness auto
termination
  by (relation "measure (\<lambda>(T, buf, insn, nb, lb, b, a). nat (end_kaddr insn - int (next_byte insn)))")
    (auto simp: validate_next_def add_prefix_def Let_def split: if_splits)

declare prefix_loop.simps [simp del]

definition set_last_prefix :: "insn \<Rightarrow> nat \<Rightarrow> insn_byte_t \<Rightarrow> insn" where
  "set_last_prefix insn nb lb =
     (if lb \<noteq> 0 \<and> lb \<noteq> fbyte (prefixes insn) 3 then
        let p = prefixes insn;
            b = fbyte p 3;
            p = (if b \<noteq> 0 then fold (\<lambda>i f. if fbyte f i = lb then fset f i b else f) [0..<nb] p else p) in
        insn\<lparr>prefixes := fset p 3 lb\<rparr>
      else insn)"

definition get_rex_prefix :: "inat_tables \<Rightarrow> u8 list \<Rightarrow> insn \<Rightarrow> (insn + insn) option" where
  "get_rex_prefix T buf insn =
     (if x86_64 insn then do {
        r \<leftarrow> peek_nbyte_next buf insn 0;
        or_out r (Inl insn) (\<lambda>b. do {
          a \<leftarrow> inat_get_opcode_attribute T b;
          let insn =
            (if inat_is_rex_prefix a then
               insn\<lparr>rex_prefix := (rex_prefix insn)\<lparr>fval := ucast b, nbytes := 1\<rparr>,
                    next_byte := next_byte insn + 1,
                    opnd_bytes := (if b AND 8 \<noteq> 0 then 8 else opnd_bytes insn)\<rparr>
             else insn);
          Some (Inr insn)
        })
      } else Some (Inr insn))"

definition get_vex_prefix :: "inat_tables \<Rightarrow> u8 list \<Rightarrow> insn \<Rightarrow> (insn + insn) option" where
  "get_vex_prefix T buf insn = do {
     r \<leftarrow> peek_nbyte_next buf insn 0;
     or_out r (Inl insn) (\<lambda>b. do {
       a \<leftarrow> inat_get_opcode_attribute T b;
       if inat_is_vex_prefix a then do {
         r \<leftarrow> peek_nbyte_next buf insn 1;
         or_out r (Inl insn) (\<lambda>b2.
           if \<not> x86_64 insn \<and> X86_MODRM_MOD b2 \<noteq> 3 then Some (Inr insn)
           else
             let insn = insn\<lparr>vex_prefix := fset (fset (vex_prefix insn) 0 b) 1 b2\<rparr> in
             if inat_is_evex_prefix a then do {
               r \<leftarrow> peek_nbyte_next buf insn 2;
               or_out r (Inl insn) (\<lambda>b2. do {
                 let insn = insn\<lparr>vex_prefix := fset (vex_prefix insn) 2 b2\<rparr>;
                 r \<leftarrow> peek_nbyte_next buf insn 3;
                 or_out r (Inl insn) (\<lambda>b2.
                   Some (Inr (insn\<lparr>vex_prefix := (fset (vex_prefix insn) 3 b2)\<lparr>nbytes := 4\<rparr>,
                                   next_byte := next_byte insn + 4,
                                   opnd_bytes := (if x86_64 insn \<and> b2 AND 0x80 \<noteq> 0 then 8 else opnd_bytes insn)\<rparr>)))
               })
             } else if inat_is_vex3_prefix a then do {
               r \<leftarrow> peek_nbyte_next buf insn 2;
               or_out r (Inl insn) (\<lambda>b2.
                 Some (Inr (insn\<lparr>vex_prefix := (fset (vex_prefix insn) 2 b2)\<lparr>nbytes := 3\<rparr>,
                                 next_byte := next_byte insn + 3,
                                 opnd_bytes := (if x86_64 insn \<and> b2 AND 0x80 \<noteq> 0 then 8 else opnd_bytes insn)\<rparr>)))
             } else
               Some (Inr (insn\<lparr>vex_prefix := (fset (vex_prefix insn) 2 (b2 AND 0x7f))\<lparr>nbytes := 2\<rparr>,
                               next_byte := next_byte insn + 2\<rparr>)))
       } else Some (Inr insn)
     })
   }"

definition insn_get_prefixes :: "inat_tables \<Rightarrow> u8 list \<Rightarrow> insn \<Rightarrow> insn option" where
  "insn_get_prefixes T buf insn =
     (if got (prefixes insn) then Some insn
      else do {
        r \<leftarrow> peek_nbyte_next buf insn 0;
        or_out r insn (\<lambda>b. do {
          a \<leftarrow> inat_get_opcode_attribute T b;
          r \<leftarrow> prefix_loop T buf insn 0 0 b a;
          case r of
            Inl insn \<Rightarrow> Some insn
          | Inr (insn, nb, lb) \<Rightarrow> do {
              let insn = set_last_prefix insn nb lb;
              r \<leftarrow> get_rex_prefix T buf insn;
              case r of
                Inl insn \<Rightarrow> Some insn
              | Inr insn \<Rightarrow> do {
                  let insn = insn\<lparr>rex_prefix := (rex_prefix insn)\<lparr>got := True\<rparr>\<rparr>;
                  r \<leftarrow> get_vex_prefix T buf insn;
                  case r of
                    Inl insn \<Rightarrow> Some insn
                  | Inr insn \<Rightarrow>
                      Some (insn\<lparr>vex_prefix := (vex_prefix insn)\<lparr>got := True\<rparr>,
                                 prefixes := (prefixes insn)\<lparr>got := True\<rparr>\<rparr>)
                }
            }
        })
      })"

definition insn_is_avx :: "inat_tables \<Rightarrow> u8 list \<Rightarrow> insn \<Rightarrow> (bool \<times> insn) option" where
  "insn_is_avx T buf insn = do {
     insn \<leftarrow> (if \<not> got (prefixes insn) then insn_get_prefixes T buf insn else Some insn);
     Some (fval (vex_prefix insn) \<noteq> 0, insn)
   }"

definition insn_is_evex :: "inat_tables \<Rightarrow> u8 list \<Rightarrow> insn \<Rightarrow> (bool \<times> insn) option" where
  "insn_is_evex T buf insn = do {
     insn \<leftarrow> (if \<not> got (prefixes insn) then insn_get_prefixes T buf insn else Some insn);
     Some (nbytes (vex_prefix insn) = 4, insn)
   }"

definition insn_vex_m_bits :: "insn \<Rightarrow> insn_byte_t" where
  "insn_vex_m_bits insn =
     (if nbytes (vex_prefix insn) = 2 then 1
      else if nbytes (vex_prefix insn) = 3 then fbyte (vex_prefix insn) 1 AND 0x1f
      else fbyte (vex_prefix insn) 1 AND 0x03)"

definition insn_vex_p_bits :: "insn \<Rightarrow> insn_byte_t" where
  "insn_vex_p_bits insn =
     (if nbytes (vex_prefix insn) = 2 then fbyte (vex_prefix insn) 1 AND 0x03
      else fbyte (vex_prefix insn) 2 AND 0x03)"

definition insn_last_prefix_id :: "inat_tables \<Rightarrow> u8 list \<Rightarrow> insn \<Rightarrow> (nat \<times> insn) option" where
  "insn_last_prefix_id T buf insn = do {
     (avx, insn) \<leftarrow> insn_is_avx T buf insn;
     if avx then Some (unat (insn_vex_p_bits insn), insn)
     else if fbyte (prefixes insn) 3 \<noteq> 0 then do {
       id \<leftarrow> inat_get_last_prefix_id T (fbyte (prefixes insn) 3);
       Some (id, insn)
     } else Some (0, insn)
   }"

subsection \<open>Opcode\<close>

text \<open>The loop over escape opcodes; the array of opcode bytes has four elements.\<close>

partial_function (option) opcode_loop :: "inat_tables \<Rightarrow> u8 list \<Rightarrow> insn \<Rightarrow> (insn + insn) option" where
  "opcode_loop T buf insn =
     (if inat_is_escape (attr insn) then
        if \<not> validate_next 1 insn 0 then Some (Inl insn)
        else do {
          op \<leftarrow> rd buf (next_byte insn);
          let insn = insn\<lparr>next_byte := next_byte insn + 1\<rparr>;
          if nbytes (opcode insn) \<ge> 4 then None
          else do {
            let insn = insn\<lparr>opcode := (fset (opcode insn) (nbytes (opcode insn)) op)\<lparr>nbytes := nbytes (opcode insn) + 1\<rparr>\<rparr>;
            (pfx_id, insn) \<leftarrow> insn_last_prefix_id T buf insn;
            a \<leftarrow> inat_get_escape_attribute T op pfx_id (attr insn);
            opcode_loop T buf (insn\<lparr>attr := a\<rparr>)
          }
        }
      else Some (Inr insn))"

definition insn_get_opcode :: "inat_tables \<Rightarrow> u8 list \<Rightarrow> insn \<Rightarrow> insn option" where
  "insn_get_opcode T buf insn =
     (if got (opcode insn) then Some insn
      else do {
        insn \<leftarrow> (if \<not> got (prefixes insn) then insn_get_prefixes T buf insn else Some insn);
        r \<leftarrow> get_next 1 buf insn;
        or_out r insn (\<lambda>(v, insn). do {
          let op = ucast v;
          let insn = insn\<lparr>opcode := (fset (opcode insn) 0 op)\<lparr>nbytes := 1\<rparr>\<rparr>;
          (avx, insn) \<leftarrow> insn_is_avx T buf insn;
          if avx then do {
            a \<leftarrow> inat_get_avx_attribute T op (insn_vex_m_bits insn) (insn_vex_p_bits insn);
            let insn = insn\<lparr>attr := a\<rparr>;
            (evex, insn) \<leftarrow> (if inat_must_evex a then insn_is_evex T buf insn else Some (True, insn));
            let insn = (if \<not> evex \<or> \<not> inat_accept_vex a \<and> \<not> inat_is_group a then insn\<lparr>attr := 0\<rparr> else insn);
            Some (insn\<lparr>opcode := (opcode insn)\<lparr>got := True\<rparr>\<rparr>)
          } else do {
            a \<leftarrow> inat_get_opcode_attribute T op;
            r \<leftarrow> opcode_loop T buf (insn\<lparr>attr := a\<rparr>);
            case r of
              Inl insn \<Rightarrow> Some insn
            | Inr insn \<Rightarrow> do {
                let insn = (if inat_must_vex (attr insn) then insn\<lparr>attr := 0\<rparr> else insn);
                Some (insn\<lparr>opcode := (opcode insn)\<lparr>got := True\<rparr>\<rparr>)
              }
          }
        })
      })"

subsection \<open>ModRM, SIB and displacement\<close>

definition insn_get_modrm :: "inat_tables \<Rightarrow> u8 list \<Rightarrow> insn \<Rightarrow> insn option" where
  "insn_get_modrm T buf insn =
     (if got (modrm insn) then Some insn
      else do {
        insn \<leftarrow> (if \<not> got (opcode insn) then insn_get_opcode T buf insn else Some insn);
        r \<leftarrow>
          (if inat_has_modrm (attr insn) then do {
             r \<leftarrow> get_next 1 buf insn;
             or_out r (Inl insn) (\<lambda>(v, insn). do {
               let m = ucast v;
               let insn = insn\<lparr>modrm := (modrm insn)\<lparr>fval := ucast m, nbytes := 1\<rparr>\<rparr>;
               if inat_is_group (attr insn) then do {
                 (pfx_id, insn) \<leftarrow> insn_last_prefix_id T buf insn;
                 a \<leftarrow> inat_get_group_attribute T m pfx_id (attr insn);
                 let insn = insn\<lparr>attr := a\<rparr>;
                 (avx, insn) \<leftarrow> insn_is_avx T buf insn;
                 Some (Inr (if avx \<and> \<not> inat_accept_vex (attr insn) then insn\<lparr>attr := 0\<rparr> else insn))
               } else Some (Inr insn)
             })
           } else Some (Inr insn));
        case r of
          Inl insn \<Rightarrow> Some insn
        | Inr insn \<Rightarrow> do {
            let insn = (if x86_64 insn \<and> inat_is_force64 (attr insn) then insn\<lparr>opnd_bytes := 8\<rparr> else insn);
            Some (insn\<lparr>modrm := (modrm insn)\<lparr>got := True\<rparr>\<rparr>)
          }
      })"

definition insn_rip_relative :: "inat_tables \<Rightarrow> u8 list \<Rightarrow> insn \<Rightarrow> (bool \<times> insn) option" where
  "insn_rip_relative T buf insn =
     (if \<not> x86_64 insn then Some (False, insn)
      else do {
        insn \<leftarrow> (if \<not> got (modrm insn) then insn_get_modrm T buf insn else Some insn);
        Some (nbytes (modrm insn) \<noteq> 0 \<and> fval (modrm insn) AND 0xc7 = 5, insn)
      })"

definition insn_get_sib :: "inat_tables \<Rightarrow> u8 list \<Rightarrow> insn \<Rightarrow> insn option" where
  "insn_get_sib T buf insn =
     (if got (sib insn) then Some insn
      else do {
        insn \<leftarrow> (if \<not> got (modrm insn) then insn_get_modrm T buf insn else Some insn);
        let m = ucast (fval (modrm insn));
        if nbytes (modrm insn) \<noteq> 0 \<and> addr_bytes insn \<noteq> 2 \<and> X86_MODRM_MOD m \<noteq> 3 \<and> X86_MODRM_RM m = 4 then do {
          r \<leftarrow> get_next 1 buf insn;
          or_out r insn (\<lambda>(v, insn).
            Some (insn\<lparr>sib := \<lparr>fval = ucast v, got = True, nbytes = 1\<rparr>\<rparr>))
        } else Some (insn\<lparr>sib := (sib insn)\<lparr>got := True\<rparr>\<rparr>)
      })"

text \<open>How many bytes of displacement the ModRM and SIB bytes ask for.\<close>

definition disp_size :: "insn \<Rightarrow> nat" where
  "disp_size insn =
     (let md = X86_MODRM_MOD (ucast (fval (modrm insn)));
          rm = X86_MODRM_RM (ucast (fval (modrm insn)));
          base = X86_SIB_BASE (ucast (fval (sib insn))) in
      if nbytes (modrm insn) = 0 \<or> md = 3 then 0
      else if md = 1 then 1
      else if addr_bytes insn = 2 then (if md = 0 \<and> rm = 6 \<or> md = 2 then 2 else 0)
      else if md = 0 \<and> rm = 5 \<or> md = 2 \<or> md = 0 \<and> base = 5 then 4 else 0)"

text \<open>The field value of a signed number of that many bytes.\<close>

definition sval :: "nat \<Rightarrow> u64 \<Rightarrow> u32" where
  "sval k v = (if k = 1 then sext8 v else if k = 2 then sext16 v else val32 v)"

definition insn_get_displacement :: "inat_tables \<Rightarrow> u8 list \<Rightarrow> insn \<Rightarrow> insn option" where
  "insn_get_displacement T buf insn =
     (if got (displacement insn) then Some insn
      else do {
        insn \<leftarrow> (if \<not> got (sib insn) then insn_get_sib T buf insn else Some insn);
        let k = disp_size insn;
        if k \<noteq> 0 then do {
          r \<leftarrow> get_next k buf insn;
          or_out r insn (\<lambda>(v, insn).
            Some (insn\<lparr>displacement := \<lparr>fval = sval k v, got = True, nbytes = k\<rparr>\<rparr>))
        } else Some (insn\<lparr>displacement := (displacement insn)\<lparr>got := True\<rparr>\<rparr>)
      })"

subsection \<open>Immediates\<close>

text \<open>Reading a number of \<open>k\<close> bytes into the first or the second immediate; \<open>Inl\<close> is \<open>err_out\<close>.\<close>

definition get_imm1 :: "nat \<Rightarrow> u8 list \<Rightarrow> insn \<Rightarrow> (insn + insn) option" where
  "get_imm1 k buf insn = do {
     r \<leftarrow> get_next k buf insn;
     or_out r (Inl insn) (\<lambda>(v, insn). Some (Inr (insn\<lparr>immediate := (immediate insn)\<lparr>fval := sval k v, nbytes := k\<rparr>\<rparr>)))
   }"

definition get_imm2 :: "nat \<Rightarrow> u8 list \<Rightarrow> insn \<Rightarrow> (insn + insn) option" where
  "get_imm2 k buf insn = do {
     r \<leftarrow> get_next k buf insn;
     or_out r (Inl insn) (\<lambda>(v, insn). Some (Inr (insn\<lparr>immediate2 := (immediate2 insn)\<lparr>fval := sval k v, nbytes := k\<rparr>\<rparr>)))
   }"

definition then_imm :: "(insn + insn) option \<Rightarrow> (insn \<Rightarrow> (insn + insn) option) \<Rightarrow> (insn + insn) option" where
  "then_imm r k = do { x \<leftarrow> r; case x of Inl insn \<Rightarrow> Some (Inl insn) | Inr insn \<Rightarrow> k insn }"

definition got_imm12 :: "insn \<Rightarrow> (insn + insn) option" where
  "got_imm12 insn =
     Some (Inr (insn\<lparr>immediate := (immediate insn)\<lparr>got := True\<rparr>, immediate2 := (immediate2 insn)\<lparr>got := True\<rparr>\<rparr>))"

definition get_moffset :: "u8 list \<Rightarrow> insn \<Rightarrow> (insn + insn) option" where
  "get_moffset buf insn =
     (if addr_bytes insn = 2 then then_imm (get_imm1 2 buf insn) got_imm12
      else if addr_bytes insn = 4 then then_imm (get_imm1 4 buf insn) got_imm12
      else if addr_bytes insn = 8 then
        then_imm (get_imm1 4 buf insn) (\<lambda>insn. then_imm (get_imm2 4 buf insn) got_imm12)
      else Some (Inl insn))"

definition get_immv32 :: "u8 list \<Rightarrow> insn \<Rightarrow> (insn + insn) option" where
  "get_immv32 buf insn =
     (if opnd_bytes insn = 2 then get_imm1 2 buf insn
      else if opnd_bytes insn = 4 \<or> opnd_bytes insn = 8 then get_imm1 4 buf insn
      else Some (Inl insn))"

definition get_immv :: "u8 list \<Rightarrow> insn \<Rightarrow> (insn + insn) option" where
  "get_immv buf insn =
     (if opnd_bytes insn = 2 then then_imm (get_imm1 2 buf insn) got_imm12
      else if opnd_bytes insn = 4 then then_imm (get_imm1 4 buf insn) got_imm12
      else if opnd_bytes insn = 8 then
        then_imm (get_imm1 4 buf insn) (\<lambda>insn. then_imm (get_imm2 4 buf insn) got_imm12)
      else Some (Inl insn))"

text \<open>The segment of a far pointer is an unsigned number.\<close>

definition get_immptr :: "u8 list \<Rightarrow> insn \<Rightarrow> (insn + insn) option" where
  "get_immptr buf insn =
     (let seg = (\<lambda>insn. do {
        r \<leftarrow> get_next 2 buf insn;
        or_out r (Inl insn) (\<lambda>(v, insn).
          got_imm12 (insn\<lparr>immediate2 := (immediate2 insn)\<lparr>fval := val32 v, nbytes := 2\<rparr>\<rparr>))
      }) in
      if opnd_bytes insn = 2 then then_imm (get_imm1 2 buf insn) seg
      else if opnd_bytes insn = 4 then then_imm (get_imm1 4 buf insn) seg
      else Some (Inl insn))"

text \<open>The \<open>switch\<close> on the immediate size.\<close>

definition get_sized_immediate :: "u8 list \<Rightarrow> insn \<Rightarrow> (insn + insn) option" where
  "get_sized_immediate buf insn =
     (let sz = inat_immediate_size (attr insn) in
      if sz = 1 then get_imm1 1 buf insn
      else if sz = 2 then get_imm1 2 buf insn
      else if sz = 3 then get_imm1 4 buf insn
      else if sz = 4 then then_imm (get_imm1 4 buf insn) (get_imm2 4 buf)
      else if sz = 5 then get_immptr buf insn
      else if sz = 6 then get_immv32 buf insn
      else if sz = 7 then get_immv buf insn
      else Some (Inl insn))"

definition insn_get_immediate :: "inat_tables \<Rightarrow> u8 list \<Rightarrow> insn \<Rightarrow> insn option" where
  "insn_get_immediate T buf insn =
     (if got (immediate insn) then Some insn
      else do {
        insn \<leftarrow> (if \<not> got (displacement insn) then insn_get_displacement T buf insn else Some insn);
        r \<leftarrow>
          (if inat_has_moffset (attr insn) then get_moffset buf insn
           else if \<not> inat_has_immediate (attr insn) then Some (Inr insn)
           else then_imm (get_sized_immediate buf insn) (\<lambda>insn.
             if inat_has_second_immediate (attr insn) then get_imm2 1 buf insn else Some (Inr insn)));
        case r of
          Inl insn \<Rightarrow> Some insn
        | Inr insn \<Rightarrow> Some (insn\<lparr>immediate := (immediate insn)\<lparr>got := True\<rparr>\<rparr>)
      })"

definition insn_get_length :: "inat_tables \<Rightarrow> u8 list \<Rightarrow> insn \<Rightarrow> insn option" where
  "insn_get_length T buf insn =
     (if insn_length insn \<noteq> 0 then Some insn
      else do {
        insn \<leftarrow> (if \<not> got (immediate insn) then insn_get_immediate T buf insn else Some insn);
        Some (insn\<lparr>insn_length := next_byte insn mod 256\<rparr>)
      })"

definition insn_complete :: "insn \<Rightarrow> bool" where
  "insn_complete insn \<longleftrightarrow> got (opcode insn) \<and> got (modrm insn) \<and> got (sib insn) \<and> got (displacement insn) \<and> got (immediate insn)"

subsection \<open>Offsets of the fields\<close>

definition insn_offset_rex_prefix :: "insn \<Rightarrow> nat" where
  "insn_offset_rex_prefix insn = nbytes (prefixes insn)"

definition insn_offset_vex_prefix :: "insn \<Rightarrow> nat" where
  "insn_offset_vex_prefix insn = insn_offset_rex_prefix insn + nbytes (rex_prefix insn)"

definition insn_offset_opcode :: "insn \<Rightarrow> nat" where
  "insn_offset_opcode insn = insn_offset_vex_prefix insn + nbytes (vex_prefix insn)"

definition insn_offset_modrm :: "insn \<Rightarrow> nat" where
  "insn_offset_modrm insn = insn_offset_opcode insn + nbytes (opcode insn)"

definition insn_offset_sib :: "insn \<Rightarrow> nat" where
  "insn_offset_sib insn = insn_offset_modrm insn + nbytes (modrm insn)"

definition insn_offset_displacement :: "insn \<Rightarrow> nat" where
  "insn_offset_displacement insn = insn_offset_sib insn + nbytes (sib insn)"

definition insn_offset_immediate :: "insn \<Rightarrow> nat" where
  "insn_offset_immediate insn = insn_offset_displacement insn + nbytes (displacement insn)"

lemmas insn_offsets = insn_offset_rex_prefix_def insn_offset_vex_prefix_def insn_offset_opcode_def insn_offset_modrm_def
  insn_offset_sib_def insn_offset_displacement_def insn_offset_immediate_def

definition insn_masking_exception :: "insn \<Rightarrow> bool" where
  "insn_masking_exception insn \<longleftrightarrow>
     fbyte (opcode insn) 0 = 0x1f \<or>
     fbyte (opcode insn) 0 = 0x8e \<and> X86_MODRM_REG (fbyte (modrm insn) 0) = 2"

section \<open>Tables and invariants\<close>

text \<open>
  The shape of the generated tables: the sizes of their declarations, and that an escape opcode
  leads to at most one more escape opcode.
\<close>

definition rows_ok :: "nat \<Rightarrow> nat \<Rightarrow> 'a list option list list \<Rightarrow> bool" where
  "rows_ok n k rows \<longleftrightarrow> length rows = n \<and>
     (\<forall>row \<in> set rows. length row = 4 \<and> (\<forall>t. Some t \<in> set row \<longrightarrow> length t = k))"

definition tables_ok :: "inat_tables \<Rightarrow> bool" where
  "tables_ok T \<longleftrightarrow>
     length (inat_primary_table T) = INAT_OPCODE_TABLE_SIZE \<and>
     rows_ok 4 INAT_OPCODE_TABLE_SIZE (inat_escape_tables T) \<and>
     rows_ok 32 INAT_GROUP_TABLE_SIZE (inat_group_tables T) \<and>
     rows_ok 32 INAT_OPCODE_TABLE_SIZE (inat_avx_tables T) \<and>
     (\<forall>row \<in> set (inat_escape_tables T). \<forall>t. Some t \<in> set row \<longrightarrow> (\<forall>e \<in> set t. inat_is_escape e \<longrightarrow>
        (\<forall>t'. Some t' \<in> set (inat_escape_tables T ! inat_escape_id e) \<longrightarrow> (\<forall>e' \<in> set t'. \<not> inat_is_escape e'))))"

lemma unat_shift_bound: "unat (drop_bit n (w AND m)) \<le> unat (drop_bit n m)" for w m :: "'a::len word"
  unfolding drop_bit_and word_le_nat_alt [symmetric] by (rule word_and_le1)

lemma ids_small:
  "inat_escape_id a < 4" "inat_group_id a < 32" "inat_last_prefix_id a < 4" "unat (X86_MODRM_REG m) < 8"
proof -
  show "inat_escape_id a < 4" using unat_shift_bound [of 4 a INAT_ESC_MASK]
    by (simp add: inat_escape_id_def INAT_ESC_MASK_def)
  show "inat_group_id a < 32" using unat_shift_bound [of 6 a INAT_GRP_MASK]
    by (simp add: inat_group_id_def INAT_GRP_MASK_def)
  show "inat_last_prefix_id a < 4" by (simp add: inat_last_prefix_id_def word_less_nat_alt)
  show "unat (X86_MODRM_REG m) < 8" using unat_shift_bound [of 3 m "0x38"]
    by (simp add: X86_MODRM_REG_def)
qed

lemma vex_bits_small:
  "insn_vex_m_bits insn \<le> 0x1f" "unat (insn_vex_m_bits insn) < 32" "insn_vex_p_bits insn \<le> 3" "unat (insn_vex_p_bits insn) < 4"
proof -
  have a: "w AND 0x1f \<le> 0x1f" "w AND 3 \<le> 3" for w :: u8 by (rule word_and_le1)+
  have "w AND 3 \<le> 0x1f" for w :: u8 using a(2) by (rule order_trans) simp
  with a show *: "insn_vex_m_bits insn \<le> 0x1f" "insn_vex_p_bits insn \<le> 3"
    by (simp_all add: insn_vex_m_bits_def insn_vex_p_bits_def)
  from * show "unat (insn_vex_m_bits insn) < 32" "unat (insn_vex_p_bits insn) < 4"
    by (simp_all add: word_le_nat_alt)
qed

lemma rd2_ok:
  assumes "rows_ok n k rows" "i < n" "j < 4"
  obtains "rd2 rows i j = Some None" | t where "rd2 rows i j = Some (Some t)" "length t = k" "Some t \<in> set (rows ! i)"
proof -
  have r: "rows ! i \<in> set rows" "length (rows ! i) = 4" "\<forall>t. Some t \<in> set (rows ! i) \<longrightarrow> length t = k"
    using assms by (auto simp: rows_ok_def)
  have "rd2 rows i j = Some (rows ! i ! j)" using assms r(2) by (simp add: rd2_def rows_ok_def)
  moreover have "rows ! i ! j \<in> set (rows ! i)" using assms(3) r(2) by simp
  ultimately show thesis using that r(3) by (cases "rows ! i ! j") auto
qed

lemma unat_byte: "unat (b :: u8) < 256"
  using unsigned_less [of b, where 'a = nat] by simp

lemma opcode_attribute_total: "tables_ok T \<Longrightarrow> \<exists>a. inat_get_opcode_attribute T b = Some a"
  using unat_byte [of b] by (simp add: tables_ok_def inat_get_opcode_attribute_def)

lemma escape_attribute_total:
  assumes "tables_ok T" "p < 4"
  shows "\<exists>e. inat_get_escape_attribute T b p a = Some e \<and>
    (e = 0 \<or> (\<exists>t. Some t \<in> set (inat_escape_tables T ! inat_escape_id a) \<and> e \<in> set t))"
proof -
  have r: "rows_ok 4 256 (inat_escape_tables T)" using assms(1) by (simp add: tables_ok_def)
  show ?thesis
  proof (rule rd2_ok [OF r ids_small(1) [of a], of 0])
    fix t assume t: "rd2 (inat_escape_tables T) (inat_escape_id a) 0 = Some (Some t)" "length t = 256"
      "Some t \<in> set (inat_escape_tables T ! inat_escape_id a)"
    have "t ! unat b \<in> set t" using t(2) unat_byte [of b] by simp
    moreover have "\<exists>e. (case x of None \<Rightarrow> Some 0 | Some t \<Rightarrow> rd t (unat b)) = Some e \<and>
        (e = 0 \<or> (\<exists>t. Some t \<in> set (inat_escape_tables T ! inat_escape_id a) \<and> e \<in> set t))"
      if "rd2 (inat_escape_tables T) (inat_escape_id a) p = Some x" for x
    proof (rule rd2_ok [OF r ids_small(1) [of a] assms(2)])
      fix t' assume "rd2 (inat_escape_tables T) (inat_escape_id a) p = Some (Some t')" "length t' = 256"
        "Some t' \<in> set (inat_escape_tables T ! inat_escape_id a)"
      moreover from this(2) have "t' ! unat b \<in> set t'" using unat_byte [of b] by simp
      ultimately show ?thesis using that unat_byte [of b] by auto
    qed (use that in auto)
    moreover have "\<exists>x. rd2 (inat_escape_tables T) (inat_escape_id a) p = Some x"
      by (rule rd2_ok [OF r ids_small(1) [of a] assms(2)]) auto
    ultimately show ?thesis using t unat_byte [of b] by (auto simp: inat_get_escape_attribute_def)
  qed (auto simp: inat_get_escape_attribute_def)
qed

lemma group_attribute_total:
  assumes "tables_ok T" "p < 4"
  shows "\<exists>e. inat_get_group_attribute T b p a = Some e"
proof -
  have r: "rows_ok 32 8 (inat_group_tables T)" using assms(1) by (simp add: tables_ok_def)
  have "\<exists>x. rd2 (inat_group_tables T) (inat_group_id a) p = Some x \<and> (\<forall>t. x = Some t \<longrightarrow> length t = 8)"
    by (rule rd2_ok [OF r ids_small(2) [of a] assms(2)]) auto
  moreover have "\<exists>x. rd2 (inat_group_tables T) (inat_group_id a) 0 = Some x \<and> (\<forall>t. x = Some t \<longrightarrow> length t = 8)"
    by (rule rd2_ok [OF r ids_small(2) [of a], of 0]) auto
  ultimately show ?thesis using ids_small(4) [of b]
    by (fastforce simp: inat_get_group_attribute_def split: option.splits)
qed

lemma avx_attribute_total:
  assumes "tables_ok T"
  shows "\<exists>e. inat_get_avx_attribute T b m p = Some e"
proof (cases "m > 0x1f \<or> p > 3")
  case True
  then show ?thesis by (simp add: inat_get_avx_attribute_def)
next
  case False
  then have mp: "unat m < 32" "unat p < 4" by (auto simp: word_le_nat_alt not_less)
  have r: "rows_ok 32 256 (inat_avx_tables T)" using assms(1) by (simp add: tables_ok_def)
  have "\<exists>x. rd2 (inat_avx_tables T) (unat m) (unat p) = Some x \<and> (\<forall>t. x = Some t \<longrightarrow> length t = 256)"
    by (rule rd2_ok [OF r mp]) auto
  moreover have "\<exists>x. rd2 (inat_avx_tables T) (unat m) 0 = Some x \<and> (\<forall>t. x = Some t \<longrightarrow> length t = 256)"
    by (rule rd2_ok [OF r mp(1), of 0]) auto
  ultimately obtain x y where "rd2 (inat_avx_tables T) (unat m) 0 = Some x" "\<forall>t. x = Some t \<longrightarrow> length t = 256"
      "rd2 (inat_avx_tables T) (unat m) (unat p) = Some y" "\<forall>t. y = Some t \<longrightarrow> length t = 256" by blast
  then show ?thesis using False unat_byte [of b] unfolding inat_get_avx_attribute_def
    by (cases x; cases y) simp_all
qed

text \<open>Where the decoder may be: inside the buffer and within the first 15 bytes, and past the first byte once it has the opcode.\<close>

definition insn_ok :: "u8 list \<Rightarrow> insn \<Rightarrow> bool" where
  "insn_ok buf insn \<longleftrightarrow> end_kaddr insn \<le> int (length buf) \<and> end_kaddr insn \<le> MAX_INSN_SIZE \<and>
     (int (next_byte insn) \<le> end_kaddr insn \<or> next_byte insn = 0) \<and>
     (got (opcode insn) \<longrightarrow> 0 < next_byte insn)"

lemma peek_cases:
  assumes "insn_ok buf insn"
  obtains "peek_nbyte_next buf insn n = Some None"
  | b where "peek_nbyte_next buf insn n = Some (Some b)" "int (next_byte insn + n) < end_kaddr insn"
proof (cases "validate_next 1 insn n")
  case True
  then have "next_byte insn + n < length buf" using assms by (auto simp: validate_next_def insn_ok_def)
  then show thesis using that(2) [of "buf ! (next_byte insn + n)"] True
    by (simp add: peek_nbyte_next_def validate_next_def)
next
  case False
  then show thesis using that(1) by (simp add: peek_nbyte_next_def)
qed

lemma get_next_cases:
  assumes "insn_ok buf insn"
  obtains "get_next k buf insn = Some None"
  | v where "get_next k buf insn = Some (Some (v, insn\<lparr>next_byte := next_byte insn + k\<rparr>))"
      "insn_ok buf (insn\<lparr>next_byte := next_byte insn + k\<rparr>)"
proof (cases "validate_next k insn 0")
  case True
  then have "next_byte insn + k \<le> length buf" using assms by (auto simp: validate_next_def insn_ok_def)
  moreover have "insn_ok buf (insn\<lparr>next_byte := next_byte insn + k\<rparr>)"
    using assms True by (simp add: insn_ok_def validate_next_def)
  ultimately show thesis using that(2) True by (simp add: get_next_def)
next
  case False
  then show thesis using that(1) by (simp add: get_next_def)
qed

subsection \<open>Prefixes\<close>

text \<open>What the prefix code may change, and that every byte it steps over is counted in a field.\<close>

definition psum :: "insn \<Rightarrow> nat" where
  "psum insn = nbytes (prefixes insn) + nbytes (rex_prefix insn) + nbytes (vex_prefix insn)"

definition pframe :: "insn \<Rightarrow> insn \<Rightarrow> bool" where
  "pframe insn insn' \<longleftrightarrow> opcode insn' = opcode insn \<and> modrm insn' = modrm insn \<and> sib insn' = sib insn \<and>
     displacement insn' = displacement insn \<and> immediate insn' = immediate insn \<and> immediate2 insn' = immediate2 insn \<and>
     attr insn' = attr insn \<and> insn_length insn' = insn_length insn \<and> x86_64 insn' = x86_64 insn \<and> end_kaddr insn' = end_kaddr insn \<and>
     next_byte insn \<le> next_byte insn'"

definition pstep :: "u8 list \<Rightarrow> insn \<Rightarrow> insn \<Rightarrow> bool" where
  "pstep buf insn insn' \<longleftrightarrow> pframe insn insn' \<and> insn_ok buf insn' \<and>
     (nbytes (rex_prefix insn) = 0 \<longrightarrow> nbytes (vex_prefix insn) = 0 \<longrightarrow>
        next_byte insn' + psum insn = next_byte insn + psum insn')"

lemma pframe_trans: "pframe a b \<Longrightarrow> pframe b c \<Longrightarrow> pframe a c"
  by (simp add: pframe_def)

lemma pstep_trans:
  assumes "pstep buf a b" "pstep buf b c" "rex_prefix b = rex_prefix a" "vex_prefix b = vex_prefix a"
  shows "pstep buf a c"
proof -
  have "next_byte c + psum a = next_byte a + psum c" if "nbytes (rex_prefix a) = 0" "nbytes (vex_prefix a) = 0"
  proof -
    have "next_byte b + psum a = next_byte a + psum b" "next_byte c + psum b = next_byte b + psum c"
      using that assms by (simp_all add: pstep_def)
    then show ?thesis by linarith
  qed
  then show ?thesis using assms pframe_trans unfolding pstep_def by blast
qed

lemma pstep_same:
  assumes "pstep buf a b" "pframe b c" "next_byte c = next_byte b" "psum c = psum b"
  shows "pstep buf a c"
proof -
  have "end_kaddr c = end_kaddr b" "insn_ok buf b" using assms(1,2) by (simp_all add: pframe_def pstep_def)
  moreover have "opcode c = opcode b" using assms(2) by (simp add: pframe_def)
  ultimately have "insn_ok buf c" using assms(3) by (simp add: insn_ok_def)
  then show ?thesis using assms pframe_trans unfolding pstep_def by auto
qed

lemma nbytes_fset [simp]: "nbytes (fset f i b) = nbytes f" "got (fset f i b) = got f"
  by (simp_all add: fset_def)

lemma prefix_loop_ok:
  assumes "tables_ok T"
  shows "insn_ok buf insn \<Longrightarrow> int (next_byte insn) < end_kaddr insn \<Longrightarrow>
    \<exists>r. prefix_loop T buf insn nb lb b a = Some r \<and>
      (let insn' = (case r of Inl x \<Rightarrow> x | Inr (x, _, _) \<Rightarrow> x) in pstep buf insn insn' \<and>
        rex_prefix insn' = rex_prefix insn \<and> vex_prefix insn' = vex_prefix insn \<and> got (prefixes insn') = got (prefixes insn))"
proof (induction "nat (end_kaddr insn - int (next_byte insn))" arbitrary: insn nb lb b a rule: less_induct)
  case less
  define found where "found = list_ex (\<lambda>i. fbyte (prefixes insn) i = b) [0..<nb]"
  show ?case
  proof (cases "inat_is_legacy_prefix a \<and> \<not> (\<not> found \<and> nb = 4)")
    case False
    then have "prefix_loop T buf insn nb lb b a = Some (Inr (insn, nb, lb))"
      by (subst prefix_loop.simps, unfold Let_def) (auto simp: found_def)
    then show ?thesis using less.prems by (simp add: pstep_def pframe_def)
  next
    case True
    define i1 where "i1 = (if found then insn else add_prefix insn nb b a)"
    define i2 where "i2 = i1\<lparr>prefixes := (prefixes i1)\<lparr>nbytes := nbytes (prefixes i1) + 1\<rparr>, next_byte := next_byte i1 + 1\<rparr>"
    define nb' where "nb' = (if found then nb else nb + 1)"
    have i1: "pframe insn i1" "next_byte i1 = next_byte insn" "nbytes (prefixes i1) = nbytes (prefixes insn)"
      "rex_prefix i1 = rex_prefix insn" "vex_prefix i1 = vex_prefix insn" "got (prefixes i1) = got (prefixes insn)"
      by (simp_all add: i1_def add_prefix_def pframe_def Let_def)
    then have i2: "pstep buf insn i2" "rex_prefix i2 = rex_prefix insn" "vex_prefix i2 = vex_prefix insn"
      "got (prefixes i2) = got (prefixes insn)" "next_byte i2 = next_byte insn + 1" "end_kaddr i2 = end_kaddr insn"
      using less.prems by (simp_all add: i2_def pstep_def pframe_def psum_def insn_ok_def)
    have eq: "prefix_loop T buf insn nb lb b a =
        (if \<not> validate_next 1 i2 0 then Some (Inl i2)
         else do {
           b' \<leftarrow> rd buf (next_byte i2);
           a \<leftarrow> inat_get_opcode_attribute T b';
           prefix_loop T buf i2 nb' b b' a
         })"
      using True by (subst prefix_loop.simps, cases found)
        (simp_all add: found_def [symmetric] i2_def i1_def nb'_def Let_def cong: if_cong split del: if_split)
    show ?thesis
    proof (cases "validate_next 1 i2 0")
      case False
      then show ?thesis using i2 by (simp add: eq)
    next
      case v: True
      then have lt: "int (next_byte i2) < end_kaddr i2" by (simp add: validate_next_def)
      have ok: "insn_ok buf i2" using i2(1) by (simp add: pstep_def)
      then have "next_byte i2 < length buf" using lt by (simp add: insn_ok_def)
      moreover obtain a' where "inat_get_opcode_attribute T (buf ! next_byte i2) = Some a'"
        using opcode_attribute_total [OF assms] by blast
      moreover obtain r where "prefix_loop T buf i2 nb' b (buf ! next_byte i2) a' = Some r"
          "let insn' = (case r of Inl x \<Rightarrow> x | Inr (x, _, _) \<Rightarrow> x) in pstep buf i2 insn' \<and>
             rex_prefix insn' = rex_prefix i2 \<and> vex_prefix insn' = vex_prefix i2 \<and> got (prefixes insn') = got (prefixes i2)"
        using less.hyps [OF _ ok lt, of nb' b "buf ! next_byte i2" a'] i2(5,6) less.prems by auto
      ultimately show ?thesis using v i2 unfolding eq
        by (auto simp: Let_def pstep_def pframe_def)
    qed
  qed
qed

lemma set_last_prefix_frame:
  "pframe insn (set_last_prefix insn nb lb)" "nbytes (prefixes (set_last_prefix insn nb lb)) = nbytes (prefixes insn)"
  "rex_prefix (set_last_prefix insn nb lb) = rex_prefix insn" "vex_prefix (set_last_prefix insn nb lb) = vex_prefix insn"
  "next_byte (set_last_prefix insn nb lb) = next_byte insn"
proof -
  have "nbytes (fold (\<lambda>i f. if fbyte f i = lb then fset f i b else f) xs p) = nbytes p" for b p and xs :: "nat list"
    by (induction xs arbitrary: p) auto
  then show "nbytes (prefixes (set_last_prefix insn nb lb)) = nbytes (prefixes insn)"
    by (simp add: set_last_prefix_def Let_def)
qed (simp_all add: set_last_prefix_def Let_def pframe_def)

text \<open>The result of a step that may leave at \<open>err_out\<close>.\<close>

definition out_insn :: "insn + insn \<Rightarrow> insn" where
  "out_insn r = (case r of Inl x \<Rightarrow> x | Inr x \<Rightarrow> x)"

lemma out_insn_simps [simp]: "out_insn (Inl x) = x" "out_insn (Inr x) = x"
  by (simp_all add: out_insn_def)

lemma get_rex_prefix_ok:
  assumes "tables_ok T" "insn_ok buf insn"
  shows "\<exists>r. get_rex_prefix T buf insn = Some r \<and> pstep buf insn (out_insn r) \<and>
    vex_prefix (out_insn r) = vex_prefix insn"
proof (cases "x86_64 insn")
  case False
  then show ?thesis using assms by (simp add: get_rex_prefix_def pstep_def pframe_def)
next
  case True
  show ?thesis
  proof (rule peek_cases [OF assms(2), of 0])
    fix b assume b: "peek_nbyte_next buf insn 0 = Some (Some b)" "int (next_byte insn + 0) < end_kaddr insn"
    obtain a where "inat_get_opcode_attribute T b = Some a" using opcode_attribute_total [OF assms(1)] by blast
    then show ?thesis using True b assms(2)
      by (simp add: get_rex_prefix_def Let_def pstep_def pframe_def psum_def insn_ok_def)
  qed (use True assms in \<open>simp add: get_rex_prefix_def pstep_def pframe_def\<close>)
qed

lemma get_vex_prefix_ok:
  assumes "tables_ok T" "insn_ok buf insn"
  shows "\<exists>r. get_vex_prefix T buf insn = Some r \<and> pframe insn (out_insn r) \<and> insn_ok buf (out_insn r) \<and>
    (nbytes (vex_prefix insn) = 0 \<longrightarrow> next_byte (out_insn r) + psum insn = next_byte insn + psum (out_insn r))"
proof (rule peek_cases [OF assms(2), of 0])
  fix b assume b: "peek_nbyte_next buf insn 0 = Some (Some b)" "int (next_byte insn + 0) < end_kaddr insn"
  obtain a where a: "inat_get_opcode_attribute T b = Some a" using opcode_attribute_total [OF assms(1)] by blast
  have keep: "peek_nbyte_next buf (insn\<lparr>vex_prefix := f\<rparr>) n = peek_nbyte_next buf insn n" for f n
    by (simp add: peek_nbyte_next_def validate_next_def)
  show ?thesis
  proof (rule peek_cases [OF assms(2), of 1])
    fix b2 assume b2: "peek_nbyte_next buf insn 1 = Some (Some b2)" "int (next_byte insn + 1) < end_kaddr insn"
    show ?thesis
    proof (rule peek_cases [OF assms(2), of 2])
      fix b3 assume b3: "peek_nbyte_next buf insn 2 = Some (Some b3)" "int (next_byte insn + 2) < end_kaddr insn"
      show ?thesis
      proof (rule peek_cases [OF assms(2), of 3])
        fix b4 assume b4: "peek_nbyte_next buf insn 3 = Some (Some b4)" "int (next_byte insn + 3) < end_kaddr insn"
        then show ?thesis using a b b2 b3 assms(2)
          by (simp add: get_vex_prefix_def Let_def keep pframe_def psum_def insn_ok_def)
      next
        assume "peek_nbyte_next buf insn 3 = Some None"
        then show ?thesis using a b b2 b3 assms(2)
          by (simp add: get_vex_prefix_def Let_def keep pframe_def psum_def insn_ok_def)
      qed
    next
      assume "peek_nbyte_next buf insn 2 = Some None"
      then show ?thesis using a b b2 assms(2)
        by (simp add: get_vex_prefix_def Let_def keep pframe_def psum_def insn_ok_def)
    qed
  next
    assume "peek_nbyte_next buf insn 1 = Some None"
    then show ?thesis using a b assms(2)
      by (simp add: get_vex_prefix_def Let_def keep pframe_def psum_def insn_ok_def)
  qed
qed (use assms in \<open>simp add: get_vex_prefix_def pframe_def\<close>)

lemma insn_get_prefixes_ok:
  assumes "tables_ok T" "insn_ok buf insn"
  shows "\<exists>insn'. insn_get_prefixes T buf insn = Some insn' \<and> pstep buf insn insn'"
proof (cases "got (prefixes insn)")
  case True
  then show ?thesis using assms by (simp add: insn_get_prefixes_def pstep_def pframe_def)
next
  case False
  show ?thesis
  proof (rule peek_cases [OF assms(2), of 0])
    assume "peek_nbyte_next buf insn 0 = Some None"
    then show ?thesis using assms False by (simp add: insn_get_prefixes_def pstep_def pframe_def)
  next
    fix b assume b: "peek_nbyte_next buf insn 0 = Some (Some b)" "int (next_byte insn + 0) < end_kaddr insn"
    obtain a where a: "inat_get_opcode_attribute T b = Some a" using opcode_attribute_total [OF assms(1)] by blast
    obtain r where r: "prefix_loop T buf insn 0 0 b a = Some r"
        "let insn' = (case r of Inl x \<Rightarrow> x | Inr (x, _, _) \<Rightarrow> x) in pstep buf insn insn' \<and>
          rex_prefix insn' = rex_prefix insn \<and> vex_prefix insn' = vex_prefix insn \<and> got (prefixes insn') = got (prefixes insn)"
      using prefix_loop_ok [OF assms, of 0 0 b a] b(2) by auto
    show ?thesis
    proof (cases r)
      case (Inl i)
      then show ?thesis using False b a r by (simp add: insn_get_prefixes_def Let_def)
    next
      case (Inr x)
      obtain i nb lb where x: "x = (i, nb, lb)" by (cases x) auto
      define j where "j = set_last_prefix i nb lb"
      have i: "pstep buf insn i" "rex_prefix i = rex_prefix insn" "vex_prefix i = vex_prefix insn"
        using r(2) Inr x by (simp_all add: Let_def)
      note fr = set_last_prefix_frame [of i nb lb, folded j_def]
      have j: "pstep buf insn j" "rex_prefix j = rex_prefix insn" "vex_prefix j = vex_prefix insn" "insn_ok buf j"
        using pstep_same [OF i(1) fr(1,5)] fr i by (simp_all add: psum_def) (simp add: pstep_def)
      obtain r2 where r2: "get_rex_prefix T buf j = Some r2" "pstep buf j (out_insn r2)"
          "vex_prefix (out_insn r2) = vex_prefix j"
        using get_rex_prefix_ok [OF assms(1) j(4)] by blast
      have k: "pstep buf insn (out_insn r2)" by (rule pstep_trans [OF j(1) r2(2) j(2,3)])
      show ?thesis
      proof (cases r2)
        case (Inl i2)
        have "insn_get_prefixes T buf insn = Some i2"
          by (simp add: insn_get_prefixes_def False b(1) a r(1) Inr x j_def [symmetric] r2(1) Inl)
        then show ?thesis using k Inl by simp
      next
        case r2': (Inr i2)
        define i3 where "i3 = i2\<lparr>rex_prefix := (rex_prefix i2)\<lparr>got := True\<rparr>\<rparr>"
        have "pstep buf insn i2" using k unfolding r2' by simp
        moreover have "pframe i2 i3" by (simp add: i3_def pframe_def)
        moreover have "next_byte i3 = next_byte i2" "psum i3 = psum i2" by (simp_all add: i3_def psum_def)
        ultimately have "pstep buf insn i3" by (rule pstep_same)
        then have i3: "pstep buf insn i3" "vex_prefix i3 = vex_prefix insn" "insn_ok buf i3"
          using r2(3) r2' j(3) by (simp_all add: i3_def pstep_def)
        obtain r3 where r3: "get_vex_prefix T buf i3 = Some r3" "pframe i3 (out_insn r3)" "insn_ok buf (out_insn r3)"
            "nbytes (vex_prefix i3) = 0 \<longrightarrow> next_byte (out_insn r3) + psum i3 = next_byte i3 + psum (out_insn r3)"
          using get_vex_prefix_ok [OF assms(1) i3(3)] by (elim exE conjE)
        have "next_byte (out_insn r3) + psum insn = next_byte insn + psum (out_insn r3)"
          if "nbytes (rex_prefix insn) = 0" "nbytes (vex_prefix insn) = 0"
        proof -
          have "next_byte i3 + psum insn = next_byte insn + psum i3" using i3(1) that by (simp add: pstep_def)
          moreover have "next_byte (out_insn r3) + psum i3 = next_byte i3 + psum (out_insn r3)" using r3(4) i3(2) that by simp
          ultimately show ?thesis by linarith
        qed
        then have l: "pstep buf insn (out_insn r3)"
          using i3(1) r3(2,3) pframe_trans unfolding pstep_def by blast
        have eq: "insn_get_prefixes T buf insn =
            (case r3 of Inl insn \<Rightarrow> Some insn | Inr insn \<Rightarrow> Some (insn\<lparr>vex_prefix := (vex_prefix insn)\<lparr>got := True\<rparr>,
               prefixes := (prefixes insn)\<lparr>got := True\<rparr>\<rparr>))"
          by (simp add: insn_get_prefixes_def False b(1) a r(1) Inr x j_def [symmetric] r2(1) r2' i3_def [symmetric] r3(1))
        show ?thesis
        proof (cases r3)
          case (Inl i4)
          then show ?thesis using l by (simp add: eq)
        next
          case (Inr i4)
          have "pstep buf insn (i4\<lparr>vex_prefix := (vex_prefix i4)\<lparr>got := True\<rparr>, prefixes := (prefixes i4)\<lparr>got := True\<rparr>\<rparr>)"
            by (rule pstep_same [of buf insn i4]) (use l Inr in \<open>simp_all add: pframe_def psum_def\<close>)
          then show ?thesis using Inr by (simp add: eq)
        qed
      qed
    qed
  qed
qed

subsection \<open>Counting the bytes of an instruction\<close>

definition consumed :: "insn \<Rightarrow> nat" where
  "consumed insn = insn_offset_immediate insn + nbytes (immediate insn) + nbytes (immediate2 insn)"

lemmas consumed_simps = consumed_def insn_offsets

text \<open>
  The decoder before field \<open>n\<close>: it is inside the buffer, and in the strict reading, which
  starts from complete prefixes, the bytes read so far are those counted in the fields, and none
  is counted in a field from \<open>n\<close> on.
\<close>

definition later :: "insn \<Rightarrow> insn_field list" where
  "later insn = [opcode insn, modrm insn, sib insn, displacement insn, immediate insn, immediate2 insn]"

definition stage :: "bool \<Rightarrow> nat \<Rightarrow> u8 list \<Rightarrow> insn \<Rightarrow> bool" where
  "stage strict n buf insn \<longleftrightarrow> insn_ok buf insn \<and>
     (strict \<longrightarrow> got (prefixes insn) \<and> next_byte insn = consumed insn \<and> list_all (\<lambda>f. nbytes f = 0) (drop n (later insn)))"

lemma stage_ok: "stage s n buf insn \<Longrightarrow> insn_ok buf insn"
  by (simp add: stage_def)

lemma stage_mono: "stage s n buf insn \<Longrightarrow> stage s (Suc n) buf insn"
proof -
  have "list_all P (drop n xs) \<Longrightarrow> list_all P (drop (Suc n) xs)" for P :: "insn_field \<Rightarrow> bool" and xs
    by (simp add: list_all_iff) (meson Suc_n_not_le_n nat_le_linear set_drop_subset_set_drop subsetD)
  then show "stage s n buf insn \<Longrightarrow> stage s (Suc n) buf insn" by (auto simp: stage_def)
qed

lemma unless_got:
  "P insn \<Longrightarrow> \<exists>i. f = Some i \<and> P i \<Longrightarrow> \<exists>i. (if \<not> g then f else Some insn) = Some i \<and> P i"
  by simp

lemma prefixes_stage:
  assumes "tables_ok T" "stage s n buf insn"
  shows "\<exists>insn'. (if \<not> got (prefixes insn) then insn_get_prefixes T buf insn else Some insn) = Some insn' \<and>
    stage s n buf insn' \<and> pframe insn insn'"
  using insn_get_prefixes_ok [OF assms(1) stage_ok [OF assms(2)]] assms(2)
  by (auto simp: stage_def pstep_def pframe_def)

lemma insn_is_avx_stage:
  assumes "tables_ok T" "stage s n buf insn"
  shows "\<exists>avx insn'. insn_is_avx T buf insn = Some (avx, insn') \<and> stage s n buf insn' \<and> pframe insn insn'"
  using prefixes_stage [OF assms] by (auto simp: insn_is_avx_def)

lemma insn_is_evex_stage:
  assumes "tables_ok T" "stage s n buf insn"
  shows "\<exists>evex insn'. insn_is_evex T buf insn = Some (evex, insn') \<and> stage s n buf insn' \<and> pframe insn insn'"
  using prefixes_stage [OF assms] by (auto simp: insn_is_evex_def)

lemma insn_last_prefix_id_stage:
  assumes "tables_ok T" "stage s n buf insn"
  shows "\<exists>id insn'. insn_last_prefix_id T buf insn = Some (id, insn') \<and> id < 4 \<and> stage s n buf insn' \<and> pframe insn insn'"
proof -
  obtain avx insn' where a: "insn_is_avx T buf insn = Some (avx, insn')" "stage s n buf insn'" "pframe insn insn'"
    using insn_is_avx_stage [OF assms] by blast
  obtain at where "inat_get_opcode_attribute T (fbyte (prefixes insn') 3) = Some at"
    using opcode_attribute_total [OF assms(1)] by blast
  then show ?thesis using a vex_bits_small(4) [of insn'] ids_small(3) [of at]
    by (auto simp: insn_last_prefix_id_def inat_get_last_prefix_id_def)
qed

subsection \<open>Opcode\<close>

lemma stage_attr [simp]: "stage s n buf (insn\<lparr>attr := a\<rparr>) = stage s n buf insn"
  by (simp add: stage_def insn_ok_def consumed_simps later_def)

lemma stage_opnd [simp]: "stage s n buf (insn\<lparr>opnd_bytes := k\<rparr>) = stage s n buf insn"
  by (simp add: stage_def insn_ok_def consumed_simps later_def)

text \<open>How many more escape opcodes an attribute can lead to.\<close>

definition esc_depth :: "inat_tables \<Rightarrow> insn_attr_t \<Rightarrow> nat \<Rightarrow> bool" where
  "esc_depth T a d \<longleftrightarrow>
     (d = 0 \<longrightarrow> \<not> inat_is_escape a) \<and>
     (d = 1 \<longrightarrow> inat_is_escape a \<longrightarrow>
        (\<forall>t'. Some t' \<in> set (inat_escape_tables T ! inat_escape_id a) \<longrightarrow> (\<forall>e' \<in> set t'. \<not> inat_is_escape e')))"

lemma escape_zero: "\<not> inat_is_escape 0"
  by (simp add: inat_is_escape_def)

lemma esc_depth_step:
  assumes "tables_ok T" "esc_depth T a d" "inat_is_escape a" "d \<le> 2" "p < 4"
  shows "\<exists>e. inat_get_escape_attribute T b p a = Some e \<and> esc_depth T e (d - 1) \<and> 0 < d"
proof -
  have d: "0 < d" using assms(2,3) by (auto simp: esc_depth_def)
  obtain e where e: "inat_get_escape_attribute T b p a = Some e"
      "e = 0 \<or> (\<exists>t. Some t \<in> set (inat_escape_tables T ! inat_escape_id a) \<and> e \<in> set t)"
    using escape_attribute_total [OF assms(1,5)] by blast
  have row: "inat_escape_tables T ! inat_escape_id a \<in> set (inat_escape_tables T)"
    using assms(1) ids_small(1) [of a] by (auto simp: tables_ok_def rows_ok_def)
  have "esc_depth T e (d - 1)"
  proof (cases "d = 1")
    case True
    then show ?thesis using e(2) assms(2,3) escape_zero by (auto simp: esc_depth_def)
  next
    case False
    then have "d = 2" using d assms(4) by simp
    then show ?thesis using e(2) escape_zero assms(1) row unfolding esc_depth_def tables_ok_def by fastforce
  qed
  then show ?thesis using e(1) d by blast
qed

lemma opcode_loop_stage:
  assumes "tables_ok T"
  shows "stage s 1 buf insn \<Longrightarrow> esc_depth T (attr insn) d \<Longrightarrow> d \<le> 2 \<Longrightarrow> nbytes (opcode insn) + d \<le> 3 \<Longrightarrow>
    \<exists>r. opcode_loop T buf insn = Some r \<and> stage s 1 buf (out_insn r) \<and> next_byte insn \<le> next_byte (out_insn r)"
proof (induction d arbitrary: insn)
  case 0
  then show ?case by (subst opcode_loop.simps) (simp add: esc_depth_def)
next
  case (Suc d)
  show ?case
  proof (cases "inat_is_escape (attr insn)")
    case False
    then show ?thesis using Suc.prems by (subst opcode_loop.simps) simp
  next
    case esc: True
    show ?thesis
    proof (cases "validate_next 1 insn 0")
      case False
      then show ?thesis using Suc.prems esc by (subst opcode_loop.simps) simp
    next
      case True
      have ok: "insn_ok buf insn" using Suc.prems(1) by (rule stage_ok)
      have nx: "next_byte insn < length buf" using True ok by (auto simp: validate_next_def insn_ok_def)
      define op where "op = buf ! next_byte insn"
      define i1 where "i1 = insn\<lparr>next_byte := next_byte insn + 1,
        opcode := (fset (opcode insn) (nbytes (opcode insn)) op)\<lparr>nbytes := nbytes (opcode insn) + 1\<rparr>\<rparr>"
      have i1: "stage s 1 buf i1" using Suc.prems(1) True
        by (simp add: i1_def stage_def insn_ok_def validate_next_def consumed_simps later_def)
      obtain id i2 where i2: "insn_last_prefix_id T buf i1 = Some (id, i2)" "id < 4" "stage s 1 buf i2" "pframe i1 i2"
        using insn_last_prefix_id_stage [OF assms i1] by blast
      have at: "attr i2 = attr insn" "nbytes (opcode i2) = nbytes (opcode insn) + 1"
        using i2(4) by (simp_all add: pframe_def i1_def)
      obtain e where e: "inat_get_escape_attribute T op id (attr insn) = Some e" "esc_depth T e d"
        using esc_depth_step [OF assms Suc.prems(2) esc Suc.prems(3) i2(2), of op] by auto
      have mono: "next_byte insn \<le> next_byte i2" using i2(4) by (simp add: pframe_def i1_def)
      obtain r where "opcode_loop T buf (i2\<lparr>attr := e\<rparr>) = Some r" "stage s 1 buf (out_insn r)" "next_byte i2 \<le> next_byte (out_insn r)"
        using Suc.IH [of "i2\<lparr>attr := e\<rparr>"] i2(3) e(2) Suc.prems(3,4) at(2) by auto
      moreover have "opcode_loop T buf insn = opcode_loop T buf (i2\<lparr>attr := e\<rparr>)"
      proof -
        have "insn\<lparr>next_byte := next_byte insn + 1\<rparr>\<lparr>opcode := (fset (opcode (insn\<lparr>next_byte := next_byte insn + 1\<rparr>))
            (nbytes (opcode (insn\<lparr>next_byte := next_byte insn + 1\<rparr>))) op)\<lparr>nbytes := nbytes (opcode (insn\<lparr>next_byte := next_byte insn + 1\<rparr>)) + 1\<rparr>\<rparr> = i1"
          by (simp add: i1_def)
        then show ?thesis using Suc.prems(4)
          by (subst opcode_loop.simps)
            (simp only: esc True nx rd_in op_def [symmetric] bind.bind_lunit Let_def i2(1) prod.case at(1) e(1) simp_thms if_True if_False, simp)
      qed
      ultimately show ?thesis using mono by simp
    qed
  qed
qed

lemma insn_get_opcode_stage:
  assumes "tables_ok T" "stage s 0 buf insn"
  shows "\<exists>insn'. insn_get_opcode T buf insn = Some insn' \<and> stage s 1 buf insn'"
proof (cases "got (opcode insn)")
  case True
  then show ?thesis using stage_mono [OF assms(2)] by (simp add: insn_get_opcode_def)
next
  case False
  obtain i1 where i1: "(if \<not> got (prefixes insn) then insn_get_prefixes T buf insn else Some insn) = Some i1" "stage s 0 buf i1"
    using prefixes_stage [OF assms] by blast
  show ?thesis
  proof (rule get_next_cases [OF stage_ok [OF i1(2)], of 1])
    assume "get_next 1 buf i1 = Some None"
    then show ?thesis using False i1 stage_mono [OF i1(2)] by (simp add: insn_get_opcode_def)
  next
    fix v assume v: "get_next 1 buf i1 = Some (Some (v, i1\<lparr>next_byte := next_byte i1 + 1\<rparr>))"
      "insn_ok buf (i1\<lparr>next_byte := next_byte i1 + 1\<rparr>)"
    define op where "op = (ucast v :: u8)"
    define i2 where "i2 = i1\<lparr>next_byte := next_byte i1 + 1, opcode := (fset (opcode i1) 0 op)\<lparr>nbytes := 1\<rparr>\<rparr>"
    have i2: "stage s 1 buf i2" "nbytes (opcode i2) = 1"
      using i1(2) v(2) by (simp_all add: i2_def stage_def insn_ok_def consumed_simps later_def)
    obtain avx i3 where i3: "insn_is_avx T buf i2 = Some (avx, i3)" "stage s 1 buf i3" "pframe i2 i3"
      using insn_is_avx_stage [OF assms(1) i2(1)] by blast
    have n3: "nbytes (opcode i3) = 1" using i3(3) i2(2) by (simp add: pframe_def)
    have n0: "0 < next_byte i3" using i3(3) by (simp add: pframe_def i2_def)
    have fin: "stage s 1 buf (i\<lparr>opcode := (opcode i)\<lparr>got := True\<rparr>\<rparr>)" if "stage s 1 buf i" "next_byte i3 \<le> next_byte i" for i
      using that n0 by (simp add: stage_def insn_ok_def consumed_simps later_def)
    have eq: "insn_get_opcode T buf insn =
        (if avx then do {
            a \<leftarrow> inat_get_avx_attribute T op (insn_vex_m_bits i3) (insn_vex_p_bits i3);
            let insn = i3\<lparr>attr := a\<rparr>;
            (evex, insn) \<leftarrow> (if inat_must_evex a then insn_is_evex T buf insn else Some (True, insn));
            let insn = (if \<not> evex \<or> \<not> inat_accept_vex a \<and> \<not> inat_is_group a then insn\<lparr>attr := 0\<rparr> else insn);
            Some (insn\<lparr>opcode := (opcode insn)\<lparr>got := True\<rparr>\<rparr>)
          } else do {
            a \<leftarrow> inat_get_opcode_attribute T op;
            r \<leftarrow> opcode_loop T buf (i3\<lparr>attr := a\<rparr>);
            case r of
              Inl insn \<Rightarrow> Some insn
            | Inr insn \<Rightarrow> do {
                let insn = (if inat_must_vex (attr insn) then insn\<lparr>attr := 0\<rparr> else insn);
                Some (insn\<lparr>opcode := (opcode insn)\<lparr>got := True\<rparr>\<rparr>)
              }
          })"
      using False i1(1) v(1) i3(1) [unfolded i2_def] unfolding insn_get_opcode_def
      by (simp add: op_def [symmetric] split del: if_split)
    show ?thesis
    proof (cases avx)
      case True
      obtain a where a: "inat_get_avx_attribute T op (insn_vex_m_bits i3) (insn_vex_p_bits i3) = Some a"
        using avx_attribute_total [OF assms(1)] by blast
      have "stage s 1 buf (i3\<lparr>attr := a\<rparr>)" using i3(2) by simp
      from insn_is_evex_stage [OF assms(1) this] obtain evex i4 where
        i4: "insn_is_evex T buf (i3\<lparr>attr := a\<rparr>) = Some (evex, i4)" "stage s 1 buf i4" "pframe (i3\<lparr>attr := a\<rparr>) i4" by blast
      define i5 where "i5 = (if inat_must_evex a then i4 else i3\<lparr>attr := a\<rparr>)"
      have "stage s 1 buf i5" using i4(2) i3(2) by (simp add: i5_def)
      moreover define i6 where "i6 = (if \<not> (if inat_must_evex a then evex else True) \<or> \<not> inat_accept_vex a \<and> \<not> inat_is_group a
        then i5\<lparr>attr := 0\<rparr> else i5)"
      ultimately have "stage s 1 buf i6" by simp
      moreover have "next_byte i3 \<le> next_byte i6" using i4(3) by (simp add: i6_def i5_def pframe_def)
      moreover have "insn_get_opcode T buf insn = Some (i6\<lparr>opcode := (opcode i6)\<lparr>got := True\<rparr>\<rparr>)"
        using True a i4(1) unfolding eq i5_def i6_def by (cases "inat_must_evex a") (simp_all add: Let_def)
      ultimately show ?thesis using fin [of i6] by simp
    next
      case nav: False
      obtain a where a: "inat_get_opcode_attribute T op = Some a" using opcode_attribute_total [OF assms(1)] by blast
      obtain r where r: "opcode_loop T buf (i3\<lparr>attr := a\<rparr>) = Some r" "stage s 1 buf (out_insn r)" "next_byte i3 \<le> next_byte (out_insn r)"
        using opcode_loop_stage [OF assms(1), of s buf "i3\<lparr>attr := a\<rparr>" 2] i3(2) n3 by (auto simp: esc_depth_def)
      show ?thesis
      proof (cases r)
        case (Inl i6)
        then show ?thesis using nav a r by (simp add: eq)
      next
        case (Inr i6)
        then show ?thesis using nav a r fin [of i6] fin [of "i6\<lparr>attr := 0\<rparr>"] by (simp add: eq)
      qed
    qed
  qed
qed

subsection \<open>ModRM, SIB, displacement and immediates\<close>

lemma insn_get_modrm_stage:
  assumes "tables_ok T" "stage s 0 buf insn"
  shows "\<exists>insn'. insn_get_modrm T buf insn = Some insn' \<and> stage s 2 buf insn'"
proof (cases "got (modrm insn)")
  case True
  then show ?thesis using stage_mono [OF stage_mono [OF assms(2)]] by (simp add: insn_get_modrm_def numeral_2_eq_2)
next
  case False
  have fin: "stage s 2 buf (i\<lparr>modrm := (modrm i)\<lparr>got := True\<rparr>\<rparr>)" if "stage s 2 buf i" for i
    using that by (simp add: stage_def insn_ok_def consumed_simps later_def)
  obtain i1 where i1: "(if \<not> got (opcode insn) then insn_get_opcode T buf insn else Some insn) = Some i1" "stage s 1 buf i1"
    using unless_got [where P = "stage s 1 buf", OF _ insn_get_opcode_stage [OF assms]] stage_mono [OF assms(2)] by auto
  have s2: "stage s 2 buf i1" using stage_mono [OF i1(2)] by (simp add: numeral_2_eq_2)
  define mid where "mid = (if inat_has_modrm (attr i1) then do {
             r \<leftarrow> get_next 1 buf i1;
             or_out r (Inl i1) (\<lambda>(v, insn). do {
               let m = ucast v;
               let insn = insn\<lparr>modrm := (modrm insn)\<lparr>fval := ucast m, nbytes := 1\<rparr>\<rparr>;
               if inat_is_group (attr insn) then do {
                 (pfx_id, insn) \<leftarrow> insn_last_prefix_id T buf insn;
                 a \<leftarrow> inat_get_group_attribute T m pfx_id (attr insn);
                 let insn = insn\<lparr>attr := a\<rparr>;
                 (avx, insn) \<leftarrow> insn_is_avx T buf insn;
                 Some (Inr (if avx \<and> \<not> inat_accept_vex (attr insn) then insn\<lparr>attr := 0\<rparr> else insn))
               } else Some (Inr insn)
             })
           } else Some (Inr i1))"
  have "\<exists>r. mid = Some r \<and> stage s 2 buf (out_insn r)"
  proof (cases "inat_has_modrm (attr i1)")
    case False
    then show ?thesis using s2 by (simp add: mid_def)
  next
    case mr: True
    show ?thesis
    proof (rule get_next_cases [OF stage_ok [OF i1(2)], of 1])
      assume "get_next 1 buf i1 = Some None"
      then show ?thesis using s2 mr by (simp add: mid_def)
    next
      fix v assume v: "get_next 1 buf i1 = Some (Some (v, i1\<lparr>next_byte := next_byte i1 + 1\<rparr>))"
        "insn_ok buf (i1\<lparr>next_byte := next_byte i1 + 1\<rparr>)"
      define m where "m = (ucast v :: u8)"
      define i2 where "i2 = i1\<lparr>next_byte := next_byte i1 + 1, modrm := (modrm i1)\<lparr>fval := ucast m, nbytes := 1\<rparr>\<rparr>"
      have i2: "stage s 2 buf i2"
        using i1(2) v(2) by (simp add: i2_def stage_def insn_ok_def consumed_simps later_def)
      obtain id i3 where i3: "insn_last_prefix_id T buf i2 = Some (id, i3)" "id < 4" "stage s 2 buf i3"
        using insn_last_prefix_id_stage [OF assms(1) i2] by blast
      obtain a where a: "inat_get_group_attribute T m id (attr i3) = Some a" using group_attribute_total [OF assms(1) i3(2)] by blast
      have "stage s 2 buf (i3\<lparr>attr := a\<rparr>)" using i3(3) by simp
      from insn_is_avx_stage [OF assms(1) this] obtain avx i4 where
        i4: "insn_is_avx T buf (i3\<lparr>attr := a\<rparr>) = Some (avx, i4)" "stage s 2 buf i4" by blast
      have eq: "mid = (if inat_is_group (attr i1)
          then Some (Inr (if avx \<and> \<not> inat_accept_vex (attr i4) then i4\<lparr>attr := 0\<rparr> else i4)) else Some (Inr i2))"
        using v(1) mr i3(1) a i4(1) unfolding mid_def i2_def
        by (simp add: m_def [symmetric] Let_def)
      show ?thesis using i2 i4(2) unfolding eq by simp
    qed
  qed
  then obtain r where r: "mid = Some r" "stage s 2 buf (out_insn r)" by blast
  have "insn_get_modrm T buf insn = (case r of
        Inl insn \<Rightarrow> Some insn
      | Inr insn \<Rightarrow> Some ((if x86_64 insn \<and> inat_is_force64 (attr insn) then insn\<lparr>opnd_bytes := 8\<rparr> else insn)
          \<lparr>modrm := (modrm (if x86_64 insn \<and> inat_is_force64 (attr insn) then insn\<lparr>opnd_bytes := 8\<rparr> else insn))\<lparr>got := True\<rparr>\<rparr>))"
    using False i1(1) r(1) unfolding insn_get_modrm_def mid_def by (simp add: Let_def)
  then show ?thesis using r(2) fin [of "out_insn r"] fin [of "(out_insn r)\<lparr>opnd_bytes := 8\<rparr>"]
    by (cases r) (auto split: if_splits)
qed

lemma insn_get_sib_stage:
  assumes "tables_ok T" "stage s 0 buf insn"
  shows "\<exists>insn'. insn_get_sib T buf insn = Some insn' \<and> stage s 3 buf insn'"
proof -
  have up: "stage s 2 buf i \<Longrightarrow> stage s 3 buf i" for i using stage_mono [of s 2 buf i] by (simp add: numeral_3_eq_3 numeral_2_eq_2)
  have "stage s 2 buf insn" using stage_mono [OF stage_mono [OF assms(2)]] by (simp add: numeral_2_eq_2)
  then obtain i1 where i1: "(if \<not> got (modrm insn) then insn_get_modrm T buf insn else Some insn) = Some i1" "stage s 2 buf i1"
    using unless_got [where P = "stage s 2 buf", OF _ insn_get_modrm_stage [OF assms]] by blast
  have no: "stage s 3 buf (i1\<lparr>sib := (sib i1)\<lparr>got := True\<rparr>\<rparr>)"
    using up [OF i1(2)] by (simp add: stage_def insn_ok_def consumed_simps later_def)
  show ?thesis
  proof (rule get_next_cases [OF stage_ok [OF i1(2)], of 1])
    fix v assume v: "get_next 1 buf i1 = Some (Some (v, i1\<lparr>next_byte := next_byte i1 + 1\<rparr>))"
      "insn_ok buf (i1\<lparr>next_byte := next_byte i1 + 1\<rparr>)"
    have "stage s 3 buf (i1\<lparr>next_byte := next_byte i1 + 1, sib := \<lparr>fval = ucast v, got = True, nbytes = 1\<rparr>\<rparr>)"
      using i1(2) v(2) by (simp add: stage_def insn_ok_def consumed_simps later_def)
    then show ?thesis using i1(1) v(1) no up [OF \<open>stage s 2 buf insn\<close>] by (auto simp: insn_get_sib_def Let_def)
  qed (use i1 no up [OF i1(2)] up [OF \<open>stage s 2 buf insn\<close>] in \<open>auto simp: insn_get_sib_def Let_def\<close>)
qed

lemma insn_get_displacement_stage:
  assumes "tables_ok T" "stage s 0 buf insn"
  shows "\<exists>insn'. insn_get_displacement T buf insn = Some insn' \<and> stage s 4 buf insn'"
proof -
  have up: "stage s 3 buf i \<Longrightarrow> stage s 4 buf i" for i using stage_mono [of s 3 buf i] by (simp add: eval_nat_numeral)
  have "stage s 3 buf insn" using stage_mono [OF stage_mono [OF stage_mono [OF assms(2)]]] by (simp add: numeral_3_eq_3)
  then obtain i1 where i1: "(if \<not> got (sib insn) then insn_get_sib T buf insn else Some insn) = Some i1" "stage s 3 buf i1"
    using unless_got [where P = "stage s 3 buf", OF _ insn_get_sib_stage [OF assms]] by blast
  have no: "stage s 4 buf (i1\<lparr>displacement := (displacement i1)\<lparr>got := True\<rparr>\<rparr>)"
    using up [OF i1(2)] by (simp add: stage_def insn_ok_def consumed_simps later_def)
  show ?thesis
  proof (rule get_next_cases [OF stage_ok [OF i1(2)], of "disp_size i1"])
    fix v assume v: "get_next (disp_size i1) buf i1 = Some (Some (v, i1\<lparr>next_byte := next_byte i1 + disp_size i1\<rparr>))"
      "insn_ok buf (i1\<lparr>next_byte := next_byte i1 + disp_size i1\<rparr>)"
    have "stage s 4 buf (i1\<lparr>next_byte := next_byte i1 + disp_size i1,
        displacement := \<lparr>fval = sval (disp_size i1) v, got = True, nbytes = disp_size i1\<rparr>\<rparr>)"
      using i1(2) v(2) by (simp add: stage_def insn_ok_def consumed_simps later_def)
    then show ?thesis using i1(1) v(1) no up [OF \<open>stage s 3 buf insn\<close>] by (auto simp: insn_get_displacement_def Let_def)
  qed (use i1 no up [OF i1(2)] up [OF \<open>stage s 3 buf insn\<close>] in \<open>auto simp: insn_get_displacement_def Let_def\<close>)
qed

text \<open>A step of the immediates that leads from before field \<open>n\<close> to before field \<open>m\<close>.\<close>

definition imm_step :: "bool \<Rightarrow> nat \<Rightarrow> u8 list \<Rightarrow> insn \<Rightarrow> (insn + insn) option \<Rightarrow> bool" where
  "imm_step s m buf insn r \<longleftrightarrow>
     (\<exists>x. r = Some x \<and> stage s m buf (out_insn x) \<and> attr (out_insn x) = attr insn)"

lemma stage_up: "stage s n buf insn \<Longrightarrow> n \<le> m \<Longrightarrow> stage s m buf insn"
  by (induction m) (auto simp: le_Suc_eq dest: stage_mono)

lemma imm_step_up: "imm_step s n buf insn r \<Longrightarrow> n \<le> m \<Longrightarrow> imm_step s m buf insn r"
  by (auto simp: imm_step_def intro: stage_up)

lemma get_imm1_step: "stage s 4 buf insn \<Longrightarrow> imm_step s 5 buf insn (get_imm1 k buf insn)"
proof -
  assume st: "stage s 4 buf insn"
  show ?thesis
  proof (rule get_next_cases [OF stage_ok [OF st], of k])
    fix v assume v: "get_next k buf insn = Some (Some (v, insn\<lparr>next_byte := next_byte insn + k\<rparr>))"
      "insn_ok buf (insn\<lparr>next_byte := next_byte insn + k\<rparr>)"
    then show ?thesis using st
      by (simp add: get_imm1_def imm_step_def stage_def insn_ok_def consumed_simps later_def)
  qed (use stage_up [OF st, of 5] in \<open>simp add: get_imm1_def imm_step_def\<close>)
qed

lemma imm2_stage:
  assumes "stage s 5 buf insn" "insn_ok buf (insn\<lparr>next_byte := next_byte insn + k\<rparr>)"
  shows "stage s 6 buf (insn\<lparr>next_byte := next_byte insn + k, immediate2 := (immediate2 insn)\<lparr>fval := w, nbytes := k\<rparr>\<rparr>)"
  using assms by (simp add: stage_def insn_ok_def consumed_simps later_def)

lemma get_imm2_step: "stage s 5 buf insn \<Longrightarrow> imm_step s 6 buf insn (get_imm2 k buf insn)"
proof -
  assume st: "stage s 5 buf insn"
  show ?thesis
  proof (rule get_next_cases [OF stage_ok [OF st], of k])
    fix v assume v: "get_next k buf insn = Some (Some (v, insn\<lparr>next_byte := next_byte insn + k\<rparr>))"
      "insn_ok buf (insn\<lparr>next_byte := next_byte insn + k\<rparr>)"
    then show ?thesis using imm2_stage [OF st v(2)] by (simp add: get_imm2_def imm_step_def)
  qed (use stage_up [OF st, of 6] in \<open>simp add: get_imm2_def imm_step_def\<close>)
qed

lemma got_imm12_step: "stage s m buf insn \<Longrightarrow> imm_step s m buf insn (got_imm12 insn)"
  by (simp add: got_imm12_def imm_step_def stage_def insn_ok_def consumed_simps later_def)
    (cases m; simp add: later_def; auto simp: list_all_iff drop_Cons' split: if_splits)

lemma then_imm_step:
  assumes "imm_step s n buf insn r" "n \<le> m"
    and "\<And>i. stage s n buf i \<Longrightarrow> attr i = attr insn \<Longrightarrow> imm_step s m buf i (k i)"
  shows "imm_step s m buf insn (then_imm r k)"
proof -
  obtain x where x: "r = Some x" "stage s n buf (out_insn x)" "attr (out_insn x) = attr insn"
    using assms(1) by (auto simp: imm_step_def)
  show ?thesis
  proof (cases x)
    case (Inl i)
    then show ?thesis using x stage_up [OF x(2) assms(2)] by (simp add: then_imm_def imm_step_def)
  next
    case (Inr i)
    then show ?thesis using x assms(3) [of i] by (simp add: then_imm_def imm_step_def)
  qed
qed

lemmas imm_steps = get_imm1_step get_imm2_step got_imm12_step

lemma imm_pair_step:
  assumes "stage s 4 buf insn"
  shows "imm_step s 6 buf insn (then_imm (get_imm1 k buf insn) (\<lambda>insn. then_imm (get_imm2 j buf insn) got_imm12))"
    "imm_step s 6 buf insn (then_imm (get_imm1 k buf insn) (get_imm2 j buf))"
    "imm_step s 6 buf insn (then_imm (get_imm1 k buf insn) got_imm12)"
proof -
  have 2: "imm_step s 6 buf i (then_imm (get_imm2 j buf i) got_imm12)" if "stage s 5 buf i" for i
    by (rule then_imm_step [OF get_imm2_step [OF that]]) (simp_all add: got_imm12_step)
  have 3: "imm_step s 6 buf i (got_imm12 i)" if "stage s 5 buf i" for i
    by (rule got_imm12_step, rule stage_up [OF that]) simp
  note one = then_imm_step [OF get_imm1_step [OF assms]]
  show "imm_step s 6 buf insn (then_imm (get_imm1 k buf insn) (\<lambda>insn. then_imm (get_imm2 j buf insn) got_imm12))"
    by (rule one) (simp_all add: 2)
  show "imm_step s 6 buf insn (then_imm (get_imm1 k buf insn) (get_imm2 j buf))"
    by (rule one) (simp_all add: get_imm2_step)
  show "imm_step s 6 buf insn (then_imm (get_imm1 k buf insn) got_imm12)"
    by (rule one) (simp_all add: 3)
qed

lemma stage_fail: "stage s 4 buf insn \<Longrightarrow> imm_step s 6 buf insn (Some (Inl insn))"
  using stage_up [of s 4 buf insn 6] by (simp add: imm_step_def)

lemma get_moffset_step: "stage s 4 buf insn \<Longrightarrow> imm_step s 6 buf insn (get_moffset buf insn)"
  by (auto simp: get_moffset_def intro: imm_pair_step stage_fail)

lemma get_immv_step: "stage s 4 buf insn \<Longrightarrow> imm_step s 6 buf insn (get_immv buf insn)"
  by (auto simp: get_immv_def intro: imm_pair_step stage_fail)

lemma get_immv32_step: "stage s 4 buf insn \<Longrightarrow> imm_step s 5 buf insn (get_immv32 buf insn)"
  using stage_up [of s 4 buf insn 5] by (auto simp: get_immv32_def intro: get_imm1_step) (simp add: imm_step_def)

lemma get_immptr_step: "stage s 4 buf insn \<Longrightarrow> imm_step s 6 buf insn (get_immptr buf insn)"
proof -
  assume st: "stage s 4 buf insn"
  have seg: "imm_step s 6 buf i (do {
        r \<leftarrow> get_next 2 buf i;
        or_out r (Inl i) (\<lambda>(v, insn).
          got_imm12 (insn\<lparr>immediate2 := (immediate2 insn)\<lparr>fval := val32 v, nbytes := 2\<rparr>\<rparr>))
      })" if i: "stage s 5 buf i" for i
  proof (rule get_next_cases [OF stage_ok [OF i], of 2])
    fix v assume v: "get_next 2 buf i = Some (Some (v, i\<lparr>next_byte := next_byte i + 2\<rparr>))"
      "insn_ok buf (i\<lparr>next_byte := next_byte i + 2\<rparr>)"
    then show ?thesis using got_imm12_step [OF imm2_stage [OF i v(2), of "val32 v"]] by (simp add: imm_step_def)
  qed (use stage_up [OF i, of 6] in \<open>simp add: imm_step_def\<close>)
  show ?thesis unfolding get_immptr_def Let_def
    using then_imm_step [OF get_imm1_step [OF st] _ seg] stage_fail [OF st] by simp
qed

text \<open>
  The opcode map combines a second immediate only with a first one that is a single field.
\<close>

definition scnd_imm_ok :: "insn_attr_t \<Rightarrow> bool" where
  "scnd_imm_ok a \<longleftrightarrow> inat_has_second_immediate a \<longrightarrow> inat_immediate_size a \<in> {1, 2, 3, 6}"

lemma get_sized_immediate_step:
  assumes "stage s 4 buf insn"
  shows "imm_step s (if inat_immediate_size (attr insn) \<in> {1, 2, 3, 6} then 5 else 6) buf insn (get_sized_immediate buf insn)"
  using assms get_immptr_step get_immv32_step get_immv_step imm_pair_step(2) get_imm1_step stage_fail
  unfolding get_sized_immediate_def Let_def by (simp split: if_split)

lemma insn_get_immediate_stage:
  assumes "tables_ok T" "stage s 0 buf insn"
  shows "\<exists>insn'. insn_get_immediate T buf insn = Some insn' \<and> stage (s \<and> scnd_imm_ok (attr insn')) 6 buf insn'"
proof -
  have "stage s 4 buf insn" by (rule stage_up [OF assms(2)]) simp
  then obtain i1 where i1: "(if \<not> got (displacement insn) then insn_get_displacement T buf insn else Some insn) = Some i1" "stage s 4 buf i1"
    using unless_got [where P = "stage s 4 buf", OF _ insn_get_displacement_stage [OF assms]] by blast
  define s' where "s' = (s \<and> scnd_imm_ok (attr i1))"
  have st: "stage s' 4 buf i1" using i1(2) by (auto simp: stage_def s'_def)
  have "imm_step s' 6 buf i1
     (if inat_has_moffset (attr i1) then get_moffset buf i1
      else if \<not> inat_has_immediate (attr i1) then Some (Inr i1)
      else then_imm (get_sized_immediate buf i1) (\<lambda>insn.
        if inat_has_second_immediate (attr insn) then get_imm2 1 buf insn else Some (Inr insn)))"
    (is "imm_step s' 6 buf i1 ?r")
  proof -
    have "imm_step s' 6 buf i1 (then_imm (get_sized_immediate buf i1) (\<lambda>insn.
        if inat_has_second_immediate (attr insn) then get_imm2 1 buf insn else Some (Inr insn)))"
    proof (cases "s' \<and> inat_immediate_size (attr i1) \<notin> {1, 2, 3, 6}")
      case True
      then have "\<not> inat_has_second_immediate (attr i1)" by (auto simp: s'_def scnd_imm_ok_def)
      moreover have "imm_step s' 6 buf i1 (get_sized_immediate buf i1)"
        using get_sized_immediate_step [OF st] True by (simp split: if_splits)
      ultimately show ?thesis by (intro then_imm_step [of s' 6 buf i1]) (auto simp: imm_step_def)
    next
      case False
      have "imm_step s' 5 buf i1 (get_sized_immediate buf i1)"
        using get_sized_immediate_step [OF st] False
        by (auto simp: imm_step_def stage_def split: if_splits)
      then show ?thesis
      proof (rule then_imm_step)
        fix i assume i: "stage s' 5 buf i" "attr i = attr i1"
        show "imm_step s' 6 buf i (if inat_has_second_immediate (attr i) then get_imm2 1 buf i else Some (Inr i))"
          using get_imm2_step [OF i(1), of 1] stage_up [OF i(1), of 6] by (auto simp: imm_step_def)
      qed simp
    qed
    then show ?thesis using get_moffset_step [OF st] stage_up [OF st, of 6] by (simp add: imm_step_def)
  qed
  then obtain x where x: "?r = Some x" "stage s' 6 buf (out_insn x)" "attr (out_insn x) = attr i1"
    by (auto simp: imm_step_def)
  show ?thesis
  proof (cases "got (immediate insn)")
    case True
    then show ?thesis using stage_up [OF assms(2), of 6] by (auto simp: insn_get_immediate_def stage_def)
  next
    case False
    have "insn_get_immediate T buf insn =
        (case x of Inl insn \<Rightarrow> Some insn | Inr insn \<Rightarrow> Some (insn\<lparr>immediate := (immediate insn)\<lparr>got := True\<rparr>\<rparr>))"
      using False i1(1) x(1) unfolding insn_get_immediate_def by simp
    then show ?thesis using x(2,3)
      by (cases x) (auto simp: s'_def stage_def insn_ok_def consumed_simps later_def)
  qed
qed

lemma insn_get_length_stage:
  assumes "tables_ok T" "stage s 0 buf insn" "insn_length insn = 0"
  shows "\<exists>insn'. insn_get_length T buf insn = Some insn' \<and> stage (s \<and> scnd_imm_ok (attr insn')) 6 buf insn' \<and>
    insn_length insn' = next_byte insn' \<and> next_byte insn' \<le> 15"
proof -
  have "stage s 6 buf insn" by (rule stage_up [OF assms(2)]) simp
  then have "stage (s \<and> scnd_imm_ok (attr insn)) 6 buf insn" by (auto simp: stage_def)
  then obtain i1 where i1: "(if \<not> got (immediate insn) then insn_get_immediate T buf insn else Some insn) = Some i1"
      "stage (s \<and> scnd_imm_ok (attr i1)) 6 buf i1"
    using unless_got [where P = "\<lambda>i. stage (s \<and> scnd_imm_ok (attr i)) 6 buf i", OF _ insn_get_immediate_stage [OF assms(1,2)]] by blast
  then have "next_byte i1 \<le> 15" using stage_ok [OF i1(2)] by (auto simp: insn_ok_def)
  then show ?thesis using i1 assms(3)
    by (auto simp: insn_get_length_def stage_def insn_ok_def consumed_simps later_def)
qed

end
