(* ===== verification/Intel_PT_Insn.thy ===== *)
theory Intel_PT_Insn
  imports X86_Insn
begin

text \<open>
  Branch classification and printing of instructions for Intel PT
  (\<open>util/intel-pt-decoder/intel-pt-insn-decoder.c\<close>), on top of the instruction decoder.
\<close>

section \<open>Definitions\<close>

datatype intel_pt_insn_op =
    INTEL_PT_OP_OTHER | INTEL_PT_OP_CALL | INTEL_PT_OP_RET | INTEL_PT_OP_JCC | INTEL_PT_OP_JMP
  | INTEL_PT_OP_LOOP | INTEL_PT_OP_IRET | INTEL_PT_OP_INT | INTEL_PT_OP_SYSCALL | INTEL_PT_OP_SYSRET

datatype intel_pt_insn_branch =
    INTEL_PT_BR_NO_BRANCH | INTEL_PT_BR_INDIRECT | INTEL_PT_BR_CONDITIONAL | INTEL_PT_BR_UNCONDITIONAL

record intel_pt_insn =
  pi_op :: intel_pt_insn_op
  pi_branch :: intel_pt_insn_branch
  pi_length :: nat
  pi_rel :: int
  pi_buf :: "u8 list"

abbreviation (input) INTEL_PT_INSN_DESC_MAX :: nat where "INTEL_PT_INSN_DESC_MAX \<equiv> 32"
abbreviation (input) INTEL_PT_INSN_BUF_SZ :: nat where "INTEL_PT_INSN_BUF_SZ \<equiv> 16"

text \<open>The \<open>switch\<close> on the opcode.\<close>

definition insn_op_branch :: "insn \<Rightarrow> intel_pt_insn_op \<times> intel_pt_insn_branch" where
  "insn_op_branch insn =
     (let b0 = fbyte (opcode insn) 0; b1 = fbyte (opcode insn) 1 in
      if b0 = 0xf then
        if b1 = 0x05 \<or> b1 = 0x34 then (INTEL_PT_OP_SYSCALL, INTEL_PT_BR_INDIRECT)
        else if b1 = 0x07 \<or> b1 = 0x35 then (INTEL_PT_OP_SYSRET, INTEL_PT_BR_INDIRECT)
        else if 0x80 \<le> b1 \<and> b1 \<le> 0x8f then (INTEL_PT_OP_JCC, INTEL_PT_BR_CONDITIONAL)
        else (INTEL_PT_OP_OTHER, INTEL_PT_BR_NO_BRANCH)
      else if 0x70 \<le> b0 \<and> b0 \<le> 0x7f then (INTEL_PT_OP_JCC, INTEL_PT_BR_CONDITIONAL)
      else if b0 = 0xc2 \<or> b0 = 0xc3 \<or> b0 = 0xca \<or> b0 = 0xcb then (INTEL_PT_OP_RET, INTEL_PT_BR_INDIRECT)
      else if b0 = 0xcf then (INTEL_PT_OP_IRET, INTEL_PT_BR_INDIRECT)
      else if 0xcc \<le> b0 \<and> b0 \<le> 0xce then (INTEL_PT_OP_INT, INTEL_PT_BR_INDIRECT)
      else if b0 = 0xe8 then (INTEL_PT_OP_CALL, INTEL_PT_BR_UNCONDITIONAL)
      else if b0 = 0x9a then (INTEL_PT_OP_CALL, INTEL_PT_BR_INDIRECT)
      else if 0xe0 \<le> b0 \<and> b0 \<le> 0xe2 then (INTEL_PT_OP_LOOP, INTEL_PT_BR_CONDITIONAL)
      else if b0 = 0xe3 then (INTEL_PT_OP_JCC, INTEL_PT_BR_CONDITIONAL)
      else if b0 = 0xe9 \<or> b0 = 0xeb then (INTEL_PT_OP_JMP, INTEL_PT_BR_UNCONDITIONAL)
      else if b0 = 0xea then (INTEL_PT_OP_JMP, INTEL_PT_BR_INDIRECT)
      else if b0 = 0xff then
        let ext = drop_bit 3 (fbyte (modrm insn) 0) AND 0x7 in
        if ext = 2 \<or> ext = 3 then (INTEL_PT_OP_CALL, INTEL_PT_BR_INDIRECT)
        else if ext = 4 \<or> ext = 5 then (INTEL_PT_OP_JMP, INTEL_PT_BR_INDIRECT)
        else (INTEL_PT_OP_OTHER, INTEL_PT_BR_NO_BRANCH)
      else (INTEL_PT_OP_OTHER, INTEL_PT_BR_NO_BRANCH))"

text \<open>The little-endian variant.\<close>

definition intel_pt_insn_decoder :: "inat_tables \<Rightarrow> u8 list \<Rightarrow> insn \<Rightarrow> intel_pt_insn \<Rightarrow> intel_pt_insn option" where
  "intel_pt_insn_decoder T buf insn pi = do {
     let pi = pi\<lparr>pi_rel := 0\<rparr>;
     (avx, insn) \<leftarrow> insn_is_avx T buf insn;
     if avx then
       Some (pi\<lparr>pi_op := INTEL_PT_OP_OTHER, pi_branch := INTEL_PT_BR_NO_BRANCH, pi_length := insn_length insn\<rparr>)
     else do {
       let (op, branch) = insn_op_branch insn;
       let pi = pi\<lparr>pi_op := op, pi_branch := branch, pi_length := insn_length insn\<rparr>;
       Some (if branch = INTEL_PT_BR_CONDITIONAL \<or> branch = INTEL_PT_BR_UNCONDITIONAL
             then pi\<lparr>pi_rel := sint (fval (immediate insn))\<rparr> else pi)
     }
   }"

text \<open>The conversion of the \<open>size_t\<close> length to an \<open>int\<close>.\<close>

definition memcpy_to :: "'a list \<Rightarrow> 'a list \<Rightarrow> nat \<Rightarrow> 'a list option" where
  "memcpy_to dst src n =
     (if n \<le> length dst \<and> n \<le> length src then Some (take n src @ drop n dst) else None)"

definition intel_pt_get_insn ::
  "inat_tables \<Rightarrow> u8 list \<Rightarrow> nat \<Rightarrow> bool \<Rightarrow> intel_pt_insn \<Rightarrow> (int \<times> intel_pt_insn) option"
where
  "intel_pt_get_insn T buf len is64 pi = do {
     insn \<leftarrow> insn_get_length T buf (insn_init (int_of_size len) is64);
     if \<not> insn_complete insn \<or> insn_length insn > len then Some (- 1, pi)
     else do {
       pi \<leftarrow> intel_pt_insn_decoder T buf insn pi;
       b \<leftarrow> memcpy_to (pi_buf pi) buf
              (if insn_length insn < INTEL_PT_INSN_BUF_SZ then insn_length insn else INTEL_PT_INSN_BUF_SZ);
       Some (0, pi\<lparr>pi_buf := b\<rparr>)
     }
   }"

definition arch_is_branch :: "inat_tables \<Rightarrow> u8 list \<Rightarrow> nat \<Rightarrow> bool \<Rightarrow> intel_pt_insn \<Rightarrow> int option" where
  "arch_is_branch T buf len is64 pi = do {
     (ret, pi) \<leftarrow> intel_pt_get_insn T buf len is64 pi;
     Some (if ret < 0 then - 1 else if pi_branch pi \<noteq> INTEL_PT_BR_NO_BRANCH then 1 else 0)
   }"

text \<open>\<open>%02x\<close> of a byte.\<close>

definition fmt_02x :: "u8 \<Rightarrow> string" where
  "fmt_02x b = [digit_char (unat b div 16), digit_char (unat b mod 16)]"

text \<open>
  The loop of \<open>dump_insn\<close>: \<open>k\<close> bytes from index \<open>i\<close> on. \<open>left\<close> is an \<open>int\<close> that \<open>snprintf\<close>
  receives as a \<open>size_t\<close>.
\<close>

fun dump_insn_loop :: "u8 list \<Rightarrow> char list \<Rightarrow> nat \<Rightarrow> nat \<Rightarrow> nat \<Rightarrow> int \<Rightarrow> char list option" where
  "dump_insn_loop inbuf out 0 i n left = Some out"
| "dump_insn_loop inbuf out (Suc k) i n left = do {
     b \<leftarrow> rd inbuf i;
     (r, out) \<leftarrow> snprintf out n (nat (left mod 2 ^ 64)) (fmt_02x b @ '' '');
     let n = n + nat r;
     dump_insn_loop inbuf out k (i + 1) n (left - int n)
   }"

text \<open>The result is \<open>None\<close> for \<open>"<bad>"\<close>, else the length and the contents of \<open>x->out\<close>.\<close>

definition dump_insn :: "inat_tables \<Rightarrow> bool \<Rightarrow> char list \<Rightarrow> u8 list \<Rightarrow> int \<Rightarrow> (nat \<times> char list) option option" where
  "dump_insn T is64bit out inbuf inlen = do {
     insn \<leftarrow> insn_get_length T inbuf (insn_init inlen is64bit);
     if \<not> insn_complete insn \<or> int (insn_length insn) > inlen then Some None
     else do {
       (n, out) \<leftarrow> snprintf out 0 256 ''insn: '';
       out \<leftarrow> dump_insn_loop inbuf out (insn_length insn) 0 (nat n) (256 - n);
       Some (Some (insn_length insn, out))
     }
   }"

fun intel_pt_insn_name :: "intel_pt_insn_op \<Rightarrow> string" where
  "intel_pt_insn_name INTEL_PT_OP_OTHER = ''Other''"
| "intel_pt_insn_name INTEL_PT_OP_CALL = ''Call''"
| "intel_pt_insn_name INTEL_PT_OP_RET = ''Ret''"
| "intel_pt_insn_name INTEL_PT_OP_JCC = ''Jcc''"
| "intel_pt_insn_name INTEL_PT_OP_JMP = ''Jmp''"
| "intel_pt_insn_name INTEL_PT_OP_LOOP = ''Loop''"
| "intel_pt_insn_name INTEL_PT_OP_IRET = ''IRet''"
| "intel_pt_insn_name INTEL_PT_OP_INT = ''Int''"
| "intel_pt_insn_name INTEL_PT_OP_SYSCALL = ''Syscall''"
| "intel_pt_insn_name INTEL_PT_OP_SYSRET = ''Sysret''"

definition intel_pt_insn_desc_text :: "intel_pt_insn \<Rightarrow> string" where
  "intel_pt_insn_desc_text pi =
     (case pi_branch pi of
        INTEL_PT_BR_CONDITIONAL \<Rightarrow> intel_pt_insn_name (pi_op pi) @ '' '' @ (if pi_rel pi > 0 then ''+'' else []) @ fmt_d (pi_rel pi)
      | INTEL_PT_BR_UNCONDITIONAL \<Rightarrow> intel_pt_insn_name (pi_op pi) @ '' '' @ (if pi_rel pi > 0 then ''+'' else []) @ fmt_d (pi_rel pi)
      | INTEL_PT_BR_NO_BRANCH \<Rightarrow> intel_pt_insn_name (pi_op pi)
      | INTEL_PT_BR_INDIRECT \<Rightarrow> intel_pt_insn_name (pi_op pi))"

definition intel_pt_insn_desc :: "intel_pt_insn \<Rightarrow> char list \<Rightarrow> nat \<Rightarrow> (int \<times> char list) option" where
  "intel_pt_insn_desc pi buf buf_len = snprintf buf 0 buf_len (intel_pt_insn_desc_text pi)"

definition PERF_IP_FLAG_BRANCH :: nat where "PERF_IP_FLAG_BRANCH = 1"
definition PERF_IP_FLAG_CALL :: nat where "PERF_IP_FLAG_CALL = 2"
definition PERF_IP_FLAG_RETURN :: nat where "PERF_IP_FLAG_RETURN = 4"
definition PERF_IP_FLAG_CONDITIONAL :: nat where "PERF_IP_FLAG_CONDITIONAL = 8"
definition PERF_IP_FLAG_SYSCALLRET :: nat where "PERF_IP_FLAG_SYSCALLRET = 16"
definition PERF_IP_FLAG_INTERRUPT :: nat where "PERF_IP_FLAG_INTERRUPT = 64"

lemmas ip_flags = PERF_IP_FLAG_BRANCH_def PERF_IP_FLAG_CALL_def PERF_IP_FLAG_RETURN_def PERF_IP_FLAG_CONDITIONAL_def
  PERF_IP_FLAG_SYSCALLRET_def PERF_IP_FLAG_INTERRUPT_def

fun intel_pt_insn_type :: "intel_pt_insn_op \<Rightarrow> nat" where
  "intel_pt_insn_type INTEL_PT_OP_OTHER = 0"
| "intel_pt_insn_type INTEL_PT_OP_CALL = PERF_IP_FLAG_BRANCH OR PERF_IP_FLAG_CALL"
| "intel_pt_insn_type INTEL_PT_OP_RET = PERF_IP_FLAG_BRANCH OR PERF_IP_FLAG_RETURN"
| "intel_pt_insn_type INTEL_PT_OP_JCC = PERF_IP_FLAG_BRANCH OR PERF_IP_FLAG_CONDITIONAL"
| "intel_pt_insn_type INTEL_PT_OP_JMP = PERF_IP_FLAG_BRANCH"
| "intel_pt_insn_type INTEL_PT_OP_LOOP = PERF_IP_FLAG_BRANCH OR PERF_IP_FLAG_CONDITIONAL"
| "intel_pt_insn_type INTEL_PT_OP_IRET = PERF_IP_FLAG_BRANCH OR PERF_IP_FLAG_RETURN OR PERF_IP_FLAG_INTERRUPT"
| "intel_pt_insn_type INTEL_PT_OP_INT = PERF_IP_FLAG_BRANCH OR PERF_IP_FLAG_CALL OR PERF_IP_FLAG_INTERRUPT"
| "intel_pt_insn_type INTEL_PT_OP_SYSCALL = PERF_IP_FLAG_BRANCH OR PERF_IP_FLAG_CALL OR PERF_IP_FLAG_SYSCALLRET"
| "intel_pt_insn_type INTEL_PT_OP_SYSRET = PERF_IP_FLAG_BRANCH OR PERF_IP_FLAG_RETURN OR PERF_IP_FLAG_SYSCALLRET"

section \<open>Decoding\<close>

lemma op_branch_agree: "insn_op_branch insn = (op, branch) \<Longrightarrow> op = INTEL_PT_OP_OTHER \<longleftrightarrow> branch = INTEL_PT_BR_NO_BRANCH"
  unfolding insn_op_branch_def Let_def by (simp split: if_splits; auto)

lemma op_type_agree: "intel_pt_insn_type op AND PERF_IP_FLAG_BRANCH \<noteq> 0 \<longleftrightarrow> op \<noteq> INTEL_PT_OP_OTHER"
  by (cases op) (simp_all add: ip_flags)

lemma init_stage: "buf_len \<le> int (length buf) \<Longrightarrow> stage False 0 buf (insn_init buf_len is64)"
  by (simp add: stage_def insn_ok_def insn_init_def no_field_def)

lemma init_length: "insn_length (insn_init buf_len is64) = 0"
  by (simp add: insn_init_def)

lemma insn_decoder_total:
  assumes "tables_ok T" "stage s n buf insn"
  shows "\<exists>pi'. intel_pt_insn_decoder T buf insn pi = Some pi' \<and> pi_buf pi' = pi_buf pi \<and> pi_length pi' = insn_length insn \<and>
    (pi_branch pi' = INTEL_PT_BR_NO_BRANCH \<longleftrightarrow> pi_op pi' = INTEL_PT_OP_OTHER)"
proof -
  obtain avx i where i: "insn_is_avx T buf insn = Some (avx, i)" "pframe insn i"
    using insn_is_avx_stage [OF assms] by blast
  obtain op branch where ob: "insn_op_branch i = (op, branch)" by (cases "insn_op_branch i")
  have "insn_length i = insn_length insn" using i(2) by (simp add: pframe_def)
  then show ?thesis using i(1) op_branch_agree [OF ob] ob by (cases avx) (simp_all add: intel_pt_insn_decoder_def Let_def)
qed

lemma get_length_init:
  assumes "tables_ok T" "buf_len \<le> int (length buf)"
  shows "\<exists>insn. insn_get_length T buf (insn_init buf_len is64) = Some insn \<and> stage False 6 buf insn \<and>
    insn_length insn = next_byte insn \<and> insn_length insn \<le> 15 \<and> (insn_complete insn \<longrightarrow> 0 < insn_length insn)"
  using insn_get_length_stage [OF assms(1) init_stage [OF assms(2)] init_length, of is64]
  by (auto simp: insn_complete_def stage_def insn_ok_def)

lemma fbyte_fset: "i < 4 \<Longrightarrow> j < 4 \<Longrightarrow> fbyte (fset f i b) j = (if i = j then b else fbyte f j)"
proof -
  assume ij: "i < 4" "j < 4"
  show ?thesis
  proof (rule bit_word_eqI)
    fix n assume "n < LENGTH(8)"
    then have n: "n < 8" by simp
    have "bit (0xff :: u32) k \<longleftrightarrow> k < 8" for k
    proof -
      have "(0xff :: u32) = mask 8" by (simp add: mask_eq_exp_minus_1)
      then have "bit (0xff :: u32) k \<longleftrightarrow> bit (mask 8 :: u32) k" by (simp only:)
      then show ?thesis unfolding bit_mask_iff possible_bit_word by auto
    qed
    moreover have "8 * i \<le> 8 * j + n \<and> 8 * j + n - 8 * i < 8 \<longleftrightarrow> i = j" using n by presburger
    moreover have "8 * i \<le> 8 * j + n \<Longrightarrow> bit b (8 * j + n - 8 * i) \<Longrightarrow> 8 * j + n - 8 * i < 8"
      using bit_imp_le_length [of b] by auto
    ultimately show "bit (fbyte (fset f i b) j) n = bit (if i = j then b else fbyte f j) n"
      using ij n by (auto simp: fbyte_def fset_def bit_simps)
  qed
qed

lemma fval_zero: "fval f = 0 \<Longrightarrow> fbyte f i = 0"
  by (simp add: fbyte_def)

section \<open>Printing\<close>

lemma fmt_02x_text: "length (fmt_02x b @ '' '') = 3" "CHR 0x00 \<notin> set (fmt_02x b)"
proof -
  have "unat b div 16 < 16" "unat b mod 16 < 16" using unat_byte [of b] by auto
  then show "CHR 0x00 \<notin> set (fmt_02x b)"
    using digit_char_no_nul [of "unat b div 16"] digit_char_no_nul [of "unat b mod 16"] by (auto simp: fmt_02x_def)
qed (simp add: fmt_02x_def)

definition hex_text :: "u8 list \<Rightarrow> string" where
  "hex_text bs = concat (map (\<lambda>b. fmt_02x b @ '' '') bs)"

text \<open>What \<open>left\<close> is after \<open>i\<close> bytes: it decreases by more than was printed.\<close>

fun dump_left :: "nat \<Rightarrow> int" where
  "dump_left 0 = 250"
| "dump_left (Suc i) = dump_left i - int (6 + 3 * (i + 1))"

lemma dump_left_room: "i < 15 \<Longrightarrow> 4 \<le> nat (dump_left i mod 2 ^ 64)"
proof -
  assume "i < 15"
  moreover have "list_all (\<lambda>i. 25 \<le> dump_left i \<and> dump_left i \<le> 250 \<or> - 1000 \<le> dump_left i \<and> dump_left i < 0) [0..<15]"
    by code_simp
  ultimately have "25 \<le> dump_left i \<and> dump_left i \<le> 250 \<or> - 1000 \<le> dump_left i \<and> dump_left i < 0"
    by (simp add: list_all_iff)
  then show ?thesis
  proof
    assume a: "25 \<le> dump_left i \<and> dump_left i \<le> 250"
    then have "dump_left i mod 2 ^ 64 = dump_left i" by (intro mod_pos_pos_trivial) auto
    then show ?thesis using a by (simp add: le_nat_iff)
  next
    assume a: "- 1000 \<le> dump_left i \<and> dump_left i < 0"
    then have "(dump_left i + 2 ^ 64) mod 2 ^ 64 = dump_left i + 2 ^ 64" by (intro mod_pos_pos_trivial) auto
    then have "dump_left i mod 2 ^ 64 = dump_left i + 2 ^ 64" by simp
    then show ?thesis using a by (simp add: le_nat_iff)
  qed
qed

lemma dump_insn_loop_text:
  "i + k \<le> 15 \<Longrightarrow> i + k \<le> length inbuf \<Longrightarrow> length pre = 6 + 3 * i \<Longrightarrow> length pre + length rest = 256 \<Longrightarrow>
    \<exists>rest'. dump_insn_loop inbuf (pre @ rest) k i (length pre) (dump_left i) =
      Some (pre @ hex_text (take k (drop i inbuf)) @ rest') \<and> (k = 0 \<longrightarrow> rest' = rest) \<and> (0 < k \<longrightarrow> (\<exists>r. rest' = CHR 0x00 # r))"
proof (induction k arbitrary: i pre rest)
  case 0
  then show ?case by (simp add: hex_text_def)
next
  case (Suc k)
  define b where "b = inbuf ! i"
  define s where "s = fmt_02x b @ '' ''"
  have i: "i < 15" "i < length inbuf" using Suc.prems by auto
  have s: "length s = 3" unfolding s_def by (rule fmt_02x_text)
  have sn: "snprintf (pre @ rest) (length pre) (nat (dump_left i mod 2 ^ 64)) s =
      Some (3, (pre @ s) @ CHR 0x00 # drop 4 rest)"
    using snprintf_at [of s rest "nat (dump_left i mod 2 ^ 64)" pre] s dump_left_room [OF i(1)] Suc.prems
    by (simp add: eval_nat_numeral)
  have "\<exists>rest'. dump_insn_loop inbuf ((pre @ s) @ CHR 0x00 # drop 4 rest) k (i + 1) (length (pre @ s)) (dump_left (i + 1)) =
      Some ((pre @ s) @ hex_text (take k (drop (i + 1) inbuf)) @ rest') \<and> (k = 0 \<longrightarrow> rest' = CHR 0x00 # drop 4 rest) \<and>
      (0 < k \<longrightarrow> (\<exists>r. rest' = CHR 0x00 # r))"
    using Suc.prems s by (intro Suc.IH) auto
  then obtain rest' where ih: "dump_insn_loop inbuf ((pre @ s) @ CHR 0x00 # drop 4 rest) k (i + 1) (length (pre @ s)) (dump_left (i + 1)) =
      Some ((pre @ s) @ hex_text (take k (drop (i + 1) inbuf)) @ rest')" "\<exists>r. rest' = CHR 0x00 # r"
    by (cases "k = 0") auto
  have "take (Suc k) (drop i inbuf) = b # take k (drop (i + 1) inbuf)"
    using i(2) by (simp add: b_def Cons_nth_drop_Suc [symmetric])
  then have txt': "pre @ hex_text (take (Suc k) (drop i inbuf)) = (pre @ s) @ hex_text (take k (drop (i + 1) inbuf))"
    by (simp add: hex_text_def s_def)
  have left: "dump_left i - int (length pre + nat 3) = dump_left (i + 1)" using Suc.prems(3) by simp
  have "dump_insn_loop inbuf (pre @ rest) (Suc k) i (length pre) (dump_left i) =
      dump_insn_loop inbuf ((pre @ s) @ CHR 0x00 # drop 4 rest) k (i + 1) (length (pre @ s)) (dump_left (i + 1))"
    using sn s left
    by (simp add: i(2) b_def [symmetric] s_def [symmetric] Let_def del: dump_left.simps append_assoc)
  then show ?case using ih txt' by (metis append.assoc nat.distinct(1))
qed

lemma hex_text_no_nul: "CHR 0x00 \<notin> set (hex_text bs)"
  using fmt_02x_text(2) by (induction bs) (auto simp: hex_text_def)

section \<open>Properties\<close>

text \<open>
  C27. \<open>intel_pt_get_insn\<close> with tables of the generated shape and a buffer of at least \<open>len\<close> bytes:
  it returns without reading outside the buffer or the tables; it either reports failure and
  leaves its result alone, or a length from 1 to 15 that does not exceed \<open>len\<close>, with that many
  bytes of the instruction copied. The operation is "other" exactly when there is no branch.
\<close>

theorem intel_pt_get_insn_safe:
  assumes "tables_ok T" and "len \<le> length buf" and "len < 2 ^ 31" and "length (pi_buf pi) = INTEL_PT_INSN_BUF_SZ"
  shows "\<exists>ret pi'. intel_pt_get_insn T buf len is64 pi = Some (ret, pi') \<and>
    (ret = - 1 \<and> pi' = pi \<or>
     ret = 0 \<and> 0 < pi_length pi' \<and> pi_length pi' \<le> 15 \<and> pi_length pi' \<le> len \<and>
       take (pi_length pi') (pi_buf pi') = take (pi_length pi') buf \<and>
       (pi_branch pi' = INTEL_PT_BR_NO_BRANCH \<longleftrightarrow> pi_op pi' = INTEL_PT_OP_OTHER))"
proof -
  have "int_of_size len \<le> int (length buf)" using assms(2,3) by (simp add: int_of_size_le)
  then obtain insn where insn: "insn_get_length T buf (insn_init (int_of_size len) is64) = Some insn" "stage False 6 buf insn"
      "insn_length insn \<le> 15" "insn_complete insn \<longrightarrow> 0 < insn_length insn"
    using get_length_init [OF assms(1)] by blast
  obtain pi' where pi': "intel_pt_insn_decoder T buf insn pi = Some pi'" "pi_buf pi' = pi_buf pi" "pi_length pi' = insn_length insn"
      "pi_branch pi' = INTEL_PT_BR_NO_BRANCH \<longleftrightarrow> pi_op pi' = INTEL_PT_OP_OTHER"
    using insn_decoder_total [OF assms(1) insn(2)] by blast
  show ?thesis
  proof (cases "insn_complete insn \<and> insn_length insn \<le> len")
    case True
    then have "memcpy_to (pi_buf pi') buf (insn_length insn) = Some (take (insn_length insn) buf @ drop (insn_length insn) (pi_buf pi'))"
      using insn(3) assms(2,4) pi'(2) by (simp add: memcpy_to_def)
    then show ?thesis using True insn pi' assms(2) by (simp add: intel_pt_get_insn_def)
  next
    case False
    then show ?thesis using insn(1) by (auto simp: intel_pt_get_insn_def)
  qed
qed

text \<open>
  Tables of the generated shape with a few opcodes: an operand size prefix, a REX prefix with
  \<open>W\<close>, the three-byte VEX prefix, a near call, and a VEX table without an entry.
\<close>

definition demo_tables :: inat_tables where
  "demo_tables =
     \<lparr>inat_primary_table = (replicate 256 0)[0x66 := 1, 0x48 := 12, 0xc4 := 0x400e, 0xe8 := 0xb000],
      inat_escape_tables = replicate 4 (replicate 4 None),
      inat_group_tables = replicate 32 (replicate 4 None),
      inat_avx_tables = (replicate 32 (replicate 4 None))[2 := [Some (replicate 256 0), None, None, None]]\<rparr>"

lemma demo_tables_ok: "tables_ok demo_tables"
proof -
  have "rows_ok 32 256 ((replicate 32 (replicate 4 None))[2 := [Some (replicate 256 (0 :: u32)), None, None, None]])"
    unfolding rows_ok_def by (auto dest!: set_update_subset_insert [THEN subsetD])
  then show ?thesis
    by (auto simp: tables_ok_def demo_tables_def rows_ok_def set_replicate_conv_if)
qed

lemma demo_primary:
  "inat_get_opcode_attribute demo_tables b =
     Some (if b = 0x66 then 1 else if b = 0x48 then 12 else if b = 0xc4 then 0x400e else if b = 0xe8 then 0xb000 else 0)"
proof -
  have "rd (inat_primary_table demo_tables) n =
      Some (if n = 0x66 then 1 else if n = 0x48 then 12 else if n = 0xc4 then 0x400e else if n = 0xe8 then 0xb000 else 0)"
    if "n < 256" for n using that by (simp add: demo_tables_def nth_list_update)
  moreover have "unat b = n \<longleftrightarrow> b = of_nat n" if "n < 256" for n
    using that by (simp add: word_unat_eq_iff [of b] unat_of_nat_small)
  ultimately show ?thesis using unat_byte [of b]
    by (simp add: inat_get_opcode_attribute_def)
qed

definition no_insn :: intel_pt_insn where
  "no_insn = \<lparr>pi_op = INTEL_PT_OP_OTHER, pi_branch = INTEL_PT_BR_NO_BRANCH, pi_length = 0, pi_rel = 0, pi_buf = replicate 16 0\<rparr>"

theorem intel_pt_get_insn_safe_witness:
  "\<exists>ret pi'. intel_pt_get_insn demo_tables [0xe8, 1, 0, 0, 0] 5 True no_insn = Some (ret, pi') \<and>
    (ret = - 1 \<and> pi' = no_insn \<or> ret = 0 \<and> 0 < pi_length pi' \<and> pi_length pi' \<le> 5)"
  using intel_pt_get_insn_safe [OF demo_tables_ok, of 5 "[0xe8, 1, 0, 0, 0]" no_insn True]
  by (auto simp: no_insn_def)

text \<open>The decoder started on an instruction whose prefixes have been read already.\<close>

lemma insn_get_length_prefixes:
  assumes "insn_get_prefixes T buf insn = Some i0" "got (prefixes i0)" "\<not> got (prefixes insn)" "pframe insn i0"
    and "\<not> got (opcode insn)" "\<not> got (modrm insn)" "\<not> got (sib insn)" "\<not> got (displacement insn)" "\<not> got (immediate insn)"
    and "insn_length insn = 0"
  shows "insn_get_length T buf insn = insn_get_length T buf i0"
proof -
  have n: "\<not> got (opcode i0)" "\<not> got (modrm i0)" "\<not> got (sib i0)" "\<not> got (displacement i0)" "\<not> got (immediate i0)" "insn_length i0 = 0"
    using assms(4-10) by (simp_all add: pframe_def)
  have "insn_get_opcode T buf insn = insn_get_opcode T buf i0"
    using assms(1-3,5) n by (simp add: insn_get_opcode_def)
  then have "insn_get_modrm T buf insn = insn_get_modrm T buf i0"
    using assms(5,6) n by (simp add: insn_get_modrm_def)
  then have "insn_get_sib T buf insn = insn_get_sib T buf i0"
    using assms(6,7) n by (simp add: insn_get_sib_def)
  then have "insn_get_displacement T buf insn = insn_get_displacement T buf i0"
    using assms(7,8) n by (simp add: insn_get_displacement_def)
  then have "insn_get_immediate T buf insn = insn_get_immediate T buf i0"
    using assms(8,9) n by (simp add: insn_get_immediate_def)
  then show ?thesis using assms(9,10) n by (simp add: insn_get_length_def)
qed


text \<open>Running the decoder on the tables above.\<close>

lemmas run_simps = insn_get_prefixes_def insn_init_def no_field_def peek_nbyte_next_def validate_next_def demo_primary
  prefix_loop.simps inat_is_legacy_prefix_def inat_masks set_last_prefix_def get_rex_prefix_def get_vex_prefix_def
  inat_is_rex_prefix_def inat_is_vex_prefix_def inat_is_vex3_prefix_def inat_is_evex_prefix_def Let_def


text \<open>The prefix code on a VEX prefix that the end of the buffer cuts off after its second byte.\<close>

lemma vex3_cut_off:
  fixes T :: inat_tables
  assumes "inat_get_opcode_attribute T 0xc4 = Some a" and "a AND INAT_PFX_MASK = 14"
    and "inat_get_opcode_attribute T b2 = Some a2" and "a2 AND INAT_PFX_MASK = 0"
  defines "i0 \<equiv> insn_init 2 True"
  defines "i1 \<equiv> i0\<lparr>rex_prefix := (rex_prefix i0)\<lparr>got := True\<rparr>, vex_prefix := fset (fset no_field 0 0xc4) 1 b2\<rparr>"
  defines "i2 \<equiv> i1\<lparr>next_byte := 1, opcode := (fset no_field 0 0xc4)\<lparr>nbytes := 1\<rparr>\<rparr>"
  defines "i3 \<equiv> i2\<lparr>vex_prefix := (vex_prefix i1)\<lparr>got := True\<rparr>, prefixes := no_field\<lparr>got := True\<rparr>\<rparr>"
  shows "insn_get_prefixes T [0xc4, b2] i0 = Some i1" and "insn_get_prefixes T [0xc4, b2] i2 = Some i3"
proof -
  show "insn_get_prefixes T [0xc4, b2] i0 = Some i1"
    using assms(1,2)
    by (simp add: i1_def i0_def insn_get_prefixes_def insn_init_def no_field_def peek_nbyte_next_def validate_next_def
        prefix_loop.simps inat_is_legacy_prefix_def set_last_prefix_def get_rex_prefix_def get_vex_prefix_def
        inat_is_rex_prefix_def inat_is_vex_prefix_def inat_is_vex3_prefix_def inat_is_evex_prefix_def Let_def)
  show "insn_get_prefixes T [0xc4, b2] i2 = Some i3"
    using assms(3,4)
    by (simp add: i3_def i2_def i1_def i0_def insn_get_prefixes_def insn_init_def no_field_def peek_nbyte_next_def validate_next_def
        prefix_loop.simps inat_is_legacy_prefix_def set_last_prefix_def get_rex_prefix_def get_vex_prefix_def
        inat_is_rex_prefix_def inat_is_vex_prefix_def inat_is_vex3_prefix_def inat_is_evex_prefix_def Let_def)
qed

text \<open>
  A three-byte VEX prefix that the end of the buffer cuts off after its second byte is reported
  as a complete instruction of one byte, when the VEX table it selects has no usable entry for
  \<open>0xc4\<close>: \<open>insn_get_opcode\<close> goes on after \<open>insn_get_prefixes\<close> has failed, and
  \<open>insn_complete\<close> does not look at the prefixes.
\<close>

theorem intel_pt_get_insn_truncated_vex:
  fixes T :: inat_tables
  assumes "inat_get_opcode_attribute T 0xc4 = Some a" and "a AND INAT_PFX_MASK = 14"
    and "inat_get_opcode_attribute T b2 = Some a2" and "a2 AND INAT_PFX_MASK = 0"
    and "inat_get_avx_attribute T 0xc4 (b2 AND 3) 0 = Some e" and "\<not> inat_accept_vex e" and "\<not> inat_is_group e" and "\<not> inat_must_evex e"
    and "length (pi_buf pi) = INTEL_PT_INSN_BUF_SZ"
  shows "\<exists>pi'. intel_pt_get_insn T [0xc4, b2] 2 True pi = Some (0, pi') \<and> pi_length pi' = 1"
proof -
  let ?buf = "[0xc4, b2]"
  define i0 where "i0 = insn_init 2 True"
  define v where "v = fset (fset no_field 0 0xc4) 1 b2"
  define i1 where "i1 = i0\<lparr>rex_prefix := (rex_prefix i0)\<lparr>got := True\<rparr>, vex_prefix := v\<rparr>"
  define i2 where "i2 = i1\<lparr>next_byte := 1, opcode := (fset no_field 0 0xc4)\<lparr>nbytes := 1\<rparr>\<rparr>"
  define i3 where "i3 = i2\<lparr>vex_prefix := v\<lparr>got := True\<rparr>, prefixes := no_field\<lparr>got := True\<rparr>\<rparr>"
  have p1: "insn_get_prefixes T ?buf i0 = Some i1" and p2: "insn_get_prefixes T ?buf i2 = Some i3"
    using vex3_cut_off [OF assms(1-4)] by (simp_all add: i0_def i1_def i2_def i3_def v_def)
  have bytes: "fbyte v 0 = 0xc4" "fbyte v 1 = b2" "fbyte v 2 = 0"
    by (simp_all add: v_def fbyte_fset fval_zero no_field_def)
  have "fval v \<noteq> 0" using bytes(1) fval_zero [of v 0] by auto
  have "insn_get_opcode T ?buf i0 = Some (i3\<lparr>attr := 0, opcode := (opcode i3)\<lparr>got := True\<rparr>\<rparr>)"
  proof -
    have "get_next 1 ?buf i1 = Some (Some (0xc4, i1\<lparr>next_byte := 1\<rparr>))"
      by (simp add: get_next_def validate_next_def i1_def i0_def insn_init_def rd_le_def)
    moreover have "opcode i1 = no_field" "\<not> got (prefixes i0)" "\<not> got (opcode i0)" "\<not> got (prefixes i2)"
      by (simp_all add: i2_def i1_def i0_def insn_init_def no_field_def)
    moreover have "nbytes (vex_prefix i3) = 0" "vex_prefix i3 = v\<lparr>got := True\<rparr>" by (simp_all add: i3_def v_def no_field_def)
    moreover have "fbyte (v\<lparr>got := True\<rparr>) n = fbyte v n" for n by (simp add: fbyte_def)
    ultimately show ?thesis
      using p1 p2 assms(5-8) \<open>fval v \<noteq> 0\<close> bytes unfolding i2_def
      by (simp add: insn_get_opcode_def insn_is_avx_def insn_vex_m_bits_def insn_vex_p_bits_def Let_def)
  qed
  then have "insn_get_length T ?buf i0 = Some (i3\<lparr>attr := 0, opcode := (opcode i3)\<lparr>got := True\<rparr>, modrm := no_field\<lparr>got := True\<rparr>,
      sib := no_field\<lparr>got := True\<rparr>, displacement := no_field\<lparr>got := True\<rparr>, immediate := no_field\<lparr>got := True\<rparr>, insn_length := 1\<rparr>)"
    by (simp add: insn_get_length_def insn_get_immediate_def insn_get_displacement_def insn_get_sib_def insn_get_modrm_def
        i3_def i2_def i1_def i0_def insn_init_def no_field_def inat_has_modrm_def inat_is_force64_def inat_has_moffset_def
        inat_has_immediate_def disp_size_def Let_def)
  moreover have "int_of_size 2 = 2" by (simp add: int_of_size_le)
  ultimately show ?thesis using assms(9) \<open>fval v \<noteq> 0\<close>
    by (simp add: intel_pt_get_insn_def i0_def [symmetric] insn_complete_def intel_pt_insn_decoder_def insn_is_avx_def
        i3_def i2_def memcpy_to_def Let_def)
qed

lemma demo_avx: "inat_get_avx_attribute demo_tables 0xc4 2 0 = Some 0"
  by (simp add: inat_get_avx_attribute_def demo_tables_def rd2_def)

theorem intel_pt_get_insn_truncated_vex_witness:
  "\<exists>pi'. intel_pt_get_insn demo_tables [0xc4, 0xe2] 2 True no_insn = Some (0, pi') \<and> pi_length pi' = 1"
  by (rule intel_pt_get_insn_truncated_vex [of demo_tables "0x400e" "0xe2" 0 0])
    (simp_all add: demo_primary demo_avx inat_masks no_insn_def inat_accept_vex_def inat_is_group_def inat_must_evex_def)

text \<open>
  For an instruction that decodes, \<open>dump_insn\<close> leaves the complete hexadecimal dump of exactly
  its bytes in \<open>x->out\<close>, although the room it passes to \<open>snprintf\<close> is not the room that is left
  (it becomes negative from the twelfth byte on).
\<close>

theorem dump_insn_complete:
  assumes "tables_ok T" and "inlen \<le> int (length inbuf)" and "length out = 256"
  shows "dump_insn T is64bit out inbuf inlen = Some None \<or>
    (\<exists>len out'. dump_insn T is64bit out inbuf inlen = Some (Some (len, out')) \<and> 0 < len \<and> len \<le> 15 \<and> int len \<le> inlen \<and>
      c_str out' 0 = ''insn: '' @ hex_text (take len inbuf))"
proof -
  obtain insn where i: "insn_get_length T inbuf (insn_init inlen is64bit) = Some insn"
      "insn_length insn \<le> 15" "insn_complete insn \<longrightarrow> 0 < insn_length insn"
    using get_length_init [OF assms(1,2)] by blast
  show ?thesis
  proof (cases "insn_complete insn \<and> int (insn_length insn) \<le> inlen")
    case False
    then show ?thesis using i(1) by (auto simp: dump_insn_def)
  next
    case True
    define len where "len = insn_length insn"
    have len: "0 < len" "len \<le> 15" "len \<le> length inbuf" "int len \<le> inlen" using True i assms(2) by (auto simp: len_def)
    define pre where "pre = ''insn: ''"
    have pre: "length pre = 6" "CHR 0x00 \<notin> set pre" by (simp_all add: pre_def)
    have sn: "snprintf out 0 256 pre = Some (6, pre @ CHR 0x00 # drop 7 out)"
      using snprintf_at [of pre out 256 "[]"] assms(3) pre(1) by simp
    have "\<exists>rest'. dump_insn_loop inbuf (pre @ CHR 0x00 # drop 7 out) len 0 (length pre) (dump_left 0) =
        Some (pre @ hex_text (take len (drop 0 inbuf)) @ rest') \<and> (len = 0 \<longrightarrow> rest' = CHR 0x00 # drop 7 out) \<and>
        (0 < len \<longrightarrow> (\<exists>r. rest' = CHR 0x00 # r))"
      using len assms(3) pre(1) by (intro dump_insn_loop_text) auto
    then obtain r where r: "dump_insn_loop inbuf (pre @ CHR 0x00 # drop 7 out) len 0 6 250 =
        Some (pre @ hex_text (take len inbuf) @ CHR 0x00 # r)"
      using len(1) pre(1) by auto
    then have "dump_insn T is64bit out inbuf inlen = Some (Some (len, pre @ hex_text (take len inbuf) @ CHR 0x00 # r))"
      using i(1) True sn unfolding dump_insn_def pre_def [symmetric] by (simp add: len_def [symmetric])
    moreover have "c_str ((pre @ hex_text (take len inbuf)) @ CHR 0x00 # r) 0 = pre @ hex_text (take len inbuf)"
      using pre(2) hex_text_no_nul by (intro c_str_append) simp
    ultimately show ?thesis using len unfolding pre_def [symmetric] by simp
  qed
qed

theorem dump_insn_complete_witness:
  "dump_insn demo_tables True (replicate 256 (CHR 0x00)) [0xe8, 1, 0, 0, 0] 5 = Some None \<or>
    (\<exists>len out'. dump_insn demo_tables True (replicate 256 (CHR 0x00)) [0xe8, 1, 0, 0, 0] 5 = Some (Some (len, out')) \<and> len \<le> 5)"
  using dump_insn_complete [OF demo_tables_ok, of 5 "[0xe8, 1, 0, 0, 0]" "replicate 256 (CHR 0x00)" True] by auto

text \<open>The description of an instruction fits the buffer the decoder has for it.\<close>

lemma intel_pt_insn_desc_fits:
  assumes "- (2 ^ 31) \<le> pi_rel pi" "pi_rel pi < 2 ^ 31"
  shows "length (intel_pt_insn_desc_text pi) < INTEL_PT_INSN_DESC_MAX"
proof -
  have "length (intel_pt_insn_name (pi_op pi)) \<le> 7" by (cases "pi_op pi") auto
  moreover have "length (fmt_d (pi_rel pi)) \<le> 21" using assms by (intro fmt_d_length) auto
  ultimately have "length (intel_pt_insn_name (pi_op pi)) + length (fmt_d (pi_rel pi)) \<le> 28" by linarith
  then show ?thesis by (auto simp: intel_pt_insn_desc_text_def split: intel_pt_insn_branch.splits)
qed

end
