(* ===== verification/Levenshtein.thy ===== *)
theory Levenshtein
  imports C_Library
begin

text \<open>
  The edit distance of \<^verbatim>\<open>util/levenshtein.c\<close>, which perf uses to suggest a
  command for a mistyped one.  The three rows are memory of their own: a row is the pointer that
  \<open>malloc\<close> returned, \<open>None\<close> being NULL, and an element is \<open>None\<close> until it is written.
  Signed arithmetic that leaves the range of \<open>int\<close> is undefined behaviour.

  The reference is the set of edit scripts of the comment in the source: swaps, substitutions,
  insertions and deletions with weights.  The function returns the least weight of a script.
\<close>

section \<open>The code\<close>

type_synonym row = "int option list option"

definition rd_row :: "row \<Rightarrow> nat \<Rightarrow> int option" where
  "rd_row r i = do { xs \<leftarrow> r; x \<leftarrow> rd xs i; x }"

definition wr_row :: "row \<Rightarrow> nat \<Rightarrow> int \<Rightarrow> row option" where
  "wr_row r i v = do { xs \<leftarrow> r; xs \<leftarrow> wr xs i (Some v); Some (Some xs) }"

text \<open>\<open>sizeof(int) * (len2 + 1)\<close> bytes of indeterminate content, or NULL.\<close>

definition malloc_row :: "bool \<Rightarrow> nat \<Rightarrow> row" where
  "malloc_row ok n = (if ok then Some (replicate n None) else None)"

definition strlen_int :: "char list \<Rightarrow> int option" where
  "strlen_int s = do { n \<leftarrow> strlen s 0; Some (int_of_size n) }"

record weights =
  w_swap :: int
  w_subst :: int
  w_add :: int
  w_del :: int

text \<open>The first row: \<open>n\<close> more turns of the loop, from column \<open>j\<close>.\<close>

fun first_row :: "int \<Rightarrow> nat \<Rightarrow> nat \<Rightarrow> row \<Rightarrow> row option" where
  "first_row a 0 j row1 = Some row1"
| "first_row a (Suc n) j row1 = do {
     v \<leftarrow> c_int (int j * a);
     row1 \<leftarrow> wr_row row1 j v;
     first_row a n (j + 1) row1
   }"

text \<open>One turn of the inner loop.\<close>

definition lev_cell :: "weights \<Rightarrow> char list \<Rightarrow> char list \<Rightarrow> row \<Rightarrow> row \<Rightarrow> nat \<Rightarrow> nat \<Rightarrow> row \<Rightarrow> row option" where
  "lev_cell ws string1 string2 row0 row1 i j row2 = do {
     v \<leftarrow> rd_row row1 j;
     x \<leftarrow> rd string1 i;
     y \<leftarrow> rd string2 j;
     v \<leftarrow> c_int (v + w_subst ws * of_bool (x \<noteq> y));
     row2 \<leftarrow> wr_row row2 (j + 1) v;
     row2 \<leftarrow>
       (if 0 < i \<and> 0 < j then do {
          x0 \<leftarrow> rd string1 (i - 1);
          y0 \<leftarrow> rd string2 (j - 1);
          if x0 = y \<and> x = y0 then do {
            v \<leftarrow> rd_row row2 (j + 1);
            u \<leftarrow> rd_row row0 (j - 1);
            u \<leftarrow> c_int (u + w_swap ws);
            if v > u then wr_row row2 (j + 1) u else Some row2
          } else Some row2
        } else Some row2);
     v \<leftarrow> rd_row row2 (j + 1);
     u \<leftarrow> rd_row row1 (j + 1);
     u \<leftarrow> c_int (u + w_del ws);
     row2 \<leftarrow> (if v > u then wr_row row2 (j + 1) u else Some row2);
     v \<leftarrow> rd_row row2 (j + 1);
     u \<leftarrow> rd_row row2 j;
     u \<leftarrow> c_int (u + w_add ws);
     if v > u then wr_row row2 (j + 1) u else Some row2
   }"

fun lev_cols :: "weights \<Rightarrow> char list \<Rightarrow> char list \<Rightarrow> row \<Rightarrow> row \<Rightarrow> nat \<Rightarrow> nat \<Rightarrow> nat \<Rightarrow> row \<Rightarrow> row option" where
  "lev_cols ws string1 string2 row0 row1 i 0 j row2 = Some row2"
| "lev_cols ws string1 string2 row0 row1 i (Suc n) j row2 = do {
     row2 \<leftarrow> lev_cell ws string1 string2 row0 row1 i j row2;
     lev_cols ws string1 string2 row0 row1 i n (j + 1) row2
   }"

text \<open>The outer loop; its last statements rotate the rows.  The result is \<open>row1\<close>.\<close>

fun lev_rows :: "weights \<Rightarrow> char list \<Rightarrow> char list \<Rightarrow> nat \<Rightarrow> nat \<Rightarrow> nat \<Rightarrow> row \<Rightarrow> row \<Rightarrow> row \<Rightarrow> row option" where
  "lev_rows ws string1 string2 len2 0 i row0 row1 row2 = Some row1"
| "lev_rows ws string1 string2 len2 (Suc n) i row0 row1 row2 = do {
     v \<leftarrow> c_int ((int i + 1) * w_del ws);
     row2 \<leftarrow> wr_row row2 0 v;
     row2 \<leftarrow> lev_cols ws string1 string2 row0 row1 i len2 0 row2;
     lev_rows ws string1 string2 len2 n (i + 1) row1 row2 row0
   }"

text \<open>
  \<open>m0\<close>, \<open>m1\<close> and \<open>m2\<close> say whether the three allocations succeed.  A loop whose bound is negative
  has no turn.
\<close>

definition levenshtein :: "bool \<times> bool \<times> bool \<Rightarrow> char list \<Rightarrow> char list \<Rightarrow> weights \<Rightarrow> int option" where
  "levenshtein m string1 string2 ws = (case m of (m0, m1, m2) \<Rightarrow> do {
     len1 \<leftarrow> strlen_int string1;
     len2 \<leftarrow> strlen_int string2;
     n \<leftarrow> c_int (len2 + 1);
     row1 \<leftarrow> first_row (w_add ws) (nat n) 0 (malloc_row m1 (nat n));
     row1 \<leftarrow> lev_rows ws string1 string2 (nat len2) (nat len1) 0 (malloc_row m0 (nat n)) row1 (malloc_row m2 (nat n));
     if len2 < 0 then None else rd_row row1 (nat len2)
   })"

section \<open>Edit scripts\<close>

text \<open>\<open>edits ws xs ys c\<close>: some edit script of weight \<open>c\<close> turns \<open>xs\<close> into \<open>ys\<close>.\<close>

inductive edits :: "weights \<Rightarrow> string \<Rightarrow> string \<Rightarrow> int \<Rightarrow> bool" for ws where
  Empty: "edits ws [] [] 0"
| Keep: "edits ws xs ys c \<Longrightarrow> edits ws (xs @ [x]) (ys @ [x]) c"
| Subst: "edits ws xs ys c \<Longrightarrow> x \<noteq> y \<Longrightarrow> edits ws (xs @ [x]) (ys @ [y]) (c + w_subst ws)"
| Swap: "edits ws xs ys c \<Longrightarrow> edits ws (xs @ [x, y]) (ys @ [y, x]) (c + w_swap ws)"
| Del: "edits ws xs ys c \<Longrightarrow> edits ws (xs @ [x]) ys (c + w_del ws)"
| Add: "edits ws xs ys c \<Longrightarrow> edits ws xs (ys @ [y]) (c + w_add ws)"

text \<open>The recurrence that the rows hold: the least weight between prefixes.\<close>

definition subst_cost :: "weights \<Rightarrow> string \<Rightarrow> string \<Rightarrow> nat \<Rightarrow> nat \<Rightarrow> int" where
  "subst_cost ws xs ys i j = w_subst ws * of_bool (xs ! i \<noteq> ys ! j)"

definition swapped :: "string \<Rightarrow> string \<Rightarrow> nat \<Rightarrow> nat \<Rightarrow> bool" where
  "swapped xs ys i j \<longleftrightarrow> 0 < i \<and> 0 < j \<and> xs ! (i - 1) = ys ! j \<and> xs ! i = ys ! (j - 1)"

function dist :: "weights \<Rightarrow> string \<Rightarrow> string \<Rightarrow> nat \<Rightarrow> nat \<Rightarrow> int" where
  "dist ws xs ys 0 j = int j * w_add ws"
| "dist ws xs ys (Suc i) 0 = (int i + 1) * w_del ws"
| "dist ws xs ys (Suc i) (Suc j) =
     Min {dist ws xs ys i j + subst_cost ws xs ys i j,
          (if swapped xs ys i j then dist ws xs ys (i - 1) (j - 1) + w_swap ws
           else dist ws xs ys i j + subst_cost ws xs ys i j),
          dist ws xs ys i (Suc j) + w_del ws,
          dist ws xs ys (Suc i) j + w_add ws}"
  by pat_completeness (simp_all split del: if_split)
termination
  by (relation "measure (\<lambda>(ws, xs, ys, i, j). i + j)") simp_all

declare dist.simps(3) [simp del]

lemma dist_Suc_le:
  "dist ws xs ys (Suc i) (Suc j) \<le> dist ws xs ys i j + subst_cost ws xs ys i j"
  "dist ws xs ys (Suc i) (Suc j) \<le> dist ws xs ys i (Suc j) + w_del ws"
  "dist ws xs ys (Suc i) (Suc j) \<le> dist ws xs ys (Suc i) j + w_add ws"
  unfolding dist.simps(3) by (rule Min_le; simp)+

lemma dist_Del: "dist ws xs ys (Suc i) j \<le> dist ws xs ys i j + w_del ws"
proof (cases j)
  case 0 then show ?thesis by (cases i) (simp_all add: algebra_simps)
qed (simp add: dist_Suc_le)

lemma dist_Add: "dist ws xs ys i (Suc j) \<le> dist ws xs ys i j + w_add ws"
  by (cases i) (simp_all add: distrib_right dist_Suc_le)

lemma dist_Swap:
  "xs ! i = ys ! Suc j \<Longrightarrow> xs ! Suc i = ys ! j \<Longrightarrow> dist ws xs ys (Suc (Suc i)) (Suc (Suc j)) \<le> dist ws xs ys i j + w_swap ws"
  by (subst dist.simps(3)) (simp add: swapped_def)

lemma dist_least:
  "edits ws as bs c \<Longrightarrow> xs = as @ as' \<Longrightarrow> ys = bs @ bs' \<Longrightarrow> dist ws xs ys (length as) (length bs) \<le> c"
proof (induction arbitrary: as' bs' rule: edits.induct)
  case (Keep as bs c x)
  from Keep.IH [of "x # as'" "x # bs'"] Keep.prems
  show ?case using dist_Suc_le(1) [of ws xs ys "length as" "length bs"] by (simp add: subst_cost_def nth_append)
next
  case (Subst as bs c x y)
  from Subst.IH [of "x # as'" "y # bs'"] Subst.prems Subst.hyps
  show ?case using dist_Suc_le(1) [of ws xs ys "length as" "length bs"] by (simp add: subst_cost_def nth_append)
next
  case (Swap as bs c x y)
  from Swap.IH [of "x # y # as'" "y # x # bs'"] Swap.prems
  show ?case using dist_Swap [of xs "length as" ys "length bs" ws] by (simp add: nth_append)
next
  case (Del as bs c x)
  from Del.IH [of "x # as'" bs'] Del.prems
  show ?case using dist_Del [of ws xs ys "length as" "length bs"] by simp
next
  case (Add as bs c y)
  from Add.IH [of as' "y # bs'"] Add.prems
  show ?case using dist_Add [of ws xs ys "length as" "length bs"] by simp
qed simp

lemma edits_dist:
  "i \<le> length xs \<Longrightarrow> j \<le> length ys \<Longrightarrow> edits ws (take i xs) (take j ys) (dist ws xs ys i j)"
proof (induction ws xs ys i j rule: dist.induct)
  case (1 ws xs ys j)
  show ?case
    using 1
  proof (induction j)
    case (Suc j)
    then show ?case using edits.Add [of ws "[]" "take j ys" "int j * w_add ws" "ys ! j"]
      by (simp add: take_Suc_conv_app_nth algebra_simps)
  qed (simp add: edits.Empty)
next
  case (2 ws xs ys i)
  show ?case
    using 2(1)
  proof (induction i)
    case 0
    then show ?case using edits.Del [OF edits.Empty, of ws "xs ! 0"] by (cases xs) simp_all
  next
    case (Suc i)
    then show ?case using edits.Del [of ws "take (Suc i) xs" "[]" "(int i + 1) * w_del ws" "xs ! Suc i"]
      by (simp add: take_Suc_conv_app_nth [of "Suc i"] algebra_simps)
  qed
next
  case (3 ws xs ys i j)
  let ?D = "dist ws xs ys"
  have del: "edits ws (take (Suc i) xs) (take (Suc j) ys) (?D i (Suc j) + w_del ws)"
    using edits.Del 3 by (simp add: take_Suc_conv_app_nth [of i])
  have add: "edits ws (take (Suc i) xs) (take (Suc j) ys) (?D (Suc i) j + w_add ws)"
    using edits.Add 3 by (simp add: take_Suc_conv_app_nth [of j])
  have sub: "edits ws (take (Suc i) xs) (take (Suc j) ys) (?D i j + subst_cost ws xs ys i j)"
  proof (cases "xs ! i = ys ! j")
    case True
    then show ?thesis using edits.Keep 3 by (simp add: subst_cost_def take_Suc_conv_app_nth [of j] take_Suc_conv_app_nth [of i])
  next
    case False
    then show ?thesis using edits.Subst 3 by (simp add: subst_cost_def take_Suc_conv_app_nth [of j] take_Suc_conv_app_nth [of i])
  qed
  have swap: "edits ws (take (Suc i) xs) (take (Suc j) ys) (?D (i - 1) (j - 1) + w_swap ws)"
    if sw: "swapped xs ys i j"
  proof -
    obtain i' j' where ij: "i = Suc i'" "j = Suc j'" using sw by (cases i; cases j; simp add: swapped_def)
    show ?thesis
      using edits.Swap [of ws "take i' xs" "take j' ys" "?D i' j'" "xs ! i'" "xs ! i"] 3 sw
      by (simp add: ij take_Suc_conv_app_nth swapped_def)
  qed
  have "?D (Suc i) (Suc j) \<in>
      {?D i j + subst_cost ws xs ys i j,
       (if swapped xs ys i j then ?D (i - 1) (j - 1) + w_swap ws else ?D i j + subst_cost ws xs ys i j),
       ?D i (Suc j) + w_del ws, ?D (Suc i) j + w_add ws}"
    unfolding dist.simps(3) by (rule Min_in) simp_all
  then show ?case using del add sub swap by (elim insertE emptyE) (simp_all split: if_split_asm)
qed

section \<open>The rows hold the recurrence\<close>

text \<open>A row of \<open>n\<close> elements whose first \<open>m\<close> are those of \<open>f\<close>.\<close>

definition holds :: "nat \<Rightarrow> nat \<Rightarrow> (nat \<Rightarrow> int) \<Rightarrow> row \<Rightarrow> bool" where
  "holds n m f r \<longleftrightarrow> (\<exists>xs. r = Some xs \<and> length xs = n \<and> (\<forall>k<m. xs ! k = Some (f k)))"

lemma rd_row_Some [simp]: "k < length xs \<Longrightarrow> rd_row (Some xs) k = xs ! k"
  by (simp add: rd_row_def)

lemma wr_row_Some [simp]: "k < length xs \<Longrightarrow> wr_row (Some xs) k v = Some (Some (xs[k := Some v]))"
  by (simp add: wr_row_def)

lemma holds_rd: "holds n m f r \<Longrightarrow> k < m \<Longrightarrow> m \<le> n \<Longrightarrow> rd_row r k = Some (f k)"
  by (auto simp: holds_def)

lemma holds_wr: "holds n m f r \<Longrightarrow> m < n \<Longrightarrow> \<exists>r'. wr_row r m (f m) = Some r' \<and> holds n (Suc m) f r'"
  by (auto simp: holds_def nth_list_update less_Suc_eq)

lemma holds_malloc: "holds n 0 f (malloc_row True n)"
  by (simp add: holds_def malloc_row_def)

lemma holds_0: "holds n m f r \<Longrightarrow> holds n 0 g r"
  by (auto simp: holds_def)

text \<open>The largest value the code computes.\<close>

definition lev_bound :: "weights \<Rightarrow> nat \<Rightarrow> nat \<Rightarrow> int" where
  "lev_bound ws m n = int m * w_del ws + int n * w_add ws + max (w_swap ws) (w_subst ws)"

definition weights_ok :: "weights \<Rightarrow> nat \<Rightarrow> nat \<Rightarrow> bool" where
  "weights_ok ws m n \<longleftrightarrow> 0 \<le> w_swap ws \<and> 0 \<le> w_subst ws \<and> 0 \<le> w_add ws \<and> 0 \<le> w_del ws \<and>
     lev_bound ws m n < 2 ^ 31"

lemma weights_okD:
  assumes "weights_ok ws m n"
  shows "0 \<le> w_add ws" "0 \<le> w_del ws" "int m * w_del ws < 2 ^ 31" "int n * w_add ws < 2 ^ 31"
proof -
  show ws: "0 \<le> w_add ws" "0 \<le> w_del ws" using assms by (simp_all add: weights_ok_def)
  have "0 \<le> int m * w_del ws" "0 \<le> int n * w_add ws" "0 \<le> max (w_swap ws) (w_subst ws)"
    using assms ws by (simp_all add: weights_ok_def le_max_iff_disj)
  then show "int m * w_del ws < 2 ^ 31" "int n * w_add ws < 2 ^ 31"
    using assms unfolding weights_ok_def lev_bound_def by linarith+
qed

lemma dist_upper: "0 \<le> w_del ws \<Longrightarrow> 0 \<le> w_add ws \<Longrightarrow> dist ws xs ys i j \<le> int i * w_del ws + int j * w_add ws"
proof (induction i)
  case (Suc i)
  then show ?case using dist_Del [of ws xs ys i j] by (simp add: distrib_right)
qed simp

lemma edits_nonneg:
  "edits ws xs ys c \<Longrightarrow> 0 \<le> w_swap ws \<Longrightarrow> 0 \<le> w_subst ws \<Longrightarrow> 0 \<le> w_add ws \<Longrightarrow> 0 \<le> w_del ws \<Longrightarrow> 0 \<le> c"
  by (induction rule: edits.induct) auto

lemma dist_range:
  assumes "weights_ok ws m n" "i \<le> m" "j \<le> n" "m \<le> length xs" "n \<le> length ys"
  shows "0 \<le> dist ws xs ys i j" "dist ws xs ys i j + max (w_swap ws) (w_subst ws) < 2 ^ 31"
proof -
  have ws: "0 \<le> w_swap ws" "0 \<le> w_subst ws" "0 \<le> w_add ws" "0 \<le> w_del ws"
    and b: "int m * w_del ws + int n * w_add ws + max (w_swap ws) (w_subst ws) < 2 ^ 31"
    using assms by (simp_all add: weights_ok_def lev_bound_def)
  show "0 \<le> dist ws xs ys i j" using edits_nonneg [OF edits_dist ws] assms by simp
  have "int i * w_del ws \<le> int m * w_del ws" "int j * w_add ws \<le> int n * w_add ws"
    using assms ws by (simp_all add: mult_right_mono)
  then show "dist ws xs ys i j + max (w_swap ws) (w_subst ws) < 2 ^ 31"
    using dist_upper [OF ws(4,3), of xs ys i j] b by linarith
qed

lemma dist_step_range:
  assumes "weights_ok ws m n" "i \<le> m" "j \<le> n"
  shows "i < m \<Longrightarrow> dist ws xs ys i j + w_del ws < 2 ^ 31" "j < n \<Longrightarrow> dist ws xs ys i j + w_add ws < 2 ^ 31"
proof -
  have ws: "0 \<le> w_swap ws" "0 \<le> w_subst ws" "0 \<le> w_add ws" "0 \<le> w_del ws"
    and b: "int m * w_del ws + int n * w_add ws + max (w_swap ws) (w_subst ws) < 2 ^ 31"
    using assms by (simp_all add: weights_ok_def lev_bound_def)
  note up = dist_upper [OF ws(4,3), of xs ys i j]
  have m: "int i * w_del ws \<le> int m * w_del ws" "int j * w_add ws \<le> int n * w_add ws"
    using assms ws by (simp_all add: mult_right_mono)
  show "dist ws xs ys i j + w_del ws < 2 ^ 31" if "i < m"
  proof -
    have "(int i + 1) * w_del ws \<le> int m * w_del ws" using that ws by (intro mult_right_mono) simp_all
    then show ?thesis using up m b ws by (simp add: distrib_right)
  qed
  show "dist ws xs ys i j + w_add ws < 2 ^ 31" if "j < n"
  proof -
    have "(int j + 1) * w_add ws \<le> int n * w_add ws" using that ws by (intro mult_right_mono) simp_all
    then show ?thesis using up m b ws by (simp add: distrib_right)
  qed
qed

lemma Min_4:
  fixes a b c d :: int
  shows "Min {a, b, c, d} = (let v = (if b < a then b else a); v = (if c < v then c else v) in if d < v then d else v)"
  by (simp add: Let_def min_def)

text \<open>One turn of the inner loop, on rows whose relevant elements are known.\<close>

lemma lev_cell_value:
  assumes len: "length r2 = Suc n" "length r1 = Suc n" "j < n"
    and r: "r2 ! j = Some l" "r1 ! j = Some a" "r1 ! Suc j = Some u"
    and r0: "swapped xs ys i j \<Longrightarrow> row0 = Some r0 \<and> length r0 = Suc n \<and> r0 ! (j - 1) = Some w"
    and ij: "i < length xs" "j < length ys"
    and ok: "c_int (a + subst_cost ws xs ys i j) = Some (a + subst_cost ws xs ys i j)"
      "swapped xs ys i j \<Longrightarrow> c_int (w + w_swap ws) = Some (w + w_swap ws)"
      "c_int (u + w_del ws) = Some (u + w_del ws)" "c_int (l + w_add ws) = Some (l + w_add ws)"
  shows "lev_cell ws (xs @ NUL # t1) (ys @ NUL # t2) row0 (Some r1) i j (Some r2) =
    Some (Some (r2[Suc j := Some (Min {a + subst_cost ws xs ys i j,
      (if swapped xs ys i j then w + w_swap ws else a + subst_cost ws xs ys i j),
      u + w_del ws, l + w_add ws})]))"
proof -
  have rds: "rd (xs @ NUL # t1) i = Some (xs ! i)" "rd (ys @ NUL # t2) j = Some (ys ! j)"
    "rd (xs @ NUL # t1) (i - 1) = Some (xs ! (i - 1))" "rd (ys @ NUL # t2) (j - 1) = Some (ys ! (j - 1))"
    using ij by (auto simp: rd_def nth_append)
  show ?thesis
  proof (cases "swapped xs ys i j")
    case True
    then show ?thesis
      using len r r0 ok unfolding lev_cell_def rds Min_4
      by (simp add: Let_def swapped_def subst_cost_def)
  next
    case False
    then consider (edge) "\<not> (0 < i \<and> 0 < j)"
      | (other) "0 < i \<and> 0 < j" "\<not> (xs ! (i - 1) = ys ! j \<and> xs ! i = ys ! (j - 1))"
      unfolding swapped_def by blast
    then show ?thesis
      using False len r ok(1,3,4) unfolding lev_cell_def rds Min_4
      by cases (simp_all only: bind.bind_lunit if_True if_False if_not_P, simp_all add: Let_def subst_cost_def)
  qed
qed

lemma lev_cell_holds:
  assumes ok: "weights_ok ws m n" and i: "i < m" and j: "j < n"
    and s1: "m = length xs" and s2: "n = length ys"
    and r2: "holds (Suc n) (Suc j) (dist ws xs ys (Suc i)) row2"
    and r1: "holds (Suc n) (Suc n) (dist ws xs ys i) row1"
    and r0: "0 < i \<Longrightarrow> holds (Suc n) (Suc n) (dist ws xs ys (i - 1)) row0"
  shows "\<exists>row2'. lev_cell ws (xs @ NUL # t1) (ys @ NUL # t2) row0 row1 i j row2 = Some row2' \<and>
    holds (Suc n) (Suc (Suc j)) (dist ws xs ys (Suc i)) row2'"
proof -
  let ?D = "dist ws xs ys"
  obtain l2 where l2: "row2 = Some l2" "length l2 = Suc n" "\<forall>k<Suc j. l2 ! k = Some (?D (Suc i) k)"
    using r2 by (auto simp: holds_def)
  obtain l1 where l1: "row1 = Some l1" "length l1 = Suc n" "\<forall>k<Suc n. l1 ! k = Some (?D i k)"
    using r1 by (auto simp: holds_def)
  obtain l0 where l0: "0 < i \<Longrightarrow> row0 = Some l0 \<and> length l0 = Suc n \<and> (\<forall>k<Suc n. l0 ! k = Some (?D (i - 1) k))"
    using r0 by (cases "0 < i") (auto simp: holds_def)
  have ws: "0 \<le> w_swap ws" "0 \<le> w_subst ws" "0 \<le> w_add ws" "0 \<le> w_del ws"
    using ok by (simp_all add: weights_ok_def)
  have sc: "0 \<le> subst_cost ws xs ys i j" "subst_cost ws xs ys i j \<le> max (w_swap ws) (w_subst ws)"
    using ws by (simp_all add: subst_cost_def le_max_iff_disj)
  note rng = dist_range [OF ok, of _ _ xs ys] dist_step_range [OF ok, of _ _ xs ys]
  have "lev_cell ws (xs @ NUL # t1) (ys @ NUL # t2) row0 (Some l1) i j (Some l2) =
      Some (Some (l2[Suc j := Some (?D (Suc i) (Suc j))]))"
    unfolding dist.simps(3)
  proof (rule lev_cell_value)
    show "c_int (?D i j + subst_cost ws xs ys i j) = Some (?D i j + subst_cost ws xs ys i j)"
      using rng(1,2) [of i j] sc i j s1 s2 by simp
    show "c_int (?D (i - 1) (j - 1) + w_swap ws) = Some (?D (i - 1) (j - 1) + w_swap ws)"
      using rng(1,2) [of "i - 1" "j - 1"] ws i j s1 s2 by (intro c_int_in) (simp_all, linarith)
    show "c_int (?D i (Suc j) + w_del ws) = Some (?D i (Suc j) + w_del ws)"
      using rng(1,3) [of i "Suc j"] ws i j s1 s2 by simp
    show "c_int (?D (Suc i) j + w_add ws) = Some (?D (Suc i) j + w_add ws)"
      using rng(1,4) [of "Suc i" j] ws i j s1 s2 by simp
    show "row0 = Some l0 \<and> length l0 = Suc n \<and> l0 ! (j - 1) = Some (?D (i - 1) (j - 1))" if "swapped xs ys i j"
      using that l0 j by (simp add: swapped_def)
  qed (use l1 l2 i j s1 s2 in simp_all)
  then show ?thesis
    using l1(1) l2 j by (simp add: holds_def All_less_Suc)
qed

lemma lev_cols_holds:
  assumes ok: "weights_ok ws m n" and i: "i < m"
    and s1: "m = length xs" and s2: "n = length ys"
    and r1: "holds (Suc n) (Suc n) (dist ws xs ys i) row1"
    and r0: "0 < i \<Longrightarrow> holds (Suc n) (Suc n) (dist ws xs ys (i - 1)) row0"
  shows "j + k = n \<Longrightarrow> holds (Suc n) (Suc j) (dist ws xs ys (Suc i)) row2 \<Longrightarrow>
    \<exists>row2'. lev_cols ws (xs @ NUL # t1) (ys @ NUL # t2) row0 row1 i k j row2 = Some row2' \<and>
      holds (Suc n) (Suc n) (dist ws xs ys (Suc i)) row2'"
proof (induction k arbitrary: j row2)
  case (Suc k)
  obtain row2' where "lev_cell ws (xs @ NUL # t1) (ys @ NUL # t2) row0 row1 i j row2 = Some row2'"
    "holds (Suc n) (Suc (Suc j)) (dist ws xs ys (Suc i)) row2'"
    using lev_cell_holds [OF ok i _ s1 s2 Suc.prems(2) r1 r0] Suc.prems(1) by fastforce
  then show ?case using Suc.IH [of "Suc j" row2'] Suc.prems(1) by simp
qed simp

lemma lev_rows_holds:
  assumes ok: "weights_ok ws m n" and s1: "m = length xs" and s2: "n = length ys"
  shows "i + k = m \<Longrightarrow> holds (Suc n) (Suc n) (dist ws xs ys i) row1 \<Longrightarrow>
    (0 < i \<Longrightarrow> holds (Suc n) (Suc n) (dist ws xs ys (i - 1)) row0) \<Longrightarrow>
    holds (Suc n) 0 g row0 \<Longrightarrow> holds (Suc n) 0 g row2 \<Longrightarrow>
    \<exists>row1'. lev_rows ws (xs @ NUL # t1) (ys @ NUL # t2) n k i row0 row1 row2 = Some row1' \<and>
      holds (Suc n) (Suc n) (dist ws xs ys m) row1'"
proof (induction k arbitrary: i row0 row1 row2)
  case (Suc k)
  note weights_okD [OF ok]
  moreover have "(int i + 1) * w_del ws \<le> int m * w_del ws"
    using Suc.prems(1) weights_okD(2) [OF ok] by (intro mult_right_mono) simp_all
  ultimately have c: "c_int ((int i + 1) * w_del ws) = Some (dist ws xs ys (Suc i) 0)"
    using mult_nonneg_nonneg [of "int i + 1" "w_del ws"] by simp
  obtain r where r: "wr_row row2 0 (dist ws xs ys (Suc i) 0) = Some r" "holds (Suc n) (Suc 0) (dist ws xs ys (Suc i)) r"
    using holds_wr [OF holds_0 [OF Suc.prems(5)]] by blast
  obtain r' where r': "lev_cols ws (xs @ NUL # t1) (ys @ NUL # t2) row0 row1 i n 0 r = Some r'"
    "holds (Suc n) (Suc n) (dist ws xs ys (Suc i)) r'"
    using lev_cols_holds [OF ok _ s1 s2 Suc.prems(2,3) _ r(2)] Suc.prems(1) by fastforce
  show ?case
    using Suc.IH [of "Suc i" r' row1 row0] Suc.prems c r r' holds_0 [OF Suc.prems(2), of g] by simp
qed simp

lemma first_row_holds:
  assumes "0 \<le> a" "int n * a < 2 ^ 31"
  shows "j + k = Suc n \<Longrightarrow> holds (Suc n) j (\<lambda>j. int j * a) row1 \<Longrightarrow>
    \<exists>row1'. first_row a k j row1 = Some row1' \<and> holds (Suc n) (Suc n) (\<lambda>j. int j * a) row1'"
proof (induction k arbitrary: j row1)
  case (Suc k)
  have "int j * a \<le> int n * a" using Suc.prems(1) assms by (intro mult_right_mono) simp_all
  then have "c_int (int j * a) = Some (int j * a)" using assms by simp
  moreover obtain r where "wr_row row1 j (int j * a) = Some r" "holds (Suc n) (Suc j) (\<lambda>j. int j * a) r"
    using holds_wr [OF Suc.prems(2)] Suc.prems(1) by auto
  ultimately show ?case using Suc.IH [of "Suc j" r] Suc.prems(1) by simp
qed simp

lemma strlen_int_small:
  "NUL \<notin> set s \<Longrightarrow> length s < 2 ^ 31 \<Longrightarrow> strlen_int (s @ NUL # t) = Some (int (length s))"
  using strlen_spec [of s 0 t]
  by (simp add: strlen_int_def int_of_size_le)

lemma levenshtein_dist:
  assumes nul: "NUL \<notin> set xs" "NUL \<notin> set ys" and len: "length xs < 2 ^ 31 - 1" "length ys < 2 ^ 31 - 1"
    and ok: "weights_ok ws (length xs) (length ys)"
  shows "levenshtein (True, True, True) (xs @ NUL # t1) (ys @ NUL # t2) ws =
    Some (dist ws xs ys (length xs) (length ys))"
proof -
  let ?n = "length ys"
  obtain r1 where r1: "first_row (w_add ws) (Suc ?n) 0 (malloc_row True (Suc ?n)) = Some r1"
    "holds (Suc ?n) (Suc ?n) (\<lambda>j. int j * w_add ws) r1"
    using first_row_holds [OF weights_okD(1,4) [OF ok] add_0 holds_malloc] by blast
  have "holds (Suc ?n) (Suc ?n) (dist ws xs ys 0) r1" using r1(2) by (simp add: holds_def)
  then obtain r where "lev_rows ws (xs @ NUL # t1) (ys @ NUL # t2) ?n (length xs) 0
      (malloc_row True (Suc ?n)) r1 (malloc_row True (Suc ?n)) = Some r"
    "holds (Suc ?n) (Suc ?n) (dist ws xs ys (length xs)) r"
    using lev_rows_holds [OF ok refl refl add_0 _ _ holds_malloc holds_malloc] by fastforce
  then show ?thesis
    using r1(1) nul len strlen_int_small holds_rd [of "Suc ?n" "Suc ?n" _ r ?n]
    by (simp add: levenshtein_def nat_add_distrib del: first_row.simps)
qed

section \<open>Properties\<close>



lemma edits_sym:
  "edits ws xs ys c \<Longrightarrow> edits (ws\<lparr>w_add := w_del ws, w_del := w_add ws\<rparr>) ys xs c"
proof (induction rule: edits.induct)
  case (Subst xs ys c x y)
  then show ?case using edits.Subst [OF Subst.IH, of y x] by simp
next
  case (Swap xs ys c x y)
  then show ?case using edits.Swap [OF Swap.IH, of y x] by simp
next
  case (Del xs ys c x)
  then show ?case using edits.Add [OF Del.IH, of x] by simp
next
  case (Add xs ys c y)
  then show ?case using edits.Del [OF Add.IH, of y] by simp
qed (auto intro: edits.Empty edits.Keep)

text \<open>Insertion and deletion weights exchanged, the strings can be exchanged.\<close>

lemma dist_sym:
  "dist ws xs ys (length xs) (length ys) =
    dist (ws\<lparr>w_add := w_del ws, w_del := w_add ws\<rparr>) ys xs (length ys) (length xs)"
  (is "?a = ?b")
proof (rule antisym)
  have e: "edits ws xs ys ?a" "edits (ws\<lparr>w_add := w_del ws, w_del := w_add ws\<rparr>) ys xs ?b"
    using edits_dist [of "length xs" xs "length ys" ys ws]
      edits_dist [of "length ys" ys "length xs" xs "ws\<lparr>w_add := w_del ws, w_del := w_add ws\<rparr>"] by simp_all
  show "?a \<le> ?b" using dist_least [OF _ append_Nil2 [symmetric] append_Nil2 [symmetric]] edits_sym [OF e(2)] by simp
  show "?b \<le> ?a" using dist_least [OF _ append_Nil2 [symmetric] append_Nil2 [symmetric]] edits_sym [OF e(1)] by simp
qed

text \<open>
  Equal insertion and deletion weights do not make the result a distance, contrary to the
  comment of the function: with every weight 1, CA is one swap from AC and AC is one insertion from ABC,
  but the result for CA and ABC is 3.  The function does not edit between two letters it has swapped.
\<close>

theorem levenshtein_triangle_fails:
  "levenshtein (True, True, True) (''CA'' @ [NUL]) (''AC'' @ [NUL]) \<lparr>w_swap = 1, w_subst = 1, w_add = 1, w_del = 1\<rparr> = Some 1 \<and>
   levenshtein (True, True, True) (''AC'' @ [NUL]) (''ABC'' @ [NUL]) \<lparr>w_swap = 1, w_subst = 1, w_add = 1, w_del = 1\<rparr> = Some 1 \<and>
   levenshtein (True, True, True) (''CA'' @ [NUL]) (''ABC'' @ [NUL]) \<lparr>w_swap = 1, w_subst = 1, w_add = 1, w_del = 1\<rparr> = Some 3"
  by (intro conjI; code_simp)

end
