(* ===== verification/Ordered_Events.thy ===== *)
theory Ordered_Events
  imports Perf_Prelude "HOL-Library.Multiset"
begin

text \<open>
  The queue that sorts the events of a trace by time, \<^verbatim>\<open>util/ordered-events.c\<close>.  A node
  (\<open>struct ordered_event\<close>) lives in a buffer and is named by the buffer and its index there; the
  linked lists are lists of such names, and \<open>nodes\<close> is the memory of the buffers.  An event is a value
  of a type of its own with a size in its header.  Parameters are the event size, the outcome of the
  allocations in the order in which they are made, the function \<open>deliver\<close> with the state it works on,
  and \<open>session_done\<close>, which reads that state.

  \<open>None\<close> stands for undefined behaviour: \<open>queue_event\<close> starting from a node that is not in the list
  of events.
\<close>

section \<open>The code\<close>

type_synonym addr = "nat \<times> nat"

record 'e ordered_event =
  timestamp :: u64
  file_offset :: u64
  event :: "'e option"

datatype oe_flush =
    OE_FLUSH__NONE
  | OE_FLUSH__FINAL
  | OE_FLUSH__ROUND
  | OE_FLUSH__HALF
  | OE_FLUSH__TOP
  | OE_FLUSH__TIME

record 'e ordered_events =
  last_flush :: u64
  next_flush :: u64
  max_timestamp :: u64
  max_alloc_size :: u64
  cur_alloc_size :: u64
  events :: "addr list"
  cache :: "addr list"
  to_free :: "nat list"
  buffer :: "nat option"
  oe_last :: "addr option"
  buffer_idx :: nat
  nr_events :: u32
  last_flush_type :: oe_flush
  nr_unordered_events :: u32
  copy_on_queue :: bool
  data :: "nat option"
  nodes :: "addr \<Rightarrow> 'e ordered_event"
  nr_buffers :: nat
  nr_allocs :: nat

text \<open>What lies outside this file: the size of an event and the allocator.\<close>

record 'e oe_env =
  header_size :: "'e \<Rightarrow> u16"
  alloc_ok :: "nat \<Rightarrow> bool"

abbreviation (input) ETIME :: int where "ETIME \<equiv> 62"

definition node_time :: "'e ordered_events \<Rightarrow> addr \<Rightarrow> u64" where
  "node_time oe a = timestamp (nodes oe a)"

definition set_node :: "addr \<Rightarrow> ('e ordered_event \<Rightarrow> 'e ordered_event) \<Rightarrow> 'e ordered_events \<Rightarrow> 'e ordered_events" where
  "set_node a f oe = oe\<lparr>nodes := (nodes oe)(a := f (nodes oe a))\<rparr>"

text \<open>The place of a node in a list.\<close>

fun list_pos :: "addr \<Rightarrow> addr list \<Rightarrow> nat option" where
  "list_pos a [] = None"
| "list_pos a (x # xs) = (if x = a then Some 0 else map_option Suc (list_pos a xs))"

text \<open>The two searches of \<open>queue_event\<close>; \<open>None\<close> is the end of the list.\<close>

function walk_up :: "(addr \<Rightarrow> u64) \<Rightarrow> addr list \<Rightarrow> u64 \<Rightarrow> nat \<Rightarrow> nat option" where
  "walk_up ts xs t k =
     (if ts (xs ! k) \<le> t then (if length xs \<le> k + 1 then None else walk_up ts xs t (k + 1))
      else Some k)"
  by auto
termination
  by (relation "measure (\<lambda>(ts, xs, t, k). length xs - k)") auto

fun walk_down :: "(addr \<Rightarrow> u64) \<Rightarrow> addr list \<Rightarrow> u64 \<Rightarrow> nat \<Rightarrow> nat option" where
  "walk_down ts xs t 0 = (if ts (xs ! 0) > t then None else Some 0)"
| "walk_down ts xs t (Suc k) = (if ts (xs ! Suc k) > t then walk_down ts xs t k else Some (Suc k))"

declare walk_up.simps [simp del]

definition list_insert_at :: "nat \<Rightarrow> addr \<Rightarrow> addr list \<Rightarrow> addr list" where
  "list_insert_at k a xs = take k xs @ a # drop k xs"

definition queue_event :: "'e ordered_events \<Rightarrow> addr \<Rightarrow> 'e ordered_events option" where
  "queue_event oe new =
     (let prev = oe_last oe;
          t = node_time oe new;
          oe = oe\<lparr>nr_events := nr_events oe + 1, oe_last := Some new\<rparr>
      in case prev of
        None \<Rightarrow> Some (oe\<lparr>events := new # events oe, max_timestamp := t\<rparr>)
      | Some prev \<Rightarrow> (case list_pos prev (events oe) of
          None \<Rightarrow> None
        | Some k \<Rightarrow>
            if node_time oe prev \<le> t then
              (case walk_up (node_time oe) (events oe) t k of
                 None \<Rightarrow> Some (oe\<lparr>events := events oe @ [new], max_timestamp := t\<rparr>)
               | Some k \<Rightarrow> Some (oe\<lparr>events := list_insert_at k new (events oe)\<rparr>))
            else
              (case walk_down (node_time oe) (events oe) t k of
                 None \<Rightarrow> Some (oe\<lparr>events := new # events oe\<rparr>)
               | Some k \<Rightarrow> Some (oe\<lparr>events := list_insert_at (k + 1) new (events oe)\<rparr>))))"

definition malloc_outcome :: "'e oe_env \<Rightarrow> 'e ordered_events \<Rightarrow> bool \<times> 'e ordered_events" where
  "malloc_outcome env oe = (alloc_ok env (nr_allocs oe), oe\<lparr>nr_allocs := nr_allocs oe + 1\<rparr>)"

definition dup_event_copy :: "'e oe_env \<Rightarrow> 'e ordered_events \<Rightarrow> 'e \<Rightarrow> 'e option \<times> 'e ordered_events" where
  "dup_event_copy env oe ev =
     (if cur_alloc_size oe < max_alloc_size oe then
        (let (ok, oe) = malloc_outcome env oe
         in if ok then (Some ev, oe\<lparr>cur_alloc_size := cur_alloc_size oe + ucast (header_size env ev)\<rparr>)
            else (None, oe))
      else (None, oe))"

definition dup_event :: "'e oe_env \<Rightarrow> 'e ordered_events \<Rightarrow> 'e \<Rightarrow> 'e option \<times> 'e ordered_events" where
  "dup_event env oe ev = (if copy_on_queue oe then dup_event_copy env oe ev else (Some ev, oe))"

definition free_dup_event_copy :: "'e oe_env \<Rightarrow> 'e ordered_events \<Rightarrow> 'e option \<Rightarrow> 'e ordered_events" where
  "free_dup_event_copy env oe ev =
     (case ev of
        None \<Rightarrow> oe
      | Some ev \<Rightarrow> oe\<lparr>cur_alloc_size := cur_alloc_size oe - ucast (header_size env ev)\<rparr>)"

definition free_dup_event :: "'e oe_env \<Rightarrow> 'e ordered_events \<Rightarrow> 'e option \<Rightarrow> 'e ordered_events" where
  "free_dup_event env oe ev = (if copy_on_queue oe then free_dup_event_copy env oe ev else oe)"

text \<open>\<open>sizeof (struct ordered_event)\<close> is 40, that of an empty buffer 16.\<close>

abbreviation (input) MAX_SAMPLE_BUFFER :: nat where
  "MAX_SAMPLE_BUFFER \<equiv> 64 * 1024 div 40"

abbreviation (input) OE_BUFFER_SIZE :: u64 where
  "OE_BUFFER_SIZE \<equiv> 16 + of_nat MAX_SAMPLE_BUFFER * 40"

definition alloc_event :: "'e oe_env \<Rightarrow> 'e ordered_events \<Rightarrow> 'e \<Rightarrow> addr option \<times> 'e ordered_events" where
  "alloc_event env oe ev =
     (let (new_event, oe) = dup_event env oe ev
      in if new_event = None then (None, oe)
         else let (new, oe) =
           (case cache oe of
              a # rest \<Rightarrow> (Some a, oe\<lparr>cache := rest\<rparr>)
            | [] \<Rightarrow> (case buffer oe of
                Some b \<Rightarrow>
                  (Some (b, buffer_idx oe),
                   oe\<lparr>buffer_idx := buffer_idx oe + 1,
                      buffer := (if buffer_idx oe + 1 = MAX_SAMPLE_BUFFER then None else Some b)\<rparr>)
              | None \<Rightarrow>
                  if cur_alloc_size oe + OE_BUFFER_SIZE < max_alloc_size oe then
                    (let (ok, oe) = malloc_outcome env oe
                     in if \<not> ok then (None, free_dup_event env oe new_event)
                        else (Some (nr_buffers oe, 0),
                              oe\<lparr>buffer := Some (nr_buffers oe), nr_buffers := nr_buffers oe + 1,
                                 cur_alloc_size := cur_alloc_size oe + OE_BUFFER_SIZE,
                                 to_free := nr_buffers oe # to_free oe, buffer_idx := 1\<rparr>))
                  else (None, oe)))
         in (new, case new of None \<Rightarrow> oe | Some a \<Rightarrow> set_node a (\<lambda>n. n\<lparr>event := new_event\<rparr>) oe))"

definition ordered_events__new_event ::
  "'e oe_env \<Rightarrow> 'e ordered_events \<Rightarrow> u64 \<Rightarrow> 'e \<Rightarrow> (addr option \<times> 'e ordered_events) option"
where
  "ordered_events__new_event env oe t ev =
     (let (new, oe) = alloc_event env oe ev
      in case new of
        None \<Rightarrow> Some (None, oe)
      | Some a \<Rightarrow> do {
          oe \<leftarrow> queue_event (set_node a (\<lambda>n. n\<lparr>timestamp := t\<rparr>) oe) a;
          Some (Some a, oe)
        })"

definition ordered_events__delete :: "'e oe_env \<Rightarrow> 'e ordered_events \<Rightarrow> addr \<Rightarrow> 'e ordered_events" where
  "ordered_events__delete env oe a =
     (let oe = oe\<lparr>events := remove1 a (events oe), cache := a # cache oe, nr_events := nr_events oe - 1\<rparr>;
          oe = free_dup_event env oe (event (nodes oe a))
      in set_node a (\<lambda>n. n\<lparr>event := None\<rparr>) oe)"

text \<open>
  The loop of \<open>do_flush\<close> over the nodes that were in the list when it started.  The first component of
  the result is the value the function returns from inside the loop.
\<close>

fun flush_loop ::
  "'e oe_env \<Rightarrow> ('d \<Rightarrow> 'e ordered_event \<Rightarrow> int \<times> 'd) \<Rightarrow> ('d \<Rightarrow> bool) \<Rightarrow> u64 \<Rightarrow> addr list \<Rightarrow>
    'e ordered_events \<Rightarrow> 'd \<Rightarrow> int option \<times> 'e ordered_events \<times> 'd"
where
  "flush_loop env deliver session_done limit [] oe d = (None, oe, d)"
| "flush_loop env deliver session_done limit (iter # rest) oe d =
     (if session_done d then (Some 0, oe, d)
      else if node_time oe iter > limit then (None, oe, d)
      else let (ret, d) = deliver d (nodes oe iter)
           in if ret \<noteq> 0 then (Some ret, oe, d)
              else let oe = ordered_events__delete env oe iter
                   in flush_loop env deliver session_done limit rest (oe\<lparr>last_flush := node_time oe iter\<rparr>) d)"

definition do_flush ::
  "'e oe_env \<Rightarrow> ('d \<Rightarrow> 'e ordered_event \<Rightarrow> int \<times> 'd) \<Rightarrow> ('d \<Rightarrow> bool) \<Rightarrow>
    'e ordered_events \<Rightarrow> 'd \<Rightarrow> int \<times> 'e ordered_events \<times> 'd"
where
  "do_flush env deliver session_done oe d =
     (let limit = next_flush oe;
          last_ts = (case oe_last oe of None \<Rightarrow> 0 | Some a \<Rightarrow> node_time oe a)
      in if limit = 0 then (0, oe, d)
         else case flush_loop env deliver session_done limit (events oe) oe d of
           (Some ret, oe, d) \<Rightarrow> (ret, oe, d)
         | (None, oe, d) \<Rightarrow>
             (0, oe\<lparr>oe_last :=
                (if events oe = [] then None
                 else if last_ts \<le> limit then Some (last (events oe))
                 else oe_last oe)\<rparr>, d))"

definition ordered_events__flush_how ::
  "'e oe_env \<Rightarrow> ('d \<Rightarrow> 'e ordered_event \<Rightarrow> int \<times> 'd) \<Rightarrow> ('d \<Rightarrow> bool) \<Rightarrow>
    'e ordered_events \<Rightarrow> oe_flush \<Rightarrow> u64 \<Rightarrow> 'd \<Rightarrow> int \<times> 'e ordered_events \<times> 'd"
where
  "ordered_events__flush_how env deliver session_done oe how t d =
     (if nr_events oe = 0 then (0, oe, d)
      else
        let next = (case how of
              OE_FLUSH__FINAL \<Rightarrow> Some (- 1)
            | OE_FLUSH__TOP \<Rightarrow> Some (- 1)
            | OE_FLUSH__HALF \<Rightarrow>
                (case (oe_last oe, events oe) of
                   (Some newest, first # _) \<Rightarrow>
                     Some (node_time oe first + (node_time oe newest - node_time oe first) div 2)
                 | _ \<Rightarrow> None)
            | OE_FLUSH__TIME \<Rightarrow> Some t
            | _ \<Rightarrow> Some (next_flush oe))
        in case next of
          None \<Rightarrow> (0, oe, d)
        | Some next \<Rightarrow>
            (let (err, oe, d) = do_flush env deliver session_done (oe\<lparr>next_flush := next\<rparr>) d
             in if err \<noteq> 0 then (err, oe, d)
                else (0, oe\<lparr>next_flush := (if how = OE_FLUSH__ROUND then max_timestamp oe else next_flush oe),
                           last_flush_type := how\<rparr>, d)))"

definition ordered_events__flush ::
  "'e oe_env \<Rightarrow> ('d \<Rightarrow> 'e ordered_event \<Rightarrow> int \<times> 'd) \<Rightarrow> ('d \<Rightarrow> bool) \<Rightarrow>
    'e ordered_events \<Rightarrow> oe_flush \<Rightarrow> 'd \<Rightarrow> int \<times> 'e ordered_events \<times> 'd"
where
  "ordered_events__flush env deliver session_done oe how d =
     ordered_events__flush_how env deliver session_done oe how 0 d"

definition ordered_events__flush_time ::
  "'e oe_env \<Rightarrow> ('d \<Rightarrow> 'e ordered_event \<Rightarrow> int \<times> 'd) \<Rightarrow> ('d \<Rightarrow> bool) \<Rightarrow>
    'e ordered_events \<Rightarrow> u64 \<Rightarrow> 'd \<Rightarrow> int \<times> 'e ordered_events \<times> 'd"
where
  "ordered_events__flush_time env deliver session_done oe t d =
     ordered_events__flush_how env deliver session_done oe OE_FLUSH__TIME t d"

definition ordered_events__queue ::
  "'e oe_env \<Rightarrow> ('d \<Rightarrow> 'e ordered_event \<Rightarrow> int \<times> 'd) \<Rightarrow> ('d \<Rightarrow> bool) \<Rightarrow>
    'e ordered_events \<Rightarrow> 'e \<Rightarrow> u64 \<Rightarrow> u64 \<Rightarrow> 'd \<Rightarrow> (int \<times> 'e ordered_events \<times> 'd) option"
where
  "ordered_events__queue env deliver session_done oe ev t offset d =
     (if t = 0 \<or> t = - 1 then Some (- ETIME, oe, d)
      else do {
        let oe = (if t < last_flush oe then oe\<lparr>nr_unordered_events := nr_unordered_events oe + 1\<rparr> else oe);
        (oevent, oe) \<leftarrow> ordered_events__new_event env oe t ev;
        (oevent, oe, d) \<leftarrow>
          (case oevent of
             Some a \<Rightarrow> Some (oevent, oe, d)
           | None \<Rightarrow> do {
               let (ret, oe, d) = ordered_events__flush env deliver session_done oe OE_FLUSH__HALF d;
               (oevent, oe) \<leftarrow> ordered_events__new_event env oe t ev;
               Some (oevent, oe, d)
             });
        case oevent of
          None \<Rightarrow> Some (- ENOMEM, oe, d)
        | Some a \<Rightarrow> Some (0, set_node a (\<lambda>n. n\<lparr>file_offset := offset\<rparr>) oe, d)
      })"

definition ordered_events__first_time :: "'e ordered_events \<Rightarrow> u64" where
  "ordered_events__first_time oe = (case events oe of [] \<Rightarrow> 0 | a # _ \<Rightarrow> node_time oe a)"

definition ordered_events__init :: "'e ordered_events \<Rightarrow> nat option \<Rightarrow> 'e ordered_events" where
  "ordered_events__init oe data0 =
     oe\<lparr>events := [], cache := [], to_free := [], max_alloc_size := - 1, cur_alloc_size := 0, data := data0\<rparr>"

definition ordered_events_buffer__free :: "'e oe_env \<Rightarrow> nat \<Rightarrow> nat \<Rightarrow> 'e ordered_events \<Rightarrow> 'e ordered_events" where
  "ordered_events_buffer__free env b n oe =
     (if copy_on_queue oe
      then fold (\<lambda>i oe. free_dup_event_copy env oe (event (nodes oe (b, i)))) [0..<n] oe
      else oe)"

definition ordered_events__free :: "'e oe_env \<Rightarrow> 'e ordered_events \<Rightarrow> 'e ordered_events" where
  "ordered_events__free env oe =
     (if to_free oe = [] then oe
      else
        let oe = (case buffer oe of
              None \<Rightarrow> oe
            | Some b \<Rightarrow> ordered_events_buffer__free env b (buffer_idx oe) (oe\<lparr>to_free := remove1 b (to_free oe)\<rparr>))
        in fold (\<lambda>b oe. ordered_events_buffer__free env b MAX_SAMPLE_BUFFER (oe\<lparr>to_free := remove1 b (to_free oe)\<rparr>))
             (to_free oe) oe)"

text \<open>\<open>memset\<close> of the structure; the memory of the buffers and the allocator are not part of it.\<close>

definition ordered_events_zero :: "'e ordered_events \<Rightarrow> 'e ordered_events" where
  "ordered_events_zero oe =
     \<lparr>last_flush = 0, next_flush = 0, max_timestamp = 0, max_alloc_size = 0, cur_alloc_size = 0,
      events = [], cache = [], to_free = [], buffer = None, oe_last = None, buffer_idx = 0, nr_events = 0,
      last_flush_type = OE_FLUSH__NONE, nr_unordered_events = 0, copy_on_queue = False, data = None,
      nodes = nodes oe, nr_buffers = nr_buffers oe, nr_allocs = nr_allocs oe\<rparr>"

definition ordered_events__reinit :: "'e oe_env \<Rightarrow> 'e ordered_events \<Rightarrow> 'e ordered_events" where
  "ordered_events__reinit env oe =
     (let oe = ordered_events_zero (ordered_events__free env oe)
      in ordered_events__init oe (data oe))"

definition ordered_events__set_alloc_size :: "'e ordered_events \<Rightarrow> u64 \<Rightarrow> 'e ordered_events" where
  "ordered_events__set_alloc_size oe sz = oe\<lparr>max_alloc_size := sz\<rparr>"

definition ordered_events__set_copy_on_queue :: "'e ordered_events \<Rightarrow> bool \<Rightarrow> 'e ordered_events" where
  "ordered_events__set_copy_on_queue oe copy = oe\<lparr>copy_on_queue := copy\<rparr>"

section \<open>The list stays sorted\<close>

lemma node_time_simps [simp]:
  "node_time (oe\<lparr>nr_events := x0\<rparr>) = node_time oe"
  "node_time (oe\<lparr>oe_last := x1\<rparr>) = node_time oe"
  "node_time (oe\<lparr>events := x2\<rparr>) = node_time oe"
  "node_time (oe\<lparr>max_timestamp := x3\<rparr>) = node_time oe"
  "node_time (oe\<lparr>cache := x4\<rparr>) = node_time oe"
  "node_time (oe\<lparr>last_flush := x5\<rparr>) = node_time oe"
  "node_time (oe\<lparr>next_flush := x6\<rparr>) = node_time oe"
  "node_time (oe\<lparr>cur_alloc_size := x7\<rparr>) = node_time oe"
  "node_time (oe\<lparr>nr_unordered_events := x8\<rparr>) = node_time oe"
  "node_time (oe\<lparr>last_flush_type := x9\<rparr>) = node_time oe"
  by (simp_all add: node_time_def fun_eq_iff)

text \<open>The number of queued nodes that are not later than a time.\<close>

definition before :: "(addr \<Rightarrow> u64) \<Rightarrow> u64 \<Rightarrow> addr list \<Rightarrow> nat" where
  "before ts t xs = length (takeWhile (\<lambda>a. ts a \<le> t) xs)"

lemma before_le: "before ts t xs \<le> length xs"
  by (simp add: before_def length_takeWhile_le)

lemma before_iff:
  assumes "sorted (map ts xs)" "k < length xs"
  shows "ts (xs ! k) \<le> t \<longleftrightarrow> k < before ts t xs"
  using assms
proof (induction xs arbitrary: k)
  case (Cons x xs)
  show ?case
  proof (cases k)
    case (Suc j)
    have "ts x \<le> ts (xs ! j)" using Cons.prems Suc by simp
    then have "\<not> ts x \<le> t \<Longrightarrow> \<not> ts (xs ! j) \<le> t" by (meson order_trans)
    then show ?thesis using Cons.IH [of j] Cons.prems Suc
      by (cases "ts x \<le> t") (simp_all add: before_def)
  qed (simp add: before_def)
qed simp

lemma before_iff_less:
  "sorted (map ts xs) \<Longrightarrow> k < length xs \<Longrightarrow> t < ts (xs ! k) \<longleftrightarrow> \<not> k < before ts t xs"
  using before_iff [of ts xs k t] by (metis not_le)

lemma before_full: "before ts t xs = length xs \<longleftrightarrow> (\<forall>a \<in> set xs. ts a \<le> t)"
  by (induction xs) (simp_all add: before_def)

lemma walk_up_spec:
  assumes "sorted (map ts xs)" "k < length xs" "k \<le> before ts t xs"
  shows "walk_up ts xs t k = (if before ts t xs = length xs then None else Some (before ts t xs))"
  using assms
proof (induction ts xs t k rule: walk_up.induct)
  case (1 ts xs t k)
  show ?case
  proof (cases "k < before ts t xs")
    case True
    then show ?thesis using 1 before_iff [OF 1(2,3), of t] before_le [of ts t xs]
      by (subst walk_up.simps) auto
  next
    case False
    then show ?thesis using 1 before_iff [OF 1(2,3), of t] by (subst walk_up.simps) auto
  qed
qed

lemma walk_down_spec:
  assumes "sorted (map ts xs)"
  shows "k < length xs \<Longrightarrow> before ts t xs \<le> Suc k \<Longrightarrow>
    walk_down ts xs t k = (if before ts t xs = 0 then None else Some (before ts t xs - 1))"
proof (induction k)
  case 0
  then show ?case using before_iff_less [OF assms 0(1), of t] by simp
next
  case (Suc k)
  then show ?case using before_iff_less [OF assms Suc.prems(1), of t]
    by (cases "Suc k < before ts t xs") simp_all
qed

text \<open>The last queued node, NULL if there is none, is in the list.\<close>

definition last_in :: "addr option \<Rightarrow> addr list \<Rightarrow> bool" where
  "last_in l xs \<longleftrightarrow> (case l of None \<Rightarrow> xs = [] | Some a \<Rightarrow> a \<in> set xs)"

lemma last_in_simps [simp]: "last_in None xs \<longleftrightarrow> xs = []" "last_in (Some a) xs \<longleftrightarrow> a \<in> set xs"
  by (simp_all add: last_in_def)

lemma list_pos_Some: "list_pos a xs = Some k \<Longrightarrow> k < length xs \<and> xs ! k = a"
  by (induction xs arbitrary: k) (auto split: if_splits)

lemma list_pos_None: "list_pos a xs = None \<longleftrightarrow> a \<notin> set xs"
  by (induction xs) auto

text \<open>Wherever the search starts, the new node goes after the nodes that are not later.\<close>

lemma queue_event_spec:
  assumes "sorted (map (node_time oe) (events oe))"
    and "last_in (oe_last oe) (events oe)"
  shows "queue_event oe new =
    (let n = before (node_time oe) (node_time oe new) (events oe)
     in Some (oe\<lparr>nr_events := nr_events oe + 1, oe_last := Some new, events := list_insert_at n new (events oe),
          max_timestamp := (if n = length (events oe) then node_time oe new else max_timestamp oe)\<rparr>))"
proof (cases "oe_last oe")
  case None
  then show ?thesis using assms by (simp add: queue_event_def Let_def before_def list_insert_at_def node_time_def)
next
  case (Some l)
  let ?n = "before (node_time oe) (node_time oe new) (events oe)"
  obtain k where k: "list_pos l (events oe) = Some k" "k < length (events oe)" "events oe ! k = l"
    using assms Some list_pos_None list_pos_Some by (metis last_in_simps(2) not_Some_eq)
  note le = before_iff [OF assms(1) k(2), of "node_time oe new"]
  show ?thesis
  proof (cases "node_time oe l \<le> node_time oe new")
    case True
    then show ?thesis
      using le k Some walk_up_spec [OF assms(1) k(2), of "node_time oe new"]
      by (simp add: queue_event_def Let_def list_insert_at_def)
  next
    case False
    then show ?thesis
      using le k Some walk_down_spec [OF assms(1) k(2), of "node_time oe new"]
      by (simp add: queue_event_def Let_def list_insert_at_def)
  qed
qed

section \<open>The invariant\<close>

text \<open>
  The nodes in use lie in allocated buffers, at an index that was handed out.
\<close>

definition slots_ok :: "addr set \<Rightarrow> 'e ordered_events \<Rightarrow> bool" where
  "slots_ok A oe \<longleftrightarrow>
     (\<forall>b i. (b, i) \<in> A \<longrightarrow> b < nr_buffers oe \<and> i < MAX_SAMPLE_BUFFER \<and> (buffer oe = Some b \<longrightarrow> i < buffer_idx oe)) \<and>
     (\<forall>b. buffer oe = Some b \<longrightarrow> b < nr_buffers oe \<and> buffer_idx oe < MAX_SAMPLE_BUFFER)"

definition oe_ok :: "'e ordered_events \<Rightarrow> bool" where
  "oe_ok oe \<longleftrightarrow>
     sorted (map (node_time oe) (events oe)) \<and>
     distinct (events oe @ cache oe) \<and>
     nr_events oe = of_nat (length (events oe)) \<and>
     last_in (oe_last oe) (events oe) \<and>
     (events oe \<noteq> [] \<longrightarrow> max_timestamp oe = node_time oe (last (events oe))) \<and>
     slots_ok (set (events oe @ cache oe)) oe"

text \<open>The queue as a client sees it: times and events.\<close>

definition contents :: "'e ordered_events \<Rightarrow> (u64 \<times> 'e option) list" where
  "contents oe = map (\<lambda>a. (timestamp (nodes oe a), event (nodes oe a))) (events oe)"

definition insert_stable :: "u64 \<Rightarrow> 'e option \<Rightarrow> (u64 \<times> 'e option) list \<Rightarrow> (u64 \<times> 'e option) list" where
  "insert_stable t ev xs = takeWhile (\<lambda>(s, _). s \<le> t) xs @ (t, ev) # dropWhile (\<lambda>(s, _). s \<le> t) xs"

lemma contents_times: "map fst (contents oe) = map (node_time oe) (events oe)"
  by (simp add: contents_def node_time_def)

text \<open>What an allocation does not touch.\<close>

definition frame :: "'e ordered_events \<Rightarrow> 'e ordered_events \<Rightarrow> bool" where
  "frame oe oe' \<longleftrightarrow>
     last_flush oe' = last_flush oe \<and> next_flush oe' = next_flush oe \<and> max_timestamp oe' = max_timestamp oe \<and>
     events oe' = events oe \<and> oe_last oe' = oe_last oe \<and> nr_events oe' = nr_events oe \<and>
     nr_unordered_events oe' = nr_unordered_events oe"

lemma dup_event_result:
  assumes "dup_event env oe ev = (r, oe')"
  shows "(r = None \<or> r = Some ev) \<and> frame oe oe' \<and> cache oe' = cache oe \<and> buffer oe' = buffer oe \<and>
    buffer_idx oe' = buffer_idx oe \<and> nr_buffers oe' = nr_buffers oe \<and> nodes oe' = nodes oe"
  using assms by (auto simp: dup_event_def dup_event_copy_def malloc_outcome_def frame_def split: if_splits)

lemma free_dup_event_result:
  "frame oe (free_dup_event env oe ev) \<and> cache (free_dup_event env oe ev) = cache oe \<and>
    buffer (free_dup_event env oe ev) = buffer oe \<and> buffer_idx (free_dup_event env oe ev) = buffer_idx oe \<and>
    nr_buffers (free_dup_event env oe ev) = nr_buffers oe \<and> nodes (free_dup_event env oe ev) = nodes oe"
  by (simp add: free_dup_event_def free_dup_event_copy_def frame_def split: option.split)

text \<open>A successful allocation takes a node that is in no list.\<close>

lemma slots_ok_cong:
  "slots_ok A oe \<Longrightarrow> buffer oe' = buffer oe \<Longrightarrow> buffer_idx oe' = buffer_idx oe \<Longrightarrow> nr_buffers oe' = nr_buffers oe \<Longrightarrow>
    slots_ok A oe'"
  by (simp add: slots_ok_def)

lemma slots_ok_bump:
  assumes "slots_ok A oe" "buffer oe = Some b"
    and "oe' = oe\<lparr>buffer_idx := buffer_idx oe + 1, buffer := (if buffer_idx oe + 1 = MAX_SAMPLE_BUFFER then None else Some b)\<rparr>"
  shows "(b, buffer_idx oe) \<notin> A \<and> slots_ok (insert (b, buffer_idx oe) A) oe'"
proof
  show "(b, buffer_idx oe) \<notin> A" using assms(1,2) unfolding slots_ok_def by (meson less_irrefl)
  show "slots_ok (insert (b, buffer_idx oe) A) oe'" using assms unfolding slots_ok_def by (auto simp: less_Suc_eq)
qed

lemma slots_ok_fresh:
  assumes "slots_ok A oe" "buffer oe = None"
    and "buffer oe' = Some (nr_buffers oe)" "nr_buffers oe' = nr_buffers oe + 1" "buffer_idx oe' = 1"
  shows "(nr_buffers oe, 0) \<notin> A \<and> slots_ok (insert (nr_buffers oe, 0) A) oe'"
  using assms unfolding slots_ok_def by (auto simp: less_Suc_eq)

lemma alloc_event_spec:
  assumes al: "alloc_event env oe ev = (r, oe')"
    and d: "distinct (events oe @ cache oe)" and sl: "slots_ok (set (events oe @ cache oe)) oe"
  shows "frame oe oe' \<and> distinct (events oe @ cache oe') \<and>
    (case r of
       None \<Rightarrow> nodes oe' = nodes oe \<and> slots_ok (set (events oe @ cache oe')) oe'
     | Some a \<Rightarrow> a \<notin> set (events oe @ cache oe') \<and> slots_ok (insert a (set (events oe @ cache oe'))) oe' \<and>
         nodes oe' = (nodes oe)(a := (nodes oe a)\<lparr>event := Some ev\<rparr>))"
proof -
  obtain ne o1 where du: "dup_event env oe ev = (ne, o1)" by force
  note o1 = dup_event_result [OF du]
  have sl1: "slots_ok (set (events oe @ cache oe)) o1" using slots_ok_cong [OF sl] o1 by blast
  consider (oom) "ne = None" | (cached) a rest where "ne = Some ev" "cache oe = a # rest"
    | (bump) b where "ne = Some ev" "cache oe = []" "buffer oe = Some b"
    | (fresh) "ne = Some ev" "cache oe = []" "buffer oe = None"
    using o1 by (cases "cache oe"; cases "buffer oe"; blast)
  then show ?thesis
  proof cases
    case oom
    then show ?thesis using al d sl1 o1 du by (simp add: alloc_event_def)
  next
    case cached
    then have "r = Some a" "oe' = set_node a (\<lambda>n. n\<lparr>event := Some ev\<rparr>) (o1\<lparr>cache := rest\<rparr>)"
      using al o1 du by (simp_all add: alloc_event_def)
    moreover have "slots_ok (insert a (set (events oe @ rest))) oe'"
      using sl1 cached calculation by (simp add: set_node_def slots_ok_def)
    ultimately show ?thesis using d cached o1 by (simp add: set_node_def frame_def)
  next
    case bump
    let ?o2 = "o1\<lparr>buffer_idx := buffer_idx o1 + 1, buffer := (if buffer_idx o1 + 1 = MAX_SAMPLE_BUFFER then None else Some b)\<rparr>"
    have "r = Some (b, buffer_idx o1)" "oe' = set_node (b, buffer_idx o1) (\<lambda>n. n\<lparr>event := Some ev\<rparr>) ?o2"
      using al o1 du bump by (simp_all add: alloc_event_def)
    moreover have "(b, buffer_idx o1) \<notin> set (events oe @ cache oe)"
        "slots_ok (insert (b, buffer_idx o1) (set (events oe @ cache oe))) ?o2"
      using slots_ok_bump [OF sl1 _ refl] bump o1 by auto
    moreover have "slots_ok (insert (b, buffer_idx o1) (set (events oe @ cache oe))) oe'"
      using calculation(2,4) by (simp only: slots_ok_def set_node_def) simp
    ultimately show ?thesis using d bump o1 by (simp add: set_node_def frame_def)
  next
    case fresh
    show ?thesis
    proof (cases r)
      case None
      then have "frame oe oe'" "cache oe' = cache oe" "nodes oe' = nodes oe" "buffer oe' = buffer oe"
          "buffer_idx oe' = buffer_idx oe" "nr_buffers oe' = nr_buffers oe"
        using al o1 du fresh free_dup_event_result [of "o1\<lparr>nr_allocs := nr_allocs o1 + 1\<rparr>" env ne]
        by (auto simp: alloc_event_def malloc_outcome_def Let_def frame_def split: if_splits)
      then show ?thesis using None d slots_ok_cong [OF sl] by simp
    next
      case (Some a)
      then have a: "a = (nr_buffers o1, 0)" "frame oe oe'" "cache oe' = cache oe" "buffer oe' = Some (nr_buffers o1)"
          "nr_buffers oe' = nr_buffers o1 + 1" "buffer_idx oe' = 1"
          "nodes oe' = (nodes oe)(a := (nodes oe a)\<lparr>event := Some ev\<rparr>)"
        using al o1 du fresh
        by (auto simp: alloc_event_def malloc_outcome_def Let_def frame_def set_node_def split: if_splits)
      then show ?thesis using Some d fresh o1 slots_ok_fresh [OF sl1, of oe'] by simp
    qed
  qed
qed

lemma list_insert_at_before:
  "list_insert_at (before ts t xs) a xs = takeWhile (\<lambda>a. ts a \<le> t) xs @ a # dropWhile (\<lambda>a. ts a \<le> t) xs"
  by (simp add: list_insert_at_def before_def takeWhile_eq_take [symmetric] dropWhile_eq_drop [symmetric])

lemma dropWhile_later:
  fixes t :: "'a::linorder"
  shows "sorted (map ts xs) \<Longrightarrow> b \<in> set (dropWhile (\<lambda>a. ts a \<le> t) xs) \<Longrightarrow> t < ts b"
proof (induction xs)
  case (Cons x xs)
  show ?case
  proof (cases "ts x \<le> t")
    case False
    then have "t < ts x" by simp
    moreover have "ts x \<le> ts b" using Cons.prems False by (auto simp del: not_le)
    ultimately show ?thesis by (rule less_le_trans)
  qed (use Cons in simp)
qed simp

text \<open>The list of events around the place of a new one.\<close>

lemma insert_place:
  fixes ts :: "addr \<Rightarrow> u64"
  assumes "sorted (map ts xs)"
  obtains T D where "xs = T @ D" "list_insert_at (before ts t xs) a xs = T @ a # D" "before ts t xs = length T"
    "\<forall>b \<in> set T. ts b \<le> t" "\<forall>b \<in> set D. t < ts b"
proof
  show "xs = takeWhile (\<lambda>a. ts a \<le> t) xs @ dropWhile (\<lambda>a. ts a \<le> t) xs" by simp
  show "list_insert_at (before ts t xs) a xs = takeWhile (\<lambda>a. ts a \<le> t) xs @ a # dropWhile (\<lambda>a. ts a \<le> t) xs"
    by (rule list_insert_at_before)
  show "\<forall>b \<in> set (takeWhile (\<lambda>a. ts a \<le> t) xs). ts b \<le> t" by (blast dest: set_takeWhileD)
  show "\<forall>b \<in> set (dropWhile (\<lambda>a. ts a \<le> t) xs). t < ts b" using dropWhile_later [OF assms] by blast
qed (simp add: before_def)

lemma mset_insert_stable [simp]: "mset (insert_stable t ev xs) = add_mset (t, ev) (mset xs)"
proof -
  have "mset (takeWhile P xs) + mset (dropWhile P xs) = mset xs" for P
    by (metis mset_append takeWhile_dropWhile_id)
  then show ?thesis unfolding insert_stable_def by simp
qed

lemma length_insert_stable [simp]: "length (insert_stable t ev xs) = Suc (length xs)"
  by (metis mset_insert_stable size_add_mset size_mset)

lemma set_insert_stable [simp]: "set (insert_stable t ev xs) = insert (t, ev) (set xs)"
  using mset_insert_stable [of t ev xs] by (metis set_mset_add_mset_insert set_mset_mset)

text \<open>Queueing a fresh node.\<close>

lemma queue_event_ok:
  assumes s: "sorted (map (node_time oe) (events oe))" "distinct (events oe @ cache oe)"
      "nr_events oe = of_nat (length (events oe))"
      "last_in (oe_last oe) (events oe)"
      "events oe \<noteq> [] \<longrightarrow> max_timestamp oe = node_time oe (last (events oe))"
    and a: "a \<notin> set (events oe @ cache oe)" "slots_ok (insert a (set (events oe @ cache oe))) oe"
  shows "\<exists>oe'. queue_event oe a = Some oe' \<and> oe_ok oe' \<and>
    contents oe' = insert_stable (node_time oe a) (event (nodes oe a)) (contents oe) \<and>
    last_flush oe' = last_flush oe \<and> next_flush oe' = next_flush oe \<and>
    nr_unordered_events oe' = nr_unordered_events oe"
proof -
  let ?t = "node_time oe a"
  let ?n = "before (node_time oe) ?t (events oe)"
  let ?o = "oe\<lparr>nr_events := nr_events oe + 1, oe_last := Some a, events := list_insert_at ?n a (events oe),
      max_timestamp := (if ?n = length (events oe) then ?t else max_timestamp oe)\<rparr>"
  obtain T D where TD: "events oe = T @ D" "list_insert_at ?n a (events oe) = T @ a # D" "?n = length T"
    "\<forall>b \<in> set T. node_time oe b \<le> ?t" "\<forall>b \<in> set D. ?t < node_time oe b"
    by (rule insert_place [OF s(1)])
  have "sorted (map (node_time oe) (T @ a # D))"
    using s(1) TD(4,5) unfolding TD(1) by (auto simp: sorted_append less_imp_le)
  moreover have "(if ?n = length (events oe) then ?t else max_timestamp oe) = node_time oe (last (T @ a # D))"
    using s(5) TD(3) unfolding TD(1) by (cases D) simp_all
  moreover have "slots_ok (set ((T @ a # D) @ cache oe)) ?o"
    using a(2) unfolding TD(1) by (simp add: slots_ok_def)
  ultimately have "oe_ok ?o"
    using s(2,3) a(1) unfolding oe_ok_def TD(1) by (simp add: TD(2) [unfolded TD(1)])
  moreover have "contents ?o = insert_stable ?t (event (nodes oe a)) (contents oe)"
    by (simp add: contents_def insert_stable_def list_insert_at_before takeWhile_map dropWhile_map comp_def node_time_def)
  ultimately show ?thesis
    using queue_event_spec [OF s(1,4), of a] by (simp add: Let_def)
qed

lemma oe_okD:
  assumes "oe_ok oe"
  shows "sorted (map (node_time oe) (events oe))" "distinct (events oe @ cache oe)"
    "nr_events oe = of_nat (length (events oe))"
    "last_in (oe_last oe) (events oe)"
    "events oe \<noteq> [] \<Longrightarrow> max_timestamp oe = node_time oe (last (events oe))"
    "slots_ok (set (events oe @ cache oe)) oe"
  using assms by (simp_all add: oe_ok_def)

lemma new_event_spec:
  assumes ok: "oe_ok oe"
  shows "\<exists>r oe'. ordered_events__new_event env oe t ev = Some (r, oe') \<and> oe_ok oe' \<and>
    last_flush oe' = last_flush oe \<and> nr_unordered_events oe' = nr_unordered_events oe \<and>
    contents oe' = (case r of None \<Rightarrow> contents oe | Some a \<Rightarrow> insert_stable t (Some ev) (contents oe))"
proof -
  note inv = oe_okD [OF ok]
  obtain r o1 where al: "alloc_event env oe ev = (r, o1)" by force
  note sp = alloc_event_spec [OF al inv(2,6)]
  have fr: "last_flush o1 = last_flush oe" "max_timestamp o1 = max_timestamp oe" "events o1 = events oe"
      "oe_last o1 = oe_last oe" "nr_events o1 = nr_events oe" "nr_unordered_events o1 = nr_unordered_events oe"
    using sp by (simp_all add: frame_def)
  show ?thesis
  proof (cases r)
    case None
    then have "nodes o1 = nodes oe" "distinct (events oe @ cache o1)" "slots_ok (set (events oe @ cache o1)) o1"
      using sp by simp_all
    moreover from this(1) have "node_time o1 = node_time oe" by (simp add: node_time_def fun_eq_iff)
    ultimately have "oe_ok o1" "contents o1 = contents oe"
      using inv fr by (simp_all add: oe_ok_def contents_def)
    then show ?thesis using None al fr by (simp add: ordered_events__new_event_def)
  next
    case (Some a)
    let ?o = "set_node a (\<lambda>n. n\<lparr>timestamp := t\<rparr>) o1"
    have a: "a \<notin> set (events oe @ cache o1)" "slots_ok (insert a (set (events oe @ cache o1))) o1"
        "distinct (events oe @ cache o1)" "nodes o1 = (nodes oe)(a := (nodes oe a)\<lparr>event := Some ev\<rparr>)"
      using sp Some by simp_all
    have ne: "b \<noteq> a" if "b \<in> set (events oe)" for b using that a(1) by auto
    have nt: "node_time ?o b = node_time oe b" "nodes ?o b = nodes oe b" if "b \<in> set (events oe)" for b
      using ne [OF that] a(4) by (simp_all add: set_node_def node_time_def)
    have lt: "node_time ?o (last (events oe)) = node_time oe (last (events oe))" if "events oe \<noteq> []"
      using that by (simp add: nt)
    have "\<exists>oe'. queue_event ?o a = Some oe' \<and> oe_ok oe' \<and>
      contents oe' = insert_stable (node_time ?o a) (event (nodes ?o a)) (contents ?o) \<and>
      last_flush oe' = last_flush ?o \<and> next_flush oe' = next_flush ?o \<and>
      nr_unordered_events oe' = nr_unordered_events ?o"
    proof (rule queue_event_ok)
      show "sorted (map (node_time ?o) (events ?o))"
        using inv(1) fr nt(1) by (simp add: set_node_def cong: map_cong)
      show "events ?o \<noteq> [] \<longrightarrow> max_timestamp ?o = node_time ?o (last (events ?o))"
        using inv(5) fr lt by (simp add: set_node_def)
      show "slots_ok (insert a (set (events ?o @ cache ?o))) ?o"
        using a(2) fr by (simp add: set_node_def slots_ok_def)
    qed (use inv a fr in \<open>simp_all add: set_node_def\<close>)
    moreover have "contents ?o = contents oe"
      using nt(2) fr unfolding contents_def by (simp add: set_node_def)
    moreover have "node_time ?o a = t" "event (nodes ?o a) = Some ev"
      using a(4) by (simp_all add: set_node_def node_time_def)
    moreover have "last_flush ?o = last_flush oe" "nr_unordered_events ?o = nr_unordered_events oe"
      using fr by (simp_all add: set_node_def)
    ultimately show ?thesis using Some al by (auto simp: ordered_events__new_event_def)
  qed
qed

section \<open>Flushing\<close>

text \<open>
  What the client's \<open>deliver\<close> does, as far as the queue is concerned: it accepts every event, and
  \<open>trace\<close> observes, in its state, the events delivered so far.
\<close>

definition deliver_ok ::
  "('d \<Rightarrow> 'e ordered_event \<Rightarrow> int \<times> 'd) \<Rightarrow> ('d \<Rightarrow> bool) \<Rightarrow> ('d \<Rightarrow> (u64 \<times> 'e option) list) \<Rightarrow> bool"
where
  "deliver_ok deliver session_done trace \<longleftrightarrow>
     (\<forall>d n. \<not> session_done d \<and> fst (deliver d n) = 0 \<and>
        trace (snd (deliver d n)) = trace d @ [(timestamp n, event n)])"

lemma delete_simps:
  "events (ordered_events__delete env oe a) = remove1 a (events oe)"
  "cache (ordered_events__delete env oe a) = a # cache oe"
  "nr_events (ordered_events__delete env oe a) = nr_events oe - 1"
  "oe_last (ordered_events__delete env oe a) = oe_last oe"
  "max_timestamp (ordered_events__delete env oe a) = max_timestamp oe"
  "last_flush (ordered_events__delete env oe a) = last_flush oe"
  "next_flush (ordered_events__delete env oe a) = next_flush oe"
  "nr_unordered_events (ordered_events__delete env oe a) = nr_unordered_events oe"
  "buffer (ordered_events__delete env oe a) = buffer oe"
  "buffer_idx (ordered_events__delete env oe a) = buffer_idx oe"
  "nr_buffers (ordered_events__delete env oe a) = nr_buffers oe"
  "nodes (ordered_events__delete env oe a) = (nodes oe)(a := (nodes oe a)\<lparr>event := None\<rparr>)"
  "node_time (ordered_events__delete env oe a) = node_time oe"
  by (auto simp: ordered_events__delete_def set_node_def free_dup_event_def free_dup_event_copy_def Let_def
      node_time_def fun_eq_iff split: option.split)

text \<open>The invariant without the last queued node, which the loop of \<open>do_flush\<close> may lose.\<close>

definition oe_core :: "'e ordered_events \<Rightarrow> bool" where
  "oe_core oe \<longleftrightarrow>
     sorted (map (node_time oe) (events oe)) \<and>
     distinct (events oe @ cache oe) \<and>
     nr_events oe = of_nat (length (events oe)) \<and>
     (events oe \<noteq> [] \<longrightarrow> max_timestamp oe = node_time oe (last (events oe))) \<and>
     slots_ok (set (events oe @ cache oe)) oe"

lemma oe_ok_core: "oe_ok oe \<longleftrightarrow> oe_core oe \<and> last_in (oe_last oe) (events oe)"
  by (auto simp: oe_ok_def oe_core_def)

lemma delete_core:
  assumes "oe_core oe" "events oe = x # xs"
  shows "oe_core (ordered_events__delete env oe x)" "events (ordered_events__delete env oe x) = xs"
    "contents (ordered_events__delete env oe x) = tl (contents oe)"
proof -
  have "x \<notin> set xs" using assms by (simp add: oe_core_def)
  then show "contents (ordered_events__delete env oe x) = tl (contents oe)"
    using assms(2) by (auto simp: contents_def delete_simps)
  have "slots_ok (set (xs @ x # cache oe)) (ordered_events__delete env oe x)"
    using assms by (simp add: oe_core_def slots_ok_def delete_simps)
  then show "oe_core (ordered_events__delete env oe x)"
    using assms by (auto simp: oe_core_def delete_simps)
qed (simp add: assms delete_simps)

text \<open>The state after a part of the queue was delivered.\<close>

definition delivered ::
  "('d \<Rightarrow> (u64 \<times> 'e option) list) \<Rightarrow> nat \<Rightarrow> 'e ordered_events \<Rightarrow> 'd \<Rightarrow> 'e ordered_events \<Rightarrow> 'd \<Rightarrow> bool"
where
  "delivered trace n oe d oe' d' \<longleftrightarrow>
     n \<le> length (contents oe) \<and> contents oe' = drop n (contents oe) \<and> trace d' = trace d @ take n (contents oe) \<and>
     last_flush oe' = (if n = 0 then last_flush oe else fst (contents oe ! (n - 1))) \<and>
     nr_unordered_events oe' = nr_unordered_events oe"

lemma delivered_Suc:
  assumes "delivered trace n o1 d1 oe' d'" "contents oe = c # contents o1" "trace d1 = trace d @ [c]"
    and "last_flush o1 = fst c" "nr_unordered_events o1 = nr_unordered_events oe"
  shows "delivered trace (Suc n) oe d oe' d'"
  using assms by (cases n) (simp_all add: delivered_def)

lemma flush_loop_spec:
  assumes del: "deliver_ok deliver session_done trace"
  shows "oe_core oe \<Longrightarrow> events oe = xs \<Longrightarrow> \<exists>oe' d'.
    flush_loop env deliver session_done limit xs oe d = (None, oe', d') \<and> oe_core oe' \<and>
    events oe' = drop (before (node_time oe) limit xs) xs \<and> node_time oe' = node_time oe \<and>
    delivered trace (before (node_time oe) limit xs) oe d oe' d' \<and>
    oe_last oe' = oe_last oe \<and> next_flush oe' = next_flush oe \<and> max_timestamp oe' = max_timestamp oe"
proof (induction xs arbitrary: oe d)
  case Nil
  then show ?case by (simp add: before_def delivered_def)
next
  case (Cons x xs)
  show ?case
  proof (cases "limit < node_time oe x")
    case True
    then show ?thesis using Cons.prems del by (simp add: before_def delivered_def deliver_ok_def)
  next
    case False
    obtain d1 where d1: "deliver d (nodes oe x) = (0, d1)" "trace d1 = trace d @ [(timestamp (nodes oe x), event (nodes oe x))]"
      using del unfolding deliver_ok_def by (metis prod.collapse)
    let ?o = "(ordered_events__delete env oe x)\<lparr>last_flush := node_time oe x\<rparr>"
    note dc = delete_core [OF Cons.prems, of env]
    have o1: "oe_core ?o" "events ?o = xs" "contents ?o = tl (contents oe)" "node_time ?o = node_time oe"
      using dc by (simp_all add: oe_core_def slots_ok_def contents_def delete_simps)
    obtain oe' d' where r: "flush_loop env deliver session_done limit xs ?o d1 = (None, oe', d')" "oe_core oe'"
        "events oe' = drop (before (node_time oe) limit xs) xs" "node_time oe' = node_time oe"
        "delivered trace (before (node_time oe) limit xs) ?o d1 oe' d'"
        "oe_last oe' = oe_last ?o \<and> next_flush oe' = next_flush ?o \<and> max_timestamp oe' = max_timestamp ?o"
      using Cons.IH [OF o1(1,2), of d1] unfolding o1(4) by blast
    have "contents oe = (timestamp (nodes oe x), event (nodes oe x)) # contents ?o"
      using Cons.prems o1(3) by (simp add: contents_def)
    then have "delivered trace (Suc (before (node_time oe) limit xs)) oe d oe' d'"
      using delivered_Suc [OF r(5) _ d1(2)] by (simp add: delete_simps node_time_def)
    moreover have "before (node_time oe) limit (x # xs) = Suc (before (node_time oe) limit xs)"
      using False by (simp add: before_def)
    moreover have "\<not> session_done d" using del by (simp add: deliver_ok_def)
    ultimately show ?thesis using r False d1(1) by (simp add: delete_simps)
  qed
qed

lemma contents_Nil [simp]: "contents oe = [] \<longleftrightarrow> events oe = []"
  by (simp add: contents_def)

lemma length_contents [simp]: "length (contents oe) = length (events oe)"
  by (simp add: contents_def)

lemma delivered_refl: "delivered trace 0 oe d oe d"
  by (simp add: delivered_def)

text \<open>A flush that is not interrupted delivers the events up to its limit.\<close>

lemma do_flush_spec:
  assumes del: "deliver_ok deliver session_done trace" and ok: "oe_ok oe" and lim: "next_flush oe \<noteq> 0"
  shows "\<exists>oe' d'. do_flush env deliver session_done oe d = (0, oe', d') \<and> oe_ok oe' \<and>
    delivered trace (before (node_time oe) (next_flush oe) (events oe)) oe d oe' d' \<and>
    next_flush oe' = next_flush oe \<and> max_timestamp oe' = max_timestamp oe"
proof -
  let ?n = "before (node_time oe) (next_flush oe) (events oe)"
  have c: "oe_core oe" "last_in (oe_last oe) (events oe)" using ok by (simp_all add: oe_ok_core)
  obtain o1 d1 where l: "flush_loop env deliver session_done (next_flush oe) (events oe) oe d = (None, o1, d1)"
      "oe_core o1" "events o1 = drop ?n (events oe)" "node_time o1 = node_time oe"
      "delivered trace ?n oe d o1 d1" "oe_last o1 = oe_last oe"
      "next_flush o1 = next_flush oe" "max_timestamp o1 = max_timestamp oe"
    using flush_loop_spec [OF del c(1) refl] by blast
  let ?l = "if events o1 = [] then None
     else if (case oe_last oe of None \<Rightarrow> 0 | Some a \<Rightarrow> node_time oe a) \<le> next_flush oe then Some (last (events o1))
     else oe_last o1"
  have "last_in ?l (events o1)"
  proof (cases "oe_last oe")
    case (Some a)
    then obtain k where k: "k < length (events oe)" "events oe ! k = a"
      using c(2) by (auto simp: in_set_conv_nth)
    have "a \<in> set (events o1)" if "\<not> node_time oe a \<le> next_flush oe"
    proof -
      have "?n \<le> k" using that k before_iff [OF _ k(1), of "node_time oe" "next_flush oe"] c(1)
        by (simp add: oe_core_def)
      then have "events o1 ! (k - ?n) = a" "k - ?n < length (events o1)" using k l(3) by simp_all
      then show ?thesis by (metis nth_mem)
    qed
    then show ?thesis using Some l(6) by simp
  qed (use c(2) l(3) in simp)
  moreover have "oe_core (o1\<lparr>oe_last := ?l\<rparr>)" using l(2) by (simp add: oe_core_def slots_ok_def)
  moreover have "delivered trace ?n oe d (o1\<lparr>oe_last := ?l\<rparr>) d1"
    using l(5) by (simp add: delivered_def contents_def)
  ultimately show ?thesis
    using l lim by (simp add: do_flush_def Let_def oe_ok_core)
qed

lemma do_flush_delivers:
  assumes "deliver_ok deliver session_done trace" "oe_ok oe"
  shows "\<exists>oe' d' n. do_flush env deliver session_done (oe\<lparr>next_flush := nx\<rparr>) d = (0, oe', d') \<and> oe_ok oe' \<and>
    delivered trace n oe d oe' d' \<and> (nx \<noteq> 0 \<longrightarrow> n = before (node_time oe) nx (events oe))"
proof -
  have ok: "oe_ok (oe\<lparr>next_flush := nx\<rparr>)" using assms(2) by (simp add: oe_ok_def slots_ok_def)
  have d: "delivered trace n (oe\<lparr>next_flush := nx\<rparr>) d oe' d' \<longleftrightarrow> delivered trace n oe d oe' d'" for n oe' d'
    by (simp add: delivered_def contents_def)
  show ?thesis
  proof (cases "nx = 0")
    case True
    then show ?thesis using ok d [THEN iffD1, OF delivered_refl] by (auto simp: do_flush_def)
  next
    case False
    then show ?thesis using do_flush_spec [OF assms(1) ok, of env d] by (auto simp: d)
  qed
qed

text \<open>The limit that a flush sets.\<close>

definition flush_limit :: "'e ordered_events \<Rightarrow> oe_flush \<Rightarrow> u64 \<Rightarrow> u64" where
  "flush_limit oe how t = (case how of
     OE_FLUSH__FINAL \<Rightarrow> - 1
   | OE_FLUSH__TOP \<Rightarrow> - 1
   | OE_FLUSH__HALF \<Rightarrow> node_time oe (hd (events oe)) + (node_time oe (the (oe_last oe)) - node_time oe (hd (events oe))) div 2
   | OE_FLUSH__TIME \<Rightarrow> t
   | _ \<Rightarrow> next_flush oe)"

lemma flush_how_do_flush:
  assumes ok: "oe_ok oe" and ne: "nr_events oe \<noteq> 0"
  shows "ordered_events__flush_how env deliver session_done oe how t d =
    (let (err, oe, d) = do_flush env deliver session_done (oe\<lparr>next_flush := flush_limit oe how t\<rparr>) d
     in if err \<noteq> 0 then (err, oe, d)
        else (0, oe\<lparr>next_flush := (if how = OE_FLUSH__ROUND then max_timestamp oe else next_flush oe),
                   last_flush_type := how\<rparr>, d))"
proof -
  have "events oe \<noteq> []" using oe_okD(3) [OF ok] ne by auto
  moreover from this have "oe_last oe \<noteq> None" using oe_okD(4) [OF ok] by (metis last_in_simps(1))
  ultimately show ?thesis
    using ne by (cases how) (auto simp: ordered_events__flush_how_def flush_limit_def neq_Nil_conv)
qed

text \<open>
  Every kind of flush delivers a part of the queue: a final flush all of it, a flush with a limit the
  events up to the limit.
\<close>

lemma flush_how_spec:
  assumes del: "deliver_ok deliver session_done trace" and ok: "oe_ok oe" and few: "length (events oe) < 2 ^ 32"
  shows "\<exists>oe' d' n. ordered_events__flush_how env deliver session_done oe how t d = (0, oe', d') \<and> oe_ok oe' \<and>
    delivered trace n oe d oe' d' \<and>
    (flush_limit oe how t \<noteq> 0 \<longrightarrow> n = before (node_time oe) (flush_limit oe how t) (events oe))"
proof (cases "nr_events oe = 0")
  case True
  then have "length (events oe) = 0"
    using oe_okD(3) [OF ok] few unat_of_nat_small [of "length (events oe)", where 'a = 32] by simp
  then show ?thesis using True ok delivered_refl [of trace oe d]
    by (auto simp: ordered_events__flush_how_def before_def)
next
  case False
  have ok2: "oe_ok (oe'\<lparr>next_flush := x, last_flush_type := y\<rparr>) \<longleftrightarrow> oe_ok oe'"
    "delivered trace n oe d (oe'\<lparr>next_flush := x, last_flush_type := y\<rparr>) d' \<longleftrightarrow> delivered trace n oe d oe' d'"
    for oe' x y n d' by (simp_all add: oe_ok_def slots_ok_def delivered_def contents_def)
  show ?thesis
    using do_flush_delivers [OF del ok, of env "flush_limit oe how t" d] flush_how_do_flush [OF ok False, of env deliver session_done how t d]
    by (auto simp: ok2)
qed

lemma final_all: "before (node_time oe) (flush_limit oe OE_FLUSH__FINAL t) (events oe) = length (events oe)"
  by (simp add: before_full flush_limit_def)

section \<open>Queueing\<close>

lemma file_offset_ok:
  "oe_ok (set_node a (\<lambda>n. n\<lparr>file_offset := x\<rparr>) oe) \<longleftrightarrow> oe_ok oe"
  "contents (set_node a (\<lambda>n. n\<lparr>file_offset := x\<rparr>) oe) = contents oe"
  "last_flush (set_node a (\<lambda>n. n\<lparr>file_offset := x\<rparr>) oe) = last_flush oe"
  "nr_unordered_events (set_node a (\<lambda>n. n\<lparr>file_offset := x\<rparr>) oe) = nr_unordered_events oe"
proof -
  have "node_time (set_node a (\<lambda>n. n\<lparr>file_offset := x\<rparr>) oe) = node_time oe"
    by (simp add: node_time_def set_node_def fun_eq_iff)
  then show "oe_ok (set_node a (\<lambda>n. n\<lparr>file_offset := x\<rparr>) oe) \<longleftrightarrow> oe_ok oe"
    by (simp add: oe_ok_def) (simp add: set_node_def slots_ok_def)
qed (simp_all add: set_node_def contents_def)

lemma queue_spec:
  assumes del: "deliver_ok deliver session_done trace" and ok: "oe_ok oe" and few: "length (events oe) < 2 ^ 32"
    and t: "t \<noteq> 0" "t \<noteq> - 1"
  shows "\<exists>ret oe' d' n. ordered_events__queue env deliver session_done oe ev t offset d = Some (ret, oe', d') \<and> oe_ok oe' \<and>
    n \<le> length (contents oe) \<and> trace d' = trace d @ take n (contents oe) \<and>
    contents oe' = (if ret = 0 then insert_stable t (Some ev) (drop n (contents oe)) else drop n (contents oe)) \<and>
    last_flush oe' = (if n = 0 then last_flush oe else fst (contents oe ! (n - 1))) \<and> (ret = 0 \<or> ret = - ENOMEM) \<and>
    nr_unordered_events oe' = nr_unordered_events oe + of_bool (t < last_flush oe)"
proof -
  let ?u = "if t < last_flush oe then oe\<lparr>nr_unordered_events := nr_unordered_events oe + 1\<rparr> else oe"
  have u: "oe_ok ?u" "contents ?u = contents oe" "last_flush ?u = last_flush oe"
      "nr_unordered_events ?u = nr_unordered_events oe + of_bool (t < last_flush oe)"
    using ok by (simp_all add: oe_ok_def slots_ok_def contents_def)
  obtain r o2 where o2: "ordered_events__new_event env ?u t ev = Some (r, o2)" "oe_ok o2"
      "last_flush o2 = last_flush oe" "nr_unordered_events o2 = nr_unordered_events oe + of_bool (t < last_flush oe)"
      "contents o2 = (case r of None \<Rightarrow> contents oe | Some a \<Rightarrow> insert_stable t (Some ev) (contents oe))"
    using new_event_spec [OF u(1), of env t ev] u(2,3,4) by metis
  show ?thesis
  proof (cases r)
    case (Some a)
    have "ordered_events__queue env deliver session_done oe ev t offset d =
        Some (0, set_node a (\<lambda>n. n\<lparr>file_offset := offset\<rparr>) o2, d)"
      using t o2(1) Some by (simp add: ordered_events__queue_def Let_def)
    then show ?thesis using o2 Some by (intro exI [of _ 0] exI [of _ "set_node a (\<lambda>n. n\<lparr>file_offset := offset\<rparr>) o2"] exI [of _ d])
        (simp add: file_offset_ok)
  next
    case None
    have "length (events o2) < 2 ^ 32" using few o2(5) None by (metis length_contents option.simps(4))
    then obtain o3 d3 n where o3: "ordered_events__flush env deliver session_done o2 OE_FLUSH__HALF d = (0, o3, d3)"
        "oe_ok o3" "delivered trace n o2 d o3 d3"
      using flush_how_spec [OF del o2(2)] by (metis ordered_events__flush_def)
    obtain r' o4 where o4: "ordered_events__new_event env o3 t ev = Some (r', o4)" "oe_ok o4"
      "last_flush o4 = last_flush o3" "nr_unordered_events o4 = nr_unordered_events o3"
      "contents o4 = (case r' of None \<Rightarrow> contents o3 | Some a \<Rightarrow> insert_stable t (Some ev) (contents o3))"
      using new_event_spec [OF o3(2), of env t ev] by metis
    have q: "ordered_events__queue env deliver session_done oe ev t offset d =
        Some (case r' of None \<Rightarrow> (- ENOMEM, o4, d3) | Some a \<Rightarrow> (0, set_node a (\<lambda>n. n\<lparr>file_offset := offset\<rparr>) o4, d3))"
      using t o2(1) o3(1) o4(1) None by (simp add: ordered_events__queue_def Let_def split: option.split)
    have f: "n \<le> length (contents oe)" "trace d3 = trace d @ take n (contents oe)" "contents o3 = drop n (contents oe)"
        "last_flush o4 = (if n = 0 then last_flush oe else fst (contents oe ! (n - 1)))"
        "nr_unordered_events o4 = nr_unordered_events oe + of_bool (t < last_flush oe)"
      using o2(3,4,5) o3(3) o4(3,4) None by (simp_all add: delivered_def)
    show ?thesis
    proof (cases r')
      case None
      then show ?thesis using q f o4(2,5)
        by (intro exI [of _ "- ENOMEM"] exI [of _ o4] exI [of _ d3] exI [of _ n]) simp
    next
      case (Some a)
      then show ?thesis using q f o4(2,5)
        by (intro exI [of _ 0] exI [of _ "set_node a (\<lambda>n. n\<lparr>file_offset := offset\<rparr>) o4"] exI [of _ d3] exI [of _ n])
          (simp add: file_offset_ok)
    qed
  qed
qed

section \<open>Runs\<close>

text \<open>
  A client's calls in sequence.  The result has the events that were accepted, and whether one of them
  was earlier than the last delivered event when its call returned.
\<close>

datatype 'e oe_op = Queue 'e u64 u64 | Flush oe_flush | Flush_Time u64

fun oe_run ::
  "'e oe_env \<Rightarrow> ('d \<Rightarrow> 'e ordered_event \<Rightarrow> int \<times> 'd) \<Rightarrow> ('d \<Rightarrow> bool) \<Rightarrow> 'e oe_op list \<Rightarrow>
    'e ordered_events \<Rightarrow> 'd \<Rightarrow> ((u64 \<times> 'e option) list \<times> bool \<times> 'e ordered_events \<times> 'd) option"
where
  "oe_run env deliver session_done [] oe d = Some ([], False, oe, d)"
| "oe_run env deliver session_done (Queue ev t offset # ops) oe d = do {
     (ret, oe, d) \<leftarrow> ordered_events__queue env deliver session_done oe ev t offset d;
     (acc, late, s) \<leftarrow> oe_run env deliver session_done ops oe d;
     Some (if ret = 0 then ((t, Some ev) # acc, late \<or> t < last_flush oe, s) else (acc, late, s))
   }"
| "oe_run env deliver session_done (Flush how # ops) oe d =
     (case ordered_events__flush env deliver session_done oe how d of
        (ret, oe, d) \<Rightarrow> oe_run env deliver session_done ops oe d)"
| "oe_run env deliver session_done (Flush_Time t # ops) oe d =
     (case ordered_events__flush_time env deliver session_done oe t d of
        (ret, oe, d) \<Rightarrow> oe_run env deliver session_done ops oe d)"

text \<open>The delivered and the queued events are in order, and \<open>last_flush\<close> is where delivery stands.\<close>

definition in_order :: "('d \<Rightarrow> (u64 \<times> 'e option) list) \<Rightarrow> 'e ordered_events \<Rightarrow> 'd \<Rightarrow> bool" where
  "in_order trace oe d \<longleftrightarrow> sorted (map fst (trace d @ contents oe)) \<and>
     (trace d \<noteq> [] \<longrightarrow> last_flush oe = fst (last (trace d)))"

lemma in_order_delivered:
  assumes "delivered trace n oe d oe' d'" "in_order trace oe d"
  shows "in_order trace oe' d'"
proof -
  have "trace d' @ contents oe' = trace d @ contents oe"
    using assms(1) by (simp add: delivered_def)
  moreover have "last_flush oe' = fst (last (trace d'))" if "trace d' \<noteq> []"
  proof (cases n)
    case 0
    then show ?thesis using that assms by (simp add: delivered_def in_order_def)
  next
    case (Suc m)
    then show ?thesis using assms(1) by (simp add: delivered_def take_Suc_conv_app_nth)
  qed
  ultimately show ?thesis using assms(2) by (simp only: in_order_def) blast
qed

lemma sorted_last: "sorted (map f xs) \<Longrightarrow> x \<in> set xs \<Longrightarrow> f x \<le> f (last xs)"
  by (induction xs) auto

lemma in_order_queued:
  assumes "in_order trace oe d" and ok: "oe_ok oe'" and n: "n \<le> length (contents oe)"
    and tr: "trace d' = trace d @ take n (contents oe)"
    and c: "contents oe' = insert_stable t ev (drop n (contents oe))"
    and lf: "last_flush oe' = (if n = 0 then last_flush oe else fst (contents oe ! (n - 1)))"
    and t: "last_flush oe' \<le> t"
  shows "in_order trace oe' d'"
proof -
  let ?o = "oe\<lparr>last_flush := last_flush oe', events := drop n (events oe)\<rparr>"
  have "contents ?o = drop n (contents oe)" by (simp add: contents_def drop_map)
  then have "delivered trace n oe d ?o d'" using n tr lf by (simp add: delivered_def)
  then have "in_order trace ?o d'" using assms(1) by (rule in_order_delivered)
  then have s: "sorted (map fst (trace d' @ drop n (contents oe)))" "trace d' \<noteq> [] \<Longrightarrow> last_flush oe' = fst (last (trace d'))"
    using \<open>contents ?o = drop n (contents oe)\<close> by (simp_all add: in_order_def)
  have le: "fst x \<le> t" if "x \<in> set (trace d')" for x
  proof -
    have ne: "trace d' \<noteq> []" using that by auto
    have "fst x \<le> fst (last (trace d'))" using s(1) that by (simp add: sorted_append sorted_last)
    then show ?thesis using s(2) [OF ne] t by simp
  qed
  have "sorted (map fst (contents oe'))" using oe_okD(1) [OF ok] by (simp add: contents_times)
  then have "sorted (map fst (trace d' @ contents oe'))"
    using s(1) le unfolding c by (auto simp: sorted_append)
  then show ?thesis using s(2) by (simp add: in_order_def)
qed

text \<open>Every call returns, nothing is lost or invented, and the order is kept.\<close>

lemma run_spec:
  assumes del: "deliver_ok deliver session_done trace"
  shows "oe_ok oe \<Longrightarrow> length (events oe) + length ops < 2 ^ 32 \<Longrightarrow> \<exists>acc late oe' d'.
    oe_run env deliver session_done ops oe d = Some (acc, late, oe', d') \<and> oe_ok oe' \<and>
    length (events oe') \<le> length (events oe) + length ops \<and>
    mset (trace d' @ contents oe') = mset (trace d @ contents oe) + mset acc \<and>
    (in_order trace oe d \<and> \<not> late \<longrightarrow> in_order trace oe' d')"
proof (induction ops arbitrary: oe d)
  case (Cons op ops)
  have flush: ?case
    if run: "\<And>oe'' d''. fl = (0, oe'', d'') \<Longrightarrow> oe_run env deliver session_done (op # ops) oe d = oe_run env deliver session_done ops oe'' d''"
      and fl: "fl = (0, o1, d1)" "oe_ok o1" "delivered trace n oe d o1 d1" for fl o1 d1 n
  proof -
    have l: "length (events o1) \<le> length (events oe)"
      using fl(3) unfolding delivered_def by (metis diff_le_self length_contents length_drop)
    moreover have "mset (trace d1 @ contents o1) = mset (trace d @ contents oe)"
      using fl(3) unfolding delivered_def by (metis append.assoc append_take_drop_id)
    moreover obtain acc late oe' d' where "oe_run env deliver session_done ops o1 d1 = Some (acc, late, oe', d')"
        "oe_ok oe'" "length (events oe') \<le> length (events o1) + length ops"
        "mset (trace d' @ contents oe') = mset (trace d1 @ contents o1) + mset acc"
        "in_order trace o1 d1 \<and> \<not> late \<longrightarrow> in_order trace oe' d'"
      using Cons.IH [OF fl(2), of d1] Cons.prems l by force
    ultimately show ?thesis
      using run [OF fl(1)] in_order_delivered [OF fl(3)] by (intro exI [of _ acc] exI [of _ late] exI [of _ oe'] exI [of _ d']) simp
  qed
  show ?case
  proof (cases op)
    case (Queue ev t offset)
    show ?thesis
    proof (cases "t = 0 \<or> t = - 1")
      case True
      then have "oe_run env deliver session_done (op # ops) oe d = oe_run env deliver session_done ops oe d"
        unfolding Queue by (simp add: ordered_events__queue_def split: option.split bind_splits)
      then show ?thesis using flush [of "(0, oe, d)"] Cons.prems delivered_refl by fastforce
    next
      case False
      have few: "length (events oe) < 2 ^ 32" using Cons.prems(2) by simp
      obtain ret o1 d1 n where q: "ordered_events__queue env deliver session_done oe ev t offset d = Some (ret, o1, d1)"
          "oe_ok o1" "n \<le> length (contents oe)" "trace d1 = trace d @ take n (contents oe)"
          "contents o1 = (if ret = 0 then insert_stable t (Some ev) (drop n (contents oe)) else drop n (contents oe))"
          "last_flush o1 = (if n = 0 then last_flush oe else fst (contents oe ! (n - 1)))"
        using queue_spec [OF del Cons.prems(1) few, of t env ev offset d] False by blast
      have l: "length (events o1) \<le> Suc (length (events oe))"
        using arg_cong [OF q(5), of length] by (simp split: if_splits)
      obtain acc late oe' d' where r: "oe_run env deliver session_done ops o1 d1 = Some (acc, late, oe', d')"
          "oe_ok oe'" "length (events oe') \<le> length (events o1) + length ops"
          "mset (trace d' @ contents oe') = mset (trace d1 @ contents o1) + mset acc"
          "in_order trace o1 d1 \<and> \<not> late \<longrightarrow> in_order trace oe' d'"
        using Cons.IH [OF q(2), of d1] Cons.prems l by force
      have td: "mset (take n (contents oe)) + mset (drop n (contents oe)) = mset (contents oe)"
        by (metis append_take_drop_id mset_append)
      show ?thesis
      proof (cases "ret = 0")
        case True
        have "mset (trace d1 @ contents o1) = add_mset (t, Some ev) (mset (trace d @ contents oe))"
          using q(4,5) True td by simp
        moreover have "in_order trace oe d \<Longrightarrow> \<not> t < last_flush o1 \<Longrightarrow> in_order trace o1 d1"
          using in_order_queued [of trace oe d o1 n d1 t "Some ev"] q(2-6) True by simp
        ultimately show ?thesis using q(1) r l True Queue
          by (intro exI [of _ "(t, Some ev) # acc"] exI [of _ "late \<or> t < last_flush o1"] exI [of _ oe'] exI [of _ d']) auto
      next
        case F: False
        let ?o = "o1\<lparr>nr_unordered_events := nr_unordered_events oe\<rparr>"
        have "delivered trace n oe d ?o d1" using q F by (simp add: delivered_def contents_def)
        then have "in_order trace oe d \<Longrightarrow> in_order trace ?o d1" by (rule in_order_delivered)
        then have "in_order trace oe d \<Longrightarrow> in_order trace o1 d1" by (simp add: in_order_def contents_def)
        moreover have "mset (trace d1 @ contents o1) = mset (trace d @ contents oe)"
          using q(4,5) F td by simp
        ultimately show ?thesis using q(1) r l F Queue
          by (intro exI [of _ acc] exI [of _ late] exI [of _ oe'] exI [of _ d']) auto
      qed
    qed
  next
    case (Flush how)
    then show ?thesis
      using flush [of "ordered_events__flush env deliver session_done oe how d"] flush_how_spec [OF del Cons.prems(1), of env how 0 d] Cons.prems(2)
      by (auto simp: ordered_events__flush_def)
  next
    case (Flush_Time t)
    then show ?thesis
      using flush [of "ordered_events__flush_time env deliver session_done oe t d"] flush_how_spec [OF del Cons.prems(1), of env OE_FLUSH__TIME t d] Cons.prems(2)
      by (auto simp: ordered_events__flush_time_def)
  qed
qed (rule exI [of _ "[]"], rule exI [of _ False], simp)

lemma oe_run_append:
  "oe_run env deliver session_done (ops @ ops') oe d =
    (case oe_run env deliver session_done ops oe d of
       None \<Rightarrow> None
     | Some (acc, late, oe, d) \<Rightarrow>
         map_option (\<lambda>(acc', late', s). (acc @ acc', late \<or> late', s)) (oe_run env deliver session_done ops' oe d))"
proof (induction ops arbitrary: oe d)
  case Nil
  show ?case by (cases "oe_run env deliver session_done ops' oe d") auto
next
  case (Cons op ops)
  show ?case
  proof (cases op)
    case (Queue ev t offset)
    then show ?thesis
      by (auto simp: Cons split: option.split bind_split)
  qed (simp_all add: Cons split: prod.split)
qed

section \<open>Properties\<close>

text \<open>The queue as a session sets it up.\<close>

definition oe_start :: "u64 \<Rightarrow> bool \<Rightarrow> 'e ordered_events \<Rightarrow> 'e ordered_events" where
  "oe_start sz copy oe =
     ordered_events__set_copy_on_queue
       (ordered_events__set_alloc_size (ordered_events__init (ordered_events_zero oe) None) sz) copy"

lemma oe_start_ok: "oe_ok (oe_start sz copy oe)" "events (oe_start sz copy oe) = []" "contents (oe_start sz copy oe) = []"
  by (simp_all add: oe_start_def ordered_events__set_copy_on_queue_def ordered_events__set_alloc_size_def
      ordered_events__init_def ordered_events_zero_def oe_ok_def slots_ok_def)

text \<open>A client that records what it gets.\<close>

definition recorder :: "(u64 \<times> 'e option) list \<Rightarrow> 'e ordered_event \<Rightarrow> int \<times> (u64 \<times> 'e option) list" where
  "recorder d n = (0, d @ [(timestamp n, event n)])"

lemma recorder_ok: "deliver_ok recorder (\<lambda>_. False) (\<lambda>d. d)"
  by (simp add: deliver_ok_def recorder_def)

definition env0 :: "nat oe_env" where
  "env0 = \<lparr>header_size = (\<lambda>_. 8), alloc_ok = (\<lambda>_. True)\<rparr>"

definition blank :: "'e ordered_events" where
  "blank = \<lparr>last_flush = 0, next_flush = 0, max_timestamp = 0, max_alloc_size = 0, cur_alloc_size = 0,
      events = [], cache = [], to_free = [], buffer = None, oe_last = None, buffer_idx = 0, nr_events = 0,
      last_flush_type = OE_FLUSH__NONE, nr_unordered_events = 0, copy_on_queue = False, data = None,
      nodes = (\<lambda>_. \<lparr>timestamp = 0, file_offset = 0, event = None\<rparr>), nr_buffers = 0, nr_allocs = 0\<rparr>"



text \<open>
  C31. For a client that accepts every event, any sequence of calls followed by a final flush returns and
  delivers exactly the accepted events, each once.  They are delivered in the order of their times,
  unless an event was accepted when a later one had already been delivered.
\<close>

theorem ordered_events_delivery:
  assumes "deliver_ok deliver session_done trace" "trace d = []" "length ops < 2 ^ 32 - 1"
  shows "\<exists>acc late oe' d'. oe_run env deliver session_done (ops @ [Flush OE_FLUSH__FINAL]) (oe_start sz copy oe) d =
      Some (acc, late, oe', d') \<and>
    mset (trace d') = mset acc \<and> contents oe' = [] \<and> (\<not> late \<longrightarrow> sorted (map fst (trace d')))"
proof -
  let ?s = "oe_start sz copy oe"
  have len: "length (events ?s) + length ops < 2 ^ 32" using assms(3) by (simp add: oe_start_ok)
  obtain acc late o1 d1 where r: "oe_run env deliver session_done ops ?s d = Some (acc, late, o1, d1)" "oe_ok o1"
      "length (events o1) \<le> length (events ?s) + length ops"
      "mset (trace d1 @ contents o1) = mset (trace d @ contents ?s) + mset acc"
      "in_order trace ?s d \<and> \<not> late \<longrightarrow> in_order trace o1 d1"
    using run_spec [OF assms(1) oe_start_ok(1) len] by blast
  have "length (events o1) < 2 ^ 32" using r(3) len by simp
  then obtain o2 d2 where f: "ordered_events__flush env deliver session_done o1 OE_FLUSH__FINAL d1 = (0, o2, d2)"
      "delivered trace (length (events o1)) o1 d1 o2 d2"
    using flush_how_spec [OF assms(1) r(2), of env OE_FLUSH__FINAL 0 d1]
    by (auto simp: ordered_events__flush_def final_all) (simp add: flush_limit_def)
  then have c: "contents o2 = []" "trace d2 = trace d1 @ contents o1"
    unfolding delivered_def by (metis drop_all length_contents order_refl) (metis delivered_def f(2) length_contents order_refl take_all)
  have "in_order trace ?s d" by (simp add: in_order_def assms(2) oe_start_ok)
  then have "\<not> late \<Longrightarrow> sorted (map fst (trace d2))" using r(5) c(2) by (simp add: in_order_def)
  then show ?thesis
    using r(1,4) f(1) c assms(2) by (simp add: oe_run_append oe_start_ok)
qed

theorem ordered_events_delivery_witness:
  "\<exists>acc late oe' d'. oe_run env0 recorder (\<lambda>_. False)
      ([Queue 1 20 0, Queue 2 10 8, Flush OE_FLUSH__ROUND, Queue 3 15 16] @ [Flush OE_FLUSH__FINAL]) (oe_start (- 1) True blank) [] =
      Some (acc, late, oe', d') \<and>
    mset d' = mset acc \<and> contents oe' = [] \<and> (\<not> late \<longrightarrow> sorted (map fst d'))"
  using ordered_events_delivery [OF recorder_ok, of "[]" "[Queue 1 20 0, Queue 2 10 8, Flush OE_FLUSH__ROUND, Queue 3 15 16]" env0 "- 1" True blank]
  by simp

lemmas oe_start_defs = oe_start_def ordered_events__set_copy_on_queue_def ordered_events__set_alloc_size_def
  ordered_events__init_def ordered_events_zero_def

lemmas oe_defs = ordered_events__queue_def ordered_events__new_event_def alloc_event_def dup_event_def dup_event_copy_def
  malloc_outcome_def queue_event_def set_node_def node_time_def list_insert_at_def ordered_events__flush_def
  ordered_events__flush_how_def do_flush_def ordered_events__delete_def free_dup_event_def free_dup_event_copy_def
  walk_up.simps

lemma new_event_dangling:
  assumes "cache oe = a # c" "oe_last oe = Some a" "a \<notin> set (events oe)" "\<not> copy_on_queue oe"
  shows "ordered_events__new_event env oe t ev = None"
proof -
  have "list_pos a (events oe) = None" using assms(3) by (simp add: list_pos_None)
  then show ?thesis
    using assms by (simp add: ordered_events__new_event_def alloc_event_def dup_event_def queue_event_def set_node_def)
qed

text \<open>
  An event can be delivered behind a later one without being counted in
  \<open>nr_unordered_events\<close>: \<open>ordered_events__queue\<close> compares the time with \<open>last_flush\<close> before it flushes a
  half of the queue to get memory.
\<close>

theorem ordered_events_overtaken_not_counted:
  "case oe_run env0 recorder (\<lambda>_. False) [Queue 1 10 0, Queue 2 20 8, Queue 3 5 16, Flush OE_FLUSH__FINAL]
      (oe_start 65545 True blank) [] of
     None \<Rightarrow> False
   | Some (acc, late, oe, d) \<Rightarrow> map fst d = [10, 5, 20] \<and> nr_unordered_events oe = 0"
  by (simp add: oe_start_defs oe_defs env0_def recorder_def blank_def)

text \<open>
  When the client refuses an event in the middle of a flush and the event queued last was delivered
  before it, \<open>last\<close> is left pointing to a node that is no longer in the list of events, and the next
  \<open>ordered_events__queue\<close> takes this very node for the new event and walks from it: undefined behaviour.
\<close>

theorem ordered_events_failed_flush_dangles:
  assumes ok: "oe_ok oe" "length (events oe) < 2 ^ 32"
    and ev: "events oe = a # b # rest" "oe_last oe = Some a" "\<not> copy_on_queue oe"
    and d: "\<not> session_done d" "deliver d (nodes oe a) = (0, d1)"
      "\<not> session_done d1" "deliver d1 (nodes oe b) = (err, d2)" "err \<noteq> 0"
    and t: "t \<noteq> 0" "t \<noteq> - 1"
  shows "\<exists>oe'. ordered_events__flush env deliver session_done oe OE_FLUSH__FINAL d = (err, oe', d2) \<and>
    oe_last oe' = Some a \<and> a \<notin> set (events oe') \<and>
    ordered_events__queue env deliver session_done oe' ev t offset d2 = None"
proof -
  have ab: "a \<noteq> b" "a \<notin> set (b # rest)" using oe_okD(2) [OF ok(1)] ev(1) by auto
  have ne: "nr_events oe \<noteq> 0"
    using oe_okD(3) [OF ok(1)] ok(2) ev(1) unat_of_nat_small [of "length (events oe)", where 'a = 32] by auto
  let ?o = "(ordered_events__delete env (oe\<lparr>next_flush := - 1\<rparr>) a)\<lparr>last_flush := node_time oe a\<rparr>"
  have fl: "ordered_events__flush env deliver session_done oe OE_FLUSH__FINAL d = (err, ?o, d2)"
    using flush_how_do_flush [OF ok(1) ne, of env deliver session_done OE_FLUSH__FINAL 0 d] ev d ab
    by (simp add: ordered_events__flush_def flush_limit_def do_flush_def delete_simps)
  have o: "events ?o = b # rest" "cache ?o = a # cache oe" "oe_last ?o = Some a" "copy_on_queue ?o = False"
    using ev by (simp_all add: delete_simps)
      (simp add: ordered_events__delete_def Let_def set_node_def free_dup_event_def)
  then have "ordered_events__new_event env (?o\<lparr>nr_unordered_events := u\<rparr>) t ev = None"
      "ordered_events__new_event env ?o t ev = None" for u
    using ab(2) by (simp_all add: new_event_dangling)
  then have "ordered_events__queue env deliver session_done ?o ev t offset d2 = None"
    using t by (simp add: ordered_events__queue_def Let_def)
  then show ?thesis using fl o ab by auto
qed

text \<open>Two queued events; the earlier one was queued last.\<close>

definition oe_two :: "nat ordered_events" where
  "oe_two = blank\<lparr>events := [(0, 1), (0, 0)], oe_last := Some (0, 1), nr_events := 2, max_timestamp := 20,
     buffer := Some 0, buffer_idx := 2, nr_buffers := 1,
     nodes := (\<lambda>a. \<lparr>timestamp = if a = (0, 1) then 10 else 20, file_offset = 0, event = Some 1\<rparr>)\<rparr>"

theorem ordered_events_failed_flush_dangles_witness:
  "\<exists>oe'. ordered_events__flush env0 (\<lambda>d n. (if timestamp n = 20 then - 5 else 0, d)) (\<lambda>_. False) oe_two OE_FLUSH__FINAL () = (- 5, oe', ()) \<and>
    oe_last oe' = Some (0, 1) \<and> (0, 1) \<notin> set (events oe') \<and>
    ordered_events__queue env0 (\<lambda>d n. (if timestamp n = 20 then - 5 else 0, d)) (\<lambda>_. False) oe' 2 30 0 () = None"
  by (rule ordered_events_failed_flush_dangles [where a = "(0, 1)" and b = "(0, 0)" and rest = "[]" and oe = oe_two and d = "()" and ?d1.0 = "()"])
    (auto simp: oe_two_def blank_def oe_ok_def slots_ok_def node_time_def)

text \<open>
  When the event was copied but no room is left for a node, \<open>alloc_event\<close> returns NULL and drops the
  copy: the size of the event stays counted in \<open>cur_alloc_size\<close> and no node refers to it.
\<close>

theorem ordered_events_alloc_leaks:
  assumes "copy_on_queue oe" "cur_alloc_size oe < max_alloc_size oe" "alloc_ok env (nr_allocs oe)"
    and "cache oe = []" "buffer oe = None"
    and "\<not> cur_alloc_size oe + ucast (header_size env ev) + OE_BUFFER_SIZE < max_alloc_size oe"
  shows "alloc_event env oe ev =
    (None, oe\<lparr>cur_alloc_size := cur_alloc_size oe + ucast (header_size env ev), nr_allocs := nr_allocs oe + 1\<rparr>)"
  using assms by (simp add: alloc_event_def dup_event_def dup_event_copy_def malloc_outcome_def)

theorem ordered_events_alloc_leaks_witness:
  "alloc_event env0 (oe_start 1000 True blank) 7 =
    (None, (oe_start 1000 True blank)\<lparr>cur_alloc_size := cur_alloc_size (oe_start 1000 True (blank :: nat ordered_events)) + ucast (header_size env0 7),
       nr_allocs := nr_allocs (oe_start 1000 True (blank :: nat ordered_events)) + 1\<rparr>)"
  by (rule ordered_events_alloc_leaks) (simp_all add: oe_start_defs blank_def env0_def)

end
