(* ===== verification/Block_Range.thy ===== *)
theory Block_Range
  imports Perf_Prelude "HOL-Library.Tree"
begin

text \<open>
  The basic blocks of a profile, \<^verbatim>\<open>util/block-range.c\<close>, and the function of
  \<^verbatim>\<open>builtin-annotate.c\<close> that counts a basic block.  The red-black tree is a binary tree
  of block names, \<open>brs\<close> the memory of the blocks.  The tree library is not part of the repository: how it
  rebalances after an insertion, and its iterator, are parameters with the documented behaviour as
  hypothesis \<open>rb_law\<close>.  The outcome of the allocations is a parameter, too.

  \<open>None\<close> stands for an assertion that fails, which aborts the program.
\<close>

section \<open>The code\<close>

record block_range =
  br_sym :: "nat option"
  br_start :: u64
  br_end :: u64
  is_target :: bool
  is_branch :: bool
  coverage :: u64
  br_entry :: u64
  taken :: u64
  br_pred :: u64

text \<open>A block as a compound literal initialises it: what is not named is zero.\<close>

definition new_range :: "u64 \<Rightarrow> u64 \<Rightarrow> bool \<Rightarrow> bool \<Rightarrow> block_range" where
  "new_range s e t b =
     \<lparr>br_sym = None, br_start = s, br_end = e, is_target = t, is_branch = b, coverage = 0, br_entry = 0,
      taken = 0, br_pred = 0\<rparr>"

record block_ranges =
  root :: "nat tree"
  blocks :: u64
  brs :: "nat \<Rightarrow> block_range"
  nr_brs :: nat
  br_allocs :: nat

record rb_ops =
  rb_first :: "nat tree \<Rightarrow> nat option"
  rb_next :: "nat tree \<Rightarrow> nat \<Rightarrow> nat option"
  rb_insert_color :: "nat tree \<Rightarrow> nat \<Rightarrow> nat tree"

partial_function (option) debug_loop ::
  "rb_ops \<Rightarrow> nat tree \<Rightarrow> (nat \<Rightarrow> block_range) \<Rightarrow> u64 \<Rightarrow> nat option \<Rightarrow> unit option"
where
  "debug_loop rb t f old n =
     (case n of
        None \<Rightarrow> Some ()
      | Some n \<Rightarrow>
          if \<not> old < br_start (f n) then None
          else if \<not> br_start (f n) \<le> br_end (f n) then None
          else debug_loop rb t f (br_end (f n)) (rb_next rb t n))"

definition block_range__debug :: "rb_ops \<Rightarrow> block_ranges \<Rightarrow> unit option" where
  "block_range__debug rb st = debug_loop rb (root st) (brs st) 0 (rb_first rb (root st))"

fun find_loop :: "(nat \<Rightarrow> block_range) \<Rightarrow> u64 \<Rightarrow> nat tree \<Rightarrow> nat option" where
  "find_loop f addr Leaf = None"
| "find_loop f addr (Node l n r) =
     (if addr < br_start (f n) then find_loop f addr l
      else if addr > br_end (f n) then find_loop f addr r
      else Some n)"

definition block_range__find :: "block_ranges \<Rightarrow> u64 \<Rightarrow> nat option" where
  "block_range__find st addr = find_loop (brs st) addr (root st)"

text \<open>\<open>rb_link_node\<close> at an empty place, given by the turns from the root (\<open>True\<close> is right).\<close>

fun link_at :: "bool list \<Rightarrow> nat \<Rightarrow> nat tree \<Rightarrow> nat tree" where
  "link_at [] new t = Node Leaf new Leaf"
| "link_at (turn # p) new Leaf = Leaf"
| "link_at (turn # p) new (Node l n r) = (if turn then Node l n (link_at p new r) else Node (link_at p new l) n r)"

fun link_rightmost :: "nat \<Rightarrow> nat tree \<Rightarrow> nat tree" where
  "link_rightmost new Leaf = Node Leaf new Leaf"
| "link_rightmost new (Node l n r) = Node l n (link_rightmost new r)"

fun link_leftmost :: "nat \<Rightarrow> nat tree \<Rightarrow> nat tree" where
  "link_leftmost new Leaf = Node Leaf new Leaf"
| "link_leftmost new (Node l n r) = Node (link_leftmost new l) n r"

fun rb_link_left_of_node :: "nat \<Rightarrow> nat \<Rightarrow> nat tree \<Rightarrow> nat tree" where
  "rb_link_left_of_node new n Leaf = Leaf"
| "rb_link_left_of_node new n (Node l m r) =
     (if m = n then Node (link_rightmost new l) m r
      else Node (rb_link_left_of_node new n l) m (rb_link_left_of_node new n r))"

fun rb_link_right_of_node :: "nat \<Rightarrow> nat \<Rightarrow> nat tree \<Rightarrow> nat tree" where
  "rb_link_right_of_node new n Leaf = Leaf"
| "rb_link_right_of_node new n (Node l m r) =
     (if m = n then Node l m (link_leftmost new r)
      else Node (rb_link_right_of_node new n l) m (rb_link_right_of_node new n r))"

text \<open>
  The search of \<open>block_range__create\<close>: the turns taken, the last node seen, and the node that
  contains the address, if any.
\<close>

fun create_loop :: "(nat \<Rightarrow> block_range) \<Rightarrow> u64 \<Rightarrow> nat option \<Rightarrow> nat tree \<Rightarrow> bool list \<times> nat option \<times> nat option" where
  "create_loop f start parent Leaf = ([], parent, None)"
| "create_loop f start parent (Node l n r) =
     (if start < br_start (f n) then (let (p, r) = create_loop f start (Some n) l in (False # p, r))
      else if start > br_end (f n) then (let (p, r) = create_loop f start (Some n) r in (True # p, r))
      else ([], Some n, Some n))"

definition malloc_range :: "(nat \<Rightarrow> bool) \<Rightarrow> block_ranges \<Rightarrow> block_range \<Rightarrow> nat option \<times> block_ranges" where
  "malloc_range ok st b =
     (if ok (br_allocs st)
      then (Some (nr_brs st),
            st\<lparr>brs := (brs st)(nr_brs st := b), nr_brs := nr_brs st + 1, br_allocs := br_allocs st + 1\<rparr>)
      else (None, st\<lparr>br_allocs := br_allocs st + 1\<rparr>))"

definition set_range :: "nat \<Rightarrow> (block_range \<Rightarrow> block_range) \<Rightarrow> block_ranges \<Rightarrow> block_ranges" where
  "set_range n g st = st\<lparr>brs := (brs st)(n := g (brs st n))\<rparr>"

text \<open>A new node is linked, the tree rebalanced and the whole tree checked.\<close>

definition insert_range :: "rb_ops \<Rightarrow> (nat tree \<Rightarrow> nat tree) \<Rightarrow> nat \<Rightarrow> block_ranges \<Rightarrow> block_ranges option" where
  "insert_range rb link new st = do {
     let st = st\<lparr>root := rb_insert_color rb (link (root st)) new\<rparr>;
     block_range__debug rb st;
     Some st
   }"

definition block_range__next :: "rb_ops \<Rightarrow> block_ranges \<Rightarrow> nat \<Rightarrow> nat option" where
  "block_range__next rb st n = rb_next rb (root st) n"

text \<open>
  The loop at \<open>do_tail\<close>; it returns the end of the iterator, which stays NULL when an allocation
  fails.
\<close>

partial_function (option) tail_loop ::
  "rb_ops \<Rightarrow> (nat \<Rightarrow> bool) \<Rightarrow> u64 \<Rightarrow> block_ranges \<Rightarrow> nat \<Rightarrow> (nat option \<times> block_ranges) option"
where
  "tail_loop rb ok end1 st entry =
     (let e = brs st entry
      in if end1 < br_end e then
           (case malloc_range ok st
               ((new_range (end1 + 1) (br_end e) False (is_branch e))\<lparr>coverage := coverage e, taken := taken e, br_pred := br_pred e\<rparr>) of
              (None, st) \<Rightarrow> Some (None, st)
            | (Some new, st) \<Rightarrow> do {
                let st = set_range entry (\<lambda>e. e\<lparr>br_end := end1, is_branch := True, taken := 0, br_pred := 0\<rparr>) st;
                st \<leftarrow> insert_range rb (rb_link_right_of_node new entry) new st;
                Some (Some entry, st)
              })
         else if end1 = br_end e then Some (Some entry, set_range entry (\<lambda>e. e\<lparr>is_branch := True\<rparr>) st)
         else let next = block_range__next rb st entry
              in if (case next of None \<Rightarrow> True | Some next \<Rightarrow> end1 < br_start (brs st next)) then
                (case malloc_range ok st (new_range (br_end e + 1) end1 False True) of
                   (None, st) \<Rightarrow> Some (None, st)
                 | (Some new, st) \<Rightarrow> do {
                     st \<leftarrow> insert_range rb (rb_link_right_of_node new entry) new st;
                     Some (Some new, st)
                   })
              else if br_end e + 1 \<noteq> br_start (brs st (the next)) then
                (case malloc_range ok st (new_range (br_end e + 1) (br_start (brs st (the next)) - 1) False False) of
                   (None, st) \<Rightarrow> Some (None, st)
                 | (Some new, st) \<Rightarrow> do {
                     st \<leftarrow> insert_range rb (rb_link_left_of_node new (the next)) new st;
                     tail_loop rb ok end1 st (the next)
                   })
              else tail_loop rb ok end1 st (the next))"

type_synonym block_range_iter = "nat option \<times> nat option"

text \<open>The assertions at \<open>done\<close>.\<close>

definition create_done :: "u64 \<Rightarrow> u64 \<Rightarrow> nat \<Rightarrow> nat \<Rightarrow> block_ranges \<Rightarrow> (block_range_iter \<times> block_ranges) option" where
  "create_done start end1 s e st =
     (if \<not> (br_start (brs st s) = start \<and> is_target (brs st s)) then None
      else if \<not> (br_end (brs st e) = end1 \<and> is_branch (brs st e)) then None
      else Some ((Some s, Some e), st\<lparr>blocks := blocks st + 1\<rparr>))"

definition do_tail :: "rb_ops \<Rightarrow> (nat \<Rightarrow> bool) \<Rightarrow> u64 \<Rightarrow> u64 \<Rightarrow> block_ranges \<Rightarrow> nat \<Rightarrow> (block_range_iter \<times> block_ranges) option" where
  "do_tail rb ok start end1 st s = do {
     (e, st) \<leftarrow> tail_loop rb ok end1 st s;
     case e of
       None \<Rightarrow> Some ((Some s, None), st)
     | Some e \<Rightarrow> create_done start end1 s e st
   }"

definition do_whole :: "rb_ops \<Rightarrow> (nat \<Rightarrow> bool) \<Rightarrow> u64 \<Rightarrow> u64 \<Rightarrow> bool list \<Rightarrow> block_ranges \<Rightarrow> (block_range_iter \<times> block_ranges) option" where
  "do_whole rb ok start end1 path st =
     (case malloc_range ok st (new_range start end1 True True) of
        (None, st) \<Rightarrow> Some ((None, None), st)
      | (Some new, st) \<Rightarrow> do {
          st \<leftarrow> insert_range rb (link_at path new) new st;
          create_done start end1 new new st
        })"

definition block_range__create ::
  "rb_ops \<Rightarrow> (nat \<Rightarrow> bool) \<Rightarrow> block_ranges \<Rightarrow> u64 \<Rightarrow> u64 \<Rightarrow> (block_range_iter \<times> block_ranges) option"
where
  "block_range__create rb ok st start end1 =
     (case create_loop (brs st) start None (root st) of
        (path, None, _) \<Rightarrow> do_whole rb ok start end1 path st
      | (path, Some parent, None) \<Rightarrow>
          (case (if br_end (brs st parent) < start then rb_next rb (root st) parent else Some parent) of
             None \<Rightarrow> do_whole rb ok start end1 path st
           | Some next \<Rightarrow>
               if br_start (brs st next) \<le> end1 then
                 (case malloc_range ok st (new_range start (br_start (brs st next) - 1) True False) of
                    (None, st) \<Rightarrow> Some ((None, None), st)
                  | (Some head, st) \<Rightarrow> do {
                      st \<leftarrow> insert_range rb (rb_link_left_of_node head next) head st;
                      do_tail rb ok start end1 st head
                    })
               else do_whole rb ok start end1 path st)
      | (path, Some parent, Some entry) \<Rightarrow>
          (let e = brs st entry
           in if br_start e < start then
                (case malloc_range ok st
                    ((new_range (br_start e) (start - 1) (is_target e) False)\<lparr>coverage := coverage e, br_entry := br_entry e\<rparr>) of
                   (None, st) \<Rightarrow> Some ((None, None), st)
                 | (Some head, st) \<Rightarrow> do {
                     let st = set_range entry (\<lambda>e. e\<lparr>br_start := start, is_target := True, br_entry := 0\<rparr>) st;
                     st \<leftarrow> insert_range rb (rb_link_left_of_node head entry) head st;
                     do_tail rb ok start end1 st entry
                   })
              else do_tail rb ok start end1
                (if br_start e = start then set_range entry (\<lambda>e. e\<lparr>is_target := True\<rparr>) st else st) entry))"

text \<open>The iterator of the blocks in a range.\<close>

definition block_range_iter__valid :: "block_range_iter \<Rightarrow> bool" where
  "block_range_iter__valid it \<longleftrightarrow> fst it \<noteq> None \<and> snd it \<noteq> None"

definition block_range_iter__next :: "rb_ops \<Rightarrow> block_ranges \<Rightarrow> block_range_iter \<Rightarrow> bool \<times> block_range_iter" where
  "block_range_iter__next rb st it =
     (case it of (s, e) \<Rightarrow>
        if s = e then (False, it)
        else (True, (case s of None \<Rightarrow> None | Some n \<Rightarrow> block_range__next rb st n), e))"

text \<open>
  The ratio that \<open>block_range__coverage\<close> returns as a floating point number, with the two special
  values.
\<close>

datatype br_coverage = No_Data | Not_Covered | Ratio u64 u64

definition block_range__coverage :: "(nat \<Rightarrow> u64) \<Rightarrow> block_ranges \<Rightarrow> nat option \<Rightarrow> br_coverage" where
  "block_range__coverage max_coverage st br =
     (case br of
        None \<Rightarrow> if blocks st \<noteq> 0 then Not_Covered else No_Data
      | Some n \<Rightarrow> (case br_sym (brs st n) of
          None \<Rightarrow> No_Data
        | Some sy \<Rightarrow> Ratio (coverage (brs st n)) (max_coverage sy)))"

section \<open>Counting a basic block\<close>

text \<open>The loop of \<open>process_basic_block\<close> over the iterator; the result has the last block.\<close>

partial_function (option) count_loop ::
  "rb_ops \<Rightarrow> nat option \<Rightarrow> block_range_iter \<Rightarrow> (nat \<Rightarrow> u64) \<Rightarrow> block_ranges \<Rightarrow> (nat \<times> (nat \<Rightarrow> u64) \<times> block_ranges) option"
where
  "count_loop rb sy it notes st =
     (case fst it of
        None \<Rightarrow> None
      | Some n \<Rightarrow>
          let st = set_range n (\<lambda>e. e\<lparr>coverage := coverage e + 1, br_sym := sy\<rparr>) st;
              notes = (case sy of None \<Rightarrow> notes | Some s \<Rightarrow> notes(s := max (notes s) (coverage (brs st n))))
          in case block_range_iter__next rb st it of
               (b, it) \<Rightarrow> if b then count_loop rb sy it notes st else Some (n, notes, st))"

text \<open>\<open>notes\<close> is \<open>max_coverage\<close> of the annotation of each symbol.\<close>

definition process_basic_block ::
  "rb_ops \<Rightarrow> (nat \<Rightarrow> bool) \<Rightarrow> nat option \<Rightarrow> u64 \<Rightarrow> u64 \<Rightarrow> bool \<Rightarrow> (nat \<Rightarrow> u64) \<Rightarrow> block_ranges \<Rightarrow>
    ((nat \<Rightarrow> u64) \<times> block_ranges) option"
where
  "process_basic_block rb ok sy start end1 predicted notes st =
     (if start = 0 \<or> start > end1 then Some (notes, st)
      else do {
        (it, st) \<leftarrow> block_range__create rb ok st start end1;
        if \<not> block_range_iter__valid it then Some (notes, st)
        else do {
          let s = the (fst it);
          if \<not> is_target (brs st s) then None
          else do {
            let st = set_range s (\<lambda>e. e\<lparr>br_entry := br_entry e + 1\<rparr>) st;
            (e, notes, st) \<leftarrow> count_loop rb sy it notes st;
            if \<not> is_branch (brs st e) then None
            else Some (notes, set_range e (\<lambda>b. b\<lparr>taken := taken b + 1,
                                br_pred := (if predicted then br_pred b + 1 else br_pred b)\<rparr>) st)
          }
        }
      })"

declare debug_loop.simps [code] tail_loop.simps [code] count_loop.simps [code]

section \<open>The tree\<close>

declare set_inorder [simp del]

fun first :: "'a list \<Rightarrow> 'a option" where
  "first [] = None"
| "first (x # xs) = Some x"

text \<open>What the red-black tree library promises: rebalancing keeps the order, the iterator follows it.\<close>

definition rb_law :: "rb_ops \<Rightarrow> bool" where
  "rb_law rb \<longleftrightarrow>
     (\<forall>t n. inorder (rb_insert_color rb t n) = inorder t) \<and>
     (\<forall>t. rb_first rb t = first (inorder t)) \<and>
     (\<forall>t pre n post. inorder t = pre @ n # post \<longrightarrow> distinct (inorder t) \<longrightarrow> rb_next rb t n = first post)"

lemma rb_lawD:
  assumes "rb_law rb"
  shows "inorder (rb_insert_color rb t n) = inorder t" "rb_first rb t = first (inorder t)"
    "inorder t = pre @ n # post \<Longrightarrow> distinct (inorder t) \<Longrightarrow> rb_next rb t n = first post"
  using assms unfolding rb_law_def by metis+

lemma inorder_link_rightmost [simp]: "inorder (link_rightmost new t) = inorder t @ [new]"
  by (induction t) auto

lemma inorder_link_leftmost [simp]: "inorder (link_leftmost new t) = new # inorder t"
  by (induction t) auto

definition around :: "nat \<Rightarrow> nat list \<Rightarrow> nat list \<Rightarrow> nat list" where
  "around n ys xs = concat (map (\<lambda>m. if m = n then ys else [m]) xs)"

lemma around_other: "n \<notin> set xs \<Longrightarrow> around n ys xs = xs"
  by (induction xs) (auto simp: around_def)

lemma around_at: "distinct (pre @ n # post) \<Longrightarrow> around n ys (pre @ n # post) = pre @ ys @ post"
  using around_other [of n pre ys] around_other [of n post ys] by (simp add: around_def)

lemma inorder_link_around:
  "distinct (inorder t) \<Longrightarrow> inorder (rb_link_left_of_node new n t) = around n [new, n] (inorder t)"
  "distinct (inorder t) \<Longrightarrow> inorder (rb_link_right_of_node new n t) = around n [n, new] (inorder t)"
proof (induction t)
  case (Node l m r)
  {
    case 1
    show ?case
    proof (cases "m = n")
      case True
      then show ?thesis using 1 around_at [of "inorder l" n "inorder r"] by simp
    qed (use 1 Node in \<open>simp add: around_def\<close>)
  next
    case 2
    show ?case
    proof (cases "m = n")
      case True
      then show ?thesis using 2 around_at [of "inorder l" n "inorder r"] by simp
    qed (use 2 Node in \<open>simp add: around_def\<close>)
  }
qed (simp_all add: around_def)

lemma inorder_link:
  assumes "inorder t = pre @ n # post" "distinct (inorder t)"
  shows "inorder (rb_link_left_of_node new n t) = pre @ new # n # post"
    "inorder (rb_link_right_of_node new n t) = pre @ n # new # post"
  using inorder_link_around [OF assms(2), of new n] around_at [of pre n post] assms by simp_all

section \<open>Lists of blocks\<close>

lemma word_succ:
  fixes x y :: u64
  assumes "y < z"
  shows "x < y + 1 \<longleftrightarrow> x \<le> y" "y + 1 \<le> x \<longleftrightarrow> y < x" "y < y + 1" "y + 1 - 1 = y"
proof -
  have "y \<noteq> - 1" using assms by auto
  then have "unat (y + 1) = Suc (unat y)" by (rule unat_plus_one)
  then show "x < y + 1 \<longleftrightarrow> x \<le> y" "y + 1 \<le> x \<longleftrightarrow> y < x" "y < y + 1" "y + 1 - 1 = y"
    by (auto simp: word_less_nat_alt word_le_nat_alt)
qed

lemma word_pred:
  fixes x y :: u64
  assumes "z < y"
  shows "x \<le> y - 1 \<longleftrightarrow> x < y" "y - 1 < x \<longleftrightarrow> y \<le> x" "y - 1 < y" "y - 1 + 1 = y"
proof -
  have "y \<noteq> 0" using assms by auto
  then have "unat (y - 1) = unat y - 1" "0 < unat y" by (simp_all add: unat_minus_one unat_gt_0)
  then show "x \<le> y - 1 \<longleftrightarrow> x < y" "y - 1 < x \<longleftrightarrow> y \<le> x" "y - 1 < y" "y - 1 + 1 = y"
    by (auto simp: word_less_nat_alt word_le_nat_alt)
qed

text \<open>The blocks in the order of the tree do not overlap.\<close>

definition ordered :: "block_range list \<Rightarrow> bool" where
  "ordered V \<longleftrightarrow> sorted_wrt (\<lambda>b c. br_end b < br_start c) V \<and> (\<forall>b \<in> set V. 0 < br_start b \<and> br_start b \<le> br_end b)"

lemma ordered_simps [simp]:
  "ordered []"
  "ordered (b # V) \<longleftrightarrow> 0 < br_start b \<and> br_start b \<le> br_end b \<and> (\<forall>c \<in> set V. br_end b < br_start c) \<and> ordered V"
  "ordered (V @ W) \<longleftrightarrow> ordered V \<and> ordered W \<and> (\<forall>b \<in> set V. \<forall>c \<in> set W. br_end b < br_start c)"
  by (auto simp: ordered_def sorted_wrt_append)

text \<open>What the blocks count at an address.\<close>

definition covers :: "block_range \<Rightarrow> u64 \<Rightarrow> bool" where
  "covers b x \<longleftrightarrow> br_start b \<le> x \<and> x \<le> br_end b"

definition cov_at :: "block_range list \<Rightarrow> u64 \<Rightarrow> u64" where
  "cov_at V x = (\<Sum>b\<leftarrow>V. if covers b x then coverage b else 0)"

definition entry_at :: "block_range list \<Rightarrow> u64 \<Rightarrow> u64" where
  "entry_at V x = (\<Sum>b\<leftarrow>V. if br_start b = x then br_entry b else 0)"

definition taken_at :: "block_range list \<Rightarrow> u64 \<Rightarrow> u64" where
  "taken_at V x = (\<Sum>b\<leftarrow>V. if br_end b = x then taken b else 0)"

definition pred_at :: "block_range list \<Rightarrow> u64 \<Rightarrow> u64" where
  "pred_at V x = (\<Sum>b\<leftarrow>V. if br_end b = x then br_pred b else 0)"

definition counts :: "block_range list \<Rightarrow> u64 \<Rightarrow> u64 \<times> u64 \<times> u64 \<times> u64" where
  "counts V x = (cov_at V x, entry_at V x, taken_at V x, pred_at V x)"

lemmas counts_defs = counts_def cov_at_def entry_at_def taken_at_def pred_at_def

lemma counts_context: "counts V = counts V' \<Longrightarrow> counts (A @ V @ B) = counts (A @ V' @ B)"
  by (rule ext, drule fun_cong) (simp add: counts_defs)

lemma counts_zero: "coverage b = 0 \<Longrightarrow> br_entry b = 0 \<Longrightarrow> taken b = 0 \<Longrightarrow> br_pred b = 0 \<Longrightarrow> counts [b] = counts []"
  by (rule ext) (simp add: counts_defs)

text \<open>A block and its two halves count the same.\<close>

lemma counts_split:
  assumes "br_start b1 = br_start b" "br_end b1 < br_start b2" "br_end b2 = br_end b" "br_end b1 + 1 = br_start b2"
    and "br_start b1 \<le> br_end b1" "br_start b2 \<le> br_end b2"
    and "coverage b1 = coverage b" "coverage b2 = coverage b"
    and "br_entry b1 = br_entry b" "br_entry b2 = 0" "taken b1 = 0" "taken b2 = taken b" "br_pred b1 = 0" "br_pred b2 = br_pred b"
  shows "counts [b1, b2] = counts [b]"
proof (rule ext)
  fix x
  have "covers b x \<longleftrightarrow> covers b1 x \<or> covers b2 x" "\<not> (covers b1 x \<and> covers b2 x)"
    using assms(1-3,5,6) word_succ(1) [OF assms(2), of x] assms(4) unfolding covers_def
    by (auto simp: not_le dest: le_less_trans less_le_trans)
  then show "counts [b1, b2] x = counts [b] x"
    using assms by (auto simp: counts_defs)
qed

section \<open>The invariant\<close>

abbreviation nodes_of :: "block_ranges \<Rightarrow> nat list" where
  "nodes_of st \<equiv> inorder (root st)"

abbreviation ranges :: "block_ranges \<Rightarrow> block_range list" where
  "ranges st \<equiv> map (brs st) (nodes_of st)"

definition br_ok :: "block_ranges \<Rightarrow> bool" where
  "br_ok st \<longleftrightarrow> ordered (ranges st) \<and> distinct (nodes_of st) \<and> (\<forall>n \<in> set (nodes_of st). n < nr_brs st)"

lemma debug_loop_ok:
  assumes rb: "rb_law rb" and d: "distinct (inorder t)"
  shows "inorder t = pre @ xs \<Longrightarrow> ordered (map f xs) \<Longrightarrow> \<forall>n \<in> set xs. old < br_start (f n) \<Longrightarrow>
    debug_loop rb t f old (first xs) = Some ()"
proof (induction xs arbitrary: pre old)
  case (Cons n xs)
  then have "rb_next rb t n = first xs" using rb_lawD(3) [OF rb _ d] by blast
  moreover have "debug_loop rb t f (br_end (f n)) (first xs) = Some ()"
    using Cons.IH [of "pre @ [n]" "br_end (f n)"] Cons.prems by simp
  ultimately show ?case using Cons.prems by (subst debug_loop.simps) simp
qed (simp add: debug_loop.simps)

lemma insert_range_ok:
  assumes rb: "rb_law rb" and t: "inorder (link (root st)) = xs" "distinct xs" and o: "ordered (map (brs st) xs)"
  shows "\<exists>st'. insert_range rb link new st = Some st' \<and> nodes_of st' = xs \<and> brs st' = brs st \<and>
    nr_brs st' = nr_brs st \<and> blocks st' = blocks st"
proof -
  let ?st = "st\<lparr>root := rb_insert_color rb (link (root st)) new\<rparr>"
  have i: "inorder (root ?st) = xs" using rb_lawD(1) [OF rb] t(1) by simp
  have "\<forall>n \<in> set xs. 0 < br_start (brs st n)" using o by (simp add: ordered_def)
  then have "block_range__debug rb ?st = Some ()"
    using debug_loop_ok [OF rb, of "root ?st" "[]" xs "brs st" 0] i t(2) o rb_lawD(2) [OF rb, of "root ?st"]
    by (simp add: block_range__debug_def)
  then show ?thesis using i by (simp add: insert_range_def Let_def)
qed

text \<open>The search ends at a block that contains the address, or between the blocks around it.\<close>

lemma create_loop_found:
  "create_loop f a par t = (p, q, Some n) \<Longrightarrow> n \<in> set (inorder t) \<and> q = Some n \<and> covers (f n) a"
  by (induction t arbitrary: par p) (auto simp: covers_def split: if_splits prod.splits)

lemma create_loop_missing:
  assumes "create_loop f a par t = (p, q, None)" "ordered (map f (inorder t))"
  shows "\<exists>pre post. inorder t = pre @ post \<and> (\<forall>new. inorder (link_at p new t) = pre @ new # post) \<and>
    (\<forall>n \<in> set pre. br_end (f n) < a) \<and> (\<forall>n \<in> set post. a < br_start (f n)) \<and>
    (if t = Leaf then q = par
     else pre \<noteq> [] \<and> q = Some (last pre) \<or> post \<noteq> [] \<and> q = Some (hd post))"
  using assms
proof (induction t arbitrary: par p)
  case (Node l n r)
  show ?case
  proof (cases "a < br_start (f n)")
    case True
    obtain p' where p': "create_loop f a (Some n) l = (p', q, None)" "p = False # p'"
      using Node.prems(1) True by (auto split: prod.splits)
    obtain pre post where i: "inorder l = pre @ post" "\<forall>new. inorder (link_at p' new l) = pre @ new # post"
        "\<forall>n \<in> set pre. br_end (f n) < a" "\<forall>n \<in> set post. a < br_start (f n)"
        "if l = Leaf then q = Some n else pre \<noteq> [] \<and> q = Some (last pre) \<or> post \<noteq> [] \<and> q = Some (hd post)"
      using Node.IH(1) [OF p'(1)] Node.prems(2) by auto
    have "a < br_start (f m)" if "m \<in> set (inorder r)" for m
    proof -
      have "br_end (f n) < br_start (f m)" "br_start (f n) \<le> br_end (f n)" using Node.prems(2) that by auto
      then show ?thesis using True by (meson le_less_trans less_trans)
    qed
    then show ?thesis using i True p'(2)
      by (intro exI [of _ pre] exI [of _ "post @ n # inorder r"]) (auto split: if_splits)
  next
    case False
    then have gt: "br_end (f n) < a" using Node.prems(1) by (auto split: if_splits)
    obtain p' where p': "create_loop f a (Some n) r = (p', q, None)" "p = True # p'"
      using Node.prems(1) False gt by (auto split: prod.splits)
    obtain pre post where i: "inorder r = pre @ post" "\<forall>new. inorder (link_at p' new r) = pre @ new # post"
        "\<forall>n \<in> set pre. br_end (f n) < a" "\<forall>n \<in> set post. a < br_start (f n)"
        "if r = Leaf then q = Some n else pre \<noteq> [] \<and> q = Some (last pre) \<or> post \<noteq> [] \<and> q = Some (hd post)"
      using Node.IH(2) [OF p'(1)] Node.prems(2) by auto
    have "br_end (f m) < a" if "m \<in> set (inorder l)" for m
    proof -
      have "br_end (f m) < br_start (f n)" "br_start (f n) \<le> br_end (f n)" using Node.prems(2) that by auto
      then show ?thesis using gt by (meson le_less_trans less_trans)
    qed
    then show ?thesis using i False gt p'(2)
      by (intro exI [of _ "inorder l @ n # pre"] exI [of _ post]) (auto split: if_splits)
  qed
qed simp

section \<open>Creating a range\<close>

text \<open>A new block is linked between others.\<close>

lemma insert_new:
  assumes rb: "rb_law rb" and ok: "br_ok st" and new: "new = nr_brs st"
    and st1: "nr_brs st1 = Suc (nr_brs st)" "root st1 = root st" "blocks st1 = blocks st"
    and ab: "nodes_of st = A @ B" "inorder (link (root st)) = A @ new # B"
    and o: "ordered (map (brs st1) (A @ new # B))"
  shows "\<exists>st2. insert_range rb link new st1 = Some st2 \<and> br_ok st2 \<and> nodes_of st2 = A @ new # B \<and>
    brs st2 = brs st1 \<and> blocks st2 = blocks st"
proof -
  have lt: "\<forall>n \<in> set (A @ B). n < nr_brs st" and d: "distinct (A @ B)" using ok ab(1) by (auto simp: br_ok_def)
  then have "distinct (A @ new # B)" using new by auto
  then obtain st2 where "insert_range rb link new st1 = Some st2" "nodes_of st2 = A @ new # B" "brs st2 = brs st1"
      "nr_brs st2 = nr_brs st1" "blocks st2 = blocks st1"
    using insert_range_ok [OF rb, of link st1 "A @ new # B" new] ab(2) st1(2) o by auto
  then show ?thesis using o lt st1(1,3) new \<open>distinct (A @ new # B)\<close> by (auto simp: br_ok_def less_Suc_eq)
qed

lemma malloc_range_Some:
  assumes "malloc_range ok st b = (Some new, st1)"
  shows "new = nr_brs st" "nr_brs st1 = Suc (nr_brs st)" "root st1 = root st" "blocks st1 = blocks st"
    "brs st1 = (brs st)(new := b)"
  using assms by (auto simp: malloc_range_def split: if_splits)

lemma malloc_range_None:
  assumes "malloc_range ok st b = (None, st1)"
  shows "br_ok st1 \<longleftrightarrow> br_ok st" "ranges st1 = ranges st" "blocks st1 = blocks st" "\<not> All ok"
  using assms by (auto simp: malloc_range_def br_ok_def split: if_splits)

lemma set_range_simps [simp]:
  "root (set_range n g st) = root st" "blocks (set_range n g st) = blocks st" "nr_brs (set_range n g st) = nr_brs st"
  "brs (set_range n g st) = (brs st)(n := g (brs st n))"
  by (simp_all add: set_range_def)

text \<open>The blocks \<open>mid\<close> follow each other without a gap, from \<open>s\<close> to \<open>e\<close>.\<close>

definition spans :: "block_ranges \<Rightarrow> nat list \<Rightarrow> nat list \<Rightarrow> nat list \<Rightarrow> u64 \<Rightarrow> u64 \<Rightarrow> bool" where
  "spans st pre mid post s e \<longleftrightarrow> nodes_of st = pre @ mid @ post \<and> mid \<noteq> [] \<and>
     successively (\<lambda>m n. br_end (brs st m) + 1 = br_start (brs st n)) mid \<and>
     br_start (brs st (hd mid)) = s \<and> br_end (brs st (last mid)) = e \<and> is_target (brs st (hd mid))"

lemma successively_upd:
  "successively (\<lambda>m n. f m = g n) xs \<Longrightarrow> \<forall>n \<in> set xs. g' n = g n \<Longrightarrow> \<forall>n \<in> set (butlast xs). f' n = f n \<Longrightarrow>
    successively (\<lambda>m n. f' m = g' n) xs"
  by (induction xs rule: induct_list012) auto

lemma spans_upd:
  assumes "spans st pre (m0 @ [e]) post s x" "nodes_of st2 = pre @ m0 @ e # post2"
    and "\<And>n. n \<in> set m0 \<Longrightarrow> brs st2 n = brs st n"
    and "br_start (brs st2 e) = br_start (brs st e)" "is_target (brs st e) \<Longrightarrow> is_target (brs st2 e)"
  shows "spans st2 pre (m0 @ [e]) post2 s (br_end (brs st2 e))"
proof -
  have "successively (\<lambda>m n. br_end (brs st2 m) + 1 = br_start (brs st2 n)) (m0 @ [e])"
    by (rule successively_upd [of "\<lambda>m. br_end (brs st m) + 1" "\<lambda>n. br_start (brs st n)"])
      (use assms in \<open>auto simp: spans_def\<close>)
  then show ?thesis using assms by (cases m0) (simp_all add: spans_def)
qed

lemma spans_snoc:
  "spans st pre mid (n # post) s e \<Longrightarrow> e + 1 = br_start (brs st n) \<Longrightarrow> spans st pre (mid @ [n]) post s (br_end (brs st n))"
  by (auto simp: spans_def successively_append_iff)

definition tail_done :: "(nat \<Rightarrow> bool) \<Rightarrow> block_ranges \<Rightarrow> nat \<Rightarrow> u64 \<Rightarrow> u64 \<Rightarrow> nat option \<Rightarrow> block_ranges \<Rightarrow> bool" where
  "tail_done aok st s start end1 r st' \<longleftrightarrow> br_ok st' \<and> counts (ranges st') = counts (ranges st) \<and> blocks st' = blocks st \<and>
     (case r of
        None \<Rightarrow> \<not> (\<forall>n. aok n)
      | Some e \<Rightarrow> \<exists>pre mid post. spans st' pre mid post start end1 \<and> hd mid = s \<and> last mid = e \<and> is_branch (brs st' e))"

lemma tail_doneI:
  "br_ok st' \<Longrightarrow> counts (ranges st') = counts (ranges st) \<Longrightarrow> blocks st' = blocks st \<Longrightarrow>
    spans st' pre mid post start end1 \<Longrightarrow> hd mid = s \<Longrightarrow> last mid = e \<Longrightarrow> is_branch (brs st' e) \<Longrightarrow>
    tail_done aok st s start end1 (Some e) st'"
  unfolding tail_done_def by (simp, blast)

lemma tail_done_oom:
  "malloc_range aok st b = (None, st1) \<Longrightarrow> br_ok st \<Longrightarrow> tail_done aok st s start end1 None st1"
  by (simp add: tail_done_def malloc_range_None)

lemma tail_done_trans:
  "tail_done aok st2 s start end1 r st' \<Longrightarrow> counts (ranges st2) = counts (ranges st) \<Longrightarrow> blocks st2 = blocks st \<Longrightarrow>
    tail_done aok st s start end1 r st'"
  by (simp add: tail_done_def)

lemma hd_prefix: "hd ((m0 @ [e]) @ ys) = hd (m0 @ [e])"
  by (cases m0) simp_all

lemma tail_split:
  assumes rb: "rb_law rb" and ok: "br_ok st" and sp: "spans st pre (m0 @ [e]) rest start end0"
    and le: "br_start (brs st e) \<le> end1" "end1 < end0"
  shows "\<exists>r st'. tail_loop rb aok end1 st e = Some (r, st') \<and> tail_done aok st (hd (m0 @ [e])) start end1 r st'"
proof -
  let ?b = "(new_range (end1 + 1) end0 False (is_branch (brs st e)))
     \<lparr>coverage := coverage (brs st e), taken := taken (brs st e), br_pred := br_pred (brs st e)\<rparr>"
  have end0: "br_end (brs st e) = end0" using sp by (simp add: spans_def)
  obtain x st1 where ml: "malloc_range aok st ?b = (x, st1)" by force
  show ?thesis
  proof (cases x)
    case None
    then have "tail_loop rb aok end1 st e = Some (None, st1)"
      using ml le(2) end0 by (subst tail_loop.simps) (simp add: Let_def)
    then show ?thesis using tail_done_oom [OF ml [unfolded None] ok] by blast
  next
    case (Some new)
    let ?g = "\<lambda>e. e\<lparr>br_end := end1, is_branch := True, taken := 0, br_pred := 0\<rparr>"
    let ?st = "set_range e ?g st1"
    note m = malloc_range_Some [OF ml [unfolded Some]]
    have ab: "nodes_of st = (pre @ m0 @ [e]) @ rest" using sp by (simp add: spans_def)
    have d: "distinct (nodes_of st)" "\<forall>n \<in> set (nodes_of st). n < nr_brs st" "ordered (ranges st)"
      using ok by (simp_all add: br_ok_def)
    have n: "new \<notin> set (nodes_of st)" "new \<noteq> e" using d(2) ab m(1) by auto
    have ml': "map (brs ?st) ((pre @ m0 @ [e]) @ new # rest) =
        (map (brs st) pre @ map (brs st) m0) @ [?g (brs st e), ?b] @ map (brs st) rest"
      using d(1) ab n by (simp add: m(5))
    have V: "ranges st = (map (brs st) pre @ map (brs st) m0) @ [brs st e] @ map (brs st) rest" by (simp add: ab)
    note s = word_succ [OF le(2)]
    have o: "ordered (map (brs ?st) ((pre @ m0 @ [e]) @ new # rest))"
      unfolding ml' using d(3) le s end0 unfolding V by (auto simp: new_range_def dest: less_trans)
    have c: "counts [?g (brs st e), ?b] = counts [brs st e]"
      by (rule counts_split) (use le s end0 in \<open>auto simp: new_range_def\<close>)
    obtain st2 where st2: "insert_range rb (rb_link_right_of_node new e) new ?st = Some st2" "br_ok st2"
        "nodes_of st2 = (pre @ m0 @ [e]) @ new # rest" "brs st2 = brs ?st" "blocks st2 = blocks st"
      using insert_new [OF rb ok m(1), of ?st "pre @ m0 @ [e]" rest "rb_link_right_of_node new e"] m(2-4) ab o
        inorder_link(2) [of "root st" "pre @ m0" e rest new] d(1) by auto
    have "tail_loop rb aok end1 st e = Some (Some e, st2)"
      using ml Some le(2) end0 st2(1) by (subst tail_loop.simps) (simp add: Let_def)
    moreover have "counts (ranges st2) = counts (ranges st)"
      using counts_context [OF c] ml' V st2(3,4) by metis
    moreover have "spans st2 pre (m0 @ [e]) (new # rest) start end1"
    proof -
      have "brs st2 k = brs st k" if "k \<in> set m0" for k using that st2(4) n d(1) ab m(5) by auto
      then show ?thesis using spans_upd [OF sp, of st2 "new # rest"] st2(3,4) n(2) m(5) by simp
    qed
    moreover have "is_branch (brs st2 e)" using st2(4) by simp
    ultimately show ?thesis using tail_doneI [OF st2(2) _ st2(5)] by force
  qed
qed

text \<open>Appending a new block behind the last one of the range.\<close>

lemma tail_append:
  assumes rb: "rb_law rb" and ok: "br_ok st" and sp: "spans st pre (m0 @ [e]) rest start end0"
    and ml: "malloc_range aok st (new_range (end0 + 1) x False b) = (Some new, st1)"
    and x: "end0 < x" "\<forall>c \<in> set rest. x < br_start (brs st c)"
    and link: "inorder (link (root st)) = (pre @ m0 @ [e]) @ new # rest"
  shows "\<exists>st2. insert_range rb link new st1 = Some st2 \<and> br_ok st2 \<and> counts (ranges st2) = counts (ranges st) \<and>
    blocks st2 = blocks st \<and> spans st2 pre ((m0 @ [e]) @ [new]) rest start x \<and> is_branch (brs st2 new) = b \<and>
    (\<forall>n \<in> set (nodes_of st). brs st2 n = brs st n)"
proof -
  note m = malloc_range_Some [OF ml]
  have ab: "nodes_of st = (pre @ m0 @ [e]) @ rest" and end0: "br_end (brs st e) = end0" using sp by (simp_all add: spans_def)
  have d: "distinct (nodes_of st)" "\<forall>n \<in> set (nodes_of st). n < nr_brs st" "ordered (ranges st)"
    using ok by (simp_all add: br_ok_def)
  have n: "new \<notin> set (nodes_of st)" using d(2) m(1) by auto
  have ml': "map (brs st1) ((pre @ m0 @ [e]) @ new # rest) =
      (map (brs st) pre @ map (brs st) m0 @ [brs st e]) @ [new_range (end0 + 1) x False b] @ map (brs st) rest"
    using n ab by (simp add: m(5))
  have V: "ranges st = (map (brs st) pre @ map (brs st) m0 @ [brs st e]) @ [] @ map (brs st) rest" by (simp add: ab)
  note s = word_succ [OF x(1)]
  have o: "ordered (map (brs st1) ((pre @ m0 @ [e]) @ new # rest))"
    unfolding ml' using d(3) x s end0 unfolding V by (auto simp: new_range_def dest: less_trans)
  obtain st2 where st2: "insert_range rb link new st1 = Some st2" "br_ok st2"
      "nodes_of st2 = (pre @ m0 @ [e]) @ new # rest" "brs st2 = brs st1" "blocks st2 = blocks st"
    using insert_new [OF rb ok m(1-4), of "pre @ m0 @ [e]" rest link] ab link o by blast
  moreover have "counts (ranges st2) = counts (ranges st)"
  proof -
    have "counts [new_range (end0 + 1) x False b] = counts []" by (rule counts_zero) (simp_all add: new_range_def)
    then show ?thesis using counts_context ml' V st2(3,4) by metis
  qed
  moreover have "spans st2 pre ((m0 @ [e]) @ [new]) rest start x"
  proof -
    have same: "brs st2 k = brs st k" if "k \<in> set (m0 @ [e])" for k using that st2(4) n ab m(5) by auto
    then have "spans st2 pre (m0 @ [e]) (new # rest) start end0"
      using spans_upd [OF sp, of st2 "new # rest"] st2(3) end0 by simp
    then show ?thesis using spans_snoc [of st2 pre "m0 @ [e]" new rest start end0] st2(4) m(5) by (simp add: new_range_def)
  qed
  ultimately show ?thesis using n m(5) by (auto simp: new_range_def)
qed

lemma flag_ok:
  assumes "\<And>b. br_start (g b) = br_start b" "\<And>b. br_end (g b) = br_end b" "\<And>b. coverage (g b) = coverage b"
    "\<And>b. br_entry (g b) = br_entry b" "\<And>b. taken (g b) = taken b" "\<And>b. br_pred (g b) = br_pred b"
  shows "br_ok (set_range n g st) \<longleftrightarrow> br_ok st" "counts (ranges (set_range n g st)) = counts (ranges st)"
proof -
  define f where "f = brs (set_range n g st)"
  have f: "br_start (f m) = br_start (brs st m)" "br_end (f m) = br_end (brs st m)"
    "coverage (f m) = coverage (brs st m)" "br_entry (f m) = br_entry (brs st m)" "taken (f m) = taken (brs st m)"
    "br_pred (f m) = br_pred (brs st m)" for m
    using assms by (simp_all add: f_def)
  have "ordered (map f xs) \<longleftrightarrow> ordered (map (brs st) xs)" "counts (map f xs) = counts (map (brs st) xs)" for xs
    by (simp_all add: fun_eq_iff ordered_def sorted_wrt_map counts_defs covers_def comp_def f cong: if_cong)
  then show "br_ok (set_range n g st) \<longleftrightarrow> br_ok st" "counts (ranges (set_range n g st)) = counts (ranges st)"
    by (simp_all add: br_ok_def f_def)
qed

lemma tail_match:
  assumes ok: "br_ok st" and sp: "spans st pre (m0 @ [e]) rest start end1"
  shows "tail_loop rb aok end1 st e = Some (Some e, set_range e (\<lambda>e. e\<lparr>is_branch := True\<rparr>) st)"
    "tail_done aok st (hd (m0 @ [e])) start end1 (Some e) (set_range e (\<lambda>e. e\<lparr>is_branch := True\<rparr>) st)"
proof -
  have e: "br_end (brs st e) = end1" "nodes_of st = pre @ m0 @ e # rest" using sp by (simp_all add: spans_def)
  show "tail_loop rb aok end1 st e = Some (Some e, set_range e (\<lambda>e. e\<lparr>is_branch := True\<rparr>) st)"
    using e by (subst tail_loop.simps) (simp add: Let_def)
  let ?st = "set_range e (\<lambda>e. e\<lparr>is_branch := True\<rparr>) st"
  have "e \<notin> set m0" using ok e(2) by (simp add: br_ok_def)
  then have "spans ?st pre (m0 @ [e]) rest start (br_end (brs ?st e))"
    by (intro spans_upd [OF sp]) (use e(2) in auto)
  moreover have "br_ok ?st" "counts (ranges ?st) = counts (ranges st)"
    using flag_ok [of "\<lambda>e. e\<lparr>is_branch := True\<rparr>" e st] ok by simp_all
  ultimately show "tail_done aok st (hd (m0 @ [e])) start end1 (Some e) ?st"
    by (intro tail_doneI [where mid = "m0 @ [e]" and pre = pre and post = rest]) (simp_all add: e(1))
qed

lemma tail_add:
  assumes rb: "rb_law rb" and ok: "br_ok st" and sp: "spans st pre (m0 @ [e]) rest start end0"
    and gt: "end0 < end1" "\<forall>c \<in> set rest. end1 < br_start (brs st c)"
  shows "\<exists>r st'. tail_loop rb aok end1 st e = Some (r, st') \<and> tail_done aok st (hd (m0 @ [e])) start end1 r st'"
proof -
  have e: "br_end (brs st e) = end0" "nodes_of st = (pre @ m0) @ e # rest" "distinct (nodes_of st)"
    using sp ok by (simp_all add: spans_def br_ok_def)
  have nx: "block_range__next rb st e = first rest"
    using rb_lawD(3) [OF rb e(2,3)] by (simp add: block_range__next_def)
  have g: "(case first rest of None \<Rightarrow> True | Some next \<Rightarrow> end1 < br_start (brs st next))"
    using gt(2) by (cases rest) simp_all
  obtain x st1 where ml: "malloc_range aok st (new_range (end0 + 1) end1 False True) = (x, st1)" by force
  have l: "tail_loop rb aok end1 st e = (case x of None \<Rightarrow> Some (None, st1)
      | Some new \<Rightarrow> do { st2 \<leftarrow> insert_range rb (rb_link_right_of_node new e) new st1; Some (Some new, st2) })"
  proof -
    have "\<not> end1 < end0" "end1 \<noteq> end0" using gt(1) by auto
    then show ?thesis using ml g by (subst tail_loop.simps) (simp add: Let_def e(1) nx split: option.split)
  qed
  show ?thesis
  proof (cases x)
    case None
    then show ?thesis using l tail_done_oom [OF ml [unfolded None] ok] by simp
  next
    case (Some new)
    have "inorder (rb_link_right_of_node new e (root st)) = (pre @ m0 @ [e]) @ new # rest"
      using inorder_link(2) [OF e(2,3)] by simp
    then obtain st2 where st2: "insert_range rb (rb_link_right_of_node new e) new st1 = Some st2" "br_ok st2"
        "counts (ranges st2) = counts (ranges st)" "blocks st2 = blocks st"
        "spans st2 pre ((m0 @ [e]) @ [new]) rest start end1" "is_branch (brs st2 new)"
      using tail_append [OF rb ok sp ml [unfolded Some] gt, of "rb_link_right_of_node new e"] by blast
    then show ?thesis using l Some tail_doneI [OF st2(2-5) hd_prefix last_snoc st2(6)] by simp
  qed
qed

lemma tail_loop_spec:
  assumes rb: "rb_law rb"
  shows "br_ok st \<Longrightarrow> spans st pre (m0 @ [e]) rest start end0 \<Longrightarrow> br_start (brs st e) \<le> end1 \<Longrightarrow>
    \<exists>r st'. tail_loop rb aok end1 st e = Some (r, st') \<and> tail_done aok st (hd (m0 @ [e])) start end1 r st'"
proof (induction rest arbitrary: st m0 e end0)
  case Nil
  then show ?case
    using tail_split [OF rb Nil(1,2,3)] tail_match [OF Nil(1)] tail_add [OF rb Nil(1,2)]
    by (cases end1 end0 rule: linorder_cases) (simp, blast, simp)
next
  case (Cons nx rest)
  note ok = Cons.prems(1) and sp = Cons.prems(2)
  have e: "br_end (brs st e) = end0" "nodes_of st = (pre @ m0) @ e # nx # rest" "distinct (nodes_of st)" "ordered (ranges st)"
    using sp ok by (simp_all add: spans_def br_ok_def)
  have nx: "block_range__next rb st e = Some nx"
    using rb_lawD(3) [OF rb e(2,3)] by (simp add: block_range__next_def)
  have o: "end0 < br_start (brs st nx)" "br_start (brs st nx) \<le> br_end (brs st nx)"
      "\<forall>c \<in> set rest. br_end (brs st nx) < br_start (brs st c)"
    using e(4) by (simp_all add: e(1,2))
  show ?case
  proof (cases "end0 < end1 \<and> br_start (brs st nx) \<le> end1")
    case False
    then consider "end1 < end0" | "end1 = end0" | "end0 < end1" "end1 < br_start (brs st nx)"
      by (metis linorder_cases not_le)
    then show ?thesis
    proof cases
      case 3
      then have "\<forall>c \<in> set (nx # rest). end1 < br_start (brs st c)"
        using o by (auto dest: less_le_trans less_trans)
      then show ?thesis using tail_add [OF rb ok sp 3(1)] by blast
    qed (use tail_split [OF rb ok sp Cons.prems(3)] tail_match [OF ok] sp in blast)+
  next
    case True
    then have g: "\<not> end1 < end0" "end1 \<noteq> end0" "\<not> end1 < br_start (brs st nx)" by (auto simp: not_less)
    show ?thesis
    proof (cases "end0 + 1 = br_start (brs st nx)")
      case eq: True
      then have "tail_loop rb aok end1 st e = tail_loop rb aok end1 st nx"
        using g by (subst tail_loop.simps) (simp add: Let_def e(1) nx)
      moreover have "spans st pre ((m0 @ [e]) @ [nx]) rest start (br_end (brs st nx))"
        using spans_snoc [OF sp] eq by simp
      ultimately show ?thesis using Cons.IH [OF ok, of "m0 @ [e]" nx] True unfolding hd_prefix by metis
    next
      case ne: False
      let ?x = "br_start (brs st nx) - 1"
      obtain x st1 where ml: "malloc_range aok st (new_range (end0 + 1) ?x False False) = (x, st1)" by force
      have l: "tail_loop rb aok end1 st e = (case x of None \<Rightarrow> Some (None, st1)
          | Some new \<Rightarrow> do { st2 \<leftarrow> insert_range rb (rb_link_left_of_node new nx) new st1; tail_loop rb aok end1 st2 nx })"
        using g ml ne by (subst tail_loop.simps) (simp add: Let_def e(1) nx split: option.split)
      show ?thesis
      proof (cases x)
        case None
        then show ?thesis using l tail_done_oom [OF ml [unfolded None] ok] by simp
      next
        case (Some new)
        note wp = word_pred [OF o(1)]
        have "end0 < ?x" using o(1) ne wp(4) word_succ(2) [OF o(1), of "br_start (brs st nx)"] wp(1) [of "end0 + 1"]
          by (metis wp(1) order_le_imp_less_or_eq)
        moreover have "\<forall>c \<in> set (nx # rest). ?x < br_start (brs st c)"
          using o wp(3) by (auto dest: less_le_trans less_trans)
        moreover have "inorder (rb_link_left_of_node new nx (root st)) = (pre @ m0 @ [e]) @ new # nx # rest"
          using inorder_link(1) [of "root st" "pre @ m0 @ [e]" nx rest new] e(2,3) by simp
        ultimately obtain st2 where st2: "insert_range rb (rb_link_left_of_node new nx) new st1 = Some st2" "br_ok st2"
            "counts (ranges st2) = counts (ranges st)" "blocks st2 = blocks st"
            "spans st2 pre ((m0 @ [e]) @ [new]) (nx # rest) start ?x" "brs st2 nx = brs st nx"
          using tail_append [OF rb ok sp ml [unfolded Some], of "rb_link_left_of_node new nx"] e(2) by auto
        have "spans st2 pre (((m0 @ [e]) @ [new]) @ [nx]) rest start (br_end (brs st2 nx))"
          using spans_snoc [OF st2(5)] st2(6) wp(4) by simp
        from Cons.IH [OF st2(2) this] obtain r st' where r: "tail_loop rb aok end1 st2 nx = Some (r, st')"
            "tail_done aok st2 (hd (m0 @ [e])) start end1 r st'"
          using True st2(6) hd_prefix [of m0 e "[new, nx]"] by auto
        show ?thesis using l Some st2(1) r(1) tail_done_trans [OF r(2) st2(3,4)] by simp
      qed
    qed
  qed
qed

text \<open>
  What \<open>block_range__create\<close> achieves: the invariant and all counts are kept, and a valid iterator
  delimits blocks that span the range precisely.
\<close>

definition created :: "(nat \<Rightarrow> bool) \<Rightarrow> block_ranges \<Rightarrow> u64 \<Rightarrow> u64 \<Rightarrow> block_range_iter \<Rightarrow> block_ranges \<Rightarrow> bool" where
  "created aok st start end1 it st' \<longleftrightarrow> br_ok st' \<and> counts (ranges st') = counts (ranges st) \<and>
     ((\<forall>n. aok n) \<longrightarrow> block_range_iter__valid it) \<and>
     (block_range_iter__valid it \<longrightarrow> blocks st' = blocks st + 1 \<and>
        (\<exists>pre mid post. spans st' pre mid post start end1 \<and> it = (Some (hd mid), Some (last mid)) \<and>
           is_branch (brs st' (last mid))))"

lemma created_oom:
  "malloc_range aok st b = (None, st1) \<Longrightarrow> br_ok st \<Longrightarrow> created aok st start end1 (None, None) st1"
  by (simp add: created_def block_range_iter__valid_def malloc_range_None)

lemma create_done_spec:
  assumes "br_ok st" "spans st pre mid post start end1" "is_branch (brs st (last mid))"
  shows "\<exists>it st'. create_done start end1 (hd mid) (last mid) st = Some (it, st') \<and> created aok st start end1 it st'"
proof -
  let ?st = "st\<lparr>blocks := blocks st + 1\<rparr>"
  have "create_done start end1 (hd mid) (last mid) st = Some ((Some (hd mid), Some (last mid)), ?st)"
    using assms by (simp add: create_done_def spans_def)
  moreover have "spans ?st pre mid post start end1" "br_ok ?st"
    using assms(1,2) by (simp_all add: spans_def br_ok_def)
  ultimately have "created aok st start end1 (Some (hd mid), Some (last mid)) ?st"
    using assms(3) by (simp add: created_def block_range_iter__valid_def) blast
  then show ?thesis using \<open>create_done start end1 (hd mid) (last mid) st = _\<close> by blast
qed

lemma created_trans:
  "created aok st2 start end1 it st' \<Longrightarrow> counts (ranges st2) = counts (ranges st) \<Longrightarrow> blocks st2 = blocks st \<Longrightarrow>
    created aok st start end1 it st'"
  by (simp add: created_def)

lemma do_tail_spec:
  assumes "rb_law rb" "br_ok st" "spans st pre [s] rest start end0" "start \<le> end1"
  shows "\<exists>it st'. do_tail rb aok start end1 st s = Some (it, st') \<and> created aok st start end1 it st'"
proof -
  have "br_start (brs st s) \<le> end1" using assms(3,4) by (simp add: spans_def)
  then obtain r st1 where r: "tail_loop rb aok end1 st s = Some (r, st1)" "tail_done aok st s start end1 r st1"
    using tail_loop_spec [OF assms(1,2), of pre "[]" s rest start end0 end1 aok] assms(3) by auto
  show ?thesis
  proof (cases r)
    case None
    then show ?thesis using r by (auto simp: do_tail_def tail_done_def created_def block_range_iter__valid_def)
  next
    case (Some e)
    then obtain pre mid post where sp: "spans st1 pre mid post start end1" "hd mid = s" "last mid = e" "is_branch (brs st1 e)"
      using r(2) by (auto simp: tail_done_def)
    then obtain it st' where "create_done start end1 s e st1 = Some (it, st')" "created aok st1 start end1 it st'"
      using create_done_spec [of st1 pre mid post start end1 aok] r(2) by (auto simp: tail_done_def)
    moreover have "created aok st start end1 it st'"
      using created_trans [OF calculation(2)] r(2) by (simp add: tail_done_def)
    ultimately show ?thesis using r(1) Some by (simp add: do_tail_def)
  qed
qed

text \<open>A new block in a gap.\<close>

lemma fresh_block:
  assumes rb: "rb_law rb" and ok: "br_ok st" and ml: "malloc_range aok st (new_range s x t b) = (Some new, st1)"
    and ab: "nodes_of st = A @ B" "inorder (link (root st)) = A @ new # B"
    and o: "\<forall>n \<in> set A. br_end (brs st n) < s" "0 < s" "s \<le> x" "\<forall>n \<in> set B. x < br_start (brs st n)"
  shows "\<exists>st2. insert_range rb link new st1 = Some st2 \<and> br_ok st2 \<and> counts (ranges st2) = counts (ranges st) \<and>
    blocks st2 = blocks st \<and> nodes_of st2 = A @ new # B \<and> brs st2 new = new_range s x t b"
proof -
  note m = malloc_range_Some [OF ml]
  have n: "new \<notin> set (nodes_of st)" and od: "ordered (ranges st)" using ok m(1) by (auto simp: br_ok_def)
  have ml': "map (brs st1) (A @ new # B) = map (brs st) A @ [new_range s x t b] @ map (brs st) B"
    using n ab by (simp add: m(5))
  have V: "ranges st = map (brs st) A @ [] @ map (brs st) B" by (simp add: ab)
  have "ordered (map (brs st1) (A @ new # B))"
    unfolding ml' using od o unfolding V by (auto simp: new_range_def)
  then obtain st2 where st2: "insert_range rb link new st1 = Some st2" "br_ok st2" "nodes_of st2 = A @ new # B"
      "brs st2 = brs st1" "blocks st2 = blocks st"
    using insert_new [OF rb ok m(1-4), of A B link] ab by blast
  have "counts [new_range s x t b] = counts []" by (rule counts_zero) (simp_all add: new_range_def)
  then have "counts (ranges st2) = counts (ranges st)" using counts_context ml' V st2(3,4) by metis
  then show ?thesis using st2 m(5) by simp
qed

lemma do_whole_spec:
  assumes rb: "rb_law rb" and ok: "br_ok st"
    and ab: "nodes_of st = A @ B" "\<And>new. inorder (link_at path new (root st)) = A @ new # B"
    and o: "\<forall>n \<in> set A. br_end (brs st n) < start" "0 < start" "start \<le> end1" "\<forall>n \<in> set B. end1 < br_start (brs st n)"
  shows "\<exists>it st'. do_whole rb aok start end1 path st = Some (it, st') \<and> created aok st start end1 it st'"
proof -
  obtain x st1 where ml: "malloc_range aok st (new_range start end1 True True) = (x, st1)" by force
  show ?thesis
  proof (cases x)
    case None
    then show ?thesis using ml created_oom [OF ml [unfolded None] ok] by (simp add: do_whole_def)
  next
    case (Some new)
    obtain st2 where st2: "insert_range rb (link_at path new) new st1 = Some st2" "br_ok st2"
        "counts (ranges st2) = counts (ranges st)" "blocks st2 = blocks st" "nodes_of st2 = A @ new # B"
        "brs st2 new = new_range start end1 True True"
      using fresh_block [OF rb ok ml [unfolded Some] ab(1), of "link_at path new"] ab(2) o by blast
    have "spans st2 A [new] B start end1" using st2(5,6) by (simp add: spans_def new_range_def)
    then obtain it st' where c: "create_done start end1 new new st2 = Some (it, st')" "created aok st2 start end1 it st'"
      using create_done_spec [OF st2(2), of A "[new]" B start end1 aok] st2(6) by (auto simp: new_range_def)
    have "created aok st start end1 it st'" by (rule created_trans [OF c(2) st2(3,4)])
    then show ?thesis using st2(1) ml Some c(1) by (simp add: do_whole_def)
  qed
qed

text \<open>The block that contains the start is split there.\<close>

lemma head_split:
  assumes rb: "rb_law rb" and ok: "br_ok st" and n: "nodes_of st = A @ n # B"
    and c: "br_start (brs st n) < start" "start \<le> br_end (brs st n)"
    and ml: "malloc_range aok st ((new_range (br_start (brs st n)) (start - 1) (is_target (brs st n)) False)
          \<lparr>coverage := coverage (brs st n), br_entry := br_entry (brs st n)\<rparr>) = (Some new, st1)"
  shows "\<exists>st2. insert_range rb (rb_link_left_of_node new n) new
      (set_range n (\<lambda>e. e\<lparr>br_start := start, is_target := True, br_entry := 0\<rparr>) st1) = Some st2 \<and>
    br_ok st2 \<and> counts (ranges st2) = counts (ranges st) \<and> blocks st2 = blocks st \<and>
    spans st2 (A @ [new]) [n] B start (br_end (brs st n))"
proof -
  let ?b = "(new_range (br_start (brs st n)) (start - 1) (is_target (brs st n)) False)
          \<lparr>coverage := coverage (brs st n), br_entry := br_entry (brs st n)\<rparr>"
  let ?g = "\<lambda>e. e\<lparr>br_start := start, is_target := True, br_entry := 0\<rparr>"
  let ?st = "set_range n ?g st1"
  note m = malloc_range_Some [OF ml]
  have d: "distinct (nodes_of st)" and nn: "new \<notin> set (nodes_of st)" and od: "ordered (ranges st)"
    using ok m(1) by (auto simp: br_ok_def)
  have ml': "map (brs ?st) (A @ new # n # B) = map (brs st) A @ [?b, ?g (brs st n)] @ map (brs st) B"
    using nn d by (simp add: n m(5))
  have V: "ranges st = map (brs st) A @ [brs st n] @ map (brs st) B" by (simp add: n)
  note w = word_pred [OF c(1)]
  have o: "ordered (map (brs ?st) (A @ new # n # B))"
    unfolding ml' using od c w unfolding V by (auto simp: new_range_def dest: less_trans)
  have "\<exists>st2. insert_range rb (rb_link_left_of_node new n) new ?st = Some st2 \<and> br_ok st2 \<and>
      nodes_of st2 = A @ new # n # B \<and> brs st2 = brs ?st \<and> blocks st2 = blocks st"
    by (rule insert_new [OF rb ok m(1)]) (use m(2-4) n o inorder_link(1) [OF n d, of new] in simp_all)
  then obtain st2 where st2: "insert_range rb (rb_link_left_of_node new n) new ?st = Some st2" "br_ok st2"
      "nodes_of st2 = A @ new # n # B" "brs st2 = brs ?st" "blocks st2 = blocks st"
    by blast
  have "counts [?b, ?g (brs st n)] = counts [brs st n]"
    by (rule counts_split) (use c w in \<open>auto simp: new_range_def\<close>)
  then have "counts (ranges st2) = counts (ranges st)"
    unfolding st2(3,4) ml' V by (rule counts_context)
  moreover have "spans st2 (A @ [new]) [n] B start (br_end (brs st n))"
    using st2(3,4) m(5) nn n by (auto simp: spans_def)
  ultimately show ?thesis using st2 by blast
qed

lemma create_spec:
  assumes rb: "rb_law rb" and ok: "br_ok st" and s: "0 < start" "start \<le> end1"
  shows "\<exists>it st'. block_range__create rb aok st start end1 = Some (it, st') \<and> created aok st start end1 it st'"
proof -
  obtain path q fnd where cl: "create_loop (brs st) start None (root st) = (path, q, fnd)" by (metis prod_cases3)
  have d: "distinct (nodes_of st)" and od: "ordered (ranges st)" using ok by (simp_all add: br_ok_def)
  show ?thesis
  proof (cases fnd)
    case (Some n)
    then have f: "n \<in> set (nodes_of st)" "q = Some n" "br_start (brs st n) \<le> start" "start \<le> br_end (brs st n)"
      using create_loop_found [of "brs st" start None "root st" path q n] cl by (auto simp: covers_def)
    obtain A B where n: "nodes_of st = A @ n # B" using f(1) by (metis split_list)
    show ?thesis
    proof (cases "br_start (brs st n) < start")
      case lt: True
      obtain x st1 where ml: "malloc_range aok st ((new_range (br_start (brs st n)) (start - 1) (is_target (brs st n)) False)
          \<lparr>coverage := coverage (brs st n), br_entry := br_entry (brs st n)\<rparr>) = (x, st1)" by force
      show ?thesis
      proof (cases x)
        case None
        then show ?thesis using cl Some f(2) lt ml created_oom [OF ml [unfolded None] ok]
          by (simp add: block_range__create_def Let_def)
      next
        case (Some new)
        obtain st2 where st2: "insert_range rb (rb_link_left_of_node new n) new
            (set_range n (\<lambda>e. e\<lparr>br_start := start, is_target := True, br_entry := 0\<rparr>) st1) = Some st2" "br_ok st2"
            "counts (ranges st2) = counts (ranges st)" "blocks st2 = blocks st"
            "spans st2 (A @ [new]) [n] B start (br_end (brs st n))"
          using head_split [OF rb ok n lt f(4) ml [unfolded Some]] by blast
        from do_tail_spec [OF rb st2(2,5) s(2), of aok] obtain it st' where
          t: "do_tail rb aok start end1 st2 n = Some (it, st')" "created aok st2 start end1 it st'" by blast
        then show ?thesis
          using cl \<open>fnd = Some n\<close> f(2) lt ml Some st2(1) created_trans [OF t(2) st2(3,4)]
          by (simp add: block_range__create_def Let_def)
      qed
    next
      case False
      then have eq: "br_start (brs st n) = start" using f(3) by simp
      let ?st = "set_range n (\<lambda>e. e\<lparr>is_target := True\<rparr>) st"
      have st2: "br_ok ?st" "counts (ranges ?st) = counts (ranges st)"
        using flag_ok [of "\<lambda>e. e\<lparr>is_target := True\<rparr>" n st] ok by simp_all
      moreover have "spans ?st A [n] B start (br_end (brs st n))" using n eq by (simp add: spans_def)
      from do_tail_spec [OF rb st2(1) this s(2), of aok] obtain it st' where
        t: "do_tail rb aok start end1 ?st n = Some (it, st')" "created aok ?st start end1 it st'" by blast
      moreover have "created aok st start end1 it st'" by (rule created_trans [OF t(2) st2(2)]) simp
      ultimately show ?thesis using cl Some f(2) eq by (simp add: block_range__create_def Let_def)
    qed
  next
    case None
    then obtain A B where AB: "nodes_of st = A @ B" "\<And>new. inorder (link_at path new (root st)) = A @ new # B"
        "\<forall>n \<in> set A. br_end (brs st n) < start" "\<forall>n \<in> set B. start < br_start (brs st n)"
        "if root st = Leaf then q = None else A \<noteq> [] \<and> q = Some (last A) \<or> B \<noteq> [] \<and> q = Some (hd B)"
      using create_loop_missing [of "brs st" start None "root st" path q] cl od by blast
    have whole: ?thesis
      if "block_range__create rb aok st start end1 = do_whole rb aok start end1 path st" "\<forall>n \<in> set B. end1 < br_start (brs st n)"
      using do_whole_spec [OF rb ok AB(1,2,3) s that(2)] that(1) by simp
    show ?thesis
    proof (cases q)
      case q: None
      then have "root st = Leaf" using AB(5) by (auto split: if_splits)
      then have "B = []" using AB(1) by simp
      then show ?thesis using whole cl None q by (simp add: block_range__create_def)
    next
      case (Some p)
      have nx: "(if br_end (brs st p) < start then rb_next rb (root st) p else Some p) = first B"
      proof (cases "br_end (brs st p) < start")
        case True
        have "A \<noteq> []" "p = last A"
        proof -
          have "p \<noteq> hd B" if "B \<noteq> []"
          proof
            assume p: "p = hd B"
            then have "start < br_start (brs st p)" "br_start (brs st p) \<le> br_end (brs st p)"
              using AB(4) od that by (auto simp: ordered_def AB(1))
            then show False using True by (meson less_trans not_less_iff_gr_or_eq order_less_le_trans)
          qed
          then show "A \<noteq> []" "p = last A" using AB(5) Some by (auto split: if_splits)
        qed
        then have "nodes_of st = butlast A @ p # B" using AB(1) by simp
        then show ?thesis using True rb_lawD(3) [OF rb _ d] by simp
      next
        case False
        then have "p \<notin> set A" using AB(3) by auto
        then have "B \<noteq> [] \<and> p = hd B" using AB(5) Some by (auto split: if_splits)
        then show ?thesis using False by (cases B) simp_all
      qed
      show ?thesis
      proof (cases "case first B of None \<Rightarrow> False | Some nx \<Rightarrow> br_start (brs st nx) \<le> end1")
        case False
        have "\<forall>n \<in> set B. end1 < br_start (brs st n)"
        proof (cases B)
          case (Cons b B')
          then have b: "end1 < br_start (brs st b)" using False by (simp add: not_le)
          have "br_start (brs st b) < br_start (brs st c)" if "c \<in> set B'" for c
            using od that by (auto simp: AB(1) Cons dest: le_less_trans)
          then show ?thesis using b Cons by (auto dest: less_trans)
        qed simp
        moreover have "block_range__create rb aok st start end1 = do_whole rb aok start end1 path st"
          using cl None Some nx False by (auto simp: block_range__create_def split: option.split)
        ultimately show ?thesis using whole by blast
      next
        case True
        then obtain nx B' where B: "B = nx # B'" and le: "br_start (brs st nx) \<le> end1" by (cases B) auto
        have gt: "start < br_start (brs st nx)" using AB(4) B by simp
        note w = word_pred [OF gt]
        obtain x st1 where ml: "malloc_range aok st (new_range start (br_start (brs st nx) - 1) True False) = (x, st1)" by force
        show ?thesis
        proof (cases x)
          case x: None
          then show ?thesis using cl None Some nx B le ml created_oom [OF ml [unfolded x] ok]
            by (simp add: block_range__create_def)
        next
          case x: (Some new)
          have o: "start \<le> br_start (brs st nx) - 1" "\<forall>n \<in> set B. br_start (brs st nx) - 1 < br_start (brs st n)"
            using gt od by (auto simp: w AB(1) B dest: le_less_trans less_imp_le)
          have l: "inorder (rb_link_left_of_node new nx (root st)) = A @ new # B"
            using inorder_link(1) [of "root st" A nx B' new] AB(1) B d by simp
          obtain st2 where st2: "insert_range rb (rb_link_left_of_node new nx) new st1 = Some st2" "br_ok st2"
              "counts (ranges st2) = counts (ranges st)" "blocks st2 = blocks st" "nodes_of st2 = A @ new # B"
              "brs st2 new = new_range start (br_start (brs st nx) - 1) True False"
            using fresh_block [OF rb ok ml [unfolded x] AB(1), of "rb_link_left_of_node new nx"] l AB(3) s(1) o by blast
          have "spans st2 A [new] B start (br_start (brs st nx) - 1)" using st2(5,6) by (simp add: spans_def new_range_def)
          from do_tail_spec [OF rb st2(2) this s(2), of aok] obtain it st' where
            t: "do_tail rb aok start end1 st2 new = Some (it, st')" "created aok st2 start end1 it st'" by blast
          then show ?thesis
            using cl None Some nx B le ml x st2(1) created_trans [OF t(2) st2(3,4)] by (simp add: block_range__create_def)
        qed
      qed
    qed
  qed
qed

section \<open>Finding and counting\<close>

lemma find_loop_create: "find_loop f a t = snd (snd (create_loop f a par t))"
proof (induction t arbitrary: par)
  case (Node l n r)
  show ?case using Node.IH(1) [of "Some n"] Node.IH(2) [of "Some n"] by (simp add: case_prod_beta Let_def)
qed simp

lemma find_spec:
  assumes "br_ok st"
  shows "case block_range__find st x of
      None \<Rightarrow> \<forall>n \<in> set (nodes_of st). \<not> covers (brs st n) x
    | Some n \<Rightarrow> n \<in> set (nodes_of st) \<and> covers (brs st n) x \<and> (\<forall>m \<in> set (nodes_of st). covers (brs st m) x \<longrightarrow> m = n)"
proof -
  have od: "ordered (ranges st)" using assms by (simp add: br_ok_def)
  obtain p q r where c: "create_loop (brs st) x None (root st) = (p, q, r)" by (metis prod_cases3)
  have r: "block_range__find st x = r" using find_loop_create [of "brs st" x "root st" None] c by (simp add: block_range__find_def)
  show ?thesis
  proof (cases r)
    case None
    then obtain A B where "nodes_of st = A @ B" "\<forall>n \<in> set A. br_end (brs st n) < x" "\<forall>n \<in> set B. x < br_start (brs st n)"
      using create_loop_missing [of "brs st" x None "root st" p q] c od by blast
    then show ?thesis using r None by (auto simp: covers_def dest: less_le_trans)
  next
    case (Some n)
    then have n: "n \<in> set (nodes_of st)" "covers (brs st n) x"
      using create_loop_found [of "brs st" x None "root st" p q n] c by auto
    obtain A B where AB: "nodes_of st = A @ n # B" using n(1) by (metis split_list)
    have "m = n" if "m \<in> set (A @ n # B)" "covers (brs st m) x" for m
      using that n(2) od unfolding AB covers_def by (auto dest: le_less_trans less_le_trans)
    then show ?thesis using r Some n AB by auto
  qed
qed

lemma sum_list_one:
  fixes c :: "'a::comm_monoid_add"
  shows "distinct xs \<Longrightarrow> (\<Sum>n\<leftarrow>xs. if n = a then c else 0) = (if a \<in> set xs then c else 0)"
  by (induction xs) auto

lemma sum_list_only:
  fixes h :: "'b \<Rightarrow> 'a::comm_monoid_add"
  shows "distinct xs \<Longrightarrow> a \<in> set xs \<Longrightarrow> \<forall>n \<in> set xs. n \<noteq> a \<longrightarrow> h n = 0 \<Longrightarrow> (\<Sum>n\<leftarrow>xs. h n) = h a"
proof -
  assume a: "distinct xs" "a \<in> set xs" "\<forall>n \<in> set xs. n \<noteq> a \<longrightarrow> h n = 0"
  have "sum_list (map h xs) = (\<Sum>n\<leftarrow>xs. if n = a then h a else 0)"
    by (intro arg_cong [of _ _ sum_list] map_cong) (simp_all add: a(3))
  also have "\<dots> = h a" using sum_list_one [OF a(1), of a "h a"] a(2) by simp
  finally show ?thesis .
qed

lemma sum_list_none:
  fixes h :: "'b \<Rightarrow> 'a::comm_monoid_add"
  shows "\<forall>n \<in> set xs. h n = 0 \<Longrightarrow> (\<Sum>n\<leftarrow>xs. h n) = 0"
  by (induction xs) simp_all

text \<open>What the blocks count at an address is what the block found there counts.\<close>

lemma cov_at_find:
  assumes "br_ok st"
  shows "cov_at (ranges st) x = (case block_range__find st x of None \<Rightarrow> 0 | Some n \<Rightarrow> coverage (brs st n))"
proof -
  let ?h = "\<lambda>n. if covers (brs st n) x then coverage (brs st n) else 0"
  have c: "cov_at (ranges st) x = (\<Sum>n\<leftarrow>nodes_of st. ?h n)" by (simp add: cov_at_def comp_def)
  have d: "distinct (nodes_of st)" using assms by (simp add: br_ok_def)
  show ?thesis
  proof (cases "block_range__find st x")
    case None
    then have "\<forall>n \<in> set (nodes_of st). ?h n = 0" using find_spec [OF assms, of x] by simp
    then show ?thesis using None c sum_list_none [of "nodes_of st" ?h] by simp
  next
    case (Some n)
    then have n: "n \<in> set (nodes_of st)" "covers (brs st n) x" "\<forall>m \<in> set (nodes_of st). covers (brs st m) x \<longrightarrow> m = n"
      using find_spec [OF assms, of x] by simp_all
    have "\<forall>m \<in> set (nodes_of st). m \<noteq> n \<longrightarrow> ?h m = 0" using n(3) by simp
    then show ?thesis using Some c n(2) sum_list_only [OF d n(1), of ?h] by simp
  qed
qed

text \<open>The blocks of a range cover each address of the range once, and no other.\<close>

lemma spans_cover:
  assumes "mid \<noteq> []" "ordered (map f mid)" "successively (\<lambda>m n. br_end (f m) + 1 = br_start (f n)) mid"
  shows "(\<Sum>n\<leftarrow>mid. if covers (f n) x then 1 else 0) =
    (if br_start (f (hd mid)) \<le> x \<and> x \<le> br_end (f (last mid)) then 1 else 0 :: u64)"
  using assms
proof (induction mid rule: induct_list012)
  case (3 n m ms)
  have lt: "br_end (f n) < br_start (f m)" "br_start (f n) \<le> br_end (f n)" "br_start (f m) \<le> br_end (f m)"
    and e: "br_start (f m) = br_end (f n) + 1" using 3 by auto
  have "br_start (f m) \<le> br_end (f (last (m # ms)))"
  proof (cases ms)
    case (Cons k ks)
    then have "br_end (f m) < br_start (f (last ms))" "br_start (f (last ms)) \<le> br_end (f (last ms))"
      using 3(4) last_in_set [of ms] by (auto simp: ordered_def)
    then show ?thesis using lt(3) Cons by (simp add: order.trans less_imp_le)
  qed (use lt in simp)
  moreover have "(\<Sum>n\<leftarrow>m # ms. if covers (f n) x then 1 else 0) =
      (if br_start (f m) \<le> x \<and> x \<le> br_end (f (last (m # ms))) then 1 else 0 :: u64)"
    using 3 by simp
  moreover have "br_start (f m) \<le> x \<longleftrightarrow> br_end (f n) < x" using word_succ(2) [OF lt(1), of x] e by simp
  ultimately show ?case
    using lt by (auto simp: covers_def)
qed (simp_all add: covers_def)

definition bump :: "nat option \<Rightarrow> block_range \<Rightarrow> block_range" where
  "bump sy b = b\<lparr>coverage := coverage b + 1, br_sym := sy\<rparr>"

lemma count_loop_spec:
  assumes rb: "rb_law rb"
  shows "nodes_of st = pre @ mid @ post \<Longrightarrow> distinct (nodes_of st) \<Longrightarrow> mid \<noteq> [] \<Longrightarrow>
    \<exists>ann' st'. count_loop rb sy (Some (hd mid), Some (last mid)) ann st = Some (last mid, ann', st') \<and>
      root st' = root st \<and> nr_brs st' = nr_brs st \<and>
      brs st' = (\<lambda>n. if n \<in> set mid then bump sy (brs st n) else brs st n)"
proof (induction mid arbitrary: pre ann st rule: induct_list012)
  case (2 n)
  show ?case
    by (subst count_loop.simps) (simp add: Let_def block_range_iter__next_def bump_def set_range_def fun_upd_def cong: if_cong)
next
  case (3 n m ms)
  let ?st = "set_range n (bump sy) st"
  have nx: "rb_next rb (root st) n = Some m"
    using rb_lawD(3) [OF rb, of "root st" pre n "m # ms @ post"] 3(3,4) by simp
  have ne: "n \<notin> set (m # ms)" using 3(3,4) by auto
  then have "n \<noteq> last (m # ms)" by (metis last_in_set list.distinct(1))
  then obtain ann1 where c: "count_loop rb sy (Some (hd (n # m # ms)), Some (last (n # m # ms))) ann st =
      count_loop rb sy (Some (hd (m # ms)), Some (last (m # ms))) ann1 ?st"
    by (subst (asm) count_loop.simps)
      (auto simp: Let_def block_range_iter__next_def block_range__next_def nx set_range_def bump_def)
  have "nodes_of ?st = (pre @ [n]) @ (m # ms) @ post" "distinct (nodes_of ?st)" using 3(3,4) by simp_all
  then obtain ann' st' where r: "count_loop rb sy (Some (hd (m # ms)), Some (last (m # ms))) ann1 ?st = Some (last (m # ms), ann', st')"
      "root st' = root ?st" "nr_brs st' = nr_brs ?st"
      "brs st' = (\<lambda>k. if k \<in> set (m # ms) then bump sy (brs ?st k) else brs ?st k)"
    using 3(2) [of ?st "pre @ [n]" ann1] by blast
  have "brs st' = (\<lambda>k. if k \<in> set (n # m # ms) then bump sy (brs st k) else brs st k)"
    unfolding r(4) using ne by (auto simp: fun_eq_iff)
  then show ?case using c r(1-3) by simp
qed simp

text \<open>What a basic block adds to the counts at an address.\<close>

definition one_block :: "u64 \<Rightarrow> u64 \<Rightarrow> bool \<Rightarrow> u64 \<Rightarrow> u64 \<times> u64 \<times> u64 \<times> u64" where
  "one_block s e p x = (of_bool (s \<le> x \<and> x \<le> e), of_bool (s = x), of_bool (e = x), of_bool (e = x \<and> p))"

definition add4 :: "u64 \<times> u64 \<times> u64 \<times> u64 \<Rightarrow> u64 \<times> u64 \<times> u64 \<times> u64 \<Rightarrow> u64 \<times> u64 \<times> u64 \<times> u64" where
  "add4 p q = (case (p, q) of ((a, b, c, d), (a', b', c', d')) \<Rightarrow> (a + a', b + b', c + c', d + d'))"

lemma counts_added:
  assumes sp: "spans st pre mid post start end1" and ok: "br_ok st"
    and f: "\<And>n. br_start (f n) = br_start (brs st n)" "\<And>n. br_end (f n) = br_end (brs st n)"
      "\<And>n. coverage (f n) = coverage (brs st n) + of_bool (n \<in> set mid)"
      "\<And>n. br_entry (f n) = br_entry (brs st n) + of_bool (n = hd mid)"
      "\<And>n. taken (f n) = taken (brs st n) + of_bool (n = last mid)"
      "\<And>n. br_pred (f n) = br_pred (brs st n) + of_bool (n = last mid \<and> p)"
  shows "counts (map f (nodes_of st)) x = add4 (counts (ranges st) x) (one_block start end1 p x)"
proof -
  let ?N = "nodes_of st"
  have N: "?N = pre @ mid @ post" and mid: "mid \<noteq> []" and s: "br_start (brs st (hd mid)) = start" "br_end (brs st (last mid)) = end1"
    using sp by (simp_all add: spans_def)
  have d: "distinct ?N" "ordered (ranges st)" using ok by (simp_all add: br_ok_def)
  have hl: "hd mid \<in> set ?N" "last mid \<in> set ?N" using mid N by simp_all
  have add: "(\<Sum>n\<leftarrow>?N. h' n) = (\<Sum>n\<leftarrow>?N. h n) + (\<Sum>n\<leftarrow>?N. g n)" if "\<And>n. h' n = h n + g n"
    for h' h g :: "nat \<Rightarrow> u64" using that by (simp add: sum_list_addf)
  have "cov_at (map f ?N) x = cov_at (ranges st) x + (\<Sum>n\<leftarrow>?N. if n \<in> set mid \<and> covers (brs st n) x then 1 else 0)"
    unfolding cov_at_def map_map comp_def by (rule add) (simp add: covers_def f)
  moreover have "(\<Sum>n\<leftarrow>?N. if n \<in> set mid \<and> covers (brs st n) x then 1 else 0) = (of_bool (start \<le> x \<and> x \<le> end1) :: u64)"
  proof -
    have "(\<Sum>n\<leftarrow>xs. if n \<in> set mid \<and> covers (brs st n) x then 1 else 0) = (0 :: u64)" if "set xs \<inter> set mid = {}" for xs
      using that by (intro sum_list_none) auto
    then have "(\<Sum>n\<leftarrow>pre. if n \<in> set mid \<and> covers (brs st n) x then 1 else 0) = (0 :: u64)"
      "(\<Sum>n\<leftarrow>post. if n \<in> set mid \<and> covers (brs st n) x then 1 else 0) = (0 :: u64)"
      using d(1) N by auto
    moreover have "(\<Sum>n\<leftarrow>mid. if n \<in> set mid \<and> covers (brs st n) x then 1 else 0) =
        (\<Sum>n\<leftarrow>mid. if covers (brs st n) x then 1 else 0 :: u64)"
      by (intro arg_cong [of _ _ sum_list] map_cong) simp_all
    ultimately show ?thesis
      using spans_cover [OF mid, of "brs st" x] d(2) sp by (simp add: N spans_def)
  qed
  moreover have "entry_at (map f ?N) x = entry_at (ranges st) x + (\<Sum>n\<leftarrow>?N. if n = hd mid then of_bool (start = x) else 0)"
    unfolding entry_at_def map_map comp_def by (rule add) (auto simp: f s)
  moreover have "taken_at (map f ?N) x = taken_at (ranges st) x + (\<Sum>n\<leftarrow>?N. if n = last mid then of_bool (end1 = x) else 0)"
    unfolding taken_at_def map_map comp_def by (rule add) (auto simp: f s)
  moreover have "pred_at (map f ?N) x = pred_at (ranges st) x + (\<Sum>n\<leftarrow>?N. if n = last mid then of_bool (end1 = x \<and> p) else 0)"
    unfolding pred_at_def map_map comp_def by (rule add) (auto simp: f s)
  ultimately show ?thesis
    using hl by (simp add: counts_def add4_def one_block_def sum_list_one [OF d(1)])
qed

lemma br_ok_cong:
  assumes "br_ok st" "nodes_of st' = nodes_of st" "nr_brs st' = nr_brs st"
    and "\<And>n. br_start (brs st' n) = br_start (brs st n)" "\<And>n. br_end (brs st' n) = br_end (brs st n)"
  shows "br_ok st'"
  using assms by (simp add: br_ok_def ordered_def sorted_wrt_map)

text \<open>A basic block is counted once, or not at all when memory runs out.\<close>

lemma process_spec:
  assumes rb: "rb_law rb" and ok: "br_ok st"
  shows "\<exists>ann' st'. process_basic_block rb aok sy start end1 p ann st = Some (ann', st') \<and> br_ok st' \<and>
    (counts (ranges st') = counts (ranges st) \<and> (start \<noteq> 0 \<and> start \<le> end1 \<longrightarrow> \<not> (\<forall>n. aok n)) \<or>
     start \<noteq> 0 \<and> start \<le> end1 \<and> (\<forall>x. counts (ranges st') x = add4 (counts (ranges st) x) (one_block start end1 p x)))"
proof (cases "start = 0 \<or> start > end1")
  case True
  then show ?thesis using ok by (auto simp: process_basic_block_def not_le)
next
  case False
  then have se: "0 < start" "start \<le> end1" by (auto simp: word_gt_0 not_less)
  obtain it st1 where cr: "block_range__create rb aok st start end1 = Some (it, st1)" "created aok st start end1 it st1"
    using create_spec [OF rb ok se] by blast
  show ?thesis
  proof (cases "block_range_iter__valid it")
    case F: False
    then show ?thesis using cr False by (auto simp: process_basic_block_def created_def)
  next
    case True
    then obtain pre mid post where sp: "spans st1 pre mid post start end1" "it = (Some (hd mid), Some (last mid))"
        "is_branch (brs st1 (last mid))" and c: "br_ok st1" "counts (ranges st1) = counts (ranges st)"
      using cr(2) by (auto simp: created_def)
    let ?st = "set_range (hd mid) (\<lambda>e. e\<lparr>br_entry := br_entry e + 1\<rparr>) st1"
    have n: "nodes_of ?st = pre @ mid @ post" "distinct (nodes_of ?st)" "mid \<noteq> []" "is_target (brs st1 (hd mid))"
      using sp c(1) by (simp_all add: spans_def br_ok_def)
    obtain ann' st2 where cl: "count_loop rb sy it ann ?st = Some (last mid, ann', st2)" "root st2 = root ?st" "nr_brs st2 = nr_brs ?st"
        "brs st2 = (\<lambda>n. if n \<in> set mid then bump sy (brs ?st n) else brs ?st n)"
      using count_loop_spec [OF rb n(1-3)] sp(2) by blast
    let ?f = "set_range (last mid) (\<lambda>b. b\<lparr>taken := taken b + 1, br_pred := (if p then br_pred b + 1 else br_pred b)\<rparr>) st2"
    have "is_branch (brs st2 (last mid))" using sp(3) by (auto simp: cl(4) bump_def)
    then have pr: "process_basic_block rb aok sy start end1 p ann st = Some (ann', ?f)"
      using False cr(1) True n(3,4) cl(1) sp(2) by (simp add: process_basic_block_def Let_def)
    have r: "nodes_of ?f = nodes_of st1" using cl(2) by simp
    have f: "br_start (brs ?f n) = br_start (brs st1 n)" "br_end (brs ?f n) = br_end (brs st1 n)"
      "coverage (brs ?f n) = coverage (brs st1 n) + of_bool (n \<in> set mid)"
      "br_entry (brs ?f n) = br_entry (brs st1 n) + of_bool (n = hd mid)"
      "taken (brs ?f n) = taken (brs st1 n) + of_bool (n = last mid)"
      "br_pred (brs ?f n) = br_pred (brs st1 n) + of_bool (n = last mid \<and> p)" for n
      using n(3) by (auto simp: cl(4) bump_def)
    have "br_ok ?f"
      by (rule br_ok_cong [OF c(1) r _ f(1,2)]) (simp add: cl(3))
    moreover have "counts (ranges ?f) x = add4 (counts (ranges st1) x) (one_block start end1 p x)" for x
      unfolding r by (rule counts_added [OF sp(1) c(1) f])
    ultimately show ?thesis using pr c(2) False by (auto simp: not_less)
  qed
qed

section \<open>Properties\<close>

text \<open>The branches of a profile, one basic block each.\<close>

fun process_blocks ::
  "rb_ops \<Rightarrow> (nat \<Rightarrow> bool) \<Rightarrow> (nat option \<times> u64 \<times> u64 \<times> bool) list \<Rightarrow> (nat \<Rightarrow> u64) \<Rightarrow> block_ranges \<Rightarrow>
    ((nat \<Rightarrow> u64) \<times> block_ranges) option"
where
  "process_blocks rb ok [] notes st = Some (notes, st)"
| "process_blocks rb ok ((sy, s, e, p) # bs) notes st = do {
     (notes, st) \<leftarrow> process_basic_block rb ok sy s e p notes st;
     process_blocks rb ok bs notes st
   }"

definition block_ranges_empty :: block_ranges where
  "block_ranges_empty = \<lparr>root = Leaf, blocks = 0, brs = (\<lambda>_. new_range 0 0 False False), nr_brs = 0, br_allocs = 0\<rparr>"

lemma br_ok_empty: "br_ok block_ranges_empty" "counts (ranges block_ranges_empty) x = (0, 0, 0, 0)"
  by (simp_all add: block_ranges_empty_def br_ok_def counts_defs)

text \<open>The blocks that are counted: neither at address 0 nor backwards.\<close>

definition number_of :: "(u64 \<Rightarrow> u64 \<Rightarrow> bool \<Rightarrow> bool) \<Rightarrow> (nat option \<times> u64 \<times> u64 \<times> bool) list \<Rightarrow> nat" where
  "number_of P bs = length (filter (\<lambda>(sy, s, e, p). s \<noteq> 0 \<and> s \<le> e \<and> P s e p) bs)"

lemma number_of_Cons:
  "number_of P ((sy, s, e, p) # bs) = of_bool (s \<noteq> 0 \<and> s \<le> e \<and> P s e p) + number_of P bs"
  by (simp add: number_of_def)

lemma add4_assoc: "add4 (add4 a b) c = add4 a (add4 b c)"
  by (simp add: add4_def add.assoc split: prod.split)

lemma add4_pairs: "add4 (a, b, c, d) (a', b', c', d') = (a + a', b + b', c + c', d + d')"
  by (simp add: add4_def)

lemma process_blocks_spec:
  assumes rb: "rb_law rb" and ok: "\<forall>n. aok n"
  shows "br_ok st \<Longrightarrow> \<exists>ann' st'. process_blocks rb aok bs ann st = Some (ann', st') \<and> br_ok st' \<and>
    (\<forall>x. counts (ranges st') x = add4 (counts (ranges st) x)
       (of_nat (number_of (\<lambda>s e p. s \<le> x \<and> x \<le> e) bs), of_nat (number_of (\<lambda>s e p. s = x) bs),
        of_nat (number_of (\<lambda>s e p. e = x) bs), of_nat (number_of (\<lambda>s e p. e = x \<and> p) bs)))"
proof (induction bs arbitrary: ann st)
  case Nil
  then show ?case by (simp add: number_of_def add4_def split: prod.split)
next
  case (Cons b bs)
  obtain sy s e p where b: "b = (sy, s, e, p)" by (metis prod_cases4)
  obtain ann1 st1 where st1: "process_basic_block rb aok sy s e p ann st = Some (ann1, st1)" "br_ok st1"
      "counts (ranges st1) = counts (ranges st) \<and> \<not> (s \<noteq> 0 \<and> s \<le> e) \<or>
       s \<noteq> 0 \<and> s \<le> e \<and> (\<forall>x. counts (ranges st1) x = add4 (counts (ranges st) x) (one_block s e p x))"
    using process_spec [OF rb Cons.prems, of aok sy s e p ann] ok by blast
  obtain ann2 st2 where st2: "process_blocks rb aok bs ann1 st1 = Some (ann2, st2)" "br_ok st2"
      "\<forall>x. counts (ranges st2) x = add4 (counts (ranges st1) x)
       (of_nat (number_of (\<lambda>s e p. s \<le> x \<and> x \<le> e) bs), of_nat (number_of (\<lambda>s e p. s = x) bs),
        of_nat (number_of (\<lambda>s e p. e = x) bs), of_nat (number_of (\<lambda>s e p. e = x \<and> p) bs))"
    using Cons.IH [OF st1(2)] by blast
  have "counts (ranges st2) x = add4 (counts (ranges st) x)
       (of_nat (number_of (\<lambda>s e p. s \<le> x \<and> x \<le> e) (b # bs)), of_nat (number_of (\<lambda>s e p. s = x) (b # bs)),
        of_nat (number_of (\<lambda>s e p. e = x) (b # bs)), of_nat (number_of (\<lambda>s e p. e = x \<and> p) (b # bs)))" for x
    using st1(3)
  proof
    assume "counts (ranges st1) = counts (ranges st) \<and> \<not> (s \<noteq> 0 \<and> s \<le> e)"
    then show ?thesis using st2(3) by (auto simp: b number_of_Cons)
  next
    assume c: "s \<noteq> 0 \<and> s \<le> e \<and> (\<forall>x. counts (ranges st1) x = add4 (counts (ranges st) x) (one_block s e p x))"
    then show ?thesis using st2(3) by (simp add: b number_of_Cons add4_assoc one_block_def add4_pairs)
  qed
  then show ?case using st1(1) st2(1,2) by (simp add: b)
qed

text \<open>
  C32. For a start above 0 and not behind the end, \<open>block_range__create\<close> never fails an assertion.  It
  keeps the tree a search tree of disjoint blocks and keeps what the blocks count at every address; if its iterator is
  valid, and it is unless an allocation fails, then the blocks from its start to its end follow each other without a gap and
  span the given range precisely.
\<close>

theorem block_range_create_spans:
  assumes "rb_law rb" "br_ok st" "0 < start" "start \<le> end1"
  shows "\<exists>it st'. block_range__create rb aok st start end1 = Some (it, st') \<and> br_ok st' \<and>
    counts (ranges st') = counts (ranges st) \<and>
    ((\<forall>n. aok n) \<longrightarrow> block_range_iter__valid it) \<and>
    (block_range_iter__valid it \<longrightarrow>
      (\<exists>pre mid post. spans st' pre mid post start end1 \<and> it = (Some (hd mid), Some (last mid)) \<and>
         is_branch (brs st' (last mid))))"
  using create_spec [OF assms, of aok] unfolding created_def by blast

text \<open>A library whose tree is never rebalanced and whose iterator searches the tree.\<close>

fun successor :: "nat list \<Rightarrow> nat \<Rightarrow> nat option" where
  "successor [] n = None"
| "successor (x # xs) n = (if x = n then first xs else successor xs n)"

definition rb_plain :: rb_ops where
  "rb_plain = \<lparr>rb_first = (\<lambda>t. first (inorder t)), rb_next = (\<lambda>t. successor (inorder t)), rb_insert_color = (\<lambda>t n. t)\<rparr>"

lemma successor_at: "distinct (pre @ n # post) \<Longrightarrow> successor (pre @ n # post) n = first post"
  by (induction pre) auto

lemma rb_plain_law: "rb_law rb_plain"
  by (simp add: rb_law_def rb_plain_def successor_at)

theorem block_range_create_spans_witness:
  "\<exists>it st'. block_range__create rb_plain (\<lambda>_. True) block_ranges_empty 4096 4100 = Some (it, st') \<and> br_ok st' \<and>
    counts (ranges st') = counts (ranges block_ranges_empty) \<and>
    ((\<forall>n. (\<lambda>_. True) (n :: nat)) \<longrightarrow> block_range_iter__valid it) \<and>
    (block_range_iter__valid it \<longrightarrow>
      (\<exists>pre mid post. spans st' pre mid post 4096 4100 \<and> it = (Some (hd mid), Some (last mid)) \<and>
         is_branch (brs st' (last mid))))"
  by (rule block_range_create_spans [OF rb_plain_law br_ok_empty(1)]) simp_all

text \<open>
  C33. After any sequence of basic blocks, with enough memory, the coverage of the block that
  \<open>block_range__find\<close> returns for an address is the number of basic blocks that contain the address, and
  0 basic blocks contain an address for which it returns NULL.
\<close>

theorem block_coverage_counts:
  assumes "rb_law rb" "\<forall>n. aok n"
  shows "\<exists>ann' st'. process_blocks rb aok bs ann block_ranges_empty = Some (ann', st') \<and>
    (\<forall>x. (case block_range__find st' x of None \<Rightarrow> 0 | Some n \<Rightarrow> coverage (brs st' n)) =
       of_nat (number_of (\<lambda>s e p. s \<le> x \<and> x \<le> e) bs))"
proof -
  obtain ann' st' where st': "process_blocks rb aok bs ann block_ranges_empty = Some (ann', st')" "br_ok st'"
      "\<forall>x. counts (ranges st') x = add4 (counts (ranges block_ranges_empty) x)
       (of_nat (number_of (\<lambda>s e p. s \<le> x \<and> x \<le> e) bs), of_nat (number_of (\<lambda>s e p. s = x) bs),
        of_nat (number_of (\<lambda>s e p. e = x) bs), of_nat (number_of (\<lambda>s e p. e = x \<and> p) bs))"
    using process_blocks_spec [OF assms br_ok_empty(1)] by blast
  have "cov_at (ranges st') x = of_nat (number_of (\<lambda>s e p. s \<le> x \<and> x \<le> e) bs)" for x
    using st'(3) by (simp add: br_ok_empty add4_pairs) (simp add: counts_def)
  then show ?thesis using st'(1) cov_at_find [OF st'(2)] by simp
qed

theorem block_coverage_counts_witness:
  "\<exists>ann' st'. process_blocks rb_plain (\<lambda>_. True) [(None, 1, 10, True), (None, 5, 20, False)] (\<lambda>_. 0) block_ranges_empty = Some (ann', st') \<and>
    (\<forall>x. (case block_range__find st' x of None \<Rightarrow> 0 | Some n \<Rightarrow> coverage (brs st' n)) =
       of_nat (number_of (\<lambda>s e p. s \<le> x \<and> x \<le> e) [(None, 1, 10, True), (None, 5, 20, False)]))"
  by (rule block_coverage_counts [OF rb_plain_law]) simp

text \<open>
  A block split by a later, shorter basic block loses its symbol: \<open>block_range__coverage\<close> reports no
  data for an address although the block there is covered.
\<close>

theorem block_coverage_symbol_lost:
  "case process_blocks rb_plain (\<lambda>_. True) [(Some 7, 1, 10, True), (Some 7, 1, 5, True)] (\<lambda>_. 0) block_ranges_empty of
     None \<Rightarrow> False
   | Some (notes, st) \<Rightarrow> map_option (\<lambda>n. coverage (brs st n)) (block_range__find st 8) = Some 1 \<and>
       block_range__coverage notes st (block_range__find st 8) = No_Data"
  by code_simp

end
