(* ===== verification/Strfilter.thy ===== *)
theory Strfilter
  imports Perf_String
begin

text \<open>
  The filter rules of \<^verbatim>\<open>util/strfilter.c\<close>: glob patterns combined with \<open>&\<close>, \<open>|\<close>, \<open>!\<close> and
  parentheses.  A rule is parsed into a tree, compared with strings and printed back.  Rules are C strings;
  a position in them is an index, and reading behind their memory is undefined behaviour, \<open>None\<close>.
  The outcome of the allocations, in their order, is the parameter \<open>ok\<close>.

  While a rule is parsed, the pointers \<open>cur\<close> and \<open>last_op\<close> always point into the chain of right children
  that starts at the local variable \<open>root\<close>.  They are the number of steps along this chain.
\<close>

section \<open>The code\<close>

datatype strfilter_node =
  SNode (sf_l: "strfilter_node option") (sf_r: "strfilter_node option") (sf_p: "string option")

definition is_operator :: "char \<Rightarrow> bool" where
  "is_operator c \<longleftrightarrow> c = CHR ''|'' \<or> c = CHR ''&'' \<or> c = CHR ''!''"

definition is_separator :: "char \<Rightarrow> bool" where
  "is_separator c \<longleftrightarrow> is_operator c \<or> c = CHR ''('' \<or> c = CHR '')''"

abbreviation (input) BSL :: char where
  "BSL \<equiv> CHR 0x5C"

text \<open>The loop at \<open>retry\<close>.\<close>

partial_function (option) token_end :: "char list \<Rightarrow> nat \<Rightarrow> nat option" where
  "token_end buf p = do {
     p \<leftarrow> scan (\<lambda>c. c \<noteq> NUL \<and> \<not> is_separator c \<and> \<not> isspace c) buf p;
     c0 \<leftarrow> rd buf (p - 1);
     c \<leftarrow> rd buf p;
     if c0 = BSL \<or> c = CHR ''!'' \<and> c0 = CHR ''['' then token_end buf (p + 1) else Some p
   }"

definition get_token :: "char list \<Rightarrow> nat \<Rightarrow> (nat \<times> nat) option" where
  "get_token buf s = do {
     s \<leftarrow> scan isspace buf s;
     c \<leftarrow> rd buf s;
     if c = NUL then Some (s, s)
     else if is_separator c then Some (s, s + 1)
     else do { e \<leftarrow> token_end buf (s + 1); Some (s, e) }
   }"

text \<open>The right child of the node \<open>k\<close> steps down the chain, and setting it.\<close>

fun right_child :: "nat \<Rightarrow> strfilter_node \<Rightarrow> strfilter_node option" where
  "right_child 0 n = sf_r n"
| "right_child (Suc k) n = (case sf_r n of None \<Rightarrow> None | Some m \<Rightarrow> right_child k m)"

fun set_right :: "nat \<Rightarrow> strfilter_node \<Rightarrow> strfilter_node \<Rightarrow> strfilter_node" where
  "set_right 0 x (SNode l r p) = SNode l (Some x) p"
| "set_right (Suc k) x (SNode l r p) = SNode l (map_option (set_right k x) r) p"

abbreviation no_node :: strfilter_node where
  "no_node \<equiv> SNode None None None"

text \<open>
  The loop of \<open>strfilter_node__new\<close>, with the number of allocations made.  The result is the tree, NULL
  on an error, and the end pointer, NULL when an allocation failed.
\<close>

partial_function (option) node_loop ::
  "char list \<Rightarrow> (nat \<Rightarrow> bool) \<Rightarrow> strfilter_node \<Rightarrow> nat \<Rightarrow> nat \<Rightarrow> nat \<Rightarrow> nat \<Rightarrow> nat \<Rightarrow>
    (strfilter_node option \<times> nat option \<times> nat) option"
where
  "node_loop buf ok root cur last_op s e a = do {
     c \<leftarrow> rd buf s;
     if c = NUL \<or> c = CHR '')'' then
       Some (if right_child cur root = None then None else sf_r root, Some s, a)
     else if c = CHR ''&'' then
       (if right_child cur root = None \<or> right_child last_op root = None then Some (None, Some s, a)
        else if \<not> ok a then Some (None, None, a + 1)
        else do {
          let root = set_right last_op (SNode (right_child last_op root) None (Some ''&'')) root;
          (s, e) \<leftarrow> get_token buf e;
          node_loop buf ok root (last_op + 1) (last_op + 1) s e (a + 1)
        })
     else if c = CHR ''|'' then
       (if right_child cur root = None \<or> sf_r root = None then Some (None, Some s, a)
        else if \<not> ok a then Some (None, None, a + 1)
        else do {
          let root = set_right 0 (SNode (sf_r root) None (Some ''|'')) root;
          (s, e) \<leftarrow> get_token buf e;
          node_loop buf ok root 1 1 s e (a + 1)
        })
     else if c = CHR ''!'' then
       (if right_child cur root \<noteq> None then Some (None, Some s, a)
        else if \<not> ok a then Some (None, None, a + 1)
        else do {
          (s, e) \<leftarrow> get_token buf e;
          node_loop buf ok (set_right cur (SNode None None (Some ''!'')) root) (cur + 1) last_op s e (a + 1)
        })
     else if c = CHR ''('' then
       (if right_child cur root \<noteq> None then Some (None, Some s, a)
        else do {
          (s, e) \<leftarrow> get_token buf (s + 1);
          (sub, s, a) \<leftarrow> node_loop buf ok no_node 0 0 s e a;
          case s of
            None \<Rightarrow> Some (None, None, a)
          | Some s \<Rightarrow> do {
              c \<leftarrow> rd buf s;
              case sub of
                None \<Rightarrow> Some (None, Some s, a)
              | Some sub \<Rightarrow>
                  if c \<noteq> CHR '')'' then Some (None, Some s, a)
                  else do {
                    (s, e) \<leftarrow> get_token buf (s + 1);
                    node_loop buf ok (set_right cur sub root) cur last_op s e a
                  }
            }
        })
     else
       (if right_child cur root \<noteq> None then Some (None, Some s, a)
        else if \<not> ok a then Some (None, None, a + 1)
        else if \<not> ok (a + 1) then Some (None, None, a + 2)
        else do {
          let word = takeWhile (\<lambda>c. c \<noteq> NUL) (take (e - s) (drop s buf));
          (s, e) \<leftarrow> get_token buf e;
          node_loop buf ok (set_right cur (SNode None None (Some word)) root) cur last_op s e (a + 2)
        })
   }"

definition strfilter_node__new ::
  "char list option \<Rightarrow> (nat \<Rightarrow> bool) \<Rightarrow> nat \<Rightarrow> (strfilter_node option \<times> nat option \<times> nat) option"
where
  "strfilter_node__new rules ok a = (case rules of
     None \<Rightarrow> Some (None, None, a)
   | Some buf \<Rightarrow> do {
       (s, e) \<leftarrow> get_token buf 0;
       node_loop buf ok no_node 0 0 s e a
     })"

record strfilter =
  root :: "strfilter_node option"

text \<open>What \<open>*ep\<close> is after the parser has returned.\<close>

definition at_ep :: "char list option \<Rightarrow> nat option \<Rightarrow> char option" where
  "at_ep rules ep = do { buf \<leftarrow> rules; p \<leftarrow> ep; rd buf p }"

text \<open>The filter, or the position of the error.  The first allocation is the filter's own.\<close>

definition strfilter__new :: "char list option \<Rightarrow> (nat \<Rightarrow> bool) \<Rightarrow> (nat option + strfilter) option" where
  "strfilter__new rules ok =
     (if \<not> ok 0 then Some (Inl None)
      else do {
        (node, ep, a) \<leftarrow> strfilter_node__new rules ok 1;
        if node = None then Some (Inl ep)
        else do {
          c \<leftarrow> at_ep rules ep;
          Some (if c \<noteq> NUL then Inl ep else Inr \<lparr>root = node\<rparr>)
        }
      })"

text \<open>The result, the filter and what is stored at \<open>err\<close>, if anything is.\<close>

definition strfilter__append ::
  "strfilter option \<Rightarrow> bool \<Rightarrow> char list option \<Rightarrow> (nat \<Rightarrow> bool) \<Rightarrow>
    (int \<times> strfilter option \<times> nat option option) option"
where
  "strfilter__append flt is_or rules ok = (case flt of
     None \<Rightarrow> Some (- EINVAL, flt, None)
   | Some f \<Rightarrow>
       if rules = None then Some (- EINVAL, flt, None)
       else do {
         (rnode, ep, a) \<leftarrow> strfilter_node__new rules ok 0;
         if rnode = None then Some (if ep = None then - ENOMEM else - EINVAL, flt, Some ep)
         else do {
           c \<leftarrow> at_ep rules ep;
           Some (if c \<noteq> NUL then (- EINVAL, flt, Some ep)
                 else if \<not> ok a then (- ENOMEM, flt, None)
                 else (0, Some (f \<lparr>root := Some (SNode (root f) rnode (Some (if is_or then ''|'' else ''&'')))\<rparr>), None))
         }
       })"

definition strfilter__or ::
  "strfilter option \<Rightarrow> char list option \<Rightarrow> (nat \<Rightarrow> bool) \<Rightarrow> (int \<times> strfilter option \<times> nat option option) option"
where
  "strfilter__or flt rules ok = strfilter__append flt True rules ok"

definition strfilter__and ::
  "strfilter option \<Rightarrow> char list option \<Rightarrow> (nat \<Rightarrow> bool) \<Rightarrow> (int \<times> strfilter option \<times> nat option option) option"
where
  "strfilter__and flt rules ok = strfilter__append flt False rules ok"

text \<open>The first character of the C string of a node.\<close>

definition first_char :: "string \<Rightarrow> char" where
  "first_char p = (case p of [] \<Rightarrow> NUL | c # _ \<Rightarrow> c)"

fun strfilter_node__compare :: "strfilter_node option \<Rightarrow> char list \<Rightarrow> bool option" where
  "strfilter_node__compare None str = Some False"
| "strfilter_node__compare (Some (SNode l r None)) str = Some False"
| "strfilter_node__compare (Some (SNode l r (Some p))) str =
     (if first_char p = CHR ''|'' then do {
        b \<leftarrow> strfilter_node__compare l str;
        if b then Some True else strfilter_node__compare r str
      }
      else if first_char p = CHR ''&'' then do {
        b \<leftarrow> strfilter_node__compare l str;
        if b then strfilter_node__compare r str else Some False
      }
      else if first_char p = CHR ''!'' then map_option Not (strfilter_node__compare r str)
      else strglobmatch str (p @ [NUL]))"

definition strfilter__compare :: "strfilter option \<Rightarrow> char list \<Rightarrow> bool option" where
  "strfilter__compare flt str = (case flt of
     None \<Rightarrow> Some False
   | Some f \<Rightarrow> strfilter_node__compare (root f) str)"

text \<open>
  Printing.  The memory is written at a position, or only the length is computed when there is no buffer.
  \<open>sprint_pt\<close> gets the printer of the node.
\<close>

fun wr_list :: "char list \<Rightarrow> nat \<Rightarrow> char list \<Rightarrow> char list option" where
  "wr_list mem i [] = Some mem"
| "wr_list mem i (x # xs) = do { mem \<leftarrow> wr mem i x; wr_list mem (i + 1) xs }"

definition strfilter_node__sprint_pt ::
  "bool \<Rightarrow> (char list \<Rightarrow> nat option \<Rightarrow> (int \<times> char list) option) \<Rightarrow> char list \<Rightarrow> nat option \<Rightarrow> (int \<times> char list) option"
where
  "strfilter_node__sprint_pt has_r pr mem buf = do {
     let pt = (if has_r then 2 else 0);
     (mem, buf) \<leftarrow> (case buf of
        Some b \<Rightarrow> if pt \<noteq> 0 then do { mem \<leftarrow> wr mem b (CHR ''(''); Some (mem, Some (b + 1)) } else Some (mem, buf)
      | None \<Rightarrow> Some (mem, None));
     (len, mem) \<leftarrow> pr mem buf;
     if len < 0 then Some (len, mem)
     else do {
       mem \<leftarrow> (case buf of
          Some b \<Rightarrow> if pt \<noteq> 0 then wr mem (b + nat len) (CHR '')'') else Some mem
        | None \<Rightarrow> Some mem);
       Some (len + pt, mem)
     }
   }"

fun strfilter_node__sprint :: "strfilter_node \<Rightarrow> char list \<Rightarrow> nat option \<Rightarrow> (int \<times> char list) option" where
  "strfilter_node__sprint (SNode l r None) mem buf = Some (- EINVAL, mem)"
| "strfilter_node__sprint (SNode l r (Some p)) mem buf =
     (if is_operator (first_char p) then do {
        (len, mem) \<leftarrow>
          (if first_char p = CHR ''!'' then Some (0, mem)
           else case l of
             None \<Rightarrow> None
           | Some n \<Rightarrow> strfilter_node__sprint_pt (sf_r n \<noteq> None) (\<lambda>mem buf. strfilter_node__sprint n mem buf) mem buf);
        if len < 0 then Some (len, mem)
        else do {
          (mem, buf) \<leftarrow> (case buf of
             Some b \<Rightarrow> do { mem \<leftarrow> wr mem (b + nat len) (first_char p); Some (mem, Some (b + nat len + 1)) }
           | None \<Rightarrow> Some (mem, None));
          (rlen, mem) \<leftarrow> (case r of
             None \<Rightarrow> None
           | Some n \<Rightarrow> strfilter_node__sprint_pt (sf_r n \<noteq> None) (\<lambda>mem buf. strfilter_node__sprint n mem buf) mem buf);
          Some (if rlen < 0 then rlen else len + 1 + rlen, mem)
        }
      }
      else (case buf of
          Some b \<Rightarrow> do { mem \<leftarrow> wr_list mem b (p @ [NUL]); Some (int (length p), mem) }
        | None \<Rightarrow> Some (int (length p), mem)))"

text \<open>\<open>fresh\<close> is the content of memory that was allocated and not written.\<close>

definition strfilter__string :: "strfilter \<Rightarrow> bool \<Rightarrow> (nat \<Rightarrow> char) \<Rightarrow> char list option option" where
  "strfilter__string flt ok fresh = (case root flt of
     None \<Rightarrow> Some None
   | Some n \<Rightarrow> do {
       (len, _) \<leftarrow> strfilter_node__sprint n [] None;
       if len < 0 then Some None
       else if \<not> ok then Some None
       else do {
         (_, mem) \<leftarrow> strfilter_node__sprint n (map fresh [0..<nat len + 1]) (Some 0);
         Some (Some mem)
       }
     })"

declare token_end.simps [code] node_loop.simps [code]

section \<open>Rules and their text\<close>

text \<open>A rule as its writer means it, its tree, its meaning, and its text with the parentheses that printing puts.\<close>

datatype rule = Glob string | RNot rule | RAnd rule rule | ROr rule rule

fun node_of :: "rule \<Rightarrow> strfilter_node" where
  "node_of (Glob w) = SNode None None (Some w)"
| "node_of (RNot e) = SNode None (Some (node_of e)) (Some ''!'')"
| "node_of (RAnd a b) = SNode (Some (node_of a)) (Some (node_of b)) (Some ''&'')"
| "node_of (ROr a b) = SNode (Some (node_of a)) (Some (node_of b)) (Some ''|'')"

fun is_glob :: "rule \<Rightarrow> bool" where
  "is_glob (Glob w) \<longleftrightarrow> True"
| "is_glob _ \<longleftrightarrow> False"

definition parens :: "rule \<Rightarrow> string \<Rightarrow> string" where
  "parens e t = (if is_glob e then t else ''('' @ t @ '')'')"

fun rule_text :: "rule \<Rightarrow> string" where
  "rule_text (Glob w) = w"
| "rule_text (RNot e) = ''!'' @ parens e (rule_text e)"
| "rule_text (RAnd a b) = parens a (rule_text a) @ ''&'' @ parens b (rule_text b)"
| "rule_text (ROr a b) = parens a (rule_text a) @ ''|'' @ parens b (rule_text b)"

abbreviation operand_text :: "rule \<Rightarrow> string" where
  "operand_text e \<equiv> parens e (rule_text e)"

text \<open>Patterns without white space, separators and escapes.\<close>

definition plain :: "char \<Rightarrow> bool" where
  "plain c \<longleftrightarrow> c \<noteq> NUL \<and> \<not> is_separator c \<and> \<not> isspace c \<and> c \<noteq> BSL"

fun plain_rule :: "rule \<Rightarrow> bool" where
  "plain_rule (Glob w) \<longleftrightarrow> w \<noteq> [] \<and> list_all plain w"
| "plain_rule (RNot e) \<longleftrightarrow> plain_rule e"
| "plain_rule (RAnd a b) \<longleftrightarrow> plain_rule a \<and> plain_rule b"
| "plain_rule (ROr a b) \<longleftrightarrow> plain_rule a \<and> plain_rule b"

fun rule_match :: "rule \<Rightarrow> (string \<Rightarrow> bool) \<Rightarrow> bool" where
  "rule_match (Glob w) m \<longleftrightarrow> m w"
| "rule_match (RNot e) m \<longleftrightarrow> \<not> rule_match e m"
| "rule_match (RAnd a b) m \<longleftrightarrow> rule_match a m \<and> rule_match b m"
| "rule_match (ROr a b) m \<longleftrightarrow> rule_match a m \<or> rule_match b m"

section \<open>Tokens\<close>

lemmas separator_defs = is_separator_def is_operator_def

lemma not_space_separator: "is_separator c \<Longrightarrow> \<not> isspace c \<and> c \<noteq> NUL"
  by (auto simp: separator_defs isspace_iff uchar_def)

lemma not_space_nul: "\<not> isspace NUL"
  by (simp add: isspace_iff uchar_def)

lemma get_token_separator:
  assumes "is_separator c"
  shows "get_token (pre @ c # rest) (length pre) = Some (length pre, length pre + 1)"
  using assms not_space_separator [OF assms] scan_run [of isspace "[]" c pre rest]
  by (simp add: get_token_def)

lemma get_token_nul: "get_token (pre @ NUL # rest) (length pre) = Some (length pre, length pre)"
  using not_space_nul scan_run [of isspace "[]" NUL pre rest] by (simp add: get_token_def)

text \<open>What follows an operand.\<close>

definition follows :: "char \<Rightarrow> bool" where
  "follows c \<longleftrightarrow> c = NUL \<or> c = CHR '')'' \<or> c = CHR ''&'' \<or> c = CHR ''|''"

lemma token_end_word:
  assumes "list_all plain (x # w)" and "follows c"
  shows "token_end ((pre @ [x]) @ w @ c # rest) (length pre + 1) = Some (length pre + 1 + length w)"
proof -
  let ?P = "\<lambda>c. c \<noteq> NUL \<and> \<not> is_separator c \<and> \<not> isspace c"
  have w: "list_all ?P w" using assms(1) by (auto simp: plain_def list_all_iff)
  have c: "\<not> ?P c" using assms(2) by (auto simp: follows_def separator_defs)
  have before: "(pre @ x # w @ c # rest) ! (length pre + length w) = (x # w) ! length w"
    by (simp only: append_Cons [symmetric] nth_append_length_plus) (simp add: nth_append nth_Cons')
  have "plain ((x # w) ! length w)" using assms(1) by (simp only: list_all_length) simp
  then have "(x # w) ! length w \<noteq> BSL" by (simp add: plain_def)
  moreover have "c \<noteq> CHR ''!''" using assms(2) by (auto simp: follows_def)
  ultimately show ?thesis
    using scan_run [OF w c, of "pre @ [x]" rest] before
    by (subst token_end.simps) (simp add: nth_append)
qed

lemma get_token_word:
  assumes "list_all plain w" and "w \<noteq> []" and "follows c"
  shows "get_token (pre @ w @ c # rest) (length pre) = Some (length pre, length pre + length w)"
proof -
  obtain x v where w: "w = x # v" using assms(2) by (cases w) auto
  then have x: "plain x" using assms(1) by simp
  then have "scan isspace (pre @ x # v @ c # rest) (length pre) = Some (length pre)"
    using scan_run [of isspace "[]" x pre] by (simp add: plain_def)
  moreover have "token_end (pre @ x # v @ c # rest) (Suc (length pre)) = Some (Suc (length pre + length v))"
    using token_end_word [of x v c pre rest] assms w by simp
  ultimately show ?thesis using x by (simp add: get_token_def w plain_def)
qed

section \<open>Parsing\<close>

text \<open>Reading the next token and going on with it.\<close>

definition parse_from :: "char list \<Rightarrow> strfilter_node \<Rightarrow> nat \<Rightarrow> nat \<Rightarrow> nat \<Rightarrow> nat \<Rightarrow>
    (strfilter_node option \<times> nat option \<times> nat) option" where
  "parse_from buf n cur last_op p a = do {
     (s, e) \<leftarrow> get_token buf p;
     node_loop buf (\<lambda>_. True) n cur last_op s e a
   }"

lemma parse_end:
  assumes "c = NUL \<or> c = CHR '')''" and "right_child cur n = Some x"
  shows "parse_from (pre @ c # rest) n cur last_op (length pre) a = Some (sf_r n, Some (length pre), a)"
proof (cases "c = NUL")
  case True
  then show ?thesis using assms(2)
    by (simp add: parse_from_def get_token_nul) (subst node_loop.simps, simp)
next
  case False
  then have "is_separator c" using assms(1) by (simp add: separator_defs)
  then show ?thesis using False assms
    by (simp add: parse_from_def get_token_separator) (subst node_loop.simps, simp)
qed

lemma parse_and:
  assumes "right_child cur n = Some x" and "right_child k n = Some y"
  shows "parse_from (pre @ CHR ''&'' # rest) n cur k (length pre) a =
    parse_from (pre @ CHR ''&'' # rest) (set_right k (SNode (Some y) None (Some ''&'')) n)
      (Suc k) (Suc k) (Suc (length pre)) (Suc a)"
proof -
  have "is_separator (CHR ''&'')" by (simp add: separator_defs)
  then show ?thesis using assms
    by (simp add: parse_from_def get_token_separator) (subst node_loop.simps, simp)
qed

lemma parse_or:
  assumes "right_child cur n = Some x" and "sf_r n = Some y"
  shows "parse_from (pre @ CHR ''|'' # rest) n cur k (length pre) a =
    parse_from (pre @ CHR ''|'' # rest) (set_right 0 (SNode (Some y) None (Some ''|'')) n)
      1 1 (Suc (length pre)) (Suc a)"
proof -
  have "is_separator (CHR ''|'')" by (simp add: separator_defs)
  then show ?thesis using assms
    by (simp add: parse_from_def get_token_separator) (subst node_loop.simps, simp)
qed

lemma parse_not:
  assumes "right_child cur n = None"
  shows "parse_from (pre @ CHR ''!'' # rest) n cur k (length pre) a =
    parse_from (pre @ CHR ''!'' # rest) (set_right cur (SNode None None (Some ''!'')) n)
      (Suc cur) k (Suc (length pre)) (Suc a)"
proof -
  have "is_separator (CHR ''!'')" by (simp add: separator_defs)
  then show ?thesis using assms
    by (simp add: parse_from_def get_token_separator) (subst node_loop.simps, simp)
qed

lemma parse_open:
  assumes "right_child cur n = None"
    and "parse_from (pre @ CHR ''('' # t @ CHR '')'' # rest) no_node 0 0 (Suc (length pre)) a =
      Some (Some x, Some (Suc (length pre + length t)), a')"
  shows "parse_from (pre @ CHR ''('' # t @ CHR '')'' # rest) n cur k (length pre) a =
    parse_from (pre @ CHR ''('' # t @ CHR '')'' # rest) (set_right cur x n) cur k
      (Suc (Suc (length pre + length t))) a'"
proof -
  have "is_separator (CHR ''('')" by (simp add: separator_defs)
  moreover have "rd (pre @ CHR ''('' # t @ CHR '')'' # rest) (Suc (length pre + length t)) = Some (CHR '')'')"
    by (simp add: nth_append)
  moreover obtain s e where "get_token (pre @ CHR ''('' # t @ CHR '')'' # rest) (Suc (length pre)) = Some (s, e)"
    using assms(2) by (auto simp: parse_from_def bind_eq_Some_conv)
  ultimately show ?thesis using assms
    by (simp add: parse_from_def get_token_separator) (subst node_loop.simps, simp)
qed

lemma parse_word:
  assumes "right_child cur n = None" and "list_all plain w" and "w \<noteq> []" and "follows c"
  shows "parse_from (pre @ w @ c # rest) n cur k (length pre) a =
    parse_from (pre @ w @ c # rest) (set_right cur (SNode None None (Some w)) n) cur k
      (length pre + length w) (a + 2)"
proof -
  obtain x v where w: "w = x # v" using assms(3) by (cases w) auto
  then have "x \<noteq> NUL" "\<not> is_separator x" using assms(2) by (auto simp: plain_def)
  moreover have "takeWhile (\<lambda>c. c \<noteq> NUL) w = w"
    using assms(2) by (auto simp: plain_def list_all_iff)
  moreover have "rd (pre @ w @ c # rest) (length pre) = Some x" by (simp add: w)
  ultimately show ?thesis using assms(1)
    by (simp add: parse_from_def get_token_word [OF assms(2-4)] del: takeWhile_eq_all_conv)
      (subst node_loop.simps, simp add: separator_defs del: takeWhile_eq_all_conv)
qed

text \<open>
  An operand is parsed to its tree below \<open>cur\<close>, a rule up to its end to its tree.  The end is the
  terminator or a closing parenthesis.
\<close>

definition parses_operand :: "rule \<Rightarrow> bool" where
  "parses_operand e \<longleftrightarrow> (\<forall>pre c rest n cur k a. follows c \<longrightarrow> right_child cur n = None \<longrightarrow>
     (\<exists>a'. parse_from (pre @ operand_text e @ c # rest) n cur k (length pre) a =
       parse_from (pre @ operand_text e @ c # rest) (set_right cur (node_of e) n) cur k
         (length pre + length (operand_text e)) a'))"

definition parses_rule :: "rule \<Rightarrow> bool" where
  "parses_rule e \<longleftrightarrow> (\<forall>pre c rest a. c = NUL \<or> c = CHR '')'' \<longrightarrow>
     (\<exists>a'. parse_from (pre @ rule_text e @ c # rest) no_node 0 0 (length pre) a =
       Some (Some (node_of e), Some (length pre + length (rule_text e)), a')))"

lemma parses_operandE:
  assumes "parses_operand e" and "follows c" and "right_child cur n = None" and "buf = pre @ operand_text e @ c # rest"
    and "p = length pre"
  obtains a' where "parse_from buf n cur k p a =
    parse_from buf (set_right cur (node_of e) n) cur k (length pre + length (operand_text e)) a'"
  using assms unfolding parses_operand_def by blast

lemma parses_operand_compound:
  assumes "parses_rule e" and "\<not> is_glob e"
  shows "parses_operand e"
  unfolding parses_operand_def
proof (intro allI impI)
  fix pre c rest n cur k a
  assume "follows c" and "right_child cur n = None"
  obtain a' where "parse_from ((pre @ ''('') @ rule_text e @ CHR '')'' # c # rest) no_node 0 0 (length (pre @ ''('')) a =
    Some (Some (node_of e), Some (length (pre @ ''('') + length (rule_text e)), a')"
    using assms(1) unfolding parses_rule_def by blast
  then have "parse_from (pre @ operand_text e @ c # rest) n cur k (length pre) a =
       parse_from (pre @ operand_text e @ c # rest) (set_right cur (node_of e) n) cur k
         (length pre + length (operand_text e)) a'"
    using parse_open [OF \<open>right_child cur n = None\<close>, of pre "rule_text e" "c # rest" a "node_of e" a' k] assms(2)
    by (simp add: parens_def)
  then show "\<exists>a'. parse_from (pre @ operand_text e @ c # rest) n cur k (length pre) a =
       parse_from (pre @ operand_text e @ c # rest) (set_right cur (node_of e) n) cur k
         (length pre + length (operand_text e)) a'" by blast
qed

lemma parses_glob:
  assumes "plain_rule (Glob w)"
  shows "parses_operand (Glob w)" and "parses_rule (Glob w)"
proof -
  have w: "list_all plain w" "w \<noteq> []" using assms by auto
  show "parses_operand (Glob w)"
    unfolding parses_operand_def parens_def
  proof (intro allI impI)
    fix pre c rest n cur k a
    assume "follows c" and "right_child cur n = None"
    from parse_word [OF this(2) w this(1), of pre rest k a]
    show "\<exists>a'. parse_from (pre @ (if is_glob (Glob w) then rule_text (Glob w) else ''('' @ rule_text (Glob w) @ '')'') @ c # rest) n cur k (length pre) a =
      parse_from (pre @ (if is_glob (Glob w) then rule_text (Glob w) else ''('' @ rule_text (Glob w) @ '')'') @ c # rest)
        (set_right cur (node_of (Glob w)) n) cur k
        (length pre + length (if is_glob (Glob w) then rule_text (Glob w) else ''('' @ rule_text (Glob w) @ '')'')) a'"
      by auto
  qed
  show "parses_rule (Glob w)"
    unfolding parses_rule_def
  proof (intro allI impI)
    fix pre c rest a
    assume c: "c = NUL \<or> c = CHR '')''"
    then have "follows c" by (auto simp: follows_def)
    from parse_word [OF _ w this, of 0 no_node pre rest 0 a]
      parse_end [OF c, of 0 "SNode None (Some (SNode None None (Some w))) None" "SNode None None (Some w)" "pre @ w" rest 0 "a + 2"]
    show "\<exists>a'. parse_from (pre @ rule_text (Glob w) @ c # rest) no_node 0 0 (length pre) a =
       Some (Some (node_of (Glob w)), Some (length pre + length (rule_text (Glob w))), a')"
      by simp
  qed
qed

lemma parses_not:
  assumes "parses_operand e"
  shows "parses_rule (RNot e)"
  unfolding parses_rule_def
proof (intro allI impI)
  fix pre c rest a
  assume c: "c = NUL \<or> c = CHR '')''"
  then have f: "follows c" by (auto simp: follows_def)
  let ?buf = "pre @ CHR ''!'' # operand_text e @ c # rest"
  let ?n = "SNode None (Some (SNode None None (Some ''!''))) None"
  obtain a' where "parse_from ?buf ?n 1 0 (Suc (length pre)) (Suc a) =
    parse_from ?buf (set_right 1 (node_of e) ?n) 1 0 (length (pre @ ''!'') + length (operand_text e)) a'"
    by (rule parses_operandE [OF assms f, of 1 ?n ?buf "pre @ ''!''" rest]) auto
  moreover have "parse_from ?buf no_node 0 0 (length pre) a = parse_from ?buf ?n 1 0 (Suc (length pre)) (Suc a)"
    using parse_not [of 0 no_node pre] by simp
  moreover note parse_end [OF c, of 1 "set_right 1 (node_of e) ?n" "node_of e" "pre @ CHR ''!'' # operand_text e" rest 0 a']
  ultimately show "\<exists>a'. parse_from (pre @ rule_text (RNot e) @ c # rest) no_node 0 0 (length pre) a =
       Some (Some (node_of (RNot e)), Some (length pre + length (rule_text (RNot e))), a')"
    by simp
qed

lemma parses_binary:
  assumes "parses_operand l" and "parses_operand r" and "op = CHR ''&'' \<or> op = CHR ''|''"
    and c: "c = NUL \<or> c = CHR '')''"
  shows "\<exists>a'. parse_from (pre @ operand_text l @ op # operand_text r @ c # rest) no_node 0 0 (length pre) a =
    Some (Some (SNode (Some (node_of l)) (Some (node_of r)) (Some [op])),
      Some (length pre + length (operand_text l) + 1 + length (operand_text r)), a')"
proof -
  let ?buf = "pre @ operand_text l @ op # operand_text r @ c # rest"
  let ?pre = "pre @ operand_text l"
  let ?n1 = "SNode None (Some (node_of l)) None"
  let ?n2 = "SNode None (Some (SNode (Some (node_of l)) None (Some [op]))) None"
  let ?n3 = "SNode None (Some (SNode (Some (node_of l)) (Some (node_of r)) (Some [op]))) None"
  have op: "follows op" and f: "follows c" using assms(3) c by (auto simp: follows_def)
  obtain a1 where "parse_from ?buf no_node 0 0 (length pre) a =
    parse_from ?buf (set_right 0 (node_of l) no_node) 0 0 (length pre + length (operand_text l)) a1"
    by (rule parses_operandE [OF assms(1) op, of 0 no_node ?buf pre "operand_text r @ c # rest"]) auto
  moreover have "parse_from ?buf ?n1 0 0 (length ?pre) a1 = parse_from ?buf ?n2 1 1 (Suc (length ?pre)) (Suc a1)"
    using assms(3) parse_and [of 0 ?n1 "node_of l" 0 "node_of l" ?pre] parse_or [of 0 ?n1 "node_of l" "node_of l" ?pre]
    by auto
  moreover obtain a2 where "parse_from ?buf ?n2 1 1 (Suc (length ?pre)) (Suc a1) =
    parse_from ?buf (set_right 1 (node_of r) ?n2) 1 1 (length (?pre @ [op]) + length (operand_text r)) a2"
    by (rule parses_operandE [OF assms(2) f, of 1 ?n2 ?buf "?pre @ [op]" rest]) auto
  moreover note parse_end [OF c, of 1 ?n3 "node_of r" "?pre @ op # operand_text r" rest 1 a2]
  ultimately show ?thesis by (simp add: add.assoc)
qed

lemma parses: "plain_rule e \<Longrightarrow> parses_operand e \<and> parses_rule e"
proof (induction e)
  case (Glob w)
  then show ?case using parses_glob by blast
next
  case (RNot e)
  then have "parses_rule (RNot e)" using parses_not by simp
  then show ?case using parses_operand_compound [of "RNot e"] by simp
next
  case (RAnd a b)
  then have "parses_rule (RAnd a b)"
    unfolding parses_rule_def using parses_binary [of a b "CHR ''&''"] by (simp add: add.assoc)
  then show ?case using parses_operand_compound [of "RAnd a b"] by simp
next
  case (ROr a b)
  then have "parses_rule (ROr a b)"
    unfolding parses_rule_def using parses_binary [of a b "CHR ''|''"] by (simp add: add.assoc)
  then show ?case using parses_operand_compound [of "ROr a b"] by simp
qed

lemma strfilter__new_text:
  assumes "plain_rule e"
  shows "strfilter__new (Some (rule_text e @ NUL # rest)) (\<lambda>_. True) = Some (Inr \<lparr>root = Some (node_of e)\<rparr>)"
proof -
  obtain a' where "parse_from ([] @ rule_text e @ NUL # rest) no_node 0 0 (length ([] :: char list)) 1 =
      Some (Some (node_of e), Some (length ([] :: char list) + length (rule_text e)), a')"
    using parses [OF assms] unfolding parses_rule_def by blast
  then show ?thesis
    by (simp add: strfilter__new_def strfilter_node__new_def parse_from_def at_ep_def)
qed

section \<open>Comparing\<close>

text \<open>The patterns of a rule.\<close>

fun rule_globs :: "rule \<Rightarrow> string set" where
  "rule_globs (Glob w) = {w}"
| "rule_globs (RNot e) = rule_globs e"
| "rule_globs (RAnd a b) = rule_globs a \<union> rule_globs b"
| "rule_globs (ROr a b) = rule_globs a \<union> rule_globs b"

lemma plain_word_first:
  assumes "w \<noteq> []" and "list_all plain w"
  shows "\<not> is_operator (first_char w)"
  using assms by (cases w) (auto simp: first_char_def plain_def separator_defs)

lemma compare_rule:
  assumes "plain_rule e" and "\<forall>w \<in> rule_globs e. strglobmatch str (w @ [NUL]) = Some (m w)"
  shows "strfilter_node__compare (Some (node_of e)) str = Some (rule_match e m)"
  using assms
proof (induction e)
  case (Glob w)
  then show ?case using plain_word_first [of w] by (auto simp: is_operator_def)
qed (auto simp: first_char_def)

section \<open>Printing\<close>

lemma sf_r_node_of [simp]: "sf_r (node_of e) = None \<longleftrightarrow> is_glob e"
  by (cases e) auto

lemma sf_r_node_of_Some [simp]: "(\<exists>n. sf_r (node_of e) = Some n) \<longleftrightarrow> \<not> is_glob e"
  by (cases e) auto

lemma sprint_pt_length:
  assumes "strfilter_node__sprint (node_of e) mem None = Some (int (length (rule_text e)), mem)"
  shows "strfilter_node__sprint_pt (\<not> is_glob e) (\<lambda>mem buf. strfilter_node__sprint (node_of e) mem buf) mem None =
    Some (int (length (operand_text e)), mem)"
  using assms by (simp add: strfilter_node__sprint_pt_def parens_def)

lemma sprint_length:
  "plain_rule e \<Longrightarrow> strfilter_node__sprint (node_of e) mem None = Some (int (length (rule_text e)), mem)"
proof (induction e arbitrary: mem)
  case (Glob w)
  then show ?case using plain_word_first [of w] by simp
qed (simp_all add: first_char_def is_operator_def sprint_pt_length)

text \<open>The printer stores a terminator behind the text only when the text ends with a pattern.\<close>

fun ends_glob :: "rule \<Rightarrow> bool" where
  "ends_glob (Glob w) \<longleftrightarrow> True"
| "ends_glob (RNot e) \<longleftrightarrow> is_glob e"
| "ends_glob (RAnd a b) \<longleftrightarrow> is_glob b"
| "ends_glob (ROr a b) \<longleftrightarrow> is_glob b"

definition prints :: "(char list \<Rightarrow> nat option \<Rightarrow> (int \<times> char list) option) \<Rightarrow> string \<Rightarrow> bool \<Rightarrow> bool" where
  "prints pr t nul \<longleftrightarrow> (\<forall>pre gap x post. length gap = length t \<longrightarrow>
     pr (pre @ gap @ x # post) (Some (length pre)) =
       Some (int (length t), pre @ t @ (if nul then NUL else x) # post))"

lemma printsD:
  assumes "prints pr t nul" and "length gap = length t" and "mem = pre @ gap @ x # post" and "p = length pre"
  shows "pr mem (Some p) = Some (int (length t), pre @ t @ (if nul then NUL else x) # post)"
  using assms by (simp add: prints_def)

lemma wr_at: "p = length pre \<Longrightarrow> wr (pre @ x # post) p y = Some (pre @ y # post)"
  by simp

lemma wr_list_at:
  "length gap = length t \<Longrightarrow> wr_list (pre @ gap @ post) (length pre) t = Some (pre @ t @ post)"
proof (induction t arbitrary: gap pre)
  case (Cons y t)
  then obtain x g where "gap = x # g" by (cases gap) auto
  with Cons.IH [of g "pre @ [y]"] Cons.prems show ?case by simp
qed simp

lemma prints_operand:
  assumes "prints (\<lambda>mem buf. strfilter_node__sprint (node_of e) mem buf) (rule_text e) (ends_glob e)"
  shows "prints (\<lambda>mem buf. strfilter_node__sprint_pt (\<not> is_glob e)
    (\<lambda>mem buf. strfilter_node__sprint (node_of e) mem buf) mem buf) (operand_text e) (is_glob e)"
proof (cases "is_glob e")
  case True
  then have "ends_glob e" by (cases e) auto
  with True assms show ?thesis by (simp add: prints_def strfilter_node__sprint_pt_def parens_def)
next
  case False
  show ?thesis unfolding prints_def
  proof (intro allI impI)
    fix pre gap post :: "char list" and x :: char
    assume len: "length gap = length (operand_text e)"
    then have "length gap = Suc (Suc (length (rule_text e)))" using False by (simp add: parens_def)
    then obtain g0 g1 g2 where gap: "gap = g0 # g1 @ [g2]" "length g1 = length (rule_text e)"
      by (metis length_Suc_conv length_Suc_conv_rev)
    have "strfilter_node__sprint (node_of e) ((pre @ ''('') @ g1 @ g2 # x # post) (Some (length (pre @ ''(''))) =
      Some (int (length (rule_text e)), (pre @ ''('') @ rule_text e @ (if ends_glob e then NUL else g2) # x # post)"
      using assms gap(2) unfolding prints_def by blast
    then have inner: "strfilter_node__sprint (node_of e) (pre @ CHR ''('' # g1 @ g2 # x # post) (Some (Suc (length pre))) =
      Some (int (length (rule_text e)), (pre @ ''('' @ rule_text e) @ (if ends_glob e then NUL else g2) # x # post)"
      by simp
    have "wr ((pre @ ''('' @ rule_text e) @ (if ends_glob e then NUL else g2) # x # post) (Suc (length pre + length (rule_text e))) (CHR '')'') =
      Some ((pre @ ''('' @ rule_text e) @ CHR '')'' # x # post)"
      by (rule wr_at) simp
    then show "strfilter_node__sprint_pt (\<not> is_glob e) (\<lambda>mem buf. strfilter_node__sprint (node_of e) mem buf)
        (pre @ gap @ x # post) (Some (length pre)) =
      Some (int (length (operand_text e)), pre @ operand_text e @ (if is_glob e then NUL else x) # post)"
      using False inner gap by (simp add: strfilter_node__sprint_pt_def parens_def)
  qed
qed

lemma prints_binary:
  assumes "prints pl t1 nl" and "prints pr t2 nr"
  shows "prints (\<lambda>mem buf. do {
      (len, mem) \<leftarrow> pl mem buf;
      if len < 0 then Some (len, mem)
      else do {
        (mem, buf) \<leftarrow> (case buf of
           Some b \<Rightarrow> do { mem \<leftarrow> wr mem (b + nat len) op; Some (mem, Some (b + nat len + 1)) }
         | None \<Rightarrow> Some (mem, None));
        (rlen, mem) \<leftarrow> pr mem buf;
        Some (if rlen < 0 then rlen else len + 1 + rlen, mem)
      } }) (t1 @ op # t2) nr"
  unfolding prints_def
proof (intro allI impI)
  fix pre gap post :: "char list" and x :: char
  assume "length gap = length (t1 @ op # t2)"
  then have gap: "gap = take (length t1) gap @ gap ! length t1 # drop (Suc (length t1)) gap"
    by (simp add: Cons_nth_drop_Suc)
  obtain gl g gr where g: "gap = gl @ g # gr" "length gl = length t1" "length gr = length t2"
    using that [OF gap] \<open>length gap = _\<close> by simp
  have "pl (pre @ gap @ x # post) (Some (length pre)) =
    Some (int (length t1), pre @ t1 @ (if nl then NUL else g) # gr @ x # post)"
    by (rule printsD [OF assms(1) g(2)]) (simp_all add: g)
  moreover have "wr (pre @ t1 @ (if nl then NUL else g) # gr @ x # post) (length pre + length t1) op =
    Some ((pre @ t1 @ [op]) @ gr @ x # post)"
    using wr_at [of _ "pre @ t1" "if nl then NUL else g" "gr @ x # post" op] by simp
  moreover have "pr ((pre @ t1 @ [op]) @ gr @ x # post) (Some (length pre + length t1 + 1)) =
    Some (int (length t2), (pre @ t1 @ [op]) @ t2 @ (if nr then NUL else x) # post)"
    by (rule printsD [OF assms(2) g(3)]) simp_all
  ultimately show "(do {
      (len, mem) \<leftarrow> pl (pre @ gap @ x # post) (Some (length pre));
      if len < 0 then Some (len, mem)
      else do {
        (mem, buf) \<leftarrow> (case Some (length pre) of
           Some b \<Rightarrow> do { mem \<leftarrow> wr mem (b + nat len) op; Some (mem, Some (b + nat len + 1)) }
         | None \<Rightarrow> Some (mem, None));
        (rlen, mem) \<leftarrow> pr mem buf;
        Some (if rlen < 0 then rlen else len + 1 + rlen, mem)
      } }) = Some (int (length (t1 @ op # t2)), pre @ (t1 @ op # t2) @ (if nr then NUL else x) # post)"
    by simp
qed

lemma prints_nothing: "prints (\<lambda>mem buf. Some (0, mem)) [] False"
  by (simp add: prints_def)

lemma prints_rule:
  "plain_rule e \<Longrightarrow> prints (\<lambda>mem buf. strfilter_node__sprint (node_of e) mem buf) (rule_text e) (ends_glob e)"
proof (induction e)
  case (Glob w)
  have "strfilter_node__sprint (node_of (Glob w)) (pre @ gap @ x # post) (Some (length pre)) =
      Some (int (length w), pre @ w @ NUL # post)" if "length gap = length w" for pre gap post and x :: char
    using wr_list_at [of "gap @ [x]" "w @ [NUL]" pre post] plain_word_first [of w] Glob that by simp
  then show ?case by (simp add: prints_def)
next
  case (RNot e)
  then show ?case
    using prints_binary [OF prints_nothing prints_operand, of e "first_char ''!''"] by (simp add: first_char_def is_operator_def)
next
  case (RAnd a b)
  then show ?case
    using prints_binary [OF prints_operand prints_operand, of a b "first_char ''&''"]
    by (simp add: first_char_def is_operator_def cong: if_cong)
next
  case (ROr a b)
  then show ?case
    using prints_binary [OF prints_operand prints_operand, of a b "first_char ''|''"]
    by (simp add: first_char_def is_operator_def cong: if_cong)
qed

section \<open>Properties\<close>





text \<open>Behind a backslash at the end of a rule, \<open>get_token\<close> steps over the terminator and reads on.\<close>

lemma get_token_backslash: "get_token (''sys_'' @ [BSL, NUL]) 0 = None"
  by code_simp

end
