(* ===== verification/Itrace_Opts.thy ===== *)
theory Itrace_Opts
  imports C_Library
begin

text \<open>
  The options of \<^verbatim>\<open>--itrace\<close>: \<open>itrace_parse_synth_opts\<close> and \<open>itrace_synth_opts__set_default\<close> of
  \<^verbatim>\<open>util/auxtrace.c\<close>, for a machine where \<open>unsigned long\<close> has 64 bits.
\<close>

section \<open>The code\<close>

datatype itrace_period_type =
  PERF_ITRACE_PERIOD_INSTRUCTIONS
| PERF_ITRACE_PERIOD_TICKS
| PERF_ITRACE_PERIOD_NANOSECS

record itrace_synth_opts =
  opts_set :: bool
  default_no_sample :: bool
  inject :: bool
  instructions :: bool
  branches :: bool
  transactions :: bool
  ptwrites :: bool
  pwr_events :: bool
  errors :: bool
  dont_decode :: bool
  log_opt :: bool
  calls :: bool
  returns :: bool
  callchain :: bool
  thread_stack :: bool
  last_branch :: bool
  callchain_sz :: u32
  last_branch_sz :: u32
  period :: u64
  period_type :: itrace_period_type
  initial_skip :: u64
  cpu_bitmap :: "u64 list option"

abbreviation (input) PERF_ITRACE_DEFAULT_PERIOD_TYPE :: itrace_period_type where
  "PERF_ITRACE_DEFAULT_PERIOD_TYPE \<equiv> PERF_ITRACE_PERIOD_NANOSECS"

abbreviation (input) PERF_ITRACE_DEFAULT_PERIOD :: u64 where
  "PERF_ITRACE_DEFAULT_PERIOD \<equiv> 100000"

abbreviation (input) PERF_ITRACE_DEFAULT_CALLCHAIN_SZ :: u32 where
  "PERF_ITRACE_DEFAULT_CALLCHAIN_SZ \<equiv> 16"

abbreviation (input) PERF_ITRACE_MAX_CALLCHAIN_SZ :: u32 where
  "PERF_ITRACE_MAX_CALLCHAIN_SZ \<equiv> 1024"

abbreviation (input) PERF_ITRACE_DEFAULT_LAST_BRANCH_SZ :: u32 where
  "PERF_ITRACE_DEFAULT_LAST_BRANCH_SZ \<equiv> 64"

abbreviation (input) PERF_ITRACE_MAX_LAST_BRANCH_SZ :: u32 where
  "PERF_ITRACE_MAX_LAST_BRANCH_SZ \<equiv> 1024"

definition itrace_synth_opts__set_default :: "itrace_synth_opts \<Rightarrow> bool \<Rightarrow> itrace_synth_opts" where
  "itrace_synth_opts__set_default opts no_sample =
     (let opts = opts \<lparr>branches := True, transactions := True, ptwrites := True, pwr_events := True, errors := True\<rparr>;
          opts = (if no_sample
                  then opts \<lparr>period_type := PERF_ITRACE_PERIOD_INSTRUCTIONS, period := 1, calls := True\<rparr>
                  else opts \<lparr>instructions := True, period_type := PERF_ITRACE_DEFAULT_PERIOD_TYPE,
                             period := PERF_ITRACE_DEFAULT_PERIOD\<rparr>)
      in opts \<lparr>callchain_sz := PERF_ITRACE_DEFAULT_CALLCHAIN_SZ,
               last_branch_sz := PERF_ITRACE_DEFAULT_LAST_BRANCH_SZ, initial_skip := 0\<rparr>)"

text \<open>
  The parser's state: the options and the local variables \<open>period_type_set\<close> and \<open>period_set\<close>.  A case of the
  switch goes on at a position, or jumps to \<open>out\<close> or to \<open>out_err\<close>.
\<close>

record parse_state =
  synth_opts :: itrace_synth_opts
  period_type_set :: bool
  period_set :: bool

datatype flow = Next nat parse_state | Out parse_state | Out_err parse_state

definition is_gap :: "char \<Rightarrow> bool" where
  "is_gap c \<longleftrightarrow> c = CHR '' '' \<or> c = CHR '',''"

definition set_period_type :: "itrace_period_type \<Rightarrow> parse_state \<Rightarrow> parse_state" where
  "set_period_type t st =
     st \<lparr>synth_opts := (synth_opts st) \<lparr>period_type := t\<rparr>, period_type_set := True\<rparr>"

definition scale_period :: "u64 \<Rightarrow> parse_state \<Rightarrow> parse_state" where
  "scale_period k st = st \<lparr>synth_opts := (synth_opts st) \<lparr>period := period (synth_opts st) * k\<rparr>\<rparr>"

text \<open>The units behind \<open>m\<close>, \<open>u\<close> and \<open>n\<close>: an \<open>s\<close> must follow.\<close>

definition opt_nanosecs :: "char list \<Rightarrow> nat \<Rightarrow> parse_state \<Rightarrow> flow option" where
  "opt_nanosecs buf p st = do {
     c \<leftarrow> rd buf p;
     Some (if c \<noteq> CHR ''s'' then Out_err st
           else Next (p + 1) (set_period_type PERF_ITRACE_PERIOD_NANOSECS st))
   }"

definition opt_unit :: "char list \<Rightarrow> nat \<Rightarrow> parse_state \<Rightarrow> flow option" where
  "opt_unit buf p st = do {
     c \<leftarrow> rd buf p;
     if c = CHR ''i'' then Some (Next (p + 1) (set_period_type PERF_ITRACE_PERIOD_INSTRUCTIONS st))
     else if c = CHR ''t'' then Some (Next (p + 1) (set_period_type PERF_ITRACE_PERIOD_TICKS st))
     else if c = CHR ''m'' then opt_nanosecs buf (p + 1) (scale_period 1000 (scale_period 1000 st))
     else if c = CHR ''u'' then opt_nanosecs buf (p + 1) (scale_period 1000 st)
     else if c = CHR ''n'' then opt_nanosecs buf (p + 1) st
     else if c = NUL then Some (Out st)
     else Some (Out_err st)
   }"

definition opt_instructions :: "char list \<Rightarrow> nat \<Rightarrow> parse_state \<Rightarrow> flow option" where
  "opt_instructions buf p st = do {
     let st = st \<lparr>synth_opts := (synth_opts st) \<lparr>instructions := True\<rparr>\<rparr>;
     p \<leftarrow> scan is_gap buf p;
     c \<leftarrow> rd buf p;
     if isdigit c then do {
       (v, p) \<leftarrow> strtoull buf p;
       let st = st \<lparr>synth_opts := (synth_opts st) \<lparr>period := v\<rparr>, period_set := True\<rparr>;
       p \<leftarrow> scan is_gap buf p;
       opt_unit buf p st
     }
     else Some (Next p st)
   }"

text \<open>The sizes: \<open>val\<close> is an \<open>unsigned int\<close>, which the result of \<open>strtoul\<close> is cut to.\<close>

definition opt_callchain :: "char list \<Rightarrow> nat \<Rightarrow> parse_state \<Rightarrow> flow option" where
  "opt_callchain buf p st = do {
     let st = st \<lparr>synth_opts := (synth_opts st) \<lparr>callchain := True, callchain_sz := PERF_ITRACE_DEFAULT_CALLCHAIN_SZ\<rparr>\<rparr>;
     p \<leftarrow> scan is_gap buf p;
     c \<leftarrow> rd buf p;
     if isdigit c then do {
       (v, p) \<leftarrow> strtoull buf p;
       let val = (ucast v :: u32);
       if val = 0 \<or> val > PERF_ITRACE_MAX_CALLCHAIN_SZ then Some (Out_err st)
       else Some (Next p (st \<lparr>synth_opts := (synth_opts st) \<lparr>callchain_sz := val\<rparr>\<rparr>))
     }
     else Some (Next p st)
   }"

definition opt_last_branch :: "char list \<Rightarrow> nat \<Rightarrow> parse_state \<Rightarrow> flow option" where
  "opt_last_branch buf p st = do {
     let st = st \<lparr>synth_opts := (synth_opts st) \<lparr>last_branch := True, last_branch_sz := PERF_ITRACE_DEFAULT_LAST_BRANCH_SZ\<rparr>\<rparr>;
     p \<leftarrow> scan is_gap buf p;
     c \<leftarrow> rd buf p;
     if isdigit c then do {
       (v, p) \<leftarrow> strtoull buf p;
       let val = (ucast v :: u32);
       if val = 0 \<or> val > PERF_ITRACE_MAX_LAST_BRANCH_SZ then Some (Out_err st)
       else Some (Next p (st \<lparr>synth_opts := (synth_opts st) \<lparr>last_branch_sz := val\<rparr>\<rparr>))
     }
     else Some (Next p st)
   }"

definition opt_skip :: "char list \<Rightarrow> nat \<Rightarrow> parse_state \<Rightarrow> flow option" where
  "opt_skip buf p st = do {
     (v, e) \<leftarrow> strtoull buf p;
     let st = st \<lparr>synth_opts := (synth_opts st) \<lparr>initial_skip := v\<rparr>\<rparr>;
     Some (if p = e then Out_err st else Next e st)
   }"

definition set_flag :: "char \<Rightarrow> itrace_synth_opts \<Rightarrow> itrace_synth_opts option" where
  "set_flag c opts =
     (if c = CHR ''b'' then Some (opts \<lparr>branches := True\<rparr>)
      else if c = CHR ''x'' then Some (opts \<lparr>transactions := True\<rparr>)
      else if c = CHR ''w'' then Some (opts \<lparr>ptwrites := True\<rparr>)
      else if c = CHR ''p'' then Some (opts \<lparr>pwr_events := True\<rparr>)
      else if c = CHR ''e'' then Some (opts \<lparr>errors := True\<rparr>)
      else if c = CHR ''d'' then Some (opts \<lparr>log_opt := True\<rparr>)
      else if c = CHR ''c'' then Some (opts \<lparr>branches := True, calls := True\<rparr>)
      else if c = CHR ''r'' then Some (opts \<lparr>branches := True, returns := True\<rparr>)
      else None)"

text \<open>The switch, for the character before \<open>p\<close>.\<close>

definition parse_opt :: "char list \<Rightarrow> char \<Rightarrow> nat \<Rightarrow> parse_state \<Rightarrow> flow option" where
  "parse_opt buf c p st =
     (if c = CHR ''i'' then opt_instructions buf p st
      else if c = CHR ''g'' then opt_callchain buf p st
      else if c = CHR ''l'' then opt_last_branch buf p st
      else if c = CHR ''s'' then opt_skip buf p st
      else if c = CHR '' '' \<or> c = CHR '','' then Some (Next p st)
      else case set_flag c (synth_opts st) of
        Some opts \<Rightarrow> Some (Next p (st \<lparr>synth_opts := opts\<rparr>))
      | None \<Rightarrow> Some (Out_err st))"

definition parse_out :: "parse_state \<Rightarrow> itrace_synth_opts" where
  "parse_out st =
     (let opts = synth_opts st in
      if instructions opts then
        let opts = (if \<not> period_type_set st then opts \<lparr>period_type := PERF_ITRACE_DEFAULT_PERIOD_TYPE\<rparr> else opts)
        in (if \<not> period_set st then opts \<lparr>period := PERF_ITRACE_DEFAULT_PERIOD\<rparr> else opts)
      else opts)"

partial_function (option) opts_loop :: "char list \<Rightarrow> nat \<Rightarrow> parse_state \<Rightarrow> (int \<times> itrace_synth_opts) option" where
  "opts_loop buf p st = do {
     c \<leftarrow> rd buf p;
     if c = NUL then Some (0, parse_out st)
     else do {
       f \<leftarrow> parse_opt buf c (p + 1) st;
       case f of
         Next p st \<Rightarrow> opts_loop buf p st
       | Out st \<Rightarrow> Some (0, parse_out st)
       | Out_err st \<Rightarrow> Some (- EINVAL, synth_opts st)
     }
   }"

definition itrace_parse_synth_opts ::
  "itrace_synth_opts \<Rightarrow> char list option \<Rightarrow> bool \<Rightarrow> (int \<times> itrace_synth_opts) option"
where
  "itrace_parse_synth_opts opts str unset =
     (let opts = opts \<lparr>opts_set := True\<rparr> in
      if unset then Some (0, opts \<lparr>dont_decode := True\<rparr>)
      else case str of
        None \<Rightarrow> Some (0, itrace_synth_opts__set_default opts False)
      | Some buf \<Rightarrow> opts_loop buf 0 \<lparr>synth_opts = opts, period_type_set = False, period_set = False\<rparr>)"

declare opts_loop.simps [code]

section \<open>Every option string is parsed\<close>

text \<open>The promise to the users of the options: the sizes are in their range when they are used.\<close>

definition opts_ok :: "itrace_synth_opts \<Rightarrow> bool" where
  "opts_ok opts \<longleftrightarrow>
     (callchain opts \<longrightarrow> callchain_sz opts \<noteq> 0 \<and> callchain_sz opts \<le> PERF_ITRACE_MAX_CALLCHAIN_SZ) \<and>
     (last_branch opts \<longrightarrow> last_branch_sz opts \<noteq> 0 \<and> last_branch_sz opts \<le> PERF_ITRACE_MAX_LAST_BRANCH_SZ)"

definition flow_ok :: "nat \<Rightarrow> nat \<Rightarrow> flow \<Rightarrow> bool" where
  "flow_ok p n f = (case f of
     Next q st \<Rightarrow> p \<le> q \<and> q \<le> n \<and> opts_ok (synth_opts st)
   | Out st \<Rightarrow> opts_ok (synth_opts st)
   | Out_err st \<Rightarrow> opts_ok (synth_opts st))"

lemma flow_ok_simps [simp]:
  "flow_ok p n (Next q st) \<longleftrightarrow> p \<le> q \<and> q \<le> n \<and> opts_ok (synth_opts st)"
  "flow_ok p n (Out st) \<longleftrightarrow> opts_ok (synth_opts st)"
  "flow_ok p n (Out_err st) \<longleftrightarrow> opts_ok (synth_opts st)"
  by (simp_all add: flow_ok_def)

lemma scan_total:
  assumes "\<not> P NUL" and "p \<le> length s"
  obtains q where "scan P (s @ NUL # rest) p = Some q" and "p \<le> q" and "q \<le> length s"
proof -
  have "p + length (takeWhile P (drop p s)) \<le> length s"
    using length_takeWhile_le [of P "drop p s"] assms(2) by simp
  then show ?thesis using scan_spec [of P p s rest] assms that by simp
qed

lemma nul_position:
  assumes "p \<le> length s" and "(s @ NUL # rest) ! p \<noteq> NUL"
  shows "Suc p \<le> length s"
  using assms by (cases "p = length s") auto

lemma digits_total:
  "p \<le> length s \<Longrightarrow> \<exists>v e. digits_loop (s @ NUL # rest) p acc = Some (v, e) \<and> p \<le> e \<and> e \<le> length s"
proof (induction "length s - p" arbitrary: p acc rule: less_induct)
  case less
  let ?c = "(s @ NUL # rest) ! p"
  show ?case
  proof (cases "isdigit ?c")
    case True
    then have "Suc p \<le> length s" using nul_position [OF less.prems] digit_not by metis
    then obtain v e where "digits_loop (s @ NUL # rest) (Suc p) (10 * acc + digit_val ?c) = Some (v, e)"
        "Suc p \<le> e" "e \<le> length s"
      using less.hyps [of "Suc p"] by (metis Suc_le_eq diff_less_mono2 lessI)
    then show ?thesis using True less.prems by (subst digits_loop.simps) simp
  next
    case False
    then show ?thesis using less.prems by (subst digits_loop.simps) simp
  qed
qed

lemma strtoull_total:
  assumes "p \<le> length s"
  obtains v e where "strtoull (s @ NUL # rest) p = Some (v, e)" and "p \<le> e" and "e \<le> length s"
proof -
  have "\<not> c_isspace NUL" by (simp add: c_isspace_def uchar_def)
  then obtain q where q: "scan c_isspace (s @ NUL # rest) p = Some q" "p \<le> q" "q \<le> length s"
    using scan_total [of c_isspace p s rest] assms by blast
  define c where "c = (s @ NUL # rest) ! q"
  define q' where "q' = (if c = CHR ''-'' \<or> c = CHR ''+'' then q + 1 else q)"
  have "c \<noteq> NUL \<longrightarrow> Suc q \<le> length s" using nul_position q(3) c_def by blast
  then have "q' \<le> length s" using q(3) by (auto simp: q'_def)
  from digits_total [OF this, of rest 0]
  obtain v e where "digits_loop (s @ NUL # rest) q' 0 = Some (v, e)" "q' \<le> e" "e \<le> length s" by blast
  then have "\<exists>neg v e. strtol10 (s @ NUL # rest) p = Some (neg, v, e) \<and> p \<le> e \<and> e \<le> length s"
    using q assms by (auto simp: strtol10_def q'_def c_def Let_def split: if_splits)
  then show ?thesis using that by (auto simp: strtoull_def)
qed

lemma not_gap_nul: "\<not> is_gap NUL"
  by (simp add: is_gap_def)

lemma opt_nanosecs_total:
  "p \<le> length s \<Longrightarrow> opts_ok (synth_opts st) \<Longrightarrow>
    \<exists>f. opt_nanosecs (s @ NUL # rest) p st = Some f \<and> flow_ok p (length s) f"
  using nul_position [of p s rest]
  by (auto simp: opt_nanosecs_def set_period_type_def opts_ok_def)

lemma opt_unit_total:
  assumes "p \<le> length s" and "opts_ok (synth_opts st)"
  shows "\<exists>f. opt_unit (s @ NUL # rest) p st = Some f \<and> flow_ok p (length s) f"
proof -
  have ok: "opts_ok (synth_opts (scale_period k st'))" if "opts_ok (synth_opts st')" for k st'
    using that by (simp add: scale_period_def opts_ok_def)
  have weak: "flow_ok p n f" if "flow_ok (Suc p) n f" for n f using that by (cases f) auto
  have "\<exists>f. opt_nanosecs (s @ NUL # rest) (Suc p) st' = Some f \<and> flow_ok p (length s) f"
    if "(s @ NUL # rest) ! p \<noteq> NUL" "opts_ok (synth_opts st')" for st'
    using opt_nanosecs_total [of "Suc p" s st' rest] nul_position [OF assms(1)] weak that by blast
  from this [OF _ assms(2)] this [OF _ ok [OF assms(2)]] this [OF _ ok [OF ok [OF assms(2)]]] nul_position [OF assms(1), of rest]
  show ?thesis using assms
    by (auto simp: opt_unit_def set_period_type_def opts_ok_def)
qed

lemma opt_instructions_total:
  assumes "p \<le> length s" and "opts_ok (synth_opts st)"
  shows "\<exists>f. opt_instructions (s @ NUL # rest) p st = Some f \<and> flow_ok p (length s) f"
proof -
  let ?st = "st \<lparr>synth_opts := (synth_opts st) \<lparr>instructions := True\<rparr>\<rparr>"
  have weak: "flow_ok p n f" if "flow_ok q n f" "p \<le> q" for q n f using that by (cases f) auto
  obtain q where q: "scan is_gap (s @ NUL # rest) p = Some q" "p \<le> q" "q \<le> length s"
    using scan_total [of is_gap p s rest] assms(1) not_gap_nul by blast
  obtain v e where e: "strtoull (s @ NUL # rest) q = Some (v, e)" "q \<le> e" "e \<le> length s"
    using strtoull_total [OF q(3)] by blast
  obtain r where r: "scan is_gap (s @ NUL # rest) e = Some r" "e \<le> r" "r \<le> length s"
    using scan_total [of is_gap e s rest] e(3) not_gap_nul by blast
  let ?st' = "?st \<lparr>synth_opts := (synth_opts ?st) \<lparr>period := v\<rparr>, period_set := True\<rparr>"
  have "opts_ok (synth_opts ?st')" using assms(2) by (simp add: opts_ok_def)
  from opt_unit_total [OF r(3) this, of rest] obtain f where
    "opt_unit (s @ NUL # rest) r ?st' = Some f" "flow_ok p (length s) f"
    using weak q(2) e(2) r(2) by (meson order_trans)
  moreover have "opts_ok (synth_opts ?st)" using assms(2) by (simp add: opts_ok_def)
  ultimately show ?thesis using q e r by (simp add: opt_instructions_def Let_def)
qed

lemma opt_callchain_total:
  assumes "p \<le> length s" and "opts_ok (synth_opts st)"
  shows "\<exists>f. opt_callchain (s @ NUL # rest) p st = Some f \<and> flow_ok p (length s) f"
proof -
  obtain q where q: "scan is_gap (s @ NUL # rest) p = Some q" "p \<le> q" "q \<le> length s"
    using scan_total [of is_gap p s rest] assms(1) not_gap_nul by blast
  obtain v e where e: "strtoull (s @ NUL # rest) q = Some (v, e)" "q \<le> e" "e \<le> length s"
    using strtoull_total [OF q(3)] by blast
  show ?thesis using q e assms(2)
    by (auto simp: opt_callchain_def opts_ok_def Let_def not_less)
qed

lemma opt_last_branch_total:
  assumes "p \<le> length s" and "opts_ok (synth_opts st)"
  shows "\<exists>f. opt_last_branch (s @ NUL # rest) p st = Some f \<and> flow_ok p (length s) f"
proof -
  obtain q where q: "scan is_gap (s @ NUL # rest) p = Some q" "p \<le> q" "q \<le> length s"
    using scan_total [of is_gap p s rest] assms(1) not_gap_nul by blast
  obtain v e where e: "strtoull (s @ NUL # rest) q = Some (v, e)" "q \<le> e" "e \<le> length s"
    using strtoull_total [OF q(3)] by blast
  show ?thesis using q e assms(2)
    by (auto simp: opt_last_branch_def opts_ok_def Let_def not_less)
qed

lemma opt_skip_total:
  assumes "p \<le> length s" and "opts_ok (synth_opts st)"
  shows "\<exists>f. opt_skip (s @ NUL # rest) p st = Some f \<and> flow_ok p (length s) f"
proof -
  obtain v e where "strtoull (s @ NUL # rest) p = Some (v, e)" "p \<le> e" "e \<le> length s"
    using strtoull_total [OF assms(1)] by blast
  then show ?thesis using assms(2) by (simp add: opt_skip_def opts_ok_def Let_def)
qed

lemma set_flag_ok: "set_flag c opts = Some opts' \<Longrightarrow> opts_ok opts' \<longleftrightarrow> opts_ok opts"
proof -
  have "pred_option (\<lambda>opts'. opts_ok opts' \<longleftrightarrow> opts_ok opts) (set_flag c opts)"
    by (simp add: set_flag_def opts_ok_def)
  then show "set_flag c opts = Some opts' \<Longrightarrow> opts_ok opts' \<longleftrightarrow> opts_ok opts" by simp
qed

lemma parse_opt_total:
  assumes "p \<le> length s" and "opts_ok (synth_opts st)"
  shows "\<exists>f. parse_opt (s @ NUL # rest) c p st = Some f \<and> flow_ok p (length s) f"
  using opt_instructions_total [OF assms] opt_callchain_total [OF assms] opt_last_branch_total [OF assms]
    opt_skip_total [OF assms] assms set_flag_ok [of c "synth_opts st"]
  by (auto simp: parse_opt_def split: option.split)

lemma parse_out_ok: "opts_ok (synth_opts st) \<Longrightarrow> opts_ok (parse_out st)"
  by (simp add: parse_out_def Let_def opts_ok_def)

lemma opts_loop_total:
  "p \<le> length s \<Longrightarrow> opts_ok (synth_opts st) \<Longrightarrow>
    \<exists>r opts. opts_loop (s @ NUL # rest) p st = Some (r, opts) \<and> (r = 0 \<or> r = - EINVAL) \<and> opts_ok opts"
proof (induction "length s - p" arbitrary: p st rule: less_induct)
  case less
  show ?case
  proof (cases "(s @ NUL # rest) ! p = NUL")
    case True
    then show ?thesis using less.prems parse_out_ok by (subst opts_loop.simps) simp
  next
    case False
    then have p: "Suc p \<le> length s" using nul_position [OF less.prems(1)] by blast
    obtain f where f: "parse_opt (s @ NUL # rest) ((s @ NUL # rest) ! p) (Suc p) st = Some f" "flow_ok (Suc p) (length s) f"
      using parse_opt_total [OF p less.prems(2)] by blast
    have "\<exists>r opts. (case f of Next p st \<Rightarrow> opts_loop (s @ NUL # rest) p st | Out st \<Rightarrow> Some (0, parse_out st)
        | Out_err st \<Rightarrow> Some (- EINVAL, synth_opts st)) = Some (r, opts) \<and> (r = 0 \<or> r = - EINVAL) \<and> opts_ok opts"
    proof (cases f)
      case (Next q st')
      then have "length s - q < length s - p" using f(2) p by auto
      then show ?thesis using less.hyps [of q st'] f(2) Next by simp
    qed (use f(2) parse_out_ok in simp_all)
    then show ?thesis using False less.prems f(1) by (subst opts_loop.simps) simp
  qed
qed

section \<open>What an option string means\<close>

text \<open>
  The option strings of the manual page: letters with optional numbers and units, with spaces and commas
  anywhere between them.  The effect of an option is stated on the parser's variables.
\<close>

datatype period_unit = Unit_i | Unit_t | Unit_ms | Unit_us | Unit_ns

fun unit_text :: "period_unit \<Rightarrow> string" where
  "unit_text Unit_i = ''i''"
| "unit_text Unit_t = ''t''"
| "unit_text Unit_ms = ''ms''"
| "unit_text Unit_us = ''us''"
| "unit_text Unit_ns = ''ns''"

fun unit_type :: "period_unit \<Rightarrow> itrace_period_type" where
  "unit_type Unit_i = PERF_ITRACE_PERIOD_INSTRUCTIONS"
| "unit_type Unit_t = PERF_ITRACE_PERIOD_TICKS"
| "unit_type _ = PERF_ITRACE_PERIOD_NANOSECS"

fun unit_factor :: "period_unit \<Rightarrow> nat" where
  "unit_factor Unit_ms = 1000000"
| "unit_factor Unit_us = 1000"
| "unit_factor _ = 1"

datatype item =
  Flag char
| Gap char
| Instr "(string \<times> nat \<times> string \<times> period_unit) option"
| Chain "(string \<times> nat) option"
| Branch "(string \<times> nat) option"
| Skip nat

fun item_text :: "item \<Rightarrow> string" where
  "item_text (Flag c) = [c]"
| "item_text (Gap c) = [c]"
| "item_text (Instr None) = ''i''"
| "item_text (Instr (Some (g, n, h, u))) = ''i'' @ g @ fmt_u n @ h @ unit_text u"
| "item_text (Chain None) = ''g''"
| "item_text (Chain (Some (g, n))) = ''g'' @ g @ fmt_u n"
| "item_text (Branch None) = ''l''"
| "item_text (Branch (Some (g, n))) = ''l'' @ g @ fmt_u n"
| "item_text (Skip n) = ''s'' @ fmt_u n"

fun item_ok :: "item \<Rightarrow> bool" where
  "item_ok (Flag c) \<longleftrightarrow> c \<in> set ''bxwpedcr''"
| "item_ok (Gap c) \<longleftrightarrow> is_gap c"
| "item_ok (Instr None) \<longleftrightarrow> True"
| "item_ok (Instr (Some (g, n, h, u))) \<longleftrightarrow> list_all is_gap g \<and> list_all is_gap h \<and> n < 2 ^ 64"
| "item_ok (Chain None) \<longleftrightarrow> True"
| "item_ok (Chain (Some (g, n))) \<longleftrightarrow> list_all is_gap g \<and> n < 2 ^ 64 \<and> 0 < n mod 2 ^ 32 \<and> n mod 2 ^ 32 \<le> 1024"
| "item_ok (Branch None) \<longleftrightarrow> True"
| "item_ok (Branch (Some (g, n))) \<longleftrightarrow> list_all is_gap g \<and> n < 2 ^ 64 \<and> 0 < n mod 2 ^ 32 \<and> n mod 2 ^ 32 \<le> 1024"
| "item_ok (Skip n) \<longleftrightarrow> n < 2 ^ 64"

definition flag_effect :: "char \<Rightarrow> itrace_synth_opts \<Rightarrow> itrace_synth_opts" where
  "flag_effect c opts = opts
     \<lparr>branches := branches opts \<or> c \<in> set ''bcr'', transactions := transactions opts \<or> c = CHR ''x'',
      ptwrites := ptwrites opts \<or> c = CHR ''w'', pwr_events := pwr_events opts \<or> c = CHR ''p'',
      errors := errors opts \<or> c = CHR ''e'', log_opt := log_opt opts \<or> c = CHR ''d'',
      calls := calls opts \<or> c = CHR ''c'', returns := returns opts \<or> c = CHR ''r''\<rparr>"

fun item_effect :: "item \<Rightarrow> parse_state \<Rightarrow> parse_state" where
  "item_effect (Flag c) st = st \<lparr>synth_opts := flag_effect c (synth_opts st)\<rparr>"
| "item_effect (Gap c) st = st"
| "item_effect (Instr None) st = st \<lparr>synth_opts := (synth_opts st) \<lparr>instructions := True\<rparr>\<rparr>"
| "item_effect (Instr (Some (g, n, h, u))) st =
     \<lparr>synth_opts = (synth_opts st)
        \<lparr>instructions := True, period := of_nat (n * unit_factor u), period_type := unit_type u\<rparr>,
      period_type_set = True, period_set = True\<rparr>"
| "item_effect (Chain x) st = st \<lparr>synth_opts := (synth_opts st)
     \<lparr>callchain := True, callchain_sz := (case x of None \<Rightarrow> 16 | Some (g, n) \<Rightarrow> of_nat n)\<rparr>\<rparr>"
| "item_effect (Branch x) st = st \<lparr>synth_opts := (synth_opts st)
     \<lparr>last_branch := True, last_branch_sz := (case x of None \<Rightarrow> 64 | Some (g, n) \<Rightarrow> of_nat n)\<rparr>\<rparr>"
| "item_effect (Skip n) st = st \<lparr>synth_opts := (synth_opts st) \<lparr>initial_skip := of_nat n\<rparr>\<rparr>"

definition items_text :: "item list \<Rightarrow> string" where
  "items_text its = concat (map item_text its)"

text \<open>The text behind an option has no digit before its next letter.\<close>

definition quiet :: "char list \<Rightarrow> bool" where
  "quiet t \<longleftrightarrow> (\<exists>g c u. t = g @ c # u \<and> list_all is_gap g \<and> \<not> is_gap c \<and> \<not> isdigit c)"

lemma gap_not_digit: "is_gap c \<Longrightarrow> \<not> isdigit c"
  by (auto simp: is_gap_def isdigit_iff uchar_def)

lemma digit_not_gap: "isdigit c \<Longrightarrow> \<not> is_gap c"
  using gap_not_digit by blast

lemma quiet_head: "quiet t \<Longrightarrow> \<exists>c u. t = c # u \<and> \<not> isdigit c"
proof -
  assume "quiet t"
  then obtain g c u where "t = g @ c # u" "list_all is_gap g" "\<not> isdigit c" by (auto simp: quiet_def)
  then show ?thesis using gap_not_digit by (cases g) auto
qed

lemma letter_simps [simp]:
  "\<not> is_gap (CHR ''i'')" "\<not> is_gap (CHR ''g'')" "\<not> is_gap (CHR ''l'')" "\<not> is_gap (CHR ''s'')"
  "\<not> isdigit (CHR ''i'')" "\<not> isdigit (CHR ''g'')" "\<not> isdigit (CHR ''l'')" "\<not> isdigit (CHR ''s'')"
  by (simp_all add: is_gap_def isdigit_iff uchar_def)

lemma quiet_letter: "\<not> is_gap c \<Longrightarrow> \<not> isdigit c \<Longrightarrow> quiet (c # t)"
  unfolding quiet_def by (rule exI [of _ "[]"]) simp

lemma quiet_gap: "is_gap c \<Longrightarrow> quiet t \<Longrightarrow> quiet (c # t)"
  unfolding quiet_def by (metis append_Cons list.pred_inject(2))

lemma quiet_item: "item_ok it \<Longrightarrow> quiet t \<Longrightarrow> quiet (item_text it @ t)"
proof (induction it rule: item_text.induct)
  case (1 c)
  then have "\<not> is_gap c" "\<not> isdigit c" by (auto simp: is_gap_def isdigit_iff uchar_def)
  then show ?case by (simp add: quiet_letter)
qed (simp_all add: quiet_letter quiet_gap)

lemma quiet_items: "list_all item_ok its \<Longrightarrow> quiet (items_text its @ NUL # rest)"
proof (induction its)
  case Nil
  have "\<not> isdigit NUL" by (simp add: isdigit_iff uchar_def)
  then show ?case using not_gap_nul by (simp add: items_text_def quiet_letter)
next
  case (Cons it its)
  then show ?case using quiet_item [of it] by (simp add: items_text_def)
qed

lemma strtoull_fmt_u:
  assumes "n < 2 ^ 64" and "\<not> isdigit c"
  shows "strtoull (pre @ fmt_u n @ c # rest) (length pre) = Some (of_nat n, length pre + length (fmt_u n))"
  using assms strtol10_fmt_u [of c pre n rest] by (simp add: strtoull_def)

lemma fmt_u_first:
  obtains d t where "fmt_u n = d # t" and "isdigit d" and "\<not> is_gap d"
  using fmt_u_digits [of n] digit_not_gap by (cases "fmt_u n") auto

text \<open>Reading a number behind a gap.\<close>

lemma read_number:
  assumes "list_all is_gap g" and "n < 2 ^ 64" and "\<not> isdigit c" and buf_def: "buf = pre @ g @ fmt_u n @ c # rest"
  shows "scan is_gap buf (length pre) = Some (length pre + length g)"
    and "\<exists>d. rd buf (length pre + length g) = Some d \<and> isdigit d"
    and "strtoull buf (length pre + length g) = Some (of_nat n, length pre + length g + length (fmt_u n))"
proof -
  obtain d t where d: "fmt_u n = d # t" "isdigit d" "\<not> is_gap d" by (rule fmt_u_first)
  show "scan is_gap buf (length pre) = Some (length pre + length g)"
    using scan_run [OF assms(1) d(3), of pre "t @ c # rest"] d(1) by (simp add: buf_def)
  show "\<exists>d. rd buf (length pre + length g) = Some d \<and> isdigit d"
    using d nth_append_length [of "pre @ g" d "t @ c # rest"] by (simp add: buf_def)
  show "strtoull buf (length pre + length g) = Some (of_nat n, length pre + length g + length (fmt_u n))"
    using strtoull_fmt_u [OF assms(2,3), of "pre @ g" rest] by (simp add: buf_def)
qed

lemma skip_gaps:
  "list_all is_gap g \<Longrightarrow> opts_loop (pre @ g @ t) (length pre) st = opts_loop (pre @ g @ t) (length pre + length g) st"
proof (induction g arbitrary: pre)
  case (Cons c g)
  then have "c = CHR '' '' \<or> c = CHR '',''" by (simp add: is_gap_def)
  then have "opts_loop (pre @ (c # g) @ t) (length pre) st = opts_loop (pre @ (c # g) @ t) (Suc (length pre)) st"
    by (subst opts_loop.simps) (auto simp: parse_opt_def)
  also have "\<dots> = opts_loop (pre @ (c # g) @ t) (length pre + length (c # g)) st"
    using Cons.IH [of "pre @ [c]"] Cons.prems by simp
  finally show ?case .
qed simp

text \<open>One option: what remains to be shown is the case of the switch.\<close>

lemma loop_item:
  assumes "c \<noteq> NUL" and "parse_opt (pre @ c # t) c (Suc (length pre)) st = Some (Next p st')"
  shows "opts_loop (pre @ c # t) (length pre) st = opts_loop (pre @ c # t) p st'"
  using assms by (subst opts_loop.simps) simp

text \<open>An option without a number skips the gap behind it.\<close>

lemma loop_bare:
  assumes "c \<noteq> NUL" and "quiet t"
    and "\<And>p d. scan is_gap (pre @ c # t) (Suc (length pre)) = Some p \<Longrightarrow> rd (pre @ c # t) p = Some d \<Longrightarrow> \<not> isdigit d \<Longrightarrow>
      parse_opt (pre @ c # t) c (Suc (length pre)) st = Some (Next p st')"
  shows "opts_loop (pre @ c # t) (length pre) st = opts_loop (pre @ c # t) (Suc (length pre)) st'"
proof -
  obtain g d u where t: "t = g @ d # u" "list_all is_gap g" "\<not> is_gap d" "\<not> isdigit d"
    using assms(2) by (auto simp: quiet_def)
  have "scan is_gap (pre @ c # t) (Suc (length pre)) = Some (Suc (length pre + length g))"
    using scan_run [OF t(2,3), of "pre @ [c]" u] t(1) by simp
  moreover have "rd (pre @ c # t) (Suc (length pre + length g)) = Some d"
    using nth_append_length [of "pre @ c # g" d u] t(1) by simp
  ultimately have "opts_loop (pre @ c # t) (length pre) st = opts_loop (pre @ c # t) (Suc (length pre + length g)) st'"
    using loop_item [OF assms(1,3)] t(4) by blast
  then show ?thesis using skip_gaps [OF t(2), of "pre @ [c]" "d # u" st'] t(1) by simp
qed

lemma opt_unit_text:
  assumes "t = unit_text u @ v"
  shows "opt_unit (pre @ t) (length pre) st = Some (Next (length pre + length (unit_text u))
    (set_period_type (unit_type u) (scale_period (of_nat (unit_factor u)) st)))"
proof -
  have scale: "scale_period 1 st = st" "scale_period 1000 (scale_period 1000 st) = scale_period 1000000 st"
    by (simp_all add: scale_period_def mult.assoc)
  show ?thesis
    using assms scale by (cases u) (simp_all add: opt_unit_def opt_nanosecs_def nth_append)
qed

lemma set_flag_effect: "c \<in> set ''bxwpedcr'' \<Longrightarrow> set_flag c opts = Some (flag_effect c opts)"
  by (elim set_ConsD [elim_format] disjE) (auto simp: set_flag_def flag_effect_def)

lemma size_ok:
  assumes "0 < n mod 2 ^ 32" and "n mod 2 ^ 32 \<le> 1024"
  shows "(ucast (of_nat n :: u64) :: u32) = of_nat n" and "(of_nat n :: u32) \<noteq> 0" and "\<not> (of_nat n :: u32) > 1024"
proof -
  show "(ucast (of_nat n :: u64) :: u32) = of_nat n" by (simp add: unsigned_of_nat word_of_nat_eq_iff)
  have "unat (of_nat n :: u32) = n mod 2 ^ 32" by (simp add: unat_of_nat)
  then show "(of_nat n :: u32) \<noteq> 0" and "\<not> (of_nat n :: u32) > 1024"
    using assms by (auto simp: word_less_nat_alt)
qed

lemma loop_number:
  assumes "list_all is_gap g" and "n < 2 ^ 64" and "quiet t" and "c \<noteq> NUL"
    and "\<And>buf p d. scan is_gap buf (Suc (length pre)) = Some p \<Longrightarrow> rd buf p = Some d \<Longrightarrow> isdigit d \<Longrightarrow>
      strtoull buf p = Some (of_nat n, p + length (fmt_u n)) \<Longrightarrow>
      parse_opt buf c (Suc (length pre)) st = Some (Next (p + length (fmt_u n)) st')"
  shows "opts_loop (pre @ (c # g @ fmt_u n) @ t) (length pre) st =
    opts_loop (pre @ (c # g @ fmt_u n) @ t) (length pre + length (c # g @ fmt_u n)) st'"
proof -
  obtain d u where d: "t = d # u" "\<not> isdigit d" using quiet_head [OF assms(3)] by blast
  let ?buf = "pre @ (c # g @ fmt_u n) @ t"
  have "?buf = (pre @ [c]) @ g @ fmt_u n @ d # u" using d(1) by simp
  note num = read_number [OF assms(1,2) d(2) this]
  obtain x where x: "rd ?buf (length (pre @ [c]) + length g) = Some x" "isdigit x" using num(2) by blast
  show ?thesis
    using loop_item [OF assms(4), of pre "g @ fmt_u n @ t" st] assms(5) [OF _ x] num(1,3) by (simp add: add.assoc)
qed

lemma unit_first:
  obtains c w where "unit_text u = c # w" and "\<not> is_gap c" and "\<not> isdigit c"
proof -
  have "\<exists>c w. unit_text u = c # w \<and> \<not> is_gap c \<and> \<not> isdigit c"
    by (cases u) (simp_all add: is_gap_def isdigit_iff uchar_def)
  then show ?thesis using that by blast
qed

lemma parse_period:
  assumes "item_ok (Instr (Some (g, n, h, u)))"
  shows "parse_opt (pre @ CHR ''i'' # g @ fmt_u n @ h @ unit_text u @ t) (CHR ''i'') (Suc (length pre)) st =
    Some (Next (length pre + length (item_text (Instr (Some (g, n, h, u))))) (item_effect (Instr (Some (g, n, h, u))) st))"
proof -
  let ?buf = "pre @ CHR ''i'' # g @ fmt_u n @ h @ unit_text u @ t"
  let ?pre = "pre @ CHR ''i'' # g @ fmt_u n"
  have g: "list_all is_gap g" and h: "list_all is_gap h" and n: "n < 2 ^ 64" using assms by auto
  obtain c w where c: "unit_text u = c # w" "\<not> is_gap c" "\<not> isdigit c" by (rule unit_first)
  have "quiet (h @ unit_text u @ t)" unfolding quiet_def using h c by auto
  then obtain d v where d: "h @ unit_text u @ t = d # v" "\<not> isdigit d" using quiet_head by blast
  then have buf: "?buf = (pre @ ''i'') @ g @ fmt_u n @ d # v" by simp
  note num = read_number [OF g n d(2) buf]
  obtain x where x: "rd ?buf (length (pre @ ''i'') + length g) = Some x" "isdigit x" using num(2) by blast
  have gap: "scan is_gap ?buf (Suc (length pre + (length g + length (fmt_u n)))) =
    Some (Suc (length pre + (length g + (length (fmt_u n) + length h))))"
    using scan_run [OF h c(2), of ?pre "w @ t"] c(1) by (simp add: add.assoc)
  have unit: "opt_unit ?buf (Suc (length pre + (length g + (length (fmt_u n) + length h)))) st' =
    Some (Next (Suc (length pre + (length g + (length (fmt_u n) + (length h + length (unit_text u))))))
      (set_period_type (unit_type u) (scale_period (of_nat (unit_factor u)) st')))" for st'
    using opt_unit_text [of "unit_text u @ t" u t "?pre @ h" st'] by (simp add: add.assoc)
  show ?thesis
    using num x gap unit
    by (simp add: parse_opt_def opt_instructions_def Let_def add.assoc set_period_type_def scale_period_def)
qed

lemma loop_step:
  assumes "item_ok it" and "quiet t"
  shows "opts_loop (pre @ item_text it @ t) (length pre) st =
    opts_loop (pre @ item_text it @ t) (length pre + length (item_text it)) (item_effect it st)"
  using assms(1)
proof (induction it rule: item_text.induct)
  case (1 c)
  then have "c \<noteq> NUL" "parse_opt (pre @ c # t) c (Suc (length pre)) st = Some (Next (Suc (length pre)) (item_effect (Flag c) st))"
    using set_flag_effect [of c "synth_opts st"] by (auto simp: parse_opt_def)
  from loop_item [OF this] show ?case by simp
next
  case (2 c)
  then show ?case using skip_gaps [of "[c]" pre t st] by simp
next
  case 3
  show ?case using loop_bare [OF _ assms(2), of "CHR ''i''" pre st "item_effect (Instr None) st"]
    by (simp add: parse_opt_def opt_instructions_def Let_def)
next
  case 5
  show ?case using loop_bare [OF _ assms(2), of "CHR ''g''" pre st "item_effect (Chain None) st"]
    by (simp add: parse_opt_def opt_callchain_def Let_def)
next
  case (6 g n)
  then show ?case
    using loop_number [OF _ _ assms(2), of g n "CHR ''g''" pre st "item_effect (Chain (Some (g, n))) st"] size_ok [of n]
    by (simp add: parse_opt_def opt_callchain_def Let_def)
next
  case 7
  show ?case using loop_bare [OF _ assms(2), of "CHR ''l''" pre st "item_effect (Branch None) st"]
    by (simp add: parse_opt_def opt_last_branch_def Let_def)
next
  case (8 g n)
  then show ?case
    using loop_number [OF _ _ assms(2), of g n "CHR ''l''" pre st "item_effect (Branch (Some (g, n))) st"] size_ok [of n]
    by (simp add: parse_opt_def opt_last_branch_def Let_def)
next
  case (9 n)
  obtain d u where "t = d # u" "\<not> isdigit d" using quiet_head [OF assms(2)] by blast
  then have "strtoull (pre @ CHR ''s'' # fmt_u n @ t) (Suc (length pre)) = Some (of_nat n, Suc (length pre + length (fmt_u n)))"
    using strtoull_fmt_u [of n d "pre @ ''s''" u] 9 by simp
  then show ?case
    using loop_item [of "CHR ''s''" pre "fmt_u n @ t" st] fmt_u_digits(2) [of n]
    by (simp add: parse_opt_def opt_skip_def Let_def)
next
  case (4 g n h u)
  then show ?case
    using loop_item [OF _ parse_period [OF 4]] by simp
qed

lemma loop_items:
  assumes "list_all item_ok its"
  shows "opts_loop (pre @ items_text its @ NUL # rest) (length pre) st = Some (0, parse_out (fold item_effect its st))"
  using assms
proof (induction its arbitrary: pre st)
  case Nil
  show ?case by (subst opts_loop.simps) (simp add: items_text_def)
next
  case (Cons it its)
  then have "quiet (items_text its @ NUL # rest)" using quiet_items by simp
  from loop_step [OF _ this, of it pre st] Cons.IH [of "pre @ item_text it"] Cons.prems
  show ?case by (simp add: items_text_def)
qed

section \<open>Properties\<close>


text \<open>Options as \<^verbatim>\<open>perf script\<close> has them before parsing.\<close>

definition no_opts :: itrace_synth_opts where
  "no_opts = \<lparr>opts_set = False, default_no_sample = False, inject = False, instructions = False, branches = False,
     transactions = False, ptwrites = False, pwr_events = False, errors = False, dont_decode = False,
     log_opt = False, calls = False, returns = False, callchain = False, thread_stack = False,
     last_branch = False, callchain_sz = 0, last_branch_sz = 0, period = 0,
     period_type = PERF_ITRACE_PERIOD_INSTRUCTIONS, initial_skip = 0, cpu_bitmap = None\<rparr>"


end
