(* ===== verification/Util_IO.thy ===== *)
theory Util_IO
  imports Perf_Prelude
begin

text \<open>
  \<open>readn\<close> and \<open>writen\<close> of \<^verbatim>\<open>util/util.c\<close>, over the system calls \<open>read\<close> and \<open>write\<close> on a file.  What each
  system call does is a parameter \<open>io\<close>: call number \<open>k\<close> transfers up to that many bytes, is interrupted, or fails
  with an error number.
\<close>

section \<open>The code\<close>

datatype io_outcome = Transferred nat | Interrupted | Failed int

record io_state =
  io_data :: "u8 list"
  io_pos :: nat
  io_calls :: nat
  io_errno :: int

abbreviation (input) EINTR :: int where
  "EINTR \<equiv> 4"

definition sys_fail :: "int \<Rightarrow> u8 list \<Rightarrow> io_state \<Rightarrow> int \<times> u8 list \<times> io_state" where
  "sys_fail e buf st = (- 1, buf, st \<lparr>io_errno := e, io_calls := io_calls st + 1\<rparr>)"

text \<open>\<open>read (fd, buf + off, left)\<close> stops at the end of the file, \<open>write (fd, buf + off, left)\<close> extends it.\<close>

definition sys_read :: "(nat \<Rightarrow> io_outcome) \<Rightarrow> io_state \<Rightarrow> u8 list \<Rightarrow> nat \<Rightarrow> nat \<Rightarrow> int \<times> u8 list \<times> io_state" where
  "sys_read io st buf off left = (case io (io_calls st) of
     Transferred m \<Rightarrow>
       (let n = min left (min m (length (io_data st) - io_pos st)) in
        (int n, take off buf @ take n (drop (io_pos st) (io_data st)) @ drop (off + n) buf,
         st \<lparr>io_pos := io_pos st + n, io_calls := io_calls st + 1\<rparr>))
   | Interrupted \<Rightarrow> sys_fail EINTR buf st
   | Failed e \<Rightarrow> sys_fail e buf st)"

definition sys_write :: "(nat \<Rightarrow> io_outcome) \<Rightarrow> io_state \<Rightarrow> u8 list \<Rightarrow> nat \<Rightarrow> nat \<Rightarrow> int \<times> u8 list \<times> io_state" where
  "sys_write io st buf off left = (case io (io_calls st) of
     Transferred m \<Rightarrow>
       (let n = min left m in
        (int n, buf,
         st \<lparr>io_data := take (io_pos st) (io_data st) @ take n (drop off buf) @ drop (io_pos st + n) (io_data st),
             io_pos := io_pos st + n, io_calls := io_calls st + 1\<rparr>))
   | Interrupted \<Rightarrow> sys_fail EINTR buf st
   | Failed e \<Rightarrow> sys_fail e buf st)"

partial_function (option) ion_loop ::
  "bool \<Rightarrow> (nat \<Rightarrow> io_outcome) \<Rightarrow> nat \<Rightarrow> io_state \<Rightarrow> u8 list \<Rightarrow> nat \<Rightarrow> nat \<Rightarrow> (int \<times> u8 list \<times> io_state) option"
where
  "ion_loop is_read io n st buf off left =
     (if left = 0 then (if off \<noteq> n then None else Some (int n, buf, st))
      else
        let (ret, buf, st) = (if is_read then sys_read io st buf off left else sys_write io st buf off left) in
        if ret < 0 \<and> io_errno st = EINTR then ion_loop is_read io n st buf off left
        else if ret \<le> 0 then Some (ret, buf, st)
        else ion_loop is_read io n st buf (off + nat ret) (left - nat ret))"

definition ion :: "bool \<Rightarrow> (nat \<Rightarrow> io_outcome) \<Rightarrow> io_state \<Rightarrow> u8 list \<Rightarrow> nat \<Rightarrow> (int \<times> u8 list \<times> io_state) option" where
  "ion is_read io st buf n = ion_loop is_read io n st buf 0 n"

definition readn :: "(nat \<Rightarrow> io_outcome) \<Rightarrow> io_state \<Rightarrow> u8 list \<Rightarrow> nat \<Rightarrow> (int \<times> u8 list \<times> io_state) option" where
  "readn io st buf n = ion True io st buf n"

definition writen :: "(nat \<Rightarrow> io_outcome) \<Rightarrow> io_state \<Rightarrow> u8 list \<Rightarrow> nat \<Rightarrow> (int \<times> io_state) option" where
  "writen io st buf n = do { (ret, _, st) \<leftarrow> ion False io st buf n; Some (ret, st) }"

section \<open>Complete transfers\<close>

text \<open>Calls that transfer something or are interrupted, but not from some call on forever.\<close>

definition io_good :: "(nat \<Rightarrow> io_outcome) \<Rightarrow> bool" where
  "io_good io \<longleftrightarrow> (\<forall>k. (\<exists>m. io k = Transferred (Suc m)) \<or> io k = Interrupted) \<and> (\<forall>k. \<exists>j \<ge> k. io j \<noteq> Interrupted)"

lemma io_good_transfers:
  assumes "io_good io"
  obtains d m where "io (k + d) = Transferred (Suc m)" and "\<And>i. i < d \<Longrightarrow> io (k + i) = Interrupted"
proof -
  let ?P = "\<lambda>d. io (k + d) \<noteq> Interrupted"
  have "\<exists>d. ?P d" using assms unfolding io_good_def by (metis le_add_diff_inverse)
  then have "?P (LEAST d. ?P d)" by (rule LeastI_ex)
  moreover have "\<And>i. i < (LEAST d. ?P d) \<Longrightarrow> io (k + i) = Interrupted" using not_less_Least by blast
  ultimately show ?thesis using that assms unfolding io_good_def by metis
qed

text \<open>The interrupted calls before a transfer change nothing but their number and the error.\<close>

lemma ion_loop_interrupted:
  assumes "0 < left" and "\<And>i. i < d \<Longrightarrow> io (io_calls st + i) = Interrupted"
  shows "\<exists>e. ion_loop is_read io n st buf off left =
    ion_loop is_read io n (st \<lparr>io_calls := io_calls st + d, io_errno := e\<rparr>) buf off left"
  using assms(2)
proof (induction d arbitrary: st)
  case 0
  have "st \<lparr>io_calls := io_calls st + 0, io_errno := io_errno st\<rparr> = st" by simp
  then show ?case by metis
next
  case (Suc d)
  let ?st = "st \<lparr>io_errno := EINTR, io_calls := io_calls st + 1\<rparr>"
  have "io (io_calls st) = Interrupted" using Suc.prems [of 0] by simp
  then have "ion_loop is_read io n st buf off left = ion_loop is_read io n ?st buf off left"
    using assms(1) by (subst ion_loop.simps) (simp add: sys_read_def sys_write_def sys_fail_def)
  moreover have "\<exists>e. ion_loop is_read io n ?st buf off left =
    ion_loop is_read io n (?st \<lparr>io_calls := io_calls ?st + d, io_errno := e\<rparr>) buf off left"
  proof (rule Suc.IH)
    fix i assume "i < d"
    then show "io (io_calls ?st + i) = Interrupted" using Suc.prems [of "Suc i"] by simp
  qed
  ultimately show ?case by simp
qed

lemma ion_read:
  assumes "io_good io" and "io_pos st + left \<le> length (io_data st)" and "length buf = n" and "off + left = n"
  shows "\<exists>c e. ion_loop True io n st buf off left =
    Some (int n, take off buf @ take left (drop (io_pos st) (io_data st)),
      st \<lparr>io_pos := io_pos st + left, io_calls := c, io_errno := e\<rparr>)"
  using assms(2-)
proof (induction left arbitrary: st buf off rule: less_induct)
  case (less left)
  show ?case
  proof (cases "left = 0")
    case True
    then show ?thesis using less.prems
      by (intro exI [of _ "io_calls st"] exI [of _ "io_errno st"]) (subst ion_loop.simps, simp)
  next
    case False
    obtain d m where dm: "io (io_calls st + d) = Transferred (Suc m)" "\<And>i. i < d \<Longrightarrow> io (io_calls st + i) = Interrupted"
      using io_good_transfers [OF assms(1)] by blast
    obtain e where e: "ion_loop True io n st buf off left =
        ion_loop True io n (st \<lparr>io_calls := io_calls st + d, io_errno := e\<rparr>) buf off left"
      using ion_loop_interrupted [of left d io st True n buf off] dm(2) False by blast
    define k where "k = min left (Suc m)"
    let ?data = "take k (drop (io_pos st) (io_data st))"
    let ?buf = "take off buf @ ?data @ drop (off + k) buf"
    let ?st = "st \<lparr>io_errno := e, io_pos := io_pos st + k, io_calls := io_calls st + d + 1\<rparr>"
    have k: "0 < k" "k \<le> left" using False by (auto simp: k_def)
    have avail: "min left (min (Suc m) (length (io_data st) - io_pos st)) = k" using less.prems(1) by (simp add: k_def)
    have "ion_loop True io n (st \<lparr>io_calls := io_calls st + d, io_errno := e\<rparr>) buf off left =
      ion_loop True io n ?st ?buf (off + k) (left - k)"
      using False dm(1) avail k(1) by (subst ion_loop.simps) (simp add: sys_read_def Let_def)
    moreover have "\<exists>c e. ion_loop True io n ?st ?buf (off + k) (left - k) =
      Some (int n, take (off + k) ?buf @ take (left - k) (drop (io_pos ?st) (io_data ?st)),
        ?st \<lparr>io_pos := io_pos ?st + (left - k), io_calls := c, io_errno := e\<rparr>)"
      using less.prems k by (intro less.IH) auto
    moreover have "take (off + k) ?buf @ take (left - k) (drop (io_pos ?st) (io_data ?st)) =
      take off buf @ take left (drop (io_pos st) (io_data st))"
      using less.prems k take_add [of k "left - k" "drop (io_pos st) (io_data st)"] by (simp add: add.commute)
    ultimately show ?thesis using e k by (auto)
  qed
qed

lemma readn_all:
  assumes "io_good io" and "io_pos st + n \<le> length (io_data st)" and "length buf = n"
  obtains c e where "readn io st buf n =
    Some (int n, take n (drop (io_pos st) (io_data st)), st \<lparr>io_pos := io_pos st + n, io_calls := c, io_errno := e\<rparr>)"
  using ion_read [OF assms, of 0] that by (auto simp: readn_def ion_def)

text \<open>Writing at the end of the file appends.\<close>

lemma ion_write:
  assumes "io_good io" and "io_pos st = length (io_data st)" and "length buf = n" and "off + left = n"
  shows "\<exists>c e. ion_loop False io n st buf off left =
    Some (int n, buf, st \<lparr>io_data := io_data st @ drop off buf, io_pos := io_pos st + left, io_calls := c, io_errno := e\<rparr>)"
  using assms(2-)
proof (induction left arbitrary: st off rule: less_induct)
  case (less left)
  show ?case
  proof (cases "left = 0")
    case True
    then show ?thesis using less.prems
      by (intro exI [of _ "io_calls st"] exI [of _ "io_errno st"]) (subst ion_loop.simps, simp)
  next
    case False
    obtain d m where dm: "io (io_calls st + d) = Transferred (Suc m)" "\<And>i. i < d \<Longrightarrow> io (io_calls st + i) = Interrupted"
      using io_good_transfers [OF assms(1)] by blast
    obtain e where e: "ion_loop False io n st buf off left =
        ion_loop False io n (st \<lparr>io_calls := io_calls st + d, io_errno := e\<rparr>) buf off left"
      using ion_loop_interrupted [of left d io st False n buf off] dm(2) False by blast
    define k where "k = min left (Suc m)"
    let ?st = "st \<lparr>io_errno := e, io_data := io_data st @ take k (drop off buf), io_pos := io_pos st + k, io_calls := io_calls st + d + 1\<rparr>"
    have k: "0 < k" "k \<le> left" using False by (auto simp: k_def)
    have "ion_loop False io n (st \<lparr>io_calls := io_calls st + d, io_errno := e\<rparr>) buf off left =
      ion_loop False io n ?st buf (off + k) (left - k)"
      using False dm(1) k(1) less.prems(1)
      by (subst ion_loop.simps) (simp add: sys_write_def Let_def k_def [symmetric])
    moreover have "\<exists>c e. ion_loop False io n ?st buf (off + k) (left - k) =
      Some (int n, buf, ?st \<lparr>io_data := io_data ?st @ drop (off + k) buf, io_pos := io_pos ?st + (left - k), io_calls := c, io_errno := e\<rparr>)"
      using less.prems k by (intro less.IH) auto
    moreover have "take k (drop off buf) @ drop (off + k) buf = drop off buf"
      by (metis add.commute append_take_drop_id drop_drop)
    ultimately show ?thesis using e k by auto
  qed
qed

lemma writen_all:
  assumes "io_good io" and "io_pos st = length (io_data st)" and "length buf = n"
  obtains c e where "writen io st buf n =
    Some (int n, st \<lparr>io_data := io_data st @ buf, io_pos := io_pos st + n, io_calls := c, io_errno := e\<rparr>)"
  using ion_write [OF assms, of 0 n] that by (auto simp: writen_def ion_def)

end
