(* ===== verification/Auxtrace_Index.thy ===== *)
theory Auxtrace_Index
  imports Util_IO
begin

text \<open>
  The index of the AUX area tracing events of a perf.data file (\<open>auxtrace_index__*\<close> of \<^verbatim>\<open>util/auxtrace.c\<close>): a
  list of blocks of 256 entries that is filled while recording, written behind the data, and read back.
  The machine is little-endian; a file of the other byte order is read with \<open>needs_swap\<close>.
\<close>

section \<open>The code\<close>

record auxtrace_index_entry =
  ie_file_offset :: u64
  ie_sz :: u64

abbreviation (input) PERF_AUXTRACE_INDEX_ENTRY_COUNT :: nat where
  "PERF_AUXTRACE_INDEX_ENTRY_COUNT \<equiv> 256"

record auxtrace_index =
  ix_nr :: nat
  ix_entries :: "auxtrace_index_entry list"

text \<open>Whether the allocation of block \<open>k\<close> of a list succeeds, and what its memory holds.\<close>

record index_env =
  ix_alloc :: "nat \<Rightarrow> bool"
  ix_fresh :: "nat \<Rightarrow> nat \<Rightarrow> auxtrace_index_entry"

definition auxtrace_index__alloc :: "index_env \<Rightarrow> auxtrace_index list \<Rightarrow> int \<times> auxtrace_index list" where
  "auxtrace_index__alloc env head =
     (if \<not> ix_alloc env (length head) then (- ENOMEM, head)
      else (0, head @ [\<lparr>ix_nr = 0, ix_entries = map (ix_fresh env (length head)) [0..<PERF_AUXTRACE_INDEX_ENTRY_COUNT]\<rparr>]))"

definition auxtrace_index__free :: "auxtrace_index list \<Rightarrow> auxtrace_index list" where
  "auxtrace_index__free head = foldl (\<lambda>head _. tl head) head head"

text \<open>Whether there is a block with room, which is the last one, and the list.\<close>

definition auxtrace_index__last :: "index_env \<Rightarrow> auxtrace_index list \<Rightarrow> bool \<times> auxtrace_index list" where
  "auxtrace_index__last env head =
     (let (err, head) = (if head = [] then auxtrace_index__alloc env head else (0, head)) in
      if err \<noteq> 0 then (False, head)
      else if ix_nr (last head) \<ge> PERF_AUXTRACE_INDEX_ENTRY_COUNT then
        (let (err, head) = auxtrace_index__alloc env head in (err = 0, head))
      else (True, head))"

definition set_next_entry :: "auxtrace_index list \<Rightarrow> auxtrace_index_entry \<Rightarrow> auxtrace_index list option" where
  "set_next_entry head ent = do {
     let ix = last head;
     entries \<leftarrow> wr (ix_entries ix) (ix_nr ix) ent;
     Some (butlast head @ [\<lparr>ix_nr = ix_nr ix + 1, ix_entries = entries\<rparr>])
   }"

definition auxtrace_index__auxtrace_event ::
  "index_env \<Rightarrow> auxtrace_index list \<Rightarrow> u16 \<Rightarrow> int \<Rightarrow> (int \<times> auxtrace_index list) option"
where
  "auxtrace_index__auxtrace_event env head header_size file_offset =
     (let (found, head) = auxtrace_index__last env head in
      if \<not> found then Some (- ENOMEM, head)
      else do {
        head \<leftarrow> set_next_entry head \<lparr>ie_file_offset = of_int file_offset, ie_sz = ucast header_size\<rparr>;
        Some (0, head)
      })"

text \<open>The memory of an entry.\<close>

definition entry_bytes :: "auxtrace_index_entry \<Rightarrow> u8 list" where
  "entry_bytes ent = le_bytes 8 (ie_file_offset ent) @ le_bytes 8 (ie_sz ent)"

definition bytes_entry :: "u8 list \<Rightarrow> auxtrace_index_entry" where
  "bytes_entry bs = \<lparr>ie_file_offset = le_word (take 8 bs), ie_sz = le_word (drop 8 bs)\<rparr>"

fun write_entries ::
  "(nat \<Rightarrow> io_outcome) \<Rightarrow> auxtrace_index \<Rightarrow> nat \<Rightarrow> nat \<Rightarrow> io_state \<Rightarrow> (int \<times> io_state) option"
where
  "write_entries io ix i 0 st = Some (0, st)"
| "write_entries io ix i (Suc k) st = do {
     ent \<leftarrow> rd (ix_entries ix) i;
     (ret, st) \<leftarrow> writen io st (entry_bytes ent) 16;
     if ret \<noteq> 16 then Some (- io_errno st, st) else write_entries io ix (i + 1) k st
   }"

definition auxtrace_index__do_write ::
  "(nat \<Rightarrow> io_outcome) \<Rightarrow> io_state \<Rightarrow> auxtrace_index \<Rightarrow> (int \<times> io_state) option"
where
  "auxtrace_index__do_write io st ix = write_entries io ix 0 (ix_nr ix) st"

fun write_blocks :: "(nat \<Rightarrow> io_outcome) \<Rightarrow> io_state \<Rightarrow> auxtrace_index list \<Rightarrow> (int \<times> io_state) option" where
  "write_blocks io st [] = Some (0, st)"
| "write_blocks io st (ix # head) = do {
     (err, st) \<leftarrow> auxtrace_index__do_write io st ix;
     if err \<noteq> 0 then Some (err, st) else write_blocks io st head
   }"

definition auxtrace_index__write ::
  "(nat \<Rightarrow> io_outcome) \<Rightarrow> io_state \<Rightarrow> auxtrace_index list \<Rightarrow> (int \<times> io_state) option"
where
  "auxtrace_index__write io st head = do {
     let total = foldl (\<lambda>total ix. total + of_nat (ix_nr ix)) (0 :: u64) head;
     (ret, st) \<leftarrow> writen io st (le_bytes 8 total) 8;
     if ret \<noteq> 8 then Some (- io_errno st, st) else write_blocks io st head
   }"

definition bswap_64 :: "u64 \<Rightarrow> u64" where
  "bswap_64 w = le_word (rev (le_bytes 8 w))"

text \<open>The result, the index and the file.  \<open>junk\<close> is the content of the local variables that are read into.\<close>

definition auxtrace_index__process_entry ::
  "index_env \<Rightarrow> (nat \<Rightarrow> io_outcome) \<Rightarrow> u8 list \<Rightarrow> io_state \<Rightarrow> auxtrace_index list \<Rightarrow> bool \<Rightarrow>
    (int \<times> auxtrace_index list \<times> io_state) option"
where
  "auxtrace_index__process_entry env io junk st head needs_swap = do {
     (ret, bs, st) \<leftarrow> readn io st (take 16 junk) 16;
     if ret \<noteq> 16 then Some (- 1, head, st)
     else
       let ent = bytes_entry bs;
           (found, head) = auxtrace_index__last env head in
       if \<not> found then Some (- 1, head, st)
       else do {
         head \<leftarrow> set_next_entry head
           (if needs_swap
            then \<lparr>ie_file_offset = bswap_64 (ie_file_offset ent), ie_sz = bswap_64 (ie_sz ent)\<rparr>
            else \<lparr>ie_file_offset = ie_file_offset ent, ie_sz = ie_sz ent\<rparr>);
         Some (0, head, st)
       }
   }"

fun process_entries ::
  "index_env \<Rightarrow> (nat \<Rightarrow> io_outcome) \<Rightarrow> u8 list \<Rightarrow> bool \<Rightarrow> nat \<Rightarrow> io_state \<Rightarrow> auxtrace_index list \<Rightarrow>
    (int \<times> auxtrace_index list \<times> io_state) option"
where
  "process_entries env io junk needs_swap 0 st head = Some (0, head, st)"
| "process_entries env io junk needs_swap (Suc n) st head = do {
     (err, head, st) \<leftarrow> auxtrace_index__process_entry env io junk st head needs_swap;
     if err \<noteq> 0 then Some (- 1, head, st) else process_entries env io junk needs_swap n st head
   }"

definition auxtrace_index__process ::
  "index_env \<Rightarrow> (nat \<Rightarrow> io_outcome) \<Rightarrow> u8 list \<Rightarrow> io_state \<Rightarrow> u64 \<Rightarrow> auxtrace_index list \<Rightarrow> bool \<Rightarrow>
    (int \<times> auxtrace_index list \<times> io_state) option"
where
  "auxtrace_index__process env io junk st sz head needs_swap = do {
     (ret, bs, st) \<leftarrow> readn io st (take 8 junk) 8;
     if ret \<noteq> 8 then Some (- 1, head, st)
     else
       let nr = le_word bs;
           nr = (if needs_swap then bswap_64 nr else nr) in
       if 8 + nr * 16 > sz then Some (- 1, head, st)
       else process_entries env io junk needs_swap (unat nr) st head
   }"

section \<open>The list of entries\<close>

definition index_list :: "auxtrace_index list \<Rightarrow> auxtrace_index_entry list" where
  "index_list head = concat (map (\<lambda>ix. take (ix_nr ix) (ix_entries ix)) head)"

definition index_wf :: "auxtrace_index list \<Rightarrow> bool" where
  "index_wf head \<longleftrightarrow> (\<forall>ix \<in> set head. ix_nr ix \<le> 256 \<and> length (ix_entries ix) = 256)"

lemma free_empties: "auxtrace_index__free head = []"
proof -
  have "foldl (\<lambda>head _. tl head) xs ys = drop (length ys) xs" for xs ys :: "auxtrace_index list"
    by (induction ys arbitrary: xs) (simp_all add: drop_Suc)
  then show ?thesis by (simp add: auxtrace_index__free_def)
qed

text \<open>A block with room is found, and the next entry extends the list.\<close>

lemma index_last:
  assumes "index_wf head" and "\<forall>k. ix_alloc env k"
  obtains head' where "auxtrace_index__last env head = (True, head')" and "index_wf head'" and "head' \<noteq> []"
    and "ix_nr (last head') < 256" and "index_list head' = index_list head"
proof (cases "head = [] \<or> ix_nr (last head) \<ge> 256")
  case True
  let ?head = "head @ [\<lparr>ix_nr = 0, ix_entries = map (ix_fresh env (length head)) [0..<256]\<rparr>]"
  have "auxtrace_index__last env head = (True, ?head)"
    using True assms(2) by (auto simp: auxtrace_index__last_def auxtrace_index__alloc_def Let_def)
  moreover have "index_wf ?head" using assms(1) by (auto simp: index_wf_def)
  ultimately show ?thesis using that by (simp add: index_list_def)
next
  case False
  then have "auxtrace_index__last env head = (True, head)"
    by (simp add: auxtrace_index__last_def)
  then show ?thesis using that assms(1) False by simp
qed

lemma index_add:
  assumes "index_wf head" and "head \<noteq> []" and "ix_nr (last head) < 256"
  obtains head' where "set_next_entry head ent = Some head'" and "index_wf head'"
    and "index_list head' = index_list head @ [ent]"
proof -
  obtain xs ix where head: "head = xs @ [ix]" using assms(2) by (metis append_butlast_last_id)
  then have ix: "ix_nr ix < length (ix_entries ix)" "length (ix_entries ix) = 256" using assms by (auto simp: index_wf_def)
  let ?ix = "\<lparr>ix_nr = ix_nr ix + 1, ix_entries = (ix_entries ix)[ix_nr ix := ent]\<rparr>"
  have "set_next_entry head ent = Some (xs @ [?ix])" using head ix(1) by (simp add: set_next_entry_def Let_def)
  moreover have "index_wf (xs @ [?ix])" using assms(1) head ix by (auto simp: index_wf_def)
  moreover have "index_list (xs @ [?ix]) = index_list head @ [ent]"
    using head ix(1) by (simp add: index_list_def take_Suc_conv_app_nth)
  ultimately show ?thesis using that by blast
qed

section \<open>Recording\<close>

text \<open>The events recorded in a session, with the size of the event and its place in the file.\<close>

fun record_events ::
  "index_env \<Rightarrow> auxtrace_index list \<Rightarrow> (u16 \<times> int) list \<Rightarrow> (int \<times> auxtrace_index list) option"
where
  "record_events env head [] = Some (0, head)"
| "record_events env head ((sz, off) # evs) = do {
     (err, head) \<leftarrow> auxtrace_index__auxtrace_event env head sz off;
     if err \<noteq> 0 then Some (err, head) else record_events env head evs
   }"

definition event_entry :: "u16 \<times> int \<Rightarrow> auxtrace_index_entry" where
  "event_entry ev = \<lparr>ie_file_offset = of_int (snd ev), ie_sz = ucast (fst ev)\<rparr>"

lemma record_events_list:
  assumes "\<forall>k. ix_alloc env k" and "index_wf head"
  shows "\<exists>head'. record_events env head evs = Some (0, head') \<and> index_wf head' \<and>
    index_list head' = index_list head @ map event_entry evs"
  using assms(2)
proof (induction evs arbitrary: head)
  case Nil
  then show ?case by simp
next
  case (Cons ev evs)
  obtain sz off where ev: "ev = (sz, off)" by (cases ev)
  obtain h1 where h1: "auxtrace_index__last env head = (True, h1)" "index_wf h1" "h1 \<noteq> []"
      "ix_nr (last h1) < 256" "index_list h1 = index_list head"
    using index_last [OF Cons.prems assms(1)] by blast
  obtain h2 where h2: "set_next_entry h1 (event_entry ev) = Some h2" "index_wf h2" "index_list h2 = index_list h1 @ [event_entry ev]"
    using index_add [OF h1(2-4)] by blast
  have "auxtrace_index__auxtrace_event env head sz off = Some (0, h2)"
    using h1(1) h2(1) by (simp add: auxtrace_index__auxtrace_event_def event_entry_def ev)
  then show ?case using Cons.IH [OF h2(2)] h2(3) h1(5) by (auto simp: ev)
qed

section \<open>Writing\<close>

lemma length_entry_bytes [simp]: "length (entry_bytes ent) = 16"
  by (simp add: entry_bytes_def)

text \<open>The file after some bytes were appended.\<close>

definition appended :: "io_state \<Rightarrow> u8 list \<Rightarrow> io_state \<Rightarrow> bool" where
  "appended st bs st' \<longleftrightarrow> io_data st' = io_data st @ bs \<and> io_pos st' = length (io_data st')"

lemma appended_trans: "appended st bs st' \<Longrightarrow> appended st' cs st'' \<Longrightarrow> appended st (bs @ cs) st''"
  by (simp add: appended_def)

lemma writen_appends:
  assumes "io_good io" and "io_pos st = length (io_data st)"
  obtains st' where "writen io st bs (length bs) = Some (int (length bs), st')" and "appended st bs st'"
  by (rule writen_all [OF assms refl, of bs]) (rule that, assumption, use assms(2) in \<open>simp add: appended_def\<close>)

lemma write_entries_appends:
  assumes "io_good io" and "i + k \<le> length (ix_entries ix)" and "io_pos st = length (io_data st)"
  shows "\<exists>st'. write_entries io ix i k st = Some (0, st') \<and>
    appended st (concat (map entry_bytes (take k (drop i (ix_entries ix))))) st'"
  using assms(2-)
proof (induction k arbitrary: i st)
  case 0
  then show ?case by (simp add: appended_def)
next
  case (Suc k)
  let ?ent = "ix_entries ix ! i"
  obtain st1 where st1: "writen io st (entry_bytes ?ent) 16 = Some (16, st1)" "appended st (entry_bytes ?ent) st1"
    using writen_appends [OF assms(1) Suc.prems(2), of "entry_bytes ?ent"] by auto
  obtain st2 where st2: "write_entries io ix (Suc i) k st1 = Some (0, st2)"
      "appended st1 (concat (map entry_bytes (take k (drop (Suc i) (ix_entries ix))))) st2"
    using Suc.IH [of "Suc i" st1] Suc.prems st1(2) by (auto simp: appended_def)
  have "take (Suc k) (drop i (ix_entries ix)) = ?ent # take k (drop (Suc i) (ix_entries ix))"
    using Suc.prems(1) by (simp add: Cons_nth_drop_Suc [symmetric])
  then show ?case using Suc.prems(1) st1 st2 appended_trans [OF st1(2) st2(2)] by simp
qed

lemma write_blocks_appends:
  assumes "io_good io" and "index_wf head" and "io_pos st = length (io_data st)"
  shows "\<exists>st'. write_blocks io st head = Some (0, st') \<and> appended st (concat (map entry_bytes (index_list head))) st'"
  using assms(2-)
proof (induction head arbitrary: st)
  case Nil
  then show ?case by (simp add: appended_def index_list_def)
next
  case (Cons ix head)
  obtain st1 where st1: "auxtrace_index__do_write io st ix = Some (0, st1)"
      "appended st (concat (map entry_bytes (take (ix_nr ix) (ix_entries ix)))) st1"
    using write_entries_appends [OF assms(1), of 0 "ix_nr ix" ix st] Cons.prems
    by (auto simp: auxtrace_index__do_write_def index_wf_def)
  moreover obtain st2 where "write_blocks io st1 head = Some (0, st2)"
      "appended st1 (concat (map entry_bytes (index_list head))) st2"
    using Cons.IH [of st1] Cons.prems st1(2) by (auto simp: appended_def index_wf_def)
  ultimately show ?case using appended_trans [OF st1(2)] by (auto simp: index_list_def)
qed

lemma index_total:
  assumes "index_wf head"
  shows "foldl (\<lambda>total ix. total + of_nat (ix_nr ix)) (of_nat n :: u64) head = of_nat (n + length (index_list head))"
  using assms
proof (induction head arbitrary: n)
  case (Cons ix head)
  have "min (length (ix_entries ix)) (ix_nr ix) = ix_nr ix" using Cons.prems by (auto simp: index_wf_def)
  then show ?case using Cons.IH [of "n + ix_nr ix"] Cons.prems by (simp add: index_wf_def index_list_def add.assoc)
qed (simp add: index_list_def)

text \<open>The image of a list of entries in a file, of this machine's byte order or of the other.\<close>

definition word_image :: "bool \<Rightarrow> u64 \<Rightarrow> u8 list" where
  "word_image swapped w = (if swapped then rev (le_bytes 8 w) else le_bytes 8 w)"

definition entry_image :: "bool \<Rightarrow> auxtrace_index_entry \<Rightarrow> u8 list" where
  "entry_image swapped ent = word_image swapped (ie_file_offset ent) @ word_image swapped (ie_sz ent)"

definition index_image :: "bool \<Rightarrow> auxtrace_index_entry list \<Rightarrow> u8 list" where
  "index_image swapped es = word_image swapped (of_nat (length es)) @ concat (map (entry_image swapped) es)"

lemma index_write_appends:
  assumes "io_good io" and "index_wf head" and "io_pos st = length (io_data st)"
  shows "\<exists>st'. auxtrace_index__write io st head = Some (0, st') \<and> appended st (index_image False (index_list head)) st'"
proof -
  let ?total = "le_bytes 8 (of_nat (length (index_list head)))"
  obtain st1 where st1: "writen io st ?total 8 = Some (8, st1)" "appended st ?total st1"
    using writen_appends [OF assms(1,3), of ?total] by auto
  obtain st2 where st2: "write_blocks io st1 head = Some (0, st2)" "appended st1 (concat (map entry_bytes (index_list head))) st2"
    using write_blocks_appends [OF assms(1,2), of st1] st1(2) by (auto simp: appended_def)
  have "entry_image False = entry_bytes" by (simp add: fun_eq_iff entry_image_def word_image_def entry_bytes_def)
  then have "appended st (index_image False (index_list head)) st2"
    using appended_trans [OF st1(2) st2(2)] by (simp add: index_image_def word_image_def)
  then show ?thesis using st1(1) st2(1) index_total [OF assms(2), of 0] by (simp add: auxtrace_index__write_def Let_def)
qed

section \<open>Reading\<close>

lemma le_bytes_le_word:
  assumes "length bs = n" and "n \<le> 8"
  shows "le_bytes n (le_word bs) = bs"
proof (rule nth_equalityI)
  fix i assume "i < length (le_bytes n (le_word bs))"
  then have i: "i < n" by simp
  show "le_bytes n (le_word bs) ! i = bs ! i"
  proof (rule bit_word_eqI)
    fix j assume "j < LENGTH(8)"
    then show "bit (le_bytes n (le_word bs) ! i) j \<longleftrightarrow> bit (bs ! i) j"
      using i assms by (simp add: nth_le_bytes bit_simps bit_le_word div_add1_eq)
  qed
qed (simp add: assms)

lemma word_image_value: "(if swapped then bswap_64 (le_word (word_image swapped w)) else le_word (word_image swapped w)) = w"
  by (simp add: word_image_def bswap_64_def le_bytes_le_word le_word_le_bytes take_bit_word_eq_self)

lemma length_images [simp]: "length (word_image swapped w) = 8" "length (entry_image swapped ent) = 16"
  by (simp_all add: word_image_def entry_image_def)

lemma entry_image_value:
  "(if swapped then \<lparr>ie_file_offset = bswap_64 (ie_file_offset (bytes_entry (entry_image swapped ent))),
      ie_sz = bswap_64 (ie_sz (bytes_entry (entry_image swapped ent)))\<rparr>
    else \<lparr>ie_file_offset = ie_file_offset (bytes_entry (entry_image swapped ent)),
      ie_sz = ie_sz (bytes_entry (entry_image swapped ent))\<rparr>) = ent"
  using word_image_value [of swapped "ie_file_offset ent"] word_image_value [of swapped "ie_sz ent"]
  by (cases swapped) (simp_all add: bytes_entry_def entry_image_def)

lemma readn_image:
  assumes "io_good io" and "drop (io_pos st) (io_data st) = bs @ rest" and "length bs \<le> length junk"
  obtains st' where "readn io st (take (length bs) junk) (length bs) = Some (int (length bs), bs, st')"
    and "drop (io_pos st') (io_data st') = rest"
proof -
  have "length (drop (io_pos st) (io_data st)) = length bs + length rest" using assms(2) by simp
  then have le: "bs = [] \<or> io_pos st + length bs \<le> length (io_data st)" by (cases bs) auto
  show ?thesis
  proof (cases "bs = []")
    case True
    then have "readn io st (take (length bs) junk) (length bs) = Some (int (length bs), bs, st)"
      unfolding readn_def ion_def by (subst ion_loop.simps) simp
    then show ?thesis using that True assms(2) by simp
  next
    case False
    with le have le: "io_pos st + length bs \<le> length (io_data st)" by simp
    have "length (take (length bs) junk) = length bs" using assms(3) by simp
    from readn_all [OF assms(1) le this]
    obtain c e where "readn io st (take (length bs) junk) (length bs) = Some (int (length bs),
        take (length bs) (drop (io_pos st) (io_data st)), st \<lparr>io_pos := io_pos st + length bs, io_calls := c, io_errno := e\<rparr>)"
      by blast
    moreover have "drop (io_pos st + length bs) (io_data st) = rest"
      by (metis assms(2) add.commute append_eq_conv_conj drop_drop)
    ultimately show ?thesis using that assms(2) by simp
  qed
qed

lemma process_entries_list:
  assumes "io_good io" and "\<forall>k. ix_alloc env k" and "16 \<le> length junk" and "index_wf head"
    and "drop (io_pos st) (io_data st) = concat (map (entry_image swapped) es) @ rest"
  shows "\<exists>head' st'. process_entries env io junk swapped (length es) st head = Some (0, head', st') \<and>
    index_list head' = index_list head @ es \<and> index_wf head'"
  using assms(4-)
proof (induction es arbitrary: st head)
  case Nil
  then show ?case by simp
next
  case (Cons e es)
  have "drop (io_pos st) (io_data st) = entry_image swapped e @ concat (map (entry_image swapped) es) @ rest"
    using Cons.prems(2) by simp
  from readn_image [OF assms(1) this, of junk] assms(3)
  obtain st1 where st1: "readn io st (take 16 junk) 16 = Some (16, entry_image swapped e, st1)"
      "drop (io_pos st1) (io_data st1) = concat (map (entry_image swapped) es) @ rest" by auto
  obtain h1 where h1: "auxtrace_index__last env head = (True, h1)" "index_wf h1" "h1 \<noteq> []"
      "ix_nr (last h1) < 256" "index_list h1 = index_list head"
    using index_last [OF Cons.prems(1) assms(2)] by blast
  obtain h2 where h2: "set_next_entry h1 e = Some h2" "index_wf h2" "index_list h2 = index_list h1 @ [e]"
    using index_add [OF h1(2-4)] by blast
  have "auxtrace_index__process_entry env io junk st head swapped = Some (0, h2, st1)"
    using st1(1) h1(1) h2(1) by (simp add: auxtrace_index__process_entry_def entry_image_value)
  then show ?case using Cons.IH [OF h2(2) st1(2)] h2(3) h1(5) by auto
qed

lemma index_size_fits:
  assumes "n < 2 ^ 59" and "8 + 16 * n \<le> unat sz"
  shows "unat (of_nat n :: u64) = n" and "\<not> 8 + of_nat n * 16 > (sz :: u64)"
proof -
  show "unat (of_nat n :: u64) = n" using assms(1) by (simp add: unat_of_nat_small)
  have "8 + of_nat n * 16 = (of_nat (8 + 16 * n) :: u64)" by (simp add: mult.commute)
  moreover have "unat (of_nat (8 + 16 * n) :: u64) = 8 + 16 * n" using assms(1) by (intro unat_of_nat_small) simp
  ultimately have "unat (8 + of_nat n * 16 :: u64) = 8 + 16 * n" by (simp only:)
  then show "\<not> 8 + of_nat n * 16 > (sz :: u64)" using assms(2) by (simp add: word_less_nat_alt)
qed

lemma process_list:
  assumes "io_good io" and "\<forall>k. ix_alloc env k" and "16 \<le> length junk" and "index_wf head"
    and "drop (io_pos st) (io_data st) = index_image swapped es @ rest"
    and "length es < 2 ^ 59" and "8 + 16 * length es \<le> unat sz"
  shows "\<exists>head' st'. auxtrace_index__process env io junk st sz head swapped = Some (0, head', st') \<and>
    index_list head' = index_list head @ es"
proof -
  let ?nr = "word_image swapped (of_nat (length es))"
  have "drop (io_pos st) (io_data st) = ?nr @ concat (map (entry_image swapped) es) @ rest"
    using assms(5) by (simp add: index_image_def)
  from readn_image [OF assms(1) this, of junk] assms(3)
  obtain st1 where st1: "readn io st (take 8 junk) 8 = Some (8, ?nr, st1)"
      "drop (io_pos st1) (io_data st1) = concat (map (entry_image swapped) es) @ rest" by auto
  from process_entries_list [OF assms(1-4) st1(2)] show ?thesis
    using st1(1) index_size_fits [OF assms(6,7)]
    by (auto simp: auxtrace_index__process_def Let_def word_image_value)
qed

section \<open>Properties\<close>

text \<open>
  C37. The index round trip.  The index of the recorded events is appended to the file as its image, however the
  system calls split the transfers and however often they are interrupted.  Reading an image, of
  this or of the other byte order, gives back exactly the entries of the events in their order.
\<close>

theorem auxtrace_index_roundtrip:
  assumes "io_good wio" and "io_good rio" and "\<forall>k. ix_alloc env k" and "\<forall>k. ix_alloc env' k"
    and "io_pos st = length (io_data st)" and "16 \<le> length junk"
    and "length evs < 2 ^ 59" and "8 + 16 * length evs \<le> unat sz"
    and "drop (io_pos rst) (io_data rst) = index_image swapped (map event_entry evs) @ rest"
  shows "\<exists>head st' head' rst'. record_events env [] evs = Some (0, head) \<and>
    auxtrace_index__write wio st head = Some (0, st') \<and>
    io_data st' = io_data st @ index_image False (map event_entry evs) \<and>
    auxtrace_index__process env' rio junk rst sz [] swapped = Some (0, head', rst') \<and>
    index_list head' = map event_entry evs"
proof -
  have wf: "index_wf []" by (simp add: index_wf_def)
  have nil: "index_list [] = []" by (simp add: index_list_def)
  obtain head where head: "record_events env [] evs = Some (0, head)" "index_wf head" "index_list head = map event_entry evs"
    using record_events_list [OF assms(3) wf, of evs] nil by auto
  obtain st' where "auxtrace_index__write wio st head = Some (0, st')" "io_data st' = io_data st @ index_image False (map event_entry evs)"
    using index_write_appends [OF assms(1) head(2) assms(5)] head(3) by (auto simp: appended_def)
  moreover obtain head' rst' where "auxtrace_index__process env' rio junk rst sz [] swapped = Some (0, head', rst')"
      "index_list head' = map event_entry evs"
    using process_list [OF assms(2,4,6) wf assms(9), of sz] assms(7,8) nil by auto
  ultimately show ?thesis using head(1) by blast
qed

definition index_env0 :: index_env where
  "index_env0 = \<lparr>ix_alloc = \<lambda>_. True, ix_fresh = \<lambda>_ _. \<lparr>ie_file_offset = 0, ie_sz = 0\<rparr>\<rparr>"

text \<open>System calls that transfer one byte at a time and are interrupted every other time.\<close>

definition slow_io :: "nat \<Rightarrow> io_outcome" where
  "slow_io k = (if even k then Interrupted else Transferred 1)"

lemma slow_io_good: "io_good slow_io"
proof -
  have "slow_io (Suc (2 * k)) \<noteq> Interrupted" "k \<le> Suc (2 * k)" for k by (simp_all add: slow_io_def)
  then have "\<forall>k. \<exists>j \<ge> k. slow_io j \<noteq> Interrupted" by blast
  then show ?thesis unfolding io_good_def by (simp add: slow_io_def)
qed

theorem auxtrace_index_roundtrip_witness:
  "\<exists>head' rst'. auxtrace_index__process index_env0 slow_io (replicate 16 0)
      \<lparr>io_data = index_image True (map event_entry [(48, 4096), (56, 8192)]), io_pos = 0, io_calls = 0, io_errno = 0\<rparr>
      40 [] True = Some (0, head', rst') \<and>
    index_list head' = [\<lparr>ie_file_offset = 4096, ie_sz = 48\<rparr>, \<lparr>ie_file_offset = 8192, ie_sz = 56\<rparr>]"
proof -
  let ?st = "\<lparr>io_data = [], io_pos = 0, io_calls = 0, io_errno = 0\<rparr>"
  let ?rst = "\<lparr>io_data = index_image True (map event_entry [(48, 4096), (56, 8192)]), io_pos = 0, io_calls = 0, io_errno = 0\<rparr>"
  from auxtrace_index_roundtrip [OF slow_io_good slow_io_good, of index_env0 index_env0 ?st "replicate 16 0"
      "[(48, 4096), (56, 8192)]" 40 ?rst True "[]"]
  show ?thesis by (auto simp: index_env0_def event_entry_def)
qed

text \<open>
  The size check wraps around: for $2^{60}$ entries the product is 0, and entries are read behind a section that has room for
  the number only, until the file ends.
\<close>

lemma process_beyond_section:
  assumes "io_good io" and "\<forall>k. ix_alloc env k" and "16 \<le> length junk"
    and "drop (io_pos st) (io_data st) = le_bytes 8 (2 ^ 60) @ entry_image False ent @ rest"
  shows "\<exists>st' head'. auxtrace_index__process env io junk st 8 [] False =
    process_entries env io junk False (2 ^ 60 - 1) st' head' \<and> index_list head' = [ent]"
proof -
  obtain st1 where st1: "readn io st (take 8 junk) 8 = Some (8, le_bytes 8 (2 ^ 60), st1)"
      "drop (io_pos st1) (io_data st1) = entry_image False ent @ rest"
    using readn_image [OF assms(1,4), of junk] assms(3) by auto
  obtain st2 where st2: "readn io st1 (take 16 junk) 16 = Some (16, entry_image False ent, st2)"
    using readn_image [OF assms(1) st1(2), of junk] assms(3) by auto
  have wf: "index_wf []" by (simp add: index_wf_def)
  obtain h1 where h1: "auxtrace_index__last env [] = (True, h1)" "index_wf h1" "h1 \<noteq> []"
      "ix_nr (last h1) < 256" "index_list h1 = index_list []"
    using index_last [OF wf assms(2)] by blast
  obtain h2 where h2: "set_next_entry h1 ent = Some h2" "index_wf h2" "index_list h2 = index_list h1 @ [ent]"
    using index_add [OF h1(2-4)] by blast
  have "auxtrace_index__process_entry env io junk st1 [] False = Some (0, h2, st2)"
    using st2 h1(1) h2(1) entry_image_value [of False ent] by (simp add: auxtrace_index__process_entry_def)
  then have "process_entries env io junk False (Suc (2 ^ 60 - 1)) st1 [] = process_entries env io junk False (2 ^ 60 - 1) st2 h2"
    by (simp only: process_entries.simps bind.simps prod.case) simp
  moreover have "Suc (2 ^ 60 - 1) = unat (2 ^ 60 :: u64)" by simp
  ultimately have "auxtrace_index__process env io junk st 8 [] False = process_entries env io junk False (2 ^ 60 - 1) st2 h2"
    using st1(1) by (simp add: auxtrace_index__process_def Let_def le_word_le_bytes take_bit_word_eq_self)
  moreover have "index_list h2 = [ent]" using h2(3) h1(5) by (simp add: index_list_def)
  ultimately show ?thesis by blast
qed

end
