(* ===== verification/Auxtrace_Cache.thy ===== *)
theory Auxtrace_Cache
  imports Perf_Prelude
begin

text \<open>
  The hash table that caches decoded code (\<open>auxtrace_cache__*\<close> of \<^verbatim>\<open>util/auxtrace.c\<close>).  A bucket is the list of its
  entries with their keys, the newest first.  The hash function is not part of the tool and a parameter;
  its documented result for a table of \<open>2 ^ bits\<close> buckets is an index of the table.
\<close>

section \<open>The code\<close>

record 'e auxtrace_cache =
  hashtable :: "(u32 \<times> 'e) list list"
  ac_sz :: u64
  ac_entry_size :: u64
  ac_limit :: u64
  ac_cnt :: u64
  ac_bits :: nat

text \<open>The parameters \<open>ok_c\<close> and \<open>ok_ht\<close> say whether the two allocations succeed.  Shifting by 64 or more is undefined.\<close>

definition auxtrace_cache__new :: "bool \<Rightarrow> bool \<Rightarrow> nat \<Rightarrow> u64 \<Rightarrow> u32 \<Rightarrow> 'e auxtrace_cache option option" where
  "auxtrace_cache__new ok_c ok_ht bits entry_size limit_percent =
     (if \<not> ok_c then Some None
      else if bits \<ge> 64 then None
      else
        let sz = push_bit bits 1 in
        if \<not> ok_ht then Some None
        else Some (Some \<lparr>hashtable = replicate (unat sz) [], ac_sz = sz, ac_entry_size = entry_size,
               ac_limit = (sz * ucast limit_percent) div 100, ac_cnt = 0, ac_bits = bits\<rparr>))"

primrec drop_buckets :: "nat \<Rightarrow> (u32 \<times> 'e) list list \<Rightarrow> (u32 \<times> 'e) list list option" where
  "drop_buckets 0 ht = Some ht"
| "drop_buckets (Suc i) ht = do { ht \<leftarrow> drop_buckets i ht; wr ht i [] }"

definition auxtrace_cache__drop :: "'e auxtrace_cache \<Rightarrow> 'e auxtrace_cache option" where
  "auxtrace_cache__drop c = do {
     ht \<leftarrow> drop_buckets (unat (ac_sz c)) (hashtable c);
     Some (c \<lparr>hashtable := ht, ac_cnt := 0\<rparr>)
   }"

definition auxtrace_cache__add ::
  "(u32 \<Rightarrow> nat \<Rightarrow> nat) \<Rightarrow> 'e auxtrace_cache \<Rightarrow> u32 \<Rightarrow> 'e \<Rightarrow> (int \<times> 'e auxtrace_cache) option"
where
  "auxtrace_cache__add hash_32 c key entry = do {
     c \<leftarrow> (if ac_limit c \<noteq> 0 then
             let c = c \<lparr>ac_cnt := ac_cnt c + 1\<rparr> in
             if ac_cnt c > ac_limit c then auxtrace_cache__drop c else Some c
           else Some c);
     let i = hash_32 key (ac_bits c);
     bucket \<leftarrow> rd (hashtable c) i;
     ht \<leftarrow> wr (hashtable c) i ((key, entry) # bucket);
     Some (0, c \<lparr>hashtable := ht\<rparr>)
   }"

definition auxtrace_cache__lookup ::
  "(u32 \<Rightarrow> nat \<Rightarrow> nat) \<Rightarrow> 'e auxtrace_cache option \<Rightarrow> u32 \<Rightarrow> 'e option option"
where
  "auxtrace_cache__lookup hash_32 c key = (case c of
     None \<Rightarrow> Some None
   | Some c \<Rightarrow> do {
       hlist \<leftarrow> rd (hashtable c) (hash_32 key (ac_bits c));
       Some (map_of hlist key)
     })"

section \<open>A cache that may forget\<close>

text \<open>
  What the users of a cache rely on: both operations return, and a lookup finds nothing but entries that were added
  for the key.  Then a property that holds of every entry when it is added holds of every entry that is found.
\<close>

locale lossy_map =
  fixes ok :: "'c \<Rightarrow> bool" and add :: "'c \<Rightarrow> 'k \<Rightarrow> 'e \<Rightarrow> (int \<times> 'c) option" and lookup :: "'c \<Rightarrow> 'k \<Rightarrow> 'e option option"
  assumes lookup_returns: "ok c \<Longrightarrow> \<exists>r. lookup c k = Some r"
    and add_returns: "ok c \<Longrightarrow> \<exists>c'. add c k e = Some (0, c') \<and> ok c'"
    and add_finds: "ok c \<Longrightarrow> add c k e = Some (r, c') \<Longrightarrow> lookup c' k = Some (Some e)"
    and add_only: "ok c \<Longrightarrow> add c k e = Some (r, c') \<Longrightarrow> k' \<noteq> k \<Longrightarrow> lookup c' k' = Some (Some x) \<Longrightarrow> lookup c k' = Some (Some x)"
begin

definition sound :: "('k \<Rightarrow> 'e \<Rightarrow> bool) \<Rightarrow> 'c \<Rightarrow> bool" where
  "sound P c \<longleftrightarrow> ok c \<and> (\<forall>k e. lookup c k = Some (Some e) \<longrightarrow> P k e)"

lemma sound_add:
  assumes "sound P c" and "P k e"
  shows "\<exists>c'. add c k e = Some (0, c') \<and> sound P c'"
proof -
  have ok: "ok c" using assms(1) by (simp add: sound_def)
  obtain c' where c': "add c k e = Some (0, c')" "ok c'" using add_returns [OF ok] by blast
  have "P k' x" if "lookup c' k' = Some (Some x)" for k' x
  proof (cases "k' = k")
    case True
    then show ?thesis using that add_finds [OF ok c'(1)] assms(2) by simp
  next
    case False
    then show ?thesis using add_only [OF ok c'(1) False that] assms(1) by (simp add: sound_def)
  qed
  then show ?thesis using c' by (auto simp: sound_def)
qed

lemma sound_lookup:
  assumes "sound P c"
  shows "lookup c k = Some None \<or> (\<exists>e. lookup c k = Some (Some e) \<and> P k e)"
proof -
  obtain r where "lookup c k = Some r" using lookup_returns [of c k] assms by (auto simp: sound_def)
  then show ?thesis using assms by (cases r) (auto simp: sound_def)
qed

end

section \<open>The hash table is such a cache\<close>

definition hash_law :: "(u32 \<Rightarrow> nat \<Rightarrow> nat) \<Rightarrow> bool" where
  "hash_law h \<longleftrightarrow> (\<forall>key bits. 0 < bits \<and> bits \<le> 32 \<longrightarrow> h key bits < 2 ^ bits)"

text \<open>The table has its size, and an entry is in the bucket of its key.\<close>

definition cache_wf :: "(u32 \<Rightarrow> nat \<Rightarrow> nat) \<Rightarrow> 'e auxtrace_cache \<Rightarrow> bool" where
  "cache_wf h c \<longleftrightarrow> 0 < ac_bits c \<and> ac_bits c \<le> 32 \<and> length (hashtable c) = 2 ^ ac_bits c \<and> unat (ac_sz c) = 2 ^ ac_bits c"

lemma drop_buckets_ok:
  "n \<le> length ht \<Longrightarrow> drop_buckets n ht = Some (replicate n [] @ drop n ht)"
proof (induction n)
  case (Suc n)
  then have "drop n ht = ht ! n # drop (Suc n) ht" by (simp add: Cons_nth_drop_Suc)
  then show ?case using Suc by (simp add: list_update_append replicate_append_same)
qed simp

lemma drop_cache:
  assumes "cache_wf h c"
  shows "auxtrace_cache__drop c = Some (c \<lparr>hashtable := replicate (2 ^ ac_bits c) [], ac_cnt := 0\<rparr>)"
  using assms drop_buckets_ok [of "2 ^ ac_bits c" "hashtable c"] by (simp add: auxtrace_cache__drop_def cache_wf_def)

text \<open>An insertion is into the old table or into an empty one.\<close>

lemma add_cache:
  assumes "cache_wf h c" and "hash_law h"
  obtains ht n where "ht = hashtable c \<or> ht = replicate (2 ^ ac_bits c) []" and "length ht = 2 ^ ac_bits c"
    and "h key (ac_bits c) < length ht"
    and "auxtrace_cache__add h c key e = Some (0, c \<lparr>ac_cnt := n,
      hashtable := ht[h key (ac_bits c) := (key, e) # ht ! h key (ac_bits c)]\<rparr>)"
proof -
  have h: "h key (ac_bits c) < 2 ^ ac_bits c" and len: "length (hashtable c) = 2 ^ ac_bits c"
    using assms by (auto simp: cache_wf_def hash_law_def)
  have wf: "cache_wf h (c \<lparr>ac_cnt := n\<rparr>)" for n using assms(1) by (simp add: cache_wf_def)
  note drop = drop_cache [OF wf]
  consider (unlimited) "ac_limit c = 0" | (room) "ac_limit c \<noteq> 0" "\<not> ac_cnt c + 1 > ac_limit c"
    | (full) "ac_limit c \<noteq> 0" "ac_cnt c + 1 > ac_limit c" by blast
  then show ?thesis
  proof cases
    case unlimited
    then show ?thesis using that [of "hashtable c" "ac_cnt c"] h len by (simp add: auxtrace_cache__add_def Let_def)
  next
    case room
    then show ?thesis using that [of "hashtable c" "ac_cnt c + 1"] h len by (simp add: auxtrace_cache__add_def Let_def)
  next
    case full
    then show ?thesis using that [of "replicate (2 ^ ac_bits c) []" 0] h drop [of "ac_cnt c + 1"]
      by (simp add: auxtrace_cache__add_def Let_def)
  qed
qed

text \<open>The table together with its hash function.\<close>

definition hashed_wf :: "(u32 \<Rightarrow> nat \<Rightarrow> nat) \<times> 'e auxtrace_cache \<Rightarrow> bool" where
  "hashed_wf hc \<longleftrightarrow> hash_law (fst hc) \<and> cache_wf (fst hc) (snd hc)"

definition hashed_add ::
  "(u32 \<Rightarrow> nat \<Rightarrow> nat) \<times> 'e auxtrace_cache \<Rightarrow> u32 \<Rightarrow> 'e \<Rightarrow> (int \<times> (u32 \<Rightarrow> nat \<Rightarrow> nat) \<times> 'e auxtrace_cache) option"
where
  "hashed_add hc key e = do { (r, c) \<leftarrow> auxtrace_cache__add (fst hc) (snd hc) key e; Some (r, fst hc, c) }"

definition hashed_lookup :: "(u32 \<Rightarrow> nat \<Rightarrow> nat) \<times> 'e auxtrace_cache \<Rightarrow> u32 \<Rightarrow> 'e option option" where
  "hashed_lookup hc key = auxtrace_cache__lookup (fst hc) (Some (snd hc)) key"

lemma hashed_add_split:
  assumes "hashed_wf hc"
  obtains ht n where "ht = hashtable (snd hc) \<or> ht = replicate (2 ^ ac_bits (snd hc)) []"
    and "length ht = 2 ^ ac_bits (snd hc)" and "fst hc key (ac_bits (snd hc)) < length ht"
    and "hashed_add hc key e = Some (0, fst hc, (snd hc) \<lparr>ac_cnt := n,
      hashtable := ht[fst hc key (ac_bits (snd hc)) := (key, e) # ht ! fst hc key (ac_bits (snd hc))]\<rparr>)"
proof -
  have "cache_wf (fst hc) (snd hc)" "hash_law (fst hc)" using assms by (simp_all add: hashed_wf_def)
  then show ?thesis
    by (rule add_cache [where key = key and e = e]) (rule that, assumption+, simp add: hashed_add_def)
qed

interpretation hashed: lossy_map hashed_wf hashed_add hashed_lookup
proof
  fix hc :: "(u32 \<Rightarrow> nat \<Rightarrow> nat) \<times> 'e auxtrace_cache" and k
  assume "hashed_wf hc"
  then have "fst hc k (ac_bits (snd hc)) < length (hashtable (snd hc))"
    by (auto simp: hashed_wf_def cache_wf_def hash_law_def)
  then show "\<exists>r. hashed_lookup hc k = Some r" by (simp add: hashed_lookup_def auxtrace_cache__lookup_def)
next
  fix hc :: "(u32 \<Rightarrow> nat \<Rightarrow> nat) \<times> 'e auxtrace_cache" and k e
  assume wf: "hashed_wf hc"
  show "\<exists>hc'. hashed_add hc k e = Some (0, hc') \<and> hashed_wf hc'"
    by (rule hashed_add_split [OF wf, of k e]) (use wf in \<open>auto simp: hashed_wf_def cache_wf_def\<close>)
next
  fix hc hc' :: "(u32 \<Rightarrow> nat \<Rightarrow> nat) \<times> 'e auxtrace_cache" and k e r
  assume wf: "hashed_wf hc" and add: "hashed_add hc k e = Some (r, hc')"
  show "hashed_lookup hc' k = Some (Some e)"
    by (rule hashed_add_split [OF wf, of k e]) (use add in \<open>auto simp: hashed_lookup_def auxtrace_cache__lookup_def\<close>)
next
  fix hc hc' :: "(u32 \<Rightarrow> nat \<Rightarrow> nat) \<times> 'e auxtrace_cache" and k k' e r x
  assume wf: "hashed_wf hc" and add: "hashed_add hc k e = Some (r, hc')" and neq: "k' \<noteq> k"
    and found: "hashed_lookup hc' k' = Some (Some x)"
  obtain h c where hc: "hc = (h, c)" by (cases hc)
  obtain ht n where ht: "ht = hashtable c \<or> ht = replicate (2 ^ ac_bits c) []" "length ht = 2 ^ ac_bits c"
      "h k (ac_bits c) < length ht" "hc' = (h, c \<lparr>ac_cnt := n, hashtable := ht[h k (ac_bits c) := (k, e) # ht ! h k (ac_bits c)]\<rparr>)"
    by (rule hashed_add_split [OF wf, of k e]) (use add hc in auto)
  have bound: "h k' (ac_bits c) < 2 ^ ac_bits c" "length (hashtable c) = 2 ^ ac_bits c"
    using wf by (auto simp: hc hashed_wf_def cache_wf_def hash_law_def)
  then have "map_of (ht ! h k' (ac_bits c)) k' = Some x"
    using found ht(2-) neq by (auto simp: hashed_lookup_def auxtrace_cache__lookup_def nth_list_update split: if_splits)
  then show "hashed_lookup hc k' = Some (Some x)"
    using ht(1) bound by (auto simp: hc hashed_lookup_def auxtrace_cache__lookup_def)
qed

text \<open>The number of entries: the limit is exceeded by one after the first drop.\<close>

definition entries_of :: "'e auxtrace_cache \<Rightarrow> nat" where
  "entries_of c = sum_list (map length (hashtable c))"

lemma cache_exceeds_limit:
  "map_option (\<lambda>(r, c). (ac_limit c, entries_of c)) (do {
     c \<leftarrow> auxtrace_cache__new True True 1 8 50;
     c \<leftarrow> c;
     (_, c) \<leftarrow> auxtrace_cache__add (\<lambda>_ _. 0) c 1 ();
     (_, c) \<leftarrow> auxtrace_cache__add (\<lambda>_ _. 0) c 2 ();
     auxtrace_cache__add (\<lambda>_ _. 0) c 3 ()
   }) = Some (1, 2)"
  by code_simp

lemma new_cache:
  assumes "0 < bits" and "bits \<le> 32"
  shows "\<exists>c. auxtrace_cache__new ok_c ok_ht bits sz pct = Some c \<and>
    (\<forall>c'. c = Some c' \<longrightarrow> cache_wf h c' \<and> hashtable c' = replicate (2 ^ bits) [])"
proof -
  have "(2 :: nat) ^ bits < 2 ^ 64" using assms(2) by (intro power_strict_increasing) auto
  then have "unat (push_bit bits 1 :: u64) = 2 ^ bits"
    using unat_of_nat_small [of "2 ^ bits", where 'a = 64] by (simp add: push_bit_eq_mult)
  then show ?thesis using assms by (auto simp: auxtrace_cache__new_def Let_def cache_wf_def)
qed

end
