(* ===== verification/Intel_PT_Walk.thy ===== *)
theory Intel_PT_Walk
  imports Intel_PT_Insn Auxtrace_Cache
begin

text \<open>
  Walking the instructions of a program (\<open>intel_pt_walk_next_insn\<close> of \<^verbatim>\<open>util/intel-pt.c\<close>) with the cache of
  decoded code that each DSO (shared object) has.  The maps of the traced program, the data of the DSOs, the hash function and the
  outcome of the allocations are parameters.  The status of a DSO's data does not change during the
  walk, and instruction counts are natural numbers.  The log is left out.
\<close>

section \<open>The code\<close>

record intel_pt_cache_entry =
  ce_insn_cnt :: nat
  ce_byte_cnt :: u64
  ce_op :: intel_pt_insn_op
  ce_branch :: intel_pt_insn_branch
  ce_length :: nat
  ce_rel :: int
  ce_insn :: "u8 list"

record 'd pt_map =
  m_dso :: "'d option"
  m_end :: u64
  m_map_ip :: "u64 \<Rightarrow> u64"

text \<open>
  \<open>data_read\<close> is \<open>dso__data_read_offset\<close> of up to 16 bytes, \<open>None\<close> when it returns 0 or an error; \<open>data_error\<close> is
  whether the status of the data is an error; \<open>divisor_cfg\<close> is the number of \<^verbatim>\<open>intel-pt.cache-divisor\<close>, if it is configured.
\<close>

record ('t, 'd) walk_env =
  tables :: inat_tables
  find_map :: "'t \<Rightarrow> u8 \<Rightarrow> u64 \<Rightarrow> 'd pt_map option"
  data_error :: "'d \<Rightarrow> bool"
  data_read :: "'d \<Rightarrow> u64 \<Rightarrow> u8 list option"
  data_size :: "'d \<Rightarrow> int"
  is_64_bit :: "'d \<Rightarrow> bool"
  hash_32 :: "u32 \<Rightarrow> nat \<Rightarrow> nat"
  divisor_cfg :: "int option"
  alloc :: "nat \<Rightarrow> bool"
  kernel_start :: u64
  ptq_thread :: "'t option"
  unknown_thread :: 't

record 'd walk_state =
  caches :: "'d \<Rightarrow> intel_pt_cache_entry auxtrace_cache option"
  status_seen :: "'d \<Rightarrow> bool"
  allocs :: nat

definition intel_pt_config_div :: "int \<Rightarrow> int \<Rightarrow> int" where
  "intel_pt_config_div val d = (if val > 0 \<and> val \<le> 2 ^ 31 - 1 then val else d)"

definition intel_pt_cache_divisor :: "int option \<Rightarrow> int" where
  "intel_pt_cache_divisor cfg =
     (let d = (case cfg of None \<Rightarrow> 0 | Some val \<Rightarrow> intel_pt_config_div val 0) in if d = 0 then 64 else d)"

text \<open>The number of binary digits, \<open>32 - __builtin_clz (n)\<close>.\<close>

fun bit_length :: "nat \<Rightarrow> nat" where
  "bit_length n = (if n = 0 then 0 else Suc (bit_length (n div 2)))"

declare bit_length.simps [simp del]

definition intel_pt_cache_size :: "('t, 'd) walk_env \<Rightarrow> 'd \<Rightarrow> nat" where
  "intel_pt_cache_size env dso =
     (let sz = data_size env dso;
          d = intel_pt_cache_divisor (divisor_cfg env);
          sz = (if sz < 0 then - ((- sz) div d) else sz div d) in
      if sz < 1000 then 10
      else if sz > 2 ^ 21 then 21
      else bit_length (nat sz))"

abbreviation (input) SIZEOF_CACHE_ENTRY :: u64 where
  "SIZEOF_CACHE_ENTRY \<equiv> 72"

definition intel_pt_cache ::
  "('t, 'd) walk_env \<Rightarrow> 'd \<Rightarrow> 'd walk_state \<Rightarrow> (intel_pt_cache_entry auxtrace_cache option \<times> 'd walk_state) option"
where
  "intel_pt_cache env dso st = (case caches st dso of
     Some c \<Rightarrow> Some (Some c, st)
   | None \<Rightarrow> do {
       let a = allocs st;
       c \<leftarrow> auxtrace_cache__new (alloc env a) (alloc env (a + 1)) (intel_pt_cache_size env dso) SIZEOF_CACHE_ENTRY 200;
       Some (c, st \<lparr>caches := (caches st)(dso := c), allocs := (if alloc env a then a + 2 else a + 1)\<rparr>)
     })"

definition intel_pt_cache_add ::
  "('t, 'd) walk_env \<Rightarrow> 'd \<Rightarrow> 'd walk_state \<Rightarrow> u64 \<Rightarrow> nat \<Rightarrow> u64 \<Rightarrow> intel_pt_insn \<Rightarrow> (int \<times> 'd walk_state) option"
where
  "intel_pt_cache_add env dso st offset insn_cnt byte_cnt pi = do {
     (c, st) \<leftarrow> intel_pt_cache env dso st;
     case c of
       None \<Rightarrow> Some (- ENOMEM, st)
     | Some c \<Rightarrow>
         if \<not> alloc env (allocs st) then Some (- ENOMEM, st \<lparr>allocs := allocs st + 1\<rparr>)
         else if length (pi_buf pi) < INTEL_PT_INSN_BUF_SZ then None
         else do {
           let e = \<lparr>ce_insn_cnt = insn_cnt, ce_byte_cnt = byte_cnt, ce_op = pi_op pi, ce_branch = pi_branch pi,
                    ce_length = pi_length pi, ce_rel = pi_rel pi, ce_insn = take INTEL_PT_INSN_BUF_SZ (pi_buf pi)\<rparr>;
           (err, c) \<leftarrow> auxtrace_cache__add (hash_32 env) c (ucast offset) e;
           Some (err, st \<lparr>allocs := allocs st + 1, caches := (caches st)(dso := Some c)\<rparr>)
         }
   }"

definition intel_pt_cache_lookup ::
  "('t, 'd) walk_env \<Rightarrow> 'd \<Rightarrow> 'd walk_state \<Rightarrow> u64 \<Rightarrow> (intel_pt_cache_entry option \<times> 'd walk_state) option"
where
  "intel_pt_cache_lookup env dso st offset = do {
     (c, st) \<leftarrow> intel_pt_cache env dso st;
     if c = None then Some (None, st)
     else do {
       e \<leftarrow> auxtrace_cache__lookup (hash_32 env) (caches st dso) (ucast offset);
       Some (e, st)
     }
   }"

abbreviation (input) PERF_RECORD_MISC_KERNEL :: u8 where "PERF_RECORD_MISC_KERNEL \<equiv> 1"
abbreviation (input) PERF_RECORD_MISC_USER :: u8 where "PERF_RECORD_MISC_USER \<equiv> 2"

definition intel_pt_cpumode :: "('t, 'd) walk_env \<Rightarrow> u64 \<Rightarrow> u8" where
  "intel_pt_cpumode env ip = (if ip \<ge> kernel_start env then PERF_RECORD_MISC_KERNEL else PERF_RECORD_MISC_USER)"

definition dso__data_status_seen :: "'d \<Rightarrow> 'd walk_state \<Rightarrow> bool \<times> 'd walk_state" where
  "dso__data_status_seen dso st =
     (if status_seen st dso then (True, st) else (False, st \<lparr>status_seen := (status_seen st)(dso := True)\<rparr>))"

text \<open>
  The inner loop of \<open>intel_pt_walk_next_insn\<close>: how it ends, with the instruction, the count and the address.
  \<open>Walk_out\<close> and \<open>Walk_no_cache\<close> are the labels it jumps to, \<open>Walk_break\<close> is the end of the map.
\<close>

datatype walk_end = Walk_out | Walk_no_cache | Walk_error | Walk_break

partial_function (option) insn_loop ::
  "inat_tables \<Rightarrow> (u64 \<Rightarrow> u8 list option) \<Rightarrow> bool \<Rightarrow> u64 \<Rightarrow> u64 \<Rightarrow> nat \<Rightarrow> intel_pt_insn \<Rightarrow> nat \<Rightarrow> u64 \<Rightarrow> u64 \<Rightarrow>
    (walk_end \<times> intel_pt_insn \<times> nat \<times> u64) option"
where
  "insn_loop T rd16 is64 map_end to_ip max_insn_cnt pi insn_cnt ip offset = (case rd16 offset of
     None \<Rightarrow> Some (Walk_error, pi, insn_cnt, ip)
   | Some buf \<Rightarrow> do {
       (err, pi) \<leftarrow> intel_pt_get_insn T buf (length buf) is64 pi;
       if err \<noteq> 0 then Some (Walk_error, pi, insn_cnt, ip)
       else if pi_branch pi \<noteq> INTEL_PT_BR_NO_BRANCH then Some (Walk_out, pi, insn_cnt + 1, ip)
       else if max_insn_cnt \<noteq> 0 \<and> insn_cnt + 1 \<ge> max_insn_cnt then Some (Walk_no_cache, pi, insn_cnt + 1, ip)
       else if to_ip \<noteq> 0 \<and> ip + of_nat (pi_length pi) = to_ip
       then Some (Walk_no_cache, pi, insn_cnt + 1, ip + of_nat (pi_length pi))
       else if ip + of_nat (pi_length pi) \<ge> map_end
       then Some (Walk_break, pi, insn_cnt + 1, ip + of_nat (pi_length pi))
       else insn_loop T rd16 is64 map_end to_ip max_insn_cnt pi (insn_cnt + 1)
              (ip + of_nat (pi_length pi)) (offset + of_nat (pi_length pi))
     })"

definition use_entry :: "intel_pt_cache_entry \<Rightarrow> intel_pt_insn \<Rightarrow> intel_pt_insn" where
  "use_entry e pi = pi \<lparr>pi_op := ce_op e, pi_branch := ce_branch e, pi_length := ce_length e, pi_rel := ce_rel e,
     pi_buf := ce_insn e\<rparr>"

text \<open>Behind the label \<open>out\<close>, for an instruction found in the map that the walk started in.\<close>

definition walk_out ::
  "('t, 'd) walk_env \<Rightarrow> 'd \<Rightarrow> 'd walk_state \<Rightarrow> u64 \<Rightarrow> u64 \<Rightarrow> nat \<Rightarrow> u64 \<Rightarrow> intel_pt_insn \<Rightarrow> 'd walk_state option"
where
  "walk_out env dso st to_ip start_offset insn_cnt byte_cnt pi = do {
     (e, st) \<leftarrow> (if to_ip \<noteq> 0 then intel_pt_cache_lookup env dso st start_offset else Some (None, st));
     if e \<noteq> None then Some st
     else do {
       (_, st) \<leftarrow> intel_pt_cache_add env dso st start_offset insn_cnt byte_cnt pi;
       Some st
     }
   }"

text \<open>The outer loop: the result, the instruction, what \<open>insn_cnt_ptr\<close> points to, the address and the state.\<close>

partial_function (option) walk_loop ::
  "('t, 'd) walk_env \<Rightarrow> 't \<Rightarrow> u8 \<Rightarrow> u64 \<Rightarrow> nat \<Rightarrow> nat \<Rightarrow> 'd walk_state \<Rightarrow> intel_pt_insn \<Rightarrow> nat \<Rightarrow> u64 \<Rightarrow> bool \<Rightarrow>
    (int \<times> intel_pt_insn \<times> nat \<times> u64 \<times> 'd walk_state) option"
where
  "walk_loop env thread cpumode to_ip max_insn_cnt cnt0 st pi insn_cnt ip one_map =
     (case find_map env thread cpumode ip of
        None \<Rightarrow> Some (- EINVAL, pi, cnt0, ip, st)
      | Some m \<Rightarrow> (case m_dso m of
          None \<Rightarrow> Some (- EINVAL, pi, cnt0, ip, st)
        | Some dso \<Rightarrow>
            let (seen, st) = (if data_error env dso then dso__data_status_seen dso st else (False, st)) in
            if seen then Some (- 2, pi, cnt0, ip, st)
            else do {
              let offset = m_map_ip m ip;
              (e, st) \<leftarrow> (if to_ip = 0 \<and> one_map then intel_pt_cache_lookup env dso st offset else Some (None, st));
              if e \<noteq> None \<and> (max_insn_cnt = 0 \<or> ce_insn_cnt (the e) \<le> max_insn_cnt)
              then Some (0, use_entry (the e) pi, ce_insn_cnt (the e), ip + ce_byte_cnt (the e), st)
              else do {
                (how, pi, insn_cnt, ip') \<leftarrow> insn_loop (tables env) (data_read env dso) (is_64_bit env dso) (m_end m)
                  to_ip max_insn_cnt pi insn_cnt ip offset;
                if how = Walk_break
                then walk_loop env thread cpumode to_ip max_insn_cnt cnt0 st pi insn_cnt ip' False
                else if how = Walk_error then Some (- EINVAL, pi, cnt0, ip', st)
                else if how = Walk_no_cache \<or> \<not> one_map then Some (0, pi, insn_cnt, ip', st)
                else do {
                  st \<leftarrow> walk_out env dso st to_ip offset insn_cnt (ip' - ip) pi;
                  Some (0, pi, insn_cnt, ip', st)
                }
              }
            }))"

definition intel_pt_walk_next_insn ::
  "('t, 'd) walk_env \<Rightarrow> 'd walk_state \<Rightarrow> intel_pt_insn \<Rightarrow> nat \<Rightarrow> u64 \<Rightarrow> u64 \<Rightarrow> nat \<Rightarrow>
    (int \<times> intel_pt_insn \<times> nat \<times> u64 \<times> 'd walk_state) option"
where
  "intel_pt_walk_next_insn env st pi cnt0 ip to_ip max_insn_cnt =
     (let pi = pi \<lparr>pi_length := 0\<rparr> in
      if to_ip \<noteq> 0 \<and> ip = to_ip then Some (0, pi, 0, ip, st)
      else
        let cpumode = intel_pt_cpumode env ip in
        case ptq_thread env of
          None \<Rightarrow>
            if cpumode \<noteq> PERF_RECORD_MISC_KERNEL then Some (- EINVAL, pi, cnt0, ip, st)
            else walk_loop env (unknown_thread env) cpumode to_ip max_insn_cnt cnt0 st pi 0 ip True
        | Some thread \<Rightarrow> walk_loop env thread cpumode to_ip max_insn_cnt cnt0 st pi 0 ip True)"

section \<open>The inner loop\<close>

text \<open>Instructions that agree in what they are; the bytes behind the instruction in the buffer are left over.\<close>

definition same_insn :: "intel_pt_insn \<Rightarrow> intel_pt_insn \<Rightarrow> bool" where
  "same_insn p q \<longleftrightarrow> pi_op p = pi_op q \<and> pi_branch p = pi_branch q \<and> pi_length p = pi_length q \<and> pi_rel p = pi_rel q \<and>
     take (pi_length p) (pi_buf p) = take (pi_length q) (pi_buf q)"

lemma same_insn_refl [simp]: "same_insn p p"
  by (simp add: same_insn_def)

lemma same_insn_sym: "same_insn p q \<Longrightarrow> same_insn q p"
  unfolding same_insn_def by metis

lemma same_insn_trans: "same_insn p q \<Longrightarrow> same_insn q r \<Longrightarrow> same_insn p r"
  unfolding same_insn_def by metis

text \<open>The decoded instruction does not depend on what the structure held before.\<close>

lemma decoder_other:
  "intel_pt_insn_decoder T buf insn q = map_option (\<lambda>r. r \<lparr>pi_buf := pi_buf q\<rparr>) (intel_pt_insn_decoder T buf insn p)"
proof (cases "insn_is_avx T buf insn")
  case None
  then show ?thesis by (simp add: intel_pt_insn_decoder_def)
next
  case (Some ai)
  then show ?thesis
    by (cases ai; cases "insn_op_branch (snd ai)"; cases p; cases q) (simp add: intel_pt_insn_decoder_def Let_def)
qed

lemma decoder_buf: "intel_pt_insn_decoder T buf insn p = Some p' \<Longrightarrow> pi_buf p' = pi_buf p"
  using decoder_other [of T buf insn p p] by (cases p') (auto simp: intel_pt_insn.equality)

lemma get_insn_other:
  assumes T: "tables_ok T" and buf: "length buf \<le> 16"
    and "intel_pt_get_insn T buf (length buf) is64 p = Some (0, p')" and "length (pi_buf p) = 16" and "length (pi_buf q) = 16"
  obtains q' where "intel_pt_get_insn T buf (length buf) is64 q = Some (0, q')" and "same_insn p' q'"
    and "length (pi_buf p') = 16" and "length (pi_buf q') = 16"
proof -
  have "int_of_size (length buf) \<le> int (length buf)" using buf by (simp add: int_of_size_le)
  then obtain insn where insn: "insn_get_length T buf (insn_init (int_of_size (length buf)) is64) = Some insn"
      "stage False 6 buf insn" "insn_length insn \<le> 15"
    using get_length_init [OF T] by blast
  define n where "n = (if insn_length insn < 16 then insn_length insn else 16)"
  obtain r where r: "intel_pt_insn_decoder T buf insn p = Some r" "pi_buf r = pi_buf p" "pi_length r = insn_length insn"
    using insn_decoder_total [OF T insn(2)] by blast
  then have q: "intel_pt_insn_decoder T buf insn q = Some (r \<lparr>pi_buf := pi_buf q\<rparr>)" using decoder_other [of T buf insn q p] by simp
  have ok: "insn_complete insn" "insn_length insn \<le> length buf" and p': "memcpy_to (pi_buf p) buf n = Some (pi_buf p')" "p' = r \<lparr>pi_buf := pi_buf p'\<rparr>"
    using assms(3) insn(1) r(1,2) by (auto simp: intel_pt_get_insn_def bind_eq_Some_conv n_def not_less split: if_splits)
  have n: "n = insn_length insn" using insn(3) by (simp add: n_def)
  then have bp: "pi_buf p' = take n buf @ drop n (pi_buf p)" and bq: "memcpy_to (pi_buf q) buf n = Some (take n buf @ drop n (pi_buf q))"
    using p'(1) ok(2) insn(3) assms(4,5) by (auto simp: memcpy_to_def)
  let ?q = "r \<lparr>pi_buf := take n buf @ drop n (pi_buf q)\<rparr>"
  have "intel_pt_get_insn T buf (length buf) is64 q = Some (0, ?q)"
    using insn(1) ok q bq by (simp add: intel_pt_get_insn_def n_def not_less)
  moreover have "pi_op p' = pi_op r" "pi_branch p' = pi_branch r" "pi_length p' = n" "pi_rel p' = pi_rel r"
    using arg_cong [OF p'(2), of pi_op] arg_cong [OF p'(2), of pi_branch] arg_cong [OF p'(2), of pi_length]
      arg_cong [OF p'(2), of pi_rel] r(3) n by simp_all
  then have "same_insn p' ?q" using r(3) n ok(2) bp by (simp add: same_insn_def)
  moreover have "length (pi_buf p') = 16" "length (pi_buf ?q) = 16" using bp assms(4,5) ok(2) n insn(3) by simp_all
  ultimately show ?thesis using that by blast
qed

text \<open>A straight run of instructions of a map up to the first branch.\<close>

inductive run :: "inat_tables \<Rightarrow> (u64 \<Rightarrow> u8 list option) \<Rightarrow> bool \<Rightarrow> u64 \<Rightarrow>
    intel_pt_insn \<Rightarrow> nat \<Rightarrow> u64 \<Rightarrow> u64 \<Rightarrow> intel_pt_insn \<Rightarrow> nat \<Rightarrow> u64 \<Rightarrow> bool"
  for T :: inat_tables and rd16 :: "u64 \<Rightarrow> u8 list option" and is64 :: bool and map_end :: u64
where
  branch: "rd16 off = Some buf \<Longrightarrow> intel_pt_get_insn T buf (length buf) is64 p = Some (0, p') \<Longrightarrow>
    pi_branch p' \<noteq> INTEL_PT_BR_NO_BRANCH \<Longrightarrow> run T rd16 is64 map_end p n ip off p' (Suc n) ip"
| step: "rd16 off = Some buf \<Longrightarrow> intel_pt_get_insn T buf (length buf) is64 p = Some (0, p1) \<Longrightarrow>
    pi_branch p1 = INTEL_PT_BR_NO_BRANCH \<Longrightarrow> \<not> ip + of_nat (pi_length p1) \<ge> map_end \<Longrightarrow>
    run T rd16 is64 map_end p1 (Suc n) (ip + of_nat (pi_length p1)) (off + of_nat (pi_length p1)) p' n' ip' \<Longrightarrow>
    run T rd16 is64 map_end p n ip off p' n' ip'"

lemma loop_run:
  assumes "insn_loop T rd16 is64 map_end to_ip mx p n ip off = Some (Walk_out, p', n', ip')"
  shows "run T rd16 is64 map_end p n ip off p' n' ip'"
proof -
  let ?P = "\<lambda>T rd16 is64 map_end to_ip mx p n ip off y. fst y = Walk_out \<longrightarrow>
    run T rd16 is64 map_end p n ip off (fst (snd y)) (fst (snd (snd y))) (snd (snd (snd y)))"
  have "?P T rd16 is64 map_end to_ip mx p n ip off (Walk_out, p', n', ip')"
  proof (rule insn_loop.raw_induct [where P = ?P, OF _ assms])
    fix f T rd16 is64 map_end to_ip mx p n ip off y
    assume IH: "\<And>T rd16 is64 map_end to_ip mx p n ip off y. f T rd16 is64 map_end to_ip mx p n ip off = Some y \<Longrightarrow>
        ?P T rd16 is64 map_end to_ip mx p n ip off y"
      and body: "(case rd16 off of
     None \<Rightarrow> Some (Walk_error, p, n, ip)
   | Some buf \<Rightarrow> do {
       (err, pi) \<leftarrow> intel_pt_get_insn T buf (length buf) is64 p;
       if err \<noteq> 0 then Some (Walk_error, pi, n, ip)
       else if pi_branch pi \<noteq> INTEL_PT_BR_NO_BRANCH then Some (Walk_out, pi, n + 1, ip)
       else if mx \<noteq> 0 \<and> n + 1 \<ge> mx then Some (Walk_no_cache, pi, n + 1, ip)
       else if to_ip \<noteq> 0 \<and> ip + of_nat (pi_length pi) = to_ip
       then Some (Walk_no_cache, pi, n + 1, ip + of_nat (pi_length pi))
       else if ip + of_nat (pi_length pi) \<ge> map_end
       then Some (Walk_break, pi, n + 1, ip + of_nat (pi_length pi))
       else f T rd16 is64 map_end to_ip mx pi (n + 1) (ip + of_nat (pi_length pi)) (off + of_nat (pi_length pi))
     }) = Some y"
    show "?P T rd16 is64 map_end to_ip mx p n ip off y"
    proof
      assume out: "fst y = Walk_out"
      obtain buf err q where q: "rd16 off = Some buf" "intel_pt_get_insn T buf (length buf) is64 p = Some (err, q)"
        using body out by (auto simp: bind_eq_Some_conv split: option.splits)
      then have err: "err = 0" using body out by (auto split: if_splits)
      show "run T rd16 is64 map_end p n ip off (fst (snd y)) (fst (snd (snd y))) (snd (snd (snd y)))"
      proof (cases "pi_branch q = INTEL_PT_BR_NO_BRANCH")
        case False
        then show ?thesis using body q err run.branch [of rd16 off buf T is64 p q] by auto
      next
        case True
        then have "\<not> ip + of_nat (pi_length q) \<ge> map_end"
          "f T rd16 is64 map_end to_ip mx q (n + 1) (ip + of_nat (pi_length q)) (off + of_nat (pi_length q)) = Some y"
          using body q err out by (auto split: if_splits)
        then show ?thesis using IH [of T rd16 is64 map_end to_ip mx q "n + 1"] out q err True
          by (intro run.step [of rd16 off buf T is64 p q map_end ip n]) auto
      qed
    qed
  qed
  then show ?thesis by simp
qed

lemma run_count: "run T rd16 is64 map_end p n ip off p' n' ip' \<Longrightarrow> n < n'"
  by (induction rule: run.induct) auto

lemma run_loop:
  assumes "run T rd16 is64 map_end p n ip off p' n' ip'" and "mx = 0 \<or> n' \<le> mx"
  shows "insn_loop T rd16 is64 map_end 0 mx p n ip off = Some (Walk_out, p', n', ip')"
  using assms
proof (induction rule: run.induct)
  case (branch off buf p p' n ip)
  then show ?case by (subst insn_loop.simps) simp
next
  case (step off buf p p1 ip n p' n' ip')
  then have "mx = 0 \<or> \<not> n + 1 \<ge> mx" using run_count by fastforce
  then show ?case using step by (subst insn_loop.simps) auto
qed

lemma run_other:
  assumes "run T rd16 is64 map_end p n ip off p' n' ip'" and "tables_ok T" and "\<forall>off buf. rd16 off = Some buf \<longrightarrow> length buf \<le> 16"
    and "length (pi_buf p) = 16" and "length (pi_buf q) = 16"
  shows "\<exists>q'. run T rd16 is64 map_end q n ip off q' n' ip' \<and> same_insn p' q' \<and> length (pi_buf p') = 16"
  using assms(1,4,5)
proof (induction arbitrary: q rule: run.induct)
  case (branch off buf p p' n ip)
  have "length buf \<le> 16" using assms(3) branch(1) by blast
  from get_insn_other [OF assms(2) this branch(2,4,5)]
  obtain q' where "intel_pt_get_insn T buf (length buf) is64 q = Some (0, q')" "same_insn p' q'" "length (pi_buf p') = 16" .
  moreover from this have "pi_branch q' \<noteq> INTEL_PT_BR_NO_BRANCH" using branch(3) by (simp add: same_insn_def)
  ultimately show ?case using branch(1) run.branch [of rd16 off buf T is64 q q'] by blast
next
  case (step off buf p p1 ip n p' n' ip')
  have "length buf \<le> 16" using assms(3) step(1) by blast
  from get_insn_other [OF assms(2) this step(2,7,8)]
  obtain q1 where q1: "intel_pt_get_insn T buf (length buf) is64 q = Some (0, q1)" "same_insn p1 q1" "length (pi_buf p1) = 16" "length (pi_buf q1) = 16" .
  have eq: "pi_branch q1 = INTEL_PT_BR_NO_BRANCH" "pi_length q1 = pi_length p1" using q1(2) step(3) by (auto simp: same_insn_def)
  obtain q' where "run T rd16 is64 map_end q1 (Suc n) (ip + of_nat (pi_length p1)) (off + of_nat (pi_length p1)) q' n' ip'"
      "same_insn p' q'" "length (pi_buf p') = 16"
    using step.IH [OF q1(3,4)] by blast
  then show ?case using run.step [of rd16 off buf T is64 q q1 map_end ip n q' n' ip'] step(1,4) q1(1) eq by auto
qed

section \<open>The caches hold results of the walk\<close>

definition env_ok :: "('t, 'd) walk_env \<Rightarrow> bool" where
  "env_ok env \<longleftrightarrow> tables_ok (tables env) \<and> hash_law (hash_32 env) \<and>
     (\<forall>d off buf. data_read env d off = Some buf \<longrightarrow> length buf \<le> 16)"

text \<open>The map of an address, as the walk that starts at the address finds it.\<close>

definition thread_at :: "('t, 'd) walk_env \<Rightarrow> u64 \<Rightarrow> 't option" where
  "thread_at env ip = (case ptq_thread env of
     Some t \<Rightarrow> Some t
   | None \<Rightarrow> if intel_pt_cpumode env ip \<noteq> PERF_RECORD_MISC_KERNEL then None else Some (unknown_thread env))"

definition map_at :: "('t, 'd) walk_env \<Rightarrow> u64 \<Rightarrow> 'd pt_map option" where
  "map_at env ip = do { t \<leftarrow> thread_at env ip; find_map env t (intel_pt_cpumode env ip) ip }"

text \<open>No two addresses have the same key in the cache of the same DSO.\<close>

definition distinct_keys :: "('t, 'd) walk_env \<Rightarrow> bool" where
  "distinct_keys env \<longleftrightarrow> (\<forall>ip ip' m m' d. map_at env ip = Some m \<longrightarrow> map_at env ip' = Some m' \<longrightarrow>
     m_dso m = Some d \<longrightarrow> m_dso m' = Some d \<longrightarrow>
     (ucast (m_map_ip m ip) :: u32) = ucast (m_map_ip m' ip') \<longrightarrow> ip = ip')"

definition entry_ok :: "('t, 'd) walk_env \<Rightarrow> 'd \<Rightarrow> u32 \<Rightarrow> intel_pt_cache_entry \<Rightarrow> bool" where
  "entry_ok env d key e \<longleftrightarrow> (\<forall>ip m. map_at env ip = Some m \<longrightarrow> m_dso m = Some d \<longrightarrow> ucast (m_map_ip m ip) = key \<longrightarrow>
     (\<exists>p p'. length (pi_buf p) = 16 \<and> same_insn p' (use_entry e p) \<and>
       run (tables env) (data_read env d) (is_64_bit env d) (m_end m) p 0 ip (m_map_ip m ip) p' (ce_insn_cnt e) (ip + ce_byte_cnt e)))"

definition caches_ok :: "('t, 'd) walk_env \<Rightarrow> 'd walk_state \<Rightarrow> bool" where
  "caches_ok env st \<longleftrightarrow> (\<forall>d c. caches st d = Some c \<longrightarrow> hashed.sound (entry_ok env d) (hash_32 env, c))"

lemma use_entry_other: "use_entry e p = use_entry e q"
  by (simp add: use_entry_def)

lemma bit_length_le: "n < 2 ^ k \<Longrightarrow> bit_length n \<le> k"
proof (induction k arbitrary: n)
  case 0
  then show ?case by (subst bit_length.simps) simp
next
  case (Suc k)
  then have "n div 2 < 2 ^ k" by auto
  then show ?case using Suc.IH [of "n div 2"] by (subst bit_length.simps) simp
qed

lemma cache_bits: "0 < intel_pt_cache_size env d \<and> intel_pt_cache_size env d \<le> 32"
proof -
  have "0 < bit_length (nat s)" if "\<not> s < 1000" for s :: int
    using that by (subst bit_length.simps) simp
  moreover have "bit_length (nat s) \<le> 32" if "\<not> s > 2 ^ 21" for s :: int
    using that by (intro bit_length_le) auto
  ultimately show ?thesis by (simp add: intel_pt_cache_size_def Let_def)
qed

lemma cache_get:
  assumes "env_ok env" and "caches_ok env st"
  obtains c st' where "intel_pt_cache env d st = Some (c, st')" and "caches_ok env st'" and "status_seen st' = status_seen st"
    and "caches st' d = c"
proof (cases "caches st d")
  case (Some c)
  then show ?thesis using that assms(2) by (simp add: intel_pt_cache_def)
next
  case None
  let ?a = "allocs st"
  have "\<exists>c :: intel_pt_cache_entry auxtrace_cache option.
      auxtrace_cache__new (alloc env ?a) (alloc env (?a + 1)) (intel_pt_cache_size env d) SIZEOF_CACHE_ENTRY 200 = Some c \<and>
      (\<forall>c'. c = Some c' \<longrightarrow> cache_wf (hash_32 env) c' \<and> hashtable c' = replicate (2 ^ intel_pt_cache_size env d) [])"
    by (rule new_cache) (use cache_bits [of env d] in simp_all)
  then obtain c :: "intel_pt_cache_entry auxtrace_cache option" where
    c: "auxtrace_cache__new (alloc env ?a) (alloc env (?a + 1)) (intel_pt_cache_size env d) SIZEOF_CACHE_ENTRY 200 = Some c"
      "\<forall>c'. c = Some c' \<longrightarrow> cache_wf (hash_32 env) c' \<and> hashtable c' = replicate (2 ^ intel_pt_cache_size env d) []" by blast
  have "hashed.sound (entry_ok env d) (hash_32 env, c')" if "c = Some c'" for c'
  proof -
    have wf: "cache_wf (hash_32 env) c'" and ht: "\<And>i. i < length (hashtable c') \<Longrightarrow> hashtable c' ! i = []" using c(2) that by auto
    have "hashed_lookup (hash_32 env, c') k \<noteq> Some (Some e)" for k e
      using ht by (auto simp: hashed_lookup_def auxtrace_cache__lookup_def bind_eq_Some_conv rd_eq_Some)
    then show ?thesis using wf assms(1) by (simp add: hashed.sound_def hashed_wf_def env_ok_def)
  qed
  then have "caches_ok env (st \<lparr>caches := (caches st)(d := c), allocs := (if alloc env ?a then ?a + 2 else ?a + 1)\<rparr>)"
    using assms(2) by (auto simp: caches_ok_def)
  then show ?thesis using that None c(1) by (simp add: intel_pt_cache_def Let_def)
qed

lemma cache_lookup:
  assumes "env_ok env" and "caches_ok env st"
  obtains e st' where "intel_pt_cache_lookup env d st off = Some (e, st')" and "caches_ok env st'"
    and "status_seen st' = status_seen st" and "\<forall>x. e = Some x \<longrightarrow> entry_ok env d (ucast off) x"
proof -
  obtain c st' where c: "intel_pt_cache env d st = Some (c, st')" "caches_ok env st'" "status_seen st' = status_seen st" "caches st' d = c"
    using cache_get [OF assms] .
  show ?thesis
  proof (cases c)
    case None
    then show ?thesis using that [of None st'] c by (simp add: intel_pt_cache_lookup_def)
  next
    case (Some x)
    then have "hashed.sound (entry_ok env d) (hash_32 env, x)" using c(2,4) by (simp add: caches_ok_def)
    from hashed.sound_lookup [OF this, of "ucast off"] show ?thesis
      using that [of _ st'] c Some by (auto simp: intel_pt_cache_lookup_def hashed_lookup_def)
  qed
qed

lemma cache_add:
  assumes "env_ok env" and "caches_ok env st" and "length (pi_buf p) = 16"
    and "entry_ok env d (ucast off) \<lparr>ce_insn_cnt = n, ce_byte_cnt = b, ce_op = pi_op p, ce_branch = pi_branch p,
      ce_length = pi_length p, ce_rel = pi_rel p, ce_insn = pi_buf p\<rparr>"
  obtains r st' where "intel_pt_cache_add env d st off n b p = Some (r, st')" and "caches_ok env st'"
    and "status_seen st' = status_seen st"
proof -
  obtain c st1 where c: "intel_pt_cache env d st = Some (c, st1)" "caches_ok env st1" "status_seen st1 = status_seen st" "caches st1 d = c"
    using cache_get [OF assms(1,2)] .
  show ?thesis
  proof (cases "c = None \<or> \<not> alloc env (allocs st1)")
    case True
    then have "intel_pt_cache_add env d st off n b p = Some (- ENOMEM, st1) \<or>
        intel_pt_cache_add env d st off n b p = Some (- ENOMEM, st1 \<lparr>allocs := allocs st1 + 1\<rparr>)"
      using c(1) by (cases c) (simp_all add: intel_pt_cache_add_def)
    moreover have "caches_ok env (st1 \<lparr>allocs := allocs st1 + 1\<rparr>)" using c(2) by (simp add: caches_ok_def)
    ultimately show ?thesis using that c(2,3) by auto
  next
    case False
    then obtain x where x: "c = Some x" "alloc env (allocs st1)" by auto
    then have "hashed.sound (entry_ok env d) (hash_32 env, x)" using c(2,4) by (simp add: caches_ok_def)
    from hashed.sound_add [OF this assms(4)] obtain hx where
      add: "hashed_add (hash_32 env, x) (ucast off) \<lparr>ce_insn_cnt = n, ce_byte_cnt = b, ce_op = pi_op p, ce_branch = pi_branch p,
        ce_length = pi_length p, ce_rel = pi_rel p, ce_insn = pi_buf p\<rparr> = Some (0, hx)" "hashed.sound (entry_ok env d) hx" by blast
    let ?st = "st1 \<lparr>allocs := allocs st1 + 1, caches := (caches st1)(d := Some (snd hx))\<rparr>"
    have "intel_pt_cache_add env d st off n b p = Some (0, ?st)"
      using c(1) x assms(3) add(1) by (auto simp: intel_pt_cache_add_def hashed_add_def bind_eq_Some_conv Let_def)
    moreover have "fst hx = hash_32 env" using add(1) by (auto simp: hashed_add_def bind_eq_Some_conv)
    then have "caches_ok env ?st" using c(2) add(2) by (cases hx) (auto simp: caches_ok_def)
    ultimately show ?thesis using that c(3) by simp
  qed
qed

section \<open>The walk without caches\<close>

text \<open>The same program where the caches are never allocated.\<close>

definition no_caches :: "('t, 'd) walk_env \<Rightarrow> ('t, 'd) walk_env" where
  "no_caches env = env \<lparr>alloc := \<lambda>_. False\<rparr>"

lemma no_caches_simps [simp]:
  "tables (no_caches env) = tables env" "find_map (no_caches env) = find_map env" "data_error (no_caches env) = data_error env"
  "data_read (no_caches env) = data_read env" "is_64_bit (no_caches env) = is_64_bit env" "ptq_thread (no_caches env) = ptq_thread env"
  "unknown_thread (no_caches env) = unknown_thread env" "intel_pt_cpumode (no_caches env) = intel_pt_cpumode env"
  by (simp_all add: no_caches_def fun_eq_iff intel_pt_cpumode_def)

definition sim :: "('t, 'd) walk_env \<Rightarrow> 'd walk_state \<Rightarrow> 'd walk_state \<Rightarrow> bool" where
  "sim env st st0 \<longleftrightarrow> caches_ok env st \<and> caches st0 = (\<lambda>_. None) \<and> status_seen st = status_seen st0"

definition same_result ::
  "('t, 'd) walk_env \<Rightarrow> int \<times> intel_pt_insn \<times> nat \<times> u64 \<times> 'd walk_state \<Rightarrow> int \<times> intel_pt_insn \<times> nat \<times> u64 \<times> 'd walk_state \<Rightarrow> bool"
where
  "same_result env x y = (case (x, y) of ((r, p, n, ip, st), (r', p', n', ip', st')) \<Rightarrow>
     r = r' \<and> same_insn p p' \<and> n = n' \<and> ip = ip' \<and> sim env st st')"

lemma same_result_simps [simp]:
  "same_result env (r, p, n, ip, st) (r', p', n', ip', st') \<longleftrightarrow> r = r' \<and> same_insn p p' \<and> n = n' \<and> ip = ip' \<and> sim env st st'"
  by (simp add: same_result_def)

text \<open>Behind the first map the caches are not used.\<close>

lemma walk_rest:
  fixes env :: "('t, 'd) walk_env"
  assumes "walk_loop env t cm to_ip mx n0 st p n ip False = Some (r, p', n', ip', st')" and "status_seen st2 = status_seen st"
  shows "\<exists>st2'. walk_loop (env \<lparr>alloc := f\<rparr>) t cm to_ip mx n0 st2 p n ip False = Some (r, p', n', ip', st2') \<and>
    status_seen st2' = status_seen st' \<and> caches st' = caches st \<and> caches st2' = caches st2"
proof -
  let ?P = "\<lambda>env t cm to_ip mx n0 st p n ip one y. \<forall>st2 r p' n' ip' st'. \<not> one \<longrightarrow> status_seen st2 = status_seen st \<longrightarrow> y = (r, p', n', ip', st') \<longrightarrow>
    (\<exists>st2'. walk_loop (env \<lparr>alloc := f\<rparr>) t cm to_ip mx n0 st2 p n ip False = Some (r, p', n', ip', st2') \<and>
      status_seen st2' = status_seen st' \<and> caches st' = caches st \<and> caches st2' = caches st2)"
  have "?P env t cm to_ip mx n0 st p n ip False (r, p', n', ip', st')"
  proof (rule walk_loop.raw_induct [where P = ?P, OF _ assms(1)])
    fix g and env :: "('t, 'd) walk_env" and t cm to_ip mx n0 and st :: "'d walk_state" and p n ip one y
    assume IH: "\<And>env t cm to_ip mx n0 st p n ip one y. g env t cm to_ip mx n0 st p n ip one = Some y \<Longrightarrow>
        ?P env t cm to_ip mx n0 st p n ip one y"
      and body: "(case find_map env t cm ip of
        None \<Rightarrow> Some (- EINVAL, p, n0, ip, st)
      | Some m \<Rightarrow> (case m_dso m of
          None \<Rightarrow> Some (- EINVAL, p, n0, ip, st)
        | Some dso \<Rightarrow>
            let (seen, st) = (if data_error env dso then dso__data_status_seen dso st else (False, st)) in
            if seen then Some (- 2, p, n0, ip, st)
            else do {
              let offset = m_map_ip m ip;
              (e, st) \<leftarrow> (if to_ip = 0 \<and> one then intel_pt_cache_lookup env dso st offset else Some (None, st));
              if e \<noteq> None \<and> (mx = 0 \<or> ce_insn_cnt (the e) \<le> mx)
              then Some (0, use_entry (the e) p, ce_insn_cnt (the e), ip + ce_byte_cnt (the e), st)
              else do {
                (how, pi, insn_cnt, ip') \<leftarrow> insn_loop (tables env) (data_read env dso) (is_64_bit env dso) (m_end m)
                  to_ip mx p n ip offset;
                if how = Walk_break then g env t cm to_ip mx n0 st pi insn_cnt ip' False
                else if how = Walk_error then Some (- EINVAL, pi, n0, ip', st)
                else if how = Walk_no_cache \<or> \<not> one then Some (0, pi, insn_cnt, ip', st)
                else do {
                  st \<leftarrow> walk_out env dso st to_ip offset insn_cnt (ip' - ip) pi;
                  Some (0, pi, insn_cnt, ip', st)
                }
              }
            })) = Some y"
    show "?P env t cm to_ip mx n0 st p n ip one y"
    proof (intro allI impI)
      fix st2 st' :: "'d walk_state" and r p' n' ip'
      assume one: "\<not> one" and seen: "status_seen st2 = status_seen st" and y: "y = (r, p', n', ip', st')"
      show "\<exists>st2'. walk_loop (env \<lparr>alloc := f\<rparr>) t cm to_ip mx n0 st2 p n ip False = Some (r, p', n', ip', st2') \<and>
        status_seen st2' = status_seen st' \<and> caches st' = caches st \<and> caches st2' = caches st2"
      proof (cases "\<exists>m dso. find_map env t cm ip = Some m \<and> m_dso m = Some dso")
        case False
        then show ?thesis using body y seen by (subst walk_loop.simps) (auto split: option.splits)
      next
        case True
        then obtain m dso where m: "find_map env t cm ip = Some m" "m_dso m = Some dso" by blast
        define seen1 where "seen1 = (data_error env dso \<and> status_seen st dso)"
        define upd where "upd s = (if data_error env dso \<and> \<not> status_seen s dso then s \<lparr>status_seen := (status_seen s)(dso := True)\<rparr> else s)"
          for s :: "'d walk_state"
        have pair: "(if data_error env dso then dso__data_status_seen dso s else (False, s)) = (data_error env dso \<and> status_seen s dso, upd s)" for s
          by (simp add: upd_def dso__data_status_seen_def)
        have upd: "status_seen (upd st2) = status_seen (upd st)" "caches (upd st) = caches st" "caches (upd st2) = caches st2"
          using seen by (simp_all add: upd_def)
        show ?thesis
        proof (cases seen1)
          case True
          then show ?thesis using body y m pair seen upd
            by (subst walk_loop.simps) (simp add: seen1_def Let_def)
        next
          case False
          then have ps: "(if data_error env dso then dso__data_status_seen dso st else (False, st)) = (False, upd st)"
              "(if data_error env dso then dso__data_status_seen dso st2 else (False, st2)) = (False, upd st2)"
            using pair [of st] pair [of st2] seen by (auto simp: seen1_def)
          have body': "do {
                (how, pi, insn_cnt, ip') \<leftarrow> insn_loop (tables env) (data_read env dso) (is_64_bit env dso) (m_end m)
                  to_ip mx p n ip (m_map_ip m ip);
                if how = Walk_break then g env t cm to_ip mx n0 (upd st) pi insn_cnt ip' False
                else if how = Walk_error then Some (- EINVAL, pi, n0, ip', upd st)
                else Some (0, pi, insn_cnt, ip', upd st)
              } = Some y"
            using body m ps(1) one by (simp add: Let_def cong: if_cong)
          have unfolded: "walk_loop (env \<lparr>alloc := f\<rparr>) t cm to_ip mx n0 st2 p n ip False = do {
                (how, pi, insn_cnt, ip') \<leftarrow> insn_loop (tables env) (data_read env dso) (is_64_bit env dso) (m_end m)
                  to_ip mx p n ip (m_map_ip m ip);
                if how = Walk_break then walk_loop (env \<lparr>alloc := f\<rparr>) t cm to_ip mx n0 (upd st2) pi insn_cnt ip' False
                else if how = Walk_error then Some (- EINVAL, pi, n0, ip', upd st2)
                else Some (0, pi, insn_cnt, ip', upd st2)
              }"
            using m ps(2) by (subst walk_loop.simps) (simp add: Let_def cong: if_cong)
          obtain how q n1 ip1 where loop: "insn_loop (tables env) (data_read env dso) (is_64_bit env dso) (m_end m) to_ip mx p n ip (m_map_ip m ip) =
              Some (how, q, n1, ip1)"
            using body' by (auto simp: bind_eq_Some_conv)
          show ?thesis
          proof (cases "how = Walk_break")
            case True
            then have "g env t cm to_ip mx n0 (upd st) q n1 ip1 False = Some y" using body' loop by simp
            from IH [OF this] y upd(1) have "\<exists>st2'. walk_loop (env \<lparr>alloc := f\<rparr>) t cm to_ip mx n0 (upd st2) q n1 ip1 False =
                Some (r, p', n', ip', st2') \<and> status_seen st2' = status_seen st' \<and> caches st' = caches (upd st) \<and> caches st2' = caches (upd st2)"
              by blast
            then show ?thesis using unfolded loop True upd(2,3) by simp
          next
            case False
            then show ?thesis using body' y loop unfolded upd by (auto split: if_splits)
          qed
        qed
      qed
    qed
  qed
  then show ?thesis using assms(2) by blast
qed

lemma walk_rest_same:
  assumes "sim env st st0"
  shows "rel_option (same_result env) (walk_loop env t cm to_ip mx n0 st p n ip False)
    (walk_loop (no_caches env) t cm to_ip mx n0 st0 p n ip False)"
proof (cases "walk_loop env t cm to_ip mx n0 st p n ip False")
  case None
  have "walk_loop (no_caches env) t cm to_ip mx n0 st0 p n ip False = None"
  proof (rule ccontr)
    assume "walk_loop (no_caches env) t cm to_ip mx n0 st0 p n ip False \<noteq> None"
    then obtain r p' n' ip' st' where "walk_loop (no_caches env) t cm to_ip mx n0 st0 p n ip False = Some (r, p', n', ip', st')" by auto
    from walk_rest [OF this, of st "alloc env"] None assms show False by (auto simp: no_caches_def sim_def)
  qed
  then show ?thesis using None by simp
next
  case (Some y)
  then obtain r p' n' ip' st' where y: "walk_loop env t cm to_ip mx n0 st p n ip False = Some (r, p', n', ip', st')" by (cases y) auto
  from walk_rest [OF this, of st0 "\<lambda>_. False"] assms obtain st0' where
    "walk_loop (no_caches env) t cm to_ip mx n0 st0 p n ip False = Some (r, p', n', ip', st0')"
    "status_seen st0' = status_seen st'" "caches st' = caches st" "caches st0' = caches st0"
    by (auto simp: no_caches_def sim_def)
  then show ?thesis using y assms by (simp add: sim_def caches_ok_def)
qed

lemma no_cache_lookup:
  assumes "caches st = (\<lambda>_. None)"
  shows "\<exists>st'. intel_pt_cache_lookup (no_caches env) d st off = Some (None, st') \<and> caches st' = (\<lambda>_. None) \<and> status_seen st' = status_seen st"
  using assms by (simp add: intel_pt_cache_lookup_def intel_pt_cache_def no_caches_def auxtrace_cache__new_def Let_def fun_eq_iff)

lemma no_cache_add:
  assumes "caches st = (\<lambda>_. None)"
  shows "\<exists>r st'. intel_pt_cache_add (no_caches env) d st off n b p = Some (r, st') \<and> caches st' = (\<lambda>_. None) \<and> status_seen st' = status_seen st"
  using assms by (simp add: intel_pt_cache_add_def intel_pt_cache_def no_caches_def auxtrace_cache__new_def Let_def fun_eq_iff)

lemma no_cache_out:
  assumes "caches st = (\<lambda>_. None)"
  shows "\<exists>st'. walk_out (no_caches env) d st to_ip off n b p = Some st' \<and> caches st' = (\<lambda>_. None) \<and> status_seen st' = status_seen st"
proof -
  obtain st1 where st1: "(if to_ip \<noteq> 0 then intel_pt_cache_lookup (no_caches env) d st off else Some (None, st)) = Some (None, st1)"
      "caches st1 = (\<lambda>_. None)" "status_seen st1 = status_seen st"
    using no_cache_lookup [OF assms, of env d off] assms by (cases "to_ip = 0") auto
  obtain r st2 where "intel_pt_cache_add (no_caches env) d st1 off n b p = Some (r, st2)" "caches st2 = (\<lambda>_. None)" "status_seen st2 = status_seen st1"
    using no_cache_add [OF st1(2)] by blast
  then show ?thesis using st1 by (simp add: walk_out_def)
qed

text \<open>A run from an address gives an entry for its key.\<close>

lemma run_entry_ok:
  assumes "distinct_keys env" and "map_at env ip = Some m" and "m_dso m = Some d" and "length (pi_buf p) = 16"
    and "run (tables env) (data_read env d) (is_64_bit env d) (m_end m) p 0 ip (m_map_ip m ip) p' n ip'"
  shows "entry_ok env d (ucast (m_map_ip m ip)) \<lparr>ce_insn_cnt = n, ce_byte_cnt = ip' - ip, ce_op = pi_op p', ce_branch = pi_branch p',
      ce_length = pi_length p', ce_rel = pi_rel p', ce_insn = pi_buf p'\<rparr>"
  unfolding entry_ok_def
proof (intro allI impI)
  fix ip2 m2
  assume "map_at env ip2 = Some m2" and "m_dso m2 = Some d" and "(ucast (m_map_ip m2 ip2) :: u32) = ucast (m_map_ip m ip)"
  then have "ip2 = ip" "m2 = m" using assms(1-3) unfolding distinct_keys_def by (metis, metis option.inject)
  then show "\<exists>p p'a. length (pi_buf p) = 16 \<and>
      same_insn p'a (use_entry \<lparr>ce_insn_cnt = n, ce_byte_cnt = ip' - ip, ce_op = pi_op p', ce_branch = pi_branch p',
        ce_length = pi_length p', ce_rel = pi_rel p', ce_insn = pi_buf p'\<rparr> p) \<and>
      run (tables env) (data_read env d) (is_64_bit env d) (m_end m2) p 0 ip2 (m_map_ip m2 ip2) p'a
        (ce_insn_cnt \<lparr>ce_insn_cnt = n, ce_byte_cnt = ip' - ip, ce_op = pi_op p', ce_branch = pi_branch p',
          ce_length = pi_length p', ce_rel = pi_rel p', ce_insn = pi_buf p'\<rparr>)
        (ip2 + ce_byte_cnt \<lparr>ce_insn_cnt = n, ce_byte_cnt = ip' - ip, ce_op = pi_op p', ce_branch = pi_branch p',
          ce_length = pi_length p', ce_rel = pi_rel p', ce_insn = pi_buf p'\<rparr>)"
    using assms(4,5) by (intro exI [of _ p] exI [of _ p']) (simp add: same_insn_def use_entry_def)
qed

lemma cached_out:
  assumes "env_ok env" and "distinct_keys env" and "sim env st st0" and "map_at env ip = Some m" and "m_dso m = Some d" and "length (pi_buf p) = 16"
    and "run (tables env) (data_read env d) (is_64_bit env d) (m_end m) p 0 ip (m_map_ip m ip) p' n ip'"
  shows "\<exists>st' st0'. walk_out env d st to_ip (m_map_ip m ip) n (ip' - ip) p' = Some st' \<and>
    walk_out (no_caches env) d st0 to_ip (m_map_ip m ip) n (ip' - ip) p' = Some st0' \<and> sim env st' st0'"
proof -
  have ok: "caches_ok env st" and st0: "caches st0 = (\<lambda>_. None)" "status_seen st = status_seen st0" using assms(3) by (auto simp: sim_def)
  obtain e0 stx where "intel_pt_cache_lookup env d st (m_map_ip m ip) = Some (e0, stx)" "caches_ok env stx" "status_seen stx = status_seen st"
    by (rule cache_lookup [OF assms(1) ok, of d "m_map_ip m ip"])
  then obtain e st1 where st1: "(if to_ip \<noteq> 0 then intel_pt_cache_lookup env d st (m_map_ip m ip) else Some (None, st)) = Some (e, st1)"
      "caches_ok env st1" "status_seen st1 = status_seen st"
    using ok by (cases "to_ip = 0") auto
  have data: "\<forall>off buf. data_read env d off = Some buf \<longrightarrow> length buf \<le> 16" and T: "tables_ok (tables env)"
    using assms(1) by (auto simp: env_ok_def)
  have len: "length (pi_buf p') = 16" using run_other [OF assms(7) T data assms(6,6)] by blast
  obtain r st2 where st2: "intel_pt_cache_add env d st1 (m_map_ip m ip) n (ip' - ip) p' = Some (r, st2)" "caches_ok env st2" "status_seen st2 = status_seen st1"
    using cache_add [OF assms(1) st1(2) len run_entry_ok [OF assms(2,4,5,6,7)]] .
  have "\<exists>st'. walk_out env d st to_ip (m_map_ip m ip) n (ip' - ip) p' = Some st' \<and> caches_ok env st' \<and> status_seen st' = status_seen st"
    using st1 st2 by (cases "e = None") (simp_all add: walk_out_def)
  moreover obtain st0' where "walk_out (no_caches env) d st0 to_ip (m_map_ip m ip) n (ip' - ip) p' = Some st0'" "caches st0' = (\<lambda>_. None)" "status_seen st0' = status_seen st0"
    using no_cache_out [OF st0(1)] by blast
  ultimately show ?thesis using st0(2) by (auto simp: sim_def)
qed

text \<open>What follows a lookup that did not find anything, or nothing that may be used.\<close>

definition after_miss ::
  "('t, 'd) walk_env \<Rightarrow> 't \<Rightarrow> u8 \<Rightarrow> u64 \<Rightarrow> nat \<Rightarrow> nat \<Rightarrow> 'd walk_state \<Rightarrow> intel_pt_insn \<Rightarrow> u64 \<Rightarrow> 'd pt_map \<Rightarrow> 'd \<Rightarrow>
    (int \<times> intel_pt_insn \<times> nat \<times> u64 \<times> 'd walk_state) option"
where
  "after_miss env t cm to_ip mx n0 st p ip m d = do {
     (how, pi, insn_cnt, ip') \<leftarrow> insn_loop (tables env) (data_read env d) (is_64_bit env d) (m_end m) to_ip mx p 0 ip (m_map_ip m ip);
     if how = Walk_break then walk_loop env t cm to_ip mx n0 st pi insn_cnt ip' False
     else if how = Walk_error then Some (- EINVAL, pi, n0, ip', st)
     else if how = Walk_no_cache then Some (0, pi, insn_cnt, ip', st)
     else do {
       st \<leftarrow> walk_out env d st to_ip (m_map_ip m ip) insn_cnt (ip' - ip) pi;
       Some (0, pi, insn_cnt, ip', st)
     }
   }"

lemma walk_loop_first:
  assumes "find_map env t cm ip = Some m" and "m_dso m = Some d"
    and "(if data_error env d then dso__data_status_seen d st else (False, st)) = (False, st1)"
    and "(if to_ip = 0 then intel_pt_cache_lookup env d st1 (m_map_ip m ip) else Some (None, st1)) = Some (e, st2)"
  shows "walk_loop env t cm to_ip mx n0 st p 0 ip True =
    (if e \<noteq> None \<and> (mx = 0 \<or> ce_insn_cnt (the e) \<le> mx)
     then Some (0, use_entry (the e) p, ce_insn_cnt (the e), ip + ce_byte_cnt (the e), st2)
     else after_miss env t cm to_ip mx n0 st2 p ip m d)"
  using assms by (subst walk_loop.simps) (simp add: Let_def after_miss_def cong: if_cong)

lemma miss_same:
  assumes "env_ok env" and "distinct_keys env" and "sim env st st0" and "map_at env ip = Some m" and "m_dso m = Some d" and "length (pi_buf p) = 16"
  shows "rel_option (same_result env) (after_miss env t cm to_ip mx n0 st p ip m d) (after_miss (no_caches env) t cm to_ip mx n0 st0 p ip m d)"
proof (cases "insn_loop (tables env) (data_read env d) (is_64_bit env d) (m_end m) to_ip mx p 0 ip (m_map_ip m ip)")
  case None
  then show ?thesis by (simp add: after_miss_def)
next
  case (Some y)
  then obtain how q n ip' where loop: "insn_loop (tables env) (data_read env d) (is_64_bit env d) (m_end m) to_ip mx p 0 ip (m_map_ip m ip) =
      Some (how, q, n, ip')" by (cases y) auto
  show ?thesis
  proof (cases how)
    case Walk_out
    then have "run (tables env) (data_read env d) (is_64_bit env d) (m_end m) p 0 ip (m_map_ip m ip) q n ip'"
      using loop loop_run by blast
    from cached_out [OF assms this, of to_ip] show ?thesis using loop Walk_out by (auto simp: after_miss_def)
  next
    case Walk_break
    then show ?thesis using loop walk_rest_same [OF assms(3)] by (simp add: after_miss_def)
  qed (use loop assms(3) in \<open>simp_all add: after_miss_def\<close>)
qed

text \<open>A hit is the run that the walk without caches makes.\<close>

lemma hit_same:
  assumes "env_ok env" and "entry_ok env d (ucast (m_map_ip m ip)) e" and "map_at env ip = Some m" and "m_dso m = Some d"
    and "length (pi_buf p) = 16" and "mx = 0 \<or> ce_insn_cnt e \<le> mx" and "sim env st st0"
  shows "\<exists>q st0'. after_miss (no_caches env) t cm 0 mx n0 st0 p ip m d = Some (0, q, ce_insn_cnt e, ip + ce_byte_cnt e, st0') \<and>
    same_insn (use_entry e p) q \<and> sim env st st0'"
proof -
  have data: "\<forall>off buf. data_read env d off = Some buf \<longrightarrow> length buf \<le> 16" and T: "tables_ok (tables env)"
    using assms(1) by (auto simp: env_ok_def)
  obtain p1 p1' where p1: "length (pi_buf p1) = 16" "same_insn p1' (use_entry e p1)"
      "run (tables env) (data_read env d) (is_64_bit env d) (m_end m) p1 0 ip (m_map_ip m ip) p1' (ce_insn_cnt e) (ip + ce_byte_cnt e)"
    using assms(2-4) unfolding entry_ok_def by blast
  obtain q where q: "run (tables env) (data_read env d) (is_64_bit env d) (m_end m) p 0 ip (m_map_ip m ip) q (ce_insn_cnt e) (ip + ce_byte_cnt e)"
      "same_insn p1' q"
    using run_other [OF p1(3) T data p1(1) assms(5)] by blast
  obtain st0' where "walk_out (no_caches env) d st0 0 (m_map_ip m ip) (ce_insn_cnt e) (ip + ce_byte_cnt e - ip) q = Some st0'"
      "caches st0' = (\<lambda>_. None)" "status_seen st0' = status_seen st0"
    using no_cache_out assms(7) by (metis sim_def)
  then have "after_miss (no_caches env) t cm 0 mx n0 st0 p ip m d = Some (0, q, ce_insn_cnt e, ip + ce_byte_cnt e, st0')" "sim env st st0'"
    using run_loop [OF q(1) assms(6)] assms(7) by (simp_all add: after_miss_def sim_def)
  moreover have "same_insn (use_entry e p) q"
    using same_insn_trans [OF same_insn_sym [OF p1(2)] q(2)] use_entry_other [of e p p1] by simp
  ultimately show ?thesis by blast
qed

lemma walk_first_same:
  assumes "env_ok env" and "distinct_keys env" and "sim env st st0" and "length (pi_buf p) = 16"
    and "map_at env ip = find_map env t cm ip"
  shows "rel_option (same_result env) (walk_loop env t cm to_ip mx n0 st p 0 ip True)
    (walk_loop (no_caches env) t cm to_ip mx n0 st0 p 0 ip True)"
proof (cases "\<exists>m d. find_map env t cm ip = Some m \<and> m_dso m = Some d")
  case False
  then show ?thesis using assms(3) by (subst (1 2) walk_loop.simps) (auto split: option.split)
next
  case True
  then obtain m d where m: "find_map env t cm ip = Some m" "m_dso m = Some d" by blast
  have seen_eq: "status_seen st = status_seen st0" using assms(3) by (simp add: sim_def)
  show ?thesis
  proof (cases "data_error env d \<and> status_seen st d")
    case True
    then show ?thesis using m assms(3) seen_eq
      by (subst (1 2) walk_loop.simps) (simp add: dso__data_status_seen_def Let_def)
  next
    case False
    define upd where "upd s = (if data_error env d then s \<lparr>status_seen := (status_seen s)(d := True)\<rparr> else s)" for s :: "'b walk_state"
    have upd: "(if data_error env d then dso__data_status_seen d st else (False, st)) = (False, upd st)"
        "(if data_error env d then dso__data_status_seen d st0 else (False, st0)) = (False, upd st0)"
      using False seen_eq by (auto simp: upd_def dso__data_status_seen_def)
    have sim1: "sim env (upd st) (upd st0)" using assms(3) by (simp add: upd_def sim_def caches_ok_def)
    then have ok: "caches_ok env (upd st)" and none: "caches (upd st0) = (\<lambda>_. None)" by (auto simp: sim_def)
    obtain e0 stx where x: "intel_pt_cache_lookup env d (upd st) (m_map_ip m ip) = Some (e0, stx)" "caches_ok env stx"
        "status_seen stx = status_seen (upd st)" "\<forall>x. e0 = Some x \<longrightarrow> entry_ok env d (ucast (m_map_ip m ip)) x"
      by (rule cache_lookup [OF assms(1) ok, of d "m_map_ip m ip"])
    obtain sty where y: "intel_pt_cache_lookup (no_caches env) d (upd st0) (m_map_ip m ip) = Some (None, sty)"
        "caches sty = (\<lambda>_. None)" "status_seen sty = status_seen (upd st0)"
      using no_cache_lookup [OF none] by blast
    define e where "e = (if to_ip = 0 then e0 else None)"
    define s where "s = (if to_ip = 0 then stx else upd st)"
    define s0 where "s0 = (if to_ip = 0 then sty else upd st0)"
    have look: "(if to_ip = 0 then intel_pt_cache_lookup env d (upd st) (m_map_ip m ip) else Some (None, upd st)) = Some (e, s)"
        "(if to_ip = 0 then intel_pt_cache_lookup (no_caches env) d (upd st0) (m_map_ip m ip) else Some (None, upd st0)) = Some (None, s0)"
      using x(1) y(1) by (simp_all add: e_def s_def s0_def)
    have sim2: "sim env s s0" using sim1 x y by (auto simp: s_def s0_def sim_def)
    have at: "map_at env ip = Some m" using assms(5) m(1) by simp
    have c: "walk_loop env t cm to_ip mx n0 st p 0 ip True =
        (if e \<noteq> None \<and> (mx = 0 \<or> ce_insn_cnt (the e) \<le> mx)
         then Some (0, use_entry (the e) p, ce_insn_cnt (the e), ip + ce_byte_cnt (the e), s)
         else after_miss env t cm to_ip mx n0 s p ip m d)"
      using m upd(1) look(1) by (intro walk_loop_first) auto
    have u: "walk_loop (no_caches env) t cm to_ip mx n0 st0 p 0 ip True = after_miss (no_caches env) t cm to_ip mx n0 s0 p ip m d"
      using walk_loop_first [of "no_caches env" t cm ip m d st0 "upd st0" to_ip None s0] m upd(2) look(2) by simp
    show ?thesis
    proof (cases "e \<noteq> None \<and> (mx = 0 \<or> ce_insn_cnt (the e) \<le> mx)")
      case True
      then obtain z where z: "e = Some z" "mx = 0 \<or> ce_insn_cnt z \<le> mx" "to_ip = 0" by (auto simp: e_def split: if_splits)
      then have "entry_ok env d (ucast (m_map_ip m ip)) z" using x(4) by (simp add: e_def)
      from hit_same [OF assms(1) this at m(2) assms(4) z(2) sim2, of t cm n0] show ?thesis using c u z by auto
    next
      case False
      show ?thesis unfolding c u if_not_P [OF False] by (rule miss_same [OF assms(1,2) sim2 at m(2) assms(4)])
    qed
  qed
qed

lemma walk_same:
  assumes "env_ok env" and "distinct_keys env" and "sim env st st0" and "length (pi_buf p) = 16"
  shows "rel_option (same_result env) (intel_pt_walk_next_insn env st p n0 ip to_ip mx)
    (intel_pt_walk_next_insn (no_caches env) st0 p n0 ip to_ip mx)"
proof (cases "thread_at env ip")
  case None
  then show ?thesis using assms(3)
    by (auto simp: intel_pt_walk_next_insn_def thread_at_def Let_def split: option.splits if_splits)
next
  case (Some t)
  then have "map_at env ip = find_map env t (intel_pt_cpumode env ip) ip" by (simp add: map_at_def)
  then have "rel_option (same_result env)
      (walk_loop env t (intel_pt_cpumode env ip) to_ip mx n0 st (p \<lparr>pi_length := 0\<rparr>) 0 ip True)
      (walk_loop (no_caches env) t (intel_pt_cpumode env ip) to_ip mx n0 st0 (p \<lparr>pi_length := 0\<rparr>) 0 ip True)"
    using assms by (intro walk_first_same) auto
  then show ?thesis using Some assms(3)
    by (auto simp: intel_pt_walk_next_insn_def thread_at_def Let_def split: option.splits if_splits)
qed

section \<open>Properties\<close>

text \<open>The walks that a decoder asks for, one after the other: the structure it passes, the old count, and the three arguments.\<close>

fun walks ::
  "('t, 'd) walk_env \<Rightarrow> 'd walk_state \<Rightarrow> (intel_pt_insn \<times> nat \<times> u64 \<times> u64 \<times> nat) list \<Rightarrow>
    (int \<times> intel_pt_insn \<times> nat \<times> u64) list option"
where
  "walks env st [] = Some []"
| "walks env st ((p, n0, ip, to_ip, mx) # reqs) = do {
     (r, q, n, ip', st) \<leftarrow> intel_pt_walk_next_insn env st p n0 ip to_ip mx;
     rs \<leftarrow> walks env st reqs;
     Some ((r, q, n, ip') # rs)
   }"

definition same_walk :: "int \<times> intel_pt_insn \<times> nat \<times> u64 \<Rightarrow> int \<times> intel_pt_insn \<times> nat \<times> u64 \<Rightarrow> bool" where
  "same_walk x y \<longleftrightarrow> fst x = fst y \<and> same_insn (fst (snd x)) (fst (snd y)) \<and> snd (snd x) = snd (snd y)"

lemma same_walk_simps [simp]: "same_walk (r, q, x) (r', q', x') \<longleftrightarrow> r = r' \<and> same_insn q q' \<and> x = x'"
  by (simp add: same_walk_def)

lemma walks_same:
  assumes "env_ok env" and "distinct_keys env" and "sim env st st0" and "\<forall>req \<in> set reqs. length (pi_buf (fst req)) = 16"
  shows "rel_option (list_all2 same_walk) (walks env st reqs) (walks (no_caches env) st0 reqs)"
  using assms(3,4)
proof (induction reqs arbitrary: st st0)
  case (Cons req reqs)
  obtain p n0 ip to_ip mx where req: "req = (p, n0, ip, to_ip, mx)" by (cases req)
  have "rel_option (same_result env) (intel_pt_walk_next_insn env st p n0 ip to_ip mx)
      (intel_pt_walk_next_insn (no_caches env) st0 p n0 ip to_ip mx)"
    using Cons.prems req by (intro walk_same [OF assms(1,2)]) auto
  then show ?case
  proof (cases rule: option.rel_cases)
    case None
    then show ?thesis by (simp add: req)
  next
    case (Some x y)
    obtain r q n ip' st' where x: "x = (r, q, n, ip', st')" by (cases x)
    obtain q' st0' where y: "y = (r, q', n, ip', st0')" "same_insn q q'" "sim env st' st0'"
      using Some(3) by (cases y) (auto simp: x)
    have "rel_option (list_all2 same_walk) (walks env st' reqs) (walks (no_caches env) st0' reqs)"
      using Cons.prems by (intro Cons.IH [OF y(3)]) auto
    then show ?thesis
      using Some(1,2) x y(1,2)
      by (cases rule: option.rel_cases) (simp_all add: req)
  qed
qed simp

text \<open>
  C38. The caches do not change what the walks find.  In an address space where no two addresses of a DSO have the same key,
  any sequence of walks gives the same results, instruction counts, addresses and instructions as the program without
  caches, whatever the outcome of the allocations, and returns exactly when it does.  The
  key is the offset in the DSO cut to 32 bits, so offsets that differ by $2^{32}$ find each other's entries.
\<close>

theorem intel_pt_walk_cache_transparent:
  assumes "env_ok env" and "distinct_keys env" and "caches st = (\<lambda>_. None)" and "\<forall>req \<in> set reqs. length (pi_buf (fst req)) = 16"
  shows "rel_option (list_all2 same_walk) (walks env st reqs) (walks (no_caches env) st reqs) \<and>
    (\<forall>d st off. intel_pt_cache_lookup env d st (off + 2 ^ 32) = intel_pt_cache_lookup env d st off)"
proof
  have "sim env st st" using assms(3) by (simp add: sim_def caches_ok_def)
  then show "rel_option (list_all2 same_walk) (walks env st reqs) (walks (no_caches env) st reqs)"
    using assms by (intro walks_same)
  have "(ucast (off + 2 ^ 32 :: u64) :: u32) = ucast off" for off :: u64
  proof -
    have cut: "(ucast (of_nat n :: u64) :: u32) = of_nat n" for n by (simp add: unsigned_of_nat word_of_nat_eq_iff)
    have "(of_nat (unat off + 2 ^ 32) :: u32) = of_nat (unat off)" by (simp only: of_nat_add of_nat_power) simp
    then show ?thesis using cut [of "unat off + 2 ^ 32"] cut [of "unat off"] by simp
  qed
  then show "\<forall>d st off. intel_pt_cache_lookup env d st (off + 2 ^ 32) = intel_pt_cache_lookup env d st off"
    by (simp add: intel_pt_cache_lookup_def cong: if_cong)
qed

text \<open>A program of one DSO with two instructions, a \<open>nop\<close> and a \<open>ret\<close>, mapped at its offsets.\<close>

definition demo_walk_env :: "(unit, unit) walk_env" where
  "demo_walk_env = \<lparr>tables = demo_tables,
     find_map = \<lambda>_ _ ip. if ip < 2 then Some \<lparr>m_dso = Some (), m_end = 2, m_map_ip = \<lambda>ip. ip\<rparr> else None,
     data_error = \<lambda>_. False, data_read = \<lambda>_ off. if off < 2 then Some (drop (unat off) [0x90, 0xc3]) else None,
     data_size = \<lambda>_. 2, is_64_bit = \<lambda>_. True, hash_32 = \<lambda>_ _. 0, divisor_cfg = None, alloc = \<lambda>_. True,
     kernel_start = 4096, ptq_thread = Some (), unknown_thread = ()\<rparr>"

theorem intel_pt_walk_cache_transparent_witness:
  "rel_option (list_all2 same_walk)
    (walks demo_walk_env \<lparr>caches = \<lambda>_. None, status_seen = \<lambda>_. False, allocs = 0\<rparr> [(no_insn, 0, 0, 0, 0), (no_insn, 0, 0, 0, 0)])
    (walks (no_caches demo_walk_env) \<lparr>caches = \<lambda>_. None, status_seen = \<lambda>_. False, allocs = 0\<rparr> [(no_insn, 0, 0, 0, 0), (no_insn, 0, 0, 0, 0)])"
proof -
  have env: "env_ok demo_walk_env"
    using demo_tables_ok by (auto simp: env_ok_def demo_walk_env_def hash_law_def split: if_splits)
  have bit: "ip = 0 \<or> ip = 1" if "ip < 2" for ip :: u64
  proof -
    have "unat ip = 0 \<or> unat ip = 1" using that by (auto simp: word_less_nat_alt)
    then show ?thesis
    proof
      assume "unat ip = 0"
      then show ?thesis by (simp add: unat_eq_zero)
    next
      assume "unat ip = 1"
      then have "of_nat (unat ip) = (1 :: u64)" by simp
      then show ?thesis by simp
    qed
  qed
  have "ip = ip'" if "ip < 2" "ip' < 2" "(ucast ip :: u32) = ucast ip'" for ip ip' :: u64
    using bit [OF that(1)] bit [OF that(2)] that(3) by auto
  then have keys: "distinct_keys demo_walk_env"
    by (auto simp: distinct_keys_def map_at_def thread_at_def demo_walk_env_def split: if_splits)
  from intel_pt_walk_cache_transparent [OF env keys, of "\<lparr>caches = \<lambda>_. None, status_seen = \<lambda>_. False, allocs = 0\<rparr>"
      "[(no_insn, 0, 0, 0, 0), (no_insn, 0, 0, 0, 0)]"]
  show ?thesis by (simp add: no_insn_def)
qed

end
