(* ===== verification/Arm_SPE.thy ===== *)
theory Arm_SPE
  imports Packet_Decoder
begin

text \<open>
  The packet layer of the Arm Statistical Profiling Extension decoder
  (\<^verbatim>\<open>util/arm-spe-pkt-decoder.c\<close>) and its dump (\<open>arm_spe_dump\<close> of \<^verbatim>\<open>util/arm-spe.c\<close>), for a
  little-endian machine.  Alignment packets depend on the address of the buffer: \<open>mem_end\<close> is the
  address behind the memory that starts at \<open>buf\<close>.
\<close>

section \<open>The code\<close>

datatype arm_spe_pkt_type =
    ARM_SPE_BAD | ARM_SPE_PAD | ARM_SPE_END | ARM_SPE_TIMESTAMP | ARM_SPE_ADDRESS | ARM_SPE_COUNTER
  | ARM_SPE_CONTEXT | ARM_SPE_OP_TYPE | ARM_SPE_EVENTS | ARM_SPE_DATA_SOURCE

record arm_spe_pkt =
  spe_type :: arm_spe_pkt_type
  spe_index :: u8
  spe_payload :: u64

abbreviation (input) ARM_SPE_NEED_MORE_BYTES :: int where "ARM_SPE_NEED_MORE_BYTES \<equiv> - 1"
abbreviation (input) ARM_SPE_BAD_PACKET :: int where "ARM_SPE_BAD_PACKET \<equiv> - 2"
abbreviation (input) ARM_SPE_PKT_DESC_MAX :: nat where "ARM_SPE_PKT_DESC_MAX \<equiv> 256"

definition payloadlen :: "u8 \<Rightarrow> nat" where
  "payloadlen byte = 2 ^ unat (drop_bit 4 (byte AND 0x30))"

type_synonym spe_result = "(int \<times> arm_spe_pkt) option"

definition arm_spe_get_payload :: "u8 list \<Rightarrow> nat \<Rightarrow> arm_spe_pkt \<Rightarrow> spe_result" where
  "arm_spe_get_payload buf len packet = do {
     b0 \<leftarrow> rd buf 0;
     let payload_len = payloadlen b0;
     if len < 1 + payload_len then Some (ARM_SPE_NEED_MORE_BYTES, packet)
     else if payload_len \<in> {1, 2, 4, 8} then do {
       v \<leftarrow> rd_le buf 1 payload_len;
       Some (1 + int payload_len, packet \<lparr>spe_payload := v\<rparr>)
     }
     else Some (ARM_SPE_BAD_PACKET, packet)
   }"

definition arm_spe_get_pad :: "arm_spe_pkt \<Rightarrow> spe_result" where
  "arm_spe_get_pad packet = Some (1, packet \<lparr>spe_type := ARM_SPE_PAD\<rparr>)"

definition arm_spe_get_alignment :: "nat \<Rightarrow> u8 list \<Rightarrow> nat \<Rightarrow> arm_spe_pkt \<Rightarrow> spe_result" where
  "arm_spe_get_alignment mem_end buf len packet = do {
     b0 \<leftarrow> rd buf 0;
     let alignment = 2 ^ (unat (b0 AND 0xf) + 1);
     if len < alignment then Some (ARM_SPE_NEED_MORE_BYTES, packet)
     else Some (int (alignment - (mem_end - length buf) mod alignment), packet \<lparr>spe_type := ARM_SPE_PAD\<rparr>)
   }"

definition arm_spe_get_end :: "arm_spe_pkt \<Rightarrow> spe_result" where
  "arm_spe_get_end packet = Some (1, packet \<lparr>spe_type := ARM_SPE_END\<rparr>)"

definition arm_spe_get_timestamp :: "u8 list \<Rightarrow> nat \<Rightarrow> arm_spe_pkt \<Rightarrow> spe_result" where
  "arm_spe_get_timestamp buf len packet = arm_spe_get_payload buf len (packet \<lparr>spe_type := ARM_SPE_TIMESTAMP\<rparr>)"

definition arm_spe_get_events :: "u8 list \<Rightarrow> nat \<Rightarrow> arm_spe_pkt \<Rightarrow> spe_result" where
  "arm_spe_get_events buf len packet = do {
     (ret, packet) \<leftarrow> arm_spe_get_payload buf len packet;
     Some (ret, packet \<lparr>spe_type := ARM_SPE_EVENTS, spe_index := word_of_int (ret - 1)\<rparr>)
   }"

definition arm_spe_get_data_source :: "u8 list \<Rightarrow> nat \<Rightarrow> arm_spe_pkt \<Rightarrow> spe_result" where
  "arm_spe_get_data_source buf len packet = arm_spe_get_payload buf len (packet \<lparr>spe_type := ARM_SPE_DATA_SOURCE\<rparr>)"

definition arm_spe_get_context :: "u8 list \<Rightarrow> nat \<Rightarrow> arm_spe_pkt \<Rightarrow> spe_result" where
  "arm_spe_get_context buf len packet = do {
     b0 \<leftarrow> rd buf 0;
     arm_spe_get_payload buf len (packet \<lparr>spe_type := ARM_SPE_CONTEXT, spe_index := b0 AND 0x3\<rparr>)
   }"

definition arm_spe_get_op_type :: "u8 list \<Rightarrow> nat \<Rightarrow> arm_spe_pkt \<Rightarrow> spe_result" where
  "arm_spe_get_op_type buf len packet = do {
     b0 \<leftarrow> rd buf 0;
     arm_spe_get_payload buf len (packet \<lparr>spe_type := ARM_SPE_OP_TYPE, spe_index := b0 AND 0x3\<rparr>)
   }"

text \<open>The index of a counter or address packet, in one header byte or in two.\<close>

definition header_index :: "u8 list \<Rightarrow> nat \<Rightarrow> u8 option" where
  "header_index buf ext_hdr = do {
     b0 \<leftarrow> rd buf 0;
     if ext_hdr \<noteq> 0 then do { b1 \<leftarrow> rd buf 1; Some (push_bit 3 (b0 AND 0x3) OR (b1 AND 0x7)) }
     else Some (b0 AND 0x7)
   }"

definition arm_spe_get_counter :: "u8 list \<Rightarrow> nat \<Rightarrow> nat \<Rightarrow> arm_spe_pkt \<Rightarrow> spe_result" where
  "arm_spe_get_counter buf len ext_hdr packet =
     (if len < 2 then Some (ARM_SPE_NEED_MORE_BYTES, packet)
      else do {
        index \<leftarrow> header_index buf ext_hdr;
        v \<leftarrow> rd_le buf 1 2;
        Some (1 + int ext_hdr + 2, packet \<lparr>spe_type := ARM_SPE_COUNTER, spe_index := index, spe_payload := v\<rparr>)
      })"

definition arm_spe_get_addr :: "u8 list \<Rightarrow> nat \<Rightarrow> nat \<Rightarrow> arm_spe_pkt \<Rightarrow> spe_result" where
  "arm_spe_get_addr buf len ext_hdr packet =
     (if len < 8 then Some (ARM_SPE_NEED_MORE_BYTES, packet)
      else do {
        index \<leftarrow> header_index buf ext_hdr;
        v \<leftarrow> rd_le buf 1 8;
        Some (1 + int ext_hdr + 8, packet \<lparr>spe_type := ARM_SPE_ADDRESS, spe_index := index, spe_payload := v\<rparr>)
      })"

definition spe_zero :: arm_spe_pkt where
  "spe_zero = \<lparr>spe_type = ARM_SPE_BAD, spe_index = 0, spe_payload = 0\<rparr>"

definition arm_spe_do_get_packet :: "nat \<Rightarrow> u8 list \<Rightarrow> nat \<Rightarrow> spe_result" where
  "arm_spe_do_get_packet mem_end buf len =
     (let packet = spe_zero in
      if len = 0 then Some (ARM_SPE_NEED_MORE_BYTES, packet)
      else do {
        byte \<leftarrow> rd buf 0;
        if byte = 0 then arm_spe_get_pad packet
        else if byte = 1 then arm_spe_get_end packet
        else if byte AND 0xc0 \<noteq> 0 then
          (if byte AND 0x80 \<noteq> 0 then
             (if byte AND 0x38 = 0x30 then arm_spe_get_addr buf len 0 packet
              else if byte AND 0x38 = 0x18 then arm_spe_get_counter buf len 0 packet
              else Some (ARM_SPE_BAD_PACKET, packet))
           else if byte = 0x71 then arm_spe_get_timestamp buf len packet
           else if byte AND 0xf = 0x2 then arm_spe_get_events buf len packet
           else if byte AND 0xf = 0x3 then arm_spe_get_data_source buf len packet
           else if byte AND 0x3c = 0x24 then arm_spe_get_context buf len packet
           else if byte AND 0x3c = 0x8 then arm_spe_get_op_type buf len packet
           else Some (ARM_SPE_BAD_PACKET, packet))
        else if byte AND 0xe0 = 0x20 then do {
          byte \<leftarrow> rd buf 1;
          if byte = 0 then arm_spe_get_alignment mem_end buf len packet
          else if byte AND 0xf8 = 0xb0 then arm_spe_get_addr buf len 1 packet
          else if byte AND 0xf8 = 0x98 then arm_spe_get_counter buf len 1 packet
          else Some (ARM_SPE_BAD_PACKET, packet)
        }
        else Some (ARM_SPE_BAD_PACKET, packet)
      })"

definition arm_spe_get_packet :: "nat \<Rightarrow> u8 list \<Rightarrow> nat \<Rightarrow> spe_result" where
  "arm_spe_get_packet mem_end buf len = do {
     (ret, packet) \<leftarrow> arm_spe_do_get_packet mem_end buf len;
     if ret > 0 \<and> spe_type packet = ARM_SPE_PAD then do {
       n \<leftarrow> absorb_zeros 16 buf len (nat ret);
       Some (int n, packet)
     }
     else Some (ret, packet)
   }"

text \<open>The names of the packets; there is none for a bad packet.\<close>

definition arm_spe_pkt_name :: "arm_spe_pkt_type \<Rightarrow> string option" where
  "arm_spe_pkt_name t = (case t of
      ARM_SPE_BAD \<Rightarrow> None | ARM_SPE_PAD \<Rightarrow> Some ''PAD'' | ARM_SPE_END \<Rightarrow> Some ''END''
    | ARM_SPE_TIMESTAMP \<Rightarrow> Some ''TS'' | ARM_SPE_ADDRESS \<Rightarrow> Some ''ADDR'' | ARM_SPE_COUNTER \<Rightarrow> Some ''LAT''
    | ARM_SPE_CONTEXT \<Rightarrow> Some ''CONTEXT'' | ARM_SPE_OP_TYPE \<Rightarrow> Some ''OP-TYPE'' | ARM_SPE_EVENTS \<Rightarrow> Some ''EVENTS''
    | ARM_SPE_DATA_SOURCE \<Rightarrow> Some ''DATA-SOURCE'')"

text \<open>
  The variables of the printer: \<open>ret\<close>, the position of \<open>buf\<close>, \<open>blen\<close> and the array.  Every call gets the
  whole length \<open>buf_len\<close>, although \<open>buf\<close> has moved.
\<close>

record spe_printer =
  sp_ret :: int
  sp_pos :: nat
  sp_blen :: nat
  sp_mem :: "char list"

definition put :: "nat \<Rightarrow> string \<Rightarrow> spe_printer \<Rightarrow> spe_printer option" where
  "put buf_len s st = do {
     (ret, mem) \<leftarrow> snprintf (sp_mem st) (sp_pos st) buf_len s;
     Some \<lparr>sp_ret = ret, sp_pos = sp_pos st + nat ret, sp_blen = size_sub (sp_blen st) (nat ret), sp_mem = mem\<rparr>
   }"

text \<open>One conditional call after the other.\<close>

fun puts :: "nat \<Rightarrow> (bool \<times> string) list \<Rightarrow> spe_printer \<Rightarrow> spe_printer option" where
  "puts buf_len [] st = Some st"
| "puts buf_len ((c, s) # xs) st = do {
     st \<leftarrow> (if c then put buf_len s st else Some st);
     puts buf_len xs st
   }"

text \<open>The end of these branches takes the last result off \<open>blen\<close> once more.\<close>

definition put_return :: "nat \<Rightarrow> spe_printer \<Rightarrow> int \<times> char list" where
  "put_return buf_len st =
     (if sp_ret st < 0 then (sp_ret st, sp_mem st)
      else (int_of_size (size_sub buf_len (size_sub (sp_blen st) (nat (sp_ret st)))), sp_mem st))"

definition event_texts :: "u64 \<Rightarrow> int \<Rightarrow> (bool \<times> string) list" where
  "event_texts payload idx =
     [(True, ''EV''), (payload AND 0x1 \<noteq> 0, '' EXCEPTION-GEN''), (payload AND 0x2 \<noteq> 0, '' RETIRED''),
      (payload AND 0x4 \<noteq> 0, '' L1D-ACCESS''), (payload AND 0x8 \<noteq> 0, '' L1D-REFILL''),
      (payload AND 0x10 \<noteq> 0, '' TLB-ACCESS''), (payload AND 0x20 \<noteq> 0, '' TLB-REFILL''),
      (payload AND 0x40 \<noteq> 0, '' NOT-TAKEN''), (payload AND 0x80 \<noteq> 0, '' MISPRED''),
      (idx > 1 \<and> payload AND 0x100 \<noteq> 0, '' LLC-ACCESS''), (idx > 1 \<and> payload AND 0x200 \<noteq> 0, '' LLC-REFILL''),
      (idx > 1 \<and> payload AND 0x400 \<noteq> 0, '' REMOTE-ACCESS'')]"

definition load_texts :: "u64 \<Rightarrow> (bool \<times> string) list" where
  "load_texts payload =
     [(True, if payload AND 0x1 \<noteq> 0 then ''ST'' else ''LD''),
      (payload AND 0x2 \<noteq> 0 \<and> payload AND 0x4 \<noteq> 0, '' AT''), (payload AND 0x2 \<noteq> 0 \<and> payload AND 0x8 \<noteq> 0, '' EXCL''),
      (payload AND 0x2 \<noteq> 0 \<and> payload AND 0x10 \<noteq> 0, '' AR''), (payload AND 0x2 = 0 \<and> payload AND 0x4 \<noteq> 0, '' SIMD-FP'')]"

definition branch_texts :: "u64 \<Rightarrow> (bool \<times> string) list" where
  "branch_texts payload = [(True, ''B''), (payload AND 0x1 \<noteq> 0, '' COND''), (payload AND 0x2 \<noteq> 0, '' IND'')]"

definition NS_FLAG :: u64 where
  "NS_FLAG = push_bit 63 1"

definition EL_FLAG :: u64 where
  "EL_FLAG = push_bit 62 1 OR push_bit 61 1"


definition arm_spe_pkt_desc :: "arm_spe_pkt \<Rightarrow> char list \<Rightarrow> nat \<Rightarrow> (int \<times> char list) option" where
  "arm_spe_pkt_desc packet mem buf_len =
     (let idx = int (unat (spe_index packet));
          payload = spe_payload packet;
          st = \<lparr>sp_ret = 0, sp_pos = 0, sp_blen = buf_len, sp_mem = mem\<rparr>;
          ns = (if payload AND NS_FLAG \<noteq> 0 then 1 else 0);
          el = int (unat (drop_bit 61 (payload AND EL_FLAG)));
          low = payload AND NOT (push_bit 56 0xff) in
      case spe_type packet of
        ARM_SPE_EVENTS \<Rightarrow> map_option (put_return buf_len) (puts buf_len (event_texts payload idx) st)
      | ARM_SPE_OP_TYPE \<Rightarrow>
          if idx = 0 then snprintf mem 0 buf_len (if payload AND 0x1 \<noteq> 0 then ''COND-SELECT'' else ''INSN-OTHER'')
          else if idx = 1 then map_option (put_return buf_len) (puts buf_len (load_texts payload) st)
          else if idx = 2 then map_option (put_return buf_len) (puts buf_len (branch_texts payload) st)
          else Some (0, mem)
      | ARM_SPE_ADDRESS \<Rightarrow>
          if idx = 0 \<or> idx = 1 then
            snprintf mem 0 buf_len ((if idx = 1 then ''TGT'' else ''PC'') @ '' 0x'' @ fmt_x (unat low) @ '' el'' @
              fmt_d el @ '' ns='' @ fmt_d ns)
          else if idx = 2 then snprintf mem 0 buf_len (''VA 0x'' @ fmt_x (unat payload))
          else if idx = 3 then snprintf mem 0 buf_len (''PA 0x'' @ fmt_x (unat low) @ '' ns='' @ fmt_d ns)
          else Some (0, mem)
      | t \<Rightarrow> (case arm_spe_pkt_name t of
            None \<Rightarrow> None
          | Some name \<Rightarrow>
              if t = ARM_SPE_PAD \<or> t = ARM_SPE_END then snprintf mem 0 buf_len name
              else if t = ARM_SPE_CONTEXT then snprintf mem 0 buf_len (name @ '' 0x'' @ fmt_x (unat payload) @ '' el'' @ fmt_d (idx + 1))
              else if t = ARM_SPE_COUNTER then do {
                st \<leftarrow> put buf_len (name @ '' '' @ fmt_u (unat (ucast payload :: u16)) @ '' '') st;
                (ret, mem) \<leftarrow>
                  (if idx = 0 then snprintf (sp_mem st) (sp_pos st) buf_len ''TOT''
                   else if idx = 1 then snprintf (sp_mem st) (sp_pos st) buf_len ''ISSUE''
                   else if idx = 2 then snprintf (sp_mem st) (sp_pos st) buf_len ''XLAT''
                   else Some (0, sp_mem st));
                Some (put_return buf_len (st \<lparr>sp_ret := ret, sp_mem := mem\<rparr>))
              }
              else snprintf mem 0 buf_len (name @ '' '' @ fmt_d (sint payload))))"

definition arm_spe_dump :: "nat \<Rightarrow> char list \<Rightarrow> u8 list \<Rightarrow> nat \<Rightarrow> dump_line list option" where
  "arm_spe_dump base desc buf len =
     dump_loop (arm_spe_get_packet (base + length buf)) arm_spe_pkt_desc ARM_SPE_PKT_DESC_MAX desc buf 0 len"

section \<open>Texts\<close>

definition texts :: "(bool \<times> string) list \<Rightarrow> string" where
  "texts xs = concat (map snd (filter fst xs))"

text \<open>What is shown of a packet; nothing for an operation or address of an unknown kind.\<close>

definition arm_spe_text :: "arm_spe_pkt \<Rightarrow> string option" where
  "arm_spe_text packet =
     (let idx = int (unat (spe_index packet));
          payload = spe_payload packet;
          ns = (if payload AND NS_FLAG \<noteq> 0 then 1 else 0);
          el = int (unat (drop_bit 61 (payload AND EL_FLAG)));
          low = payload AND NOT (push_bit 56 0xff) in
      case spe_type packet of
        ARM_SPE_BAD \<Rightarrow> None
      | ARM_SPE_PAD \<Rightarrow> Some ''PAD''
      | ARM_SPE_END \<Rightarrow> Some ''END''
      | ARM_SPE_EVENTS \<Rightarrow> Some (texts (event_texts payload idx))
      | ARM_SPE_OP_TYPE \<Rightarrow>
          if idx = 0 then Some (if payload AND 0x1 \<noteq> 0 then ''COND-SELECT'' else ''INSN-OTHER'')
          else if idx = 1 then Some (texts (load_texts payload))
          else if idx = 2 then Some (texts (branch_texts payload))
          else None
      | ARM_SPE_ADDRESS \<Rightarrow>
          if idx = 0 \<or> idx = 1 then
            Some ((if idx = 1 then ''TGT'' else ''PC'') @ '' 0x'' @ fmt_x (unat low) @ '' el'' @ fmt_d el @ '' ns='' @ fmt_d ns)
          else if idx = 2 then Some (''VA 0x'' @ fmt_x (unat payload))
          else if idx = 3 then Some (''PA 0x'' @ fmt_x (unat low) @ '' ns='' @ fmt_d ns)
          else None
      | ARM_SPE_CONTEXT \<Rightarrow> Some (''CONTEXT 0x'' @ fmt_x (unat payload) @ '' el'' @ fmt_d (idx + 1))
      | ARM_SPE_COUNTER \<Rightarrow> Some (''LAT '' @ fmt_u (unat (ucast payload :: u16)) @ '' '' @
          (if idx = 0 then ''TOT'' else if idx = 1 then ''ISSUE'' else if idx = 2 then ''XLAT'' else ''''))
      | ARM_SPE_TIMESTAMP \<Rightarrow> Some (''TS '' @ fmt_d (sint payload))
      | ARM_SPE_DATA_SOURCE \<Rightarrow> Some (''DATA-SOURCE '' @ fmt_d (sint payload)))"

text \<open>The printer after the text \<open>t\<close>.\<close>

definition printed :: "string \<Rightarrow> spe_printer \<Rightarrow> bool" where
  "printed t st \<longleftrightarrow> sp_pos st = length t \<and> sp_blen st = 256 - length t \<and> length (sp_mem st) = 256 \<and>
     take (length t) (sp_mem st) = t \<and> (t \<noteq> [] \<longrightarrow> sp_mem st ! length t = CHR 0x00 \<and> 0 < sp_ret st \<and> sp_ret st \<le> int (length t))"

lemma size_sub_small: "b \<le> a \<Longrightarrow> a \<le> 256 \<Longrightarrow> size_sub a b = a - b"
  by (rule size_sub_le) (auto simp: SIZE_RANGE_def)

lemma put_printed:
  assumes "printed t st" and "length t + length s < 256" and "s \<noteq> []"
  shows "\<exists>st'. put 256 s st = Some st' \<and> printed (t @ s) st'"
proof -
  let ?mem = "sp_mem st"
  have len: "length ?mem = 256" and pos: "sp_pos st = length t" and pre: "take (length t) ?mem = t"
    using assms(1) by (auto simp: printed_def)
  have split: "?mem = t @ drop (length t) ?mem" using pre by (metis append_take_drop_id)
  let ?mem' = "t @ s @ CHR 0x00 # drop (Suc (length s)) (drop (length t) ?mem)"
  have "snprintf ?mem (length t) 256 s = Some (int (length s), ?mem')"
    using snprintf_at [of s "drop (length t) ?mem" 256 t] split len assms(2) by simp
  moreover have "size_sub (256 - length t) (length s) = 256 - length (t @ s)" using assms(2) by (subst size_sub_small) auto
  ultimately have "put 256 s st = Some \<lparr>sp_ret = int (length s), sp_pos = length (t @ s), sp_blen = 256 - length (t @ s), sp_mem = ?mem'\<rparr>"
    using assms(1) by (simp add: put_def pos printed_def)
  moreover have "length ?mem' = 256" "?mem' ! length (t @ s) = CHR 0x00" using len assms(2) by (simp_all add: nth_append)
  ultimately show ?thesis using assms(3) by (simp add: printed_def)
qed

lemma puts_printed:
  assumes "printed t st" and "length t + sum_list (map (length \<circ> snd) xs) < 256" and "\<forall>(c, s) \<in> set xs. s \<noteq> []"
  shows "\<exists>st'. puts 256 xs st = Some st' \<and> printed (t @ texts xs) st'"
  using assms
proof (induction xs arbitrary: t st)
  case Nil
  then show ?case by (simp add: texts_def)
next
  case (Cons x xs)
  obtain c s where x: "x = (c, s)" by (cases x)
  show ?case
  proof (cases c)
    case True
    obtain st1 where "put 256 s st = Some st1" "printed (t @ s) st1"
      using put_printed [OF Cons.prems(1), of s] Cons.prems(2,3) x by auto
    then show ?thesis using Cons.IH [of "t @ s" st1] Cons.prems x True by (auto simp: texts_def)
  next
    case False
    then show ?thesis using Cons.IH [of t st] Cons.prems x by (auto simp: texts_def)
  qed
qed

lemma put_return_printed:
  assumes "printed t st" and "t \<noteq> []" and "length t \<le> 128" and "CHR 0x00 \<notin> set t"
  shows "\<exists>r mem. put_return 256 st = (r, mem) \<and> 0 < r \<and> length mem = 256 \<and> c_str mem 0 = t"
proof -
  have p: "0 < sp_ret st" "sp_ret st \<le> int (length t)" "sp_blen st = 256 - length t" "length (sp_mem st) = 256"
      "take (length t) (sp_mem st) = t" "sp_mem st ! length t = CHR 0x00"
    using assms(1,2) by (auto simp: printed_def)
  have "size_sub (sp_blen st) (nat (sp_ret st)) = 256 - length t - nat (sp_ret st)"
    using p(2,3) assms(3) by (subst size_sub_small) auto
  moreover have "size_sub 256 (256 - length t - nat (sp_ret st)) = length t + nat (sp_ret st)"
    using p(2) assms(3) by (subst size_sub_small) auto
  moreover have "int_of_size (length t + nat (sp_ret st)) = int (length t + nat (sp_ret st))"
    using p(2) assms(3) by (intro int_of_size_le) auto
  moreover have "sp_mem st = t @ CHR 0x00 # drop (Suc (length t)) (sp_mem st)"
    using id_take_nth_drop [of "length t" "sp_mem st"] p(4,5,6) assms(3) by simp
  then have "c_str (sp_mem st) 0 = t" using c_str_append [OF assms(4)] by metis
  ultimately show ?thesis using p(1,4) by (simp add: put_return_def)
qed

text \<open>A call of the printer that leaves a text, or returns 0.\<close>

definition shows_text :: "(int \<times> char list) option \<Rightarrow> string option \<Rightarrow> bool" where
  "shows_text res t \<longleftrightarrow> (\<exists>r mem. res = Some (r, mem) \<and> length mem = 256 \<and> (if r > 0 then Some (c_str mem 0) else None) = t)"

lemma shows_nothing: "length desc = 256 \<Longrightarrow> shows_text (Some (0, desc)) None"
  by (simp add: shows_text_def)

lemma shows_one:
  assumes "length desc = 256" and "s \<noteq> []" and "length s \<le> 128" and "CHR 0x00 \<notin> set s"
  shows "shows_text (snprintf desc 0 256 s) (Some s)"
  using snprintf_at [of s desc 256 "[]"] assms c_str_append [OF assms(4)] by (simp add: shows_text_def)

lemma printed_start: "length desc = 256 \<Longrightarrow> printed [] \<lparr>sp_ret = 0, sp_pos = 0, sp_blen = 256, sp_mem = desc\<rparr>"
  by (simp add: printed_def)

lemma shows_puts:
  assumes "length desc = 256" and "sum_list (map (length \<circ> snd) xs) \<le> 128" and "\<forall>(c, s) \<in> set xs. s \<noteq> [] \<and> CHR 0x00 \<notin> set s"
    and "texts xs \<noteq> []"
  shows "shows_text (map_option (put_return 256) (puts 256 xs \<lparr>sp_ret = 0, sp_pos = 0, sp_blen = 256, sp_mem = desc\<rparr>)) (Some (texts xs))"
proof -
  have "\<forall>(c, s) \<in> set xs. s \<noteq> []" using assms(3) by auto
  then obtain st where st: "puts 256 xs \<lparr>sp_ret = 0, sp_pos = 0, sp_blen = 256, sp_mem = desc\<rparr> = Some st" "printed (texts xs) st"
    using puts_printed [OF printed_start [OF assms(1)], of xs] assms(2) by auto
  have "length (texts xs) \<le> sum_list (map (length \<circ> snd) xs)" by (induction xs) (auto simp: texts_def)
  then have "length (texts xs) \<le> 128" using assms(2) by linarith
  moreover have "CHR 0x00 \<notin> set (texts xs)" using assms(3) by (auto simp: texts_def)
  ultimately show ?thesis using put_return_printed [OF st(2) assms(4)] st(1) by (auto simp: shows_text_def)
qed

lemma shows_counter:
  assumes "length desc = 256" and "name \<noteq> []" and "length name \<le> 100" and "CHR 0x00 \<notin> set name" and "length kind \<le> 20" and "CHR 0x00 \<notin> set kind"
    and "b \<longleftrightarrow> kind \<noteq> []"
  shows "shows_text (do {
      st \<leftarrow> put 256 name \<lparr>sp_ret = 0, sp_pos = 0, sp_blen = 256, sp_mem = desc\<rparr>;
      (ret, mem) \<leftarrow> (if b then snprintf (sp_mem st) (sp_pos st) 256 kind else Some (0, sp_mem st));
      Some (put_return 256 (st \<lparr>sp_ret := ret, sp_mem := mem\<rparr>))
    }) (Some (name @ kind))"
proof -
  obtain st where st: "put 256 name \<lparr>sp_ret = 0, sp_pos = 0, sp_blen = 256, sp_mem = desc\<rparr> = Some st" "printed name st"
    using put_printed [OF printed_start [OF assms(1)], of name] assms(2,3) by auto
  have len: "length (sp_mem st) = 256" "sp_pos st = length name" "sp_blen st = 256 - length name" "take (length name) (sp_mem st) = name"
      "sp_mem st ! length name = CHR 0x00"
    using st(2) assms(2) by (auto simp: printed_def)
  have mem: "sp_mem st = name @ drop (length name) (sp_mem st)" using len(4) by (metis append_take_drop_id)
  define mem' where "mem' = (if b then name @ kind @ CHR 0x00 # drop (Suc (length kind)) (drop (length name) (sp_mem st)) else sp_mem st)"
  have s: "(if b then snprintf (sp_mem st) (sp_pos st) 256 kind else Some (0, sp_mem st)) = Some (int (length kind), mem')"
    using snprintf_at [of kind "drop (length name) (sp_mem st)" 256 name] mem len assms(3,5,7) by (simp add: mem'_def)
  have str: "c_str mem' 0 = name @ kind"
  proof (cases b)
    case True
    then show ?thesis using c_str_append [of "name @ kind"] assms(4,6) by (simp add: mem'_def)
  next
    case False
    then have "mem' = name @ CHR 0x00 # drop (Suc (length name)) (sp_mem st)"
      using id_take_nth_drop [of "length name" "sp_mem st"] len assms(3) by (simp add: mem'_def)
    then show ?thesis using c_str_append [OF assms(4)] False assms(7) by (metis append.right_neutral)
  qed
  have "length mem' = 256" using len assms(3,5) by (simp add: mem'_def)
  moreover have "size_sub 256 (size_sub (256 - length name) (length kind)) = length name + length kind"
    using assms(3,5) by (subst (1 2) size_sub_small) auto
  moreover have "int_of_size (length name + length kind) = int (length name + length kind)"
    using assms(3,5) by (intro int_of_size_le) auto
  moreover have "0 < int (length name) + int (length kind)" using assms(2) by (cases name) auto
  ultimately show ?thesis using st(1) s str len(3)
    by (simp add: put_return_def shows_text_def)
qed

lemmas spe_text_length = append_length_le fmt_bool_length fmt_sint_length
  fmt_x_word [where 'a = 64, simplified] fmt_u_word [where 'a = 16, simplified]

lemma fmt_d_unat_length: "length (fmt_d (int (unat (w :: u64)))) \<le> 21" "length (fmt_d (int (unat (b :: u8)) + 1)) \<le> 21"
proof -
  have "uint w < 2 ^ 64" "uint b < 2 ^ 8" using uint_bounded [of w] uint_bounded [of b] by simp_all
  then show "length (fmt_d (int (unat w))) \<le> 21" "length (fmt_d (int (unat b) + 1)) \<le> 21"
    using uint_ge_0 [of w] uint_ge_0 [of b] by (auto intro!: fmt_d_length)
qed

lemma texts_ok:
  "sum_list (map (length \<circ> snd) (event_texts payload idx)) \<le> 128" "texts (event_texts payload idx) \<noteq> []"
  "\<forall>(c, s) \<in> set (event_texts payload idx). s \<noteq> [] \<and> CHR 0x00 \<notin> set s"
  "sum_list (map (length \<circ> snd) (load_texts payload)) \<le> 128" "texts (load_texts payload) \<noteq> []"
  "\<forall>(c, s) \<in> set (load_texts payload). s \<noteq> [] \<and> CHR 0x00 \<notin> set s"
  "sum_list (map (length \<circ> snd) (branch_texts payload)) \<le> 128" "texts (branch_texts payload) \<noteq> []"
  "\<forall>(c, s) \<in> set (branch_texts payload). s \<noteq> [] \<and> CHR 0x00 \<notin> set s"
  by (simp_all add: event_texts_def load_texts_def branch_texts_def texts_def)

lemma shows_address:
  assumes "length desc = 256" and "length name \<le> 10" and "CHR 0x00 \<notin> set name"
  shows "shows_text (snprintf desc 0 256 (name @ '' 0x'' @ fmt_x (unat (a :: u64)) @ '' el'' @ fmt_d (int (unat (e :: u64))) @ '' ns='' @ fmt_d (if c then 1 else 0)))
      (Some (name @ '' 0x'' @ fmt_x (unat a) @ '' el'' @ fmt_d (int (unat e)) @ '' ns='' @ fmt_d (if c then 1 else 0)))"
    and "shows_text (snprintf desc 0 256 (''VA 0x'' @ fmt_x (unat a))) (Some (''VA 0x'' @ fmt_x (unat a)))"
    and "shows_text (snprintf desc 0 256 (''PA 0x'' @ fmt_x (unat a) @ '' ns='' @ fmt_d (if c then 1 else 0)))
      (Some (''PA 0x'' @ fmt_x (unat a) @ '' ns='' @ fmt_d (if c then 1 else 0)))"
proof -
  have len: "length (fmt_x (unat a)) \<le> 16" "length (fmt_d (int (unat e))) \<le> 21" "length (fmt_d (if c then 1 else 0)) \<le> 1"
    using fmt_x_word [of a] fmt_d_unat_length(1) [of e] fmt_bool_length by simp_all
  show "shows_text (snprintf desc 0 256 (name @ '' 0x'' @ fmt_x (unat a) @ '' el'' @ fmt_d (int (unat e)) @ '' ns='' @ fmt_d (if c then 1 else 0)))
      (Some (name @ '' 0x'' @ fmt_x (unat a) @ '' el'' @ fmt_d (int (unat e)) @ '' ns='' @ fmt_d (if c then 1 else 0)))"
    by (rule shows_one [OF assms(1)]) (use len assms(2,3) in simp_all)
  show "shows_text (snprintf desc 0 256 (''VA 0x'' @ fmt_x (unat a))) (Some (''VA 0x'' @ fmt_x (unat a)))"
    by (rule shows_one [OF assms(1)]) (use len in simp_all)
  show "shows_text (snprintf desc 0 256 (''PA 0x'' @ fmt_x (unat a) @ '' ns='' @ fmt_d (if c then 1 else 0)))
      (Some (''PA 0x'' @ fmt_x (unat a) @ '' ns='' @ fmt_d (if c then 1 else 0)))"
    by (rule shows_one [OF assms(1)]) (use len in simp_all)
qed

lemma arm_spe_pkt_desc_shows:
  assumes "length desc = 256" and "spe_type packet \<noteq> ARM_SPE_BAD"
  shows "shows_text (arm_spe_pkt_desc packet desc 256) (arm_spe_text packet)"
proof (cases "spe_type packet")
  case ARM_SPE_BAD
  then show ?thesis using assms(2) by simp
next
  case ARM_SPE_PAD
  then show ?thesis using shows_one [OF assms(1), of "''PAD''"] by (simp add: arm_spe_pkt_desc_def arm_spe_text_def Let_def arm_spe_pkt_name_def)
next
  case ARM_SPE_END
  then show ?thesis using shows_one [OF assms(1), of "''END''"] by (simp add: arm_spe_pkt_desc_def arm_spe_text_def Let_def arm_spe_pkt_name_def)
next
  case ARM_SPE_TIMESTAMP
  then show ?thesis using shows_one [OF assms(1), of "''TS '' @ fmt_d (sint (spe_payload packet))"] fmt_sint_length [of "spe_payload packet"]
    by (simp add: arm_spe_pkt_desc_def arm_spe_text_def Let_def arm_spe_pkt_name_def)
next
  case ARM_SPE_DATA_SOURCE
  then show ?thesis using shows_one [OF assms(1), of "''DATA-SOURCE '' @ fmt_d (sint (spe_payload packet))"] fmt_sint_length [of "spe_payload packet"]
    by (simp add: arm_spe_pkt_desc_def arm_spe_text_def Let_def arm_spe_pkt_name_def)
next
  case ARM_SPE_EVENTS
  then show ?thesis using shows_puts [OF assms(1) texts_ok(1) texts_ok(3,2)]
    by (simp add: arm_spe_pkt_desc_def arm_spe_text_def Let_def)
next
  case ARM_SPE_CONTEXT
  then show ?thesis
    using shows_one [OF assms(1), of "''CONTEXT 0x'' @ fmt_x (unat (spe_payload packet)) @ '' el'' @ fmt_d (int (unat (spe_index packet)) + 1)"]
      fmt_x_word [of "spe_payload packet"] fmt_d_unat_length(2) [of "spe_index packet"]
    by (simp add: arm_spe_pkt_desc_def arm_spe_text_def Let_def arm_spe_pkt_name_def)
next
  case ARM_SPE_OP_TYPE
  then show ?thesis
    using shows_one [OF assms(1), of "if spe_payload packet AND 0x1 \<noteq> 0 then ''COND-SELECT'' else ''INSN-OTHER''"] shows_nothing [OF assms(1)]
      shows_puts [OF assms(1) texts_ok(4) texts_ok(6,5)] shows_puts [OF assms(1) texts_ok(7) texts_ok(9,8)]
    by (simp add: arm_spe_pkt_desc_def arm_spe_text_def Let_def)
next
  case ARM_SPE_ADDRESS
  let ?i = "int (unat (spe_index packet))"
  note unfold = arm_spe_pkt_desc_def arm_spe_text_def Let_def ARM_SPE_ADDRESS arm_spe_pkt_type.case
  consider (pc) "?i = 0 \<or> ?i = 1" | (va) "\<not> (?i = 0 \<or> ?i = 1)" "?i = 2" | (pa) "\<not> (?i = 0 \<or> ?i = 1)" "\<not> ?i = 2" "?i = 3"
    | (other) "\<not> (?i = 0 \<or> ?i = 1)" "\<not> ?i = 2" "\<not> ?i = 3" by blast
  then show ?thesis
  proof cases
    case pc
    show ?thesis unfolding unfold if_P [OF pc] by (rule shows_address(1) [OF assms(1)]) simp_all
  next
    case va
    show ?thesis unfolding unfold if_not_P [OF va(1)] if_P [OF va(2)] by (rule shows_address(2) [OF assms(1), of "[]"]) simp_all
  next
    case pa
    show ?thesis unfolding unfold if_not_P [OF pa(1)] if_not_P [OF pa(2)] if_P [OF pa(3)]
      by (rule shows_address(3) [OF assms(1), of "[]"]) simp_all
  next
    case other
    show ?thesis unfolding unfold if_not_P [OF other(1)] if_not_P [OF other(2)] if_not_P [OF other(3)] by (rule shows_nothing [OF assms(1)])
  qed
next
  case ARM_SPE_COUNTER
  let ?i = "int (unat (spe_index packet))"
  let ?name = "''LAT '' @ fmt_u (unat (ucast (spe_payload packet) :: u16)) @ '' ''"
  have len: "length (fmt_u (unat (ucast (spe_payload packet) :: u16))) \<le> 90"
    using fmt_u_word [of "ucast (spe_payload packet) :: u16"] by simp
  note unfold = arm_spe_pkt_desc_def arm_spe_text_def Let_def arm_spe_pkt_name_def
  consider "?i = 0" | "?i = 1" | "?i = 2" | "?i \<noteq> 0" "?i \<noteq> 1" "?i \<noteq> 2" by blast
  then show ?thesis
  proof cases
    case 1
    then show ?thesis using ARM_SPE_COUNTER len shows_counter [OF assms(1), of ?name "''TOT''" True] by (simp add: unfold)
  next
    case 2
    then show ?thesis using ARM_SPE_COUNTER len shows_counter [OF assms(1), of ?name "''ISSUE''" True] by (simp add: unfold)
  next
    case 3
    then show ?thesis using ARM_SPE_COUNTER len shows_counter [OF assms(1), of ?name "''XLAT''" True] by (simp add: unfold)
  next
    case 4
    then show ?thesis using ARM_SPE_COUNTER len shows_counter [OF assms(1), of ?name "[]" False] by (simp add: unfold)
  qed
qed

section \<open>The packets as the architecture lays them out\<close>

text \<open>
  The packets with one header byte: events and data sources of \<open>2 ^ k\<close> bytes, contexts, operations,
  addresses and counters with an index, and their image in the trace.
\<close>

datatype spe_packet =
    Spe_End | Spe_Timestamp u64 | Spe_Events u8 u64 | Spe_Source u8 u64
  | Spe_Context u8 u64 | Spe_Op u8 u64 | Spe_Address u8 u64 | Spe_Counter u8 u64

fun spe_header :: "spe_packet \<Rightarrow> u8" where
  "spe_header Spe_End = 0x1"
| "spe_header (Spe_Timestamp v) = 0x71"
| "spe_header (Spe_Events k v) = 0x42 OR push_bit 4 k"
| "spe_header (Spe_Source k v) = 0x43 OR push_bit 4 k"
| "spe_header (Spe_Context i v) = 0x64 OR i"
| "spe_header (Spe_Op i v) = 0x48 OR i"
| "spe_header (Spe_Address i v) = 0xb0 OR i"
| "spe_header (Spe_Counter i v) = 0x98 OR i"

fun spe_size :: "spe_packet \<Rightarrow> nat" where
  "spe_size Spe_End = 0"
| "spe_size (Spe_Timestamp v) = 8"
| "spe_size (Spe_Events k v) = 2 ^ unat k"
| "spe_size (Spe_Source k v) = 2 ^ unat k"
| "spe_size (Spe_Context i v) = 4"
| "spe_size (Spe_Op i v) = 1"
| "spe_size (Spe_Address i v) = 8"
| "spe_size (Spe_Counter i v) = 2"

fun spe_packet_of :: "spe_packet \<Rightarrow> arm_spe_pkt" where
  "spe_packet_of Spe_End = \<lparr>spe_type = ARM_SPE_END, spe_index = 0, spe_payload = 0\<rparr>"
| "spe_packet_of (Spe_Timestamp v) = \<lparr>spe_type = ARM_SPE_TIMESTAMP, spe_index = 0, spe_payload = v\<rparr>"
| "spe_packet_of (Spe_Events k v) = \<lparr>spe_type = ARM_SPE_EVENTS, spe_index = 2 ^ unat k, spe_payload = v\<rparr>"
| "spe_packet_of (Spe_Source k v) = \<lparr>spe_type = ARM_SPE_DATA_SOURCE, spe_index = 0, spe_payload = v\<rparr>"
| "spe_packet_of (Spe_Context i v) = \<lparr>spe_type = ARM_SPE_CONTEXT, spe_index = i, spe_payload = v\<rparr>"
| "spe_packet_of (Spe_Op i v) = \<lparr>spe_type = ARM_SPE_OP_TYPE, spe_index = i, spe_payload = v\<rparr>"
| "spe_packet_of (Spe_Address i v) = \<lparr>spe_type = ARM_SPE_ADDRESS, spe_index = i, spe_payload = v\<rparr>"
| "spe_packet_of (Spe_Counter i v) = \<lparr>spe_type = ARM_SPE_COUNTER, spe_index = i, spe_payload = v\<rparr>"

definition spe_encode :: "spe_packet \<Rightarrow> u8 list" where
  "spe_encode p = spe_header p # le_bytes (spe_size p) (spe_payload (spe_packet_of p))"

text \<open>The index fits its field of the header, and the payload its bytes.\<close>

definition spe_wf :: "spe_packet \<Rightarrow> bool" where
  "spe_wf p \<longleftrightarrow> take_bit (8 * spe_size p) (spe_payload (spe_packet_of p)) = spe_payload (spe_packet_of p) \<and>
     (case p of Spe_Events k v \<Rightarrow> k \<in> set [0, 1, 2, 3] | Spe_Source k v \<Rightarrow> k \<in> set [0, 1, 2, 3]
      | Spe_Context i v \<Rightarrow> i \<in> set [0, 1, 2, 3] | Spe_Op i v \<Rightarrow> i \<in> set [0, 1, 2, 3]
      | Spe_Address i v \<Rightarrow> i \<in> set [0, 1, 2, 3, 4, 5, 6, 7] | Spe_Counter i v \<Rightarrow> i \<in> set [0, 1, 2, 3, 4, 5, 6, 7]
      | _ \<Rightarrow> True)"

lemma length_spe_encode [simp]: "length (spe_encode p) = Suc (spe_size p)"
  by (simp add: spe_encode_def)

lemma le_word_encode: "take_bit (8 * n) v = v \<Longrightarrow> le_word (le_bytes n v) = v"
  by (simp add: le_word_le_bytes)

lemma rd_le_encode [simp]: "rd_le (b # le_bytes n v @ rest) (Suc 0) n = Some (le_word (le_bytes n v))"
  by (simp add: rd_le_def)

lemma get_payload_encode:
  assumes "payloadlen b = n" and "n \<in> {1, 2, 4, 8}" and "take_bit (8 * n) v = v" and "n < len"
  shows "arm_spe_get_payload (b # le_bytes n v @ rest) len packet = Some (1 + int n, packet \<lparr>spe_payload := v\<rparr>)"
  using assms by (simp add: arm_spe_get_payload_def Let_def le_word_encode)

lemma spe_decode:
  assumes "spe_wf p"
  shows "arm_spe_get_packet mem_end (spe_encode p @ rest) (Suc (spe_size p) + m) = Some (1 + int (spe_size p), spe_packet_of p)"
proof (cases p)
  case Spe_End
  then show ?thesis
    by (simp add: arm_spe_get_packet_def arm_spe_do_get_packet_def spe_encode_def arm_spe_get_end_def spe_zero_def Let_def)
next
  case (Spe_Timestamp v)
  then show ?thesis using assms get_payload_encode [of "0x71" 8 v]
    by (simp add: arm_spe_get_packet_def arm_spe_do_get_packet_def spe_encode_def arm_spe_get_timestamp_def spe_zero_def Let_def spe_wf_def payloadlen_def)
next
  case (Spe_Events k v)
  then consider "k = 0" | "k = 1" | "k = 2" | "k = 3" using assms by (auto simp: spe_wf_def)
  then show ?thesis using assms Spe_Events get_payload_encode [of "0x42" 1 v] get_payload_encode [of "0x52" 2 v]
      get_payload_encode [of "0x62" 4 v] get_payload_encode [of "0x72" 8 v]
    by cases (simp_all add: arm_spe_get_packet_def arm_spe_do_get_packet_def spe_encode_def arm_spe_get_events_def spe_zero_def Let_def spe_wf_def payloadlen_def)
next
  case (Spe_Source k v)
  then consider "k = 0" | "k = 1" | "k = 2" | "k = 3" using assms by (auto simp: spe_wf_def)
  then show ?thesis using assms Spe_Source get_payload_encode [of "0x43" 1 v] get_payload_encode [of "0x53" 2 v]
      get_payload_encode [of "0x63" 4 v] get_payload_encode [of "0x73" 8 v]
    by cases (simp_all add: arm_spe_get_packet_def arm_spe_do_get_packet_def spe_encode_def arm_spe_get_data_source_def spe_zero_def Let_def spe_wf_def payloadlen_def)
next
  case (Spe_Context i v)
  then consider "i = 0" | "i = 1" | "i = 2" | "i = 3" using assms by (auto simp: spe_wf_def)
  then show ?thesis using assms Spe_Context get_payload_encode [of "0x64" 4 v] get_payload_encode [of "0x65" 4 v]
      get_payload_encode [of "0x66" 4 v] get_payload_encode [of "0x67" 4 v]
    by cases (simp_all add: arm_spe_get_packet_def arm_spe_do_get_packet_def spe_encode_def arm_spe_get_context_def spe_zero_def Let_def spe_wf_def payloadlen_def)
next
  case (Spe_Op i v)
  then consider "i = 0" | "i = 1" | "i = 2" | "i = 3" using assms by (auto simp: spe_wf_def)
  then show ?thesis using assms Spe_Op get_payload_encode [of "0x48" 1 v] get_payload_encode [of "0x49" 1 v]
      get_payload_encode [of "0x4a" 1 v] get_payload_encode [of "0x4b" 1 v]
    by cases (simp_all add: arm_spe_get_packet_def arm_spe_do_get_packet_def spe_encode_def arm_spe_get_op_type_def spe_zero_def Let_def spe_wf_def payloadlen_def)
next
  case (Spe_Address i v)
  then consider "i = 0" | "i = 1" | "i = 2" | "i = 3" | "i = 4" | "i = 5" | "i = 6" | "i = 7" using assms by (auto simp: spe_wf_def)
  then show ?thesis using assms Spe_Address
    by cases (simp_all add: arm_spe_get_packet_def arm_spe_do_get_packet_def spe_encode_def arm_spe_get_addr_def header_index_def
        spe_zero_def Let_def spe_wf_def le_word_encode del: rd_le_in)
next
  case (Spe_Counter i v)
  then consider "i = 0" | "i = 1" | "i = 2" | "i = 3" | "i = 4" | "i = 5" | "i = 6" | "i = 7" using assms by (auto simp: spe_wf_def)
  then show ?thesis using assms Spe_Counter
    by cases (simp_all add: arm_spe_get_packet_def arm_spe_do_get_packet_def spe_encode_def arm_spe_get_counter_def header_index_def
        spe_zero_def Let_def spe_wf_def le_word_encode del: rd_le_in)
qed

section \<open>The dump\<close>

fun spe_lines :: "nat \<Rightarrow> spe_packet list \<Rightarrow> dump_line list" where
  "spe_lines pos [] = []"
| "spe_lines pos (p # ps) =
     \<lparr>dl_pos = pos, dl_bytes = spe_encode p, dl_text = arm_spe_text (spe_packet_of p)\<rparr> # spe_lines (pos + length (spe_encode p)) ps"

lemma spe_packet_not_bad: "spe_type (spe_packet_of p) \<noteq> ARM_SPE_BAD"
  by (cases p) auto

lemma dump_loop_encoded:
  assumes "list_all spe_wf ps" and "length (concat (map spe_encode ps)) < SIZE_RANGE" and "length desc = 256"
  shows "dump_loop (arm_spe_get_packet mem_end) arm_spe_pkt_desc 256 desc (concat (map spe_encode ps) @ rest) pos
    (length (concat (map spe_encode ps))) = Some (spe_lines pos ps)"
  using assms
proof (induction ps arbitrary: desc pos)
  case Nil
  then show ?case by (simp add: dump_loop.simps)
next
  case (Cons p ps)
  let ?more = "concat (map spe_encode ps)"
  obtain r mem where d: "arm_spe_pkt_desc (spe_packet_of p) desc 256 = Some (r, mem)" "length mem = 256"
      "(if r > 0 then Some (c_str mem 0) else None) = arm_spe_text (spe_packet_of p)"
    using arm_spe_pkt_desc_shows [OF Cons.prems(3) spe_packet_not_bad [of p]] by (auto simp: shows_text_def)
  have "dump_loop (arm_spe_get_packet mem_end) arm_spe_pkt_desc 256 mem (?more @ rest) (pos + Suc (spe_size p)) (length ?more) =
      Some (spe_lines (pos + Suc (spe_size p)) ps)"
    using Cons.prems d(2) by (intro Cons.IH) auto
  moreover have "arm_spe_get_packet mem_end (spe_encode p @ ?more @ rest) (Suc (spe_size p) + length ?more) =
      Some (1 + int (spe_size p), spe_packet_of p)"
    using Cons.prems(1) by (intro spe_decode) simp
  moreover have "size_sub (Suc (spe_size p) + length ?more) (Suc (spe_size p)) = length ?more" using Cons.prems(2) by simp
  moreover have "nat (1 + int (spe_size p)) = Suc (spe_size p)" by simp
  ultimately show ?case using d by (subst dump_loop.simps) (simp add: rd_bytes_def Let_def)
qed

text \<open>The loop only ends inside the memory it was given.\<close>

lemma dump_loop_step:
  assumes "dump_loop get_packet pkt_desc desc_max desc buf pos len = Some lines" and "len \<noteq> 0"
  obtains ret packet n desc' rest where "get_packet buf len = Some (ret, packet)" and "n = (if ret > 0 then nat ret else 1)"
    and "n \<le> length buf" and "dump_loop get_packet pkt_desc desc_max desc' (drop n buf) (pos + n) (size_sub len n) = Some rest"
proof -
  have "\<exists>ret packet n desc' rest. get_packet buf len = Some (ret, packet) \<and> n = (if ret > 0 then nat ret else 1) \<and> n \<le> length buf \<and>
      dump_loop get_packet pkt_desc desc_max desc' (drop n buf) (pos + n) (size_sub len n) = Some rest"
    using assms unfolding dump_loop.simps [of get_packet pkt_desc desc_max desc buf pos len]
    by (auto simp: rd_bytes_def Let_def bind_eq_Some_conv split: if_splits)
  then show ?thesis using that by blast
qed

lemma dump_loop_in_memory:
  assumes "dump_loop get_packet pkt_desc desc_max desc buf pos len = Some lines" and "len < SIZE_RANGE"
  shows "len \<le> length buf"
  using assms
proof (induction buf arbitrary: desc pos len lines rule: length_induct)
  case (1 buf)
  show ?case
  proof (cases "len = 0")
    case False
    obtain ret packet n desc' rest where "get_packet buf len = Some (ret, packet)" and n: "n = (if ret > 0 then nat ret else 1)" "n \<le> length buf"
        and rest: "dump_loop get_packet pkt_desc desc_max desc' (drop n buf) (pos + n) (size_sub len n) = Some rest"
      by (rule dump_loop_step [OF "1.prems"(1) False])
    have "size_sub len n < SIZE_RANGE" by (simp add: size_sub_def SIZE_RANGE_def)
    moreover have "length (drop n buf) < length buf" using n by (auto split: if_splits)
    ultimately have "size_sub len n \<le> length (drop n buf)" using "1.IH" rest by blast
    then show ?thesis using n "1.prems"(2) by (cases "n \<le> len") auto
  qed simp
qed

lemma arm_spe_overrun:
  assumes "length buf < SIZE_RANGE" and "\<exists>packet. arm_spe_get_packet (base + length buf) buf len = Some (int n, packet)"
    and "0 < len" and "len < n" and "n < 100"
  shows "arm_spe_dump base desc buf len = None"
proof (rule ccontr)
  assume "arm_spe_dump base desc buf len \<noteq> None"
  then obtain lines where lines: "dump_loop (arm_spe_get_packet (base + length buf)) arm_spe_pkt_desc 256 desc buf 0 len = Some lines"
    by (auto simp: arm_spe_dump_def)
  have "len \<noteq> 0" using assms(3) by simp
  then obtain ret packet n' desc' rest where g: "arm_spe_get_packet (base + length buf) buf len = Some (ret, packet)"
      and n': "n' = (if ret > 0 then nat ret else 1)" "n' \<le> length buf"
      and rest: "dump_loop (arm_spe_get_packet (base + length buf)) arm_spe_pkt_desc 256 desc' (drop n' buf) (0 + n') (size_sub len n') = Some rest"
    by (rule dump_loop_step [OF lines])
  have "n' = n" using g n'(1) assms(2-4) by auto
  have "size_sub len n < SIZE_RANGE" by (simp add: size_sub_def SIZE_RANGE_def)
  then have "size_sub len n \<le> length (drop n buf)" using dump_loop_in_memory [OF rest] \<open>n' = n\<close> by simp
  moreover have "size_sub len n = len + SIZE_RANGE - n"
    using assms(4,5) unfolding size_sub_def by (intro mod_less) (auto simp: SIZE_RANGE_def)
  ultimately show False using n'(2) \<open>n' = n\<close> assms(1,4) by auto
qed

lemma byte_mask: "b AND m = v \<Longrightarrow> m AND k = k \<Longrightarrow> b AND k = v AND k" for b :: u8
  by (metis and.assoc)

lemma spe_long_header:
  assumes "b AND 0xb8 = (v :: u8)" and "v = 0x98 \<or> v = 0xb0"
  shows "b \<noteq> 0" and "b \<noteq> 1" and "b AND 0xc0 \<noteq> 0" and "b AND 0x80 \<noteq> 0" and "b AND 0x38 = v AND 0x38"
proof -
  show "b \<noteq> 0" "b \<noteq> 1" using assms by auto
  have "b AND 0x80 = v AND 0x80" using byte_mask [OF assms(1), of "0x80"] by simp
  then show "b AND 0x80 \<noteq> 0" using assms(2) by auto
  then show "b AND 0xc0 \<noteq> 0" using byte_mask [of b "0xc0" 0 "0x80"] by auto
  show "b AND 0x38 = v AND 0x38" using byte_mask [OF assms(1), of "0x38"] by simp
qed

lemma spe_last_packet:
  assumes "0 < length buf"
  shows "buf ! 0 AND 0xb8 = 0x98 \<Longrightarrow> 2 < length buf \<Longrightarrow> \<exists>packet. arm_spe_get_packet mem_end buf 2 = Some (int 3, packet)"
    and "buf ! 0 AND 0xb8 = 0xb0 \<Longrightarrow> 8 < length buf \<Longrightarrow> \<exists>packet. arm_spe_get_packet mem_end buf 8 = Some (int 9, packet)"
proof -
  have rd: "rd buf 0 = Some (buf ! 0)" using assms by simp
  show "\<exists>packet. arm_spe_get_packet mem_end buf 2 = Some (int 3, packet)" if "buf ! 0 AND 0xb8 = 0x98" "2 < length buf"
    using spe_long_header [OF that(1)] that(2)
    by (simp add: arm_spe_get_packet_def arm_spe_do_get_packet_def Let_def arm_spe_get_counter_def header_index_def rd)
  show "\<exists>packet. arm_spe_get_packet mem_end buf 8 = Some (int 9, packet)" if "buf ! 0 AND 0xb8 = 0xb0" "8 < length buf"
    using spe_long_header [OF that(1)] that(2)
    by (simp add: arm_spe_get_packet_def arm_spe_do_get_packet_def Let_def arm_spe_get_addr_def header_index_def rd)
qed

text \<open>
  The second header byte of an extended packet is read as the first byte of its payload: the payload of the
  counter is \<open>b1\<close> and the low byte of the count.
\<close>

lemma spe_extended_counter:
  assumes "b0 AND 0xe0 = 0x20" and "b1 AND 0xf8 = 0x98" and "2 \<le> len"
  shows "arm_spe_get_packet mem_end (b0 # b1 # lo # hi # rest) len =
    Some (4, \<lparr>spe_type = ARM_SPE_COUNTER, spe_index = push_bit 3 (b0 AND 0x3) OR (b1 AND 0x7), spe_payload = le_word [b1, lo]\<rparr>)"
proof -
  have "b0 \<noteq> 0" "b0 \<noteq> 1" "b1 \<noteq> 0" using assms(1,2) by auto
  moreover have "b0 AND 0xc0 = 0" using byte_mask [OF assms(1), of "0xc0"] by simp
  moreover have "take 2 (b1 # lo # hi # rest) = [b1, lo]" by (simp add: numeral_2_eq_2)
  ultimately show ?thesis using assms
    by (simp add: arm_spe_get_packet_def arm_spe_do_get_packet_def Let_def arm_spe_get_counter_def header_index_def spe_zero_def)
qed

text \<open>
  With two more bytes behind the announced ones the decoder is defined, and runs over the end by two bytes
  at most.  A packet it returns is never bad, so the printer never looks for the name that is missing.
\<close>

definition spe_good :: "nat \<Rightarrow> spe_result \<Rightarrow> bool" where
  "spe_good len res \<longleftrightarrow> (\<exists>ret packet. res = Some (ret, packet) \<and> ret \<le> int len + 2 \<and> (ret = - 1 \<or> ret = - 2 \<or>
     0 < ret \<and> spe_type packet \<noteq> ARM_SPE_BAD \<and> (spe_type packet = ARM_SPE_PAD \<longrightarrow> ret \<le> int len)))"

lemma spe_good_payload:
  assumes "len \<le> length buf" and "0 < len" and "spe_type packet \<notin> {ARM_SPE_BAD, ARM_SPE_PAD}"
  shows "spe_good len (arm_spe_get_payload buf len packet)"
proof -
  have "rd buf 0 = Some (buf ! 0)" using assms by (intro rd_in) linarith
  then show ?thesis using assms by (auto simp: arm_spe_get_payload_def Let_def spe_good_def)
qed

lemma spe_good_getters:
  assumes "len + 2 \<le> length buf" and "0 < len"
  shows "spe_good len (arm_spe_get_pad packet)" and "spe_good len (arm_spe_get_end packet)"
    and "spe_good len (arm_spe_get_timestamp buf len packet)" and "spe_good len (arm_spe_get_data_source buf len packet)"
    and "spe_good len (arm_spe_get_context buf len packet)" and "spe_good len (arm_spe_get_op_type buf len packet)"
    and "spe_good len (arm_spe_get_counter buf len 0 packet)" and "spe_good len (arm_spe_get_counter buf len 1 packet)"
    and "spe_good len (arm_spe_get_addr buf len 0 packet)" and "spe_good len (arm_spe_get_addr buf len 1 packet)"
    and "spe_good len (arm_spe_get_alignment mem_end buf len packet)" and "spe_good len (arm_spe_get_events buf len packet)"
    and "spe_good len (Some (ARM_SPE_BAD_PACKET, packet))"
proof -
  have len: "len \<le> length buf" using assms(1) by simp
  have rd: "rd buf 0 = Some (buf ! 0)" "rd buf 1 = Some (buf ! 1)" using assms by (intro rd_in; linarith)+
  show "spe_good len (arm_spe_get_pad packet)" "spe_good len (arm_spe_get_end packet)" "spe_good len (Some (ARM_SPE_BAD_PACKET, packet))"
    using assms by (auto simp: arm_spe_get_pad_def arm_spe_get_end_def spe_good_def)
  show "spe_good len (arm_spe_get_timestamp buf len packet)" "spe_good len (arm_spe_get_data_source buf len packet)"
      "spe_good len (arm_spe_get_context buf len packet)" "spe_good len (arm_spe_get_op_type buf len packet)"
    using spe_good_payload [OF len assms(2)]
    by (simp_all add: arm_spe_get_timestamp_def arm_spe_get_data_source_def arm_spe_get_context_def arm_spe_get_op_type_def rd)
  show "spe_good len (arm_spe_get_counter buf len 0 packet)" "spe_good len (arm_spe_get_counter buf len 1 packet)"
      "spe_good len (arm_spe_get_addr buf len 0 packet)" "spe_good len (arm_spe_get_addr buf len 1 packet)"
    using assms rd by (simp_all add: arm_spe_get_counter_def arm_spe_get_addr_def header_index_def spe_good_def)
  define alignment :: nat where "alignment = 2 ^ (unat (buf ! 0 AND 0xf) + 1)"
  have "(mem_end - length buf) mod alignment < alignment" by (simp add: alignment_def)
  then show "spe_good len (arm_spe_get_alignment mem_end buf len packet)"
    by (auto simp: arm_spe_get_alignment_def rd spe_good_def Let_def alignment_def [symmetric] simp del: One_nat_def)
  show "spe_good len (arm_spe_get_events buf len packet)"
    using spe_good_payload [OF len assms(2), of "packet \<lparr>spe_type := ARM_SPE_EVENTS\<rparr>"] rd(1)
    by (auto simp: arm_spe_get_events_def arm_spe_get_payload_def spe_good_def Let_def bind_eq_Some_conv)
qed

lemma spe_good_packet:
  assumes "len + 2 \<le> length buf"
  shows "spe_good len (arm_spe_get_packet mem_end buf len)"
proof -
  have "spe_good len (arm_spe_do_get_packet mem_end buf len)"
  proof (cases "len = 0")
    case True
    then show ?thesis by (simp add: arm_spe_do_get_packet_def spe_good_def Let_def)
  next
    case False
    have rd: "rd buf 0 = Some (buf ! 0)" "rd buf 1 = Some (buf ! 1)" using assms by (intro rd_in; linarith)+
    show ?thesis unfolding arm_spe_do_get_packet_def Let_def rd
      using False spe_good_getters [OF assms] by simp
  qed
  then obtain ret packet where r: "arm_spe_do_get_packet mem_end buf len = Some (ret, packet)" "ret \<le> int len + 2"
      "ret = - 1 \<or> ret = - 2 \<or> 0 < ret \<and> spe_type packet \<noteq> ARM_SPE_BAD \<and> (spe_type packet = ARM_SPE_PAD \<longrightarrow> ret \<le> int len)"
    by (auto simp: spe_good_def)
  show ?thesis
  proof (cases "0 < ret \<and> spe_type packet = ARM_SPE_PAD")
    case True
    then obtain n where "absorb_zeros 16 buf len (nat ret) = Some n" "nat ret \<le> n" "n \<le> len"
      using absorb_zeros_spec [of len buf "nat ret" 16] assms r nat_le_iff [of ret len] by auto
    moreover have "0 < n" using calculation(2) True by linarith
    ultimately show ?thesis using True r by (simp add: arm_spe_get_packet_def spe_good_def)
  next
    case False
    then show ?thesis using r by (auto simp: arm_spe_get_packet_def spe_good_def)
  qed
qed

section \<open>Properties\<close>





end
