(* ===== verification/Total_Loops.thy ===== *)
theory Total_Loops
  imports Perf_Prelude
begin

text \<open>
  Total correctness of code with the result type \<open>'a option\<close>: \<open>ends m Q\<close> says that \<open>m\<close> is defined and its result satisfies \<open>Q\<close>.  A loop \<open>while (1)\<close>
  is a body under \<open>forever\<close>; it ends when the body keeps an invariant and makes a measure smaller.
\<close>

section \<open>Defined results\<close>

definition ends :: "'a option \<Rightarrow> ('a \<Rightarrow> bool) \<Rightarrow> bool" where
  "ends m Q \<longleftrightarrow> (\<exists>x. m = Some x \<and> Q x)"

named_theorems ends_simps \<open>rules for the constructs of the code\<close>

lemma ends_Some [ends_simps]: "ends (Some x) Q = Q x"
  by (simp add: ends_def)

lemma ends_None [ends_simps]: "ends None Q = False"
  by (simp add: ends_def)

lemma ends_bind [ends_simps]: "ends (m \<bind> f) Q = ends m (\<lambda>x. ends (f x) Q)"
  by (cases m) (auto simp: ends_def)

lemma ends_map [ends_simps]: "ends (map_option f m) Q = ends m (\<lambda>x. Q (f x))"
  by (cases m) (auto simp: ends_def)

lemma ends_if [ends_simps]: "ends (if b then m else n) Q = ((b \<longrightarrow> ends m Q) \<and> (\<not> b \<longrightarrow> ends n Q))"
  by simp

lemma ends_prod [ends_simps]: "ends (case p of (x, y) \<Rightarrow> f x y) Q = (case p of (x, y) \<Rightarrow> ends (f x y) Q)"
  by (cases p) simp

lemma ends_option [ends_simps]:
  "ends (case m of None \<Rightarrow> a | Some x \<Rightarrow> f x) Q = (case m of None \<Rightarrow> ends a Q | Some x \<Rightarrow> ends (f x) Q)"
  by (cases m) auto

lemma endsI: "m = Some x \<Longrightarrow> Q x \<Longrightarrow> ends m Q"
  by (simp add: ends_def)

lemma endsE: "ends m Q \<Longrightarrow> (\<And>x. m = Some x \<Longrightarrow> Q x \<Longrightarrow> thesis) \<Longrightarrow> thesis"
  by (auto simp: ends_def)

lemma ends_mono: "ends m P \<Longrightarrow> (\<And>x. P x \<Longrightarrow> Q x) \<Longrightarrow> ends m Q"
  by (auto simp: ends_def)

lemma ends_conj: "ends m P \<Longrightarrow> ends m Q \<Longrightarrow> ends m (\<lambda>x. P x \<and> Q x)"
  by (auto simp: ends_def)

section \<open>Loops\<close>

datatype ('s, 'r) control = Continue 's | Break 'r

partial_function (option) forever :: "('s \<Rightarrow> ('s, 'r) control option) \<Rightarrow> 's \<Rightarrow> 'r option" where
  "forever body s = do {
     c \<leftarrow> body s;
     case c of Break r \<Rightarrow> Some r | Continue s \<Rightarrow> forever body s
   }"

definition loop_post :: "('s \<Rightarrow> bool) \<Rightarrow> ('s \<Rightarrow> nat) \<Rightarrow> ('r \<Rightarrow> bool) \<Rightarrow> nat \<Rightarrow> ('s, 'r) control \<Rightarrow> bool" where
  "loop_post I m Q n c = (case c of Break r \<Rightarrow> Q r | Continue s \<Rightarrow> I s \<and> m s < n)"

lemma loop_post_simps [simp]:
  "loop_post I m Q n (Break r) = Q r"
  "loop_post I m Q n (Continue s) = (I s \<and> m s < n)"
  by (simp_all add: loop_post_def)

theorem forever_ends:
  assumes "I s" and "\<And>s. I s \<Longrightarrow> ends (body s) (loop_post I m Q (m s))"
  shows "ends (forever body s) Q"
  using assms(1)
proof (induction "m s" arbitrary: s rule: less_induct)
  case less
  from assms(2) [OF less.prems] obtain c where c: "body s = Some c" "loop_post I m Q (m s) c" by (rule endsE)
  show ?case
  proof (cases c)
    case (Continue s')
    then have "ends (forever body s') Q" using less.hyps [of s'] c(2) by simp
    then show ?thesis using Continue c(1) by (subst forever.simps) simp
  next
    case (Break r)
    then show ?thesis using c by (subst forever.simps) (simp add: ends_Some)
  qed
qed

end
