(* ===== verification/Intel_PT_State.thy ===== *)
theory Intel_PT_State
  imports Intel_PT_Pkt Intel_PT_Insn Total_Loops
begin

text \<open>
  The state of the Intel PT trace decoder (\<^verbatim>\<open>util/intel-pt-decoder/intel-pt-decoder.c\<close>), its creation, the stack of return
  addresses and the reconstruction of instruction pointers.

  A pointer into trace data is the memory from it to the end of its object; \<open>d_in_temp\<close> says that \<open>buf\<close> points to \<open>temp_buf\<close>.  The client of the decoder
  (its callbacks and their data, of type \<open>'c\<close>), the outcome of the allocations, the width of a \<open>long\<close> and the
  floating point arithmetic are parameters.  An out of range conversion to an integer gives some value, as IEEE arithmetic has it.
\<close>

section \<open>Types\<close>

abbreviation (input) ENOENT :: int where "ENOENT \<equiv> 2"
abbreviation (input) EAGAIN :: int where "EAGAIN \<equiv> 11"
abbreviation (input) ENOSPC :: int where "ENOSPC \<equiv> 28"
abbreviation (input) ENOSYS :: int where "ENOSYS \<equiv> 38"
abbreviation (input) ELOOP :: int where "ELOOP \<equiv> 40"
abbreviation (input) ENODATA :: int where "ENODATA \<equiv> 61"
abbreviation (input) ENOLINK :: int where "ENOLINK \<equiv> 67"
abbreviation (input) EBADMSG :: int where "EBADMSG \<equiv> 74"
abbreviation (input) EOVERFLOW :: int where "EOVERFLOW \<equiv> 75"
abbreviation (input) EILSEQ :: int where "EILSEQ \<equiv> 84"
abbreviation (input) INTEL_PT_RETURN :: int where "INTEL_PT_RETURN \<equiv> 1"
abbreviation (input) INTEL_PT_BLK_SIZE :: nat where "INTEL_PT_BLK_SIZE \<equiv> 1024"
abbreviation (input) INTEL_PT_MAX_LOOPS :: int where "INTEL_PT_MAX_LOOPS \<equiv> 10000"
abbreviation (input) INTEL_PT_PKT_MAX_SZ :: nat where "INTEL_PT_PKT_MAX_SZ \<equiv> 16"
abbreviation (input) INTEL_PT_PSB_LEN :: nat where "INTEL_PT_PSB_LEN \<equiv> 16"

abbreviation (input) INTEL_PT_IN_TX :: u32 where "INTEL_PT_IN_TX \<equiv> 1"
abbreviation (input) INTEL_PT_ABORT_TX :: u32 where "INTEL_PT_ABORT_TX \<equiv> 2"
abbreviation (input) INTEL_PT_ASYNC :: u32 where "INTEL_PT_ASYNC \<equiv> 4"
abbreviation (input) INTEL_PT_FUP_IP :: u32 where "INTEL_PT_FUP_IP \<equiv> 8"

abbreviation (input) INTEL_PT_BRANCH :: u32 where "INTEL_PT_BRANCH \<equiv> 0x1"
abbreviation (input) INTEL_PT_INSTRUCTION :: u32 where "INTEL_PT_INSTRUCTION \<equiv> 0x2"
abbreviation (input) INTEL_PT_TRANSACTION :: u32 where "INTEL_PT_TRANSACTION \<equiv> 0x4"
abbreviation (input) INTEL_PT_PTW :: u32 where "INTEL_PT_PTW \<equiv> 0x8"
abbreviation (input) INTEL_PT_MWAIT_OP :: u32 where "INTEL_PT_MWAIT_OP \<equiv> 0x10"
abbreviation (input) INTEL_PT_PWR_ENTRY :: u32 where "INTEL_PT_PWR_ENTRY \<equiv> 0x20"
abbreviation (input) INTEL_PT_EX_STOP :: u32 where "INTEL_PT_EX_STOP \<equiv> 0x40"
abbreviation (input) INTEL_PT_PWR_EXIT :: u32 where "INTEL_PT_PWR_EXIT \<equiv> 0x80"
abbreviation (input) INTEL_PT_CBR_CHG :: u32 where "INTEL_PT_CBR_CHG \<equiv> 0x100"
abbreviation (input) INTEL_PT_TRACE_BEGIN :: u32 where "INTEL_PT_TRACE_BEGIN \<equiv> 0x200"
abbreviation (input) INTEL_PT_TRACE_END :: u32 where "INTEL_PT_TRACE_END \<equiv> 0x400"

abbreviation (input) INTEL_PT_FUP_WITH_NLIP :: u32 where "INTEL_PT_FUP_WITH_NLIP \<equiv> 1"

datatype intel_pt_period_type =
  INTEL_PT_PERIOD_NONE | INTEL_PT_PERIOD_INSTRUCTIONS | INTEL_PT_PERIOD_TICKS | INTEL_PT_PERIOD_MTC

datatype intel_pt_pkt_state =
    INTEL_PT_STATE_NO_PSB | INTEL_PT_STATE_NO_IP | INTEL_PT_STATE_ERR_RESYNC | INTEL_PT_STATE_IN_SYNC
  | INTEL_PT_STATE_TNT | INTEL_PT_STATE_TIP | INTEL_PT_STATE_TIP_PGD | INTEL_PT_STATE_FUP | INTEL_PT_STATE_FUP_NO_TIP

text \<open>The errors of \<^verbatim>\<open>intel-pt-decoder.h\<close>, numbered from 1.\<close>

datatype intel_pt_err =
    INTEL_PT_ERR_NOMEM | INTEL_PT_ERR_INTERN | INTEL_PT_ERR_BADPKT | INTEL_PT_ERR_NODATA | INTEL_PT_ERR_NOINSN
  | INTEL_PT_ERR_MISMAT | INTEL_PT_ERR_OVR | INTEL_PT_ERR_LOST | INTEL_PT_ERR_UNK | INTEL_PT_ERR_NELOOP

text \<open>The blocks of the stack, the newest first, each an array of \<open>INTEL_PT_BLK_SIZE\<close> addresses.\<close>

record intel_pt_stack =
  st_blks :: "u64 list list"
  st_spare :: "u64 list option"
  st_pos :: nat

record intel_pt_buffer =
  b_buf :: "u8 list"
  b_len :: nat
  b_consecutive :: bool
  b_ref_timestamp :: u64
  b_trace_nr :: u64

record intel_pt_state =
  s_type :: u32
  s_err :: "intel_pt_err option"
  s_from_ip :: u64
  s_to_ip :: u64
  s_cr3 :: u64
  s_tot_insn_cnt :: u64
  s_timestamp :: u64
  s_est_timestamp :: u64
  s_trace_nr :: u64
  s_ptw_payload :: u64
  s_mwait_payload :: u64
  s_pwre_payload :: u64
  s_pwrx_payload :: u64
  s_cbr_payload :: u64
  s_flags :: u32
  s_insn_op :: intel_pt_insn_op
  s_insn_len :: nat
  s_insn :: "u8 list"

text \<open>The arithmetic of \<open>double\<close>.\<close>

record 'f fp =
  fp_of :: "u64 \<Rightarrow> 'f"
  fp_to :: "'f \<Rightarrow> u64"
  fp_add :: "'f \<Rightarrow> 'f \<Rightarrow> 'f"
  fp_mul :: "'f \<Rightarrow> 'f \<Rightarrow> 'f"
  fp_div :: "'f \<Rightarrow> 'f \<Rightarrow> 'f"
  fp_gt :: "'f \<Rightarrow> 'f \<Rightarrow> bool"
  fp_1_25 :: 'f

text \<open>
  \<open>pe_get_trace\<close> returns the error code and the buffer.  \<open>pe_walk_insn\<close> gets the current address, the address to stop at and the limit; it
  returns the error code, the instruction, the number of instructions and the new address.  \<open>pe_alloc n\<close> is the memory that allocation number \<open>n\<close>
  of a block returns.
\<close>

record ('c, 'f) pt_env =
  pe_get_trace :: "'c \<Rightarrow> (int \<times> intel_pt_buffer) \<times> 'c"
  pe_walk_insn :: "'c \<Rightarrow> u64 \<Rightarrow> u64 \<Rightarrow> u64 \<Rightarrow> (int \<times> intel_pt_insn \<times> u64 \<times> u64) \<times> 'c"
  pe_pgd_ip :: "('c \<Rightarrow> u64 \<Rightarrow> bool) option"
  pe_alloc :: "nat \<Rightarrow> u64 list option"
  pe_long_bits :: nat
  pe_fp :: "'f fp"

record ('c, 'f) intel_pt_decoder =
  d_data :: 'c
  d_state :: intel_pt_state
  d_buf :: "u8 list"
  d_in_temp :: bool
  d_len :: nat
  d_return_compression :: bool
  d_branch_enable :: bool
  d_mtc_insn :: bool
  d_pge :: bool
  d_have_tma :: bool
  d_have_cyc :: bool
  d_fixup_last_mtc :: bool
  d_have_last_ip :: bool
  d_flags :: u32
  d_pos :: u64
  d_last_ip :: u64
  d_ip :: u64
  d_cr3 :: u64
  d_timestamp :: u64
  d_tsc_timestamp :: u64
  d_ref_timestamp :: u64
  d_sample_timestamp :: u64
  d_ret_addr :: u64
  d_ctc_timestamp :: u64
  d_ctc_delta :: u64
  d_cycle_cnt :: u64
  d_cyc_ref_timestamp :: u64
  d_last_mtc :: u32
  d_tsc_ctc_ratio_n :: u32
  d_tsc_ctc_ratio_d :: u32
  d_tsc_ctc_mult :: u32
  d_tsc_slip :: u32
  d_ctc_rem_mask :: u32
  d_mtc_shift :: nat
  d_stack :: intel_pt_stack
  d_allocs :: nat
  d_pkt_state :: intel_pt_pkt_state
  d_packet :: intel_pt_pkt
  d_tnt :: intel_pt_pkt
  d_pkt_step :: nat
  d_pkt_len :: nat
  d_last_packet_type :: intel_pt_pkt_type
  d_cbr :: u32
  d_cbr_seen :: u32
  d_max_non_turbo_ratio :: u32
  d_max_non_turbo_ratio_fp :: 'f
  d_cbr_cyc_to_tsc :: 'f
  d_calc_cyc_to_tsc :: 'f
  d_have_calc_cyc_to_tsc :: bool
  d_exec_mode :: u32
  d_period :: u64
  d_period_type :: intel_pt_period_type
  d_tot_insn_cnt :: u64
  d_period_insn_cnt :: u64
  d_period_mask :: u64
  d_period_ticks :: u64
  d_last_masked_timestamp :: u64
  d_continuous_period :: bool
  d_overflow :: bool
  d_set_fup_tx_flags :: bool
  d_set_fup_ptw :: bool
  d_set_fup_mwait :: bool
  d_set_fup_pwre :: bool
  d_set_fup_exstop :: bool
  d_fup_tx_flags :: u32
  d_tx_flags :: u32
  d_fup_ptw_payload :: u64
  d_fup_mwait_payload :: u64
  d_fup_pwre_payload :: u64
  d_cbr_payload :: u64
  d_timestamp_insn_cnt :: u64
  d_sample_insn_cnt :: u64
  d_stuck_ip :: u64
  d_no_progress :: int
  d_stuck_ip_prd :: int
  d_stuck_ip_cnt :: int
  d_next_buf :: "u8 list option"
  d_next_len :: nat
  d_temp_buf :: "u8 list"

type_synonym ('c, 'f) decode_result = "(int \<times> ('c, 'f) intel_pt_decoder) option"
type_synonym ('c, 'f) decode_control = "(('c, 'f) intel_pt_decoder, int \<times> ('c, 'f) intel_pt_decoder) control option"

record 'c intel_pt_params =
  p_data :: 'c
  p_return_compression :: bool
  p_branch_enable :: bool
  p_period :: u64
  p_period_type :: intel_pt_period_type
  p_max_non_turbo_ratio :: u32
  p_mtc_period :: nat
  p_tsc_ctc_ratio_n :: u32
  p_tsc_ctc_ratio_d :: u32
  p_flags :: u32

section \<open>Creating a decoder\<close>

partial_function (option) lower_loop :: "u64 \<Rightarrow> nat \<Rightarrow> u64 option" where
  "lower_loop x i = (if x \<noteq> 1 then lower_loop (drop_bit 1 x) (i + 1) else Some (push_bit i x))"

definition intel_pt_lower_power_of_2 :: "u64 \<Rightarrow> u64 option" where
  "intel_pt_lower_power_of_2 x = lower_loop x 0"

definition intel_pt_setup_period :: "('c, 'f) intel_pt_decoder \<Rightarrow> ('c, 'f) intel_pt_decoder option" where
  "intel_pt_setup_period d =
     (if d_period_type d = INTEL_PT_PERIOD_TICKS then do {
        period \<leftarrow> intel_pt_lower_power_of_2 (d_period d);
        Some (d \<lparr>d_period_mask := NOT (period - 1), d_period_ticks := period\<rparr>)
      } else Some d)"

definition multdiv :: "u64 \<Rightarrow> u32 \<Rightarrow> u32 \<Rightarrow> u64" where
  "multdiv t n d = (if d = 0 then 0 else (t div ucast d) * ucast n + ((t mod ucast d) * ucast n) div ucast d)"

definition zero_state :: intel_pt_state where
  "zero_state = \<lparr>s_type = 0, s_err = None, s_from_ip = 0, s_to_ip = 0, s_cr3 = 0, s_tot_insn_cnt = 0, s_timestamp = 0,
     s_est_timestamp = 0, s_trace_nr = 0, s_ptw_payload = 0, s_mwait_payload = 0, s_pwre_payload = 0, s_pwrx_payload = 0,
     s_cbr_payload = 0, s_flags = 0, s_insn_op = INTEL_PT_OP_OTHER, s_insn_len = 0, s_insn = replicate 16 0\<rparr>"

definition zero_pkt :: intel_pt_pkt where
  "zero_pkt = \<lparr>pt_type = INTEL_PT_BAD, pt_count = 0, pt_payload = 0\<rparr>"

definition zero_decoder :: "'f fp \<Rightarrow> 'c \<Rightarrow> ('c, 'f) intel_pt_decoder" where
  "zero_decoder fp data = \<lparr>d_data = data, d_state = zero_state, d_buf = [], d_in_temp = False, d_len = 0,
     d_return_compression = False, d_branch_enable = False, d_mtc_insn = False, d_pge = False, d_have_tma = False,
     d_have_cyc = False, d_fixup_last_mtc = False, d_have_last_ip = False, d_flags = 0, d_pos = 0, d_last_ip = 0,
     d_ip = 0, d_cr3 = 0, d_timestamp = 0, d_tsc_timestamp = 0, d_ref_timestamp = 0, d_sample_timestamp = 0,
     d_ret_addr = 0, d_ctc_timestamp = 0, d_ctc_delta = 0, d_cycle_cnt = 0, d_cyc_ref_timestamp = 0, d_last_mtc = 0,
     d_tsc_ctc_ratio_n = 0, d_tsc_ctc_ratio_d = 0, d_tsc_ctc_mult = 0, d_tsc_slip = 0, d_ctc_rem_mask = 0,
     d_mtc_shift = 0, d_stack = \<lparr>st_blks = [], st_spare = None, st_pos = 0\<rparr>, d_allocs = 0,
     d_pkt_state = INTEL_PT_STATE_NO_PSB, d_packet = zero_pkt, d_tnt = zero_pkt, d_pkt_step = 0, d_pkt_len = 0,
     d_last_packet_type = INTEL_PT_BAD, d_cbr = 0, d_cbr_seen = 0, d_max_non_turbo_ratio = 0,
     d_max_non_turbo_ratio_fp = fp_of fp 0, d_cbr_cyc_to_tsc = fp_of fp 0, d_calc_cyc_to_tsc = fp_of fp 0,
     d_have_calc_cyc_to_tsc = False, d_exec_mode = 0, d_period = 0, d_period_type = INTEL_PT_PERIOD_NONE,
     d_tot_insn_cnt = 0, d_period_insn_cnt = 0, d_period_mask = 0, d_period_ticks = 0, d_last_masked_timestamp = 0,
     d_continuous_period = False, d_overflow = False, d_set_fup_tx_flags = False, d_set_fup_ptw = False,
     d_set_fup_mwait = False, d_set_fup_pwre = False, d_set_fup_exstop = False, d_fup_tx_flags = 0, d_tx_flags = 0,
     d_fup_ptw_payload = 0, d_fup_mwait_payload = 0, d_fup_pwre_payload = 0, d_cbr_payload = 0,
     d_timestamp_insn_cnt = 0, d_sample_insn_cnt = 0, d_stuck_ip = 0, d_no_progress = 0, d_stuck_ip_prd = 0,
     d_stuck_ip_cnt = 0, d_next_buf = None, d_next_len = 0, d_temp_buf = replicate 16 0\<rparr>"

text \<open>
  The allocation of the decoder succeeds or not (\<open>ok\<close>); the callbacks of \<open>env\<close> are there.  A shift by the width of an
  \<open>int\<close>, or into its sign, is undefined.
\<close>

definition intel_pt_decoder_new ::
  "('c, 'f) pt_env \<Rightarrow> bool \<Rightarrow> 'c intel_pt_params \<Rightarrow> ('c, 'f) intel_pt_decoder option option"
where
  "intel_pt_decoder_new env ok params =
     (if \<not> ok then Some None
      else do {
        let d = (zero_decoder (pe_fp env) (p_data params))
          \<lparr>d_return_compression := p_return_compression params, d_branch_enable := p_branch_enable params,
           d_flags := p_flags params, d_period := p_period params, d_period_type := p_period_type params,
           d_max_non_turbo_ratio := p_max_non_turbo_ratio params,
           d_max_non_turbo_ratio_fp := fp_of (pe_fp env) (ucast (p_max_non_turbo_ratio params))\<rparr>;
        d \<leftarrow> intel_pt_setup_period d;
        if p_mtc_period params \<ge> 31 then None
        else do {
          let n = p_tsc_ctc_ratio_n params;
          let r = (if n = 0 then 0 else p_tsc_ctc_ratio_d params);
          Some (Some (d
            \<lparr>d_mtc_shift := p_mtc_period params, d_ctc_rem_mask := push_bit (p_mtc_period params) 1 - 1,
             d_tsc_ctc_ratio_n := n, d_tsc_ctc_ratio_d := r,
             d_tsc_ctc_mult := (if r \<noteq> 0 \<and> n mod r = 0 then n div r else 0), d_tsc_slip := 0x10000\<rparr>))
        }
      })"

section \<open>The stack of return addresses\<close>

definition intel_pt_pop_blk :: "intel_pt_stack \<Rightarrow> intel_pt_stack option" where
  "intel_pt_pop_blk stack = (case st_blks stack of
     [] \<Rightarrow> None
   | blk # prev \<Rightarrow> Some (stack \<lparr>st_blks := prev, st_spare := (if st_spare stack = None then Some blk else st_spare stack)\<rparr>))"

text \<open>The last statement, \<open>return stack->blk->ip[--stack->pos]\<close>.\<close>

definition pop_ip :: "intel_pt_stack \<Rightarrow> (u64 \<times> intel_pt_stack) option" where
  "pop_ip stack = (case st_blks stack of
     [] \<Rightarrow> None
   | blk # prev \<Rightarrow>
       if st_pos stack = 0 then None
       else do { ip \<leftarrow> rd blk (st_pos stack - 1); Some (ip, stack \<lparr>st_pos := st_pos stack - 1\<rparr>) })"

definition intel_pt_pop :: "intel_pt_stack \<Rightarrow> (u64 \<times> intel_pt_stack) option" where
  "intel_pt_pop stack =
     (if st_pos stack = 0 then
        (if st_blks stack = [] then Some (0, stack)
         else do {
           stack \<leftarrow> intel_pt_pop_blk stack;
           if st_blks stack = [] then Some (0, stack)
           else pop_ip (stack \<lparr>st_pos := INTEL_PT_BLK_SIZE\<rparr>)
         })
      else pop_ip stack)"

text \<open>The allocation numbers are threaded through; \<open>a\<close> is the number of the next one.\<close>

definition intel_pt_alloc_blk ::
  "(nat \<Rightarrow> u64 list option) \<Rightarrow> nat \<Rightarrow> intel_pt_stack \<Rightarrow> int \<times> nat \<times> intel_pt_stack"
where
  "intel_pt_alloc_blk alloc a stack = (case st_spare stack of
     Some blk \<Rightarrow> (0, a, stack \<lparr>st_spare := None, st_blks := blk # st_blks stack, st_pos := 0\<rparr>)
   | None \<Rightarrow> (case alloc a of
       None \<Rightarrow> (- ENOMEM, a + 1, stack)
     | Some blk \<Rightarrow> (0, a + 1, stack \<lparr>st_blks := blk # st_blks stack, st_pos := 0\<rparr>)))"

definition intel_pt_push ::
  "(nat \<Rightarrow> u64 list option) \<Rightarrow> nat \<Rightarrow> intel_pt_stack \<Rightarrow> u64 \<Rightarrow> (int \<times> nat \<times> intel_pt_stack) option"
where
  "intel_pt_push alloc a stack ip = do {
     let (err, a, stack) =
       (if st_blks stack = [] \<or> st_pos stack = INTEL_PT_BLK_SIZE then intel_pt_alloc_blk alloc a stack else (0, a, stack));
     if err \<noteq> 0 then Some (err, a, stack)
     else (case st_blks stack of
       [] \<Rightarrow> None
     | blk # prev \<Rightarrow> do {
         blk \<leftarrow> wr blk (st_pos stack) ip;
         Some (0, a, stack \<lparr>st_blks := blk # prev, st_pos := st_pos stack + 1\<rparr>)
       })
   }"

function clear_loop :: "intel_pt_stack \<Rightarrow> intel_pt_stack" where
  "clear_loop stack = (case intel_pt_pop_blk stack of None \<Rightarrow> stack | Some stack \<Rightarrow> clear_loop stack)"
  by pat_completeness auto
termination
  by (relation "measure (length \<circ> st_blks)") (auto simp: intel_pt_pop_blk_def split: list.splits)

declare clear_loop.simps [simp del]

definition intel_pt_clear_stack :: "intel_pt_stack \<Rightarrow> intel_pt_stack" where
  "intel_pt_clear_stack stack = (clear_loop stack) \<lparr>st_pos := 0\<rparr>"

section \<open>Instruction pointers and small functions\<close>

definition intel_pt_sample_time :: "intel_pt_pkt_state \<Rightarrow> bool" where
  "intel_pt_sample_time s \<longleftrightarrow> (case s of
     INTEL_PT_STATE_TIP \<Rightarrow> False | INTEL_PT_STATE_TIP_PGD \<Rightarrow> False | INTEL_PT_STATE_FUP \<Rightarrow> False
   | INTEL_PT_STATE_FUP_NO_TIP \<Rightarrow> False | _ \<Rightarrow> True)"

definition intel_pt_ext_err :: "int \<Rightarrow> intel_pt_err" where
  "intel_pt_ext_err code =
     (if code = - ENOMEM then INTEL_PT_ERR_NOMEM
      else if code = - ENOSYS then INTEL_PT_ERR_INTERN
      else if code = - EBADMSG then INTEL_PT_ERR_BADPKT
      else if code = - ENODATA then INTEL_PT_ERR_NODATA
      else if code = - EILSEQ then INTEL_PT_ERR_NOINSN
      else if code = - ENOENT then INTEL_PT_ERR_MISMAT
      else if code = - EOVERFLOW then INTEL_PT_ERR_OVR
      else if code = - ENOSPC then INTEL_PT_ERR_LOST
      else if code = - ELOOP then INTEL_PT_ERR_NELOOP
      else INTEL_PT_ERR_UNK)"

definition intel_pt_calc_ip :: "intel_pt_pkt \<Rightarrow> u64 \<Rightarrow> u64" where
  "intel_pt_calc_ip packet last_ip =
     (if pt_count packet = 1 then (last_ip AND 0xffffffffffff0000) OR pt_payload packet
      else if pt_count packet = 2 then (last_ip AND 0xffffffff00000000) OR pt_payload packet
      else if pt_count packet = 3 then
        (if pt_payload packet AND 0x800000000000 \<noteq> 0 then pt_payload packet OR 0xffff000000000000 else pt_payload packet)
      else if pt_count packet = 4 then (last_ip AND 0xffff000000000000) OR pt_payload packet
      else if pt_count packet = 6 then pt_payload packet
      else 0)"

definition intel_pt_set_last_ip :: "('c, 'f) intel_pt_decoder \<Rightarrow> ('c, 'f) intel_pt_decoder" where
  "intel_pt_set_last_ip d = d \<lparr>d_last_ip := intel_pt_calc_ip (d_packet d) (d_last_ip d), d_have_last_ip := True\<rparr>"

definition intel_pt_set_ip :: "('c, 'f) intel_pt_decoder \<Rightarrow> ('c, 'f) intel_pt_decoder" where
  "intel_pt_set_ip d = (let d = intel_pt_set_last_ip d in d \<lparr>d_ip := d_last_ip d\<rparr>)"

definition intel_pt_bug :: "('c, 'f) intel_pt_decoder \<Rightarrow> int \<times> ('c, 'f) intel_pt_decoder" where
  "intel_pt_bug d = (- ENOSYS, d \<lparr>d_pkt_state := INTEL_PT_STATE_NO_PSB\<rparr>)"

definition intel_pt_clear_tx_flags :: "('c, 'f) intel_pt_decoder \<Rightarrow> ('c, 'f) intel_pt_decoder" where
  "intel_pt_clear_tx_flags d = d \<lparr>d_tx_flags := 0\<rparr>"

definition intel_pt_update_in_tx :: "('c, 'f) intel_pt_decoder \<Rightarrow> ('c, 'f) intel_pt_decoder" where
  "intel_pt_update_in_tx d = d \<lparr>d_tx_flags := ucast (pt_payload (d_packet d)) AND INTEL_PT_IN_TX\<rparr>"

definition intel_pt_overflow :: "('c, 'f) intel_pt_decoder \<Rightarrow> int \<times> ('c, 'f) intel_pt_decoder" where
  "intel_pt_overflow d = (- EOVERFLOW, (intel_pt_clear_tx_flags d)
     \<lparr>d_timestamp_insn_cnt := 0, d_pkt_state := INTEL_PT_STATE_ERR_RESYNC, d_overflow := True\<rparr>)"

end
