(* ===== verification/Intel_PT_Stack.thy ===== *)
theory Intel_PT_Stack
  imports Intel_PT_State
begin

text \<open>
  The stack of return addresses and the reconstruction of instruction pointers of the Intel PT decoder: the chain of blocks refines a list, and an address that the hardware has compressed
  is recovered.
\<close>

section \<open>The stack as a list\<close>

definition stack_ok :: "intel_pt_stack \<Rightarrow> bool" where
  "stack_ok stack \<longleftrightarrow> list_all (\<lambda>b. length b = INTEL_PT_BLK_SIZE) (st_blks stack) \<and>
     (\<forall>b. st_spare stack = Some b \<longrightarrow> length b = INTEL_PT_BLK_SIZE) \<and>
     st_pos stack \<le> INTEL_PT_BLK_SIZE \<and> (st_blks stack = [] \<longrightarrow> st_pos stack = 0)"

text \<open>The addresses, the newest first; only the newest block is not full.\<close>

definition stack_ips :: "intel_pt_stack \<Rightarrow> u64 list" where
  "stack_ips stack = (case st_blks stack of [] \<Rightarrow> [] | b # bs \<Rightarrow> rev (take (st_pos stack) b) @ concat (map rev bs))"

definition allocs_ok :: "(nat \<Rightarrow> u64 list option) \<Rightarrow> bool" where
  "allocs_ok alloc \<longleftrightarrow> (\<forall>n b. alloc n = Some b \<longrightarrow> length b = INTEL_PT_BLK_SIZE)"

lemma take_Suc_rev: "0 < n \<Longrightarrow> n \<le> length xs \<Longrightarrow> rev (take n xs) = xs ! (n - 1) # rev (take (n - 1) xs)"
  by (cases n) (auto simp: take_Suc_conv_app_nth)

lemma pop_ip_spec:
  assumes "stack_ok stack" and "st_blks stack \<noteq> []" and "0 < st_pos stack"
  shows "\<exists>ip stack'. pop_ip stack = Some (ip, stack') \<and> stack_ok stack' \<and> stack_ips stack = ip # stack_ips stack'"
  using assms by (cases "st_blks stack") (auto simp: pop_ip_def stack_ok_def stack_ips_def take_Suc_rev)

lemma intel_pt_pop_spec:
  assumes "stack_ok stack"
  shows "\<exists>ip stack'. intel_pt_pop stack = Some (ip, stack') \<and> stack_ok stack' \<and> stack_ips stack' = tl (stack_ips stack) \<and>
    ip = (case stack_ips stack of [] \<Rightarrow> 0 | ip # _ \<Rightarrow> ip)"
proof (cases "st_pos stack = 0")
  case False
  then have "st_blks stack \<noteq> []" using assms by (auto simp: stack_ok_def)
  then show ?thesis using pop_ip_spec [OF assms _ ] False by (fastforce simp: intel_pt_pop_def)
next
  case zero: True
  show ?thesis
  proof (cases "st_blks stack")
    case Nil
    then show ?thesis using assms zero by (simp add: intel_pt_pop_def stack_ips_def)
  next
    case (Cons b bs)
    let ?stack = "stack \<lparr>st_blks := bs, st_spare := (if st_spare stack = None then Some b else st_spare stack)\<rparr>"
    have blk: "intel_pt_pop_blk stack = Some ?stack" by (simp add: intel_pt_pop_blk_def Cons)
    have ok: "bs \<noteq> [] \<Longrightarrow> stack_ok (?stack \<lparr>st_pos := 1024\<rparr>)" "bs = [] \<Longrightarrow> stack_ok ?stack"
      using assms zero Cons by (auto simp: stack_ok_def)
    have ips: "stack_ips stack = stack_ips (?stack \<lparr>st_pos := 1024\<rparr>)" if "bs \<noteq> []"
      using that Cons zero ok(1) by (cases bs) (auto simp: stack_ips_def stack_ok_def)
    show ?thesis
    proof (cases "bs = []")
      case True
      then show ?thesis using blk ok(2) zero Cons by (simp add: intel_pt_pop_def stack_ips_def)
    next
      case False
      obtain ip stack' where "pop_ip (?stack \<lparr>st_pos := 1024\<rparr>) = Some (ip, stack')" "stack_ok stack'"
          "stack_ips stack = ip # stack_ips stack'"
        using pop_ip_spec [OF ok(1) [OF False]] False ips by auto
      then show ?thesis using blk zero Cons False by (simp add: intel_pt_pop_def)
    qed
  qed
qed

lemma intel_pt_alloc_blk_spec:
  assumes "stack_ok stack" and "allocs_ok alloc" and "st_blks stack = [] \<or> st_pos stack = INTEL_PT_BLK_SIZE"
  shows "(\<exists>a'. intel_pt_alloc_blk alloc a stack = (- ENOMEM, a', stack)) \<or>
    (\<exists>a' stack'. intel_pt_alloc_blk alloc a stack = (0, a', stack') \<and> stack_ok stack' \<and> st_blks stack' \<noteq> [] \<and> st_pos stack' = 0 \<and>
      stack_ips stack' = stack_ips stack)"
proof -
  have "stack_ips (stack \<lparr>st_blks := b # st_blks stack, st_pos := 0\<rparr>) = stack_ips stack" for b
    using assms(1,3) by (cases "st_blks stack") (auto simp: stack_ips_def stack_ok_def)
  moreover have "stack_ips (stack \<lparr>st_spare := None, st_blks := b # st_blks stack, st_pos := 0\<rparr>) = stack_ips stack" for b
    using assms(1,3) by (cases "st_blks stack") (auto simp: stack_ips_def stack_ok_def)
  ultimately show ?thesis using assms(1,2)
    by (auto simp: intel_pt_alloc_blk_def stack_ok_def allocs_ok_def split: option.splits)
qed

lemma intel_pt_push_spec:
  assumes "stack_ok stack" and "allocs_ok alloc"
  shows "\<exists>err a' stack'. intel_pt_push alloc a stack ip = Some (err, a', stack') \<and> stack_ok stack' \<and>
    (err = - ENOMEM \<and> stack' = stack \<or> err = 0 \<and> stack_ips stack' = ip # stack_ips stack)"
proof -
  let ?r = "if st_blks stack = [] \<or> st_pos stack = INTEL_PT_BLK_SIZE then intel_pt_alloc_blk alloc a stack else (0, a, stack)"
  have "(\<exists>a'. ?r = (- ENOMEM, a', stack)) \<or> (\<exists>a' stack'. ?r = (0, a', stack') \<and> stack_ok stack' \<and> st_blks stack' \<noteq> [] \<and>
      st_pos stack' < 1024 \<and> stack_ips stack' = stack_ips stack)"
    using intel_pt_alloc_blk_spec [OF assms, of a] assms(1) by (auto simp: stack_ok_def)
  then consider (fail) a' where "?r = (- ENOMEM, a', stack)"
    | (ok) a' stack' where "?r = (0, a', stack')" "stack_ok stack'" "st_blks stack' \<noteq> []" "st_pos stack' < 1024"
      "stack_ips stack' = stack_ips stack"
    by blast
  then show ?thesis
  proof cases
    case fail
    then show ?thesis using assms(1) unfolding intel_pt_push_def fail by simp
  next
    case ok
    obtain b bs where b: "st_blks stack' = b # bs" using ok(3) by (cases "st_blks stack'") auto
    then have "length b = 1024" using ok(2) by (simp add: stack_ok_def)
    then show ?thesis using ok b unfolding intel_pt_push_def ok(1)
      by (auto simp: stack_ok_def stack_ips_def take_Suc_conv_app_nth wr_def)
  qed
qed

lemma clear_loop_spec:
  assumes "list_all (\<lambda>b. length b = INTEL_PT_BLK_SIZE) (st_blks stack)" and "\<forall>b. st_spare stack = Some b \<longrightarrow> length b = INTEL_PT_BLK_SIZE"
  shows "st_blks (clear_loop stack) = [] \<and> (\<forall>b. st_spare (clear_loop stack) = Some b \<longrightarrow> length b = INTEL_PT_BLK_SIZE)"
  using assms
proof (induction stack rule: clear_loop.induct)
  case (1 stack)
  show ?case
  proof (cases "intel_pt_pop_blk stack")
    case None
    then have "st_blks stack = []" by (auto simp: intel_pt_pop_blk_def split: list.splits)
    then show ?thesis using None "1.prems" by (simp add: clear_loop.simps)
  next
    case (Some stack')
    then show ?thesis using "1.IH" [OF Some] "1.prems"
      by (subst (1 2) clear_loop.simps) (auto simp: intel_pt_pop_blk_def split: list.splits if_splits)
  qed
qed

lemma intel_pt_clear_stack_spec:
  assumes "stack_ok stack"
  shows "stack_ok (intel_pt_clear_stack stack)" and "stack_ips (intel_pt_clear_stack stack) = []"
  using clear_loop_spec [of stack] assms by (simp_all add: intel_pt_clear_stack_def stack_ips_def stack_ok_def)

section \<open>Compressed addresses\<close>

text \<open>
  How an address is written: the number in the upper three bits of the header says how many bytes follow, and how the rest
  of the address comes from the last one.
\<close>

definition ip_bytes :: "nat \<Rightarrow> nat" where
  "ip_bytes c = (if c = 1 then 2 else if c = 2 then 4 else if c = 6 then 8 else 6)"

definition encode_ip :: "u8 \<Rightarrow> nat \<Rightarrow> u64 \<Rightarrow> u8 list" where
  "encode_ip opc c ip = (opc OR push_bit 5 (of_nat c)) # le_bytes (ip_bytes c) ip"

definition ip_fits :: "nat \<Rightarrow> u64 \<Rightarrow> u64 \<Rightarrow> bool" where
  "ip_fits c last_ip ip \<longleftrightarrow>
     (if c = 3 then ip = signed_take_bit 47 ip else drop_bit (8 * ip_bytes c) ip = drop_bit (8 * ip_bytes c) last_ip)"

fun ip_opcode :: "intel_pt_pkt_type \<Rightarrow> u8" where
  "ip_opcode INTEL_PT_TIP = 0x0d"
| "ip_opcode INTEL_PT_TIP_PGE = 0x11"
| "ip_opcode INTEL_PT_TIP_PGD = 0x01"
| "ip_opcode _ = 0x1d"

lemma ip_from_last:
  assumes "drop_bit n ip = drop_bit n last_ip" and "n \<le> 64"
  shows "(last_ip AND NOT (mask n)) OR take_bit n ip = (ip :: u64)"
proof (rule bit_eqI)
  fix i assume "possible_bit TYPE(u64) i"
  then have i: "i < 64" by (simp add: possible_bit_def)
  have "bit (drop_bit n ip) (i - n) = bit (drop_bit n last_ip) (i - n)" using assms(1) by simp
  then have "n \<le> i \<Longrightarrow> bit ip i = bit last_ip i" by (simp add: bit_drop_bit_eq)
  then show "bit ((last_ip AND NOT (mask n)) OR take_bit n ip) i = bit ip i"
    using i by (auto simp: bit_simps)
qed

lemma ip_sign_extended:
  assumes "ip = signed_take_bit 47 (ip :: u64)"
  shows "(if take_bit 48 ip AND 0x800000000000 \<noteq> 0 then take_bit 48 ip OR 0xffff000000000000 else take_bit 48 ip) = ip"
proof -
  have top: "take_bit 48 ip AND 0x800000000000 \<noteq> 0 \<longleftrightarrow> bit ip 47" 
  proof -
    have "(0x800000000000 :: u64) = push_bit 47 1" by simp
    then show ?thesis using bit_iff_and_push_bit_not_eq_0 [of "take_bit 48 ip" 47] by (simp add: bit_take_bit_iff)
  qed
  have high: "(0xffff000000000000 :: u64) = NOT (mask 48)" by (simp add: mask_eq_exp_minus_1)
  have hi: "bit ip i = bit ip 47" if "48 \<le> i" "i < 64" for i
  proof -
    have "bit (signed_take_bit 47 ip) i = bit ip 47" using that by (simp add: bit_signed_take_bit_iff min_def)
    then show ?thesis using arg_cong [OF assms, of "\<lambda>w. bit w i"] by simp
  qed
  show ?thesis
  proof (rule bit_eqI)
    fix i assume "possible_bit TYPE(u64) i"
    then have i: "i < 64" by (simp add: possible_bit_def)
    show "bit (if take_bit 48 ip AND 0x800000000000 \<noteq> 0 then take_bit 48 ip OR 0xffff000000000000 else take_bit 48 ip) i = bit ip i"
    proof (cases "i < 48")
      case True
      then show ?thesis unfolding top high using i by (simp add: bit_simps)
    next
      case False
      then show ?thesis unfolding top high using hi [of i] i by (simp add: bit_simps)
    qed
  qed
qed

lemma calc_ip_fits:
  assumes "c \<in> {1, 2, 3, 4, 6}" and "ip_fits c last_ip ip"
  shows "intel_pt_calc_ip \<lparr>pt_type = t, pt_count = int c, pt_payload = take_bit (8 * ip_bytes c) ip\<rparr> last_ip = ip"
proof -
  have m: "(0xffffffffffff0000 :: u64) = NOT (mask 16)" "(0xffffffff00000000 :: u64) = NOT (mask 32)" "(0xffff000000000000 :: u64) = NOT (mask 48)"
    by (simp_all add: mask_eq_exp_minus_1)
  have full: "take_bit 64 ip = ip" by (rule take_bit_word_eq_self) simp
  from assms consider "c = 1" "drop_bit 16 ip = drop_bit 16 last_ip" | "c = 2" "drop_bit 32 ip = drop_bit 32 last_ip"
    | "c = 3" "ip = signed_take_bit 47 ip" | "c = 4" "drop_bit 48 ip = drop_bit 48 last_ip" | "c = 6"
    by (auto simp: ip_fits_def ip_bytes_def)
  then show ?thesis
  proof cases
    case 1
    then show ?thesis using ip_from_last [of 16 ip last_ip] by (simp add: intel_pt_calc_ip_def ip_bytes_def m)
  next
    case 2
    then show ?thesis using ip_from_last [of 32 ip last_ip] by (simp add: intel_pt_calc_ip_def ip_bytes_def m)
  next
    case 3
    then show ?thesis using ip_sign_extended [OF 3(2)] by (simp add: intel_pt_calc_ip_def ip_bytes_def cong: if_cong split del: if_split)
  next
    case 4
    then show ?thesis using ip_from_last [of 48 ip last_ip] by (simp add: intel_pt_calc_ip_def ip_bytes_def m)
  next
    case 5
    then show ?thesis using full by (simp add: intel_pt_calc_ip_def ip_bytes_def)
  qed
qed

lemma rd_le_after_header: "rd_le (b # le_bytes n v @ rest) (Suc 0) n = Some (take_bit (8 * n) v)"
  by (simp add: rd_le_def le_word_le_bytes)

lemma get_ip_encode:
  assumes "c \<in> {1, 2, 3, 4, 6}" and "uint (drop_bit 5 byte) = int c" and "ip_bytes c < len"
  shows "intel_pt_get_ip t byte (b # le_bytes (ip_bytes c) ip @ rest) len \<lparr>pt_type = INTEL_PT_BAD, pt_count = 0, pt_payload = 0\<rparr> =
    Some (1 + int (ip_bytes c), \<lparr>pt_type = t, pt_count = int c, pt_payload = take_bit (8 * ip_bytes c) ip\<rparr>)"
  using assms rd_le_after_header [of b "ip_bytes c" ip rest] by (auto simp: intel_pt_get_ip_def ip_bytes_def Let_def)

lemma decode_encode_ip:
  assumes "c \<in> {1, 2, 3, 4, 6}" and "t \<in> {INTEL_PT_TIP, INTEL_PT_TIP_PGE, INTEL_PT_TIP_PGD, INTEL_PT_FUP}" and "ip_bytes c < len"
  shows "intel_pt_do_get_packet (encode_ip (ip_opcode t) c ip @ rest) len =
    Some (1 + int (ip_bytes c), \<lparr>pt_type = t, pt_count = int c, pt_payload = take_bit (8 * ip_bytes c) ip\<rparr>)"
proof -
  let ?byte = "ucast (ip_opcode t OR push_bit 5 (of_nat c)) :: u32"
  have t: "t = INTEL_PT_TIP \<or> t = INTEL_PT_TIP_PGE \<or> t = INTEL_PT_TIP_PGD \<or> t = INTEL_PT_FUP"
    and c: "c = 1 \<or> c = 2 \<or> c = 3 \<or> c = 4 \<or> c = 6" using assms(1,2) by auto
  have byte: "uint (drop_bit 5 ?byte) = int c" "?byte AND 1 \<noteq> 0" "?byte AND 2 = 0" "?byte AND 0x1f = ucast (ip_opcode t)"
    using t c by (elim disjE; simp)+
  show ?thesis
    using t get_ip_encode [OF assms(1) byte(1) assms(3)] byte assms(3)
    unfolding intel_pt_do_get_packet_def encode_ip_def Let_def
    by (elim disjE) simp_all
qed

section \<open>Sequences of stack operations\<close>

datatype stack_op = Push u64 | Pop | Clear
datatype stack_out = Pushed int | Popped u64 | Cleared

fun stack_step :: "(nat \<Rightarrow> u64 list option) \<Rightarrow> stack_op \<Rightarrow> nat \<times> intel_pt_stack \<Rightarrow> (stack_out \<times> nat \<times> intel_pt_stack) option" where
  "stack_step alloc (Push ip) (a, stack) = do { (err, a, stack) \<leftarrow> intel_pt_push alloc a stack ip; Some (Pushed err, a, stack) }"
| "stack_step alloc Pop (a, stack) = do { (ip, stack) \<leftarrow> intel_pt_pop stack; Some (Popped ip, a, stack) }"
| "stack_step alloc Clear (a, stack) = Some (Cleared, a, intel_pt_clear_stack stack)"

fun stack_run :: "(nat \<Rightarrow> u64 list option) \<Rightarrow> stack_op list \<Rightarrow> nat \<times> intel_pt_stack \<Rightarrow> (stack_out list \<times> nat \<times> intel_pt_stack) option" where
  "stack_run alloc [] s = Some ([], s)"
| "stack_run alloc (x # xs) s = do { (y, s) \<leftarrow> stack_step alloc x s; (ys, s) \<leftarrow> stack_run alloc xs s; Some (y # ys, s) }"

text \<open>The same on a list; a push may fail and does nothing then.\<close>

inductive list_run :: "u64 list \<Rightarrow> stack_op list \<Rightarrow> stack_out list \<Rightarrow> u64 list \<Rightarrow> bool" where
  run_nil: "list_run ips [] [] ips"
| run_push: "list_run (ip # ips) xs ys ips' \<Longrightarrow> list_run ips (Push ip # xs) (Pushed 0 # ys) ips'"
| run_full: "list_run ips xs ys ips' \<Longrightarrow> list_run ips (Push ip # xs) (Pushed (- ENOMEM) # ys) ips'"
| run_pop: "list_run ips xs ys ips' \<Longrightarrow> list_run (ip # ips) (Pop # xs) (Popped ip # ys) ips'"
| run_empty: "list_run [] xs ys ips' \<Longrightarrow> list_run [] (Pop # xs) (Popped 0 # ys) ips'"
| run_clear: "list_run [] xs ys ips' \<Longrightarrow> list_run ips (Clear # xs) (Cleared # ys) ips'"

lemma stack_step_refines:
  assumes "stack_ok stack" and "allocs_ok alloc"
  shows "\<exists>y a' stack'. stack_step alloc x (a, stack) = Some (y, a', stack') \<and> stack_ok stack' \<and>
    (\<forall>xs ys ips'. list_run (stack_ips stack') xs ys ips' \<longrightarrow> list_run (stack_ips stack) (x # xs) (y # ys) ips')"
proof (cases x)
  case (Push ip)
  obtain err a' stack' where p: "intel_pt_push alloc a stack ip = Some (err, a', stack')" "stack_ok stack'"
      "err = - ENOMEM \<and> stack' = stack \<or> err = 0 \<and> stack_ips stack' = ip # stack_ips stack"
    using intel_pt_push_spec [OF assms, of a ip] by blast
  then show ?thesis using Push by (auto intro: list_run.intros)
next
  case Pop
  obtain ip stack' where "intel_pt_pop stack = Some (ip, stack')" "stack_ok stack'" "stack_ips stack' = tl (stack_ips stack)"
      "ip = (case stack_ips stack of [] \<Rightarrow> 0 | ip # _ \<Rightarrow> ip)"
    using intel_pt_pop_spec [OF assms(1)] by blast
  then show ?thesis using Pop by (cases "stack_ips stack") (auto intro: list_run.intros)
next
  case Clear
  then show ?thesis using intel_pt_clear_stack_spec [OF assms(1)] by (auto intro: list_run.intros)
qed

lemma stack_run_refines:
  assumes "stack_ok stack" and "allocs_ok alloc"
  shows "\<exists>ys a' stack'. stack_run alloc xs (a, stack) = Some (ys, a', stack') \<and> stack_ok stack' \<and>
    list_run (stack_ips stack) xs ys (stack_ips stack')"
  using assms(1)
proof (induction xs arbitrary: a stack)
  case Nil
  then show ?case by (simp add: run_nil)
next
  case (Cons x xs)
  obtain y a1 stack1 where s: "stack_step alloc x (a, stack) = Some (y, a1, stack1)" "stack_ok stack1"
      "\<forall>xs ys ips'. list_run (stack_ips stack1) xs ys ips' \<longrightarrow> list_run (stack_ips stack) (x # xs) (y # ys) ips'"
    using stack_step_refines [OF Cons.prems assms(2), of x a] by blast
  obtain ys a' stack' where "stack_run alloc xs (a1, stack1) = Some (ys, a', stack')" "stack_ok stack'"
      "list_run (stack_ips stack1) xs ys (stack_ips stack')"
    using Cons.IH [OF s(2), of a1] by blast
  then show ?case using s by auto
qed

section \<open>Properties\<close>



text \<open>
  C10. The address of a TIP, TIP.PGE, TIP.PGD or FUP packet is recovered: for each of the compressed forms that the address fits, given the last address, the decoder gets the
  packet and computes the address from it.
\<close>

theorem intel_pt_ip_roundtrip:
  assumes "c \<in> {1, 2, 3, 4, 6}" and "t \<in> {INTEL_PT_TIP, INTEL_PT_TIP_PGE, INTEL_PT_TIP_PGD, INTEL_PT_FUP}" and "ip_fits c last_ip ip"
    and "length (encode_ip (ip_opcode t) c ip) \<le> len"
  shows "\<exists>p. intel_pt_do_get_packet (encode_ip (ip_opcode t) c ip @ rest) len = Some (int (length (encode_ip (ip_opcode t) c ip)), p) \<and>
    pt_type p = t \<and> intel_pt_calc_ip p last_ip = ip"
  using decode_encode_ip [OF assms(1,2), of len ip rest] calc_ip_fits [OF assms(1,3), of t] assms(4)
  by (simp add: encode_ip_def)

theorem intel_pt_ip_roundtrip_witness:
  "\<exists>p. intel_pt_do_get_packet (encode_ip (ip_opcode INTEL_PT_TIP) 1 0x7f0000401234 @ [0]) 4 =
       Some (int (length (encode_ip (ip_opcode INTEL_PT_TIP) 1 0x7f0000401234)), p) \<and>
     pt_type p = INTEL_PT_TIP \<and> intel_pt_calc_ip p 0x7f0000405678 = 0x7f0000401234"
  by (rule intel_pt_ip_roundtrip) (simp_all add: ip_fits_def ip_bytes_def encode_ip_def)

end
