(* ===== verification/Intel_PT_Fetch.thy ===== *)
theory Intel_PT_Fetch
  imports Intel_PT_Stack Intel_PT_Prefix
begin

text \<open>
  How the Intel PT decoder gets its packets (\<^verbatim>\<open>util/intel-pt-decoder/intel-pt-decoder.c\<close>): from the buffers of the client one after the other,
  and from \<open>temp_buf\<close> where a packet goes over the end of a buffer.
\<close>

section \<open>The code\<close>

definition ptr_add :: "u8 list \<Rightarrow> nat \<Rightarrow> u8 list option" where
  "ptr_add buf n = (if n \<le> length buf then Some (drop n buf) else None)"

definition memcpy_at :: "u8 list \<Rightarrow> nat \<Rightarrow> u8 list \<Rightarrow> nat \<Rightarrow> u8 list option" where
  "memcpy_at dst off src n =
     (if off + n \<le> length dst \<and> n \<le> length src then Some (take off dst @ take n src @ drop (off + n) dst) else None)"

text \<open>\<open>INTEL_PT_STATE_ERR1\<close> is the current state, so the state stays as it is.\<close>

definition intel_pt_bad_packet :: "('c, 'f) intel_pt_decoder \<Rightarrow> int \<times> ('c, 'f) intel_pt_decoder" where
  "intel_pt_bad_packet d = (- EBADMSG, (intel_pt_clear_tx_flags d) \<lparr>d_have_tma := False, d_pkt_len := 1, d_pkt_step := 1\<rparr>)"

definition intel_pt_get_data :: "('c, 'f) pt_env \<Rightarrow> ('c, 'f) intel_pt_decoder \<Rightarrow> int \<times> ('c, 'f) intel_pt_decoder" where
  "intel_pt_get_data env d =
     (let ((ret, buffer), data) = pe_get_trace env (d_data d);
          d = d \<lparr>d_pkt_step := 0, d_data := data\<rparr> in
      if ret \<noteq> 0 then (ret, d)
      else
        let d = d \<lparr>d_buf := b_buf buffer, d_in_temp := False, d_len := b_len buffer\<rparr> in
        if b_len buffer = 0 then (- ENODATA, d)
        else if \<not> b_consecutive buffer then
          (- ENOLINK, d \<lparr>d_ip := 0, d_pkt_state := INTEL_PT_STATE_NO_PSB, d_ref_timestamp := b_ref_timestamp buffer,
             d_timestamp := 0, d_have_tma := False, d_state := (d_state d) \<lparr>s_trace_nr := b_trace_nr buffer\<rparr>\<rparr>)
        else (0, d))"

definition intel_pt_get_next_data :: "('c, 'f) pt_env \<Rightarrow> ('c, 'f) intel_pt_decoder \<Rightarrow> int \<times> ('c, 'f) intel_pt_decoder" where
  "intel_pt_get_next_data env d = (case d_next_buf d of
     None \<Rightarrow> intel_pt_get_data env d
   | Some buf \<Rightarrow> (0, d \<lparr>d_buf := buf, d_in_temp := False, d_len := d_next_len d, d_next_buf := None, d_next_len := 0\<rparr>))"

text \<open>Copying \<open>temp_buf\<close> to itself would be undefined.\<close>

definition intel_pt_get_split_packet ::
  "('c, 'f) pt_env \<Rightarrow> ('c, 'f) intel_pt_decoder \<Rightarrow> (int \<times> ('c, 'f) intel_pt_decoder) option"
where
  "intel_pt_get_split_packet env d =
     (if d_in_temp d then None
      else do {
        let old_len = d_len d;
        temp \<leftarrow> memcpy_at (d_temp_buf d) 0 (d_buf d) old_len;
        let (ret, d) = intel_pt_get_data env (d \<lparr>d_temp_buf := temp\<rparr>);
        if ret \<noteq> 0 then Some (if ret < 0 then ret else - EINVAL, d \<lparr>d_pos := d_pos d + of_nat old_len\<rparr>)
        else do {
          let n = min (INTEL_PT_PKT_MAX_SZ - old_len) (d_len d);
          temp \<leftarrow> memcpy_at (d_temp_buf d) old_len (d_buf d) n;
          let d = d \<lparr>d_temp_buf := temp\<rparr>;
          (ret, packet) \<leftarrow> intel_pt_get_packet temp (old_len + n);
          let d = d \<lparr>d_packet := packet\<rparr>;
          if ret < int old_len then
            Some (intel_pt_bad_packet
              (d \<lparr>d_next_buf := Some (d_buf d), d_next_len := d_len d, d_buf := temp, d_in_temp := True, d_len := old_len\<rparr>))
          else do {
            let used = nat ret - old_len;
            next_buf \<leftarrow> ptr_add (d_buf d) used;
            Some (ret, d \<lparr>d_next_buf := Some next_buf, d_next_len := size_sub (d_len d) used, d_buf := temp, d_in_temp := True,
              d_len := nat ret\<rparr>)
          }
        }
      })"

record intel_pt_pkt_info =
  k_packet :: intel_pt_pkt
  k_pos :: u64
  k_pkt_len :: nat
  k_last_packet_type :: intel_pt_pkt_type

text \<open>
  The two loops of \<open>intel_pt_pkt_lookahead\<close> as one: padding goes back to the beginning without a call of the callback.  The callback works on a state of its own
  and the decoder, both in \<open>s\<close>.
\<close>

type_synonym 's lookahead_state = "u8 list \<times> nat \<times> intel_pt_pkt_info \<times> 's"

definition lookahead_body ::
  "('s \<Rightarrow> intel_pt_pkt_info \<Rightarrow> (int \<times> 's) option) \<Rightarrow> 's lookahead_state \<Rightarrow> ('s lookahead_state, int \<times> 's) control option"
where
  "lookahead_body cb = (\<lambda>(buf, len, info, s). do {
     let n = k_pkt_len info;
     let info = info \<lparr>k_pos := k_pos info + of_nat n\<rparr>;
     buf \<leftarrow> ptr_add buf n;
     let len = size_sub len n;
     if len = 0 then Some (Break (INTEL_PT_NEED_MORE_BYTES, s))
     else do {
       (ret, packet) \<leftarrow> intel_pt_get_packet buf len;
       if ret = 0 then Some (Break (INTEL_PT_NEED_MORE_BYTES, s))
       else if ret < 0 then Some (Break (ret, s))
       else do {
         let info = info \<lparr>k_packet := packet, k_pkt_len := nat ret\<rparr>;
         if pt_type packet = INTEL_PT_PAD then Some (Continue (buf, len, info, s))
         else do {
           (ret, s) \<leftarrow> cb s info;
           Some (if ret \<noteq> 0 then Break (0, s)
             else Continue (buf, len, info \<lparr>k_last_packet_type := pt_type packet\<rparr>, s))
         }
       }
     }
   })"

definition intel_pt_pkt_lookahead ::
  "('c, 'f) intel_pt_decoder \<Rightarrow> ('s \<Rightarrow> intel_pt_pkt_info \<Rightarrow> (int \<times> 's) option) \<Rightarrow> 's \<Rightarrow> (int \<times> 's) option"
where
  "intel_pt_pkt_lookahead d cb s = forever (lookahead_body cb) (d_buf d, d_len d,
     \<lparr>k_packet = zero_pkt, k_pos = d_pos d, k_pkt_len = d_pkt_step d, k_last_packet_type = d_last_packet_type d\<rparr>, s)"

definition next_packet_body :: "('c, 'f) pt_env \<Rightarrow> ('c, 'f) intel_pt_decoder \<Rightarrow> ('c, 'f) decode_control" where
  "next_packet_body env d = do {
     buf \<leftarrow> ptr_add (d_buf d) (d_pkt_step d);
     let d = d \<lparr>d_pos := d_pos d + of_nat (d_pkt_step d), d_buf := buf, d_len := size_sub (d_len d) (d_pkt_step d)\<rparr>;
     let (ret, d) = (if d_len d = 0 then intel_pt_get_next_data env d else (0, d));
     if ret \<noteq> 0 then Some (Break (ret, d))
     else do {
       (ret, packet) \<leftarrow> intel_pt_get_packet (d_buf d) (d_len d);
       let d = d \<lparr>d_packet := packet\<rparr>;
       let split = (ret = INTEL_PT_NEED_MORE_BYTES \<and> pe_long_bits env = 32 \<and> d_len d < INTEL_PT_PKT_MAX_SZ \<and> d_next_buf d = None);
       (ret, d) \<leftarrow> (if split then intel_pt_get_split_packet env d else Some (ret, d));
       if split \<and> ret < 0 then Some (Break (ret, d))
       else if ret \<le> 0 then Some (Break (intel_pt_bad_packet d))
       else
         let d = d \<lparr>d_pkt_len := nat ret, d_pkt_step := nat ret\<rparr> in
         Some (if pt_type (d_packet d) = INTEL_PT_PAD then Continue d else Break (0, d))
     }
   }"

definition intel_pt_get_next_packet ::
  "('c, 'f) pt_env \<Rightarrow> ('c, 'f) intel_pt_decoder \<Rightarrow> (int \<times> ('c, 'f) intel_pt_decoder) option"
where
  "intel_pt_get_next_packet env d = forever (next_packet_body env) (d \<lparr>d_last_packet_type := pt_type (d_packet d)\<rparr>)"

section \<open>The invariant\<close>

text \<open>
  The client: \<open>rank\<close> bounds the trace data that is left.  A buffer that is not empty has at least the size of the longest packet.
\<close>

definition trace_law :: "('c, 'f) pt_env \<Rightarrow> ('c \<Rightarrow> nat) \<Rightarrow> bool" where
  "trace_law env rank \<longleftrightarrow> (\<forall>c ret b c'. pe_get_trace env c = ((ret, b), c') \<longrightarrow>
     rank c' \<le> rank c \<and> (ret = 0 \<or> ret = - ENOMEM) \<and>
     (ret = 0 \<longrightarrow> b_len b \<le> length (b_buf b) \<and> b_len b < SIZE_RANGE \<and>
       (b_len b \<noteq> 0 \<longrightarrow> INTEL_PT_PKT_MAX_SZ \<le> b_len b \<and> rank c' + b_len b < rank c)))"

definition next_ok :: "('c, 'f) intel_pt_decoder \<Rightarrow> bool" where
  "next_ok d \<longleftrightarrow> (d_next_buf d = None \<longrightarrow> \<not> d_in_temp d) \<and>
     (\<forall>buf. d_next_buf d = Some buf \<longrightarrow> 0 < d_next_len d \<and> d_next_len d \<le> length buf \<and> d_next_len d < SIZE_RANGE)"

definition fetch_ok :: "('c, 'f) intel_pt_decoder \<Rightarrow> bool" where
  "fetch_ok d \<longleftrightarrow> d_pkt_step d \<le> d_len d \<and> d_len d \<le> length (d_buf d) \<and> d_len d < SIZE_RANGE \<and>
     length (d_temp_buf d) = INTEL_PT_PKT_MAX_SZ \<and> next_ok d"

text \<open>The bytes behind the current packet.\<close>

definition left :: "('c \<Rightarrow> nat) \<Rightarrow> ('c, 'f) intel_pt_decoder \<Rightarrow> nat" where
  "left rank d = d_len d - d_pkt_step d + (if d_next_buf d = None then 0 else d_next_len d) + rank (d_data d)"

text \<open>What fetching packets does not change.\<close>

definition side :: "('c, 'f) intel_pt_decoder \<Rightarrow> intel_pt_stack \<times> nat \<times> intel_pt_pkt" where
  "side d = (d_stack d, d_mtc_shift d, d_tnt d)"

lemma intel_pt_get_data_spec:
  assumes "trace_law env rank" and "intel_pt_get_data env d = (ret, d')"
  shows "rank (d_data d') \<le> rank (d_data d)" and "side d' = side d" and "d_pkt_step d' = 0" and "d_temp_buf d' = d_temp_buf d"
    and "d_next_buf d' = d_next_buf d" and "d_next_len d' = d_next_len d" and "ret = 0 \<or> ret = - ENOMEM \<or> ret = - ENODATA \<or> ret = - ENOLINK"
    and "ret \<noteq> - ENOLINK \<Longrightarrow> d_pkt_state d' = d_pkt_state d" and "ret = - ENOLINK \<Longrightarrow> d_pkt_state d' = INTEL_PT_STATE_NO_PSB"
    and "ret = - ENOMEM \<Longrightarrow> d_buf d' = d_buf d \<and> d_len d' = d_len d \<and> d_in_temp d' = d_in_temp d"
    and "ret \<noteq> - ENOMEM \<Longrightarrow> d_len d' \<le> length (d_buf d') \<and> d_len d' < SIZE_RANGE \<and> \<not> d_in_temp d'"
    and "ret = - ENODATA \<Longrightarrow> d_len d' = 0"
    and "ret = 0 \<or> ret = - ENOLINK \<Longrightarrow> INTEL_PT_PKT_MAX_SZ \<le> d_len d' \<and> rank (d_data d') + d_len d' < rank (d_data d)"
proof -
  obtain r b c where g: "pe_get_trace env (d_data d) = ((r, b), c)" by (metis prod.collapse)
  have law: "rank c \<le> rank (d_data d)" "r = 0 \<or> r = - ENOMEM"
      "r = 0 \<Longrightarrow> b_len b \<le> length (b_buf b) \<and> b_len b < SIZE_RANGE"
      "r = 0 \<Longrightarrow> b_len b \<noteq> 0 \<Longrightarrow> INTEL_PT_PKT_MAX_SZ \<le> b_len b \<and> rank c + b_len b < rank (d_data d)"
    using assms(1) g unfolding trace_law_def by blast+
  note d' = assms(2) [unfolded intel_pt_get_data_def g Let_def]
  show "rank (d_data d') \<le> rank (d_data d)" "side d' = side d" "d_pkt_step d' = 0" "d_temp_buf d' = d_temp_buf d"
      "d_next_buf d' = d_next_buf d" "d_next_len d' = d_next_len d"
    using d' law(1) by (auto simp: side_def split: if_splits)
  show "ret = 0 \<or> ret = - ENOMEM \<or> ret = - ENODATA \<or> ret = - ENOLINK" using d' law(2) by (auto split: if_splits)
  show "ret \<noteq> - ENOLINK \<Longrightarrow> d_pkt_state d' = d_pkt_state d" "ret = - ENOLINK \<Longrightarrow> d_pkt_state d' = INTEL_PT_STATE_NO_PSB"
    using d' law(2) by (auto split: if_splits)
  show "ret = - ENOMEM \<Longrightarrow> d_buf d' = d_buf d \<and> d_len d' = d_len d \<and> d_in_temp d' = d_in_temp d"
    using d' law(2) by (auto split: if_splits)
  show "ret \<noteq> - ENOMEM \<Longrightarrow> d_len d' \<le> length (d_buf d') \<and> d_len d' < SIZE_RANGE \<and> \<not> d_in_temp d'"
    using d' law(2,3) by (auto split: if_splits)
  show "ret = - ENODATA \<Longrightarrow> d_len d' = 0" using d' law(2) by (auto split: if_splits)
  show "ret = 0 \<or> ret = - ENOLINK \<Longrightarrow> INTEL_PT_PKT_MAX_SZ \<le> d_len d' \<and> rank (d_data d') + d_len d' < rank (d_data d)"
    using d' law(2,4) by (auto split: if_splits)
qed

definition ahead :: "('c \<Rightarrow> nat) \<Rightarrow> ('c, 'f) intel_pt_decoder \<Rightarrow> nat" where
  "ahead rank d = d_len d + (if d_next_buf d = None then 0 else d_next_len d) + rank (d_data d)"

text \<open>There is data for a packet; the step is not meaningful.\<close>

definition ready :: "('c, 'f) intel_pt_decoder \<Rightarrow> bool" where
  "ready d \<longleftrightarrow> 0 < d_len d \<and> d_len d \<le> length (d_buf d) \<and> d_len d < SIZE_RANGE \<and> length (d_temp_buf d) = INTEL_PT_PKT_MAX_SZ \<and> next_ok d"

text \<open>How fetching ends with an error.\<close>

definition fetch_error :: "('c \<Rightarrow> nat) \<Rightarrow> ('c, 'f) intel_pt_decoder \<Rightarrow> int \<Rightarrow> ('c, 'f) intel_pt_decoder \<Rightarrow> bool" where
  "fetch_error rank d ret d' \<longleftrightarrow> fetch_ok d' \<and> side d' = side d \<and> rank (d_data d') \<le> rank (d_data d) \<and>
     (ret = - ENOMEM \<or> ret = - ENODATA \<or> ret = - EBADMSG \<or> ret = - ENOLINK) \<and>
     (ret = - ENOLINK \<longrightarrow> rank (d_data d') < rank (d_data d) \<and> d_pkt_state d' = INTEL_PT_STATE_NO_PSB \<and> d_next_buf d' = None) \<and>
     (ret \<noteq> - ENOLINK \<longrightarrow> d_pkt_state d' = d_pkt_state d)"

lemma get_data_error:
  assumes "trace_law env rank" and "intel_pt_get_data env d = (ret, d')" and "ret \<noteq> 0" and "d_next_buf d = None"
    and "d_len d \<le> length (d_buf d)" "d_len d < SIZE_RANGE" "length (d_temp_buf d) = INTEL_PT_PKT_MAX_SZ" "\<not> d_in_temp d"
  shows "fetch_error rank d ret d'"
  using intel_pt_get_data_spec [OF assms(1,2)] assms(3-)
  by (cases "ret = - ENOLINK"; cases "ret = - ENOMEM") (auto simp: fetch_error_def fetch_ok_def next_ok_def)

lemma bad_packet_error:
  assumes "ready d"
  shows "fetch_error rank d (fst (intel_pt_bad_packet d)) (snd (intel_pt_bad_packet d))"
  using assms by (simp add: intel_pt_bad_packet_def fetch_error_def fetch_ok_def ready_def next_ok_def side_def intel_pt_clear_tx_flags_def)

lemma intel_pt_get_split_packet_spec:
  assumes "trace_law env rank" and "ready d" and "d_len d < INTEL_PT_PKT_MAX_SZ" and "d_next_buf d = None"
  shows "ends (intel_pt_get_split_packet env d) (\<lambda>(ret, d').
    if ret < 0 then fetch_error rank d ret d'
    else ready d' \<and> d_len d' = nat ret \<and> 0 < ret \<and> wf_pkt (d_packet d') \<and> ahead rank d' < ahead rank d \<and> side d' = side d \<and>
      rank (d_data d') \<le> rank (d_data d) \<and> d_pkt_state d' = d_pkt_state d)"
proof -
  let ?old = "d_len d"
  have r: "0 < ?old" "?old \<le> length (d_buf d)" "?old < SIZE_RANGE" "length (d_temp_buf d) = 16" "\<not> d_in_temp d"
    using assms(2,4) by (auto simp: ready_def next_ok_def)
  define temp where "temp = take ?old (d_buf d) @ drop ?old (d_temp_buf d)"
  have m1: "memcpy_at (d_temp_buf d) 0 (d_buf d) ?old = Some temp" "length temp = 16"
    using r assms(3) by (auto simp: memcpy_at_def temp_def)
  obtain ret d1 where g: "intel_pt_get_data env (d \<lparr>d_temp_buf := temp\<rparr>) = (ret, d1)" by (metis surj_pair)
  note s = intel_pt_get_data_spec [OF assms(1) g]
  show ?thesis
  proof (cases "ret = 0")
    case False
    have "fetch_error rank (d \<lparr>d_temp_buf := temp\<rparr>) ret d1"
      using get_data_error [OF assms(1) g False] r m1(2) assms(4) by simp
    then have "fetch_error rank d ret (d1 \<lparr>d_pos := d_pos d1 + of_nat ?old\<rparr>)"
      by (simp add: fetch_error_def fetch_ok_def next_ok_def side_def)
    moreover have "ret < 0" using s(7) False by auto
    ultimately show ?thesis using r m1(1) g False by (simp add: intel_pt_get_split_packet_def ends_simps Let_def)
  next
    case True
    have d1: "16 \<le> d_len d1" "d_len d1 \<le> length (d_buf d1)" "d_len d1 < SIZE_RANGE" "rank (d_data d1) + d_len d1 < rank (d_data d)"
        "d_temp_buf d1 = temp" "side d1 = side d" "d_pkt_state d1 = d_pkt_state d" "rank (d_data d1) \<le> rank (d_data d)"
      using s True by (auto simp: side_def)
    let ?n = "min (16 - ?old) (d_len d1)"
    have n: "?n = 16 - ?old" using d1(1) by simp
    define temp' where "temp' = take ?old temp @ take ?n (d_buf d1)"
    have m2: "memcpy_at temp ?old (d_buf d1) ?n = Some temp'" "length temp' = 16"
      using d1 m1(2) assms(3) n by (auto simp: memcpy_at_def temp'_def)
    have sum: "?old + ?n = 16" using n assms(3) by simp
    obtain ret' p where p: "intel_pt_get_packet temp' 16 = Some (ret', p)"
        "ret' = - 1 \<and> (16 :: nat) < 16 \<or> ret' = - 2 \<or> 0 < ret' \<and> ret' \<le> int 16 \<and> ret' \<le> 16 \<and> wf_pkt p"
      using intel_pt_get_packet_ok [of 16 temp'] m2(2) by (auto simp: pt_ok_def SIZE_RANGE_def)
    let ?d = "d1 \<lparr>d_temp_buf := temp', d_packet := p\<rparr>"
    show ?thesis
    proof (cases "ret' < int ?old")
      case True
      let ?b = "?d \<lparr>d_next_buf := Some (d_buf d1), d_next_len := d_len d1, d_buf := temp', d_in_temp := True, d_len := ?old\<rparr>"
      have "ready ?b" using d1 m2(2) r assms(3) by (simp add: ready_def next_ok_def)
      then have "fetch_error rank ?b (fst (intel_pt_bad_packet ?b)) (snd (intel_pt_bad_packet ?b))" by (rule bad_packet_error)
      then have "fetch_error rank d (fst (intel_pt_bad_packet ?b)) (snd (intel_pt_bad_packet ?b))"
        using d1(6,7,8) by (simp add: fetch_error_def side_def intel_pt_bad_packet_def)
      moreover have "intel_pt_get_split_packet env d = Some (intel_pt_bad_packet ?b)"
        using r m1(1) g \<open>ret = 0\<close> d1(5) m2(1) p(1) True unfolding intel_pt_get_split_packet_def by (simp add: Let_def sum)
      moreover have "fst (intel_pt_bad_packet ?b) < 0" by (simp add: intel_pt_bad_packet_def)
      ultimately show ?thesis by (simp add: ends_simps case_prod_beta)
    next
      case False
      then have ret': "int ?old \<le> ret'" "0 < ret'" "ret' \<le> 16" "wf_pkt p" using p(2) r(1) by auto
      let ?used = "nat ret' - ?old"
      let ?r = "?d \<lparr>d_next_buf := Some (drop ?used (d_buf d1)), d_next_len := d_len d1 - ?used, d_buf := temp', d_in_temp := True, d_len := nat ret'\<rparr>"
      have used: "?used < 16" "?used \<le> d_len d1" using ret' r(1) d1(1) by auto
      then have "ptr_add (d_buf d1) ?used = Some (drop ?used (d_buf d1))" "size_sub (d_len d1) ?used = d_len d1 - ?used"
        using d1 by (simp_all add: ptr_add_def)
      then have res: "intel_pt_get_split_packet env d = Some (ret', ?r)"
        using r m1(1) g \<open>ret = 0\<close> d1(5) m2(1) p(1) False unfolding intel_pt_get_split_packet_def by (simp add: Let_def sum)
      have "nat ret' \<le> 16" "?old \<le> nat ret'" "d_len d1 - ?used \<le> length (d_buf d1) - ?used" using ret' d1(2) by auto
      moreover have "nat ret' < SIZE_RANGE" "d_len d1 - ?used < SIZE_RANGE" using ret'(3) d1(3) by (auto simp: SIZE_RANGE_def)
      ultimately have "ready ?r" using ret'(2) used d1 m2(2) r(1) by (auto simp: ready_def next_ok_def)
      moreover have "ahead rank ?r < ahead rank d" using ret' used d1(1,4) assms(4) by (simp add: ahead_def)
      ultimately show ?thesis using res ret' d1 by (simp add: ends_simps side_def)
    qed
  qed
qed

lemma refill:
  assumes "trace_law env rank" and "fetch_ok d"
    and "d1 = d \<lparr>d_pos := d_pos d + of_nat (d_pkt_step d), d_buf := drop (d_pkt_step d) (d_buf d), d_len := d_len d - d_pkt_step d\<rparr>"
    and "(if d_len d1 = 0 then intel_pt_get_next_data env d1 else (0, d1)) = (ret, d2)"
  shows "ret \<noteq> 0 \<Longrightarrow> fetch_error rank d ret d2"
    and "ret = 0 \<Longrightarrow> ready d2 \<and> side d2 = side d \<and> ahead rank d2 \<le> left rank d \<and> rank (d_data d2) \<le> rank (d_data d) \<and> d_pkt_state d2 = d_pkt_state d"
proof -
  have d: "d_len d \<le> length (d_buf d)" "d_len d < SIZE_RANGE" "length (d_temp_buf d) = 16" "next_ok d" "d_pkt_step d \<le> d_len d"
    using assms(2) by (auto simp: fetch_ok_def)
  have d1: "d_len d1 \<le> length (d_buf d1)" "d_len d1 < SIZE_RANGE" "length (d_temp_buf d1) = 16" "d_data d1 = d_data d" "side d1 = side d"
      "d_next_buf d1 = d_next_buf d" "d_next_len d1 = d_next_len d" "d_in_temp d1 = d_in_temp d" "d_pkt_state d1 = d_pkt_state d" "d_len d1 = d_len d - d_pkt_step d"
    using d by (auto simp: assms(3) side_def)
  consider (full) "d_len d1 \<noteq> 0" | (trace) "d_len d1 = 0" "d_next_buf d = None" | (rest) buf where "d_len d1 = 0" "d_next_buf d = Some buf"
    by fastforce
  then have "(ret \<noteq> 0 \<longrightarrow> fetch_error rank d ret d2) \<and> (ret = 0 \<longrightarrow> ready d2 \<and> side d2 = side d \<and> ahead rank d2 \<le> left rank d \<and>
      rank (d_data d2) \<le> rank (d_data d) \<and> d_pkt_state d2 = d_pkt_state d)"
  proof cases
    case full
    then have "ret = 0" "d2 = d1" using assms(4) by auto
    then show ?thesis using full d1 d by (simp add: ready_def next_ok_def ahead_def left_def)
  next
    case trace
    then have g: "intel_pt_get_data env d1 = (ret, d2)" using assms(4) d1(6) by (simp add: intel_pt_get_next_data_def)
    have "\<not> d_in_temp d1" using trace d(4) d1(8) by (simp add: next_ok_def)
    then have "ret \<noteq> 0 \<longrightarrow> fetch_error rank d1 ret d2"
      using get_data_error [OF assms(1) g] trace d1 by simp
    moreover have "ret = 0 \<longrightarrow> ready d2 \<and> ahead rank d2 < rank (d_data d)"
      using intel_pt_get_data_spec [OF assms(1) g] d1 trace by (auto simp: ready_def next_ok_def ahead_def)
    ultimately show ?thesis using intel_pt_get_data_spec(1,2,8) [OF assms(1) g] d1(4,5,9)
      by (auto simp: fetch_error_def left_def)
  next
    case rest
    have "ret = 0" "d2 = d1 \<lparr>d_buf := buf, d_in_temp := False, d_len := d_next_len d, d_next_buf := None, d_next_len := 0\<rparr>"
      using assms(4) rest d1(6,7) by (simp_all add: intel_pt_get_next_data_def)
    then show ?thesis using rest d(4) d1(3,4,5,9) by (simp add: ready_def next_ok_def ahead_def left_def side_def)
  qed
  then show "ret \<noteq> 0 \<Longrightarrow> fetch_error rank d ret d2"
    and "ret = 0 \<Longrightarrow> ready d2 \<and> side d2 = side d \<and> ahead rank d2 \<le> left rank d \<and> rank (d_data d2) \<le> rank (d_data d) \<and> d_pkt_state d2 = d_pkt_state d"
    by blast+
qed

text \<open>What a call of \<open>intel_pt_get_next_packet\<close> gives.\<close>

definition fetched :: "('c \<Rightarrow> nat) \<Rightarrow> ('c, 'f) intel_pt_decoder \<Rightarrow> int \<times> ('c, 'f) intel_pt_decoder \<Rightarrow> bool" where
  "fetched rank d r \<longleftrightarrow> (case r of (ret, d') \<Rightarrow>
     (ret \<noteq> 0 \<longrightarrow> fetch_error rank d ret d') \<and>
     (ret = 0 \<longrightarrow> fetch_ok d' \<and> side d' = side d \<and> d_pkt_state d' = d_pkt_state d \<and> left rank d' < left rank d \<and>
       rank (d_data d') \<le> rank (d_data d) \<and> wf_pkt (d_packet d')))"

lemma next_packet_body_spec:
  assumes "trace_law env rank" and "fetch_ok d"
  shows "ends (next_packet_body env d)
    (loop_post (\<lambda>d'. fetch_ok d' \<and> side d' = side d \<and> d_pkt_state d' = d_pkt_state d \<and> rank (d_data d') \<le> rank (d_data d)) (left rank)
      (fetched rank d) (left rank d))"
proof -
  let ?d1 = "d \<lparr>d_pos := d_pos d + of_nat (d_pkt_step d), d_buf := drop (d_pkt_step d) (d_buf d), d_len := d_len d - d_pkt_step d\<rparr>"
  have step: "d_pkt_step d \<le> d_len d" "d_len d \<le> length (d_buf d)" "d_len d < SIZE_RANGE" using assms(2) by (auto simp: fetch_ok_def)
  then have adv: "ptr_add (d_buf d) (d_pkt_step d) = Some (drop (d_pkt_step d) (d_buf d))" "size_sub (d_len d) (d_pkt_step d) = d_len d - d_pkt_step d"
    by (auto simp: ptr_add_def)
  obtain ret d2 where g: "(if d_len ?d1 = 0 then intel_pt_get_next_data env ?d1 else (0, ?d1)) = (ret, d2)" by (metis surj_pair)
  note r = refill [OF assms refl g]
  show ?thesis
  proof (cases "ret = 0")
    case False
    then show ?thesis using r(1) g by (simp add: next_packet_body_def adv Let_def ends_simps fetched_def)
  next
    case True
    have d2: "ready d2" "side d2 = side d" "ahead rank d2 \<le> left rank d" "rank (d_data d2) \<le> rank (d_data d)" "d_pkt_state d2 = d_pkt_state d"
      using r(2) [OF True] by auto
    have len: "d_len d2 \<le> length (d_buf d2)" "d_len d2 < SIZE_RANGE" "0 < d_len d2" using d2(1) by (auto simp: ready_def)
    obtain ret' p where p: "intel_pt_get_packet (d_buf d2) (d_len d2) = Some (ret', p)"
        "ret' = - 1 \<and> d_len d2 < 16 \<or> ret' = - 2 \<or> 0 < ret' \<and> ret' \<le> int (d_len d2) \<and> ret' \<le> 16 \<and> wf_pkt p"
      using intel_pt_get_packet_ok [OF len(1,2)] by (auto simp: pt_ok_def)
    let ?d3 = "d2 \<lparr>d_packet := p\<rparr>"
    have d3: "ready ?d3" "side ?d3 = side d" "ahead rank ?d3 \<le> left rank d" "rank (d_data ?d3) \<le> rank (d_data d)" "d_pkt_state ?d3 = d_pkt_state d"
      using d2 by (simp_all add: ready_def next_ok_def side_def ahead_def split: if_splits)
    have err: "fetch_error rank d e d4" if "fetch_error rank ?d3 e d4" for e d4 using that d3 by (auto simp: fetch_error_def)
    have good: "fetch_ok (d4 \<lparr>d_pkt_len := nat n, d_pkt_step := nat n\<rparr>)" "left rank (d4 \<lparr>d_pkt_len := nat n, d_pkt_step := nat n\<rparr>) < ahead rank d4"
      if "ready d4" "0 < n" "n \<le> int (d_len d4)" for d4 n
      using that by (auto simp: ready_def fetch_ok_def next_ok_def left_def ahead_def)
    let ?split = "ret' = - 1 \<and> pe_long_bits env = 32 \<and> d_len d2 < 16 \<and> d_next_buf d2 = None"
    show ?thesis
    proof (cases ?split)
      case split: True
      have "ends (intel_pt_get_split_packet env ?d3) (\<lambda>(ret, d').
          if ret < 0 then fetch_error rank ?d3 ret d'
          else ready d' \<and> d_len d' = nat ret \<and> 0 < ret \<and> wf_pkt (d_packet d') \<and> ahead rank d' < ahead rank ?d3 \<and> side d' = side ?d3 \<and>
            rank (d_data d') \<le> rank (d_data ?d3) \<and> d_pkt_state d' = d_pkt_state ?d3)"
        using intel_pt_get_split_packet_spec [OF assms(1) d3(1)] split by simp
      then obtain n d4 where s: "intel_pt_get_split_packet env ?d3 = Some (n, d4)"
          "if n < 0 then fetch_error rank ?d3 n d4 else ready d4 \<and> d_len d4 = nat n \<and> 0 < n \<and> wf_pkt (d_packet d4) \<and>
            ahead rank d4 < ahead rank ?d3 \<and> side d4 = side ?d3 \<and> rank (d_data d4) \<le> rank (d_data ?d3) \<and> d_pkt_state d4 = d_pkt_state ?d3"
        by (auto simp: ends_def)
      show ?thesis
      proof (cases "n < 0")
        case True
        then show ?thesis using s(1) s(2) [unfolded if_P [OF True], THEN err] \<open>ret = 0\<close> g p(1) split
          by (simp add: next_packet_body_def adv Let_def ends_simps fetched_def)
      next
        case False
        then show ?thesis using s(1) s(2) [unfolded if_not_P [OF False]] good [of d4 n] d3 \<open>ret = 0\<close> g p(1) split
          by (simp add: next_packet_body_def adv Let_def ends_simps fetched_def side_def)
      qed
    next
      case False
      show ?thesis
      proof (cases "0 < ret'")
        case True
        then show ?thesis using good [of ?d3 ret'] p d3 \<open>ret = 0\<close> g False
          by (simp add: next_packet_body_def adv Let_def ends_simps fetched_def side_def)
      next
        case neg: False
        have "fetch_error rank d (fst (intel_pt_bad_packet ?d3)) (snd (intel_pt_bad_packet ?d3))" by (rule err [OF bad_packet_error [OF d3(1)]])
        moreover have "fst (intel_pt_bad_packet ?d3) \<noteq> 0" by (simp add: intel_pt_bad_packet_def)
        ultimately show ?thesis using neg p \<open>ret = 0\<close> g False
          by (auto simp: next_packet_body_def adv Let_def ends_simps fetched_def case_prod_beta)
      qed
    qed
  qed
qed

lemma intel_pt_get_next_packet_spec:
  assumes "trace_law env rank" and "fetch_ok d"
  shows "ends (intel_pt_get_next_packet env d) (fetched rank d)"
  unfolding intel_pt_get_next_packet_def
proof (rule forever_ends [where m = "left rank" and I = "\<lambda>d'. fetch_ok d' \<and> side d' = side d \<and> d_pkt_state d' = d_pkt_state d \<and>
    rank (d_data d') \<le> rank (d_data d) \<and> left rank d' \<le> left rank d"], goal_cases)
  case 1
  show "fetch_ok (d \<lparr>d_last_packet_type := pt_type (d_packet d)\<rparr>) \<and> side (d \<lparr>d_last_packet_type := pt_type (d_packet d)\<rparr>) = side d \<and>
      d_pkt_state (d \<lparr>d_last_packet_type := pt_type (d_packet d)\<rparr>) = d_pkt_state d \<and>
      rank (d_data (d \<lparr>d_last_packet_type := pt_type (d_packet d)\<rparr>)) \<le> rank (d_data d) \<and>
      left rank (d \<lparr>d_last_packet_type := pt_type (d_packet d)\<rparr>) \<le> left rank d"
    using assms(2) by (simp add: fetch_ok_def next_ok_def side_def left_def)
next
  case (2 s)
  then have s: "fetch_ok s \<and> side s = side d \<and> d_pkt_state s = d_pkt_state d \<and> rank (d_data s) \<le> rank (d_data d) \<and> left rank s \<le> left rank d" by blast
  have f: "fetched rank d r" if "fetched rank s r" for r using that s by (auto simp: fetched_def fetch_error_def)
  show "ends (next_packet_body env s) (loop_post (\<lambda>d'. fetch_ok d' \<and> side d' = side d \<and> d_pkt_state d' = d_pkt_state d \<and>
      rank (d_data d') \<le> rank (d_data d) \<and> left rank d' \<le> left rank d) (left rank) (fetched rank d) (left rank s))"
    by (rule ends_mono [OF next_packet_body_spec [OF assms(1)]]) (use s f in \<open>auto simp: loop_post_def split: control.splits\<close>)
qed

lemma intel_pt_pkt_lookahead_spec:
  assumes "fetch_ok d" and "J s" and cb: "\<And>s info. J s \<Longrightarrow> ends (cb s info) (\<lambda>(ret, s). J s)"
  shows "ends (intel_pt_pkt_lookahead d cb s) (\<lambda>(ret, s). J s)"
  unfolding intel_pt_pkt_lookahead_def
proof (rule forever_ends [where m = "\<lambda>(buf, len, info, s). len - k_pkt_len info" and
      I = "\<lambda>(buf, len, info, s). k_pkt_len info \<le> len \<and> len \<le> length buf \<and> len < SIZE_RANGE \<and> J s"], goal_cases)
  case 1
  then show ?case using assms(1,2) by (simp add: fetch_ok_def)
next
  case (2 x)
  obtain buf len info s where x: "x = (buf, len, info, s)" by (metis prod_cases4)
  have i: "k_pkt_len info \<le> len" "len \<le> length buf" "len < SIZE_RANGE" "J s" using 2 x by auto
  let ?buf = "drop (k_pkt_len info) buf" and ?len = "len - k_pkt_len info"
  have adv: "ptr_add buf (k_pkt_len info) = Some ?buf" "size_sub len (k_pkt_len info) = ?len" using i by (auto simp: ptr_add_def)
  have len: "?len \<le> length ?buf" "?len < SIZE_RANGE" using i by auto
  obtain ret p where p: "intel_pt_get_packet ?buf ?len = Some (ret, p)"
      "ret = - 1 \<and> ?len < 16 \<or> ret = - 2 \<or> 0 < ret \<and> ret \<le> int ?len \<and> ret \<le> 16 \<and> wf_pkt p"
    using intel_pt_get_packet_ok [OF len] by (auto simp: pt_ok_def)
  show ?case using p i unfolding x
    by (auto simp: lookahead_body_def adv Let_def ends_simps intro!: ends_mono [OF cb [OF i(4)]])
qed

section \<open>Frames\<close>

text \<open>
  The fields that the invariant, the position in the trace and the current packet depend on.  Most functions of the decoder leave them
  alone.
\<close>

definition core where
  "core d = ((d_data d, d_buf d, d_in_temp d, d_len d, d_pkt_step d, d_next_buf d, d_next_len d), d_temp_buf d, d_stack d, d_mtc_shift d,
     d_tnt d, d_pkt_state d, d_packet d)"

named_theorems frames \<open>functions that leave the core alone\<close>

lemma core_cong:
  assumes "core d' = core d"
  shows "fetch_ok d' = fetch_ok d" and "left rank d' = left rank d" and "side d' = side d" and "d_data d' = d_data d"
    and "d_pkt_state d' = d_pkt_state d" and "d_packet d' = d_packet d" and "d_tnt d' = d_tnt d"
    and "d_stack d' = d_stack d" and "d_mtc_shift d' = d_mtc_shift d"
  using assms by (auto simp: core_def fetch_ok_def next_ok_def left_def side_def)

lemma core_helpers [frames]:
  "core (intel_pt_set_last_ip d) = core d" "core (intel_pt_set_ip d) = core d" "core (intel_pt_clear_tx_flags d) = core d"
  "core (intel_pt_update_in_tx d) = core d"
  by (simp_all add: core_def intel_pt_set_last_ip_def intel_pt_set_ip_def intel_pt_clear_tx_flags_def intel_pt_update_in_tx_def Let_def)

end
