(* ===== verification/Intel_PT_Time.thy ===== *)
theory Intel_PT_Time
  imports Intel_PT_Fetch
begin

text \<open>
  The clock of the Intel PT decoder (\<^verbatim>\<open>util/intel-pt-decoder/intel-pt-decoder.c\<close>): the time stamp is set by TSC packets, which have its
  low 56 bits, and advanced by MTC packets, which have 8 bits of the crystal clock, and by CYC packets, which count cycles.
\<close>

section \<open>The code\<close>

text \<open>A shift by a negative number is undefined.\<close>

definition intel_pt_fixup_last_mtc :: "u32 \<Rightarrow> nat \<Rightarrow> u32 \<Rightarrow> u32 option" where
  "intel_pt_fixup_last_mtc mtc mtc_shift last_mtc =
     (if mtc_shift > 16 then None
      else
        let first_missing_bit = push_bit (16 - mtc_shift) 1;
            m = NOT (first_missing_bit - 1);
            last_mtc = last_mtc OR (mtc AND m) in
        Some (if last_mtc \<ge> mtc then (last_mtc - first_missing_bit) AND 0xff else last_mtc))"

text \<open>The steps of the clock that \<open>intel_pt_calc_cyc_cb\<close> and the functions below have in common.\<close>

definition last_mtc_for :: "('c, 'f) intel_pt_decoder \<Rightarrow> u32 \<Rightarrow> bool \<Rightarrow> u32 \<Rightarrow> (u32 \<times> bool) option" where
  "last_mtc_for d mtc fixup last_mtc =
     (if d_mtc_shift d > 8 \<and> fixup then do { l \<leftarrow> intel_pt_fixup_last_mtc mtc (d_mtc_shift d) last_mtc; Some (l, False) }
      else Some (last_mtc, fixup))"

definition mtc_delta :: "u32 \<Rightarrow> u32 \<Rightarrow> u32" where
  "mtc_delta mtc last_mtc = (if mtc > last_mtc then mtc - last_mtc else mtc + 256 - last_mtc)"

definition ctc_to_tsc :: "('c, 'f) intel_pt_decoder \<Rightarrow> u64 \<Rightarrow> u64" where
  "ctc_to_tsc d delta =
     (if d_tsc_ctc_mult d \<noteq> 0 then delta * ucast (d_tsc_ctc_mult d)
      else multdiv delta (d_tsc_ctc_ratio_n d) (d_tsc_ctc_ratio_d d))"

text \<open>The last MTC and the time stamp of a TMA packet; the product is one of 32 bits.\<close>

definition tma_clock :: "('c, 'f) intel_pt_decoder \<Rightarrow> u64 \<Rightarrow> intel_pt_pkt \<Rightarrow> u32 \<times> u64" where
  "tma_clock d tsc_timestamp packet =
     (let ctc = ucast (pt_payload packet) :: u32;
          fc = word_of_int (pt_count packet) :: u32;
          ctc_rem = ctc AND d_ctc_rem_mask d in
      (drop_bit (d_mtc_shift d) ctc AND 0xff,
       tsc_timestamp - ucast fc -
         (if d_tsc_ctc_mult d \<noteq> 0 then ucast (ctc_rem * d_tsc_ctc_mult d)
          else multdiv (ucast ctc_rem) (d_tsc_ctc_ratio_n d) (d_tsc_ctc_ratio_d d))))"

record 'f intel_pt_calc_cyc_to_tsc_info =
  c_cycle_cnt :: u64
  c_cbr :: u32
  c_last_mtc :: u32
  c_ctc_timestamp :: u64
  c_ctc_delta :: u64
  c_tsc_timestamp :: u64
  c_timestamp :: u64
  c_have_tma :: bool
  c_fixup_last_mtc :: bool
  c_from_mtc :: bool
  c_cbr_cyc_to_tsc :: 'f

text \<open>The code behind the \<open>switch\<close>, for a packet that gives the time stamp \<open>timestamp\<close>.\<close>

definition calc_cyc_end ::
  "'f fp \<Rightarrow> u64 \<Rightarrow> 'f intel_pt_calc_cyc_to_tsc_info \<times> ('c, 'f) intel_pt_decoder \<Rightarrow>
    int \<times> 'f intel_pt_calc_cyc_to_tsc_info \<times> ('c, 'f) intel_pt_decoder"
where
  "calc_cyc_end fp timestamp s =
     (let (data, d) = s;
          data = (if c_cbr data = 0 \<and> d_cbr d \<noteq> 0 then data \<lparr>c_cbr := d_cbr d, c_cbr_cyc_to_tsc := d_cbr_cyc_to_tsc d\<rparr> else data) in
      if c_cycle_cnt data = 0 then (1, data, d)
      else
        let cyc_to_tsc = fp_div fp (fp_of fp (timestamp - d_timestamp d)) (fp_of fp (c_cycle_cnt data)) in
        if c_cbr data \<noteq> 0 \<and> fp_gt fp cyc_to_tsc (c_cbr_cyc_to_tsc data) \<and>
           fp_gt fp (fp_div fp cyc_to_tsc (c_cbr_cyc_to_tsc data)) (fp_1_25 fp)
        then (1, data, d)
        else (1, data, d \<lparr>d_calc_cyc_to_tsc := cyc_to_tsc, d_have_calc_cyc_to_tsc := True\<rparr>))"

definition calc_cyc_mtc ::
  "'f fp \<Rightarrow> intel_pt_pkt_info \<Rightarrow> 'f intel_pt_calc_cyc_to_tsc_info \<times> ('c, 'f) intel_pt_decoder \<Rightarrow>
    (int \<times> 'f intel_pt_calc_cyc_to_tsc_info \<times> ('c, 'f) intel_pt_decoder) option"
where
  "calc_cyc_mtc fp pkt_info s =
     (let (data, d) = s in
      if \<not> c_have_tma data then Some (0, data, d)
      else do {
        let mtc = ucast (pt_payload (k_packet pkt_info));
        (last_mtc, fixup) \<leftarrow> last_mtc_for d mtc (c_fixup_last_mtc data) (c_last_mtc data);
        let data = data \<lparr>c_fixup_last_mtc := fixup,
          c_ctc_delta := c_ctc_delta data + ucast (push_bit (d_mtc_shift d) (mtc_delta mtc last_mtc)), c_last_mtc := mtc\<rparr>;
        let timestamp = c_ctc_timestamp data + ctc_to_tsc d (c_ctc_delta data);
        if timestamp < c_timestamp data then Some (1, data, d)
        else if k_last_packet_type pkt_info \<noteq> INTEL_PT_CYC then Some (0, data \<lparr>c_timestamp := timestamp\<rparr>, d)
        else Some (calc_cyc_end fp timestamp (data, d))
      })"

definition calc_cyc_tsc ::
  "'f fp \<Rightarrow> intel_pt_pkt_info \<Rightarrow> 'f intel_pt_calc_cyc_to_tsc_info \<times> ('c, 'f) intel_pt_decoder \<Rightarrow>
    int \<times> 'f intel_pt_calc_cyc_to_tsc_info \<times> ('c, 'f) intel_pt_decoder"
where
  "calc_cyc_tsc fp pkt_info s =
     (let (data, d) = s in
      if c_from_mtc data then (1, data, d)
      else
        let timestamp = pt_payload (k_packet pkt_info) OR (c_timestamp data AND push_bit 56 0xff) in
        if c_from_mtc data \<and> timestamp < c_timestamp data \<and> c_timestamp data - timestamp < ucast (d_tsc_slip d) then (1, data, d)
        else
          let timestamp = (if timestamp < c_timestamp data then timestamp + push_bit 56 1 else timestamp) in
          if k_last_packet_type pkt_info \<noteq> INTEL_PT_CYC then
            (if c_from_mtc data then (1, data, d)
             else (0, data \<lparr>c_tsc_timestamp := timestamp, c_timestamp := timestamp\<rparr>, d))
          else calc_cyc_end fp timestamp (data, d))"

definition calc_cyc_tma ::
  "intel_pt_pkt_info \<Rightarrow> 'f intel_pt_calc_cyc_to_tsc_info \<times> ('c, 'f) intel_pt_decoder \<Rightarrow>
    int \<times> 'f intel_pt_calc_cyc_to_tsc_info \<times> ('c, 'f) intel_pt_decoder"
where
  "calc_cyc_tma pkt_info s =
     (let (data, d) = s in
      if c_from_mtc data then (1, data, d)
      else if d_tsc_ctc_ratio_d d = 0 then (0, data, d)
      else
        let (last_mtc, ctc_timestamp) = tma_clock d (c_tsc_timestamp data) (k_packet pkt_info) in
        (0, data \<lparr>c_last_mtc := last_mtc, c_ctc_timestamp := ctc_timestamp, c_ctc_delta := 0, c_have_tma := True,
           c_fixup_last_mtc := True\<rparr>, d))"

definition calc_cyc_cbr ::
  "'f fp \<Rightarrow> intel_pt_pkt_info \<Rightarrow> 'f intel_pt_calc_cyc_to_tsc_info \<times> ('c, 'f) intel_pt_decoder \<Rightarrow>
    int \<times> 'f intel_pt_calc_cyc_to_tsc_info \<times> ('c, 'f) intel_pt_decoder"
where
  "calc_cyc_cbr fp pkt_info s =
     (let (data, d) = s;
          cbr = ucast (pt_payload (k_packet pkt_info)) in
      if c_cbr data \<noteq> 0 \<and> c_cbr data \<noteq> cbr then (1, data, d)
      else (0, data \<lparr>c_cbr := cbr, c_cbr_cyc_to_tsc := fp_div fp (d_max_non_turbo_ratio_fp d) (fp_of fp (ucast cbr))\<rparr>, d))"

definition intel_pt_calc_cyc_cb ::
  "'f fp \<Rightarrow> 'f intel_pt_calc_cyc_to_tsc_info \<times> ('c, 'f) intel_pt_decoder \<Rightarrow> intel_pt_pkt_info \<Rightarrow>
    (int \<times> 'f intel_pt_calc_cyc_to_tsc_info \<times> ('c, 'f) intel_pt_decoder) option"
where
  "intel_pt_calc_cyc_cb fp s pkt_info =
     (let type = pt_type (k_packet pkt_info) in
      if type \<in> {INTEL_PT_TNT, INTEL_PT_TIP_PGE, INTEL_PT_TIP, INTEL_PT_FUP, INTEL_PT_PSB, INTEL_PT_PIP, INTEL_PT_MODE_EXEC,
        INTEL_PT_MODE_TSX, INTEL_PT_PSBEND, INTEL_PT_PAD, INTEL_PT_VMCS, INTEL_PT_MNT, INTEL_PT_PTWRITE, INTEL_PT_PTWRITE_IP}
      then Some (0, s)
      else if type = INTEL_PT_MTC then calc_cyc_mtc fp pkt_info s
      else if type = INTEL_PT_TSC then Some (calc_cyc_tsc fp pkt_info s)
      else if type = INTEL_PT_TMA then Some (calc_cyc_tma pkt_info s)
      else if type = INTEL_PT_CYC then
        Some (0, (fst s) \<lparr>c_cycle_cnt := c_cycle_cnt (fst s) + pt_payload (k_packet pkt_info)\<rparr>, snd s)
      else if type = INTEL_PT_CBR then Some (calc_cyc_cbr fp pkt_info s)
      else Some (1, s))"

definition intel_pt_calc_cyc_to_tsc ::
  "'f fp \<Rightarrow> ('c, 'f) intel_pt_decoder \<Rightarrow> bool \<Rightarrow> ('c, 'f) intel_pt_decoder option"
where
  "intel_pt_calc_cyc_to_tsc fp d from_mtc =
     (if \<not> from_mtc then Some d
      else do {
        let data = \<lparr>c_cycle_cnt = 0, c_cbr = 0, c_last_mtc = d_last_mtc d, c_ctc_timestamp = d_ctc_timestamp d,
          c_ctc_delta = d_ctc_delta d, c_tsc_timestamp = d_tsc_timestamp d, c_timestamp = d_timestamp d,
          c_have_tma = d_have_tma d, c_fixup_last_mtc = d_fixup_last_mtc d, c_from_mtc = from_mtc,
          c_cbr_cyc_to_tsc = fp_of fp 0\<rparr>;
        (ret, data, d) \<leftarrow> intel_pt_pkt_lookahead d (intel_pt_calc_cyc_cb fp) (data, d);
        Some d
      })"

text \<open>What the TSC and the MTC packets do when a CYC packet precedes them.\<close>

definition restart_cyc :: "'f fp \<Rightarrow> ('c, 'f) intel_pt_decoder \<Rightarrow> bool \<Rightarrow> ('c, 'f) intel_pt_decoder option" where
  "restart_cyc fp d from_mtc =
     (if d_last_packet_type d = INTEL_PT_CYC then
        intel_pt_calc_cyc_to_tsc fp
          (d \<lparr>d_cyc_ref_timestamp := d_timestamp d, d_cycle_cnt := 0, d_have_calc_cyc_to_tsc := False\<rparr>) from_mtc
      else Some d)"

text \<open>The two branches of \<open>intel_pt_calc_tsc_timestamp\<close>.\<close>

definition tsc_from_ref :: "u64 \<Rightarrow> u64 \<Rightarrow> u64" where
  "tsc_from_ref payload ref =
     (let timestamp = payload OR (ref AND push_bit 56 0xff) in
      if timestamp < ref then (if ref - timestamp > push_bit 55 1 then timestamp + push_bit 56 1 else timestamp)
      else (if timestamp - ref > push_bit 55 1 then timestamp - push_bit 56 1 else timestamp))"

definition tsc_from_last :: "u64 \<Rightarrow> u64 \<Rightarrow> u64 \<Rightarrow> u64 \<times> u64" where
  "tsc_from_last payload prev slip =
     (let tsc = payload OR (prev AND push_bit 56 0xff);
          timestamp = (if tsc < prev \<and> prev - tsc < slip then prev else tsc) in
      if timestamp < prev then (timestamp + push_bit 56 1, timestamp + push_bit 56 1) else (tsc, timestamp))"

definition intel_pt_calc_tsc_timestamp ::
  "'f fp \<Rightarrow> ('c, 'f) intel_pt_decoder \<Rightarrow> ('c, 'f) intel_pt_decoder option"
where
  "intel_pt_calc_tsc_timestamp fp d = do {
     let d = d \<lparr>d_have_tma := False\<rparr>;
     let payload = pt_payload (d_packet d);
     let d =
       (if d_ref_timestamp d \<noteq> 0 then
          let timestamp = tsc_from_ref payload (d_ref_timestamp d) in
          d \<lparr>d_tsc_timestamp := timestamp, d_timestamp := timestamp, d_ref_timestamp := 0, d_timestamp_insn_cnt := 0\<rparr>
        else if d_timestamp d \<noteq> 0 then
          let (tsc, timestamp) = tsc_from_last payload (d_timestamp d) (ucast (d_tsc_slip d)) in
          d \<lparr>d_tsc_timestamp := tsc, d_timestamp := timestamp, d_timestamp_insn_cnt := 0\<rparr>
        else d);
     restart_cyc fp d False
   }"

definition intel_pt_calc_tma :: "('c, 'f) intel_pt_decoder \<Rightarrow> ('c, 'f) intel_pt_decoder" where
  "intel_pt_calc_tma d =
     (if d_tsc_ctc_ratio_d d = 0 then d
      else
        let (last_mtc, ctc_timestamp) = tma_clock d (d_tsc_timestamp d) (d_packet d) in
        d \<lparr>d_last_mtc := last_mtc, d_ctc_timestamp := ctc_timestamp, d_ctc_delta := 0, d_have_tma := True,
          d_fixup_last_mtc := True\<rparr>)"

definition intel_pt_calc_mtc_timestamp ::
  "'f fp \<Rightarrow> ('c, 'f) intel_pt_decoder \<Rightarrow> ('c, 'f) intel_pt_decoder option"
where
  "intel_pt_calc_mtc_timestamp fp d =
     (if \<not> d_have_tma d then Some d
      else do {
        let mtc = ucast (pt_payload (d_packet d));
        (last_mtc, fixup) \<leftarrow> last_mtc_for d mtc (d_fixup_last_mtc d) (d_last_mtc d);
        let d = d \<lparr>d_fixup_last_mtc := fixup,
          d_ctc_delta := d_ctc_delta d + ucast (push_bit (d_mtc_shift d) (mtc_delta mtc last_mtc))\<rparr>;
        let timestamp = d_ctc_timestamp d + ctc_to_tsc d (d_ctc_delta d);
        restart_cyc fp (d \<lparr>d_timestamp := (if timestamp < d_timestamp d then d_timestamp d else timestamp),
          d_timestamp_insn_cnt := 0, d_last_mtc := mtc\<rparr>) True
      })"

definition intel_pt_calc_cbr :: "'f fp \<Rightarrow> ('c, 'f) intel_pt_decoder \<Rightarrow> ('c, 'f) intel_pt_decoder" where
  "intel_pt_calc_cbr fp d =
     (let cbr = ucast (pt_payload (d_packet d) AND 0xff);
          d = d \<lparr>d_cbr_payload := pt_payload (d_packet d)\<rparr> in
      if d_cbr d = cbr then d
      else d \<lparr>d_cbr := cbr, d_cbr_cyc_to_tsc := fp_div fp (d_max_non_turbo_ratio_fp d) (fp_of fp (ucast cbr))\<rparr>)"

text \<open>The sum and the product are taken in \<open>double\<close> and converted back.\<close>

definition intel_pt_calc_cyc_timestamp :: "'f fp \<Rightarrow> ('c, 'f) intel_pt_decoder \<Rightarrow> ('c, 'f) intel_pt_decoder" where
  "intel_pt_calc_cyc_timestamp fp d =
     (let d = d \<lparr>d_have_cyc := True, d_cycle_cnt := d_cycle_cnt d + pt_payload (d_packet d)\<rparr> in
      if d_cyc_ref_timestamp d = 0 then d
      else if \<not> d_have_calc_cyc_to_tsc d \<and> d_cbr d = 0 then d
      else
        let ratio = (if d_have_calc_cyc_to_tsc d then d_calc_cyc_to_tsc d else d_cbr_cyc_to_tsc d);
            timestamp = fp_to fp (fp_add fp (fp_of fp (d_cyc_ref_timestamp d)) (fp_mul fp (fp_of fp (d_cycle_cnt d)) ratio)) in
        d \<lparr>d_timestamp := (if timestamp < d_timestamp d then d_timestamp d else timestamp), d_timestamp_insn_cnt := 0\<rparr>)"

section \<open>The clock is defined\<close>

lemma core_calc [frames]:
  "core (intel_pt_calc_tma d) = core d" "core (intel_pt_calc_cbr fp d) = core d" "core (intel_pt_calc_cyc_timestamp fp d) = core d"
  by (simp_all add: core_def intel_pt_calc_tma_def intel_pt_calc_cbr_def intel_pt_calc_cyc_timestamp_def Let_def split: prod.splits)

lemma last_mtc_for_ends: "d_mtc_shift d \<le> 16 \<Longrightarrow> ends (last_mtc_for d mtc fixup l) (\<lambda>_. True)"
  by (simp add: last_mtc_for_def intel_pt_fixup_last_mtc_def ends_simps Let_def)

text \<open>Looking ahead changes only the estimated length of a cycle.\<close>

definition clock where
  "clock d = (core d, d_timestamp d, d_last_mtc d, d_ctc_delta d, d_ctc_timestamp d, d_tsc_timestamp d, d_have_tma d, d_fixup_last_mtc d,
     d_tsc_ctc_mult d, d_tsc_ctc_ratio_n d, d_tsc_ctc_ratio_d d)"

lemma clock_core: "clock d' = clock d \<Longrightarrow> core d' = core d"
  by (simp add: clock_def)

lemma clock_cyc_end: "clock (snd (snd (calc_cyc_end fp t s))) = clock (snd s)"
  by (cases s) (simp add: calc_cyc_end_def clock_def core_def Let_def)

lemma calc_cyc_cb_ends:
  assumes "d_mtc_shift (snd s) \<le> 16"
  shows "ends (intel_pt_calc_cyc_cb fp s info) (\<lambda>(ret, s'). clock (snd s') = clock (snd s))"
proof -
  obtain data d where s: "s = (data, d)" by (cases s)
  have "ends (calc_cyc_mtc fp info s) (\<lambda>(ret, s'). clock (snd s') = clock (snd s))"
    using last_mtc_for_ends [of d] assms s
    by (auto simp: calc_cyc_mtc_def ends_simps Let_def clock_cyc_end case_prod_beta intro!: ends_mono [OF last_mtc_for_ends [of d]])
  moreover have "clock (snd (snd (calc_cyc_tsc fp info s))) = clock (snd s)"
    by (simp add: s calc_cyc_tsc_def Let_def clock_cyc_end)
  moreover have "clock (snd (snd (calc_cyc_tma info s))) = clock (snd s)" "clock (snd (snd (calc_cyc_cbr fp info s))) = clock (snd s)"
    by (simp_all add: s calc_cyc_tma_def calc_cyc_cbr_def Let_def case_prod_beta)
  ultimately show ?thesis by (simp add: intel_pt_calc_cyc_cb_def ends_simps Let_def case_prod_beta)
qed

lemma restart_cyc_ends:
  assumes "fetch_ok d" and "d_mtc_shift d \<le> 16"
  shows "ends (restart_cyc fp d b) (\<lambda>d'. clock d' = clock d)"
proof -
  let ?d = "d \<lparr>d_cyc_ref_timestamp := d_timestamp d, d_cycle_cnt := 0, d_have_calc_cyc_to_tsc := False\<rparr>"
  have c: "clock ?d = clock d" by (simp add: clock_def core_def)
  have "ends (intel_pt_pkt_lookahead ?d (intel_pt_calc_cyc_cb fp) s) (\<lambda>(ret, s). clock (snd s) = clock d)" if "clock (snd s) = clock d" for s
  proof (rule intel_pt_pkt_lookahead_spec)
    show "fetch_ok ?d" using assms(1) core_cong(1) [OF clock_core [OF c]] by simp
    show "clock (snd s) = clock d" by (rule that)
    show "ends (intel_pt_calc_cyc_cb fp s info) (\<lambda>(ret, s). clock (snd s) = clock d)" if "clock (snd s) = clock d" for s info
      using calc_cyc_cb_ends [of s fp info] core_cong(9) [OF clock_core [OF that]] assms(2) that by simp
  qed
  then have "ends (intel_pt_pkt_lookahead ?d (intel_pt_calc_cyc_cb fp) (data, ?d)) (\<lambda>x. clock (snd (snd x)) = clock d)" for data
    using c by (fastforce intro: ends_mono)
  then show ?thesis using c by (simp add: restart_cyc_def intel_pt_calc_cyc_to_tsc_def ends_simps Let_def case_prod_beta)
qed

lemma calc_timestamp_ends:
  assumes "fetch_ok d" and "d_mtc_shift d \<le> 16"
  shows "ends (intel_pt_calc_tsc_timestamp fp d) (\<lambda>d'. core d' = core d)" "ends (intel_pt_calc_mtc_timestamp fp d) (\<lambda>d'. core d' = core d)"
proof -
  have r: "ends (restart_cyc fp d1 b) (\<lambda>d'. core d' = core d)" if "core d1 = core d" for d1 b
    by (rule ends_mono [OF restart_cyc_ends]) (use assms core_cong(1,9) [OF that] clock_core that in \<open>simp_all add: clock_def\<close>)
  show "ends (intel_pt_calc_tsc_timestamp fp d) (\<lambda>d'. core d' = core d)"
    unfolding intel_pt_calc_tsc_timestamp_def Let_def
    by (rule r) (simp add: core_def case_prod_beta)
  show "ends (intel_pt_calc_mtc_timestamp fp d) (\<lambda>d'. core d' = core d)"
    by (auto simp: intel_pt_calc_mtc_timestamp_def ends_simps Let_def case_prod_beta intro!: ends_mono [OF last_mtc_for_ends [OF assms(2)]] r)
      (simp_all add: core_def)
qed

section \<open>The time of a TSC packet\<close>

lemma high_mask: "push_bit 56 0xff = (NOT (mask 56) :: u64)"
  by (simp add: mask_eq_exp_minus_1)

lemma unat_low: "unat (t AND mask n) = unat t mod 2 ^ n"
proof -
  have "t AND mask n = take_bit n t" by (simp add: take_bit_eq_mask)
  then have "unat (t AND mask n) = take_bit n (unat t)" by (simp only: unsigned_take_bit_eq)
  then show ?thesis by (simp only: take_bit_eq_mod)
qed

lemma split_word: "(r AND mask n) + (r AND NOT (mask n)) = (r :: 'a::len word)"
proof -
  have "(r AND mask n) + (r AND NOT (mask n)) = (r AND mask n) OR (r AND NOT (mask n))"
    by (rule disjunctive_add) (simp add: bit_simps)
  also have "\<dots> = r" by (rule bit_word_eqI) (auto simp: bit_simps)
  finally show ?thesis .
qed

lemma unat_high: "unat (r AND push_bit 56 0xff :: u64) = unat r - unat r mod 2 ^ 56"
proof -
  have "r AND NOT (mask 56) = r - (r AND mask 56)" using split_word [of r 56] by (metis add_diff_cancel_left')
  moreover have "unat (r AND mask 56) \<le> unat r" by (simp only: unat_low mod_less_eq_dividend)
  ultimately show ?thesis by (simp only: high_mask unat_sub word_le_nat_alt unat_low)
qed

lemma unat_u64: "unat (x :: u64) < 2 ^ 64"
  using unsigned_less [of x] by simp

lemma unat_u32: "unat (x :: u32) < 2 ^ 32"
  using unsigned_less [of x] by simp

lemma unat_join: "unat ((t AND mask 56) OR (r AND push_bit 56 0xff) :: u64) = unat t mod 2 ^ 56 + (unat r - unat r mod 2 ^ 56)"
proof -
  have j: "(t AND mask 56) + (r AND push_bit 56 0xff) = (t AND mask 56) OR (r AND push_bit 56 0xff)"
    unfolding high_mask by (rule disjunctive_add) (simp add: bit_simps)
  have "unat r - unat r mod 2 ^ 56 = unat r div 2 ^ 56 * 2 ^ 56" by (simp only: minus_mod_eq_div_mult)
  moreover have "unat r div 2 ^ 56 < 2 ^ 8" using unat_u64 [of r] by (intro less_mult_imp_div_less) simp
  moreover have "unat t mod 2 ^ 56 < 2 ^ 56" by simp
  ultimately have "unat t mod 2 ^ 56 + (unat r - unat r mod 2 ^ 56) < 2 ^ 64" by simp
  then have "(unat t mod 2 ^ 56 + (unat r - unat r mod 2 ^ 56)) mod 2 ^ 64 = unat t mod 2 ^ 56 + (unat r - unat r mod 2 ^ 56)" by (rule mod_less)
  then show ?thesis unfolding j [symmetric] unat_word_ariths unat_low unat_high by simp
qed


text \<open>The nearest number with the given low bits.\<close>

lemma near:
  fixes t r :: nat
  assumes "t < r + 2 ^ 55" and "r < t + 2 ^ 55"
  defines "j \<equiv> t mod 2 ^ 56 + (r - r mod 2 ^ 56)"
  shows "j < r \<Longrightarrow> r - j > 2 ^ 55 \<Longrightarrow> t = j + 2 ^ 56" and "j < r \<Longrightarrow> \<not> r - j > 2 ^ 55 \<Longrightarrow> t = j"
    and "\<not> j < r \<Longrightarrow> j - r > 2 ^ 55 \<Longrightarrow> t + 2 ^ 56 = j" and "\<not> j < r \<Longrightarrow> \<not> j - r > 2 ^ 55 \<Longrightarrow> t = j"
proof -
  define a b x y where v: "a = t div 2 ^ 56" "b = r div 2 ^ 56" "x = t mod 2 ^ 56" "y = r mod 2 ^ 56"
  have t: "t = a * 2 ^ 56 + x" "r = b * 2 ^ 56 + y" unfolding v by (simp_all only: div_mult_mod_eq)
  have l: "x < 2 ^ 56" "y < 2 ^ 56" unfolding v by simp_all
  have "r - y = b * 2 ^ 56" using t(2) by simp
  then have j: "j = x + b * 2 ^ 56" by (simp only: j_def v(3) [symmetric] v(4) [symmetric])
  consider "a = b" | "a = Suc b" | "b = Suc a" using assms(1,2) l unfolding t by fastforce
  then have "(j < r \<longrightarrow> (r - j > 2 ^ 55 \<longrightarrow> t = j + 2 ^ 56) \<and> (\<not> r - j > 2 ^ 55 \<longrightarrow> t = j)) \<and>
      (\<not> j < r \<longrightarrow> (j - r > 2 ^ 55 \<longrightarrow> t + 2 ^ 56 = j) \<and> (\<not> j - r > 2 ^ 55 \<longrightarrow> t = j))"
    using assms(1,2) l unfolding j t by cases auto
  then show "j < r \<Longrightarrow> r - j > 2 ^ 55 \<Longrightarrow> t = j + 2 ^ 56" "j < r \<Longrightarrow> \<not> r - j > 2 ^ 55 \<Longrightarrow> t = j"
      "\<not> j < r \<Longrightarrow> j - r > 2 ^ 55 \<Longrightarrow> t + 2 ^ 56 = j" "\<not> j < r \<Longrightarrow> \<not> j - r > 2 ^ 55 \<Longrightarrow> t = j"
    by blast+
qed

lemma word_shift: "unat t = unat j + 2 ^ 56 \<Longrightarrow> j + push_bit 56 1 = (t :: u64)" "unat t + 2 ^ 56 = unat j \<Longrightarrow> j - push_bit 56 1 = t"
proof -
  show "j + push_bit 56 1 = t" if "unat t = unat j + 2 ^ 56"
    using arg_cong [OF that, of "of_nat :: nat \<Rightarrow> u64"] by simp
  show "j - push_bit 56 1 = t" if "unat t + 2 ^ 56 = unat j"
    using arg_cong [OF that, of "of_nat :: nat \<Rightarrow> u64"] by (simp add: algebra_simps)
qed

lemma tsc_from_ref_near:
  assumes "unat t < unat r + 2 ^ 55" and "unat r < unat t + 2 ^ 55"
  shows "tsc_from_ref (t AND mask 56) r = t"
proof -
  define j where "j = (t AND mask 56) OR (r AND push_bit 56 0xff)"
  note n = near [OF assms, folded unat_join, folded j_def]
  have lt: "j < r \<longleftrightarrow> unat j < unat r" by (rule word_less_nat_alt)
  have p: "36028797018963968 < x \<longleftrightarrow> 36028797018963968 < unat x" for x :: u64 by (simp add: word_less_nat_alt)
  have s: "j < r \<Longrightarrow> unat (r - j) = unat r - unat j" "\<not> j < r \<Longrightarrow> unat (j - r) = unat j - unat r"
    by (simp_all add: unat_sub word_le_nat_alt word_less_nat_alt)
  have "j + push_bit 56 1 = t" if "j < r" "r - j > push_bit 55 1" using n(1) s(1) that by (intro word_shift) (simp add: lt p)
  moreover have "j = t" if "j < r" "\<not> r - j > push_bit 55 1" using n(2) s(1) that by (simp add: lt p word_unat_eq_iff)
  moreover have "j - push_bit 56 1 = t" if "\<not> j < r" "j - r > push_bit 55 1" using n(3) s(2) that by (intro word_shift) (simp add: lt p)
  moreover have "j = t" if "\<not> j < r" "\<not> j - r > push_bit 55 1" using n(4) s(2) that by (simp add: lt p word_unat_eq_iff)
  ultimately show ?thesis unfolding tsc_from_ref_def Let_def j_def [symmetric] by auto
qed

lemma onward:
  fixes t r s :: nat
  assumes "r \<le> t" and "t + s < r + 2 ^ 56"
  defines "j \<equiv> t mod 2 ^ 56 + (r - r mod 2 ^ 56)"
  shows "j < r \<Longrightarrow> \<not> r - j < s \<and> t = j + 2 ^ 56" and "\<not> j < r \<Longrightarrow> t = j"
proof -
  define a b x y where v: "a = t div 2 ^ 56" "b = r div 2 ^ 56" "x = t mod 2 ^ 56" "y = r mod 2 ^ 56"
  have t: "t = a * 2 ^ 56 + x" "r = b * 2 ^ 56 + y" unfolding v by (simp_all only: div_mult_mod_eq)
  have l: "x < 2 ^ 56" "y < 2 ^ 56" unfolding v by simp_all
  have "r - y = b * 2 ^ 56" using t(2) by simp
  then have j: "j = x + b * 2 ^ 56" by (simp only: j_def v(3) [symmetric] v(4) [symmetric])
  consider "a = b" | "a = Suc b" using assms(1,2) l unfolding t by fastforce
  then have "(j < r \<longrightarrow> \<not> r - j < s \<and> t = j + 2 ^ 56) \<and> (\<not> j < r \<longrightarrow> t = j)"
    using assms(1,2) l unfolding j t by cases auto
  then show "j < r \<Longrightarrow> \<not> r - j < s \<and> t = j + 2 ^ 56" and "\<not> j < r \<Longrightarrow> t = j" by blast+
qed

lemma tsc_from_last_onward:
  assumes "unat r \<le> unat t" and "unat t + unat s < unat r + 2 ^ 56"
  shows "tsc_from_last (t AND mask 56) r s = (t, t)"
proof -
  define j where "j = (t AND mask 56) OR (r AND push_bit 56 0xff)"
  note n = onward [OF assms, folded unat_join, folded j_def]
  show ?thesis
  proof (cases "j < r")
    case True
    then have lt: "unat j < unat r" and d: "unat (r - j) = unat r - unat j" by (simp_all add: word_less_nat_alt word_le_nat_alt unat_sub)
    then have "\<not> r - j < s" and "j + push_bit 56 1 = t" using n(1) [OF lt] word_shift(1) [of t j] by (simp_all add: word_less_nat_alt)
    then show ?thesis using True by (simp only: tsc_from_last_def Let_def j_def [symmetric] if_True if_False simp_thms)
  next
    case False
    then have "j = t" using n(2) by (simp add: word_less_nat_alt word_unat_eq_iff)
    then show ?thesis using False by (simp only: tsc_from_last_def Let_def j_def [symmetric] if_False simp_thms)
  qed
qed

lemma intel_pt_calc_tsc_exact:
  assumes "fetch_ok d" and "d_mtc_shift d \<le> 16" and "pt_payload (d_packet d) = t AND mask 56"
    and "d_ref_timestamp d \<noteq> 0 \<and> unat t < unat (d_ref_timestamp d) + 2 ^ 55 \<and> unat (d_ref_timestamp d) < unat t + 2 ^ 55 \<or>
      d_ref_timestamp d = 0 \<and> d_timestamp d \<noteq> 0 \<and> unat (d_timestamp d) \<le> unat t \<and> unat t + unat (d_tsc_slip d) < unat (d_timestamp d) + 2 ^ 56"
  shows "ends (intel_pt_calc_tsc_timestamp fp d) (\<lambda>d'. d_timestamp d' = t \<and> d_tsc_timestamp d' = t \<and> \<not> d_have_tma d')"
proof -
  have r: "ends (restart_cyc fp d1 False) (\<lambda>d'. d_timestamp d' = t \<and> d_tsc_timestamp d' = t \<and> \<not> d_have_tma d')"
    if "core d1 = core d" "d_timestamp d1 = t" "d_tsc_timestamp d1 = t" "\<not> d_have_tma d1" for d1
    by (rule ends_mono [OF restart_cyc_ends]) (use core_cong(1,9) [OF that(1)] assms(1,2) that in \<open>simp_all add: clock_def\<close>)
  have "unat (ucast (d_tsc_slip d) :: u64) = unat (d_tsc_slip d)" 
    using unat_u32 [of "d_tsc_slip d"] by (simp add: unsigned_ucast_eq take_bit_nat_eq_self)
  then have l: "tsc_from_last (t AND mask 56) (d_timestamp d) (ucast (d_tsc_slip d)) = (t, t)"
    if "unat (d_timestamp d) \<le> unat t" "unat t + unat (d_tsc_slip d) < unat (d_timestamp d) + 2 ^ 56"
    using tsc_from_last_onward [of "d_timestamp d" t "ucast (d_tsc_slip d)"] that by metis
  show ?thesis using assms(4)
  proof
    assume a: "d_ref_timestamp d \<noteq> 0 \<and> unat t < unat (d_ref_timestamp d) + 2 ^ 55 \<and> unat (d_ref_timestamp d) < unat t + 2 ^ 55"
    then have "tsc_from_ref (t AND mask 56) (d_ref_timestamp d) = t" by (intro tsc_from_ref_near) simp_all
    then show ?thesis unfolding intel_pt_calc_tsc_timestamp_def Let_def by (intro r) (use a assms(3) in \<open>simp_all add: core_def\<close>)
  next
    assume "d_ref_timestamp d = 0 \<and> d_timestamp d \<noteq> 0 \<and> unat (d_timestamp d) \<le> unat t \<and> unat t + unat (d_tsc_slip d) < unat (d_timestamp d) + 2 ^ 56"
    then show ?thesis unfolding intel_pt_calc_tsc_timestamp_def Let_def by (intro r) (use l assms(3) in \<open>simp_all add: core_def\<close>)
  qed
qed

section \<open>The time of an MTC packet\<close>

lemma of_nat_word_less: "a < 2 ^ 32 \<Longrightarrow> b < 2 ^ 32 \<Longrightarrow> (of_nat a < (of_nat b :: u32)) = (a < b)"
  by (simp add: word_less_nat_alt unsigned_of_nat take_bit_nat_eq_self)

lemma mod_step:
  fixes x y n :: nat
  assumes "x < y" and "y \<le> x + n" and "0 < n"
  shows "y - x = (if x mod n < y mod n then y mod n - x mod n else y mod n + n - x mod n)"
proof -
  define a b u v where d: "a = x div n" "b = y div n" "u = x mod n" "v = y mod n"
  have x: "x = a * n + u" "y = b * n + v" "u < n" "v < n" using assms(3) by (simp_all add: d)
  have "a \<le> b" using assms(1) unfolding d(1,2) by (intro div_le_mono) simp
  moreover have "b \<le> Suc a"
  proof -
    have "b \<le> (x + n) div n" unfolding d(2) using assms(2) by (rule div_le_mono)
    then show ?thesis using assms(3) by (simp add: d(1) div_add_self2)
  qed
  ultimately consider "b = a" | "b = Suc a" by linarith
  then show ?thesis using assms(1,2) x unfolding d(3,4) [symmetric] by cases auto
qed

lemma mtc_delta_exact:
  assumes "m < m'" and "m' \<le> m + 256"
  shows "mtc_delta (of_nat (m' mod 256)) (of_nat (m mod 256)) = of_nat (m' - m)"
proof -
  have b: "m mod 256 < 2 ^ 32" "m' mod 256 < 2 ^ 32" "m mod 256 \<le> m' mod 256 + 256"
    using order_less_trans [OF mod_less_divisor [of 256 m]] order_less_trans [OF mod_less_divisor [of 256 m']] less_imp_le [OF mod_less_divisor [of 256 m]]
    by (auto intro: trans_le_add2)
  show ?thesis
  proof (cases "m mod 256 < m' mod 256")
    case True
    then show ?thesis using mod_step [OF assms] b by (simp add: mtc_delta_def of_nat_word_less of_nat_diff)
  next
    case False
    then have "of_nat (m' - m) = (of_nat (m' mod 256 + 256 - m mod 256) :: u32)" using mod_step [OF assms] by simp
    also have "\<dots> = of_nat (m' mod 256) + 256 - of_nat (m mod 256)" using b(3) by (simp only: of_nat_diff of_nat_add) simp
    finally show ?thesis using False b by (simp add: mtc_delta_def of_nat_word_less)
  qed
qed

lemma of_nat_mod: "of_nat (m mod 2 ^ n) = take_bit n (of_nat m :: u32)"
  by (simp only: take_bit_of_nat, simp only: take_bit_eq_mod)

lemma fixup_exact:
  assumes "8 < shift" and "shift \<le> 16" and "m < m'" and "m' \<le> m + 2 ^ (16 - shift)"
  shows "intel_pt_fixup_last_mtc (of_nat (m' mod 256)) shift (of_nat (m mod 2 ^ (16 - shift))) = Some (of_nat (m mod 256))"
proof -
  define k where "k = 16 - shift"
  define a b q c where d: "a = m mod 2 ^ k" "b = m' mod 256" "q = m' div 256" "c = b mod 2 ^ k"
  have k: "2 ^ k dvd (256 :: nat)" using assms(1) le_imp_power_dvd [of k 8 "2 :: nat"] by (auto simp: k_def)
  then have k': "(2 :: nat) ^ k \<le> 256" by (simp add: dvd_imp_le)
  have m': "m' = 256 * q + b" "b < 256" by (simp_all add: d)
  have b0: "m' mod 2 ^ k = c" using k by (simp only: d(2,4) mod_mod_cancel)
  obtain e where e: "b = e + c" using mod_less_eq_dividend [of b "2 ^ k", folded d(4)] by (metis le_add_diff_inverse2)
  have a: "a < 2 ^ k" "c < 2 ^ k" by (simp_all add: d(1,4))
  have step: "m' - m = (if a < c then c - a else c + 2 ^ k - a)"
    using mod_step [OF assms(3) assms(4) [folded k_def]] by (simp add: b0 d(1))
  have x: "a + e < 2 ^ 32" using a k' m'(2) e by simp
  have b: "b < 2 ^ 32" using m'(2) by simp
  have "of_nat a OR (of_nat b AND NOT (mask k)) = (of_nat (a + e) :: u32)"
  proof -
    have "of_nat a = take_bit k (of_nat m :: u32)" by (simp only: d(1) of_nat_mod)
    moreover have "take_bit k (of_nat m :: u32) OR (of_nat b AND NOT (mask k)) = take_bit k (of_nat m) + (of_nat b AND NOT (mask k))"
      by (rule disjunctive_add [symmetric]) (simp add: bit_simps)
    moreover have "of_nat c + (of_nat b AND NOT (mask k)) = (of_nat b :: u32)"
      using split_word [of "of_nat b :: u32" k] by (simp only: d(4) of_nat_mod take_bit_eq_mask)
    then have "(of_nat b AND NOT (mask k)) = (of_nat e :: u32)" by (simp add: e)
    ultimately show ?thesis by simp
  qed
  then have f: "intel_pt_fixup_last_mtc (of_nat b) shift (of_nat a) =
      Some (if of_nat (a + e) \<ge> (of_nat b :: u32) then (of_nat (a + e) - 2 ^ k) AND 0xff else of_nat (a + e))"
    using assms(2) unfolding intel_pt_fixup_last_mtc_def k_def [symmetric] by (simp add: push_bit_eq_mult mask_eq_exp_minus_1 Let_def)
  have le: "of_nat b \<le> (of_nat (a + e) :: u32) \<longleftrightarrow> \<not> a < c"
    using of_nat_word_less [OF x b] by (simp only: not_less [symmetric] e) simp
  show ?thesis
  proof (cases "a < c")
    case True
    then have "m = 256 * q + (a + e)" using step m' assms(3) e by simp
    moreover have "a + e < 256" using True m'(2) e by simp
    ultimately have "m mod 256 = a + e" by simp
    then show ?thesis using f le True unfolding d(1,2) k_def [symmetric] by simp
  next
    case False
    then have "m + 2 ^ k = a + e + 256 * q" using step m' assms(3) a e by simp
    then have "of_nat (m + 2 ^ k) = (of_nat (a + e + 256 * q) :: u32)" by (rule arg_cong)
    then have "of_nat m = (of_nat (a + e) - 2 ^ k + push_bit 8 (of_nat q) :: u32)" by (simp add: algebra_simps push_bit_eq_mult)
    moreover have "take_bit 8 (y + push_bit 8 z) = take_bit 8 y" for y z :: u32
      by transfer (simp add: push_bit_eq_mult take_bit_eq_mod mod_mod_cancel)
    ultimately have "take_bit 8 (of_nat m) = take_bit 8 (of_nat (a + e) - 2 ^ k :: u32)" by metis
    then have "of_nat (m mod 256) = (of_nat (a + e) - 2 ^ k :: u32) AND 0xff"
      using of_nat_mod [of m 8] by (simp add: take_bit_eq_mask mask_eq_exp_minus_1)
    then show ?thesis using f le False unfolding d(1,2) k_def [symmetric] by simp
  qed
qed

lemma ucast_of_nat: "n < 2 ^ 32 \<Longrightarrow> ucast (of_nat n :: u32) = (of_nat n :: u64)" "n < 2 ^ 32 \<Longrightarrow> ucast (of_nat n :: u64) = (of_nat n :: u32)"
  by (simp_all add: word_unat_eq_iff unsigned_ucast_eq unsigned_of_nat take_bit_nat_eq_self)

text \<open>The period of the last MTC that the decoder knows.\<close>

abbreviation mtc_range :: "('c, 'f) intel_pt_decoder \<Rightarrow> nat" where
  "mtc_range d \<equiv> (if 8 < d_mtc_shift d \<and> d_fixup_last_mtc d then 2 ^ (16 - d_mtc_shift d) else 256)"

definition mtc_at :: "('c, 'f) intel_pt_decoder \<Rightarrow> nat \<Rightarrow> bool" where
  "mtc_at d m \<longleftrightarrow> fetch_ok d \<and> d_mtc_shift d \<le> 16 \<and> d_have_tma d \<and> d_last_mtc d = of_nat (m mod mtc_range d)"

definition rate :: "('c, 'f) intel_pt_decoder \<Rightarrow> u64 \<times> nat \<times> u32 \<times> u32 \<times> u32" where
  "rate d = (d_ctc_timestamp d, d_mtc_shift d, d_tsc_ctc_mult d, d_tsc_ctc_ratio_n d, d_tsc_ctc_ratio_d d)"

lemma mtc_step:
  fixes d :: "('c, 'f) intel_pt_decoder"
  assumes "mtc_at d m" and "pt_payload (d_packet d) = of_nat (m' mod 256)" and "m < m'" and "m' \<le> m + mtc_range d"
  shows "ends (intel_pt_calc_mtc_timestamp fp d) (\<lambda>d'. mtc_at d' m' \<and> mtc_range d' = 256 \<and> rate d' = rate d \<and>
    d_ctc_delta d' = d_ctc_delta d + of_nat ((m' - m) * 2 ^ d_mtc_shift d) \<and>
    d_timestamp d' = max (d_timestamp d) (d_ctc_timestamp d + ctc_to_tsc d (d_ctc_delta d')))"
proof -
  let ?s = "d_mtc_shift d" and ?fixup = "8 < d_mtc_shift d \<and> d_fixup_last_mtc d"
  let ?mtc = "of_nat (m' mod 256) :: u32"
  have d: "fetch_ok d" "?s \<le> 16" "d_have_tma d" "d_last_mtc d = of_nat (m mod mtc_range d)" using assms(1) by (simp_all add: mtc_at_def)
  have mtc: "ucast (pt_payload (d_packet d)) = ?mtc" using assms(2) mod_less_divisor [of 256 m'] by (simp add: ucast_of_nat)
  have range: "mtc_range d \<le> 256"
  proof (cases ?fixup)
    case True
    then have "(2 :: nat) ^ (16 - ?s) \<le> 2 ^ 8" by (intro power_increasing) auto
    then show ?thesis using True by simp
  qed auto
  have last: "last_mtc_for d ?mtc (d_fixup_last_mtc d) (d_last_mtc d) = Some (of_nat (m mod 256), d_fixup_last_mtc d \<and> \<not> ?fixup)"
    using fixup_exact [of ?s m m'] d assms(3,4) by (auto simp: last_mtc_for_def)
  have "m' - m \<le> 256" using assms(4) range by linarith
  then have "(m' - m) * 2 ^ ?s \<le> 256 * 2 ^ 16" using d(2) by (intro mult_mono power_increasing) simp_all
  then have delta: "ucast (push_bit ?s (mtc_delta ?mtc (of_nat (m mod 256)))) = (of_nat ((m' - m) * 2 ^ ?s) :: u64)"
  proof -
    have "mtc_delta ?mtc (of_nat (m mod 256)) = of_nat (m' - m)" using mtc_delta_exact [of m m'] assms(3,4) range by simp
    moreover have "push_bit ?s (of_nat (m' - m)) = (of_nat ((m' - m) * 2 ^ ?s) :: u32)" by (simp only: push_bit_eq_mult of_nat_mult of_nat_power) simp
    moreover have "(m' - m) * 2 ^ ?s < 2 ^ 32" using \<open>(m' - m) * 2 ^ ?s \<le> 256 * 2 ^ 16\<close> by simp
    ultimately show ?thesis by (simp only: ucast_of_nat)
  qed
  let ?delta = "d_ctc_delta d + of_nat ((m' - m) * 2 ^ ?s)"
  let ?t = "max (d_timestamp d) (d_ctc_timestamp d + ctc_to_tsc d ?delta)"
  have r: "ends (restart_cyc fp d1 True) (\<lambda>d'. mtc_at d' m' \<and> mtc_range d' = 256 \<and> rate d' = rate d \<and> d_ctc_delta d' = ?delta \<and> d_timestamp d' = ?t)"
    if "core d1 = core d" "d_timestamp d1 = ?t" "d_ctc_delta d1 = ?delta" "d_last_mtc d1 = ?mtc" "d_have_tma d1" "rate d1 = rate d"
      "d_fixup_last_mtc d1 = (d_fixup_last_mtc d \<and> \<not> ?fixup)" for d1
  proof (rule ends_mono [OF restart_cyc_ends])
    show "fetch_ok d1" "d_mtc_shift d1 \<le> 16" using core_cong(1,9) [OF that(1)] d by simp_all
    fix d' :: "('c, 'f) intel_pt_decoder" assume c: "clock d' = clock d1"
    have "fetch_ok d'" "d_mtc_shift d' = ?s" using core_cong(1,9) [OF clock_core [OF c]] core_cong(1,9) [OF that(1)] d(1) by simp_all
    then show "mtc_at d' m' \<and> mtc_range d' = 256 \<and> rate d' = rate d \<and> d_ctc_delta d' = ?delta \<and> d_timestamp d' = ?t"
      using c that d(2) by (auto simp: clock_def mtc_at_def rate_def)
  qed
  have "ends (intel_pt_calc_mtc_timestamp fp d) (\<lambda>d'. mtc_at d' m' \<and> mtc_range d' = 256 \<and> rate d' = rate d \<and> d_ctc_delta d' = ?delta \<and> d_timestamp d' = ?t)"
    unfolding intel_pt_calc_mtc_timestamp_def mtc Let_def using d(3)
    by (simp only: last delta not_True_eq_False if_False bind.bind_lunit prod.case) (rule r, auto simp: core_def rate_def ctc_to_tsc_def max_def)
  then show ?thesis by (rule ends_mono) auto
qed

text \<open>The trace of the crystal clock (CTC): a TMA packet at the value \<open>ctc\<close>, then MTC packets at the multiples \<open>ms\<close> of the MTC period.\<close>

definition tma_packet :: "nat \<Rightarrow> nat \<Rightarrow> intel_pt_pkt" where
  "tma_packet ctc fc = \<lparr>pt_type = INTEL_PT_TMA, pt_count = int fc, pt_payload = of_nat (ctc mod 2 ^ 16)\<rparr>"

definition mtc_packet :: "nat \<Rightarrow> intel_pt_pkt" where
  "mtc_packet m = \<lparr>pt_type = INTEL_PT_MTC, pt_count = 0, pt_payload = of_nat (m mod 256)\<rparr>"

fun mtcs :: "'f fp \<Rightarrow> ('c, 'f) intel_pt_decoder \<Rightarrow> nat list \<Rightarrow> ('c, 'f) intel_pt_decoder option" where
  "mtcs fp d [] = Some d"
| "mtcs fp d (m # ms) = do { d \<leftarrow> intel_pt_calc_mtc_timestamp fp (d \<lparr>d_packet := mtc_packet m\<rparr>); mtcs fp d ms }"

text \<open>The MTC packets are in order and not more than 256 periods apart; \<open>n\<close> is the limit for the first one.\<close>

fun gaps :: "nat \<Rightarrow> nat \<Rightarrow> nat list \<Rightarrow> bool" where
  "gaps n m [] = True"
| "gaps n m (m' # ms) \<longleftrightarrow> m < m' \<and> m' \<le> m + n \<and> gaps 256 m' ms"

lemma mtcs_ends:
  assumes "mtc_at d m" and "gaps (mtc_range d) m ms" and "m0 \<le> m" and "d_ctc_delta d = of_nat ((m - m0) * 2 ^ d_mtc_shift d)"
  shows "ends (mtcs fp d ms) (\<lambda>d'. d_timestamp d' = fold (\<lambda>m t. max t (d_ctc_timestamp d + ctc_to_tsc d (of_nat ((m - m0) * 2 ^ d_mtc_shift d))))
    ms (d_timestamp d))"
  using assms
proof (induction ms arbitrary: d m)
  case (Cons m' ms)
  let ?d = "d \<lparr>d_packet := mtc_packet m'\<rparr>"
  have m': "m < m'" "m' \<le> m + mtc_range ?d" "gaps 256 m' ms" using Cons.prems(2) by (auto split: if_splits)
  have "mtc_at ?d m" using Cons.prems(1) by (simp add: mtc_at_def fetch_ok_def next_ok_def)
  from mtc_step [OF this _ m'(1,2), of fp] obtain d1 where d1: "intel_pt_calc_mtc_timestamp fp ?d = Some d1" "mtc_at d1 m'" "mtc_range d1 = 256"
      "rate d1 = rate ?d" "d_ctc_delta d1 = d_ctc_delta ?d + of_nat ((m' - m) * 2 ^ d_mtc_shift ?d)"
      "d_timestamp d1 = max (d_timestamp ?d) (d_ctc_timestamp ?d + ctc_to_tsc ?d (d_ctc_delta d1))"
    by (auto simp: ends_def mtc_packet_def)
  have r: "d_ctc_timestamp d1 = d_ctc_timestamp d" "d_mtc_shift d1 = d_mtc_shift d" "ctc_to_tsc d1 = ctc_to_tsc d"
    using d1(4) by (auto simp: rate_def ctc_to_tsc_def fun_eq_iff)
  have "(m' - m0) * 2 ^ d_mtc_shift d = (m - m0) * 2 ^ d_mtc_shift d + (m' - m) * 2 ^ d_mtc_shift d"
    using m'(1) Cons.prems(3) by (simp flip: distrib_right)
  then have delta: "d_ctc_delta d1 = of_nat ((m' - m0) * 2 ^ d_mtc_shift d)" using d1(5) Cons.prems(4) by (simp only: of_nat_add) simp
  have "ends (mtcs fp d1 ms) (\<lambda>d'. d_timestamp d' =
      fold (\<lambda>m t. max t (d_ctc_timestamp d1 + ctc_to_tsc d1 (of_nat ((m - m0) * 2 ^ d_mtc_shift d1)))) ms (d_timestamp d1))"
    by (rule Cons.IH [OF d1(2)]) (use d1(3) m' Cons.prems(3) delta r in simp_all)
  moreover have "ctc_to_tsc ?d = ctc_to_tsc d" by (simp add: ctc_to_tsc_def fun_eq_iff)
  ultimately show ?case using d1(1,6) by (simp add: r delta)
qed (simp add: ends_Some)

lemma calc_tma_at:
  assumes "fetch_ok d" and "d_mtc_shift d \<le> 16" and "d_tsc_ctc_ratio_d d \<noteq> 0" and "d_packet d = tma_packet ctc fc"
  shows "mtc_at (intel_pt_calc_tma d) (ctc div 2 ^ d_mtc_shift d)"
proof -
  let ?s = "d_mtc_shift d" and ?d = "intel_pt_calc_tma d"
  have f: "fetch_ok ?d" "d_mtc_shift ?d = ?s" using core_cong(1,9) [OF core_calc(1) [of d]] assms(1) by simp_all
  have "ctc mod 2 ^ 16 < 2 ^ 32" using mod_less_divisor [of "2 ^ 16" ctc] by simp
  then have p: "ucast (of_nat (ctc mod 2 ^ 16) :: u64) = (of_nat (ctc mod 2 ^ 16) :: u32)" by (rule ucast_of_nat)
  have "drop_bit ?s (of_nat (ctc mod 2 ^ 16)) AND 0xff = (of_nat (take_bit 8 (drop_bit ?s (take_bit 16 ctc))) :: u32)"
  proof -
    have "take_bit 16 ctc < 2 ^ 32" using \<open>ctc mod 2 ^ 16 < 2 ^ 32\<close> by (simp add: take_bit_eq_mod)
    moreover from this have "drop_bit ?s (take_bit 16 ctc) < 2 ^ 32"
      unfolding drop_bit_eq_div [of ?s "take_bit 16 ctc"] by (rule order_le_less_trans [OF div_le_dividend])
    ultimately have "drop_bit ?s (of_nat (take_bit 16 ctc)) = (of_nat (drop_bit ?s (take_bit 16 ctc)) :: u32)"
      by (simp add: word_unat_eq_iff unsigned_drop_bit_eq unsigned_of_nat take_bit_nat_eq_self)
    moreover have "x AND 0xff = take_bit 8 x" for x :: u32 by (simp add: take_bit_eq_mask mask_eq_exp_minus_1)
    ultimately show ?thesis by (simp only: take_bit_eq_mod [of 16 ctc, symmetric] take_bit_of_nat)
  qed
  moreover have "take_bit 8 (drop_bit ?s (take_bit 16 ctc)) = (ctc div 2 ^ ?s) mod (if 8 < ?s then 2 ^ (16 - ?s) else 256)"
    by (simp add: drop_bit_take_bit take_bit_take_bit min_def) (simp add: take_bit_eq_mod drop_bit_eq_div)
  ultimately have "d_last_mtc ?d = of_nat (ctc div 2 ^ ?s mod (if 8 < ?s then 2 ^ (16 - ?s) else 256))"
    using assms(3,4) p by (simp add: intel_pt_calc_tma_def tma_clock_def tma_packet_def Let_def)
  moreover have "d_have_tma ?d" "d_fixup_last_mtc ?d" using assms(3) by (simp_all add: intel_pt_calc_tma_def tma_clock_def Let_def)
  ultimately show ?thesis using f assms(2) by (simp add: mtc_at_def)
qed

lemma calc_tma_clock:
  assumes "d_mtc_shift d \<le> 16" and "d_ctc_rem_mask d = push_bit (d_mtc_shift d) 1 - 1" and "d_tsc_ctc_ratio_d d \<noteq> 0" and "d_tsc_ctc_mult d \<noteq> 0"
    and "2 ^ d_mtc_shift d * unat (d_tsc_ctc_mult d) \<le> 2 ^ 32" and "d_packet d = tma_packet ctc fc" and "fc < 2 ^ 32"
  shows "d_ctc_timestamp (intel_pt_calc_tma d) = d_tsc_timestamp d - of_nat fc - of_nat (ctc mod 2 ^ d_mtc_shift d) * ucast (d_tsc_ctc_mult d)"
    and "d_ctc_delta (intel_pt_calc_tma d) = 0"
proof -
  let ?s = "d_mtc_shift d" and ?k = "d_tsc_ctc_mult d"
  have "ctc mod 2 ^ 16 < 2 ^ 32" using mod_less_divisor [of "2 ^ 16" ctc] by simp
  then have p: "ucast (of_nat (ctc mod 2 ^ 16) :: u64) = (of_nat (ctc mod 2 ^ 16) :: u32)" by (rule ucast_of_nat)
  have "d_ctc_rem_mask d = mask ?s" using assms(2) by (simp add: mask_eq_exp_minus_1)
  then have rem: "of_nat (ctc mod 2 ^ 16) AND d_ctc_rem_mask d = (of_nat (ctc mod 2 ^ ?s) :: u32)"
    using assms(1) by (simp only: of_nat_mod take_bit_eq_mask [symmetric] take_bit_take_bit min_absorb1)
  have "ctc mod 2 ^ ?s * unat ?k < 2 ^ 32"
  proof (rule order_less_le_trans [OF _ assms(5)])
    show "ctc mod 2 ^ ?s * unat ?k < 2 ^ ?s * unat ?k" using assms(4) by (simp add: unat_gt_0)
  qed
  then have prod: "ucast (of_nat (ctc mod 2 ^ ?s) * ?k) = (of_nat (ctc mod 2 ^ ?s) * ucast ?k :: u64)"
    using ucast_of_nat(1) [of "ctc mod 2 ^ ?s * unat ?k"] by (simp add: unsigned_ucast_eq)
  have "ucast (word_of_int (int fc) :: u32) = (of_nat fc :: u64)" using ucast_of_nat(1) [OF assms(7)] by simp
  then show "d_ctc_timestamp (intel_pt_calc_tma d) = d_tsc_timestamp d - of_nat fc - of_nat (ctc mod 2 ^ ?s) * ucast ?k"
      "d_ctc_delta (intel_pt_calc_tma d) = 0"
    using assms(3,4,6) p rem prod by (simp_all add: intel_pt_calc_tma_def tma_clock_def tma_packet_def Let_def)
qed

lemma gaps_less: "gaps n m ms \<Longrightarrow> x \<in> set ms \<Longrightarrow> m < x"
  by (induction n m ms rule: gaps.induct) (auto intro: less_trans)

section \<open>Properties\<close>

text \<open>
  C11.  A TSC packet has the low 56 bits of the time stamp counter.  The decoder sets its time to the full value of the counter, at the first packet
  of a buffer if the counter is less than \<open>2 ^ 55\<close> away from the reference time of the buffer, and later if the counter advanced
  by less than \<open>2 ^ 56\<close> (less the tolerated slip) since the time that the decoder has.
\<close>

theorem intel_pt_tsc_time:
  assumes "fetch_ok d" and "d_mtc_shift d \<le> 16" and "pt_payload (d_packet d) = tsc AND mask 56"
    and "d_ref_timestamp d \<noteq> 0 \<and> unat tsc < unat (d_ref_timestamp d) + 2 ^ 55 \<and> unat (d_ref_timestamp d) < unat tsc + 2 ^ 55 \<or>
      d_ref_timestamp d = 0 \<and> d_timestamp d \<noteq> 0 \<and> unat (d_timestamp d) \<le> unat tsc \<and>
      unat tsc + unat (d_tsc_slip d) < unat (d_timestamp d) + 2 ^ 56"
  shows "\<exists>d'. intel_pt_calc_tsc_timestamp fp d = Some d' \<and> d_timestamp d' = tsc \<and> d_tsc_timestamp d' = tsc"
  using intel_pt_calc_tsc_exact [OF assms, of fp] by (auto simp: ends_def)

definition demo_fp :: "int fp" where
  "demo_fp = \<lparr>fp_of = uint, fp_to = of_int, fp_add = (+), fp_mul = (*), fp_div = (div), fp_gt = (>), fp_1_25 = 1\<rparr>"

definition demo_clock :: "(unit, int) intel_pt_decoder" where
  "demo_clock = (zero_decoder demo_fp ()) \<lparr>d_mtc_shift := 3, d_ctc_rem_mask := 7, d_tsc_ctc_mult := 2, d_tsc_ctc_ratio_n := 2,
     d_tsc_ctc_ratio_d := 1, d_tsc_slip := 0x10000, d_tsc_timestamp := 1000, d_timestamp := 1000\<rparr>"

lemma demo_clock_simps:
  "fetch_ok (demo_clock \<lparr>d_packet := p, d_ref_timestamp := r\<rparr>)" "fetch_ok (demo_clock \<lparr>d_packet := p\<rparr>)"
  "d_mtc_shift demo_clock = 3" "d_ctc_rem_mask demo_clock = 7" "d_tsc_ctc_mult demo_clock = 2" "d_tsc_ctc_ratio_d demo_clock = 1"
  "d_tsc_timestamp demo_clock = 1000" "d_timestamp demo_clock = 1000"
  by (simp_all add: demo_clock_def zero_decoder_def fetch_ok_def next_ok_def SIZE_RANGE_def)

text \<open>The counter is behind the next multiple of \<open>2 ^ 56\<close>, the reference time is in front of it.\<close>

theorem intel_pt_tsc_time_witness:
  "\<exists>d'. intel_pt_calc_tsc_timestamp demo_fp (demo_clock \<lparr>d_packet := \<lparr>pt_type = INTEL_PT_TSC, pt_count = 0, pt_payload = 5\<rparr>,
      d_ref_timestamp := 2 ^ 57 - 10\<rparr>) = Some d' \<and> d_timestamp d' = 2 ^ 57 + 5 \<and> d_tsc_timestamp d' = 2 ^ 57 + 5"
  by (rule intel_pt_tsc_time) (simp_all add: demo_clock_simps mask_eq_exp_minus_1)



end
