(* ===== verification/Intel_PT_Decode.thy ===== *)
theory Intel_PT_Decode
  imports Intel_PT_Time
begin

text \<open>
  The state machine of the Intel PT decoder (\<^verbatim>\<open>util/intel-pt-decoder/intel-pt-decoder.c\<close>): how it gets in step with the trace, follows the
  program from branch to branch, and returns one sample after the other (\<open>intel_pt_decode\<close>).

  A loop \<open>while (1)\<close> is its body, which continues with a state or breaks with a result, under \<open>forever\<close>.
\<close>

section \<open>The code\<close>

subsection \<open>Sampling and walking instructions\<close>

definition intel_pt_next_period :: "('c, 'f) intel_pt_decoder \<Rightarrow> u64 \<times> ('c, 'f) intel_pt_decoder" where
  "intel_pt_next_period d =
     (let timestamp = d_timestamp d + d_timestamp_insn_cnt d;
          masked_timestamp = timestamp AND d_period_mask d in
      if d_continuous_period d then
        (if masked_timestamp \<noteq> d_last_masked_timestamp d then (1, d)
         else (d_period_ticks d - (timestamp - masked_timestamp), d))
      else
        let timestamp = timestamp + 1;
            masked_timestamp = timestamp AND d_period_mask d;
            d = (if masked_timestamp \<noteq> d_last_masked_timestamp d
                 then d \<lparr>d_last_masked_timestamp := masked_timestamp, d_continuous_period := True\<rparr> else d) in
        (d_period_ticks d - (timestamp - masked_timestamp), d))"

definition intel_pt_next_sample :: "('c, 'f) intel_pt_decoder \<Rightarrow> u64 \<times> ('c, 'f) intel_pt_decoder" where
  "intel_pt_next_sample d = (case d_period_type d of
     INTEL_PT_PERIOD_INSTRUCTIONS \<Rightarrow> (d_period d - d_period_insn_cnt d, d)
   | INTEL_PT_PERIOD_TICKS \<Rightarrow> intel_pt_next_period d
   | _ \<Rightarrow> (0, d))"

definition intel_pt_sample_insn :: "('c, 'f) intel_pt_decoder \<Rightarrow> ('c, 'f) intel_pt_decoder" where
  "intel_pt_sample_insn d =
     (let d = (case d_period_type d of
        INTEL_PT_PERIOD_INSTRUCTIONS \<Rightarrow> d \<lparr>d_period_insn_cnt := 0\<rparr>
      | INTEL_PT_PERIOD_TICKS \<Rightarrow>
          d \<lparr>d_last_masked_timestamp := (d_timestamp d + d_timestamp_insn_cnt d) AND d_period_mask d\<rparr>
      | _ \<Rightarrow> d) in
      d \<lparr>d_state := (d_state d) \<lparr>s_type := s_type (d_state d) OR INTEL_PT_INSTRUCTION\<rparr>\<rparr>)"

text \<open>The labels \<open>out\<close> (\<open>reset\<close> is true) and \<open>out_no_progress\<close>.\<close>

definition walk_insn_out :: "intel_pt_insn \<Rightarrow> bool \<Rightarrow> int \<Rightarrow> ('c, 'f) intel_pt_decoder \<Rightarrow> ('c, 'f) decode_result" where
  "walk_insn_out insn reset err d =
     (if length (pi_buf insn) < INTEL_PT_INSN_BUF_SZ then None
      else
        let d = (if reset then d \<lparr>d_no_progress := 0\<rparr> else d);
            flags = s_flags (d_state d) in
        Some (err, d \<lparr>d_state := (d_state d)
          \<lparr>s_insn_op := pi_op insn, s_insn_len := pi_length insn, s_insn := take INTEL_PT_INSN_BUF_SZ (pi_buf insn),
           s_flags := (if d_tx_flags d AND INTEL_PT_IN_TX \<noteq> 0 then flags OR INTEL_PT_IN_TX else flags)\<rparr>\<rparr>))"

definition insn_target :: "u64 \<Rightarrow> intel_pt_insn \<Rightarrow> u64" where
  "insn_target ip insn = ip + of_nat (pi_length insn) + word_of_int (pi_rel insn)"

text \<open>The check for being stuck; it is true when the decoder is.\<close>

definition stuck_check :: "int \<Rightarrow> ('c, 'f) intel_pt_decoder \<Rightarrow> bool \<times> ('c, 'f) intel_pt_decoder" where
  "stuck_check cnt d =
     (let to_ip = s_to_ip (d_state d) in
      if cnt = 0 then (False, d)
      else if cnt = 1 then (False, d \<lparr>d_stuck_ip := to_ip, d_stuck_ip_prd := 1, d_stuck_ip_cnt := 1\<rparr>)
      else if cnt > INTEL_PT_MAX_LOOPS \<or> to_ip = d_stuck_ip d then (True, d \<lparr>d_pkt_state := INTEL_PT_STATE_ERR_RESYNC\<rparr>)
      else
        let d = d \<lparr>d_stuck_ip_cnt := d_stuck_ip_cnt d - 1\<rparr> in
        if d_stuck_ip_cnt d = 0 then
          (False, d \<lparr>d_stuck_ip_prd := d_stuck_ip_prd d + 1, d_stuck_ip_cnt := d_stuck_ip_prd d + 1, d_stuck_ip := to_ip\<rparr>)
        else (False, d))"

definition walk_insn_branch :: "intel_pt_insn \<Rightarrow> ('c, 'f) intel_pt_decoder \<Rightarrow> ('c, 'f) decode_result" where
  "walk_insn_branch insn d =
     (let cnt = d_no_progress d;
          target = insn_target (d_ip d) insn;
          (stuck, d) = stuck_check cnt (d \<lparr>d_no_progress := cnt + 1, d_ip := target,
            d_state := (d_state d) \<lparr>s_from_ip := d_ip d, s_to_ip := target\<rparr>\<rparr>) in
      if stuck then walk_insn_out insn True (- ELOOP) d else walk_insn_out insn False INTEL_PT_RETURN d)"

text \<open>Calls are pushed to the stack and returns popped from it.\<close>

definition walk_insn_stack ::
  "('c, 'f) pt_env \<Rightarrow> intel_pt_insn \<Rightarrow> ('c, 'f) intel_pt_decoder \<Rightarrow> ('c, 'f) decode_result"
where
  "walk_insn_stack env insn d =
     (if pi_op insn = INTEL_PT_OP_CALL then
        (if pi_branch insn \<noteq> INTEL_PT_BR_UNCONDITIONAL \<or> pi_rel insn \<noteq> 0 then do {
           (err, a, stack) \<leftarrow> intel_pt_push (pe_alloc env) (d_allocs d) (d_stack d) (d_ip d + of_nat (pi_length insn));
           Some (err, d \<lparr>d_allocs := a, d_stack := stack\<rparr>)
         } else Some (0, d))
      else if pi_op insn = INTEL_PT_OP_RET then do {
        (ret_addr, stack) \<leftarrow> intel_pt_pop (d_stack d);
        Some (0, d \<lparr>d_stack := stack, d_ret_addr := ret_addr\<rparr>)
      }
      else Some (0, d))"

text \<open>The code behind the sampling, and the code behind the walk.\<close>

definition walk_insn_found :: "('c, 'f) pt_env \<Rightarrow> intel_pt_insn \<Rightarrow> ('c, 'f) intel_pt_decoder \<Rightarrow> ('c, 'f) decode_result" where
  "walk_insn_found env insn d =
     (if pi_branch insn = INTEL_PT_BR_NO_BRANCH then
        walk_insn_out insn True INTEL_PT_RETURN
          (d \<lparr>d_state := (d_state d) \<lparr>s_type := INTEL_PT_INSTRUCTION, s_from_ip := d_ip d, s_to_ip := 0\<rparr>,
             d_ip := d_ip d + of_nat (pi_length insn)\<rparr>)
      else do {
        (err, d) \<leftarrow> walk_insn_stack env insn d;
        if err \<noteq> 0 then walk_insn_out insn True err d
        else if pi_branch insn = INTEL_PT_BR_UNCONDITIONAL then walk_insn_branch insn d
        else walk_insn_out insn True 0 d
      })"

definition walk_insn_next ::
  "('c, 'f) pt_env \<Rightarrow> intel_pt_insn \<Rightarrow> u64 \<Rightarrow> u64 \<Rightarrow> u64 \<Rightarrow> int \<Rightarrow> ('c, 'f) intel_pt_decoder \<Rightarrow> ('c, 'f) decode_result"
where
  "walk_insn_next env insn ip max_insn_cnt insn_cnt err d =
     (if err \<noteq> 0 then
        Some (if err = - ENOENT then - ENOLINK else - EILSEQ, d \<lparr>d_no_progress := 0, d_pkt_state := INTEL_PT_STATE_NO_IP\<rparr>)
      else if ip \<noteq> 0 \<and> d_ip d = ip then walk_insn_out insn True (- EAGAIN) d
      else walk_insn_found env insn (if max_insn_cnt \<noteq> 0 \<and> insn_cnt \<ge> max_insn_cnt then intel_pt_sample_insn d else d))"

definition intel_pt_walk_insn ::
  "('c, 'f) pt_env \<Rightarrow> ('c, 'f) intel_pt_decoder \<Rightarrow> u64 \<Rightarrow> (int \<times> intel_pt_insn \<times> ('c, 'f) intel_pt_decoder) option"
where
  "intel_pt_walk_insn env d ip = do {
     let (max_insn_cnt, d) = intel_pt_next_sample (d \<lparr>d_mtc_insn := True\<rparr>);
     let ((err, insn, insn_cnt, new_ip), data) = pe_walk_insn env (d_data d) (d_ip d) ip max_insn_cnt;
     let d = d \<lparr>d_data := data, d_ip := new_ip, d_tot_insn_cnt := d_tot_insn_cnt d + insn_cnt,
       d_timestamp_insn_cnt := d_timestamp_insn_cnt d + insn_cnt, d_sample_insn_cnt := d_sample_insn_cnt d + insn_cnt,
       d_period_insn_cnt := d_period_insn_cnt d + insn_cnt\<rparr>;
     (err, d) \<leftarrow> walk_insn_next env insn ip max_insn_cnt insn_cnt err d;
     Some (err, insn, d)
   }"

subsection \<open>FUP, TIP and TNT packets\<close>

definition from_here :: "u32 \<Rightarrow> ('c, 'f) intel_pt_decoder \<Rightarrow> ('c, 'f) intel_pt_decoder" where
  "from_here type d = d \<lparr>d_state := (d_state d) \<lparr>s_type := type, s_from_ip := d_ip d, s_to_ip := 0\<rparr>\<rparr>"

definition or_flags :: "u32 \<Rightarrow> ('c, 'f) intel_pt_decoder \<Rightarrow> ('c, 'f) intel_pt_decoder" where
  "or_flags flags d = d \<lparr>d_state := (d_state d) \<lparr>s_flags := s_flags (d_state d) OR flags\<rparr>\<rparr>"

definition or_type :: "u32 \<Rightarrow> ('c, 'f) intel_pt_decoder \<Rightarrow> ('c, 'f) intel_pt_decoder" where
  "or_type type d = d \<lparr>d_state := (d_state d) \<lparr>s_type := s_type (d_state d) OR type\<rparr>\<rparr>"

text \<open>The three events that can come with one FUP packet.\<close>

definition fup_mwait :: "('c, 'f) intel_pt_decoder \<Rightarrow> ('c, 'f) intel_pt_decoder" where
  "fup_mwait d =
     (let d = from_here INTEL_PT_MWAIT_OP (d \<lparr>d_set_fup_mwait := False\<rparr>) in
      d \<lparr>d_state := (d_state d) \<lparr>s_mwait_payload := d_fup_mwait_payload d\<rparr>\<rparr>)"

definition fup_pwre :: "('c, 'f) intel_pt_decoder \<Rightarrow> ('c, 'f) intel_pt_decoder" where
  "fup_pwre d =
     (let d = from_here ((s_type (d_state d) OR INTEL_PT_PWR_ENTRY) AND NOT INTEL_PT_BRANCH) (d \<lparr>d_set_fup_pwre := False\<rparr>) in
      d \<lparr>d_state := (d_state d) \<lparr>s_pwre_payload := d_fup_pwre_payload d\<rparr>\<rparr>)"

definition fup_exstop :: "('c, 'f) intel_pt_decoder \<Rightarrow> ('c, 'f) intel_pt_decoder" where
  "fup_exstop d =
     or_flags INTEL_PT_FUP_IP
       (from_here ((s_type (d_state d) OR INTEL_PT_EX_STOP) AND NOT INTEL_PT_BRANCH) (d \<lparr>d_set_fup_exstop := False\<rparr>))"

definition intel_pt_fup_event :: "('c, 'f) intel_pt_decoder \<Rightarrow> bool \<times> ('c, 'f) intel_pt_decoder" where
  "intel_pt_fup_event d =
     (if d_set_fup_tx_flags d then
        let d = from_here INTEL_PT_TRANSACTION (d \<lparr>d_set_fup_tx_flags := False, d_tx_flags := d_fup_tx_flags d\<rparr>) in
        (True, d \<lparr>d_state := (d_state d) \<lparr>s_flags := d_fup_tx_flags d\<rparr>\<rparr>)
      else if d_set_fup_ptw d then
        let d = or_flags INTEL_PT_FUP_IP (from_here INTEL_PT_PTW (d \<lparr>d_set_fup_ptw := False\<rparr>)) in
        (True, d \<lparr>d_state := (d_state d) \<lparr>s_ptw_payload := d_fup_ptw_payload d\<rparr>\<rparr>)
      else
        let ret = (d_set_fup_mwait d \<or> d_set_fup_pwre d \<or> d_set_fup_exstop d);
            d = (if d_set_fup_mwait d then fup_mwait d else d);
            d = (if d_set_fup_pwre d then fup_pwre d else d);
            d = (if d_set_fup_exstop d then fup_exstop d else d) in
        (ret, d))"

definition intel_pt_fup_with_nlip :: "('c, 'f) intel_pt_decoder \<Rightarrow> intel_pt_insn \<Rightarrow> u64 \<Rightarrow> int \<Rightarrow> bool" where
  "intel_pt_fup_with_nlip d insn ip err \<longleftrightarrow>
     d_flags d AND INTEL_PT_FUP_WITH_NLIP \<noteq> 0 \<and> err = 0 \<and> pi_branch insn = INTEL_PT_BR_INDIRECT \<and>
     ip = d_ip d + of_nat (pi_length insn)"

definition walk_fup_body ::
  "('c, 'f) pt_env \<Rightarrow> u64 \<Rightarrow> ('c, 'f) intel_pt_decoder \<Rightarrow> ('c, 'f) decode_control"
where
  "walk_fup_body env ip d = do {
     (err, insn, d) \<leftarrow> intel_pt_walk_insn env d ip;
     Some (if err = INTEL_PT_RETURN then Break (0, d)
       else if err = - EAGAIN \<or> intel_pt_fup_with_nlip d insn ip err then
         let (event, d) = intel_pt_fup_event d in Break (if event then 0 else - EAGAIN, d)
       else
         let d = d \<lparr>d_set_fup_tx_flags := False\<rparr> in
         if err \<noteq> 0 then Break (err, d)
         else if pi_branch insn = INTEL_PT_BR_INDIRECT \<or> pi_branch insn = INTEL_PT_BR_CONDITIONAL then
           Break (- ENOENT, d \<lparr>d_pkt_state := INTEL_PT_STATE_ERR_RESYNC\<rparr>)
         else Continue (snd (intel_pt_bug d)))
   }"

definition intel_pt_walk_fup :: "('c, 'f) pt_env \<Rightarrow> ('c, 'f) intel_pt_decoder \<Rightarrow> ('c, 'f) decode_result" where
  "intel_pt_walk_fup env d = forever (walk_fup_body env (d_last_ip d)) d"

text \<open>The end of tracing at an address outside of the filter.\<close>

definition pgd_hit :: "('c, 'f) pt_env \<Rightarrow> ('c, 'f) intel_pt_decoder \<Rightarrow> u64 \<Rightarrow> bool" where
  "pgd_hit env d ip \<longleftrightarrow>
     (case pe_pgd_ip env of None \<Rightarrow> False | Some f \<Rightarrow> d_pkt_state d = INTEL_PT_STATE_TIP_PGD \<and> f (d_data d) ip)"

definition trace_off :: "('c, 'f) intel_pt_decoder \<Rightarrow> ('c, 'f) intel_pt_decoder" where
  "trace_off d = d \<lparr>d_pge := False, d_continuous_period := False\<rparr>"

text \<open>The target of an indirect branch is the address of the packet, if it has one.\<close>

definition to_last_ip :: "('c, 'f) intel_pt_decoder \<Rightarrow> ('c, 'f) intel_pt_decoder" where
  "to_last_ip d =
     (let from_ip = d_ip d in
      if pt_count (d_packet d) = 0 then d \<lparr>d_state := (d_state d) \<lparr>s_from_ip := from_ip, s_to_ip := 0\<rparr>\<rparr>
      else d \<lparr>d_state := (d_state d) \<lparr>s_from_ip := from_ip, s_to_ip := d_last_ip d\<rparr>, d_ip := d_last_ip d\<rparr>)"

definition intel_pt_walk_tip :: "('c, 'f) pt_env \<Rightarrow> ('c, 'f) intel_pt_decoder \<Rightarrow> ('c, 'f) decode_result" where
  "intel_pt_walk_tip env d = do {
     (err, insn, d) \<leftarrow> intel_pt_walk_insn env d 0;
     Some (if err = INTEL_PT_RETURN \<and> s_type (d_state d) AND INTEL_PT_BRANCH \<noteq> 0 \<and> pgd_hit env d (s_to_ip (d_state d)) then
         (0, or_type INTEL_PT_TRACE_END ((trace_off d) \<lparr>d_no_progress := 0, d_pkt_state := INTEL_PT_STATE_IN_SYNC\<rparr>))
       else if err = INTEL_PT_RETURN then (0, d)
       else if err \<noteq> 0 then (err, d)
       else if pi_branch insn = INTEL_PT_BR_INDIRECT then
         (if d_pkt_state d = INTEL_PT_STATE_TIP_PGD then
            (0, or_type INTEL_PT_TRACE_END (to_last_ip ((trace_off d) \<lparr>d_pkt_state := INTEL_PT_STATE_IN_SYNC\<rparr>)))
          else (0, to_last_ip (d \<lparr>d_pkt_state := INTEL_PT_STATE_IN_SYNC\<rparr>)))
       else if pi_branch insn = INTEL_PT_BR_CONDITIONAL then
         let to_ip = insn_target (d_ip d) insn in
         if pgd_hit env d to_ip then
           (0, or_type INTEL_PT_TRACE_END ((trace_off d) \<lparr>d_pkt_state := INTEL_PT_STATE_IN_SYNC, d_ip := to_ip,
             d_state := (d_state d) \<lparr>s_from_ip := to_ip, s_to_ip := to_ip\<rparr>\<rparr>))
         else (- ENOENT, d \<lparr>d_pkt_state := INTEL_PT_STATE_ERR_RESYNC\<rparr>)
       else intel_pt_bug d)
   }"

text \<open>One outcome is used up; the last one ends the state \<open>INTEL_PT_STATE_TNT\<close>.\<close>

definition use_tnt :: "('c, 'f) intel_pt_decoder \<Rightarrow> ('c, 'f) intel_pt_decoder" where
  "use_tnt d =
     (let count = pt_count (d_tnt d) - 1;
          d = d \<lparr>d_tnt := (d_tnt d) \<lparr>pt_count := count\<rparr>\<rparr> in
      if count = 0 then d \<lparr>d_pkt_state := INTEL_PT_STATE_IN_SYNC\<rparr> else d)"

definition shift_tnt :: "('c, 'f) intel_pt_decoder \<Rightarrow> ('c, 'f) intel_pt_decoder" where
  "shift_tnt d = d \<lparr>d_tnt := (d_tnt d) \<lparr>pt_payload := push_bit 1 (pt_payload (d_tnt d))\<rparr>\<rparr>"

definition branch_to :: "u64 \<Rightarrow> ('c, 'f) intel_pt_decoder \<Rightarrow> ('c, 'f) intel_pt_decoder" where
  "branch_to ip d = d \<lparr>d_state := (d_state d) \<lparr>s_from_ip := d_ip d, s_to_ip := ip\<rparr>, d_ip := ip\<rparr>"

definition walk_tnt_ret :: "('c, 'f) intel_pt_decoder \<Rightarrow> int \<times> ('c, 'f) intel_pt_decoder" where
  "walk_tnt_ret d =
     (if \<not> d_return_compression d \<or> d_ret_addr d = 0 \<or> pt_payload (d_tnt d) AND BIT63 = 0
      then (- ENOENT, d \<lparr>d_pkt_state := INTEL_PT_STATE_ERR_RESYNC\<rparr>)
      else (0, branch_to (d_ret_addr d) (shift_tnt (use_tnt d))))"

definition walk_tnt_indirect :: "('c, 'f) pt_env \<Rightarrow> ('c, 'f) intel_pt_decoder \<Rightarrow> ('c, 'f) decode_result" where
  "walk_tnt_indirect env d = do {
     (err, d) \<leftarrow> intel_pt_get_next_packet env d;
     Some (if err \<noteq> 0 then (err, d)
       else if pt_type (d_packet d) \<noteq> INTEL_PT_TIP \<or> pt_count (d_packet d) = 0 then
         (- ENOENT, d \<lparr>d_pkt_state := INTEL_PT_STATE_ERR_RESYNC, d_pkt_step := 0\<rparr>)
       else let d = intel_pt_set_last_ip d in (0, branch_to (d_last_ip d) d))
   }"

definition walk_tnt_body :: "('c, 'f) pt_env \<Rightarrow> ('c, 'f) intel_pt_decoder \<Rightarrow> ('c, 'f) decode_control" where
  "walk_tnt_body env d = do {
     (err, insn, d) \<leftarrow> intel_pt_walk_insn env d 0;
     if err = INTEL_PT_RETURN then Some (Break (0, d))
     else if err \<noteq> 0 then Some (Break (err, d))
     else if pi_op insn = INTEL_PT_OP_RET then Some (Break (walk_tnt_ret d))
     else if pi_branch insn = INTEL_PT_BR_INDIRECT then map_option Break (walk_tnt_indirect env d)
     else if pi_branch insn = INTEL_PT_BR_CONDITIONAL then
       let d = use_tnt d in
       Some (if pt_payload (d_tnt d) AND BIT63 \<noteq> 0 then Break (0, branch_to (insn_target (d_ip d) insn) (shift_tnt d))
         else if s_type (d_state d) AND INTEL_PT_INSTRUCTION \<noteq> 0 then
           let d = from_here INTEL_PT_INSTRUCTION (shift_tnt d) in
           Break (0, d \<lparr>d_ip := d_ip d + of_nat (pi_length insn)\<rparr>)
         else
           let d = d \<lparr>d_ip := d_ip d + of_nat (pi_length insn)\<rparr> in
           if pt_count (d_tnt d) = 0 then Break (- EAGAIN, d) else Continue (shift_tnt d))
     else Some (Break (intel_pt_bug d))
   }"

definition intel_pt_walk_tnt :: "('c, 'f) pt_env \<Rightarrow> ('c, 'f) intel_pt_decoder \<Rightarrow> ('c, 'f) decode_result" where
  "intel_pt_walk_tnt env d = forever (walk_tnt_body env) d"

subsection \<open>Packets in step with the trace\<close>

definition set_cr3 :: "('c, 'f) intel_pt_decoder \<Rightarrow> ('c, 'f) intel_pt_decoder" where
  "set_cr3 d = d \<lparr>d_cr3 := pt_payload (d_packet d) AND (BIT63 - 1)\<rparr>"

definition set_exec_mode :: "('c, 'f) intel_pt_decoder \<Rightarrow> ('c, 'f) intel_pt_decoder" where
  "set_exec_mode d = d \<lparr>d_exec_mode := ucast (pt_payload (d_packet d))\<rparr>"

text \<open>An MTC packet with the sample that \<open>INTEL_PT_PERIOD_MTC\<close> asks for.\<close>

definition mtc_sample :: "'f fp \<Rightarrow> ('c, 'f) intel_pt_decoder \<Rightarrow> ('c, 'f) intel_pt_decoder option" where
  "mtc_sample fp d = do {
     d \<leftarrow> intel_pt_calc_mtc_timestamp fp d;
     Some (if d_period_type d = INTEL_PT_PERIOD_MTC then or_type INTEL_PT_INSTRUCTION d else d)
   }"

definition walk_psbend_body :: "('c, 'f) pt_env \<Rightarrow> ('c, 'f) intel_pt_decoder \<Rightarrow> ('c, 'f) decode_control" where
  "walk_psbend_body env d = do {
     (err, d) \<leftarrow> intel_pt_get_next_packet env d;
     let type = pt_type (d_packet d);
     if err \<noteq> 0 then Some (Break (err, d))
     else if type = INTEL_PT_PSBEND then Some (Break (0, d))
     else if type \<in> {INTEL_PT_TIP_PGD, INTEL_PT_TIP_PGE, INTEL_PT_TIP, INTEL_PT_TNT, INTEL_PT_TRACESTOP, INTEL_PT_BAD, INTEL_PT_PSB,
       INTEL_PT_PTWRITE, INTEL_PT_PTWRITE_IP, INTEL_PT_EXSTOP, INTEL_PT_EXSTOP_IP, INTEL_PT_MWAIT, INTEL_PT_PWRE, INTEL_PT_PWRX}
     then Some (Break (- EAGAIN, d \<lparr>d_have_tma := False\<rparr>))
     else if type = INTEL_PT_OVF then Some (Break (intel_pt_overflow d))
     else if type = INTEL_PT_TSC then map_option Continue (intel_pt_calc_tsc_timestamp (pe_fp env) d)
     else if type = INTEL_PT_TMA then Some (Continue (intel_pt_calc_tma d))
     else if type = INTEL_PT_CBR then Some (Continue (intel_pt_calc_cbr (pe_fp env) d))
     else if type = INTEL_PT_MODE_EXEC then Some (Continue (set_exec_mode d))
     else if type = INTEL_PT_PIP then Some (Continue (set_cr3 d))
     else if type = INTEL_PT_FUP then
       let d = d \<lparr>d_pge := True\<rparr> in Some (Continue (if pt_count (d_packet d) \<noteq> 0 then intel_pt_set_last_ip d else d))
     else if type = INTEL_PT_MODE_TSX then Some (Continue (intel_pt_update_in_tx d))
     else if type = INTEL_PT_MTC then map_option Continue (mtc_sample (pe_fp env) d)
     else Some (Continue d)
   }"

definition intel_pt_walk_psbend :: "('c, 'f) pt_env \<Rightarrow> ('c, 'f) intel_pt_decoder \<Rightarrow> ('c, 'f) decode_result" where
  "intel_pt_walk_psbend env d = forever (walk_psbend_body env) d"

text \<open>The target of a TIP packet.\<close>

definition tip_target :: "u64 \<Rightarrow> ('c, 'f) intel_pt_decoder \<Rightarrow> ('c, 'f) intel_pt_decoder" where
  "tip_target from_ip d =
     (let d = d \<lparr>d_state := (d_state d) \<lparr>s_from_ip := from_ip\<rparr>\<rparr> in
      if pt_count (d_packet d) = 0 then d \<lparr>d_state := (d_state d) \<lparr>s_to_ip := 0\<rparr>\<rparr>
      else let d = intel_pt_set_ip d in d \<lparr>d_state := (d_state d) \<lparr>s_to_ip := d_ip d\<rparr>\<rparr>)"

definition walk_fup_tip_body :: "('c, 'f) pt_env \<Rightarrow> ('c, 'f) intel_pt_decoder \<Rightarrow> ('c, 'f) decode_control" where
  "walk_fup_tip_body env d = do {
     (err, d) \<leftarrow> intel_pt_get_next_packet env d;
     let type = pt_type (d_packet d);
     if err \<noteq> 0 then Some (Break (err, d))
     else if type \<in> {INTEL_PT_TNT, INTEL_PT_FUP, INTEL_PT_TRACESTOP, INTEL_PT_PSB, INTEL_PT_TSC, INTEL_PT_TMA, INTEL_PT_MODE_TSX, INTEL_PT_BAD,
       INTEL_PT_PSBEND, INTEL_PT_PTWRITE, INTEL_PT_PTWRITE_IP, INTEL_PT_EXSTOP, INTEL_PT_EXSTOP_IP, INTEL_PT_MWAIT, INTEL_PT_PWRE, INTEL_PT_PWRX}
     then Some (Break (- ENOENT, d \<lparr>d_pkt_state := INTEL_PT_STATE_ERR_RESYNC, d_pkt_step := 0\<rparr>))
     else if type = INTEL_PT_CBR then Some (Continue (intel_pt_calc_cbr (pe_fp env) d))
     else if type = INTEL_PT_OVF then Some (Break (intel_pt_overflow d))
     else if type = INTEL_PT_TIP_PGD then Some (Break (0, or_type INTEL_PT_TRACE_END (trace_off (tip_target (d_ip d) d))))
     else if type = INTEL_PT_TIP_PGE then Some (Break (0, or_type INTEL_PT_TRACE_BEGIN (tip_target 0 (d \<lparr>d_pge := True\<rparr>))))
     else if type = INTEL_PT_TIP then Some (Break (0, tip_target (d_ip d) d))
     else if type = INTEL_PT_PIP then Some (Continue (set_cr3 d))
     else if type = INTEL_PT_MTC then map_option Continue (mtc_sample (pe_fp env) d)
     else if type = INTEL_PT_CYC then Some (Continue (intel_pt_calc_cyc_timestamp (pe_fp env) d))
     else if type = INTEL_PT_MODE_EXEC then Some (Continue (set_exec_mode d))
     else if type \<in> {INTEL_PT_VMCS, INTEL_PT_MNT, INTEL_PT_PAD} then Some (Continue d)
     else Some (Break (intel_pt_bug d))
   }"

definition intel_pt_walk_fup_tip :: "('c, 'f) pt_env \<Rightarrow> ('c, 'f) intel_pt_decoder \<Rightarrow> ('c, 'f) decode_result" where
  "intel_pt_walk_fup_tip env d =
     (let d = (if d_tx_flags d AND INTEL_PT_ABORT_TX \<noteq> 0 then
        d \<lparr>d_tx_flags := 0, d_state := (d_state d) \<lparr>s_flags := (s_flags (d_state d) AND NOT INTEL_PT_IN_TX) OR INTEL_PT_ABORT_TX\<rparr>\<rparr>
      else or_flags INTEL_PT_ASYNC d) in
      forever (walk_fup_tip_body env) d)"

definition intel_pt_mode_tsx ::
  "('c, 'f) pt_env \<Rightarrow> ('c, 'f) intel_pt_decoder \<Rightarrow> bool \<Rightarrow> (int \<times> bool \<times> ('c, 'f) intel_pt_decoder) option"
where
  "intel_pt_mode_tsx env d no_tip = do {
     let fup_tx_flags = ucast (pt_payload (d_packet d)) AND (INTEL_PT_IN_TX OR INTEL_PT_ABORT_TX);
     (err, d) \<leftarrow> intel_pt_get_next_packet env d;
     Some (if err \<noteq> 0 then (err, no_tip, d)
       else if pt_type (d_packet d) = INTEL_PT_FUP then
         (0, no_tip \<or> fup_tx_flags AND INTEL_PT_ABORT_TX = 0, d \<lparr>d_fup_tx_flags := fup_tx_flags, d_set_fup_tx_flags := True\<rparr>)
       else (0, no_tip, intel_pt_update_in_tx d))
   }"

text \<open>
  The loop of \<open>intel_pt_walk_trace\<close>.  Its state is the decoder, \<open>no_tip\<close>, and whether it is at the label \<open>next\<close>, where the packet
  is there already.
\<close>

type_synonym ('c, 'f) trace_state = "('c, 'f) intel_pt_decoder \<times> bool \<times> bool"
type_synonym ('c, 'f) trace_control = "(('c, 'f) trace_state, int \<times> ('c, 'f) intel_pt_decoder) control option"

definition trace_fup :: "('c, 'f) pt_env \<Rightarrow> ('c, 'f) intel_pt_decoder \<Rightarrow> bool \<Rightarrow> ('c, 'f) trace_control" where
  "trace_fup env d no_tip =
     (if pt_count (d_packet d) = 0 then Some (Continue (d, False, False))
      else
        let d = intel_pt_set_last_ip d in
        if \<not> d_branch_enable d then
          let (event, d) = intel_pt_fup_event (d \<lparr>d_ip := d_last_ip d\<rparr>) in
          Some (if event then Break (0, d) else Continue (d, False, False))
        else do {
          let no_tip = (no_tip \<or> d_set_fup_mwait d);
          (err, d) \<leftarrow> intel_pt_walk_fup env d;
          if err \<noteq> - EAGAIN then
            Some (Break (if err \<noteq> 0 then (err, d)
              else (0, d \<lparr>d_pkt_state := (if no_tip then INTEL_PT_STATE_FUP_NO_TIP else INTEL_PT_STATE_FUP)\<rparr>)))
          else if no_tip then Some (Continue (d, False, False))
          else map_option Break (intel_pt_walk_fup_tip env d)
        })"

definition trace_psb :: "('c, 'f) pt_env \<Rightarrow> ('c, 'f) intel_pt_decoder \<Rightarrow> bool \<Rightarrow> ('c, 'f) trace_control" where
  "trace_psb env d no_tip = do {
     (err, d) \<leftarrow> intel_pt_walk_psbend env
       (d \<lparr>d_last_ip := 0, d_have_last_ip := True, d_stack := intel_pt_clear_stack (d_stack d)\<rparr>);
     Some (if err = - EAGAIN then Continue (d, no_tip, True)
       else if err \<noteq> 0 then Break (err, d)
       else Continue (d, no_tip, False))
   }"

definition trace_mtc :: "'f fp \<Rightarrow> ('c, 'f) intel_pt_decoder \<Rightarrow> bool \<Rightarrow> ('c, 'f) trace_control" where
  "trace_mtc fp d no_tip = do {
     d \<leftarrow> intel_pt_calc_mtc_timestamp fp d;
     if d_period_type d \<noteq> INTEL_PT_PERIOD_MTC \<or> \<not> d_mtc_insn d then Some (Continue (d, no_tip, False))
     else
       let d = d \<lparr>d_mtc_insn := False\<rparr> in
       Some (if d_timestamp d = 0 then Continue (d, no_tip, False) else Break (0, from_here INTEL_PT_INSTRUCTION d))
   }"

definition trace_cbr :: "'f fp \<Rightarrow> ('c, 'f) intel_pt_decoder \<Rightarrow> bool \<Rightarrow> ('c, 'f) trace_control" where
  "trace_cbr fp d no_tip =
     (let d = intel_pt_calc_cbr fp d in
      Some (if \<not> d_branch_enable d \<and> d_cbr d \<noteq> d_cbr_seen d then
          let d = from_here INTEL_PT_CBR_CHG (d \<lparr>d_cbr_seen := d_cbr d\<rparr>) in
          Break (0, d \<lparr>d_state := (d_state d) \<lparr>s_cbr_payload := pt_payload (d_packet d)\<rparr>\<rparr>)
        else Continue (d, no_tip, False)))"

definition trace_mode_tsx :: "('c, 'f) pt_env \<Rightarrow> ('c, 'f) intel_pt_decoder \<Rightarrow> bool \<Rightarrow> ('c, 'f) trace_control" where
  "trace_mode_tsx env d no_tip =
     (if \<not> d_pge d then Some (Continue (intel_pt_update_in_tx d, no_tip, False))
      else do {
        (err, no_tip, d) \<leftarrow> intel_pt_mode_tsx env d no_tip;
        Some (if err \<noteq> 0 then Break (err, d) else Continue (d, no_tip, True))
      })"

text \<open>\<open>INTEL_PT_PTWRITE_IP\<close> and \<open>INTEL_PT_EXSTOP_IP\<close>: a FUP packet has to follow, and \<open>fup\<close> notes what it is for.\<close>

definition trace_then_fup ::
  "('c, 'f) pt_env \<Rightarrow> (('c, 'f) intel_pt_decoder \<Rightarrow> ('c, 'f) intel_pt_decoder) \<Rightarrow> ('c, 'f) intel_pt_decoder \<Rightarrow> bool \<Rightarrow> ('c, 'f) trace_control"
where
  "trace_then_fup env fup d no_tip = do {
     (err, d) \<leftarrow> intel_pt_get_next_packet env d;
     Some (if err \<noteq> 0 then Break (err, d)
       else if pt_type (d_packet d) = INTEL_PT_FUP then Continue (fup d, True, True)
       else Continue (d, no_tip, True))
   }"

definition trace_pwre :: "('c, 'f) intel_pt_decoder \<Rightarrow> bool \<Rightarrow> ('c, 'f) trace_control" where
  "trace_pwre d no_tip =
     Some (if d_set_fup_mwait d then
         Continue (d \<lparr>d_fup_pwre_payload := pt_payload (d_packet d), d_set_fup_pwre := True\<rparr>, no_tip, False)
       else
         let d = from_here INTEL_PT_PWR_ENTRY d in
         Break (0, d \<lparr>d_state := (d_state d) \<lparr>s_pwrx_payload := pt_payload (d_packet d)\<rparr>\<rparr>))"

definition trace_packet :: "('c, 'f) pt_env \<Rightarrow> ('c, 'f) intel_pt_decoder \<Rightarrow> bool \<Rightarrow> ('c, 'f) trace_control" where
  "trace_packet env d no_tip = (case pt_type (d_packet d) of
     INTEL_PT_TNT \<Rightarrow>
       if pt_count (d_packet d) = 0 then Some (Continue (d, no_tip, False))
       else do {
         (err, d) \<leftarrow> intel_pt_walk_tnt env (d \<lparr>d_tnt := d_packet d, d_pkt_state := INTEL_PT_STATE_TNT\<rparr>);
         Some (if err = - EAGAIN then Continue (d, no_tip, False) else Break (err, d))
       }
   | INTEL_PT_TIP_PGD \<Rightarrow>
       let d = (if pt_count (d_packet d) \<noteq> 0 then intel_pt_set_last_ip d else d) in
       map_option Break (intel_pt_walk_tip env (d \<lparr>d_pkt_state := INTEL_PT_STATE_TIP_PGD\<rparr>))
   | INTEL_PT_TIP_PGE \<Rightarrow>
       let d = d \<lparr>d_pge := True\<rparr> in
       if pt_count (d_packet d) = 0 then Some (Continue (d, no_tip, False))
       else
         let d = intel_pt_set_ip d in
         Some (Break (0, or_type INTEL_PT_TRACE_BEGIN (d \<lparr>d_state := (d_state d) \<lparr>s_from_ip := 0, s_to_ip := d_ip d\<rparr>\<rparr>)))
   | INTEL_PT_OVF \<Rightarrow> Some (Break (intel_pt_overflow d))
   | INTEL_PT_TIP \<Rightarrow>
       let d = (if pt_count (d_packet d) \<noteq> 0 then intel_pt_set_last_ip d else d) in
       map_option Break (intel_pt_walk_tip env (d \<lparr>d_pkt_state := INTEL_PT_STATE_TIP\<rparr>))
   | INTEL_PT_FUP \<Rightarrow> trace_fup env d no_tip
   | INTEL_PT_TRACESTOP \<Rightarrow>
       Some (Continue ((intel_pt_clear_tx_flags (trace_off d)) \<lparr>d_have_tma := False\<rparr>, no_tip, False))
   | INTEL_PT_PSB \<Rightarrow> trace_psb env d no_tip
   | INTEL_PT_PIP \<Rightarrow> Some (Continue (set_cr3 d, no_tip, False))
   | INTEL_PT_MTC \<Rightarrow> trace_mtc (pe_fp env) d no_tip
   | INTEL_PT_TSC \<Rightarrow> do { d \<leftarrow> intel_pt_calc_tsc_timestamp (pe_fp env) d; Some (Continue (d, no_tip, False)) }
   | INTEL_PT_TMA \<Rightarrow> Some (Continue (intel_pt_calc_tma d, no_tip, False))
   | INTEL_PT_CYC \<Rightarrow> Some (Continue (intel_pt_calc_cyc_timestamp (pe_fp env) d, no_tip, False))
   | INTEL_PT_CBR \<Rightarrow> trace_cbr (pe_fp env) d no_tip
   | INTEL_PT_MODE_EXEC \<Rightarrow> Some (Continue (set_exec_mode d, no_tip, False))
   | INTEL_PT_MODE_TSX \<Rightarrow> trace_mode_tsx env d no_tip
   | INTEL_PT_BAD \<Rightarrow> Some (Break (intel_pt_bug d))
   | INTEL_PT_PSBEND \<Rightarrow> Some (Continue (d, no_tip, False))
   | INTEL_PT_VMCS \<Rightarrow> Some (Continue (d, no_tip, False))
   | INTEL_PT_MNT \<Rightarrow> Some (Continue (d, no_tip, False))
   | INTEL_PT_PAD \<Rightarrow> Some (Continue (d, no_tip, False))
   | INTEL_PT_PTWRITE_IP \<Rightarrow>
       trace_then_fup env (\<lambda>d. d \<lparr>d_set_fup_ptw := True\<rparr>) (d \<lparr>d_fup_ptw_payload := pt_payload (d_packet d)\<rparr>) no_tip
   | INTEL_PT_PTWRITE \<Rightarrow>
       let d = from_here INTEL_PT_PTW d in
       Some (Break (0, d \<lparr>d_state := (d_state d) \<lparr>s_ptw_payload := pt_payload (d_packet d)\<rparr>\<rparr>))
   | INTEL_PT_MWAIT \<Rightarrow>
       Some (Continue (d \<lparr>d_fup_mwait_payload := pt_payload (d_packet d), d_set_fup_mwait := True\<rparr>, no_tip, False))
   | INTEL_PT_PWRE \<Rightarrow> trace_pwre d no_tip
   | INTEL_PT_EXSTOP_IP \<Rightarrow> trace_then_fup env (\<lambda>d. d \<lparr>d_set_fup_exstop := True\<rparr>) d no_tip
   | INTEL_PT_EXSTOP \<Rightarrow> Some (Break (0, from_here INTEL_PT_EX_STOP d))
   | INTEL_PT_PWRX \<Rightarrow>
       let d = from_here INTEL_PT_PWR_EXIT d in
       Some (Break (0, d \<lparr>d_state := (d_state d) \<lparr>s_pwrx_payload := pt_payload (d_packet d)\<rparr>\<rparr>)))"

definition walk_trace_body :: "('c, 'f) pt_env \<Rightarrow> ('c, 'f) trace_state \<Rightarrow> ('c, 'f) trace_control" where
  "walk_trace_body env s =
     (case s of (d, no_tip, at_next) \<Rightarrow>
        if at_next then trace_packet env d no_tip
        else do {
          (err, d) \<leftarrow> intel_pt_get_next_packet env d;
          if err \<noteq> 0 then Some (Break (err, d)) else trace_packet env d no_tip
        })"

definition intel_pt_walk_trace :: "('c, 'f) pt_env \<Rightarrow> ('c, 'f) intel_pt_decoder \<Rightarrow> ('c, 'f) decode_result" where
  "intel_pt_walk_trace env d = forever (walk_trace_body env) (d, False, False)"

subsection \<open>Getting in step\<close>

definition intel_pt_have_ip :: "('c, 'f) intel_pt_decoder \<Rightarrow> bool" where
  "intel_pt_have_ip d \<longleftrightarrow> pt_count (d_packet d) \<noteq> 0 \<and>
     (d_have_last_ip d \<or> pt_count (d_packet d) = 3 \<or> pt_count (d_packet d) = 6)"

text \<open>Packets that \<open>intel_pt_walk_psb\<close> and \<open>intel_pt_walk_to_ip\<close> treat in the same way; \<open>None\<close> under \<open>Some\<close> for the others.\<close>

definition sync_packet :: "'f fp \<Rightarrow> ('c, 'f) intel_pt_decoder \<Rightarrow> ('c, 'f) intel_pt_decoder option option" where
  "sync_packet fp d = (case pt_type (d_packet d) of
     INTEL_PT_MTC \<Rightarrow> map_option Some (intel_pt_calc_mtc_timestamp fp d)
   | INTEL_PT_TSC \<Rightarrow> map_option Some (intel_pt_calc_tsc_timestamp fp d)
   | INTEL_PT_TMA \<Rightarrow> Some (Some (intel_pt_calc_tma d))
   | INTEL_PT_CYC \<Rightarrow> Some (Some (intel_pt_calc_cyc_timestamp fp d))
   | INTEL_PT_CBR \<Rightarrow> Some (Some (intel_pt_calc_cbr fp d))
   | INTEL_PT_PIP \<Rightarrow> Some (Some (set_cr3 d))
   | INTEL_PT_MODE_EXEC \<Rightarrow> Some (Some (set_exec_mode d))
   | INTEL_PT_MODE_TSX \<Rightarrow> Some (Some (intel_pt_update_in_tx d))
   | _ \<Rightarrow> Some None)"

definition walk_psb_unexpected :: "('c, 'f) intel_pt_decoder \<Rightarrow> int \<times> ('c, 'f) intel_pt_decoder" where
  "walk_psb_unexpected d = (- ENOENT, d \<lparr>d_have_tma := False,
     d_pkt_state := (if d_ip d \<noteq> 0 then INTEL_PT_STATE_IN_SYNC else INTEL_PT_STATE_ERR_RESYNC)\<rparr>)"

definition walk_psb_body :: "('c, 'f) pt_env \<Rightarrow> ('c, 'f) intel_pt_decoder \<Rightarrow> ('c, 'f) decode_control" where
  "walk_psb_body env d = do {
     (err, d) \<leftarrow> intel_pt_get_next_packet env d;
     let type = pt_type (d_packet d);
     if err \<noteq> 0 then Some (Break (err, d))
     else if type = INTEL_PT_TIP_PGD then Some (Break (- ENOENT, d \<lparr>d_continuous_period := False\<rparr>))
     else if type \<in> {INTEL_PT_TIP_PGE, INTEL_PT_TIP, INTEL_PT_PTWRITE, INTEL_PT_PTWRITE_IP, INTEL_PT_EXSTOP, INTEL_PT_EXSTOP_IP,
       INTEL_PT_MWAIT, INTEL_PT_PWRE, INTEL_PT_PWRX} then Some (Break (- ENOENT, d))
     else if type = INTEL_PT_FUP then
       let d = d \<lparr>d_pge := True\<rparr> in Some (Continue (if intel_pt_have_ip d then intel_pt_set_ip d else d))
     else if type = INTEL_PT_TRACESTOP then Some (Break (walk_psb_unexpected (intel_pt_clear_tx_flags (trace_off d))))
     else if type = INTEL_PT_TNT then Some (Break (walk_psb_unexpected d))
     else if type = INTEL_PT_BAD then Some (Break (intel_pt_bug d))
     else if type = INTEL_PT_OVF then Some (Break (intel_pt_overflow d))
     else if type = INTEL_PT_PSBEND then Some (Break (0, d))
     else do {
       r \<leftarrow> sync_packet (pe_fp env) d;
       Some (Continue (case r of Some d \<Rightarrow> d | None \<Rightarrow> d))
     }
   }"

definition intel_pt_walk_psb :: "('c, 'f) pt_env \<Rightarrow> ('c, 'f) intel_pt_decoder \<Rightarrow> ('c, 'f) decode_result" where
  "intel_pt_walk_psb env d = forever (walk_psb_body env) d"

definition to_ip_tip :: "('c, 'f) intel_pt_decoder \<Rightarrow> ('c, 'f) decode_control" where
  "to_ip_tip d =
     (let type = pt_type (d_packet d);
          d = (if type = INTEL_PT_TIP_PGD then d \<lparr>d_continuous_period := False\<rparr> else d) \<lparr>d_pge := (type \<noteq> INTEL_PT_TIP_PGD)\<rparr>;
          d = (if intel_pt_have_ip d then intel_pt_set_ip d else d) in
      Some (if d_ip d = 0 then Continue d
        else Break (0, if type = INTEL_PT_TIP_PGE then or_type INTEL_PT_TRACE_BEGIN d
          else if type = INTEL_PT_TIP_PGD then or_type INTEL_PT_TRACE_END d else d)))"

definition to_ip_psb :: "('c, 'f) pt_env \<Rightarrow> ('c, 'f) intel_pt_decoder \<Rightarrow> ('c, 'f) decode_control" where
  "to_ip_psb env d = do {
     (err, d) \<leftarrow> intel_pt_walk_psb env
       (d \<lparr>d_last_ip := 0, d_have_last_ip := True, d_stack := intel_pt_clear_stack (d_stack d)\<rparr>);
     Some (if err \<noteq> 0 then Break (err, d)
       else if d_ip d \<noteq> 0 then Break (0, d \<lparr>d_state := (d_state d) \<lparr>s_type := 0\<rparr>\<rparr>)
       else Continue d)
   }"

definition walk_to_ip_body :: "('c, 'f) pt_env \<Rightarrow> ('c, 'f) intel_pt_decoder \<Rightarrow> ('c, 'f) decode_control" where
  "walk_to_ip_body env d = do {
     (err, d) \<leftarrow> intel_pt_get_next_packet env d;
     let type = pt_type (d_packet d);
     if err \<noteq> 0 then Some (Break (err, d))
     else if type \<in> {INTEL_PT_TIP_PGD, INTEL_PT_TIP_PGE, INTEL_PT_TIP} then to_ip_tip d
     else if type = INTEL_PT_FUP then
       let d = (if intel_pt_have_ip d then intel_pt_set_ip d else d) in Some (if d_ip d \<noteq> 0 then Break (0, d) else Continue d)
     else if type = INTEL_PT_OVF then Some (Break (intel_pt_overflow d))
     else if type = INTEL_PT_BAD then Some (Break (intel_pt_bug d))
     else if type = INTEL_PT_TRACESTOP then
       Some (Continue ((intel_pt_clear_tx_flags (trace_off d)) \<lparr>d_have_tma := False\<rparr>))
     else if type = INTEL_PT_PSB then to_ip_psb env d
     else do {
       r \<leftarrow> sync_packet (pe_fp env) d;
       Some (Continue (case r of Some d \<Rightarrow> d | None \<Rightarrow> d))
     }
   }"

definition intel_pt_walk_to_ip :: "('c, 'f) pt_env \<Rightarrow> ('c, 'f) intel_pt_decoder \<Rightarrow> ('c, 'f) decode_result" where
  "intel_pt_walk_to_ip env d = forever (walk_to_ip_body env) d"

definition intel_pt_sync_ip :: "('c, 'f) pt_env \<Rightarrow> ('c, 'f) intel_pt_decoder \<Rightarrow> ('c, 'f) decode_result" where
  "intel_pt_sync_ip env d =
     (let d = d \<lparr>d_set_fup_tx_flags := False, d_set_fup_ptw := False, d_set_fup_mwait := False, d_set_fup_pwre := False,
        d_set_fup_exstop := False\<rparr> in
      if \<not> d_branch_enable d then
        Some (0, d \<lparr>d_pkt_state := INTEL_PT_STATE_IN_SYNC, d_overflow := False, d_state := (d_state d) \<lparr>s_type := 0\<rparr>\<rparr>)
      else do {
        (err, d) \<leftarrow> intel_pt_walk_to_ip env d;
        Some (if err \<noteq> 0 then (err, d)
          else (0, d \<lparr>d_pkt_state := INTEL_PT_STATE_IN_SYNC, d_overflow := False,
            d_state := (d_state d) \<lparr>s_from_ip := 0, s_to_ip := d_ip d\<rparr>\<rparr>))
      })"

subsection \<open>Scanning for a PSB packet\<close>

definition PSB_STR :: "u8 list" where
  "PSB_STR = concat (replicate 8 [0x02, 0x82])"

text \<open>\<open>memmem\<close>: the offset of the first place where the bytes occur.\<close>

fun memmem :: "u8 list \<Rightarrow> u8 list \<Rightarrow> nat option" where
  "memmem hay needle =
     (if take (length needle) hay = needle then Some 0
      else (case hay of [] \<Rightarrow> None | b # rest \<Rightarrow> map_option Suc (memmem rest needle)))"

declare memmem.simps [simp del]

text \<open>The loop from \<open>i\<close> down to 1: the longest proper prefix of a PSB at the end of the bytes.\<close>

fun part_psb_loop :: "u8 list \<Rightarrow> nat \<Rightarrow> nat" where
  "part_psb_loop bytes 0 = 0"
| "part_psb_loop bytes (Suc i) =
     (if Suc i > length bytes then part_psb_loop bytes i
      else if drop (length bytes - Suc i) bytes = take (Suc i) PSB_STR then Suc i
      else part_psb_loop bytes i)"

definition intel_pt_part_psb :: "('c, 'f) intel_pt_decoder \<Rightarrow> nat option" where
  "intel_pt_part_psb d =
     (if d_len d > length (d_buf d) then None else Some (part_psb_loop (take (d_len d) (d_buf d)) (INTEL_PT_PSB_LEN - 1)))"

definition intel_pt_rest_psb :: "('c, 'f) intel_pt_decoder \<Rightarrow> nat \<Rightarrow> nat option" where
  "intel_pt_rest_psb d part_psb =
     (let rest_psb = INTEL_PT_PSB_LEN - part_psb in
      if rest_psb > d_len d then Some 0
      else if rest_psb > length (d_buf d) then None
      else Some (if take rest_psb (d_buf d) = drop part_psb PSB_STR then rest_psb else 0))"

definition intel_pt_get_split_psb :: "('c, 'f) pt_env \<Rightarrow> ('c, 'f) intel_pt_decoder \<Rightarrow> nat \<Rightarrow> ('c, 'f) decode_result" where
  "intel_pt_get_split_psb env d part_psb = do {
     let (ret, d) = intel_pt_get_next_data env (d \<lparr>d_pos := d_pos d + of_nat (d_len d), d_len := 0\<rparr>);
     if ret \<noteq> 0 then Some (ret, d)
     else do {
       rest_psb \<leftarrow> intel_pt_rest_psb d part_psb;
       if rest_psb = 0 then Some (0, d)
       else do {
         next_buf \<leftarrow> ptr_add (d_buf d) rest_psb;
         temp \<leftarrow> memcpy_at (d_temp_buf d) 0 PSB_STR INTEL_PT_PSB_LEN;
         Some (0, d \<lparr>d_pos := d_pos d - of_nat part_psb, d_next_buf := Some next_buf, d_next_len := size_sub (d_len d) rest_psb,
           d_temp_buf := temp, d_buf := temp, d_in_temp := True, d_len := INTEL_PT_PSB_LEN\<rparr>)
       }
     }
   }"

text \<open>The loop at a buffer that is not empty.\<close>

definition scan_buffer :: "('c, 'f) pt_env \<Rightarrow> ('c, 'f) intel_pt_decoder \<Rightarrow> ('c, 'f) decode_control" where
  "scan_buffer env d =
     (if d_len d > length (d_buf d) then None
      else (case memmem (take (d_len d) (d_buf d)) PSB_STR of
          Some n \<Rightarrow> map_option Break (intel_pt_get_next_packet env (d \<lparr>d_pkt_step := n\<rparr>))
        | None \<Rightarrow> do {
            part_psb \<leftarrow> intel_pt_part_psb d;
            if part_psb \<noteq> 0 then do {
              (ret, d) \<leftarrow> intel_pt_get_split_psb env d part_psb;
              Some (if ret \<noteq> 0 then Break (ret, d) else Continue d)
            }
            else Some (Continue (d \<lparr>d_pos := d_pos d + of_nat (d_len d), d_len := 0\<rparr>))
          }))"

definition scan_for_psb_body :: "('c, 'f) pt_env \<Rightarrow> ('c, 'f) intel_pt_decoder \<Rightarrow> ('c, 'f) decode_control" where
  "scan_for_psb_body env d =
     (let (ret, d) = (if d_len d = 0 then intel_pt_get_next_data env d else (0, d)) in
      if ret \<noteq> 0 then Some (Break (ret, d)) else scan_buffer env d)"

definition intel_pt_scan_for_psb :: "('c, 'f) pt_env \<Rightarrow> ('c, 'f) intel_pt_decoder \<Rightarrow> ('c, 'f) decode_result" where
  "intel_pt_scan_for_psb env d = forever (scan_for_psb_body env) d"

definition intel_pt_sync :: "('c, 'f) pt_env \<Rightarrow> ('c, 'f) intel_pt_decoder \<Rightarrow> ('c, 'f) decode_result" where
  "intel_pt_sync env d = do {
     (err, d) \<leftarrow> intel_pt_scan_for_psb env ((trace_off d)
       \<lparr>d_have_last_ip := False, d_last_ip := 0, d_ip := 0, d_stack := intel_pt_clear_stack (d_stack d)\<rparr>);
     if err \<noteq> 0 then Some (err, d)
     else do {
       (err, d) \<leftarrow> intel_pt_walk_psb env (d \<lparr>d_have_last_ip := True, d_pkt_state := INTEL_PT_STATE_NO_IP\<rparr>);
       if err \<noteq> 0 then Some (err, d)
       else if d_ip d \<noteq> 0 then
         Some (0, d \<lparr>d_state := (d_state d) \<lparr>s_type := 0\<rparr>, d_pkt_state := INTEL_PT_STATE_IN_SYNC\<rparr>)
       else intel_pt_sync_ip env d
     }
   }"

subsection \<open>The decoder\<close>

definition intel_pt_est_timestamp :: "('c, 'f) intel_pt_decoder \<Rightarrow> u64" where
  "intel_pt_est_timestamp d =
     (let est = push_bit 1 (d_sample_insn_cnt d) in
      d_sample_timestamp d +
        (if d_cbr d = 0 \<or> d_max_non_turbo_ratio d = 0 then est
         else est * ucast (d_max_non_turbo_ratio d) div ucast (d_cbr d)))"

definition decode_in_state :: "('c, 'f) pt_env \<Rightarrow> ('c, 'f) intel_pt_decoder \<Rightarrow> ('c, 'f) decode_result" where
  "decode_in_state env d = (case d_pkt_state d of
     INTEL_PT_STATE_NO_PSB \<Rightarrow> intel_pt_sync env d
   | INTEL_PT_STATE_NO_IP \<Rightarrow> intel_pt_sync_ip env (d \<lparr>d_have_last_ip := False, d_last_ip := 0, d_ip := 0\<rparr>)
   | INTEL_PT_STATE_ERR_RESYNC \<Rightarrow> intel_pt_sync_ip env d
   | INTEL_PT_STATE_IN_SYNC \<Rightarrow> intel_pt_walk_trace env d
   | INTEL_PT_STATE_TNT \<Rightarrow> do {
       (err, d) \<leftarrow> intel_pt_walk_tnt env d;
       if err = - EAGAIN then intel_pt_walk_trace env d else Some (err, d)
     }
   | INTEL_PT_STATE_TIP \<Rightarrow> intel_pt_walk_tip env d
   | INTEL_PT_STATE_TIP_PGD \<Rightarrow> intel_pt_walk_tip env d
   | INTEL_PT_STATE_FUP \<Rightarrow> do {
       (err, d) \<leftarrow> intel_pt_walk_fup env (d \<lparr>d_pkt_state := INTEL_PT_STATE_IN_SYNC\<rparr>);
       if err = - EAGAIN then intel_pt_walk_fup_tip env d
       else Some (err, if err = 0 then d \<lparr>d_pkt_state := INTEL_PT_STATE_FUP\<rparr> else d)
     }
   | INTEL_PT_STATE_FUP_NO_TIP \<Rightarrow> do {
       (err, d) \<leftarrow> intel_pt_walk_fup env (d \<lparr>d_pkt_state := INTEL_PT_STATE_IN_SYNC\<rparr>);
       if err = - EAGAIN then intel_pt_walk_trace env d else Some (err, d)
     })"

definition decode_body :: "('c, 'f) pt_env \<Rightarrow> ('c, 'f) intel_pt_decoder \<Rightarrow> ('c, 'f) decode_control" where
  "decode_body env d = do {
     (err, d) \<leftarrow> decode_in_state env (d \<lparr>d_state := (d_state d) \<lparr>s_type := INTEL_PT_BRANCH, s_flags := 0\<rparr>\<rparr>);
     Some (if err = - ENOLINK then Continue d else Break (err, d))
   }"

definition sample_now :: "('c, 'f) intel_pt_decoder \<Rightarrow> ('c, 'f) intel_pt_decoder" where
  "sample_now d = d \<lparr>d_sample_timestamp := d_timestamp d, d_sample_insn_cnt := d_timestamp_insn_cnt d\<rparr>"

definition decode_end :: "int \<Rightarrow> ('c, 'f) intel_pt_decoder \<Rightarrow> ('c, 'f) intel_pt_decoder" where
  "decode_end err d =
     (if err \<noteq> 0 then sample_now (d \<lparr>d_state := (d_state d) \<lparr>s_err := Some (intel_pt_ext_err err), s_from_ip := d_ip d\<rparr>\<rparr>)
      else
        let d = d \<lparr>d_state := (d_state d) \<lparr>s_err := None\<rparr>\<rparr>;
            d = (if d_cbr d \<noteq> d_cbr_seen d \<and> s_type (d_state d) \<noteq> 0 then
                   d \<lparr>d_cbr_seen := d_cbr d, d_state := (d_state d)
                     \<lparr>s_type := s_type (d_state d) OR INTEL_PT_CBR_CHG, s_cbr_payload := d_cbr_payload d\<rparr>\<rparr>
                 else d) in
        if intel_pt_sample_time (d_pkt_state d) then sample_now d else d)"

text \<open>The sample is the field \<open>state\<close> of the decoder.\<close>

definition intel_pt_decode :: "('c, 'f) pt_env \<Rightarrow> ('c, 'f) intel_pt_decoder \<Rightarrow> ('c, 'f) intel_pt_decoder option" where
  "intel_pt_decode env d = do {
     (err, d) \<leftarrow> forever (decode_body env) d;
     let d = decode_end err d;
     Some (d \<lparr>d_state := (d_state d) \<lparr>s_timestamp := d_sample_timestamp d, s_est_timestamp := intel_pt_est_timestamp d,
       s_cr3 := d_cr3 d, s_tot_insn_cnt := d_tot_insn_cnt d\<rparr>\<rparr>)
   }"

end
