(* ===== verification/Intel_PT_Progress.thy ===== *)
theory Intel_PT_Progress
  imports Intel_PT_Decode
begin

text \<open>
  The Intel PT decoder always returns: for every client that keeps its contract, \<open>intel_pt_decode\<close> ends, reads and writes within its buffers, keeps its
  invariant, and never reports an internal error.

  Every operation has a lemma \<open>f_ends\<close>.  It says that the operation is defined, and how it ends: the invariant holds, and there is not more data in front
  of the decoder than before.  A loop over packets ends because a packet has at least one byte; the loop of \<open>intel_pt_decode\<close> ends because \<open>ENOLINK\<close> means
  that the client gave a new buffer, or that the decoder lost its address and goes on to the next packet that has one.
\<close>

section \<open>The contract of the client and the invariant\<close>

text \<open>The client does not get new data while it walks the instructions of the program, and an instruction has its buffer.\<close>

definition walk_law :: "('c, 'f) pt_env \<Rightarrow> ('c \<Rightarrow> nat) \<Rightarrow> bool" where
  "walk_law env rank \<longleftrightarrow> (\<forall>c ip to_ip n err insn cnt ip' c'. pe_walk_insn env c ip to_ip n = ((err, insn, cnt, ip'), c') \<longrightarrow>
     rank c' \<le> rank c \<and> (err = 0 \<longrightarrow> INTEL_PT_INSN_BUF_SZ \<le> length (pi_buf insn)))"

definition env_law :: "('c, 'f) pt_env \<Rightarrow> ('c \<Rightarrow> nat) \<Rightarrow> bool" where
  "env_law env rank \<longleftrightarrow> trace_law env rank \<and> walk_law env rank \<and> allocs_ok (pe_alloc env)"

text \<open>The invariant of the decoder: without a PSB packet there is no second buffer, and in the state TNT there is an outcome left.\<close>

definition pt_inv :: "('c, 'f) intel_pt_decoder \<Rightarrow> bool" where
  "pt_inv d \<longleftrightarrow> fetch_ok d \<and> stack_ok (d_stack d) \<and> d_mtc_shift d \<le> 16 \<and> 
     (d_pkt_state d = INTEL_PT_STATE_TNT \<longrightarrow> 0 < pt_count (d_tnt d)) \<and> (d_pkt_state d = INTEL_PT_STATE_NO_PSB \<longrightarrow> d_next_buf d = None)"

lemma pt_inv_cong:
  assumes "core d' = core d"
  shows "pt_inv d' = pt_inv d"
  using core_cong [OF assms] assms by (simp add: pt_inv_def core_def)

lemma fetch_updates [simp]:
  "left rank (d \<lparr>d_pkt_state := s\<rparr>) = left rank d" "left rank (d \<lparr>d_tnt := p\<rparr>) = left rank d" "left rank (d \<lparr>d_stack := st\<rparr>) = left rank d"
  "fetch_ok (d \<lparr>d_pkt_state := s\<rparr>) = fetch_ok d" "fetch_ok (d \<lparr>d_tnt := p\<rparr>) = fetch_ok d" "fetch_ok (d \<lparr>d_stack := st\<rparr>) = fetch_ok d"
  by (simp_all add: left_def fetch_ok_def next_ok_def cong: if_cong)

lemma pt_inv_state:
  "pt_inv d \<Longrightarrow> s \<noteq> INTEL_PT_STATE_TNT \<Longrightarrow> s \<noteq> INTEL_PT_STATE_NO_PSB \<Longrightarrow> pt_inv (d \<lparr>d_pkt_state := s\<rparr>)"
  by (simp add: pt_inv_def)

lemma core_sampling [frames]:
  "core (snd (intel_pt_next_sample d)) = core d" "core (intel_pt_sample_insn d) = core d"
  by (simp_all add: intel_pt_next_sample_def intel_pt_next_period_def intel_pt_sample_insn_def core_def Let_def split: intel_pt_period_type.splits)

lemma core_state [frames]:
  "core (d \<lparr>d_state := s\<rparr>) = core d" "core (from_here t d) = core d" "core (or_flags fl d) = core d" "core (or_type t d) = core d"
  "core (trace_off d) = core d" "core (to_last_ip d) = core d" "core (branch_to ip d) = core d" "core (tip_target ip d) = core d"
  "core (set_cr3 d) = core d" "core (set_exec_mode d) = core d"
  by (simp_all add: core_def from_here_def or_flags_def or_type_def trace_off_def to_last_ip_def branch_to_def tip_target_def set_cr3_def
      set_exec_mode_def intel_pt_set_ip_def intel_pt_set_last_ip_def Let_def)

lemma core_fup_event [frames]: "core (snd (intel_pt_fup_event d)) = core d"
  by (simp add: core_def intel_pt_fup_event_def fup_mwait_def fup_pwre_def fup_exstop_def from_here_def or_flags_def Let_def)

lemma walk_insn_out_ends:
  "INTEL_PT_INSN_BUF_SZ \<le> length (pi_buf insn) \<Longrightarrow> ends (walk_insn_out insn r err d) (\<lambda>(e, d'). e = err \<and> core d' = core d)"
  by (simp add: walk_insn_out_def ends_simps Let_def core_def)

lemma stuck_check_core:
  "stuck_check n d = (b, d') \<Longrightarrow> core d' = (if b then core (d \<lparr>d_pkt_state := INTEL_PT_STATE_ERR_RESYNC\<rparr>) else core d)"
  by (auto simp: stuck_check_def core_def Let_def split: if_splits)

section \<open>Walking to the next branch\<close>

text \<open>The walk keeps the packet and the outcomes; the state changes only when it fails.\<close>

definition walked :: "('c \<Rightarrow> nat) \<Rightarrow> ('c, 'f) intel_pt_decoder \<Rightarrow> int \<Rightarrow> ('c, 'f) intel_pt_decoder \<Rightarrow> bool" where
  "walked rank d err d' \<longleftrightarrow> pt_inv d' \<and> left rank d' \<le> left rank d \<and> rank (d_data d') \<le> rank (d_data d) \<and>
     d_packet d' = d_packet d \<and> d_tnt d' = d_tnt d \<and> err \<noteq> - ENOSYS \<and> (err = - ENOLINK \<longrightarrow> d_pkt_state d' = INTEL_PT_STATE_NO_IP) \<and>
     (err = 0 \<or> err = INTEL_PT_RETURN \<or> err = - EAGAIN \<longrightarrow> d_pkt_state d' = d_pkt_state d)"

lemma walked_core:
  assumes "core d'' = core d'" and "walked rank d err d'"
  shows "walked rank d err d''"
  using pt_inv_cong [OF assms(1)] core_cong [OF assms(1)] assms(2) by (simp add: walked_def)

lemma walk_insn_branch_ends:
  assumes "INTEL_PT_INSN_BUF_SZ \<le> length (pi_buf insn)" and "pt_inv d"
  shows "ends (walk_insn_branch insn d) (\<lambda>(err, d'). err \<noteq> 0 \<and> walked rank d err d')"
proof -
  let ?d = "d \<lparr>d_no_progress := d_no_progress d + 1, d_ip := insn_target (d_ip d) insn,
    d_state := (d_state d) \<lparr>s_from_ip := d_ip d, s_to_ip := insn_target (d_ip d) insn\<rparr>\<rparr>"
  have c: "core ?d = core d" by (simp add: core_def)
  obtain b d1 where s: "stuck_check (d_no_progress d) ?d = (b, d1)" by (metis surj_pair)
  have d1: "core d1 = (if b then core (d \<lparr>d_pkt_state := INTEL_PT_STATE_ERR_RESYNC\<rparr>) else core d)"
    using stuck_check_core [OF s] by (simp add: core_def)
  have "walked rank d (if b then - ELOOP else INTEL_PT_RETURN) d1"
  proof (cases b)
    case True
    have "walked rank d (- ELOOP) (d \<lparr>d_pkt_state := INTEL_PT_STATE_ERR_RESYNC\<rparr>)"
      using assms(2) by (simp add: walked_def pt_inv_def fetch_ok_def next_ok_def left_def)
    then show ?thesis using True d1 walked_core by simp
  next
    case False
    have "walked rank d INTEL_PT_RETURN d" using assms(2) by (simp add: walked_def)
    then show ?thesis using False d1 walked_core by simp
  qed
  then show ?thesis using s walked_core
    by (cases b) (auto simp: walk_insn_branch_def Let_def intro!: ends_mono [OF walk_insn_out_ends [OF assms(1)]])
qed

lemma walk_insn_stack_ends:
  assumes "allocs_ok (pe_alloc env)" and "pt_inv d"
  shows "ends (walk_insn_stack env insn d) (\<lambda>(err, d'). (err = 0 \<or> err = - ENOMEM) \<and> walked rank d err d' \<and> d_pkt_state d' = d_pkt_state d)"
proof -
  have w: "walked rank d e (d \<lparr>d_allocs := a, d_stack := st\<rparr>)" "walked rank d e (d \<lparr>d_stack := st, d_ret_addr := r\<rparr>)" "walked rank d e d"
    if "stack_ok st" "e \<noteq> - ENOLINK" "e \<noteq> - ENOSYS" for a st r e
    using that assms(2) by (simp_all add: walked_def pt_inv_def fetch_ok_def next_ok_def left_def)
  obtain err a st where "intel_pt_push (pe_alloc env) (d_allocs d) (d_stack d) (d_ip d + of_nat (pi_length insn)) = Some (err, a, st)"
      "stack_ok st" "err = - ENOMEM \<or> err = 0"
    using intel_pt_push_spec [OF _ assms(1), of "d_stack d" "d_allocs d" "d_ip d + of_nat (pi_length insn)"] assms(2) by (auto simp: pt_inv_def)
  moreover obtain ip st' where "intel_pt_pop (d_stack d) = Some (ip, st')" "stack_ok st'"
    using intel_pt_pop_spec [of "d_stack d"] assms(2) by (auto simp: pt_inv_def)
  ultimately show ?thesis using w assms(2) by (auto simp: walk_insn_stack_def ends_simps pt_inv_def)
qed

definition moved :: "('c \<Rightarrow> nat) \<Rightarrow> ('c, 'f) intel_pt_decoder \<Rightarrow> ('c, 'f) intel_pt_decoder \<Rightarrow> bool" where
  "moved rank d d' \<longleftrightarrow> pt_inv d' \<and> left rank d' \<le> left rank d \<and> rank (d_data d') \<le> rank (d_data d) \<and>
     d_packet d' = d_packet d \<and> d_tnt d' = d_tnt d \<and> d_pkt_state d' = d_pkt_state d"

lemma moved_walked: "moved rank d d1 \<Longrightarrow> walked rank d1 err d2 \<Longrightarrow> walked rank d err d2"
  by (auto simp: moved_def walked_def)

lemma moved_core:
  assumes "core d'' = core d'" and "moved rank d d'"
  shows "moved rank d d''"
  using pt_inv_cong [OF assms(1)] core_cong [OF assms(1)] assms(2) by (simp add: moved_def)

lemma walked_self: "pt_inv d \<Longrightarrow> err \<noteq> - ENOLINK \<Longrightarrow> err \<noteq> - ENOSYS \<Longrightarrow> core d' = core d \<Longrightarrow> walked rank d err d'"
  by (rule walked_core, assumption) (simp add: walked_def)

lemma walk_insn_found_ends:
  assumes "env_law env rank" and "pt_inv d" and buf: "INTEL_PT_INSN_BUF_SZ \<le> length (pi_buf insn)"
  shows "ends (walk_insn_found env insn d) (\<lambda>(err, d'). walked rank d err d' \<and>
    (err = 0 \<longrightarrow> pi_branch insn = INTEL_PT_BR_INDIRECT \<or> pi_branch insn = INTEL_PT_BR_CONDITIONAL))"
proof -
  have out: "ends (walk_insn_out insn r err d4) (\<lambda>(e, d'). walked rank d e d' \<and> (e = 0 \<longrightarrow> P))"
    if "walked rank d err d4" "err = 0 \<longrightarrow> P" for r err d4 P
    by (rule ends_mono [OF walk_insn_out_ends [OF buf]]) (use that walked_core in blast)
  have no_branch: "walked rank d INTEL_PT_RETURN (d \<lparr>d_state := s, d_ip := i\<rparr>)" for s i
    by (rule walked_self [OF assms(2)]) (simp_all add: core_def)
  have br: "ends (walk_insn_branch insn d4) (\<lambda>(err, d'). err \<noteq> 0 \<and> walked rank d err d')" if "moved rank d d4" for d4
    by (rule ends_mono [OF walk_insn_branch_ends [OF buf]]) (use that moved_walked [OF that] in \<open>auto simp: moved_def\<close>)
  have "ends (walk_insn_stack env insn d) (\<lambda>(err, d'). (err = 0 \<or> err = - ENOMEM) \<and> walked rank d err d' \<and> d_pkt_state d' = d_pkt_state d)"
    by (rule walk_insn_stack_ends [OF _ assms(2)]) (use assms(1) in \<open>simp add: env_law_def\<close>)
  then obtain err d4 where s: "walk_insn_stack env insn d = Some (err, d4)" "err = 0 \<or> err = - ENOMEM" "walked rank d err d4"
      "d_pkt_state d4 = d_pkt_state d"
    by (auto simp: ends_def)
  then have m4: "moved rank d d4" by (simp add: moved_def walked_def)
  show ?thesis
  proof (cases "pi_branch insn")
    case INTEL_PT_BR_NO_BRANCH
    then show ?thesis using out [OF no_branch, where P = False] by (simp add: walk_insn_found_def)
  next
    case INTEL_PT_BR_UNCONDITIONAL
    then show ?thesis using s out [OF s(3), where P = False] br [OF m4] by (auto simp: walk_insn_found_def intro: ends_mono)
  qed (use s out [OF s(3), where P = True] in \<open>auto simp: walk_insn_found_def\<close>)
qed

lemma intel_pt_walk_insn_ends:
  assumes "env_law env rank" and "pt_inv d"
  shows "ends (intel_pt_walk_insn env d ip) (\<lambda>(err, insn, d'). walked rank d err d' \<and>
    (err = 0 \<longrightarrow> pi_branch insn = INTEL_PT_BR_INDIRECT \<or> pi_branch insn = INTEL_PT_BR_CONDITIONAL))"
proof -
  obtain mx d1 where n: "intel_pt_next_sample (d \<lparr>d_mtc_insn := True\<rparr>) = (mx, d1)" by (metis surj_pair)
  have d1: "core d1 = core d" using core_sampling(1) [of "d \<lparr>d_mtc_insn := True\<rparr>"] n by (simp add: core_def)
  obtain e insn cnt nip c where w: "pe_walk_insn env (d_data d1) (d_ip d1) ip mx = ((e, insn, cnt, nip), c)" by (metis surj_pair)
  have law: "rank c \<le> rank (d_data d)" "e = 0 \<Longrightarrow> 16 \<le> length (pi_buf insn)"
    using assms(1) w core_cong(4) [OF d1] unfolding env_law_def walk_law_def by metis+
  have "moved rank d (d \<lparr>d_data := c\<rparr>)" using assms(2) law(1) by (auto simp: moved_def pt_inv_def fetch_ok_def next_ok_def left_def)
  then have d2: "moved rank d d2" if "core d2 = core (d \<lparr>d_data := c\<rparr>)" for d2 using that moved_core by blast
  have "ends (walk_insn_next env insn ip mx cnt e d2) (\<lambda>(err, d'). walked rank d err d' \<and>
    (err = 0 \<longrightarrow> pi_branch insn = INTEL_PT_BR_INDIRECT \<or> pi_branch insn = INTEL_PT_BR_CONDITIONAL))"
    if "core d2 = core (d \<lparr>d_data := c\<rparr>)" for d2
  proof (cases "e = 0")
    case False
    have "moved rank d (d2 \<lparr>d_no_progress := 0\<rparr>)" using d2 [of "d2 \<lparr>d_no_progress := 0\<rparr>"] that by (simp add: core_def)
    then have "walked rank d err (d2 \<lparr>d_no_progress := 0, d_pkt_state := INTEL_PT_STATE_NO_IP\<rparr>)" if "err = - ENOLINK \<or> err = - EILSEQ" for err
      using pt_inv_state [of "d2 \<lparr>d_no_progress := 0\<rparr>"] that by (auto simp: moved_def walked_def)
    then show ?thesis using False by (simp add: walk_insn_next_def ends_simps)
  next
    case True
    have i: "pt_inv d3 \<and> moved rank d d3" if "core d3 = core d2" for d3 using d2 [of d3] that \<open>core d2 = _\<close> by (simp add: moved_def)
    have "ends (walk_insn_found env insn d3) (\<lambda>(err, d'). walked rank d err d' \<and>
        (err = 0 \<longrightarrow> pi_branch insn = INTEL_PT_BR_INDIRECT \<or> pi_branch insn = INTEL_PT_BR_CONDITIONAL))" if "core d3 = core d2" for d3
      by (rule ends_mono [OF walk_insn_found_ends [OF assms(1) _ law(2) [OF True]]]) (use i [OF that] moved_walked in blast)+
    moreover have "ends (walk_insn_out insn True (- EAGAIN) d2) (\<lambda>(err, d'). walked rank d err d' \<and> err \<noteq> 0)"
      by (rule ends_mono [OF walk_insn_out_ends [OF law(2) [OF True]]])
        (use i [OF refl] moved_walked [of rank d d2] walked_self [of d2] in auto)
    ultimately show ?thesis using True core_sampling(2) [of d2] by (auto simp: walk_insn_next_def intro: ends_mono)
  qed
  moreover have "core (d1 \<lparr>d_data := c, d_ip := i, d_tot_insn_cnt := n1, d_timestamp_insn_cnt := n2, d_sample_insn_cnt := n3, d_period_insn_cnt := n4\<rparr>)
    = core (d \<lparr>d_data := c\<rparr>)" for i n1 n2 n3 n4
    using d1 by (simp add: core_def)
  ultimately show ?thesis by (simp add: intel_pt_walk_insn_def n w Let_def ends_simps case_prod_beta')
qed

section \<open>Following the trace\<close>

text \<open>The decoder has a PSB packet and is not further back than it was.\<close>

definition after :: "('c \<Rightarrow> nat) \<Rightarrow> ('c, 'f) intel_pt_decoder \<Rightarrow> ('c, 'f) intel_pt_decoder \<Rightarrow> bool" where
  "after rank d d' \<longleftrightarrow> pt_inv d' \<and> d_pkt_state d' \<noteq> INTEL_PT_STATE_NO_PSB \<and> left rank d' \<le> left rank d \<and> rank (d_data d') \<le> rank (d_data d)"

text \<open>How an operation ends.  When the client has a gap in its data (\<open>ENOLINK\<close>), there is less of it, or there is no address to go on from.\<close>

definition stepped :: "bool \<Rightarrow> ('c \<Rightarrow> nat) \<Rightarrow> ('c, 'f) intel_pt_decoder \<Rightarrow> int \<times> ('c, 'f) intel_pt_decoder \<Rightarrow> bool" where
  "stepped walk rank d r \<longleftrightarrow> (case r of (err, d') \<Rightarrow> pt_inv d' \<and> rank (d_data d') \<le> rank (d_data d) \<and> err \<noteq> - ENOSYS \<and>
     (err = 0 \<or> err = - EAGAIN \<longrightarrow> after rank d d') \<and>
     (err = - ENOLINK \<longrightarrow> rank (d_data d') < rank (d_data d) \<or> walk \<and> d_pkt_state d' = INTEL_PT_STATE_NO_IP))"

lemma after_refl: "pt_inv d \<Longrightarrow> d_pkt_state d \<noteq> INTEL_PT_STATE_NO_PSB \<Longrightarrow> after rank d d"
  by (simp add: after_def)

lemma after_trans: "after rank d d1 \<Longrightarrow> after rank d1 d2 \<Longrightarrow> after rank d d2"
  by (auto simp: after_def)

lemma after_core:
  assumes "core d' = core d"
  shows "after rank d0 d' = after rank d0 d"
  using core_cong [OF assms] pt_inv_cong [OF assms] by (simp add: after_def)

lemma stepped_trans: "after rank d d1 \<Longrightarrow> stepped walk rank d1 r \<Longrightarrow> stepped walk rank d r"
  by (auto simp: after_def stepped_def)

lemma stepped_walk: "stepped False rank d r \<Longrightarrow> stepped walk rank d r"
  by (auto simp: stepped_def)

lemma stepped_ok [simp]:
  "err \<noteq> - ENOLINK \<Longrightarrow> err \<noteq> - ENOSYS \<Longrightarrow> after rank d d' \<Longrightarrow> stepped walk rank d (err, d')"
  by (simp add: stepped_def after_def)

lemma after_state [simp]:
  "after rank d0 d \<Longrightarrow> s \<noteq> INTEL_PT_STATE_TNT \<Longrightarrow> s \<noteq> INTEL_PT_STATE_NO_PSB \<Longrightarrow> after rank d0 (d \<lparr>d_pkt_state := s\<rparr>)"
  by (simp add: after_def pt_inv_state)

lemma core_update [frames]:
  "core (d \<lparr>d_ip := ip\<rparr>) = core d" "core (d \<lparr>d_pge := b\<rparr>) = core d" "core (d \<lparr>d_have_tma := b\<rparr>) = core d" "core (d \<lparr>d_no_progress := n\<rparr>) = core d"
  "core (d \<lparr>d_last_ip := ip\<rparr>) = core d" "core (d \<lparr>d_have_last_ip := b\<rparr>) = core d" "core (d \<lparr>d_mtc_insn := b\<rparr>) = core d"
  "core (d \<lparr>d_cbr_seen := w\<rparr>) = core d" "core (d \<lparr>d_tx_flags := fl\<rparr>) = core d" "core (d \<lparr>d_fup_tx_flags := fl\<rparr>) = core d"
  "core (d \<lparr>d_set_fup_tx_flags := b\<rparr>) = core d" "core (d \<lparr>d_set_fup_ptw := b\<rparr>) = core d" "core (d \<lparr>d_set_fup_mwait := b\<rparr>) = core d"
  "core (d \<lparr>d_set_fup_pwre := b\<rparr>) = core d" "core (d \<lparr>d_set_fup_exstop := b\<rparr>) = core d" "core (d \<lparr>d_fup_ptw_payload := w64\<rparr>) = core d"
  "core (d \<lparr>d_fup_mwait_payload := w64\<rparr>) = core d" "core (d \<lparr>d_fup_pwre_payload := w64\<rparr>) = core d" "core (d \<lparr>d_overflow := b\<rparr>) = core d"
  "core (d \<lparr>d_continuous_period := b\<rparr>) = core d" "core (d \<lparr>d_timestamp_insn_cnt := w64\<rparr>) = core d" "core (d \<lparr>d_pos := w64\<rparr>) = core d"
  "core (d \<lparr>d_sample_timestamp := w64\<rparr>) = core d" "core (d \<lparr>d_sample_insn_cnt := w64\<rparr>) = core d"
  by (simp_all add: core_def)

lemma stepped_core:
  assumes "core d' = core d"
  shows "stepped walk rank d0 (err, d') = stepped walk rank d0 (err, d)"
  using core_cong [OF assms] pt_inv_cong [OF assms] by (simp add: stepped_def after_core [OF assms])

lemmas stepped_frames [simp] = frames [THEN stepped_core]
lemmas after_frames [simp] = frames [THEN after_core]
lemmas left_frames [simp] = frames [THEN core_cong(2)]
lemmas packet_frames [simp] = frames [THEN core_cong(6)]

lemma after_overflow [simp]: "after rank d0 d \<Longrightarrow> stepped walk rank d0 (intel_pt_overflow d)"
  by (simp add: intel_pt_overflow_def)

lemma fetch_ends:
  assumes "env_law env rank" and "after rank d0 d"
  shows "ends (intel_pt_get_next_packet env d) (\<lambda>(err, d'). (err \<noteq> 0 \<longrightarrow> err \<noteq> - EAGAIN \<and> stepped walk rank d0 (err, d')) \<and>
    (err = 0 \<longrightarrow> after rank d0 d' \<and> left rank d' < left rank d \<and> wf_pkt (d_packet d') \<and> d_pkt_state d' = d_pkt_state d \<and> d_tnt d' = d_tnt d))"
proof -
  have d: "trace_law env rank" "fetch_ok d" using assms by (simp_all add: env_law_def after_def pt_inv_def)
  have inv: "pt_inv d'" if "fetched rank d (err, d')" for err d'
    using that assms(2) by (cases "err = 0"; cases "err = - ENOLINK") (simp_all add: fetched_def fetch_error_def after_def pt_inv_def side_def)
  have a: "d_pkt_state d \<noteq> INTEL_PT_STATE_NO_PSB" "left rank d \<le> left rank d0" "rank (d_data d) \<le> rank (d_data d0)" using assms(2) by (simp_all add: after_def)
  show ?thesis
  proof (rule ends_mono [OF intel_pt_get_next_packet_spec [OF d]], clarify, intro conjI impI)
    fix err d' assume f: "fetched rank d (err, d')"
    note i = inv [OF f]
    show "err \<noteq> - EAGAIN" "stepped walk rank d0 (err, d')" if "err \<noteq> 0"
      using f a i that by (auto simp: fetched_def fetch_error_def stepped_def)
    show "after rank d0 d'" "left rank d' < left rank d" "wf_pkt (d_packet d')" "d_pkt_state d' = d_pkt_state d" "d_tnt d' = d_tnt d" if "err = 0"
      using f a i that by (simp_all add: fetched_def after_def side_def)
  qed
qed

text \<open>A loop that gets a packet and looks at it.\<close>

lemma packet_loop:
  assumes "env_law env rank" and "after rank d0 d"
    and "\<And>d'. after rank d0 d' \<Longrightarrow> wf_pkt (d_packet d') \<Longrightarrow> left rank d' < left rank d0 \<Longrightarrow>
      ends (f d') (loop_post (after rank d0) (left rank) Q (Suc (left rank d')))"
    and "\<And>err d'. err \<noteq> - EAGAIN \<Longrightarrow> stepped walk rank d0 (err, d') \<Longrightarrow> Q (err, d')"
  shows "ends (intel_pt_get_next_packet env d \<bind> (\<lambda>(err, d). if err \<noteq> 0 then Some (Break (err, d)) else f d))
    (loop_post (after rank d0) (left rank) Q (left rank d))"
  unfolding ends_bind
  by (rule ends_mono [OF fetch_ends [OF assms(1,2), where walk = walk]])
    (use assms(2) in \<open>auto simp: ends_simps loop_post_def split: control.splits intro!: ends_mono [OF assms(3)] assms(4) simp: after_def\<close>)

lemma calc_after [simp]:
  assumes "after rank d0 d"
  shows "ends (intel_pt_calc_tsc_timestamp fp d) (\<lambda>d'. after rank d0 d' \<and> left rank d' < Suc (left rank d))"
    and "ends (intel_pt_calc_mtc_timestamp fp d) (\<lambda>d'. after rank d0 d' \<and> left rank d' < Suc (left rank d))"
    and "ends (mtc_sample fp d) (\<lambda>d'. after rank d0 d' \<and> left rank d' < Suc (left rank d))"
proof -
  have d: "fetch_ok d" "d_mtc_shift d \<le> 16" using assms by (auto simp: after_def pt_inv_def)
  have c: "after rank d0 d' \<and> left rank d' < Suc (left rank d)" if "core d' = core d" for d'
    using assms after_core [OF that] core_cong(2) [OF that] by simp
  show "ends (intel_pt_calc_tsc_timestamp fp d) (\<lambda>d'. after rank d0 d' \<and> left rank d' < Suc (left rank d))"
    by (rule ends_mono [OF calc_timestamp_ends(1) [OF d] c])
  show m: "ends (intel_pt_calc_mtc_timestamp fp d) (\<lambda>d'. after rank d0 d' \<and> left rank d' < Suc (left rank d))"
    by (rule ends_mono [OF calc_timestamp_ends(2) [OF d] c])
  show "ends (mtc_sample fp d) (\<lambda>d'. after rank d0 d' \<and> left rank d' < Suc (left rank d))"
    unfolding mtc_sample_def ends_bind by (rule ends_mono [OF m]) (simp add: ends_simps)
qed

lemma intel_pt_walk_psbend_ends:
  assumes "env_law env rank" and "after rank d0 d"
  shows "ends (intel_pt_walk_psbend env d) (\<lambda>(err, d'). stepped walk rank d0 (err, d') \<and> (err = - EAGAIN \<longrightarrow> wf_pkt (d_packet d') \<and> left rank d' < left rank d0))"
  unfolding intel_pt_walk_psbend_def
proof (rule forever_ends [where m = "left rank" and I = "after rank d0", OF assms(2)], goal_cases)
  case (1 d)
  show ?case unfolding walk_psbend_body_def Let_def
  proof (rule packet_loop [OF assms(1) 1, where walk = walk], goal_cases)
    case (1 d)
    have "fst (intel_pt_overflow d) \<noteq> - EAGAIN" by (simp add: intel_pt_overflow_def)
    then show ?case using 1 by (simp add: ends_simps case_prod_beta)
  next
    case (2 err d)
    then show ?case by simp
  qed
qed

lemma walk_cases:
  assumes "env_law env rank" and "after rank d0 d"
    and "\<And>err insn d'. err = INTEL_PT_RETURN \<or> err = - EAGAIN \<Longrightarrow> after rank d0 d' \<Longrightarrow> d_tnt d' = d_tnt d \<Longrightarrow> ends (f err insn d') Q"
    and "\<And>insn d'. pi_branch insn = INTEL_PT_BR_INDIRECT \<or> pi_branch insn = INTEL_PT_BR_CONDITIONAL \<Longrightarrow> after rank d0 d' \<Longrightarrow>
      d_tnt d' = d_tnt d \<Longrightarrow> ends (f 0 insn d') Q"
    and "\<And>err insn d'. err \<noteq> 0 \<Longrightarrow> err \<noteq> INTEL_PT_RETURN \<Longrightarrow> err \<noteq> - EAGAIN \<Longrightarrow> stepped True rank d0 (err, d') \<Longrightarrow> ends (f err insn d') Q"
  shows "ends (intel_pt_walk_insn env d ip \<bind> (\<lambda>(err, insn, d). f err insn d)) Q"
proof -
  have "pt_inv d" using assms(2) by (simp add: after_def)
  then obtain err insn d' where w: "intel_pt_walk_insn env d ip = Some (err, insn, d')" "walked rank d err d'"
      "err = 0 \<longrightarrow> pi_branch insn = INTEL_PT_BR_INDIRECT \<or> pi_branch insn = INTEL_PT_BR_CONDITIONAL"
    using intel_pt_walk_insn_ends [OF assms(1), of d ip] by (auto simp: ends_def)
  have "d_tnt d' = d_tnt d" "stepped True rank d0 (err, d')" "err = 0 \<or> err = INTEL_PT_RETURN \<or> err = - EAGAIN \<Longrightarrow> after rank d0 d'"
    using w(2) assms(2) by (auto simp: walked_def stepped_def after_def)
  then have "ends (f err insn d') Q" using assms(3-5) w(3) by metis
  then show ?thesis by (simp add: w(1))
qed

lemma intel_pt_walk_fup_ends:
  assumes "env_law env rank" and "after rank d0 d"
  shows "ends (intel_pt_walk_fup env d) (stepped True rank d0)"
  unfolding intel_pt_walk_fup_def
proof (rule forever_ends [where m = "left rank" and I = "after rank d0", OF assms(2)], goal_cases)
  case (1 d1)
  then show ?case unfolding walk_fup_body_def
    by (rule walk_cases [OF assms(1)]) (auto simp: ends_simps case_prod_beta intel_pt_fup_with_nlip_def)
qed

lemma intel_pt_walk_tip_ends:
  assumes "env_law env rank" and "after rank d0 d"
  shows "ends (intel_pt_walk_tip env d) (stepped True rank d0)"
  unfolding intel_pt_walk_tip_def
  by (rule walk_cases [OF assms]) (auto simp: ends_simps Let_def)

lemma use_tnt_simps [simp]:
  "left rank (use_tnt d) = left rank d" "left rank (shift_tnt d) = left rank d" "pt_count (d_tnt (use_tnt d)) = pt_count (d_tnt d) - 1"
  "pt_count (d_tnt (shift_tnt d)) = pt_count (d_tnt d)"
  by (simp_all add: use_tnt_def shift_tnt_def Let_def)

lemma after_use_tnt [simp]:
  "after rank d0 d \<Longrightarrow> 0 < pt_count (d_tnt d) \<Longrightarrow> after rank d0 (use_tnt d)"
  "after rank d0 (shift_tnt d) = after rank d0 d"
  by (auto simp: after_def pt_inv_def use_tnt_def shift_tnt_def Let_def)

lemma stepped_again [simp]:
  assumes "after rank d0 d"
  shows "stepped walk rank d0 (- ENOENT, d \<lparr>d_pkt_state := INTEL_PT_STATE_ERR_RESYNC, d_pkt_step := 0\<rparr>)"
  using assms by (simp add: stepped_def after_def pt_inv_def fetch_ok_def next_ok_def)

lemma walk_tnt_indirect_ends:
  assumes "env_law env rank" and "after rank d0 d"
  shows "ends (walk_tnt_indirect env d) (stepped walk rank d0)"
  unfolding walk_tnt_indirect_def ends_bind
  by (rule ends_mono [OF fetch_ends [OF assms, where walk = walk]]) (auto simp: ends_simps Let_def)

lemma intel_pt_walk_tnt_ends:
  assumes "env_law env rank" and "after rank d0 d" and "0 < pt_count (d_tnt d)"
  shows "ends (intel_pt_walk_tnt env d) (stepped True rank d0)"
  unfolding intel_pt_walk_tnt_def
proof (rule forever_ends [where m = "\<lambda>d. nat (pt_count (d_tnt d))" and I = "\<lambda>d. after rank d0 d \<and> 0 < pt_count (d_tnt d)"], goal_cases)
  case 1
  then show ?case using assms(2,3) by simp
next
  case (2 d1)
  then have d1: "after rank d0 d1" "0 < pt_count (d_tnt d1)" by simp_all
  show ?case unfolding walk_tnt_body_def
    by (rule walk_cases [OF assms(1) d1(1)])
      (use d1(2) walk_tnt_indirect_ends [OF assms(1), where walk = True] in \<open>auto simp: ends_simps Let_def walk_tnt_ret_def\<close>)
qed

lemma intel_pt_walk_fup_tip_ends:
  assumes "env_law env rank" and "after rank d0 d"
  shows "ends (intel_pt_walk_fup_tip env d) (stepped walk rank d0)"
  unfolding intel_pt_walk_fup_tip_def Let_def
proof (rule forever_ends [where m = "left rank" and I = "after rank d0"], goal_cases)
  case 1
  then show ?case using assms(2) by simp
next
  case (2 d)
  show ?case unfolding walk_fup_tip_body_def Let_def
  proof (rule packet_loop [OF assms(1) 2, where walk = walk], goal_cases)
    case (1 d)
    then have "pt_type (d_packet d) \<noteq> INTEL_PT_BAD" by (simp add: wf_pkt_def)
    then show ?case using 1 by (cases "pt_type (d_packet d)") (simp_all add: ends_simps)
  next
    case (2 err d)
    then show ?case by simp
  qed
qed

text \<open>The loop over the trace.\<close>

definition trace_ok :: "('c \<Rightarrow> nat) \<Rightarrow> ('c, 'f) intel_pt_decoder \<Rightarrow> ('c, 'f) trace_state \<Rightarrow> bool" where
  "trace_ok rank d0 s \<longleftrightarrow> (case s of (d, no_tip, at_next) \<Rightarrow> after rank d0 d \<and> (at_next \<longrightarrow> wf_pkt (d_packet d)))"

definition trace_left :: "('c \<Rightarrow> nat) \<Rightarrow> ('c, 'f) trace_state \<Rightarrow> nat" where
  "trace_left rank s = (case s of (d, no_tip, at_next) \<Rightarrow> 2 * left rank d + (if at_next then 1 else 0))"

abbreviation traced where
  "traced rank d0 d \<equiv> loop_post (trace_ok rank d0) (trace_left rank) (stepped True rank d0) (Suc (2 * left rank d))"

lemma trace_simps [simp]:
  "trace_ok rank d0 (d, no_tip, at_next) \<longleftrightarrow> after rank d0 d \<and> (at_next \<longrightarrow> wf_pkt (d_packet d))"
  "trace_left rank (d, no_tip, at_next) = 2 * left rank d + (if at_next then 1 else 0)"
  by (simp_all add: trace_ok_def trace_left_def)

lemma trace_after:
  assumes "after rank d0 d" and "stepped True rank d (err, d')"
  shows "stepped True rank d0 (err, d')" and "err = 0 \<or> err = - EAGAIN \<Longrightarrow> after rank d0 d' \<and> left rank d' \<le> left rank d"
  using assms stepped_trans by (auto simp: stepped_def after_def)

lemma after_clear [simp]:
  "after rank d0 d \<Longrightarrow> after rank d0 (d \<lparr>d_stack := intel_pt_clear_stack (d_stack d)\<rparr>)"
  by (simp add: after_def pt_inv_def intel_pt_clear_stack_spec)

lemma trace_fup_ends:
  assumes "env_law env rank" and "after rank d0 d"
  shows "ends (trace_fup env d no_tip) (traced rank d0 d)"
proof -
  have d: "after rank d d" using assms(2) by (simp add: after_def)
  have "ends (intel_pt_walk_fup env (intel_pt_set_last_ip d)) (stepped True rank d)"
    by (rule intel_pt_walk_fup_ends [OF assms(1)]) (simp add: d)
  then obtain err d' where w: "intel_pt_walk_fup env (intel_pt_set_last_ip d) = Some (err, d')" "stepped True rank d (err, d')"
    by (auto simp: ends_def)
  note a = trace_after [OF assms(2) w(2)]
  then show ?thesis using assms(2) w(1) intel_pt_walk_fup_tip_ends [OF assms(1), of d0 d' True]
    by (auto simp: trace_fup_def ends_simps Let_def case_prod_beta)
qed

lemma trace_psb_ends:
  assumes "env_law env rank" and "after rank d0 d"
  shows "ends (trace_psb env d no_tip) (traced rank d0 d)"
proof -
  let ?d = "d \<lparr>d_last_ip := 0, d_have_last_ip := True, d_stack := intel_pt_clear_stack (d_stack d)\<rparr>"
  have "after rank d d" using assms(2) by (simp add: after_def)
  then have "after rank d ?d" using after_clear [of rank d "d \<lparr>d_last_ip := 0, d_have_last_ip := True\<rparr>"] by simp
  from intel_pt_walk_psbend_ends [OF assms(1) this, where walk = True] obtain err d' where
    w: "intel_pt_walk_psbend env ?d = Some (err, d')" "stepped True rank d (err, d')" "err = - EAGAIN \<longrightarrow> wf_pkt (d_packet d') \<and> left rank d' < left rank d"
    by (auto simp: ends_def)
  then show ?thesis using trace_after [OF assms(2) w(2)] by (auto simp: trace_psb_def ends_simps)
qed

lemma trace_mode_tsx_ends:
  assumes "env_law env rank" and "after rank d0 d"
  shows "ends (trace_mode_tsx env d no_tip) (traced rank d0 d)"
proof -
  have "ends (intel_pt_mode_tsx env d no_tip) (\<lambda>(err, no_tip, d'). (err \<noteq> 0 \<longrightarrow> stepped True rank d0 (err, d')) \<and>
    (err = 0 \<longrightarrow> after rank d0 d' \<and> left rank d' < left rank d \<and> wf_pkt (d_packet d')))"
    unfolding intel_pt_mode_tsx_def Let_def ends_bind
    by (rule ends_mono [OF fetch_ends [OF assms, where walk = True]]) (auto simp: ends_simps)
  then obtain err no_tip' d' where "intel_pt_mode_tsx env d no_tip = Some (err, no_tip', d')"
      "err \<noteq> 0 \<longrightarrow> stepped True rank d0 (err, d')" "err = 0 \<longrightarrow> after rank d0 d' \<and> left rank d' < left rank d \<and> wf_pkt (d_packet d')"
    by (auto simp: ends_def)
  then show ?thesis using assms(2) by (simp add: trace_mode_tsx_def ends_Some)
qed

lemma trace_then_fup_ends:
  assumes "env_law env rank" and "after rank d0 d" and "\<And>d. core (fup d) = core d"
  shows "ends (trace_then_fup env fup d no_tip) (traced rank d0 d)"
  unfolding trace_then_fup_def ends_bind
  by (rule ends_mono [OF fetch_ends [OF assms(1,2), where walk = True]])
    (use assms(3) [THEN after_core] assms(3) [THEN core_cong(2)] assms(3) [THEN core_cong(6)] in \<open>auto simp: ends_simps\<close>)

lemma after_tnt:
  assumes "after rank d0 d" and "0 < pt_count (d_packet d)"
  shows "after rank d0 (d \<lparr>d_tnt := d_packet d, d_pkt_state := INTEL_PT_STATE_TNT\<rparr>)"
  using assms by (simp add: after_def pt_inv_def)

lemma trace_tnt_ends:
  assumes "env_law env rank" and "after rank d0 d" and "0 < pt_count (d_packet d)"
  shows "ends (intel_pt_walk_tnt env (d \<lparr>d_tnt := d_packet d, d_pkt_state := INTEL_PT_STATE_TNT\<rparr>)
      \<bind> (\<lambda>(err, d). Some (if err = - EAGAIN then Continue (d, no_tip, False) else Break (err, d)))) (traced rank d0 d)"
proof -
  let ?d = "d \<lparr>d_tnt := d_packet d, d_pkt_state := INTEL_PT_STATE_TNT\<rparr>"
  have "after rank d d" using assms(2) by (simp add: after_def)
  then obtain err d' where w: "intel_pt_walk_tnt env ?d = Some (err, d')" "stepped True rank d (err, d')"
    using intel_pt_walk_tnt_ends [OF assms(1) after_tnt, of d d] assms(3) by (auto simp: ends_def)
  then show ?thesis using trace_after [OF assms(2) w(2)] by (auto simp: ends_simps)
qed

lemma trace_packet_ends:
  assumes "env_law env rank" and "after rank d0 d" and "wf_pkt (d_packet d)"
  shows "ends (trace_packet env d no_tip) (traced rank d0 d)"
proof -
  have tip: "ends (intel_pt_walk_tip env d1) (stepped True rank d0)" if "after rank d0 d1" for d1
    by (rule intel_pt_walk_tip_ends [OF assms(1) that])
  have fup: "ends (trace_then_fup env f (d \<lparr>d_fup_ptw_payload := w\<rparr>) no_tip) (traced rank d0 d)"
      "ends (trace_then_fup env f d no_tip) (traced rank d0 d)" if "\<And>d. core (f d) = core d" for f w
    using trace_then_fup_ends [OF assms(1) assms(2) that] trace_then_fup_ends [OF assms(1) _ that, of d0 "d \<lparr>d_fup_ptw_payload := w\<rparr>"] assms(2) by simp_all
  note [simp] = trace_fup_ends [OF assms(1,2)] trace_psb_ends [OF assms(1,2)] trace_mode_tsx_ends [OF assms(1,2)]
  show ?thesis
  proof (cases "pt_type (d_packet d)")
    case INTEL_PT_BAD
    then show ?thesis using assms(3) by (simp add: wf_pkt_def)
  next
    case INTEL_PT_TNT
    have "pt_count (d_packet d) = 0 \<or> 0 < pt_count (d_packet d)" using assms(3) by (auto simp: wf_pkt_def)
    then show ?thesis using INTEL_PT_TNT assms(2) trace_tnt_ends [OF assms(1,2)] by (auto simp: trace_packet_def ends_Some)
  next
    case INTEL_PT_MTC
    obtain d' where "intel_pt_calc_mtc_timestamp (pe_fp env) d = Some d'" "after rank d0 d'" "left rank d' < Suc (left rank d)"
      using calc_after(2) [OF assms(2), of "pe_fp env"] by (auto simp: ends_def)
    then show ?thesis using INTEL_PT_MTC by (simp add: trace_packet_def trace_mtc_def ends_Some Let_def)
  next
    case INTEL_PT_TSC
    obtain d' where "intel_pt_calc_tsc_timestamp (pe_fp env) d = Some d'" "after rank d0 d'" "left rank d' < Suc (left rank d)"
      using calc_after(1) [OF assms(2), of "pe_fp env"] by (auto simp: ends_def)
    then show ?thesis using INTEL_PT_TSC by (simp add: trace_packet_def ends_Some)
  qed (use assms(2) tip fup in \<open>simp_all add: trace_packet_def trace_cbr_def trace_pwre_def ends_simps Let_def core_update\<close>)
qed

lemma intel_pt_walk_trace_ends:
  assumes "env_law env rank" and "after rank d0 d"
  shows "ends (intel_pt_walk_trace env d) (stepped True rank d0)"
  unfolding intel_pt_walk_trace_def
proof (rule forever_ends [where m = "trace_left rank" and I = "trace_ok rank d0"], goal_cases)
  case 1
  then show ?case using assms(2) by simp
next
  case (2 s)
  obtain d1 no_tip at_next where s: "s = (d1, no_tip, at_next)" by (metis prod_cases3)
  have d1: "after rank d0 d1" "at_next \<Longrightarrow> wf_pkt (d_packet d1)" using 2 s by auto
  show ?case
  proof (cases at_next)
    case True
    then show ?thesis using trace_packet_ends [OF assms(1) d1] by (simp add: s walk_trace_body_def)
  next
    case False
    have "loop_post (trace_ok rank d0) (trace_left rank) (stepped True rank d0) (2 * left rank d1) c" if "traced rank d0 d2 c" "left rank d2 < left rank d1" for c d2
      using that by (auto simp: loop_post_def split: control.splits)
    then show ?thesis using False unfolding s walk_trace_body_def ends_bind
      by (auto simp: ends_simps intro!: ends_mono [OF fetch_ends [OF assms(1) d1(1), where walk = True]] intro: ends_mono [OF trace_packet_ends [OF assms(1)]])
  qed
qed

section \<open>Getting in step\<close>

lemma sync_packet_ends:
  assumes "after rank d0 d"
  shows "ends (sync_packet fp d) (\<lambda>r. case r of None \<Rightarrow> True | Some d' \<Rightarrow> after rank d0 d' \<and> left rank d' < Suc (left rank d))"
  using assms by (cases "pt_type (d_packet d)") (simp_all add: sync_packet_def ends_simps)

lemma sync_packet_loop:
  assumes "after rank d0 d"
  shows "ends (sync_packet fp d \<bind> (\<lambda>r. Some (Continue (case r of Some d' \<Rightarrow> d' | None \<Rightarrow> d))))
    (loop_post (after rank d0) (left rank) Q (Suc (left rank d)))"
  unfolding ends_bind
  by (rule ends_mono [OF sync_packet_ends [OF assms]]) (use assms in \<open>auto simp: ends_Some split: option.splits\<close>)

lemma intel_pt_walk_psb_ends:
  assumes "env_law env rank" and "after rank d0 d"
  shows "ends (intel_pt_walk_psb env d) (stepped False rank d0)"
  unfolding intel_pt_walk_psb_def
proof (rule forever_ends [where m = "left rank" and I = "after rank d0", OF assms(2)], goal_cases)
  case (1 d)
  show ?case unfolding walk_psb_body_def Let_def
  proof (rule packet_loop [OF assms(1) 1, where walk = False], goal_cases)
    case (1 d)
    then have "pt_type (d_packet d) \<noteq> INTEL_PT_BAD" by (simp add: wf_pkt_def)
    then show ?case using 1 sync_packet_loop [of rank d0 d "pe_fp env" "stepped False rank d0"] by (simp add: ends_Some walk_psb_unexpected_def)
  next
    case (2 err d)
    then show ?case by simp
  qed
qed

lemma to_ip_psb_ends:
  assumes "env_law env rank" and "after rank d0 d"
  shows "ends (to_ip_psb env d) (loop_post (after rank d0) (left rank) (stepped False rank d0) (Suc (left rank d)))"
proof -
  let ?d = "d \<lparr>d_last_ip := 0, d_have_last_ip := True, d_stack := intel_pt_clear_stack (d_stack d)\<rparr>"
  have "after rank d d" using assms(2) by (simp add: after_def)
  then have "after rank d ?d" using after_clear [of rank d "d \<lparr>d_last_ip := 0, d_have_last_ip := True\<rparr>"] by simp
  from intel_pt_walk_psb_ends [OF assms(1) this] obtain err d' where
    w: "intel_pt_walk_psb env ?d = Some (err, d')" "stepped False rank d (err, d')" by (auto simp: ends_def)
  have "stepped False rank d0 (err, d')" "err = 0 \<Longrightarrow> after rank d0 d' \<and> left rank d' \<le> left rank d"
    using stepped_trans [OF assms(2) w(2)] w(2) assms(2) by (auto simp: stepped_def after_def)
  then show ?thesis using w(1) by (auto simp: to_ip_psb_def ends_simps)
qed

lemma intel_pt_walk_to_ip_ends:
  assumes "env_law env rank" and "after rank d0 d"
  shows "ends (intel_pt_walk_to_ip env d) (stepped False rank d0)"
  unfolding intel_pt_walk_to_ip_def
proof (rule forever_ends [where m = "left rank" and I = "after rank d0", OF assms(2)], goal_cases)
  case (1 d)
  show ?case unfolding walk_to_ip_body_def Let_def
  proof (rule packet_loop [OF assms(1) 1, where walk = False], goal_cases)
    case (1 d)
    then have "pt_type (d_packet d) \<noteq> INTEL_PT_BAD" by (simp add: wf_pkt_def)
    then show ?case using 1 sync_packet_loop [of rank d0 d "pe_fp env" "stepped False rank d0"] to_ip_psb_ends [OF assms(1), of d0 d]
      by (simp add: ends_Some to_ip_tip_def Let_def)
  next
    case (2 err d)
    then show ?case by simp
  qed
qed

lemma intel_pt_sync_ip_ends:
  assumes "env_law env rank" and "after rank d0 d"
  shows "ends (intel_pt_sync_ip env d) (stepped False rank d0)"
proof -
  let ?d = "d \<lparr>d_set_fup_tx_flags := False, d_set_fup_ptw := False, d_set_fup_mwait := False, d_set_fup_pwre := False, d_set_fup_exstop := False\<rparr>"
  have "after rank d0 ?d" using assms(2) by simp
  from intel_pt_walk_to_ip_ends [OF assms(1) this] obtain err d' where
    w: "intel_pt_walk_to_ip env ?d = Some (err, d')" "stepped False rank d0 (err, d')" by (auto simp: ends_def)
  moreover have "err = 0 \<Longrightarrow> after rank d0 d'" using w(2) by (simp add: stepped_def)
  ultimately show ?thesis using assms(2) by (auto simp: intel_pt_sync_ip_def ends_simps Let_def)
qed

text \<open>Scanning for a PSB packet.\<close>

lemma length_PSB_STR [simp]: "length PSB_STR = 16"
  by (simp add: PSB_STR_def length_concat sum_list_replicate)

lemma memmem_Some: "memmem hay needle = Some n \<Longrightarrow> take (length needle) (drop n hay) = needle"
proof (induction hay arbitrary: n)
  case Nil
  then show ?case by (subst (asm) memmem.simps) (auto split: if_splits)
next
  case (Cons b hay)
  then show ?case by (subst (asm) memmem.simps) (auto split: if_splits)
qed

lemma memmem_here: "take (length needle) hay = needle \<Longrightarrow> memmem hay needle = Some 0"
  by (subst memmem.simps) simp

lemma PSB_packet: "intel_pt_do_get_packet PSB_STR 16 = Some (16, \<lparr>pt_type = INTEL_PT_PSB, pt_count = 0, pt_payload = 0\<rparr>)"
  by code_simp

lemma get_packet_PSB:
  assumes "take 16 buf = PSB_STR" and "16 \<le> len" and "len \<le> length buf" and "len < SIZE_RANGE"
  shows "intel_pt_get_packet buf len = Some (16, \<lparr>pt_type = INTEL_PT_PSB, pt_count = 0, pt_payload = 0\<rparr>)"
proof -
  have "same_prefix 16 PSB_STR buf" using assms by (simp add: same_prefix_def)
  then have "intel_pt_do_get_packet buf len = Some (int 16, \<lparr>pt_type = INTEL_PT_PSB, pt_count = 0, pt_payload = 0\<rparr>)"
    using intel_pt_do_get_packet_stable [of PSB_STR 16 16] PSB_packet assms(2,4) by simp
  then show ?thesis by (simp add: intel_pt_get_packet_def absorb_zeros.simps)
qed

lemma part_psb_loop_le: "part_psb_loop bytes n \<le> n" "part_psb_loop bytes n \<le> length bytes"
  by (induction n) auto

definition scan_ok :: "('c \<Rightarrow> nat) \<Rightarrow> ('c, 'f) intel_pt_decoder \<Rightarrow> ('c, 'f) intel_pt_decoder \<Rightarrow> bool" where
  "scan_ok rank d0 d \<longleftrightarrow> d_len d \<le> length (d_buf d) \<and> d_len d < SIZE_RANGE \<and> length (d_temp_buf d) = 16 \<and> next_ok d \<and> side d = side d0 \<and>
     rank (d_data d) \<le> rank (d_data d0) \<and> d_pkt_state d = INTEL_PT_STATE_NO_PSB \<and>
     (d_next_buf d \<noteq> None \<longrightarrow> d_len d = 16 \<and> take 16 (d_buf d) = PSB_STR)"

text \<open>The packet that the scan finds.\<close>

lemma scan_packet:
  assumes "scan_ok rank d0 d" and "memmem (take (d_len d) (d_buf d)) PSB_STR = Some n"
  shows "ends (intel_pt_get_next_packet env (d \<lparr>d_pkt_step := n\<rparr>)) (\<lambda>(err, d'). err = 0 \<and> fetch_ok d' \<and> side d' = side d0 \<and>
    rank (d_data d') \<le> rank (d_data d0))"
proof -
  have d: "d_len d \<le> length (d_buf d)" "d_len d < SIZE_RANGE" using assms(1) by (simp_all add: scan_ok_def)
  have t: "take 16 (drop n (take (d_len d) (d_buf d))) = PSB_STR" using memmem_Some [OF assms(2)] by simp
  then have "length (take 16 (drop n (take (d_len d) (d_buf d)))) = 16" by simp
  then have n: "n + 16 \<le> d_len d" using d by (simp add: min_def split: if_splits)
  then have "min 16 (d_len d - n) = 16" by simp
  then have "take 16 (drop n (d_buf d)) = PSB_STR" using t by (simp add: drop_take)
  then have p: "intel_pt_get_packet (drop n (d_buf d)) (d_len d - n) = Some (16, \<lparr>pt_type = INTEL_PT_PSB, pt_count = 0, pt_payload = 0\<rparr>)"
    using get_packet_PSB [of "drop n (d_buf d)" "d_len d - n"] n d by simp
  have "ptr_add (d_buf d) n = Some (drop n (d_buf d))" "size_sub (d_len d) n = d_len d - n" "d_len d - n \<noteq> 0"
    using n d by (auto simp: ptr_add_def)
  then show ?thesis using p n assms(1) unfolding intel_pt_get_next_packet_def
    by (subst forever.simps) (auto simp: next_packet_body_def Let_def ends_Some scan_ok_def fetch_ok_def next_ok_def side_def)
qed

lemma scan_error:
  assumes "env_law env rank" and "scan_ok rank d0 d" and "d_next_buf d = None" and "intel_pt_get_data env d = (ret, d')" and "ret \<noteq> 0"
    and "pt_inv d0"
  shows "pt_inv d'" and "rank (d_data d') \<le> rank (d_data d0)" and "ret \<noteq> - ENOSYS" and "ret = - ENOLINK \<Longrightarrow> rank (d_data d') < rank (d_data d0)"
proof -
  have t: "trace_law env rank" using assms(1) by (simp add: env_law_def)
  have "fetch_error rank d ret d'" "d_next_buf d' = None" "d_pkt_state d' = INTEL_PT_STATE_NO_PSB"
    using get_data_error [OF t assms(4,5,3)] intel_pt_get_data_spec(5,8,9) [OF t assms(4)] assms(2,3) by (auto simp: scan_ok_def next_ok_def)
  then show "pt_inv d'" "rank (d_data d') \<le> rank (d_data d0)" "ret \<noteq> - ENOSYS" "ret = - ENOLINK \<Longrightarrow> rank (d_data d') < rank (d_data d0)"
    using assms(2,6) by (auto simp: fetch_error_def pt_inv_def side_def scan_ok_def)
qed

lemma scan_data:
  assumes "env_law env rank" and "scan_ok rank d0 d" and "d_next_buf d = None" and "intel_pt_get_data env d = (0, d')"
  shows "scan_ok rank d0 d'" and "16 \<le> d_len d'" and "d_next_buf d' = None" and "rank (d_data d') + d_len d' < rank (d_data d)"
  using intel_pt_get_data_spec [OF _ assms(4), of rank] assms(1-3) by (auto simp: env_law_def scan_ok_def next_ok_def side_def)

definition scanned :: "('c \<Rightarrow> nat) \<Rightarrow> ('c, 'f) intel_pt_decoder \<Rightarrow> int \<times> ('c, 'f) intel_pt_decoder \<Rightarrow> bool" where
  "scanned rank d0 r \<longleftrightarrow> (case r of (err, d') \<Rightarrow> rank (d_data d') \<le> rank (d_data d0) \<and> err \<noteq> - ENOSYS \<and>
     (err = - ENOLINK \<longrightarrow> rank (d_data d') < rank (d_data d0)) \<and> (err \<noteq> 0 \<longrightarrow> pt_inv d') \<and> (err = 0 \<longrightarrow> fetch_ok d' \<and> side d' = side d0))"

lemma get_split_psb_ends:
  assumes "env_law env rank" and "scan_ok rank d0 d" and "d_next_buf d = None" and "pt_inv d0" and "0 < part" "part < 16" "part \<le> d_len d"
  shows "ends (intel_pt_get_split_psb env d part) (\<lambda>(ret, d'). (ret \<noteq> 0 \<longrightarrow> scanned rank d0 (ret, d')) \<and>
    (ret = 0 \<longrightarrow> scan_ok rank d0 d' \<and> ahead rank d' < ahead rank d))"
proof -
  let ?d = "d \<lparr>d_pos := d_pos d + of_nat (d_len d), d_len := 0\<rparr>"
  have d: "scan_ok rank d0 ?d" "d_next_buf ?d = None" using assms(2,3) by (simp_all add: scan_ok_def next_ok_def side_def)
  obtain ret d1 where g: "intel_pt_get_data env ?d = (ret, d1)" by (metis surj_pair)
  have n: "intel_pt_get_next_data env ?d = (ret, d1)" using g assms(3) by (simp add: intel_pt_get_next_data_def)
  show ?thesis
  proof (cases "ret = 0")
    case False
    then show ?thesis using scan_error [OF assms(1) d g False assms(4)] n
      by (simp add: intel_pt_get_split_psb_def ends_Some scanned_def)
  next
    case True
    note s = scan_data [OF assms(1) d g [unfolded True]]
    have d1: "d_len d1 \<le> length (d_buf d1)" "d_len d1 < SIZE_RANGE" "length (d_temp_buf d1) = 16" using s(1) by (simp_all add: scan_ok_def)
    obtain rest where r: "intel_pt_rest_psb d1 part = Some rest" "rest = 0 \<or> rest = 16 - part"
    proof
      have "\<not> 16 - part > d_len d1" "\<not> 16 - part > length (d_buf d1)" using s(2) d1(1) by simp_all
      then show "intel_pt_rest_psb d1 part = Some (if take (16 - part) (d_buf d1) = drop part PSB_STR then 16 - part else 0)"
        by (simp add: intel_pt_rest_psb_def Let_def)
    qed simp
    have rest: "rest < 16" "rest \<le> d_len d1" using r(2) s(2) assms(5) by auto
    then have a: "ptr_add (d_buf d1) rest = Some (drop rest (d_buf d1))" "size_sub (d_len d1) rest = d_len d1 - rest"
        "memcpy_at (d_temp_buf d1) 0 PSB_STR 16 = Some PSB_STR"
      using d1 s(2) by (auto simp: ptr_add_def memcpy_at_def)
    let ?d2 = "d1 \<lparr>d_pos := d_pos d1 - of_nat part, d_next_buf := Some (drop rest (d_buf d1)), d_next_len := d_len d1 - rest,
      d_temp_buf := PSB_STR, d_buf := PSB_STR, d_in_temp := True, d_len := 16\<rparr>"
    have "d_len d1 - rest < SIZE_RANGE" "(16 :: nat) < SIZE_RANGE" using d1(2) by (auto simp: SIZE_RANGE_def)
    then have "scan_ok rank d0 ?d2" using s(1,2) rest(1) d1 by (simp add: scan_ok_def next_ok_def side_def)
    moreover have "ahead rank ?d2 < ahead rank d" if "rest = 16 - part" using that s(2,4) assms(3,5,6,7) by (simp add: ahead_def)
    moreover have "ahead rank d1 < ahead rank d" using s(3,4) assms(3) by (simp add: ahead_def)
    ultimately show ?thesis using True n r a s(1) by (auto simp: intel_pt_get_split_psb_def ends_Some Let_def)
  qed
qed

lemma scan_buffer_ends:
  assumes "env_law env rank" and "scan_ok rank d0 d" and "pt_inv d0" and "0 < d_len d"
  shows "ends (scan_buffer env d) (loop_post (scan_ok rank d0) (ahead rank) (scanned rank d0) (ahead rank d))"
proof (cases "memmem (take (d_len d) (d_buf d)) PSB_STR")
  case (Some n)
  have "ends (intel_pt_get_next_packet env (d \<lparr>d_pkt_step := n\<rparr>)) (scanned rank d0)"
    by (rule ends_mono [OF scan_packet [OF assms(2) Some]]) (auto simp: scanned_def)
  then show ?thesis using Some assms(2) by (simp add: scan_buffer_def ends_map scan_ok_def)
next
  case None
  then have nb: "d_next_buf d = None" using assms(2) memmem_here [of PSB_STR "take (d_len d) (d_buf d)"] by (auto simp: scan_ok_def)
  have len: "d_len d \<le> length (d_buf d)" using assms(2) by (simp add: scan_ok_def)
  let ?part = "part_psb_loop (take (d_len d) (d_buf d)) 15"
  have part: "intel_pt_part_psb d = Some ?part" "?part < 16" "?part \<le> d_len d"
    using len part_psb_loop_le [of "take (d_len d) (d_buf d)" 15] by (auto simp: intel_pt_part_psb_def)
  show ?thesis
  proof (cases "?part = 0")
    case True
    then show ?thesis using None part(1) len nb assms(2,4) by (simp add: scan_buffer_def ends_Some scan_ok_def next_ok_def side_def ahead_def)
  next
    case False
    from get_split_psb_ends [OF assms(1,2) nb assms(3) _ part(2,3)] False obtain ret d' where
      "intel_pt_get_split_psb env d ?part = Some (ret, d')" "ret \<noteq> 0 \<longrightarrow> scanned rank d0 (ret, d')" "ret = 0 \<longrightarrow> scan_ok rank d0 d' \<and> ahead rank d' < ahead rank d"
      by (auto simp: ends_def)
    then show ?thesis using None part(1) len False by (simp add: scan_buffer_def ends_Some)
  qed
qed

lemma intel_pt_scan_for_psb_ends:
  assumes "env_law env rank" and "pt_inv d0" and "scan_ok rank d0 d"
  shows "ends (intel_pt_scan_for_psb env d) (scanned rank d0)"
  unfolding intel_pt_scan_for_psb_def
proof (rule forever_ends [where m = "ahead rank" and I = "scan_ok rank d0", OF assms(3)], goal_cases)
  case (1 d1)
  show ?case
  proof (cases "d_len d1 = 0")
    case False
    then show ?thesis using scan_buffer_ends [OF assms(1) 1 assms(2)] by (simp add: scan_for_psb_body_def)
  next
    case True
    then have nb: "d_next_buf d1 = None" using 1 by (auto simp: scan_ok_def)
    obtain ret d2 where g: "intel_pt_get_data env d1 = (ret, d2)" by (metis surj_pair)
    have n: "intel_pt_get_next_data env d1 = (ret, d2)" using g nb by (simp add: intel_pt_get_next_data_def)
    show ?thesis
    proof (cases "ret = 0")
      case False
      then show ?thesis using scan_error [OF assms(1) 1 nb g False assms(2)] n True
        by (simp add: scan_for_psb_body_def ends_Some scanned_def)
    next
      case ret: True
      note s = scan_data [OF assms(1) 1 nb g [unfolded ret]]
      have a: "ahead rank d2 < ahead rank d1" using s(3,4) nb by (simp add: ahead_def)
      have "ends (scan_buffer env d2) (loop_post (scan_ok rank d0) (ahead rank) (scanned rank d0) (ahead rank d2))"
        by (rule scan_buffer_ends [OF assms(1) s(1) assms(2)]) (use s(2) in simp)
      then have "ends (scan_buffer env d2) (loop_post (scan_ok rank d0) (ahead rank) (scanned rank d0) (ahead rank d1))"
        by (rule ends_mono) (use a in \<open>auto simp: loop_post_def split: control.splits\<close>)
      then show ?thesis using n True ret by (simp add: scan_for_psb_body_def)
    qed
  qed
qed

section \<open>The decoder\<close>

definition ended :: "bool \<Rightarrow> ('c \<Rightarrow> nat) \<Rightarrow> ('c, 'f) intel_pt_decoder \<Rightarrow> int \<times> ('c, 'f) intel_pt_decoder \<Rightarrow> bool" where
  "ended walk rank d r \<longleftrightarrow> (case r of (err, d') \<Rightarrow> pt_inv d' \<and> rank (d_data d') \<le> rank (d_data d) \<and> err \<noteq> - ENOSYS \<and>
     (err = - ENOLINK \<longrightarrow> rank (d_data d') < rank (d_data d) \<or> walk \<and> d_pkt_state d' = INTEL_PT_STATE_NO_IP))"

lemma stepped_ended: "stepped walk rank d r \<Longrightarrow> rank (d_data d) \<le> rank (d_data d0) \<Longrightarrow> ended walk rank d0 r"
  by (auto simp: stepped_def ended_def)

lemma intel_pt_sync_ends:
  assumes "env_law env rank" and "pt_inv d" and "d_pkt_state d = INTEL_PT_STATE_NO_PSB"
  shows "ends (intel_pt_sync env d) (ended False rank d)"
proof -
  let ?d = "(trace_off d) \<lparr>d_have_last_ip := False, d_last_ip := 0, d_ip := 0, d_stack := intel_pt_clear_stack (d_stack d)\<rparr>"
  let ?c = "d \<lparr>d_stack := intel_pt_clear_stack (d_stack d)\<rparr>"
  have c: "pt_inv ?c" using assms(2) by (simp add: pt_inv_def intel_pt_clear_stack_spec)
  have "scan_ok rank ?c ?d" using assms(2,3) by (simp add: pt_inv_def fetch_ok_def next_ok_def scan_ok_def side_def trace_off_def)
  from intel_pt_scan_for_psb_ends [OF assms(1) c this] obtain err d1 where
    s: "intel_pt_scan_for_psb env ?d = Some (err, d1)" "scanned rank ?c (err, d1)" by (auto simp: ends_def)
  show ?thesis
  proof (cases "err = 0")
    case False
    then show ?thesis using s by (simp add: intel_pt_sync_def ends_Some scanned_def ended_def)
  next
    case True
    let ?p = "d1 \<lparr>d_have_last_ip := True, d_pkt_state := INTEL_PT_STATE_NO_IP\<rparr>"
    have d1: "rank (d_data d1) \<le> rank (d_data d)" "fetch_ok d1" "side d1 = side ?c" using s(2) True by (simp_all add: scanned_def)
    have "fetch_ok (d1 \<lparr>d_have_last_ip := True\<rparr>)" using d1(2) by (simp add: fetch_ok_def next_ok_def)
    then have "after rank ?p ?p" using d1(3) c by (simp add: after_def pt_inv_def side_def)
    from intel_pt_walk_psb_ends [OF assms(1) this] obtain err2 d2 where
      p: "intel_pt_walk_psb env ?p = Some (err2, d2)" "stepped False rank ?p (err2, d2)" by (auto simp: ends_def)
    have "ends (intel_pt_sync_ip env d2) (stepped False rank ?p)" if "err2 = 0"
      by (rule intel_pt_sync_ip_ends [OF assms(1)]) (use p(2) that in \<open>simp add: stepped_def\<close>)
    moreover have e: "ended False rank d r" if "stepped False rank ?p r" for r using that d1(1) by (auto intro: stepped_ended)
    moreover have "stepped False rank ?p (0, d2 \<lparr>d_state := st, d_pkt_state := INTEL_PT_STATE_IN_SYNC\<rparr>)" if "err2 = 0" for st
      using p(2) that by (simp add: stepped_def [of False rank ?p "(0, d2)"])
    ultimately show ?thesis using s(1) True p by (auto simp: intel_pt_sync_def ends_Some intro: ends_mono)
  qed
qed

lemma decode_in_state_ends:
  assumes "env_law env rank" and "pt_inv d"
  shows "ends (decode_in_state env d) (ended (d_pkt_state d \<noteq> INTEL_PT_STATE_NO_IP) rank d)"
proof -
  note env = assms(1)
  have a: "after rank d d" if "d_pkt_state d \<noteq> INTEL_PT_STATE_NO_PSB" using assms(2) that by (rule after_refl)
  have e: "ends m (ended w rank d)" if "ends m (stepped w rank d)" for m w using that by (rule ends_mono) (auto intro: stepped_ended)
  have f: "ends m (ended True rank d)" if "ends m (stepped False rank d)" for m using that by (rule ends_mono) (auto intro: stepped_ended stepped_walk)
  have fup: "\<exists>err d'. intel_pt_walk_fup env (d \<lparr>d_pkt_state := INTEL_PT_STATE_IN_SYNC\<rparr>) = Some (err, d') \<and> ended True rank d (err, d') \<and>
      (err = 0 \<or> err = - EAGAIN \<longrightarrow> after rank d d')" if "d_pkt_state d \<noteq> INTEL_PT_STATE_NO_PSB"
    using intel_pt_walk_fup_ends [OF env, of d "d \<lparr>d_pkt_state := INTEL_PT_STATE_IN_SYNC\<rparr>"] a [OF that]
    by (auto simp: ends_def stepped_def ended_def)
  show ?thesis
  proof (cases "d_pkt_state d")
    case INTEL_PT_STATE_NO_PSB
    have "ends (intel_pt_sync env d) (ended True rank d)"
      by (rule ends_mono [OF intel_pt_sync_ends [OF env assms(2) INTEL_PT_STATE_NO_PSB]]) (auto simp: ended_def)
    then show ?thesis using INTEL_PT_STATE_NO_PSB by (simp add: decode_in_state_def)
  next
    case INTEL_PT_STATE_NO_IP
    then show ?thesis using e [OF intel_pt_sync_ip_ends [OF env]] a by (simp add: decode_in_state_def)
  next
    case INTEL_PT_STATE_ERR_RESYNC
    then show ?thesis using f [OF intel_pt_sync_ip_ends [OF env]] a by (simp add: decode_in_state_def)
  next
    case INTEL_PT_STATE_IN_SYNC
    then show ?thesis using e [OF intel_pt_walk_trace_ends [OF env]] a by (simp add: decode_in_state_def)
  next
    case INTEL_PT_STATE_TNT
    then have "0 < pt_count (d_tnt d)" "after rank d d" using assms(2) a by (auto simp: pt_inv_def)
    from intel_pt_walk_tnt_ends [OF env this(2,1)] obtain err d' where
      t: "intel_pt_walk_tnt env d = Some (err, d')" "stepped True rank d (err, d')" by (auto simp: ends_def)
    then show ?thesis using INTEL_PT_STATE_TNT e [OF intel_pt_walk_trace_ends [OF env, of d d']] stepped_ended [OF t(2)]
      by (auto simp: decode_in_state_def ends_Some stepped_def)
  next
    case INTEL_PT_STATE_TIP
    then show ?thesis using e [OF intel_pt_walk_tip_ends [OF env]] a by (simp add: decode_in_state_def)
  next
    case INTEL_PT_STATE_TIP_PGD
    then show ?thesis using e [OF intel_pt_walk_tip_ends [OF env]] a by (simp add: decode_in_state_def)
  next
    case INTEL_PT_STATE_FUP
    then obtain err d' where u: "intel_pt_walk_fup env (d \<lparr>d_pkt_state := INTEL_PT_STATE_IN_SYNC\<rparr>) = Some (err, d')" "ended True rank d (err, d')"
        "err = 0 \<or> err = - EAGAIN \<longrightarrow> after rank d d'" using fup by auto
    have "ended True rank d (0, d' \<lparr>d_pkt_state := INTEL_PT_STATE_FUP\<rparr>)" if "err = 0"
      using u(3) that pt_inv_state [of d' INTEL_PT_STATE_FUP] by (simp add: ended_def after_def)
    then show ?thesis using INTEL_PT_STATE_FUP u f [OF intel_pt_walk_fup_tip_ends [OF env, of d d']]
      by (auto simp: decode_in_state_def ends_Some)
  next
    case INTEL_PT_STATE_FUP_NO_TIP
    then obtain err d' where u: "intel_pt_walk_fup env (d \<lparr>d_pkt_state := INTEL_PT_STATE_IN_SYNC\<rparr>) = Some (err, d')" "ended True rank d (err, d')"
        "err = 0 \<or> err = - EAGAIN \<longrightarrow> after rank d d'" using fup by auto
    then show ?thesis using INTEL_PT_STATE_FUP_NO_TIP e [OF intel_pt_walk_trace_ends [OF env, of d d']]
      by (auto simp: decode_in_state_def ends_Some)
  qed
qed

lemma decode_loop_ends:
  assumes "env_law env rank" and "pt_inv d"
  shows "ends (forever (decode_body env) d) (\<lambda>(err, d'). pt_inv d' \<and> rank (d_data d') \<le> rank (d_data d) \<and> err \<noteq> - ENOSYS \<and> err \<noteq> - ENOLINK)"
proof (rule forever_ends [where m = "\<lambda>d. 2 * rank (d_data d) + (if d_pkt_state d = INTEL_PT_STATE_NO_IP then 0 else 1)" and
    I = "\<lambda>d'. pt_inv d' \<and> rank (d_data d') \<le> rank (d_data d)"], goal_cases)
  case 1
  then show ?case using assms(2) by simp
next
  case (2 d1)
  let ?d = "d1 \<lparr>d_state := (d_state d1) \<lparr>s_type := INTEL_PT_BRANCH, s_flags := 0\<rparr>\<rparr>"
  have "pt_inv ?d" using 2 pt_inv_cong [OF core_state(1)] by blast
  from decode_in_state_ends [OF assms(1) this] obtain err d2 where
    s: "decode_in_state env ?d = Some (err, d2)" "ended (d_pkt_state d1 \<noteq> INTEL_PT_STATE_NO_IP) rank ?d (err, d2)" by (auto simp: ends_def)
  then show ?case using 2 by (auto simp: decode_body_def ends_Some ended_def)
qed

lemma core_decode_end: "core (decode_end err d) = core d"
  by (simp add: decode_end_def sample_now_def core_def Let_def)

lemma decode_end_err: "s_err (d_state (decode_end err d)) = (if err \<noteq> 0 then Some (intel_pt_ext_err err) else None)"
  by (simp add: decode_end_def sample_now_def Let_def)

lemma ext_err_intern: "intel_pt_ext_err err = INTEL_PT_ERR_INTERN \<Longrightarrow> err = - ENOSYS"
  by (auto simp: intel_pt_ext_err_def split: if_splits)

lemma intel_pt_decode_ends:
  assumes "env_law env rank" and "pt_inv d"
  shows "ends (intel_pt_decode env d) (\<lambda>d'. pt_inv d' \<and> rank (d_data d') \<le> rank (d_data d) \<and> s_err (d_state d') \<noteq> Some INTEL_PT_ERR_INTERN)"
proof -
  from decode_loop_ends [OF assms] obtain err d1 where
    l: "forever (decode_body env) d = Some (err, d1)" "pt_inv d1" "rank (d_data d1) \<le> rank (d_data d)" "err \<noteq> - ENOSYS" by (auto simp: ends_def)
  let ?e = "decode_end err d1"
  have c: "core (?e \<lparr>d_state := st\<rparr>) = core d1" for st by (simp add: core_decode_end core_state(1))
  have "pt_inv (?e \<lparr>d_state := st\<rparr>)" "d_data (?e \<lparr>d_state := st\<rparr>) = d_data d1" for st
    using pt_inv_cong [OF c] core_cong(4) [OF c] l(2) by simp_all
  then show ?thesis using l ext_err_intern by (auto simp: intel_pt_decode_def ends_Some Let_def decode_end_err)
qed

lemma setup_period_core: "intel_pt_setup_period d = Some d' \<Longrightarrow> core d' = core d"
  by (auto simp: intel_pt_setup_period_def core_def bind_eq_Some_conv split: if_splits)

lemma intel_pt_decoder_new_inv:
  assumes "intel_pt_decoder_new env ok params = Some (Some d)" and "p_mtc_period params \<le> 16"
  shows "pt_inv d"
proof -
  let ?z = "zero_decoder (pe_fp env) (p_data params)"
  let ?d = "?z \<lparr>d_return_compression := p_return_compression params, d_branch_enable := p_branch_enable params,
    d_flags := p_flags params, d_period := p_period params, d_period_type := p_period_type params,
    d_max_non_turbo_ratio := p_max_non_turbo_ratio params,
    d_max_non_turbo_ratio_fp := fp_of (pe_fp env) (ucast (p_max_non_turbo_ratio params))\<rparr>"
  obtain d1 where d1: "intel_pt_setup_period ?d = Some d1" "core d = core (d1 \<lparr>d_mtc_shift := p_mtc_period params\<rparr>)"
    using assms(1) by (cases "intel_pt_setup_period ?d") (auto simp: intel_pt_decoder_new_def Let_def core_def split: if_splits)
  have "core d = core (?z \<lparr>d_mtc_shift := p_mtc_period params\<rparr>)"
    using d1(2) setup_period_core [OF d1(1)] by (simp add: core_def)
  moreover have "pt_inv (?z \<lparr>d_mtc_shift := p_mtc_period params\<rparr>)"
    using assms(2) by (simp add: pt_inv_def fetch_ok_def next_ok_def zero_decoder_def stack_ok_def SIZE_RANGE_def)
  ultimately show ?thesis using pt_inv_cong by blast
qed

text \<open>The states of a decoder between calls of \<open>intel_pt_decode\<close>.\<close>

inductive decodes :: "('c, 'f) pt_env \<Rightarrow> ('c, 'f) intel_pt_decoder \<Rightarrow> ('c, 'f) intel_pt_decoder \<Rightarrow> bool" for env d where
  start: "decodes env d d"
| again: "decodes env d d' \<Longrightarrow> intel_pt_decode env d' = Some d'' \<Longrightarrow> decodes env d d''"

lemma decodes_inv:
  assumes "decodes env d d'" and "env_law env rank" and "pt_inv d"
  shows "pt_inv d'"
  using assms
proof (induction rule: decodes.induct)
  case (again d' d'')
  then show ?case using intel_pt_decode_ends [of env rank d'] by (simp add: ends_def)
qed

section \<open>Properties\<close>

text \<open>
  C1.  A new decoder can be called any number of times, for every trace and every program: each call of \<open>intel_pt_decode\<close> returns, with all accesses within
  the buffers, it never reports an internal error, and it does not give data back to the client.  The client gives the data in buffers of at least 16 bytes, of which
  there are finitely many, and the MTC period is a number of its field of the configuration.
\<close>

theorem intel_pt_decode_returns:
  assumes "env_law env rank" and "p_mtc_period params \<le> 16" and "intel_pt_decoder_new env ok params = Some (Some d)" and "decodes env d d'"
  shows "\<exists>d''. intel_pt_decode env d' = Some d'' \<and> s_err (d_state d'') \<noteq> Some INTEL_PT_ERR_INTERN \<and>
    rank (d_data d'') \<le> rank (d_data d')"
  using intel_pt_decode_ends [OF assms(1) decodes_inv [OF assms(4,1) intel_pt_decoder_new_inv [OF assms(3,2)]]] by (auto simp: ends_def)

text \<open>A client with a number of buffers that hold a PSB packet each, and without a program.\<close>

definition demo_pt_env :: "(nat, int) pt_env" where
  "demo_pt_env = \<lparr>pe_get_trace = (\<lambda>n. case n of
       0 \<Rightarrow> ((0, \<lparr>b_buf = [], b_len = 0, b_consecutive = False, b_ref_timestamp = 0, b_trace_nr = 0\<rparr>), 0)
     | Suc k \<Rightarrow> ((0, \<lparr>b_buf = PSB_STR, b_len = 16, b_consecutive = True, b_ref_timestamp = 0, b_trace_nr = 0\<rparr>), k)),
     pe_walk_insn = (\<lambda>n ip to_ip mx. ((- ENOENT, \<lparr>pi_op = INTEL_PT_OP_OTHER, pi_branch = INTEL_PT_BR_NO_BRANCH, pi_length = 0, pi_rel = 0,
       pi_buf = replicate 16 0\<rparr>, 0, ip), n)),
     pe_pgd_ip = None, pe_alloc = (\<lambda>n. None), pe_long_bits = 64, pe_fp = demo_fp\<rparr>"

definition demo_pt_params :: "nat intel_pt_params" where
  "demo_pt_params = \<lparr>p_data = 2, p_return_compression = False, p_branch_enable = True, p_period = 0, p_period_type = INTEL_PT_PERIOD_NONE,
     p_max_non_turbo_ratio = 0, p_mtc_period = 3, p_tsc_ctc_ratio_n = 2, p_tsc_ctc_ratio_d = 1, p_flags = 0\<rparr>"

lemma demo_env_law: "env_law demo_pt_env (\<lambda>n. 17 * n)"
  by (auto simp: env_law_def trace_law_def walk_law_def allocs_ok_def demo_pt_env_def SIZE_RANGE_def split: nat.splits)

theorem intel_pt_decode_returns_witness:
  "\<exists>d d'. intel_pt_decoder_new demo_pt_env True demo_pt_params = Some (Some d) \<and> intel_pt_decode demo_pt_env d = Some d' \<and>
    s_err (d_state d') \<noteq> Some INTEL_PT_ERR_INTERN \<and> d_data d' \<le> 2"
proof -
  have "\<exists>d. intel_pt_decoder_new demo_pt_env True demo_pt_params = Some (Some d) \<and> d_data d = 2"
    by (simp add: intel_pt_decoder_new_def demo_pt_params_def intel_pt_setup_period_def zero_decoder_def Let_def)
  then obtain d where d: "intel_pt_decoder_new demo_pt_env True demo_pt_params = Some (Some d)" "d_data d = 2" by blast
  then show ?thesis using intel_pt_decode_returns [OF demo_env_law _ d(1) decodes.start] by (auto simp: demo_pt_params_def)
qed

end
