(* ===== verification/Intel_PT_Overlap.thy ===== *)
theory Intel_PT_Overlap
  imports Intel_PT_Progress
begin

text \<open>
  Where the data of one buffer continues the data of another one (\<open>intel_pt_find_overlap\<close> of \<^verbatim>\<open>util/intel-pt-decoder/intel-pt-decoder.c\<close>).  A
  pointer into a buffer is an offset, a buffer pointer with its length is a pair.
\<close>

section \<open>The code\<close>

text \<open>\<open>memmem\<close> on a part of a buffer, with the offset of the place.\<close>

definition find_psb :: "u8 list \<Rightarrow> nat \<Rightarrow> nat \<Rightarrow> nat option option" where
  "find_psb bytes pos len =
     (if pos + len > length bytes then None
      else Some (map_option (\<lambda>n. pos + n) (memmem (take len (drop pos bytes)) PSB_STR)))"

definition intel_pt_next_psb :: "u8 list \<Rightarrow> nat \<times> nat \<Rightarrow> (bool \<times> nat \<times> nat) option" where
  "intel_pt_next_psb bytes = (\<lambda>(buf, len). do {
     p \<leftarrow> find_psb bytes buf len;
     Some (case p of Some p' \<Rightarrow> (True, p', len - (p' - buf)) | None \<Rightarrow> (False, buf, len))
   })"

definition intel_pt_step_psb :: "u8 list \<Rightarrow> nat \<times> nat \<Rightarrow> (bool \<times> nat \<times> nat) option" where
  "intel_pt_step_psb bytes = (\<lambda>(buf, len).
     if len = 0 then Some (False, buf, len)
     else do {
       p \<leftarrow> find_psb bytes (buf + 1) (len - 1);
       Some (case p of Some p' \<Rightarrow> (True, p', len - (p' - buf)) | None \<Rightarrow> (False, buf, len))
     })"

text \<open>\<open>memrchr\<close>: the last of the first \<open>n\<close> bytes that is \<open>c\<close>.\<close>

fun memrchr :: "u8 list \<Rightarrow> u8 \<Rightarrow> nat \<Rightarrow> nat option" where
  "memrchr bytes c 0 = None"
| "memrchr bytes c (Suc n) = (if bytes ! n = c then Some n else memrchr bytes c n)"

definition last_psb_body :: "u8 list \<Rightarrow> nat \<Rightarrow> (nat, nat option) control option" where
  "last_psb_body bytes k = (case memrchr bytes (PSB_STR ! 0) k of
     None \<Rightarrow> Some (Break None)
   | Some p \<Rightarrow>
       if p + INTEL_PT_PSB_LEN > length bytes then None
       else if take (INTEL_PT_PSB_LEN - 1) (drop (p + 1) bytes) = drop 1 PSB_STR then Some (Break (Some p))
       else if p = 0 then Some (Break None)
       else Some (Continue p))"

definition intel_pt_last_psb :: "u8 list \<Rightarrow> nat \<Rightarrow> nat \<Rightarrow> nat option option" where
  "intel_pt_last_psb bytes buf len =
     (if buf + len > length bytes then None
      else if len < INTEL_PT_PSB_LEN then Some None
      else map_option (map_option (\<lambda>p. buf + p))
        (forever (last_psb_body (take len (drop buf bytes))) (len - INTEL_PT_PSB_LEN + 1)))"

text \<open>The result has the value of the TSC and the number of bytes that are left.\<close>

definition next_tsc_body :: "u8 list \<Rightarrow> nat \<times> nat \<Rightarrow> (nat \<times> nat, (u64 \<times> nat) option) control option" where
  "next_tsc_body bytes = (\<lambda>(buf, len).
     if len = 0 then Some (Break None)
     else do {
       (ret, packet) \<leftarrow> intel_pt_get_packet (drop buf bytes) len;
       Some (if ret \<le> 0 then Break None
         else if pt_type packet = INTEL_PT_TSC then Break (Some (pt_payload packet, len))
         else if pt_type packet = INTEL_PT_PSBEND then Break None
         else Continue (buf + nat ret, size_sub len (nat ret)))
     })"

definition intel_pt_next_tsc :: "u8 list \<Rightarrow> nat \<Rightarrow> nat \<Rightarrow> (u64 \<times> nat) option option" where
  "intel_pt_next_tsc bytes buf len = forever (next_tsc_body bytes) (buf, len)"

definition intel_pt_tsc_cmp :: "u64 \<Rightarrow> u64 \<Rightarrow> int" where
  "intel_pt_tsc_cmp tsc1 tsc2 =
     (let halfway = push_bit 55 1 in
      if tsc1 = tsc2 then 0
      else if tsc1 < tsc2 then (if tsc2 - tsc1 < halfway then - 1 else 1)
      else (if tsc1 - tsc2 < halfway then 1 else - 1))"

abbreviation MAX_PADDING :: nat where
  "MAX_PADDING \<equiv> 7"

fun padding_loop :: "u8 list \<Rightarrow> u8 list \<Rightarrow> nat \<Rightarrow> nat \<Rightarrow> nat \<Rightarrow> nat option" where
  "padding_loop bytes_b bytes_a p q 0 = Some p"
| "padding_loop bytes_b bytes_a p q (Suc i) = do {
     x \<leftarrow> rd bytes_b p;
     y \<leftarrow> rd bytes_a q;
     if x \<noteq> y then Some p else padding_loop bytes_b bytes_a (p + 1) (q + 1) i
   }"

definition adj_for_padding :: "u8 list \<Rightarrow> nat \<Rightarrow> u8 list \<Rightarrow> nat \<Rightarrow> nat \<Rightarrow> nat option" where
  "adj_for_padding bytes_b buf_b bytes_a buf_a len_a =
     (if buf_b < MAX_PADDING \<or> buf_a + len_a < MAX_PADDING then None
      else padding_loop bytes_b bytes_a (buf_b - MAX_PADDING) (buf_a + len_a - MAX_PADDING) MAX_PADDING)"

text \<open>The last TSC of the first buffer, with the length up to which it counts.\<close>

definition last_tsc :: "u8 list \<Rightarrow> nat \<Rightarrow> nat \<Rightarrow> (u64 \<times> nat \<times> nat) option option" where
  "last_tsc bytes buf_a len_a = do {
     p \<leftarrow> intel_pt_last_psb bytes buf_a len_a;
     case p of
       None \<Rightarrow> Some None
     | Some p \<Rightarrow> do {
         let len = len_a - (p - buf_a);
         t \<leftarrow> intel_pt_next_tsc bytes p len;
         case t of
           Some (tsc_a, rem_a) \<Rightarrow> Some (Some (tsc_a, rem_a, len_a))
         | None \<Rightarrow> do {
             let len_a = len_a - len;
             p \<leftarrow> intel_pt_last_psb bytes buf_a len_a;
             case p of
               None \<Rightarrow> Some None
             | Some p \<Rightarrow> do {
                 t \<leftarrow> intel_pt_next_tsc bytes p (len_a - (p - buf_a));
                 Some (map_option (\<lambda>(tsc_a, rem_a). (tsc_a, rem_a, len_a)) t)
               }
           }
       }
   }"

text \<open>The result is the offset in the second buffer and whether \<open>*consecutive\<close> is set.\<close>

definition overlap_tsc_body ::
  "u8 list \<Rightarrow> nat \<Rightarrow> u64 \<times> nat \<times> nat \<Rightarrow> u8 list \<Rightarrow> nat \<times> nat \<Rightarrow> (nat \<times> nat, nat \<times> bool) control option"
where
  "overlap_tsc_body bytes_a buf_a = (\<lambda>(tsc_a, rem_a, len_a) bytes_b (buf_b, len_b). do {
     t \<leftarrow> intel_pt_next_tsc bytes_b buf_b len_b;
     let next = do {
       (found, s) \<leftarrow> intel_pt_step_psb bytes_b (buf_b, len_b);
       Some (if found then Continue s else Break (fst s + snd s, False))
     };
     case t of
       None \<Rightarrow> next
     | Some (tsc_b, rem_b) \<Rightarrow>
         let cmp = intel_pt_tsc_cmp tsc_a tsc_b in
         if cmp = 0 \<and> rem_b \<ge> rem_a then do {
           p \<leftarrow> adj_for_padding bytes_b (buf_b + len_b - (rem_b - rem_a)) bytes_a buf_a len_a;
           Some (Break (p, True))
         }
         else if cmp < 0 then Some (Break (buf_b, False))
         else next
   })"

definition intel_pt_find_overlap_tsc :: "u8 list \<Rightarrow> nat \<times> nat \<Rightarrow> u8 list \<Rightarrow> nat \<times> nat \<Rightarrow> (nat \<times> bool) option" where
  "intel_pt_find_overlap_tsc bytes_a a bytes_b b = do {
     t \<leftarrow> last_tsc bytes_a (fst a) (snd a);
     case t of
       None \<Rightarrow> Some (fst b, False)
     | Some t \<Rightarrow> forever (overlap_tsc_body bytes_a (fst a) t bytes_b) b
   }"

definition skip_body :: "u8 list \<Rightarrow> nat \<Rightarrow> nat \<times> nat \<Rightarrow> (nat \<times> nat, (nat \<times> nat) option) control option" where
  "skip_body bytes_a len_b a =
     (if len_b < snd a then do {
        (found, a) \<leftarrow> intel_pt_step_psb bytes_a a;
        Some (if found then Continue a else Break None)
      } else Some (Break (Some a)))"

definition match_body ::
  "u8 list \<Rightarrow> u8 list \<Rightarrow> nat \<Rightarrow> nat \<times> nat \<Rightarrow> (nat \<times> nat, nat \<times> bool) control option"
where
  "match_body bytes_a bytes_b buf_b = (\<lambda>(buf_a, len_a).
     if buf_a + len_a > length bytes_a \<or> buf_b + len_a > length bytes_b then None
     else if memmem (take len_a (drop buf_a bytes_a)) (take len_a (drop buf_b bytes_b)) \<noteq> None then do {
       p \<leftarrow> adj_for_padding bytes_b (buf_b + len_a) bytes_a buf_a len_a;
       Some (Break (p, True))
     }
     else do {
       (found, a) \<leftarrow> intel_pt_step_psb bytes_a (buf_a, len_a);
       Some (if found then Continue a else Break (buf_b, False))
     })"

text \<open>The pointer that \<open>intel_pt_find_overlap_tsc\<close> returns is never null.\<close>

definition intel_pt_find_overlap :: "u8 list \<Rightarrow> u8 list \<Rightarrow> bool \<Rightarrow> (nat \<times> bool) option" where
  "intel_pt_find_overlap bytes_a bytes_b have_tsc = do {
     (found, b) \<leftarrow> intel_pt_next_psb bytes_b (0, length bytes_b);
     if \<not> found then Some (fst b + snd b, False)
     else do {
       (found, a) \<leftarrow> intel_pt_next_psb bytes_a (0, length bytes_a);
       if \<not> found then Some (fst b, False)
       else if have_tsc then intel_pt_find_overlap_tsc bytes_a a bytes_b b
       else do {
         a \<leftarrow> forever (skip_body bytes_a (snd b)) a;
         case a of
           None \<Rightarrow> Some (fst b, False)
         | Some a \<Rightarrow> forever (match_body bytes_a bytes_b (fst b)) a
       }
     }
   }"

section \<open>PSB packets in a buffer\<close>

lemma memmem_first: "memmem hay needle = Some n \<Longrightarrow> i < n \<Longrightarrow> take (length needle) (drop i hay) \<noteq> needle"
proof (induction hay arbitrary: n i)
  case Nil
  then show ?case by (subst (asm) memmem.simps) (auto split: if_splits)
next
  case (Cons b hay)
  then show ?case by (subst (asm) (2) memmem.simps) (cases i; auto split: if_splits)
qed

lemma memmem_None: "memmem hay needle = None \<Longrightarrow> i \<le> length hay \<Longrightarrow> take (length needle) (drop i hay) \<noteq> needle"
proof (induction hay arbitrary: i)
  case Nil
  then show ?case by (subst (asm) memmem.simps) (auto split: if_splits)
next
  case (Cons b hay)
  then show ?case by (subst (asm) (2) memmem.simps) (cases i; auto split: if_splits)
qed

definition psb_at :: "u8 list \<Rightarrow> nat \<Rightarrow> bool" where
  "psb_at bytes p \<longleftrightarrow> take INTEL_PT_PSB_LEN (drop p bytes) = PSB_STR"

lemma psb_at_le: "psb_at bytes p \<Longrightarrow> p + 16 \<le> length bytes"
proof -
  assume "psb_at bytes p"
  then have "length (take 16 (drop p bytes)) = 16" by (simp add: psb_at_def)
  then show ?thesis by (simp add: min_def split: if_splits)
qed

text \<open>Everything up to the end of the buffer is searched.\<close>

lemma find_psb_rest:
  assumes "pos \<le> length bytes"
  shows "find_psb bytes pos (length bytes - pos) = Some (map_option (\<lambda>n. pos + n) (memmem (drop pos bytes) PSB_STR))"
  using assms by (simp add: find_psb_def)

lemma find_psb_cases:
  assumes "pos \<le> length bytes"
  obtains (none) "find_psb bytes pos (length bytes - pos) = Some None" "\<forall>q\<ge>pos. \<not> psb_at bytes q"
  | (some) p where "find_psb bytes pos (length bytes - pos) = Some (Some p)" "psb_at bytes p" "pos \<le> p" "\<forall>q. pos \<le> q \<and> q < p \<longrightarrow> \<not> psb_at bytes q"
proof (cases "memmem (drop pos bytes) PSB_STR")
  case None
  have "\<not> psb_at bytes q" if "pos \<le> q" for q
  proof
    assume a: "psb_at bytes q"
    then have "q - pos \<le> length (drop pos bytes)" using psb_at_le [OF a] that by simp
    then show False using memmem_None [OF None, of "q - pos"] a that by (simp add: psb_at_def)
  qed
  then show ?thesis using none None find_psb_rest [OF assms] by simp
next
  case (Some n)
  have "\<not> psb_at bytes q" if "pos \<le> q" "q < pos + n" for q
    using memmem_first [OF Some, of "q - pos"] that by (simp add: psb_at_def)
  moreover have "psb_at bytes (pos + n)" using memmem_Some [OF Some] by (simp add: psb_at_def add.commute)
  ultimately show ?thesis using some [of "pos + n"] Some find_psb_rest [OF assms] by simp
qed

text \<open>The step to the next PSB packet of the rest of a buffer.\<close>

lemma step_psb_cases:
  assumes "psb_at bytes buf"
  obtains (none) "intel_pt_step_psb bytes (buf, length bytes - buf) = Some (False, buf, length bytes - buf)" "\<forall>q>buf. \<not> psb_at bytes q"
  | (some) p where "intel_pt_step_psb bytes (buf, length bytes - buf) = Some (True, p, length bytes - p)" "psb_at bytes p" "buf < p"
      "\<forall>q. buf < q \<and> q < p \<longrightarrow> \<not> psb_at bytes q"
proof -
  have le: "buf + 16 \<le> length bytes" using psb_at_le [OF assms] .
  then have w: "length bytes - buf \<noteq> 0" "length bytes - buf - 1 = length bytes - (buf + 1)" "buf + 1 \<le> length bytes" by auto
  from w(3) show ?thesis
  proof (cases rule: find_psb_cases)
    case none
    then show ?thesis using that(1) w by (simp add: intel_pt_step_psb_def Suc_le_eq)
  next
    case (some p)
    have "length bytes - buf - (p - buf) = length bytes - p" using some(3) by simp
    then show ?thesis using that(2) [of p] some w by (simp add: intel_pt_step_psb_def Suc_le_eq)
  qed
qed

section \<open>Comparing the bytes\<close>

definition continues :: "u8 list \<Rightarrow> u8 list \<Rightarrow> nat \<Rightarrow> nat \<Rightarrow> bool" where
  "continues bytes_a bytes_b b a \<longleftrightarrow> psb_at bytes_a a \<and> drop a bytes_a = take (length bytes_a - a) (drop b bytes_b)"

lemma continues_le:
  assumes "continues bytes_a bytes_b b a"
  shows "length bytes_a - a \<le> length bytes_b - b"
proof -
  have "length (drop a bytes_a) = length (take (length bytes_a - a) (drop b bytes_b))" using assms by (simp only: continues_def)
  then show ?thesis by (simp add: min_def split: if_splits)
qed

lemma padding_loop_same:
  assumes "p + n \<le> length bs" and "q + n \<le> length as" and "\<And>i. i < n \<Longrightarrow> bs ! (p + i) = as ! (q + i)"
  shows "padding_loop bs as p q n = Some (p + n)"
  using assms
proof (induction n arbitrary: p q)
  case (Suc n)
  have "padding_loop bs as (p + 1) (q + 1) n = Some (p + 1 + n)"
    by (rule Suc.IH) (use Suc.prems(1,2) Suc.prems(3) [of "Suc _"] in simp_all)
  then show ?case using Suc.prems(1,2) Suc.prems(3) [of 0] by (simp add: rd_def)
qed simp

lemma adj_same:
  assumes "continues bytes_a bytes_b b a"
  shows "adj_for_padding bytes_b (b + (length bytes_a - a)) bytes_a a (length bytes_a - a) = Some (b + (length bytes_a - a))"
proof -
  have a: "a + 16 \<le> length bytes_a" using assms psb_at_le by (simp add: continues_def)
  let ?n = "length bytes_a - a"
  have b: "b + ?n \<le> length bytes_b" using continues_le [OF assms] a by simp
  have eq: "bytes_b ! (b + i) = bytes_a ! (a + i)" if "i < ?n" for i
  proof -
    have "drop a bytes_a ! i = take ?n (drop b bytes_b) ! i" using assms by (simp only: continues_def)
    then show ?thesis using that a b by simp
  qed
  have "padding_loop bytes_b bytes_a (b + ?n - 7) (a + ?n - 7) 7 = Some (b + ?n - 7 + 7)"
  proof (rule padding_loop_same)
    show "bytes_b ! (b + ?n - 7 + i) = bytes_a ! (a + ?n - 7 + i)" if "i < 7" for i
      using eq [of "?n - 7 + i"] that a by (simp add: algebra_simps)
  qed (use a b in simp_all)
  then show ?thesis using a by (simp add: adj_for_padding_def)
qed

lemma memmem_same:
  assumes "length hay = length needle"
  shows "memmem hay needle \<noteq> None \<longleftrightarrow> hay = needle"
proof
  assume "memmem hay needle \<noteq> None"
  then obtain n where "take (length needle) (drop n hay) = needle" using memmem_Some by blast
  moreover from this have "length (take (length needle) (drop n hay)) = length needle" by simp
  then have "n = 0 \<or> length hay = 0" using assms by (simp only: length_take length_drop) linarith
  ultimately show "hay = needle" using assms by auto
qed (simp add: memmem_here)

text \<open>The first PSB packet of the first buffer behind which there is not more data than in the second one.\<close>

lemma skip_ends:
  assumes "psb_at bytes_a a" and "\<forall>q<a. \<not> continues bytes_a bytes_b b q"
  shows "ends (forever (skip_body bytes_a (length bytes_b - b)) (a, length bytes_a - a)) (\<lambda>r.
    (r = None \<longrightarrow> (\<forall>q. \<not> continues bytes_a bytes_b b q)) \<and>
    (\<forall>s. r = Some s \<longrightarrow> snd s = length bytes_a - fst s \<and> snd s \<le> length bytes_b - b \<and> psb_at bytes_a (fst s) \<and>
      (\<forall>q<fst s. \<not> continues bytes_a bytes_b b q)))"
proof (rule forever_ends [where m = snd and I = "\<lambda>s. snd s = length bytes_a - fst s \<and> psb_at bytes_a (fst s) \<and>
    (\<forall>q<fst s. \<not> continues bytes_a bytes_b b q)"], goal_cases)
  case 1
  then show ?case using assms by simp
next
  case (2 s)
  obtain p where s: "s = (p, length bytes_a - p)" and p: "psb_at bytes_a p" "\<forall>q<p. \<not> continues bytes_a bytes_b b q" using 2 by (cases s) auto
  show ?case
  proof (cases "length bytes_b - b < length bytes_a - p")
    case False
    then show ?thesis using p s by (simp add: skip_body_def ends_Some)
  next
    case True
    then have "\<not> continues bytes_a bytes_b b p" using continues_le by fastforce
    then have n: "\<forall>q\<le>p. \<not> continues bytes_a bytes_b b q" using p(2) by (auto simp: le_less)
    from p(1) show ?thesis
    proof (cases rule: step_psb_cases)
      case none
      then have "\<not> continues bytes_a bytes_b b q" for q using n by (cases "q \<le> p") (auto simp: continues_def)
      then show ?thesis using none True s by (simp add: skip_body_def ends_Some)
    next
      case (some p')
      then have "\<not> continues bytes_a bytes_b b q" if "q < p'" for q using n that by (cases "q \<le> p") (auto simp: continues_def)
      moreover have "length bytes_a - p' < length bytes_a - p" using some(3) psb_at_le [OF some(2)] by simp
      ultimately show ?thesis using some True s by (simp add: skip_body_def ends_Some)
    qed
  qed
qed

lemma match_ends:
  assumes "psb_at bytes_a a" and "\<forall>q<a. \<not> continues bytes_a bytes_b b q" and "length bytes_a - a \<le> length bytes_b - b" and "b \<le> length bytes_b"
  shows "ends (forever (match_body bytes_a bytes_b b) (a, length bytes_a - a)) (\<lambda>r.
    r = (if \<exists>a. continues bytes_a bytes_b b a then (b + (length bytes_a - (LEAST a. continues bytes_a bytes_b b a)), True) else (b, False)))"
proof (rule forever_ends [where m = snd and I = "\<lambda>s. snd s = length bytes_a - fst s \<and> psb_at bytes_a (fst s) \<and>
    (\<forall>q<fst s. \<not> continues bytes_a bytes_b b q) \<and> snd s \<le> length bytes_b - b"], goal_cases)
  case 1
  then show ?case using assms by simp
next
  case (2 s)
  obtain p where s: "s = (p, length bytes_a - p)" and p: "psb_at bytes_a p" "\<forall>q<p. \<not> continues bytes_a bytes_b b q" "length bytes_a - p \<le> length bytes_b - b"
    using 2 by (cases s) auto
  have le: "p + 16 \<le> length bytes_a" using psb_at_le [OF p(1)] .
  have "length (take (length bytes_a - p) (drop b bytes_b)) = length bytes_a - p" using p(3) by simp
  then have m: "memmem (drop p bytes_a) (take (length bytes_a - p) (drop b bytes_b)) \<noteq> None \<longleftrightarrow> continues bytes_a bytes_b b p"
    using memmem_same [of "drop p bytes_a" "take (length bytes_a - p) (drop b bytes_b)"] p(1) by (simp add: continues_def)
  have ok: "\<not> (p + (length bytes_a - p) > length bytes_a \<or> b + (length bytes_a - p) > length bytes_b)" using le p(3) assms(4) by simp
  show ?case
  proof (cases "continues bytes_a bytes_b b p")
    case True
    then have "(LEAST a. continues bytes_a bytes_b b a) = p" using p(2) by (intro Least_equality) (auto simp: not_less [symmetric])
    then show ?thesis using True m ok adj_same [OF True] s by (auto simp: match_body_def ends_Some)
  next
    case False
    then have n: "\<forall>q\<le>p. \<not> continues bytes_a bytes_b b q" using p(2) by (auto simp: le_less)
    have mn: "memmem (drop p bytes_a) (take (length bytes_a - p) (drop b bytes_b)) = None" using m False by simp
    from p(1) show ?thesis
    proof (cases rule: step_psb_cases)
      case none
      then have "\<not> continues bytes_a bytes_b b q" for q using n by (cases "q \<le> p") (auto simp: continues_def)
      then show ?thesis using none mn ok s by (auto simp: match_body_def ends_Some)
    next
      case (some p')
      then have "\<not> continues bytes_a bytes_b b q" if "q < p'" for q using n that by (cases "q \<le> p") (auto simp: continues_def)
      moreover have "length bytes_a - p' < length bytes_a - p" using some(3) psb_at_le [OF some(2)] by simp
      ultimately show ?thesis using some mn ok s p(3) by (simp add: match_body_def ends_Some)
    qed
  qed
qed

lemma next_psb_cases:
  obtains (none) "intel_pt_next_psb bytes (0, length bytes) = Some (False, 0, length bytes)" "\<forall>q. \<not> psb_at bytes q" "memmem bytes PSB_STR = None"
  | (some) p where "intel_pt_next_psb bytes (0, length bytes) = Some (True, p, length bytes - p)" "psb_at bytes p" "\<forall>q<p. \<not> psb_at bytes q"
      "memmem bytes PSB_STR = Some p"
proof (cases "memmem bytes PSB_STR")
  case None
  then show ?thesis using none find_psb_cases [of 0 bytes] find_psb_rest [of 0 bytes] by (fastforce simp: intel_pt_next_psb_def)
next
  case (Some p)
  then show ?thesis using some [of p] find_psb_cases [of 0 bytes] find_psb_rest [of 0 bytes] by (fastforce simp: intel_pt_next_psb_def)
qed

lemma find_overlap_bytes:
  "intel_pt_find_overlap bytes_a bytes_b False = Some (case memmem bytes_b PSB_STR of
     None \<Rightarrow> (length bytes_b, False)
   | Some b \<Rightarrow> if \<exists>a. continues bytes_a bytes_b b a then (b + (length bytes_a - (LEAST a. continues bytes_a bytes_b b a)), True) else (b, False))"
proof (cases rule: next_psb_cases [of bytes_b])
  case none
  then show ?thesis by (simp add: intel_pt_find_overlap_def)
next
  case b: (some b)
  have ble: "b \<le> length bytes_b" using psb_at_le [OF b(2)] by simp
  show ?thesis
  proof (cases rule: next_psb_cases [of bytes_a])
    case none
    then show ?thesis using b by (simp add: intel_pt_find_overlap_def continues_def)
  next
    case (some a)
    then have "\<forall>q<a. \<not> continues bytes_a bytes_b b q" by (simp add: continues_def)
    from skip_ends [OF some(2) this] obtain r where r: "forever (skip_body bytes_a (length bytes_b - b)) (a, length bytes_a - a) = Some r"
        "r = None \<longrightarrow> (\<forall>q. \<not> continues bytes_a bytes_b b q)"
        "\<forall>s. r = Some s \<longrightarrow> snd s = length bytes_a - fst s \<and> snd s \<le> length bytes_b - b \<and> psb_at bytes_a (fst s) \<and>
          (\<forall>q<fst s. \<not> continues bytes_a bytes_b b q)"
      by (auto simp: ends_def)
    show ?thesis
    proof (cases r)
      case None
      then show ?thesis using b some r by (simp add: intel_pt_find_overlap_def)
    next
      case (Some s)
      obtain p where "s = (p, length bytes_a - p)" using r(3) Some by (cases s) auto
      moreover have "forever (match_body bytes_a bytes_b b) (p, length bytes_a - p) = Some (if \<exists>a. continues bytes_a bytes_b b a
          then (b + (length bytes_a - (LEAST a. continues bytes_a bytes_b b a)), True) else (b, False))"
        using match_ends [of bytes_a p bytes_b b] r(3) Some calculation ble by (auto simp: ends_def)
      ultimately show ?thesis using b some r(1) Some by (simp add: intel_pt_find_overlap_def)
    qed
  qed
qed

section \<open>Comparing the TSC packets\<close>

lemma memrchr_Some: "memrchr bytes c k = Some p \<Longrightarrow> p < k \<and> bytes ! p = c"
  by (induction k) (auto split: if_splits)

lemma PSB_STR_Cons: "PSB_STR = PSB_STR ! 0 # drop 1 PSB_STR"
  by (simp add: PSB_STR_def numeral_eq_Suc)

lemma intel_pt_last_psb_ends:
  assumes "buf + len \<le> length bytes"
  shows "ends (intel_pt_last_psb bytes buf len) (\<lambda>r. \<forall>p. r = Some p \<longrightarrow> buf \<le> p \<and> p + 16 \<le> buf + len \<and> psb_at bytes p)"
proof (cases "len < 16")
  case True
  then show ?thesis using assms by (simp add: intel_pt_last_psb_def ends_Some)
next
  case False
  let ?w = "take len (drop buf bytes)"
  have w: "length ?w = len" using assms by simp
  have "ends (forever (last_psb_body ?w) (len - 16 + 1)) (\<lambda>r. \<forall>p. r = Some p \<longrightarrow> p + 16 \<le> len \<and> psb_at bytes (buf + p))"
  proof (rule forever_ends [where m = id and I = "\<lambda>k. k + 15 \<le> len"], goal_cases)
    case 1
    then show ?case using False by simp
  next
    case (2 k)
    show ?case
    proof (cases "memrchr ?w (PSB_STR ! 0) k")
      case None
      then show ?thesis by (simp add: last_psb_body_def ends_Some)
    next
      case (Some p)
      then have p: "p < k" "?w ! p = PSB_STR ! 0" using memrchr_Some by blast+
      then have le: "p + 16 \<le> len" using 2 by simp
      have "psb_at bytes (buf + p)" if t: "take 15 (drop (p + 1) ?w) = drop 1 PSB_STR"
      proof -
        have "take 16 (drop p ?w) = ?w ! p # take 15 (drop (p + 1) ?w)"
          using Cons_nth_drop_Suc [of p ?w, symmetric] le w by (simp add: take_Cons')
        then have "take 16 (drop p ?w) = PSB_STR" using p(2) t PSB_STR_Cons by simp
        moreover have "take 16 (drop p ?w) = take 16 (drop (buf + p) bytes)" using le by (simp add: drop_take add.commute)
        ultimately show ?thesis by (simp add: psb_at_def)
      qed
      then show ?thesis using Some p(1) le w 2 by (simp add: last_psb_body_def ends_Some)
    qed
  qed
  then show ?thesis using False assms by (auto simp: intel_pt_last_psb_def ends_map elim!: ends_mono)
qed

lemma next_tsc_ends:
  assumes "buf + len \<le> length bytes" and "len < SIZE_RANGE"
  shows "ends (forever (next_tsc_body bytes) (buf, len)) (\<lambda>r. \<forall>t n. r = Some (t, n) \<longrightarrow> n \<le> len)"
proof (rule forever_ends [where m = snd and I = "\<lambda>s. fst s + snd s \<le> length bytes \<and> snd s \<le> len"], goal_cases)
  case 1
  then show ?case using assms(1) by simp
next
  case (2 s)
  obtain p n where s: "s = (p, n)" "p + n \<le> length bytes" "n \<le> len" using 2 by (cases s) auto
  have n: "n \<le> length (drop p bytes)" "n < SIZE_RANGE" using s assms(2) by auto
  obtain ret q where g: "intel_pt_get_packet (drop p bytes) n = Some (ret, q)" "0 < ret \<longrightarrow> ret \<le> int n"
    using intel_pt_get_packet_ok [OF n] by (auto simp: pt_ok_def)
  then have "0 < ret \<longrightarrow> nat ret \<le> n" by auto
  then show ?case using g s n(2) by (auto simp: next_tsc_body_def ends_Some)
qed

lemma intel_pt_next_tsc_ends:
  assumes "psb_at bytes buf" and "16 \<le> len" and "buf + len \<le> length bytes" and "len < SIZE_RANGE"
  shows "ends (intel_pt_next_tsc bytes buf len) (\<lambda>r. \<forall>t n. r = Some (t, n) \<longrightarrow> n + 16 \<le> len)"
proof -
  have "intel_pt_get_packet (drop buf bytes) len = Some (16, \<lparr>pt_type = INTEL_PT_PSB, pt_count = 0, pt_payload = 0\<rparr>)"
    using get_packet_PSB [of "drop buf bytes" len] assms by (simp add: psb_at_def)
  then have "intel_pt_next_tsc bytes buf len = forever (next_tsc_body bytes) (buf + 16, len - 16)"
    unfolding intel_pt_next_tsc_def using assms(2,4) by (subst forever.simps) (simp add: next_tsc_body_def)
  moreover have "ends (forever (next_tsc_body bytes) (buf + 16, len - 16)) (\<lambda>r. \<forall>t n. r = Some (t, n) \<longrightarrow> n \<le> len - 16)"
    by (rule next_tsc_ends) (use assms in auto)
  ultimately show ?thesis using assms(2) by (auto elim!: ends_mono)
qed

lemma padding_loop_ends:
  "p + n \<le> length bs \<Longrightarrow> q + n \<le> length as \<Longrightarrow> ends (padding_loop bs as p q n) (\<lambda>r. r \<le> p + n)"
proof (induction n arbitrary: p q)
  case (Suc n)
  have "ends (padding_loop bs as (p + 1) (q + 1) n) (\<lambda>r. r \<le> p + 1 + n)" by (rule Suc.IH) (use Suc.prems in auto)
  then show ?case using Suc.prems by (simp add: rd_def ends_simps)
qed (simp add: ends_Some)

lemma adj_ends:
  assumes "7 \<le> buf_b" and "buf_b \<le> length bytes_b" and "7 \<le> buf_a + len_a" and "buf_a + len_a \<le> length bytes_a"
  shows "ends (adj_for_padding bytes_b buf_b bytes_a buf_a len_a) (\<lambda>p. p \<le> length bytes_b)"
  using padding_loop_ends [of "buf_b - 7" 7 bytes_b "buf_a + len_a - 7" bytes_a] assms by (auto simp: adj_for_padding_def elim!: ends_mono)

lemma last_tsc_ends:
  assumes "buf + len \<le> length bytes" and "len < SIZE_RANGE"
  shows "ends (last_tsc bytes buf len) (\<lambda>r. \<forall>t n l. r = Some (t, n, l) \<longrightarrow> 16 \<le> l \<and> l \<le> len)"
proof -
  have psb: "\<exists>r. intel_pt_last_psb bytes buf l = Some r \<and> (\<forall>p. r = Some p \<longrightarrow> buf \<le> p \<and> p + 16 \<le> buf + l \<and> psb_at bytes p)" if "l \<le> len" for l
    using intel_pt_last_psb_ends [of buf l bytes] assms(1) that by (simp add: ends_def)
  have tsc: "\<exists>r. intel_pt_next_tsc bytes p (l - (p - buf)) = Some r" if "buf \<le> p" "p + 16 \<le> buf + l" "psb_at bytes p" "l \<le> len" for p l
  proof -
    have "16 \<le> l - (p - buf)" "p + (l - (p - buf)) \<le> length bytes" "l - (p - buf) < SIZE_RANGE" using that assms by linarith+
    from intel_pt_next_tsc_ends [OF that(3) this] show ?thesis by (auto simp: ends_def)
  qed
  obtain r where r: "intel_pt_last_psb bytes buf len = Some r" "\<forall>p. r = Some p \<longrightarrow> buf \<le> p \<and> p + 16 \<le> buf + len \<and> psb_at bytes p" using psb [of len] by auto
  show ?thesis
  proof (cases r)
    case None
    then show ?thesis using r by (simp add: last_tsc_def ends_Some)
  next
    case (Some p)
    then have p: "buf \<le> p" "p + 16 \<le> buf + len" "psb_at bytes p" using r(2) by auto
    obtain t where t: "intel_pt_next_tsc bytes p (len - (p - buf)) = Some t" using tsc [OF p] by auto
    let ?l = "len - (len - (p - buf))"
    have l: "?l = p - buf" using p by simp
    obtain r' where r': "intel_pt_last_psb bytes buf ?l = Some r'" "\<forall>p'. r' = Some p' \<longrightarrow> buf \<le> p' \<and> p' + 16 \<le> buf + ?l \<and> psb_at bytes p'"
      using psb [of ?l] by auto
    show ?thesis
    proof (cases t)
      case (Some x)
      then show ?thesis using r(1) \<open>r = Some p\<close> t p by (cases x) (simp add: last_tsc_def ends_Some)
    next
      case None
      show ?thesis
      proof (cases r')
        case None
        then show ?thesis using r(1) \<open>r = Some p\<close> t \<open>t = None\<close> r'(1) by (simp add: last_tsc_def ends_Some)
      next
        case (Some p')
        then have p': "buf \<le> p'" "p' + 16 \<le> buf + ?l" "psb_at bytes p'" using r'(2) by auto
        obtain t' where "intel_pt_next_tsc bytes p' (?l - (p' - buf)) = Some t'" using tsc [OF p'] by auto
        then show ?thesis using r(1) \<open>r = Some p\<close> t \<open>t = None\<close> r'(1) Some p'(1,2) by (auto simp: last_tsc_def ends_Some)
      qed
    qed
  qed
qed

lemma find_overlap_tsc_ends:
  assumes "psb_at bytes_a a" and "psb_at bytes_b b" and "length bytes_a < SIZE_RANGE" and "length bytes_b < SIZE_RANGE"
  shows "ends (intel_pt_find_overlap_tsc bytes_a (a, length bytes_a - a) bytes_b (b, length bytes_b - b)) (\<lambda>r. fst r \<le> length bytes_b)"
proof -
  have le: "a + 16 \<le> length bytes_a" "b + 16 \<le> length bytes_b" using assms psb_at_le by blast+
  have "ends (last_tsc bytes_a a (length bytes_a - a)) (\<lambda>r. \<forall>t n l. r = Some (t, n, l) \<longrightarrow> 16 \<le> l \<and> l \<le> length bytes_a - a)"
    by (rule last_tsc_ends) (use le assms(3) in auto)
  then obtain r where r: "last_tsc bytes_a a (length bytes_a - a) = Some r" "\<forall>t n l. r = Some (t, n, l) \<longrightarrow> 16 \<le> l \<and> l \<le> length bytes_a - a"
    by (auto simp: ends_def)
  have "ends (forever (overlap_tsc_body bytes_a a (t, n, l) bytes_b) (b, length bytes_b - b)) (\<lambda>r. fst r \<le> length bytes_b)"
    if l: "16 \<le> l" "l \<le> length bytes_a - a" for t n l
  proof (rule forever_ends [where m = snd and I = "\<lambda>s. snd s = length bytes_b - fst s \<and> psb_at bytes_b (fst s)"], goal_cases)
    case 1
    then show ?case using assms(2) by simp
  next
    case (2 s)
    obtain p where s: "s = (p, length bytes_b - p)" and p: "psb_at bytes_b p" using 2 by (cases s) auto
    have pl: "p + 16 \<le> length bytes_b" using psb_at_le [OF p] .
    let ?post = "loop_post (\<lambda>s. snd s = length bytes_b - fst s \<and> psb_at bytes_b (fst s)) snd (\<lambda>r. fst r \<le> length bytes_b) (length bytes_b - p)"
    have step: "ends (intel_pt_step_psb bytes_b (p, length bytes_b - p) \<bind>
        (\<lambda>(found, s). Some (if found then Continue s else Break (fst s + snd s, False)))) ?post"
      using p
    proof (cases rule: step_psb_cases)
      case none
      then show ?thesis using pl by (simp add: ends_Some)
    next
      case (some p')
      then show ?thesis using psb_at_le [OF some(2)] by (simp add: ends_Some)
    qed
    have "ends (intel_pt_next_tsc bytes_b p (length bytes_b - p)) (\<lambda>r. \<forall>t n. r = Some (t, n) \<longrightarrow> n + 16 \<le> length bytes_b - p)"
      by (rule intel_pt_next_tsc_ends [OF p]) (use pl assms(4) in auto)
    then obtain u where u: "intel_pt_next_tsc bytes_b p (length bytes_b - p) = Some u" "\<forall>t n. u = Some (t, n) \<longrightarrow> n + 16 \<le> length bytes_b - p"
      by (auto simp: ends_def)
    show ?case
    proof (cases u)
      case None
      then show ?thesis using u(1) step s by (simp add: overlap_tsc_body_def)
    next
      case (Some x)
      obtain tb nb where x: "x = (tb, nb)" by (cases x)
      then have nb: "nb + 16 \<le> length bytes_b - p" using u(2) Some by blast
      have "ends (adj_for_padding bytes_b (p + (length bytes_b - p) - (nb - n)) bytes_a a l) (\<lambda>q. q \<le> length bytes_b)" if "n \<le> nb"
        by (rule adj_ends) (use nb that l le pl in auto)
      then show ?thesis using u(1) step s Some x pl
        by (auto simp: overlap_tsc_body_def Let_def ends_bind ends_Some elim!: ends_mono)
    qed
  qed
  then show ?thesis using r le(2) by (auto simp: intel_pt_find_overlap_tsc_def ends_Some split: option.splits)
qed

lemma find_overlap_ends:
  assumes "length bytes_a < SIZE_RANGE" and "length bytes_b < SIZE_RANGE"
  shows "ends (intel_pt_find_overlap bytes_a bytes_b have_tsc) (\<lambda>r. fst r \<le> length bytes_b)"
proof (cases have_tsc)
  case True
  show ?thesis
  proof (cases rule: next_psb_cases [of bytes_b])
    case none
    then show ?thesis by (simp add: intel_pt_find_overlap_def ends_Some)
  next
    case b: (some b)
    show ?thesis
    proof (cases rule: next_psb_cases [of bytes_a])
      case none
      then show ?thesis using b psb_at_le [OF b(2)] by (simp add: intel_pt_find_overlap_def ends_Some)
    next
      case (some a)
      then show ?thesis using True b find_overlap_tsc_ends [OF some(2) b(2) assms] by (simp add: intel_pt_find_overlap_def)
    qed
  qed
next
  case False
  have "b + (length bytes_a - (LEAST a. continues bytes_a bytes_b b a)) \<le> length bytes_b" if "b \<le> length bytes_b" "continues bytes_a bytes_b b a" for a b
    using continues_le [OF LeastI [of "continues bytes_a bytes_b b", OF that(2)]] that(1) by simp
  moreover have "b \<le> length bytes_b" if "memmem bytes_b PSB_STR = Some b" for b
    using that psb_at_le by (cases rule: next_psb_cases [of bytes_b]) fastforce+
  ultimately show ?thesis using False by (auto simp: find_overlap_bytes ends_Some split: option.splits)
qed

section \<open>Properties\<close>

text \<open>
  C13.  Without TSC packets the decoder finds out from the bytes alone where the second buffer continues the first one.  It looks at the second buffer from its
  first PSB packet on.  The buffers are consecutive if and only if the first buffer from one of its PSB packets on is how the second one begins, and then the new data starts
  behind the longest such part.  Otherwise all data from the first PSB packet on is new; a second buffer without a PSB packet has none.
\<close>

theorem intel_pt_find_overlap_exact:
  "intel_pt_find_overlap bytes_a bytes_b False = Some (case memmem bytes_b PSB_STR of
     None \<Rightarrow> (length bytes_b, False)
   | Some b \<Rightarrow> if \<exists>a. continues bytes_a bytes_b b a then (b + (length bytes_a - (LEAST a. continues bytes_a bytes_b b a)), True) else (b, False))"
  by (rule find_overlap_bytes)

text \<open>
  C14.  For every two buffers and with or without TSC packets, \<open>intel_pt_find_overlap\<close> returns, reads within the buffers, and gives a place in the second buffer.
\<close>

theorem intel_pt_find_overlap_safe:
  assumes "length bytes_a < SIZE_RANGE" and "length bytes_b < SIZE_RANGE"
  shows "\<exists>r consecutive. intel_pt_find_overlap bytes_a bytes_b have_tsc = Some (r, consecutive) \<and> r \<le> length bytes_b"
  using find_overlap_ends [OF assms, of have_tsc] by (auto simp: ends_def)

theorem intel_pt_find_overlap_safe_witness:
  "\<exists>r consecutive. intel_pt_find_overlap PSB_STR (PSB_STR @ PSB_STR) True = Some (r, consecutive) \<and> r \<le> 32"
  using intel_pt_find_overlap_safe [of PSB_STR "PSB_STR @ PSB_STR" True] by (simp add: SIZE_RANGE_def)

end
