(* ===== verification/Intel_PT_Client.thy ===== *)
theory Intel_PT_Client
  imports Intel_PT_Overlap Auxtrace_Queues
begin

text \<open>
  The trace data of a queue as the Intel PT decoder gets it (\<open>intel_pt_get_trace\<close> of \<^verbatim>\<open>util/intel-pt.c\<close>), and the decoder on such a queue.

  The state has the fields of \<open>struct intel_pt_queue\<close> and of its session that the callback uses: the queue with the positions of the current and
  of the previous buffer, and the memory.  The file of the session is a parameter: \<open>me_mmap\<close> gives the address of a mapping of that many bytes at that
  offset, or \<open>None\<close>; \<open>me_load\<close> gives the memory with the mapping of a buffer.
\<close>

section \<open>The code\<close>

type_synonym memory = "u64 \<Rightarrow> u8"

record map_env =
  me_page_size :: u64
  me_mmap :: "memory \<Rightarrow> u64 \<Rightarrow> u64 \<Rightarrow> u64 option"
  me_load :: "memory \<Rightarrow> auxtrace_buffer \<Rightarrow> memory"

record intel_pt_queue =
  ptq_queue :: auxtrace_queue
  ptq_buffer :: "nat option"
  ptq_old_buffer :: "nat option"
  ptq_stop :: bool
  ptq_step_through_buffers :: bool
  ptq_snapshot_mode :: bool
  ptq_sampling_mode :: bool
  ptq_have_tsc :: bool
  ptq_mem :: memory

text \<open>The bytes of an object; there are none at the null pointer.\<close>

definition bytes_at :: "memory \<Rightarrow> u64 \<Rightarrow> u64 \<Rightarrow> u8 list option" where
  "bytes_at m addr n = (if addr = 0 \<and> n \<noteq> 0 then None else Some (map (\<lambda>i. m (addr + of_nat i)) [0..<unat n]))"

definition set_buffer :: "nat \<Rightarrow> auxtrace_buffer \<Rightarrow> intel_pt_queue \<Rightarrow> intel_pt_queue" where
  "set_buffer i buffer ptq = ptq \<lparr>ptq_queue := (ptq_queue ptq) \<lparr>aq_head := (aq_head (ptq_queue ptq))[i := buffer]\<rparr>\<rparr>"

definition drop_buffer :: "nat option \<Rightarrow> intel_pt_queue \<Rightarrow> intel_pt_queue option" where
  "drop_buffer buffer ptq = (case buffer of
     None \<Rightarrow> Some ptq
   | Some i \<Rightarrow> do {
       b \<leftarrow> rd (aq_head (ptq_queue ptq)) i;
       Some (set_buffer i (auxtrace_buffer__drop_data b) ptq)
     })"

definition intel_pt_do_fix_overlap ::
  "intel_pt_queue \<Rightarrow> auxtrace_buffer \<Rightarrow> auxtrace_buffer \<Rightarrow> (int \<times> auxtrace_buffer) option"
where
  "intel_pt_do_fix_overlap ptq a b = do {
     bytes_a \<leftarrow> bytes_at (ptq_mem ptq) (ab_data a) (ab_size a);
     bytes_b \<leftarrow> bytes_at (ptq_mem ptq) (ab_data b) (ab_size b);
     (start, consecutive) \<leftarrow> intel_pt_find_overlap bytes_a bytes_b (ptq_have_tsc ptq);
     let start = ab_data b + of_nat start;
     if start = 0 then Some (- EINVAL, b)
     else
       let b = b \<lparr>ab_use_size := ab_data b + ab_size b - start, ab_use_data := start\<rparr> in
       Some (0, if ab_use_size b \<noteq> 0 \<and> consecutive then b \<lparr>ab_consecutive := True\<rparr> else b)
   }"

text \<open>The data of a buffer, which are mapped when they are not in memory; the result is the queue and the buffer.\<close>

definition load_buffer :: "map_env \<Rightarrow> intel_pt_queue \<Rightarrow> auxtrace_buffer \<Rightarrow> intel_pt_queue \<times> auxtrace_buffer" where
  "load_buffer env ptq buffer =
     (if ab_data buffer \<noteq> 0 then (ptq, buffer)
      else
        let (data, buffer) = auxtrace_buffer__get_data (me_page_size env) (me_mmap env (ptq_mem ptq)) buffer in
        (if data = 0 then ptq else ptq \<lparr>ptq_mem := me_load env (ptq_mem ptq) buffer\<rparr>, buffer))"

text \<open>The buffer at a position of the queue becomes the current one; the result is the error code, the trace data and the queue.\<close>

definition trace_buffer ::
  "map_env \<Rightarrow> intel_pt_buffer \<Rightarrow> intel_pt_queue \<Rightarrow> nat \<Rightarrow> (int \<times> intel_pt_buffer \<times> intel_pt_queue) option"
where
  "trace_buffer env b ptq i = do {
     buffer \<leftarrow> rd (aq_head (ptq_queue ptq)) i;
     let old = ptq_old_buffer ptq;
     let ptq = ptq \<lparr>ptq_buffer := Some i\<rparr>;
     let (ptq, buffer) = load_buffer env ptq buffer;
     if ab_data buffer = 0 then Some (- ENOMEM, b, set_buffer i buffer ptq)
     else do {
       let might_overlap = (ptq_snapshot_mode ptq \<or> ptq_sampling_mode ptq);
       (err, buffer) \<leftarrow> (case old of
           None \<Rightarrow> Some (0, buffer)
         | Some j \<Rightarrow>
             if might_overlap \<and> \<not> ab_consecutive buffer
             then do { a \<leftarrow> rd (aq_head (ptq_queue ptq)) j; intel_pt_do_fix_overlap ptq a buffer }
             else Some (0, buffer));
       let ptq = set_buffer i buffer ptq;
       if err \<noteq> 0 then Some (- ENOMEM, b, ptq)
       else do {
         let (len, addr) = (if ab_use_data buffer \<noteq> 0 then (ab_use_size buffer, ab_use_data buffer) else (ab_size buffer, ab_data buffer));
         bytes \<leftarrow> bytes_at (ptq_mem ptq) addr len;
         let b = b \<lparr>b_len := unat len, b_buf := bytes, b_ref_timestamp := ab_reference buffer\<rparr>;
         let b = (if old = None \<or> might_overlap \<and> \<not> ab_consecutive buffer
           then b \<lparr>b_consecutive := False, b_trace_nr := ab_buffer_nr buffer + 1\<rparr>
           else b \<lparr>b_consecutive := True\<rparr>);
         Some (0, b, if ptq_step_through_buffers ptq then ptq \<lparr>ptq_stop := True\<rparr> else ptq)
       }
     }
   }"

function intel_pt_get_trace ::
  "map_env \<Rightarrow> intel_pt_buffer \<Rightarrow> intel_pt_queue \<Rightarrow> ((int \<times> intel_pt_buffer) \<times> intel_pt_queue) option"
where
  "intel_pt_get_trace env b ptq =
     (if ptq_stop ptq then Some ((0, b \<lparr>b_len := 0\<rparr>), ptq)
      else case auxtrace_buffer__next (ptq_queue ptq) (ptq_buffer ptq) of
        None \<Rightarrow> do {
          ptq \<leftarrow> drop_buffer (ptq_old_buffer ptq) ptq;
          Some ((0, b \<lparr>b_len := 0\<rparr>), ptq)
        }
      | Some i \<Rightarrow> do {
          let old = ptq_old_buffer ptq;
          (ret, b, ptq) \<leftarrow> trace_buffer env b ptq i;
          if ret \<noteq> 0 then Some ((ret, b), ptq)
          else if b_len b \<noteq> 0 then do {
            ptq \<leftarrow> drop_buffer old ptq;
            Some ((0, b), ptq \<lparr>ptq_old_buffer := Some i\<rparr>)
          }
          else do {
            ptq \<leftarrow> drop_buffer (Some i) ptq;
            intel_pt_get_trace env b ptq
          }
        })"
  by pat_completeness auto

section \<open>The buffers that are left\<close>

definition next_pos :: "nat option \<Rightarrow> nat" where
  "next_pos buffer = (case buffer of None \<Rightarrow> 0 | Some i \<Rightarrow> Suc i)"

lemma next_Some: "auxtrace_buffer__next Q buffer = Some i \<Longrightarrow> i = next_pos buffer"
  by (auto simp: auxtrace_buffer__next_def next_pos_def split: option.splits if_splits)

text \<open>The fields that the callback does not change, and the buffers behind a position.\<close>

definition modes :: "intel_pt_queue \<Rightarrow> bool \<times> bool \<times> nat" where
  "modes ptq = (ptq_snapshot_mode ptq, ptq_sampling_mode ptq, length (aq_head (ptq_queue ptq)))"

definition rest :: "nat \<Rightarrow> intel_pt_queue \<Rightarrow> auxtrace_buffer list" where
  "rest i ptq = drop i (aq_head (ptq_queue ptq))"

definition data_len :: "auxtrace_buffer \<Rightarrow> nat" where
  "data_len buffer = unat (if ab_use_data buffer \<noteq> 0 then ab_use_size buffer else ab_size buffer)"

lemma set_buffer_simps [simp]:
  "ptq_buffer (set_buffer i b ptq) = ptq_buffer ptq" "ptq_old_buffer (set_buffer i b ptq) = ptq_old_buffer ptq"
  "modes (set_buffer i b ptq) = modes ptq" "i < j \<Longrightarrow> rest j (set_buffer i b ptq) = rest j ptq"
  by (simp_all add: set_buffer_def modes_def rest_def)

lemma modes_rest_simps [simp]:
  "modes (ptq \<lparr>ptq_buffer := x\<rparr>) = modes ptq" "modes (ptq \<lparr>ptq_old_buffer := x\<rparr>) = modes ptq" "modes (ptq \<lparr>ptq_mem := m\<rparr>) = modes ptq"
  "modes (ptq \<lparr>ptq_stop := t\<rparr>) = modes ptq"
  "rest j (ptq \<lparr>ptq_buffer := x\<rparr>) = rest j ptq" "rest j (ptq \<lparr>ptq_old_buffer := x\<rparr>) = rest j ptq" "rest j (ptq \<lparr>ptq_mem := m\<rparr>) = rest j ptq"
  "rest j (ptq \<lparr>ptq_stop := t\<rparr>) = rest j ptq"
  by (simp_all add: modes_def rest_def)

lemma drop_buffer_keeps:
  assumes "drop_buffer buffer ptq = Some ptq'"
  shows "ptq_buffer ptq' = ptq_buffer ptq" and "ptq_old_buffer ptq' = ptq_old_buffer ptq" and "modes ptq' = modes ptq"
    and "next_pos buffer \<le> j \<Longrightarrow> rest j ptq' = rest j ptq"
  using assms by (auto simp: drop_buffer_def bind_eq_Some_conv next_pos_def split: option.splits)

lemma load_buffer_keeps:
  assumes "load_buffer env ptq buffer = (ptq', buffer')"
  shows "ptq_buffer ptq' = ptq_buffer ptq" and "ptq_old_buffer ptq' = ptq_old_buffer ptq" and "modes ptq' = modes ptq" and "rest j ptq' = rest j ptq"
    and "data_len buffer' = data_len buffer"
  using assms by (auto simp: load_buffer_def auxtrace_buffer__get_data_def data_len_def Let_def split: if_splits option.splits)

lemma trace_buffer_keeps:
  assumes "trace_buffer env b ptq i = Some (ret, b', ptq')"
  shows "ptq_buffer ptq' = Some i" and "ptq_old_buffer ptq' = ptq_old_buffer ptq" and "modes ptq' = modes ptq"
    and "i < length (aq_head (ptq_queue ptq))" and "i < j \<Longrightarrow> rest j ptq' = rest j ptq"
proof -
  obtain buffer where r: "rd (aq_head (ptq_queue ptq)) i = Some buffer" using assms by (auto simp: trace_buffer_def bind_eq_Some_conv)
  obtain ptq1 buffer1 where p: "load_buffer env (ptq \<lparr>ptq_buffer := Some i\<rparr>) buffer = (ptq1, buffer1)" by (metis surj_pair)
  note k = load_buffer_keeps(1-4) [OF p, simplified]
  have "\<exists>buffer2. ptq' = set_buffer i buffer2 ptq1 \<or> ptq' = (set_buffer i buffer2 ptq1) \<lparr>ptq_stop := True\<rparr>"
    using assms unfolding trace_buffer_def r Let_def
    by (auto simp: p bind_eq_Some_conv split: if_splits prod.splits)
  then have "i < length (aq_head (ptq_queue ptq)) \<and> (\<exists>buffer2. ptq' = set_buffer i buffer2 ptq1 \<or> ptq' = (set_buffer i buffer2 ptq1) \<lparr>ptq_stop := True\<rparr>)"
    using r by (simp add: rd_eq_Some)
  then show "ptq_buffer ptq' = Some i" "ptq_old_buffer ptq' = ptq_old_buffer ptq" "modes ptq' = modes ptq"
      "i < length (aq_head (ptq_queue ptq))" "i < j \<Longrightarrow> rest j ptq' = rest j ptq"
    using k by auto
qed

termination intel_pt_get_trace
proof (relation "measure (\<lambda>(env, b, ptq). length (aq_head (ptq_queue ptq)) - next_pos (ptq_buffer ptq))", goal_cases)
  case (2 env b ptq i old x ret y b' ptq1 ptq2)
  then have t: "trace_buffer env b ptq i = Some (ret, b', ptq1)" and d: "drop_buffer (Some i) ptq1 = Some ptq2" by simp_all
  have "length (aq_head (ptq_queue ptq2)) = length (aq_head (ptq_queue ptq))" "ptq_buffer ptq2 = Some i"
    using trace_buffer_keeps(1,3) [OF t] drop_buffer_keeps(1,3) [OF d] by (simp_all add: modes_def)
  then show ?case using trace_buffer_keeps(4) [OF t] next_Some [OF 2(2)] by (simp add: next_pos_def)
qed simp

declare intel_pt_get_trace.simps [simp del]

section \<open>What the decoder gets\<close>

text \<open>
  A queue of a trace without gaps: not in snapshot mode or sampling mode, and the buffers that are left are empty or have at least the size of the
  longest packet.
\<close>

definition client_ok :: "intel_pt_queue \<Rightarrow> bool" where
  "client_ok ptq \<longleftrightarrow> \<not> ptq_snapshot_mode ptq \<and> \<not> ptq_sampling_mode ptq \<and>
     next_pos (ptq_old_buffer ptq) \<le> next_pos (ptq_buffer ptq) \<and> next_pos (ptq_buffer ptq) \<le> length (aq_head (ptq_queue ptq)) \<and>
     list_all (\<lambda>b. data_len b = 0 \<or> INTEL_PT_PKT_MAX_SZ \<le> data_len b) (rest (next_pos (ptq_buffer ptq)) ptq)"

definition data_left :: "intel_pt_queue \<Rightarrow> nat" where
  "data_left ptq = sum_list (map (\<lambda>b. Suc (data_len b)) (rest (next_pos (ptq_buffer ptq)) ptq))"

lemma trace_buffer_ends:
  assumes "\<not> ptq_snapshot_mode ptq" "\<not> ptq_sampling_mode ptq" "i < length (aq_head (ptq_queue ptq))"
  shows "\<exists>ret b' ptq'. trace_buffer env b ptq i = Some (ret, b', ptq') \<and> (ret = 0 \<or> ret = - ENOMEM) \<and>
    (ret = 0 \<longrightarrow> b_len b' = data_len (aq_head (ptq_queue ptq) ! i) \<and> length (b_buf b') = b_len b')"
proof -
  let ?buffer = "aq_head (ptq_queue ptq) ! i"
  obtain ptq1 buffer1 where p: "load_buffer env (ptq \<lparr>ptq_buffer := Some i\<rparr>) ?buffer = (ptq1, buffer1)" by (metis surj_pair)
  have k: "\<not> ptq_snapshot_mode ptq1" "\<not> ptq_sampling_mode ptq1" "data_len buffer1 = data_len ?buffer" "ptq_old_buffer ptq1 = ptq_old_buffer ptq"
    using load_buffer_keeps [OF p] assms(1,2) by (simp_all add: modes_def)
  show ?thesis using assms(3) k unfolding trace_buffer_def
    by (auto simp: p bytes_at_def data_len_def Let_def split: option.splits)
qed

lemma client_ok_step:
  assumes "client_ok ptq" and "i = next_pos (ptq_buffer ptq)" and "i < length (aq_head (ptq_queue ptq))" and "ptq_buffer ptq' = Some i"
    and "ptq_old_buffer ptq' = ptq_old_buffer ptq \<or> ptq_old_buffer ptq' = Some i" and "modes ptq' = modes ptq" and "rest (Suc i) ptq' = rest (Suc i) ptq"
  shows "client_ok ptq'" and "data_left ptq' + Suc (data_len (aq_head (ptq_queue ptq) ! i)) = data_left ptq"
    and "data_len (aq_head (ptq_queue ptq) ! i) = 0 \<or> INTEL_PT_PKT_MAX_SZ \<le> data_len (aq_head (ptq_queue ptq) ! i)"
proof -
  have r: "rest i ptq = aq_head (ptq_queue ptq) ! i # rest (Suc i) ptq" using assms(3) by (simp add: rest_def Cons_nth_drop_Suc)
  have n: "next_pos (Some i) = Suc i" by (simp add: next_pos_def)
  show "client_ok ptq'" using assms r n by (auto simp: client_ok_def modes_def)
  show "data_left ptq' + Suc (data_len (aq_head (ptq_queue ptq) ! i)) = data_left ptq"
    using assms(2,4,7) r n by (simp add: data_left_def)
  show "data_len (aq_head (ptq_queue ptq) ! i) = 0 \<or> INTEL_PT_PKT_MAX_SZ \<le> data_len (aq_head (ptq_queue ptq) ! i)"
    using assms(1,2) r by (simp add: client_ok_def)
qed

lemma client_ok_drop:
  assumes "client_ok ptq"
  shows "\<exists>ptq'. drop_buffer (ptq_old_buffer ptq) ptq = Some ptq' \<and> client_ok ptq' \<and> data_left ptq' = data_left ptq"
proof -
  have le: "next_pos (ptq_old_buffer ptq) \<le> next_pos (ptq_buffer ptq)" "next_pos (ptq_buffer ptq) \<le> length (aq_head (ptq_queue ptq))"
    using assms by (simp_all add: client_ok_def)
  then obtain ptq' where d: "drop_buffer (ptq_old_buffer ptq) ptq = Some ptq'"
    by (auto simp: drop_buffer_def next_pos_def split: option.splits)
  then show ?thesis using drop_buffer_keeps [OF d] le assms by (auto simp: client_ok_def data_left_def modes_def)
qed

lemma drop_buffer_ends: "next_pos buffer \<le> length (aq_head (ptq_queue ptq)) \<Longrightarrow> \<exists>ptq'. drop_buffer buffer ptq = Some ptq'"
  by (auto simp: drop_buffer_def next_pos_def split: option.splits)

definition gets :: "intel_pt_queue \<Rightarrow> (int \<times> intel_pt_buffer) \<times> intel_pt_queue \<Rightarrow> bool" where
  "gets ptq = (\<lambda>((ret, b), ptq'). client_ok ptq' \<and> data_left ptq' \<le> data_left ptq \<and> (ret = 0 \<or> ret = - ENOMEM) \<and>
     (ret = 0 \<longrightarrow> b_len b \<le> length (b_buf b) \<and> b_len b < SIZE_RANGE \<and>
       (b_len b \<noteq> 0 \<longrightarrow> INTEL_PT_PKT_MAX_SZ \<le> b_len b \<and> data_left ptq' + b_len b < data_left ptq)))"

lemma data_len_range: "data_len b < SIZE_RANGE"
  using unsigned_less [of "if ab_use_data b \<noteq> 0 then ab_use_size b else ab_size b"] by (simp add: data_len_def SIZE_RANGE_def)

text \<open>The next buffer of a queue.\<close>

lemma next_buffer_ends:
  assumes "client_ok ptq" and "auxtrace_buffer__next (ptq_queue ptq) (ptq_buffer ptq) = Some i"
  obtains ret b' ptq1 where "trace_buffer env b ptq i = Some (ret, b', ptq1)" and "ret = 0 \<or> ret = - ENOMEM" and "client_ok ptq1"
    and "data_left ptq1 \<le> data_left ptq" and "i < length (aq_head (ptq_queue ptq))" and "length (aq_head (ptq_queue ptq1)) = length (aq_head (ptq_queue ptq))"
    and "ret = 0 \<Longrightarrow> b_len b' = data_len (aq_head (ptq_queue ptq) ! i) \<and> length (b_buf b') = b_len b'"
proof -
  have ok: "\<not> ptq_snapshot_mode ptq" "\<not> ptq_sampling_mode ptq" "next_pos (ptq_buffer ptq) \<le> length (aq_head (ptq_queue ptq))"
    using assms(1) by (simp_all add: client_ok_def)
  then have i: "i = next_pos (ptq_buffer ptq)" "i < length (aq_head (ptq_queue ptq))"
    using next_Some [OF assms(2)] assms(2) by (auto simp: auxtrace_buffer__next_def next_pos_def split: option.splits if_splits)
  from trace_buffer_ends [OF ok(1,2) i(2), of env b] obtain ret b' ptq1 where
    t: "trace_buffer env b ptq i = Some (ret, b', ptq1)" "ret = 0 \<or> ret = - ENOMEM"
      "ret = 0 \<Longrightarrow> b_len b' = data_len (aq_head (ptq_queue ptq) ! i) \<and> length (b_buf b') = b_len b'" by blast
  note k = trace_buffer_keeps [OF t(1)]
  have "client_ok ptq1" "data_left ptq1 \<le> data_left ptq" using client_ok_step [OF assms(1) i k(1) _ k(3) k(5)] k(2) by simp_all
  then show ?thesis using that t i(2) k(3) by (simp add: modes_def)
qed

lemma use_buffer_ends:
  assumes "client_ok ptq" and "auxtrace_buffer__next (ptq_queue ptq) (ptq_buffer ptq) = Some i" and "trace_buffer env b ptq i = Some (0, b', ptq1)"
    and "length (aq_head (ptq_queue ptq1)) = length (aq_head (ptq_queue ptq))" and "b_len b' = data_len (aq_head (ptq_queue ptq) ! i)" and "b_len b' \<noteq> 0"
  obtains ptq2 where "drop_buffer (ptq_old_buffer ptq) ptq1 = Some ptq2" and "client_ok (ptq2 \<lparr>ptq_old_buffer := Some i\<rparr>)"
    and "data_left (ptq2 \<lparr>ptq_old_buffer := Some i\<rparr>) + Suc (b_len b') = data_left ptq" and "INTEL_PT_PKT_MAX_SZ \<le> b_len b'"
proof -
  have ok: "next_pos (ptq_old_buffer ptq) \<le> next_pos (ptq_buffer ptq)" "next_pos (ptq_buffer ptq) \<le> length (aq_head (ptq_queue ptq))"
    using assms(1) by (simp_all add: client_ok_def)
  then obtain ptq2 where d: "drop_buffer (ptq_old_buffer ptq) ptq1 = Some ptq2" using drop_buffer_ends assms(4) by (metis order_trans)
  note k = trace_buffer_keeps [OF assms(3)] and k2 = drop_buffer_keeps [OF d] and i = next_Some [OF assms(2)]
  let ?q = "ptq2 \<lparr>ptq_old_buffer := Some i\<rparr>"
  have q: "ptq_buffer ?q = Some i" "modes ?q = modes ptq" "rest (Suc i) ?q = rest (Suc i) ptq" using k k2 ok(1) i by simp_all
  show ?thesis using that [OF d] client_ok_step [OF assms(1) i k(4) q(1) _ q(2,3)] assms(5,6) by simp
qed

lemma skip_buffer_ends:
  assumes "client_ok ptq" and "auxtrace_buffer__next (ptq_queue ptq) (ptq_buffer ptq) = Some i" and "trace_buffer env b ptq i = Some (0, b', ptq1)"
    and "length (aq_head (ptq_queue ptq1)) = length (aq_head (ptq_queue ptq))"
  obtains ptq2 where "drop_buffer (Some i) ptq1 = Some ptq2" and "client_ok ptq2" and "data_left ptq2 \<le> data_left ptq"
proof -
  note k = trace_buffer_keeps [OF assms(3)]
  then obtain ptq2 where d: "drop_buffer (Some i) ptq1 = Some ptq2" using drop_buffer_ends [of "Some i" ptq1] assms(4) by (auto simp: next_pos_def)
  note k2 = drop_buffer_keeps [OF d]
  show ?thesis using that [OF d] client_ok_step [OF assms(1) next_Some [OF assms(2)] k(4), of ptq2] k k2 by (auto simp: next_pos_def)
qed

lemma get_trace_ends: "client_ok ptq \<Longrightarrow> ends (intel_pt_get_trace env b ptq) (gets ptq)"
proof (induction env b ptq rule: intel_pt_get_trace.induct)
  case (1 env b ptq)
  note unf = intel_pt_get_trace.simps [of env b ptq] ends_Some gets_def
  consider (stop) "ptq_stop ptq" | (last) "\<not> ptq_stop ptq" "auxtrace_buffer__next (ptq_queue ptq) (ptq_buffer ptq) = None"
    | (more) i where "\<not> ptq_stop ptq" "auxtrace_buffer__next (ptq_queue ptq) (ptq_buffer ptq) = Some i" by (meson not_None_eq)
  then show ?case
  proof cases
    case stop
    then show ?thesis using "1.prems" by (simp add: unf SIZE_RANGE_def)
  next
    case last
    with client_ok_drop [OF "1.prems"] show ?thesis by (auto simp: unf SIZE_RANGE_def)
  next
    case (more i)
    from next_buffer_ends [OF "1.prems" more(2), of env b] obtain ret b' ptq1 where
      t: "trace_buffer env b ptq i = Some (ret, b', ptq1)" "ret = 0 \<or> ret = - ENOMEM" "client_ok ptq1" "data_left ptq1 \<le> data_left ptq"
        "length (aq_head (ptq_queue ptq1)) = length (aq_head (ptq_queue ptq))"
        "ret = 0 \<Longrightarrow> b_len b' = data_len (aq_head (ptq_queue ptq) ! i) \<and> length (b_buf b') = b_len b'" by metis
    consider (error) "ret \<noteq> 0" | (data) "ret = 0" "b_len b' \<noteq> 0" | (empty) "ret = 0" "b_len b' = 0" by blast
    then show ?thesis
    proof cases
      case error
      then show ?thesis using more t(1-4) by (simp add: unf)
    next
      case data
      from use_buffer_ends [OF "1.prems" more(2) t(1) [unfolded data(1)] t(5) _ data(2)] obtain ptq2 where
        "drop_buffer (ptq_old_buffer ptq) ptq1 = Some ptq2" "client_ok (ptq2 \<lparr>ptq_old_buffer := Some i\<rparr>)" "INTEL_PT_PKT_MAX_SZ \<le> b_len b'"
        "data_left (ptq2 \<lparr>ptq_old_buffer := Some i\<rparr>) + Suc (b_len b') = data_left ptq" using t(6) data(1) by blast
      then show ?thesis using more t data data_len_range by (auto simp: unf)
    next
      case empty
      from skip_buffer_ends [OF "1.prems" more(2) t(1) [unfolded empty(1)] t(5)] obtain ptq2 where
        d: "drop_buffer (Some i) ptq1 = Some ptq2" "client_ok ptq2" "data_left ptq2 \<le> data_left ptq" by blast
      then have "ends (intel_pt_get_trace env b' ptq2) (gets ptq2)" using "1.IH" [OF more _ t(1)] empty by simp
      then have "ends (intel_pt_get_trace env b' ptq2) (gets ptq)" using d(3) by (auto simp: ends_def gets_def)
      then show ?thesis using more t(1) empty d(1) by (simp add: intel_pt_get_trace.simps [of env b ptq])
    qed
  qed
qed

text \<open>
  At the end of the queue the data of the previous buffer are unmapped, but it keeps its size and stays the previous buffer.  When a buffer is queued
  after that, looking for an overlap with it reads from the null pointer.
\<close>

lemma overlap_with_dropped:
  assumes "ab_data a \<noteq> 0" and "ab_mmap_addr a \<noteq> 0" and "\<not> ab_data_needs_freeing a" and "ab_size a \<noteq> 0"
  shows "intel_pt_do_fix_overlap ptq (auxtrace_buffer__drop_data a) b = None"
  using assms by (simp add: intel_pt_do_fix_overlap_def auxtrace_buffer__drop_data_def auxtrace_buffer__put_data_def bytes_at_def Let_def)

section \<open>The decoder on a queue\<close>

text \<open>The buffer that \<open>intel_pt_get_data\<close> passes to the callback.\<close>

definition zero_buffer :: intel_pt_buffer where
  "zero_buffer = \<lparr>b_buf = [], b_len = 0, b_consecutive = False, b_ref_timestamp = 0, b_trace_nr = 0\<rparr>"

text \<open>The queues that keep the invariant, as the data of a decoder.\<close>

typedef trace_client = "{ptq. client_ok ptq}"
  by (intro exI [of _ "\<lparr>ptq_queue = empty_queue, ptq_buffer = None, ptq_old_buffer = None, ptq_stop = False, ptq_step_through_buffers = False,
    ptq_snapshot_mode = False, ptq_sampling_mode = False, ptq_have_tsc = False, ptq_mem = \<lambda>_. 0\<rparr>"])
    (simp add: client_ok_def rest_def next_pos_def empty_queue_def)

setup_lifting type_definition_trace_client

lift_definition client_get_trace :: "map_env \<Rightarrow> intel_pt_buffer \<Rightarrow> trace_client \<Rightarrow> (int \<times> intel_pt_buffer) \<times> trace_client"
  is "\<lambda>env b ptq. the (intel_pt_get_trace env b ptq)"
  subgoal for env b ptq using get_trace_ends [of ptq env b] by (auto simp: ends_def gets_def)
  done

lift_definition client_left :: "trace_client \<Rightarrow> nat" is data_left .

lemma client_trace_law: "pe_get_trace env = client_get_trace menv b \<Longrightarrow> trace_law env client_left"
  unfolding trace_law_def
proof (intro allI impI, goal_cases)
  case (1 c ret b' c')
  then have "client_get_trace menv b c = ((ret, b'), c')" by simp
  then show ?case
  proof (transfer fixing: menv b ret b')
    fix c c'
    assume "client_ok c" "client_ok c'" "the (intel_pt_get_trace menv b c) = ((ret, b'), c')"
    then have "gets c ((ret, b'), c')" using get_trace_ends [of c menv b] by (auto simp: ends_def)
    then show "data_left c' \<le> data_left c \<and> (ret = 0 \<or> ret = - ENOMEM) \<and>
      (ret = 0 \<longrightarrow> b_len b' \<le> length (b_buf b') \<and> b_len b' < SIZE_RANGE \<and>
        (b_len b' \<noteq> 0 \<longrightarrow> INTEL_PT_PKT_MAX_SZ \<le> b_len b' \<and> data_left c' + b_len b' < data_left c))"
      by (simp add: gets_def)
  qed
qed

section \<open>Properties\<close>

text \<open>
  C2.  The decoder on a queue of the session: when \<open>intel_pt_get_trace\<close> serves the decoder from a queue of a trace without gaps, with any number of buffers,
  empty or of at least 16 bytes, that are mapped when they are needed or are in memory, every call of \<open>intel_pt_decode\<close> returns, never reports an internal
  error, and does not go back in the queue.
\<close>

theorem intel_pt_decode_queue_returns:
  assumes "pe_get_trace env = client_get_trace menv zero_buffer" and "walk_law env client_left" and "allocs_ok (pe_alloc env)"
    and "p_mtc_period params \<le> 16" and "intel_pt_decoder_new env ok params = Some (Some d)" and "decodes env d d'"
  shows "\<exists>d''. intel_pt_decode env d' = Some d'' \<and> s_err (d_state d'') \<noteq> Some INTEL_PT_ERR_INTERN \<and>
    client_left (d_data d'') \<le> client_left (d_data d')"
proof -
  have env: "env_law env client_left" using client_trace_law [OF assms(1)] assms(2,3) by (simp add: env_law_def)
  show ?thesis
    using intel_pt_decode_ends [OF env decodes_inv [OF assms(6) env intel_pt_decoder_new_inv [OF assms(5,4)]]] by (auto simp: ends_def)
qed

text \<open>A queue with an empty buffer between two buffers in memory.\<close>

definition demo_buffer :: "u64 \<Rightarrow> u64 \<Rightarrow> auxtrace_buffer" where
  "demo_buffer addr sz = \<lparr>ab_size = sz, ab_pid = - 1, ab_tid = 1, ab_cpu = 0, ab_data = addr, ab_data_offset = 0, ab_mmap_addr = 0, ab_mmap_size = 0,
     ab_data_needs_freeing = False, ab_consecutive = False, ab_offset = 0, ab_reference = 0, ab_buffer_nr = 0, ab_use_size = 0, ab_use_data = 0\<rparr>"

lift_definition demo_client :: trace_client is
  "\<lparr>ptq_queue = empty_queue \<lparr>aq_head := [demo_buffer 4096 16, demo_buffer 8192 0, demo_buffer 12288 20]\<rparr>, ptq_buffer = None, ptq_old_buffer = None,
    ptq_stop = False, ptq_step_through_buffers = False, ptq_snapshot_mode = False, ptq_sampling_mode = False, ptq_have_tsc = True,
    ptq_mem = (\<lambda>a. if even a then 0x02 else 0x82)\<rparr>"
  by (simp add: client_ok_def next_pos_def rest_def data_len_def demo_buffer_def)

definition demo_map_env :: map_env where
  "demo_map_env = \<lparr>me_page_size = 4096, me_mmap = (\<lambda>m sz off. None), me_load = (\<lambda>m b. m)\<rparr>"

definition demo_client_env :: "(trace_client, int) pt_env" where
  "demo_client_env = \<lparr>pe_get_trace = client_get_trace demo_map_env zero_buffer,
     pe_walk_insn = (\<lambda>c ip to_ip mx. ((- ENOENT, \<lparr>pi_op = INTEL_PT_OP_OTHER, pi_branch = INTEL_PT_BR_NO_BRANCH, pi_length = 0, pi_rel = 0,
       pi_buf = replicate 16 0\<rparr>, 0, ip), c)),
     pe_pgd_ip = None, pe_alloc = (\<lambda>n. None), pe_long_bits = 64, pe_fp = demo_fp\<rparr>"

definition demo_client_params :: "trace_client intel_pt_params" where
  "demo_client_params = \<lparr>p_data = demo_client, p_return_compression = False, p_branch_enable = True, p_period = 0,
     p_period_type = INTEL_PT_PERIOD_NONE, p_max_non_turbo_ratio = 0, p_mtc_period = 3, p_tsc_ctc_ratio_n = 2, p_tsc_ctc_ratio_d = 1, p_flags = 0\<rparr>"

theorem intel_pt_decode_queue_returns_witness:
  "\<exists>d d'. intel_pt_decoder_new demo_client_env True demo_client_params = Some (Some d) \<and> intel_pt_decode demo_client_env d = Some d' \<and>
    s_err (d_state d') \<noteq> Some INTEL_PT_ERR_INTERN \<and> client_left (d_data d') \<le> 39"
proof -
  have "\<exists>d. intel_pt_decoder_new demo_client_env True demo_client_params = Some (Some d) \<and> d_data d = demo_client"
    by (simp add: intel_pt_decoder_new_def demo_client_params_def intel_pt_setup_period_def zero_decoder_def Let_def)
  then obtain d where d: "intel_pt_decoder_new demo_client_env True demo_client_params = Some (Some d)" "d_data d = demo_client" by blast
  have "client_left demo_client = 39" by transfer (simp add: data_left_def next_pos_def rest_def data_len_def demo_buffer_def)
  moreover have "pe_get_trace demo_client_env = client_get_trace demo_map_env zero_buffer" "walk_law demo_client_env client_left"
      "allocs_ok (pe_alloc demo_client_env)"
    by (simp_all add: demo_client_env_def walk_law_def allocs_ok_def)
  ultimately show ?thesis using intel_pt_decode_queue_returns [OF _ _ _ _ d(1) decodes.start, of demo_map_env] d by (auto simp: demo_client_params_def)
qed

end
