(* ===== verification/Intel_PT_Branches.thy ===== *)
theory Intel_PT_Branches
  imports Intel_PT_State
begin

text \<open>
  The last branches of a sample (\<^verbatim>\<open>util/intel-pt.c\<close>): every branch that the decoder reports goes to a ring buffer, from the end of its array to the
  start, and a sample gets a copy with the newest branch first.  Both arrays have \<open>last_branch_sz\<close> entries.  The
  flags of a branch that nothing sets are left out.
\<close>

section \<open>The code\<close>

record branch_entry =
  be_from :: u64
  be_to :: u64
  be_mispred :: bool
  be_in_tx :: bool
  be_abort :: bool

record branch_stack =
  bs_nr :: nat
  bs_entries :: "branch_entry list"

text \<open>The fields of \<open>struct intel_pt_queue\<close>, with those of the session's options.\<close>

record branch_queue =
  last_branch :: branch_stack
  last_branch_rb :: branch_stack
  last_branch_pos :: nat
  last_branch_sz :: nat
  mispred_all :: bool

definition intel_pt_copy_last_branch_rb :: "branch_queue \<Rightarrow> branch_queue option" where
  "intel_pt_copy_last_branch_rb ptq =
     (let src = last_branch_rb ptq;
          dst = (last_branch ptq) \<lparr>bs_nr := bs_nr src\<rparr> in
      if bs_nr src = 0 then Some (ptq \<lparr>last_branch := dst\<rparr>)
      else do {
        let nr = size_sub (last_branch_sz ptq) (last_branch_pos ptq);
        e \<leftarrow> memcpy_to (bs_entries dst) (drop (last_branch_pos ptq) (bs_entries src)) nr;
        e \<leftarrow> (if bs_nr src \<ge> last_branch_sz ptq
              then map_option ((@) (take nr e)) (memcpy_to (drop nr e) (bs_entries src) (last_branch_pos ptq))
              else Some e);
        Some (ptq \<lparr>last_branch := dst \<lparr>bs_entries := e\<rparr>\<rparr>)
      })"

definition intel_pt_reset_last_branch_rb :: "branch_queue \<Rightarrow> branch_queue" where
  "intel_pt_reset_last_branch_rb ptq =
     ptq \<lparr>last_branch_pos := 0, last_branch_rb := (last_branch_rb ptq) \<lparr>bs_nr := 0\<rparr>\<rparr>"

definition branch_of :: "bool \<Rightarrow> intel_pt_state \<Rightarrow> branch_entry" where
  "branch_of mispred state =
     \<lparr>be_from = s_from_ip state, be_to = s_to_ip state, be_mispred = mispred,
      be_in_tx = (s_flags state AND INTEL_PT_IN_TX \<noteq> 0), be_abort = (s_flags state AND INTEL_PT_ABORT_TX \<noteq> 0)\<rparr>"

definition intel_pt_update_last_branch_rb :: "branch_queue \<Rightarrow> intel_pt_state \<Rightarrow> branch_queue option" where
  "intel_pt_update_last_branch_rb ptq state = do {
     let pos = (if last_branch_pos ptq = 0 then last_branch_sz ptq else last_branch_pos ptq);
     let pos = size_sub pos 1;
     let bs = last_branch_rb ptq;
     e \<leftarrow> wr (bs_entries bs) pos (branch_of (mispred_all ptq) state);
     let bs = bs \<lparr>bs_entries := e\<rparr>;
     let bs = (if bs_nr bs < last_branch_sz ptq then bs \<lparr>bs_nr := bs_nr bs + 1\<rparr> else bs);
     Some (ptq \<lparr>last_branch_pos := pos, last_branch_rb := bs\<rparr>)
   }"

section \<open>The list of branches that the ring buffer stands for\<close>

definition branches_wf :: "branch_queue \<Rightarrow> bool" where
  "branches_wf q \<longleftrightarrow> 0 < last_branch_sz q \<and> last_branch_sz q < 2 ^ 32 \<and>
     length (bs_entries (last_branch q)) = last_branch_sz q \<and> length (bs_entries (last_branch_rb q)) = last_branch_sz q"

text \<open>The entries from the newest one on, around the end of the array.\<close>

definition ring :: "branch_queue \<Rightarrow> branch_entry list" where
  "ring q = drop (last_branch_pos q) (bs_entries (last_branch_rb q)) @ take (last_branch_pos q) (bs_entries (last_branch_rb q))"

text \<open>The ring buffer holds the branches \<open>bs\<close> since the last reset, the newest first.\<close>

definition holds :: "branch_queue \<Rightarrow> branch_entry list \<Rightarrow> bool" where
  "holds q bs \<longleftrightarrow> branches_wf q \<and> bs_nr (last_branch_rb q) = min (length bs) (last_branch_sz q) \<and> last_branch_pos q < last_branch_sz q \<and>
     (length bs < last_branch_sz q \<longrightarrow> last_branch_pos q = (if bs = [] then 0 else last_branch_sz q - length bs)) \<and>
     take (bs_nr (last_branch_rb q)) (ring q) = take (last_branch_sz q) bs"

lemma holds_reset: "branches_wf q \<Longrightarrow> holds (intel_pt_reset_last_branch_rb q) []"
  by (simp add: holds_def branches_wf_def intel_pt_reset_last_branch_rb_def)

lemma ring_update:
  assumes "length e = sz" and "p < sz" and "p' = (if p = 0 then sz else p) - 1"
  shows "drop p' (e[p' := x]) @ take p' (e[p' := x]) = x # butlast (drop p e @ take p e)"
proof (cases "p = 0")
  case True
  then have "p' < length e" "length e = Suc p'" using assms by auto
  then show ?thesis using True by (simp add: butlast_conv_take flip: Cons_nth_drop_Suc)
next
  case False
  then have p: "p = Suc p'" "p' < length e" using assms by auto
  then show ?thesis by (simp add: butlast_append take_Suc_conv_app_nth flip: Cons_nth_drop_Suc)
qed

lemma update_holds:
  assumes "holds q bs"
  shows "\<exists>q'. intel_pt_update_last_branch_rb q s = Some q' \<and> holds q' (branch_of (mispred_all q) s # bs) \<and>
    last_branch_sz q' = last_branch_sz q \<and> mispred_all q' = mispred_all q"
proof -
  let ?sz = "last_branch_sz q" and ?p = "last_branch_pos q" and ?x = "branch_of (mispred_all q) s"
  let ?e = "bs_entries (last_branch_rb q)"
  define p' where "p' = (if ?p = 0 then ?sz else ?p) - 1"
  have wf: "0 < ?sz" "?sz < SIZE_RANGE" "length ?e = ?sz" "?p < ?sz"
    using assms by (auto simp: holds_def branches_wf_def SIZE_RANGE_def)
  then have p': "size_sub (if ?p = 0 then ?sz else ?p) 1 = p'" "p' < ?sz" by (auto simp: p'_def)
  have nr: "bs_nr (last_branch_rb q) = min (length bs) ?sz" using assms by (simp add: holds_def)
  define q' where "q' = q \<lparr>last_branch_pos := p',
    last_branch_rb := (last_branch_rb q) \<lparr>bs_entries := ?e[p' := ?x], bs_nr := min (Suc (bs_nr (last_branch_rb q))) ?sz\<rparr>\<rparr>"
  then have q': "last_branch_pos q' = p'" "bs_entries (last_branch_rb q') = ?e[p' := ?x]" "last_branch_sz q' = ?sz"
      "bs_nr (last_branch_rb q') = min (Suc (bs_nr (last_branch_rb q))) ?sz" "last_branch q' = last_branch q" "mispred_all q' = mispred_all q"
    by simp_all
  have "intel_pt_update_last_branch_rb q s = Some q'"
    using p' wf(3) nr unfolding intel_pt_update_last_branch_rb_def q'_def Let_def
    by (cases "last_branch_rb q"; cases "bs_nr (last_branch_rb q) < ?sz") auto
  have r: "ring q' = ?x # butlast (ring q)" using ring_update [OF wf(3,4) p'_def] q' by (simp add: ring_def)
  have "length (ring q) = ?sz" using wf by (simp add: ring_def)
  then have "take (bs_nr (last_branch_rb q')) (ring q') = take ?sz (?x # bs)"
    using r q'(4) nr wf(1) assms unfolding holds_def
    by (cases ?sz) (auto simp: butlast_conv_take min_def take_all_iff split: if_splits)
  moreover note \<open>intel_pt_update_last_branch_rb q s = Some q'\<close>
  moreover have "length bs + 1 < ?sz \<Longrightarrow> p' = ?sz - (length bs + 1)"
    using assms wf by (auto simp: holds_def p'_def split: if_splits)
  ultimately show ?thesis using q' p' wf nr assms by (auto simp: holds_def branches_wf_def)
qed

lemma copy_holds:
  assumes "holds q bs"
  shows "\<exists>q'. intel_pt_copy_last_branch_rb q = Some q' \<and> holds q' bs \<and> last_branch_sz q' = last_branch_sz q \<and> mispred_all q' = mispred_all q \<and>
    bs_nr (last_branch q') = min (length bs) (last_branch_sz q) \<and>
    take (bs_nr (last_branch q')) (bs_entries (last_branch q')) = take (last_branch_sz q) bs"
proof -
  let ?sz = "last_branch_sz q" and ?p = "last_branch_pos q" and ?src = "bs_entries (last_branch_rb q)" and ?dst = "bs_entries (last_branch q)"
  let ?nr = "bs_nr (last_branch_rb q)"
  have wf: "0 < ?sz" "?sz < SIZE_RANGE" "length ?src = ?sz" "length ?dst = ?sz" "?p < ?sz" and nr: "?nr = min (length bs) ?sz"
    and r: "take ?nr (ring q) = take ?sz bs" and p: "length bs < ?sz \<Longrightarrow> ?p = (if bs = [] then 0 else ?sz - length bs)"
    using assms by (auto simp: holds_def branches_wf_def SIZE_RANGE_def)
  let ?q = "\<lambda>e. q \<lparr>last_branch := \<lparr>bs_nr = ?nr, bs_entries = e\<rparr>\<rparr>"
  have H: "holds (?q e) bs" if "length e = ?sz" for e
  proof -
    have "ring (?q e) = ring q" by (simp add: ring_def)
    then show ?thesis using assms that by (auto simp: holds_def branches_wf_def)
  qed
  have "\<exists>e. intel_pt_copy_last_branch_rb q = Some (?q e) \<and> length e = ?sz \<and> take ?nr e = take ?sz bs"
  proof (cases "length bs < ?sz")
    case False
    then have "?nr = ?sz" using nr by simp
    then have "intel_pt_copy_last_branch_rb q = Some (?q (ring q))"
      using wf by (cases "last_branch q") (simp add: intel_pt_copy_last_branch_rb_def memcpy_to_def ring_def Let_def)
    moreover have "length (ring q) = ?sz" using wf by (simp add: ring_def)
    ultimately show ?thesis using r by blast
  next
    case True
    show ?thesis
    proof (cases "bs = []")
      case True
      then show ?thesis using wf nr
        by (intro exI [of _ ?dst]) (cases "last_branch q"; simp add: intel_pt_copy_last_branch_rb_def)
    next
      case False
      let ?e = "drop ?p ?src @ drop (length bs) ?dst"
      have n: "?p = ?sz - length bs" "?nr = length bs" "?nr \<noteq> 0" "?nr < ?sz" using True False p nr by auto
      then have "intel_pt_copy_last_branch_rb q = Some (?q ?e)"
        using wf True by (cases "last_branch q") (simp add: intel_pt_copy_last_branch_rb_def memcpy_to_def Let_def)
      moreover have "length ?e = ?sz" "take ?nr ?e = take ?nr (ring q)"
        using wf True n by (simp_all add: ring_def)
      ultimately show ?thesis using r by metis
    qed
  qed
  then show ?thesis using H nr by auto
qed

section \<open>Properties\<close>

fun update_all :: "branch_queue \<Rightarrow> intel_pt_state list \<Rightarrow> branch_queue option" where
  "update_all q [] = Some q"
| "update_all q (s # ss) = do { q \<leftarrow> intel_pt_update_last_branch_rb q s; update_all q ss }"

lemma update_all_holds:
  "holds q bs \<Longrightarrow> \<exists>q'. update_all q ss = Some q' \<and> holds q' (rev (map (branch_of (mispred_all q)) ss) @ bs) \<and>
    last_branch_sz q' = last_branch_sz q \<and> mispred_all q' = mispred_all q"
proof (induction ss arbitrary: q bs)
  case (Cons s ss)
  from update_holds [OF Cons.prems, of s] obtain q1 where
    q1: "intel_pt_update_last_branch_rb q s = Some q1" "holds q1 (branch_of (mispred_all q) s # bs)"
      "last_branch_sz q1 = last_branch_sz q" "mispred_all q1 = mispred_all q" by blast
  then show ?case using Cons.IH [OF q1(2)] by simp
qed simp

text \<open>
  C15.  After a reset, any number of branches can be recorded, and the sample that follows gets exactly the last ones, at most \<open>last_branch_sz\<close>, the
  newest first, whatever the arrays held before; all accesses are within the arrays.
\<close>

theorem last_branches_newest_first:
  assumes "branches_wf q"
  shows "\<exists>q1 q2. update_all (intel_pt_reset_last_branch_rb q) ss = Some q1 \<and> intel_pt_copy_last_branch_rb q1 = Some q2 \<and> branches_wf q2 \<and>
    bs_nr (last_branch q2) = min (length ss) (last_branch_sz q) \<and>
    take (bs_nr (last_branch q2)) (bs_entries (last_branch q2)) = take (last_branch_sz q) (rev (map (branch_of (mispred_all q)) ss))"
proof -
  let ?q = "intel_pt_reset_last_branch_rb q"
  have 0: "last_branch_sz ?q = last_branch_sz q" "mispred_all ?q = mispred_all q" by (simp_all add: intel_pt_reset_last_branch_rb_def)
  from update_all_holds [OF holds_reset [OF assms], of ss] obtain q1 where
    q1: "update_all ?q ss = Some q1" "holds q1 (rev (map (branch_of (mispred_all q)) ss))" "last_branch_sz q1 = last_branch_sz q"
    by (auto simp: 0)
  then show ?thesis using copy_holds [OF q1(2)] by (auto simp: holds_def)
qed

definition demo_branch :: "u64 \<Rightarrow> intel_pt_state" where
  "demo_branch ip = \<lparr>s_type = INTEL_PT_BRANCH, s_err = None, s_from_ip = ip, s_to_ip = ip + 100, s_cr3 = 0, s_tot_insn_cnt = 0, s_timestamp = 0,
     s_est_timestamp = 0, s_trace_nr = 0, s_ptw_payload = 0, s_mwait_payload = 0, s_pwre_payload = 0, s_pwrx_payload = 0, s_cbr_payload = 0,
     s_flags = INTEL_PT_IN_TX, s_insn_op = INTEL_PT_OP_CALL, s_insn_len = 5, s_insn = []\<rparr>"

definition demo_branches :: branch_queue where
  "demo_branches = (let e = replicate 2 (branch_of False (demo_branch 7)) in
     \<lparr>last_branch = \<lparr>bs_nr = 0, bs_entries = e\<rparr>, last_branch_rb = \<lparr>bs_nr = 2, bs_entries = e\<rparr>, last_branch_pos = 1, last_branch_sz = 2,
      mispred_all = True\<rparr>)"

theorem last_branches_newest_first_witness:
  "\<exists>q1 q2. update_all (intel_pt_reset_last_branch_rb demo_branches) (map demo_branch [1, 2, 3]) = Some q1 \<and>
    intel_pt_copy_last_branch_rb q1 = Some q2 \<and> map be_from (take 2 (bs_entries (last_branch q2))) = [3, 2]"
proof -
  let ?ss = "map demo_branch [1, 2, 3]"
  have d: "branches_wf demo_branches" "last_branch_sz demo_branches = 2" "mispred_all demo_branches"
    by (simp_all add: branches_wf_def demo_branches_def Let_def)
  have n: "min (length ?ss) 2 = 2" by simp
  obtain q1 q2 where q: "update_all (intel_pt_reset_last_branch_rb demo_branches) ?ss = Some q1" "intel_pt_copy_last_branch_rb q1 = Some q2"
      "take 2 (bs_entries (last_branch q2)) = take 2 (rev (map (branch_of (mispred_all demo_branches)) ?ss))"
    using last_branches_newest_first [OF d(1), of ?ss] unfolding d(2) n by metis
  have "map be_from (take 2 (bs_entries (last_branch q2))) = [3, 2]" unfolding q(3) by (simp add: branch_of_def demo_branch_def)
  then show ?thesis using q(1,2) by (intro exI conjI)
qed

end
