(* ===== verification/Perf_Tsc.thy ===== *)
theory Perf_Tsc
  imports Perf_Prelude
begin

text \<open>
  The conversion between the time of perf events, in nanoseconds, and the time stamp counter (\<^verbatim>\<open>util/tsc.c\<close>).  A division by zero and a shift by the
  width of the operand or more are undefined.  The arithmetic is that of \<open>u64\<close>, which wraps around.
\<close>

section \<open>The code\<close>

record perf_tsc_conversion =
  time_shift :: nat
  time_mult :: u32
  time_zero :: u64

definition perf_time_to_tsc :: "u64 \<Rightarrow> perf_tsc_conversion \<Rightarrow> u64 option" where
  "perf_time_to_tsc ns tc =
     (if time_mult tc = 0 \<or> time_shift tc \<ge> 64 then None
      else
        let t = ns - time_zero tc;
            quot = t div ucast (time_mult tc);
            rem = t mod ucast (time_mult tc) in
        Some (push_bit (time_shift tc) quot + push_bit (time_shift tc) rem div ucast (time_mult tc)))"

definition tsc_to_perf_time :: "u64 \<Rightarrow> perf_tsc_conversion \<Rightarrow> u64 option" where
  "tsc_to_perf_time cyc tc =
     (if time_shift tc \<ge> 64 then None
      else
        let quot = drop_bit (time_shift tc) cyc;
            rem = cyc AND (push_bit (time_shift tc) 1 - 1) in
        Some (time_zero tc + quot * ucast (time_mult tc) + drop_bit (time_shift tc) (rem * ucast (time_mult tc))))"

section \<open>The values\<close>

text \<open>A product and a quotient in two parts.\<close>

lemma muldiv_parts: "c div p * m + c mod p * m div p = c * m div (p :: nat)" if "0 < p"
proof -
  have "c * m = c mod p * m + c div p * m * p" by (metis add_mult_distrib mod_div_mult_eq mult.assoc mult.commute)
  then show ?thesis using that by (simp add: div_mult_self1)
qed

lemma mask_word: "unat (c AND (push_bit s 1 - 1) :: u64) = unat c mod 2 ^ s"
proof -
  have "c AND (push_bit s 1 - 1) = take_bit s c" by (simp add: take_bit_eq_mask mask_eq_exp_minus_1)
  then show ?thesis by (metis take_bit_eq_mod unsigned_take_bit_eq)
qed

text \<open>A word by its value.\<close>

lemma word_nat_eqI: "unat w = n \<Longrightarrow> w = of_nat n"
  by auto

lemma word_nat_sumI: "x = of_nat a \<Longrightarrow> y = of_nat b \<Longrightarrow> a + b = n \<Longrightarrow> x + y = (of_nat n :: u64)"
  by auto

lemma drop_bit_word: "drop_bit s c = of_nat (unat (c :: u64) div 2 ^ s)"
  by (rule word_nat_eqI) (metis drop_bit_eq_div unat_drop_bit_eq)

lemma push_bit_word: "push_bit s c = (of_nat (unat (c :: u64) * 2 ^ s) :: u64)"
  by (simp add: push_bit_eq_mult)

lemma unat_time_mult [simp]: "unat (ucast (m :: u32) :: u64) = unat m"
proof -
  have "unat m < 2 ^ 32" using unsigned_less [of m] by simp
  then show ?thesis by (simp add: unsigned_ucast_eq take_bit_nat_eq_self)
qed

lemma mult_word: "a * ucast (m :: u32) = (of_nat (unat (a :: u64) * unat m) :: u64)"
  by simp

lemma small_mult: "a < 2 ^ s \<Longrightarrow> s \<le> 32 \<Longrightarrow> b < 2 ^ 32 \<Longrightarrow> a * b < (2 ^ 64 :: nat)"
proof -
  assume "a < 2 ^ s" "s \<le> 32" "b < 2 ^ 32"
  then have "a < 2 ^ 32" using power_increasing [of s 32 "2 :: nat"] by linarith
  then have "a * b < 2 ^ 32 * 2 ^ 32" using \<open>b < 2 ^ 32\<close> by (intro mult_strict_mono) auto
  then show ?thesis by (simp flip: power_add)
qed

lemma tsc_to_perf_time_value:
  assumes "time_shift tc \<le> 32"
  shows "tsc_to_perf_time cyc tc =
    Some (time_zero tc + of_nat (unat cyc * unat (time_mult tc) div 2 ^ time_shift tc))"
proof -
  let ?s = "time_shift tc" and ?m = "unat (time_mult tc)"
  let ?rem = "cyc AND (push_bit ?s 1 - 1)"
  have m: "?m < 2 ^ 32" using unsigned_less [of "time_mult tc"] by simp
  have "unat ?rem * ?m < 2 ^ 64" using small_mult [OF _ assms m] unfolding mask_word by simp
  then have "unat (?rem * ucast (time_mult tc)) = unat cyc mod 2 ^ ?s * ?m"
    unfolding mult_word mask_word by (intro unat_of_nat_small) simp
  then have rem: "drop_bit ?s (?rem * ucast (time_mult tc)) = of_nat (unat cyc mod 2 ^ ?s * ?m div 2 ^ ?s)"
    by (metis drop_bit_word)
  have "unat (drop_bit ?s cyc) = unat cyc div 2 ^ ?s" by (metis drop_bit_eq_div unat_drop_bit_eq)
  then have quot: "drop_bit ?s cyc * ucast (time_mult tc) = of_nat (unat cyc div 2 ^ ?s * ?m)"
    unfolding mult_word by (rule arg_cong)
  have "drop_bit ?s cyc * ucast (time_mult tc) + drop_bit ?s (?rem * ucast (time_mult tc)) = of_nat (unat cyc * ?m div 2 ^ ?s)"
    by (rule word_nat_sumI [OF quot rem muldiv_parts]) simp
  then show ?thesis using assms unfolding tsc_to_perf_time_def Let_def add.assoc by simp
qed

lemma perf_time_to_tsc_value:
  assumes "time_shift tc \<le> 32" and "time_mult tc \<noteq> 0"
  shows "perf_time_to_tsc ns tc =
    Some (of_nat (unat (ns - time_zero tc) * 2 ^ time_shift tc div unat (time_mult tc)))"
proof -
  define t where "t = ns - time_zero tc"
  let ?s = "time_shift tc" and ?m = "unat (time_mult tc)" and ?M = "ucast (time_mult tc) :: u64"
  have m: "?m < 2 ^ 32" "0 < ?m" using unsigned_less [of "time_mult tc"] assms(2) by (simp_all add: unat_gt_0)
  have r: "unat (t mod ?M) = unat t mod ?m" "unat (t div ?M) = unat t div ?m"
    unfolding unat_mod_distrib unat_div_distrib unat_time_mult by simp_all
  have "unat t mod ?m < 2 ^ 32" using m mod_less_divisor [of ?m "unat t"] by linarith
  moreover have "(2 :: nat) ^ ?s \<le> 2 ^ 32" using assms(1) by (intro power_increasing) simp_all
  ultimately have "unat t mod ?m * 2 ^ ?s < 2 ^ 32 * 2 ^ 32" by (intro mult_less_le_imp_less) simp_all
  then have "unat (push_bit ?s (t mod ?M)) = unat t mod ?m * 2 ^ ?s"
    unfolding push_bit_word r by (intro unat_of_nat_small) simp
  then have rem: "push_bit ?s (t mod ?M) div ?M = of_nat (unat t mod ?m * 2 ^ ?s div ?m)"
    by (intro word_nat_eqI) (simp only: unat_div_distrib unat_time_mult)
  have quot: "push_bit ?s (t div ?M) = of_nat (unat t div ?m * 2 ^ ?s)" by (simp only: push_bit_word r)
  have "push_bit ?s (t div ?M) + push_bit ?s (t mod ?M) div ?M = of_nat (unat t * 2 ^ ?s div ?m)"
    by (rule word_nat_sumI [OF quot rem muldiv_parts]) (rule m)
  then show ?thesis using assms unfolding perf_time_to_tsc_def Let_def t_def by simp
qed

section \<open>Properties\<close>

text \<open>
  C16.  A counter value that is converted to the time of perf events and back does not grow, and what it loses is less than one nanosecond and one
  tick.  The shift is at most 32, the multiplier is not zero, and the time since \<open>time_zero\<close> fits its type.
\<close>

theorem tsc_time_roundtrip:
  assumes "time_shift tc \<le> 32" and "time_mult tc \<noteq> 0" and "unat cyc * unat (time_mult tc) div 2 ^ time_shift tc < 2 ^ 64"
  shows "\<exists>ns cyc'. tsc_to_perf_time cyc tc = Some ns \<and> perf_time_to_tsc ns tc = Some cyc' \<and> cyc' \<le> cyc \<and>
    (unat cyc - unat cyc') * unat (time_mult tc) < 2 ^ time_shift tc + unat (time_mult tc)"
proof -
  define s m c t where "s = (2 :: nat) ^ time_shift tc" and "m = unat (time_mult tc)" and "c = unat cyc" and "t = c * m div s"
  define c' where "c' = t * s div m"
  have p: "0 < s" "0 < m" using assms(2) by (simp_all add: s_def m_def unat_gt_0)
  have t: "t * s \<le> c * m" "c * m < t * s + s"
    using div_mult_mod_eq [of "c * m" s] mod_less_divisor [OF p(1), of "c * m"] unfolding t_def by linarith+
  have c': "c' * m \<le> t * s" "t * s < c' * m + m"
    using div_mult_mod_eq [of "t * s" m] mod_less_divisor [OF p(2), of "t * s"] unfolding c'_def by linarith+
  have "c' * m \<le> c * m" using t(1) c'(1) by linarith
  then have le: "c' \<le> c" using p(2) by simp
  have lost: "(c - c') * m < s + m" using t(2) c'(2) p unfolding diff_mult_distrib by linarith
  have ut: "unat (of_nat t :: u64) = t" using assms(3) by (intro unat_of_nat_small) (simp add: t_def c_def m_def s_def)
  have "c < 2 ^ 64" using unsigned_less [of cyc] by (simp add: c_def)
  then have uc: "unat (of_nat c' :: u64) = c'" using le by (intro unat_of_nat_small) simp
  have "tsc_to_perf_time cyc tc = Some (time_zero tc + of_nat t)"
    using tsc_to_perf_time_value [OF assms(1), of cyc] by (simp add: t_def c_def m_def s_def)
  moreover have "perf_time_to_tsc (time_zero tc + of_nat t) tc = Some (of_nat c')"
    using perf_time_to_tsc_value [OF assms(1,2), of "time_zero tc + of_nat t"] ut by (simp add: c'_def m_def s_def)
  moreover have "(of_nat c' :: u64) \<le> cyc" using le uc by (simp add: word_le_nat_alt c_def)
  ultimately show ?thesis using lost uc by (auto simp: c_def m_def s_def)
qed

text \<open>A counter of 2.4 GHz.\<close>

definition demo_tc :: perf_tsc_conversion where
  "demo_tc = \<lparr>time_shift = 31, time_mult = 894784853, time_zero = 1000\<rparr>"

theorem tsc_time_roundtrip_witness:
  "\<exists>ns cyc'. tsc_to_perf_time 123456789 demo_tc = Some ns \<and> perf_time_to_tsc ns demo_tc = Some cyc' \<and> cyc' \<le> 123456789 \<and>
    (unat (123456789 :: u64) - unat cyc') * 894784853 < 2 ^ 31 + 894784853"
  using tsc_time_roundtrip [of demo_tc 123456789] by (simp add: demo_tc_def)

end
