(* ===== verification/Spec2Isabelle.thy ===== *)
theory Spec2Isabelle
  imports Intel_PT_Desc Intel_PT_Prefix Process_Queues Auxtrace_Queues Auxtrace_Ring Perf_String Intel_PT_Insn Levenshtein Ordered_Events Block_Range Strfilter Itrace_Opts Auxtrace_Index Intel_PT_Walk Arm_SPE Intel_PT_Overlap Intel_PT_Client Intel_PT_Branches Perf_Tsc
begin

text \<open>
  \<^bold>\<open>Verification of perf.\<close> perf records hardware and software events of the Linux kernel and reports on them.
  This development models the parts of its sources that compute: the decoders of hardware traces, the containers
  that bring trace data and events into the order of time, and the text utilities of its options.  File names are
  relative to the directory \<^verbatim>\<open>src/\<close>.

  \<^bold>\<open>The program.\<close>  A command (\<^verbatim>\<open>builtin-*.c\<close>) opens a session on a \<^verbatim>\<open>perf.data\<close> file.  The session reads events
  and queues them in \<^verbatim>\<open>util/ordered-events.c\<close>, which delivers them sorted.  Data of a hardware trace is copied
  out of a ring buffer while recording, and its events are listed in an index at the end of the file
  (\<^verbatim>\<open>util/auxtrace.c\<close>).  When the file is processed, the trace is split into queues, one for each CPU or thread;
  a heap finds the queue whose decoder is furthest behind, and the decoder runs on it
  (\<^verbatim>\<open>util/intel-pt.c\<close>, \<^verbatim>\<open>util/intel-bts.c\<close>).  A decoder reads packets (\<^verbatim>\<open>intel-pt-pkt-decoder.c\<close>,
  \<^verbatim>\<open>arm-spe-pkt-decoder.c\<close>) and follows the branches in the code of the traced program, for which it decodes x86
  instructions (\<^verbatim>\<open>insn.c\<close>) and keeps the decoded runs in a cache.

  \<^bold>\<open>Conventions.\<close>  A C function is a HOL function with its name.  What it changes is passed in and returned.
  A result of type \<open>'a option\<close> is \<open>None\<close> where the C code has undefined behaviour, fails an assertion or
  does not end; an error that C code returns is an ordinary value.  So \<open>\<exists>y. f x = Some y\<close> says that a call ends and
  is memory safe.  Integers are words of their width, or natural numbers and integers with the
  wrap-around written out.  Structures are records, memory is a list that is accessed with a check, pointers are indices
  or names of nodes.  A loop is a recursive function that terminates; a loop that may go on for ever is a
  \<^verbatim>\<open>partial_function\<close>, or its body under \<open>forever\<close>, and that it ends is then proved.  No definition uses fuel.

  Code outside of the sources is a parameter: whether an allocation succeeds and what fresh memory contains, the
  system calls, the red-black tree library and the hash function, the callbacks of a client, the maps and
  the data of the traced program, the arithmetic of \<open>double\<close>, and the tables that the build generates.  What the code relies on is a hypothesis of the theorems (for
  instance \<open>rb_law\<close>, \<open>tables_ok\<close> and \<open>env_law\<close>), and the theorems are applied to concrete instances of it.

  \<^bold>\<open>Shared theories.\<close>
  \<^item> \<open>Perf_Prelude\<close>: machine words, checked memory, little-endian loads, the text of integers and \<open>snprintf\<close>.
  \<^item> \<open>C_Library\<close>, \<open>Perf_Ctype\<close>: C strings, scanning, \<open>strtoul\<close> and the like; the character classes of
    \<^verbatim>\<open>util/ctype.c\<close> and \<^verbatim>\<open>util/sane_ctype.h\<close>.
  \<^item> \<open>Total_Loops\<close>: \<open>ends m Q\<close>, which says that a computation returns and what holds then, and the rule for loops under \<open>forever\<close> with
    an invariant and a measure.
  \<^item> \<open>Packet_Decoder\<close>: the dump loop that the trace decoders share, and the contracts \<open>packet_decoder\<close> and
    \<open>packet_printer\<close> under which it shows every byte once and ends.

  \<^bold>\<open>Intel PT packets\<close> (\<^verbatim>\<open>util/intel-pt-decoder/intel-pt-pkt-decoder.c\<close>, \<open>intel_pt_dump\<close> of \<^verbatim>\<open>util/intel-pt.c\<close>).
  \<open>Intel_PT_Pkt\<close> has the readers and \<open>intel_pt_get_packet\<close>: they stay inside the buffer and return a size within
  it or an error.  \<open>Intel_PT_Roundtrip\<close> encodes branch outcomes and cycle counts and shows that decoding gives them back.
  \<open>Intel_PT_Prefix\<close> shows that a packet depends on its own bytes only.  \<open>Intel_PT_Desc\<close> has the printer
  and interprets the contract of the dump: the description fits its array of 256 characters, and
  the dump is complete.

  \<^bold>\<open>Intel PT decoder\<close> (\<^verbatim>\<open>util/intel-pt-decoder/intel-pt-decoder.c\<close>).  The decoder turns packets and the code of the program into branches and
  samples.  \<open>Intel_PT_State\<close> has its state \<open>intel_pt_decoder\<close> with the fields of the structure, the client as the record \<open>pt_env\<close>, the stack of return addresses
  and the compressed addresses.  \<open>Intel_PT_Fetch\<close> gets packets from the buffers of the client, \<open>Intel_PT_Time\<close> keeps the
  clock, and \<open>Intel_PT_Decode\<close> has the state machine: \<open>intel_pt_walk_trace\<close> and the functions it calls, scanning for a PSB packet, and \<open>intel_pt_decode\<close>.
  \<^item> \<open>Intel_PT_Progress\<close>: every call of \<open>intel_pt_decode\<close> returns, for every trace and every program, under the contract \<open>env_law\<close> of the client.  There is
    one lemma \<open>f_ends\<close> for each operation \<open>f\<close>, over the invariant \<open>pt_inv\<close> and the amount of trace data that is left.
  \<^item> \<open>Intel_PT_Stack\<close>: the blocks of the stack refine a list, and an address that was compressed is recovered.
  \<^item> \<open>Intel_PT_Time\<close>: the time is the full counter value of a TSC packet, and the time at which the crystal clock reached the period of an MTC packet.
  \<^item> \<open>Intel_PT_Overlap\<close>: where the data of one buffer continues that of another one is found without an access outside of the buffers, and without time stamps
    exactly.

  \<^bold>\<open>The client of the decoder\<close> (\<^verbatim>\<open>util/intel-pt.c\<close>, \<^verbatim>\<open>util/tsc.c\<close>).  \<open>Intel_PT_Client\<close> has \<open>intel_pt_get_trace\<close>, which hands the buffers of a queue to the
  decoder; for a trace without gaps it keeps the contract of \<open>Intel_PT_Progress\<close>, and the decoder on such a queue always returns.  \<open>Intel_PT_Branches\<close>: the
  ring buffer of the last branches refines a list.  \<open>Perf_Tsc\<close>: the conversion between the time of events and the counter goes back and forth without
  losing more than the rounding.

  \<^bold>\<open>Arm SPE packets\<close> (\<^verbatim>\<open>util/arm-spe-pkt-decoder.c\<close>, \<open>arm_spe_dump\<close> of \<^verbatim>\<open>util/arm-spe.c\<close>), \<open>Arm_SPE\<close>: packets written as the
  architecture defines them are dumped one by one with their texts.  This decoder does not satisfy \<open>packet_decoder\<close>: a
  packet can be longer than the buffer, and the dump then runs over the end of the memory.

  \<^bold>\<open>x86 instructions\<close> (\<^verbatim>\<open>insn.c\<close>, \<^verbatim>\<open>inat.c\<close> and \<^verbatim>\<open>intel-pt-insn-decoder.c\<close> of \<^verbatim>\<open>util/intel-pt-decoder\<close>).  \<open>X86_Insn\<close>
  and \<open>Intel_PT_Insn\<close> have the length decoder, the classification of branches and the printer of
  instructions: no read outside the buffer or the tables, lengths of 1 to 15 that are the
  sum of the fields, and the one instruction that is accepted although it is cut off.

  \<^bold>\<open>Code walk\<close> (\<open>intel_pt_walk_next_insn\<close> of \<^verbatim>\<open>util/intel-pt.c\<close>, \<open>auxtrace_cache__*\<close> of \<^verbatim>\<open>util/auxtrace.c\<close>).
  \<open>Auxtrace_Cache\<close> has the hash table and interprets the contract \<open>lossy_map\<close>: a lookup finds what was added
  last under the key, or nothing.  \<open>Intel_PT_Walk\<close> shows that a walk with the cache gives what a walk without it
  gives, where the 32-bit keys are distinct.

  \<^bold>\<open>Trace data\<close> (\<^verbatim>\<open>util/auxtrace.c\<close>).  \<open>Auxtrace_Ring\<close>: the bytes between the old and the new head of the ring
  are handed over in order, across the wrap-around.  \<open>Auxtrace_Queues\<close>: the array of queues grows and each buffer is appended to the
  queue of its index.  \<open>Auxtrace_Heap\<close>: the heap refines a priority queue (contract \<open>min_heap\<close>).
  \<open>Process_Queues\<close>: the loops of \<^verbatim>\<open>intel-pt.c\<close> and \<^verbatim>\<open>intel-bts.c\<close> over that contract return and leave no queue behind the
  target time.  \<open>Util_IO\<close> and \<open>Auxtrace_Index\<close>: \<open>readn\<close> and \<open>writen\<close> of \<^verbatim>\<open>util/util.c\<close>
  transfer everything in spite of partial and interrupted system calls, and the index that is written is read back, also
  in the other byte order.  \<open>Itrace_Opts\<close>: the parser of \<^verbatim>\<open>--itrace\<close>.

  \<^bold>\<open>Events and blocks.\<close>  \<open>Ordered_Events\<close> (\<^verbatim>\<open>util/ordered-events.c\<close>): queueing refines insertion into a sorted list, and every accepted
  event is delivered once.  \<open>Block_Range\<close> (\<^verbatim>\<open>util/block-range.c\<close>, \<open>process_basic_block\<close> of
  \<^verbatim>\<open>builtin-annotate.c\<close>): the blocks stay disjoint and sorted, and the coverage of an address is the number of
  basic blocks that contain it.

  \<^bold>\<open>Text.\<close>  \<open>Perf_String\<close> (\<^verbatim>\<open>util/string.c\<close>): glob patterns, word splitting, sizes, escapes and filter expressions.
  \<open>Strfilter\<close> (\<^verbatim>\<open>util/strfilter.c\<close>): parsing, evaluation and printing of rules over glob patterns.
  \<open>Levenshtein\<close> (\<^verbatim>\<open>util/levenshtein.c\<close>): the least weight of an edit script.

  \<^bold>\<open>Bounds.\<close>  Theorems that need a bound have it as a hypothesis: buffers shorter than the address space of \<open>2 ^ 64\<close> bytes, costs
  that fit an \<open>int\<close>, ASCII patterns, MTC periods up to 16.  The decoder gets finitely many buffers, each of at least 16 bytes, the size of the longest packet.
  A theorem that shows how the code fails beyond such a bound stands beside the property.

  \<^bold>\<open>Not modelled.\<close>  The synthesis of samples from the states of the Intel PT decoder and the set-up of its queues, which fill records for the event machinery of the
  session; the decoder built with \<open>INTEL_PT_STRICT\<close>, its log and the texts of its errors; the address filters and the callbacks of \<^verbatim>\<open>util/auxtrace.c\<close>; the CoreSight and s390 decoders,
  which work on an external library and on records of the hardware; sessions, headers, symbols, maps and
  DSOs, which read files and the state of the kernel; the parsers that flex and bison generate; probes, BPF, DWARF
  and unwinding, which call libraries; histograms, statistics and all user interfaces, which format output; the commands, the benchmarks, the
  JVM agent and the tests.  Logging, colours and the freeing of memory are left out of the functions that are modelled.
\<close>

end
